(* ===== verification/Revng_Prelude.thy ===== *)
theory Revng_Prelude
  imports Main "HOL-Library.Word" "HOL-Library.Monad_Syntax" "HOL-Library.Product_Lexorder"
begin

text \<open>
  The ground the component theories stand on: names for the machine integers of the C++
  sources, the type of computations that may stop at a \<^verbatim>\<open>revng_assert\<close>, the collections of
  lemmas the components add to, and the facts on words, lists and options they share.
\<close>

unbundle bit_operations_syntax

subsection \<open>Types\<close>

type_synonym u8 = "8 word"
type_synonym u16 = "16 word"
type_synonym u32 = "32 word"
type_synonym u64 = "64 word"
type_synonym u128 = "128 word"

text \<open>
  A value of type \<open>'a checked\<close> is the outcome of code that contains
  \<^verbatim>\<open>revng_assert\<close>, \<^verbatim>\<open>revng_check\<close>, \<^verbatim>\<open>revng_abort\<close>: \<^term>\<open>None\<close> when one of them fires (the process
  stops) or when C++ gives the expression no meaning, \<^term>\<open>Some x\<close> when \<open>x\<close> is returned.
  A \<^verbatim>\<open>std::optional\<close> result of such code is an option inside it.
\<close>

type_synonym 'a checked = "'a option"

definition revng_assert :: "bool \<Rightarrow> unit checked" where
  "revng_assert b = (if b then Some () else None)"

abbreviation (input) revng_abort :: "'a checked" where
  "revng_abort \<equiv> None"

text \<open>An element of a vector; reading beyond its end has no meaning.\<close>

definition at :: "'a list \<Rightarrow> nat \<Rightarrow> 'a checked" where
  "at xs i = (if i < length xs then Some (xs ! i) else None)"

subsection \<open>Collections\<close>

named_theorems checked_simps \<open>equations that run the checks of a computation\<close>
named_theorems table_defs \<open>definitions that are tables over an enumeration\<close>

lemma revng_assert_True [simp, checked_simps]: "revng_assert True = Some ()"
  and revng_assert_False [simp, checked_simps]: "revng_assert False = None"
  by (simp_all add: revng_assert_def)

lemma revng_assert_eq_Some [simp, checked_simps]: "revng_assert b = Some u \<longleftrightarrow> b"
  by (simp add: revng_assert_def)

lemma revng_assert_bind [checked_simps]:
  "(revng_assert b \<bind> f) = (if b then f () else None)"
  by (simp add: revng_assert_def)

lemma bind_Some_iff [checked_simps]:
  "(m \<bind> f) = Some y \<longleftrightarrow> (\<exists>x. m = Some x \<and> f x = Some y)"
  by (cases m) simp_all

lemma bind_neq_None: "(m \<bind> f) \<noteq> None \<longleftrightarrow> (\<exists>x. m = Some x \<and> f x \<noteq> None)"
  by (cases m) simp_all

subsection \<open>Little-endian byte strings\<close>

fun le_bytes :: "nat \<Rightarrow> nat \<Rightarrow> u8 list" where
  "le_bytes 0 v = []"
| "le_bytes (Suc n) v = word_of_nat (v mod 256) # le_bytes n (v div 256)"

fun le_value :: "u8 list \<Rightarrow> nat" where
  "le_value [] = 0"
| "le_value (b # bs) = unat b + 256 * le_value bs"

lemma le_bytes_numeral [simp]:
  "le_bytes (numeral k) v = word_of_nat (v mod 256) # le_bytes (pred_numeral k) (v div 256)"
  by (simp only: numeral_eq_Suc [of k] le_bytes.simps)

lemma length_le_bytes [simp]: "length (le_bytes n v) = n"
  by (induction n arbitrary: v) simp_all

lemma le_value_le_bytes: "le_value (le_bytes n v) = v mod 256 ^ n"
proof (induction n arbitrary: v)
  case 0
  show ?case by simp
next
  case (Suc n)
  have "v mod 256 + 256 * (v div 256 mod 256 ^ n) = v mod (256 * 256 ^ n)"
    by (simp add: mod_mult2_eq)
  with Suc show ?case by (simp add: unat_of_nat)
qed

lemma le_bytes_le_value: "le_bytes (length bs) (le_value bs) = bs"
proof (induction bs)
  case Nil
  show ?case by simp
next
  case (Cons b bs)
  have "unat b < 256" using unsigned_less [of b, where 'a = nat] by simp
  with Cons show ?case by simp
qed

lemma le_value_bound: "le_value bs < 256 ^ length bs"
proof (induction bs)
  case Nil
  show ?case by simp
next
  case (Cons b bs)
  have "unat b < 256" using unsigned_less [of b, where 'a = nat] by simp
  with Cons have "unat b + 256 * le_value bs < 256 + 256 * (256 ^ length bs - 1)"
    by (intro add_less_le_mono mult_le_mono) auto
  also have "\<dots> = 256 ^ Suc (length bs)"
    by (cases "256 ^ length bs :: nat") auto
  finally show ?case by simp
qed

subsection \<open>Words\<close>

lemma unat_and_mask: "unat (w AND mask n) = unat w mod 2 ^ n"
proof -
  have "unat (take_bit n w) = take_bit n (unat w)"
    by (rule unsigned_take_bit_eq)
  then show ?thesis by (simp only: take_bit_eq_mask [symmetric] take_bit_eq_mod)
qed

lemma and_mask_eq_self_iff: "w AND mask n = w \<longleftrightarrow> unat w < 2 ^ n"
  unfolding unat_and_mask word_unat_eq_iff by (metis mod_less mod_less_divisor zero_less_numeral zero_less_power)

lemma uint_less_power_iff: "uint w < 2 ^ n \<longleftrightarrow> unat w < 2 ^ n"
  using of_nat_less_iff [of "unat w" "2 ^ n", where 'a = int] by simp

lemma int_dvd_uint_iff: "int a dvd uint w \<longleftrightarrow> a dvd unat w"
  using int_dvd_int_iff [of a "unat w"] by simp

lemma uint_add_eq_iff: "uint a + uint b = uint c \<longleftrightarrow> unat a + unat b = unat c"
  using of_nat_eq_iff [of "unat a + unat b" "unat c", where 'a = int] by simp

lemma uint_mod_size: "uint (w :: 'w::len word) mod 2 ^ LENGTH('w) = uint w"
  by (simp add: mod_pos_pos_trivial)

lemma and_one_zero_iff: "w AND 1 = 0 \<longleftrightarrow> even (unat (w :: u64))"
proof -
  have "w AND 1 = w AND mask 1" by simp
  then have "unat (w AND 1) = unat w mod 2" using unat_and_mask [of w 1] by (simp only: power_one_right)
  then show ?thesis by (metis dvd_eq_mod_eq_0 unat_eq_zero)
qed

lemma and_one_cases: "w AND 1 = 0 \<or> w AND 1 = (1 :: 'w::len word)"
  by (simp add: and_one_eq mod_2_eq_odd)

lemma or_one_and_not_one: "w AND 1 = 0 \<Longrightarrow> (w OR 1) AND NOT 1 = (w :: u64)"
  by (rule bit_word_eqI) (auto simp: bit_simps and_one_eq mod_2_eq_odd bit_0 dest: gr0I)

lemma and_not_one_or_one: "w AND 1 = 1 \<Longrightarrow> (w AND NOT 1) OR 1 = (w :: u64)"
  by (rule bit_word_eqI) (auto simp: bit_simps and_one_eq mod_2_eq_odd bit_0 dest: gr0I)

lemma unat_push_bit:
  fixes x :: "'w::len word"
  assumes "unat x * 2 ^ n < 2 ^ LENGTH('w)"
  shows "unat (push_bit n x) = unat x * 2 ^ n"
proof -
  have "unat (push_bit n x) = take_bit LENGTH('w) (push_bit n (unat x))" by (rule unsigned_push_bit_eq)
  also have "push_bit n (unat x) = unat x * 2 ^ n" by (rule push_bit_eq_mult)
  finally show ?thesis using assms by (simp add: take_bit_nat_eq_self)
qed

lemma unat_drop_bit: "unat (drop_bit n x) = unat x div 2 ^ n" for x :: "'w::len word"
proof -
  have "unat (drop_bit n x) = drop_bit n (take_bit LENGTH('w) (unat x))" by (rule unsigned_drop_bit_eq)
  also have "take_bit LENGTH('w) (unat x) = unat x" by (rule take_bit_nat_eq_self) (rule unsigned_less)
  finally show ?thesis by (simp only: drop_bit_eq_div)
qed

text \<open>Comparison of the high bits of a word.\<close>

lemma unat_and_not_mask: "unat (w AND NOT (mask n)) = 2 ^ n * (unat w div 2 ^ n)" for w :: "'w::len word"
proof -
  have eq: "w AND NOT (mask n) = push_bit n (drop_bit n w)"
    by (rule bit_word_eqI) (auto simp: bit_simps)
  have "unat w div 2 ^ n * 2 ^ n < 2 ^ LENGTH('w)"
    by (rule le_less_trans [OF _ unsigned_less [of w]]) simp
  then have "unat (drop_bit n w) * 2 ^ n < 2 ^ LENGTH('w)" unfolding unat_drop_bit .
  from unat_push_bit [OF this] show ?thesis unfolding eq unat_drop_bit by (simp only: mult.commute)
qed

lemma unat_push_or_mask:
  fixes c b :: "'w::len word"
  assumes "unat c < 2 ^ k" "k + n \<le> LENGTH('w)"
  shows "unat (push_bit n c OR (b AND mask n)) = unat c * 2 ^ n + unat b mod 2 ^ n"
proof -
  have "unat c * 2 ^ n < 2 ^ (k + n)" using assms(1) by (simp add: power_add)
  also have "\<dots> \<le> 2 ^ LENGTH('w)" using assms(2) by (simp add: power_increasing)
  finally have "unat c * 2 ^ n < 2 ^ LENGTH('w)" .
  then have c: "unat (push_bit n c) = push_bit n (unat c)"
    unfolding push_bit_eq_mult [of n "unat c"] by (rule unat_push_bit)
  have "push_bit n (unat c) AND take_bit n (unat b) = 0" by (rule bit_eqI) (auto simp: bit_simps)
  then have "push_bit n (unat c) OR take_bit n (unat b) = push_bit n (unat c) + take_bit n (unat b)"
    by (simp add: disjunctive_add_eq_or)
  then show ?thesis
    unfolding unsigned_or_eq c unat_and_mask by (simp add: push_bit_eq_mult take_bit_eq_mod)
qed

end
