(* ===== verification/Architecture.thy ===== *)
theory Architecture
  imports Revng_Prelude
begin

text \<open>
  \<^verbatim>\<open>namespace model::Architecture\<close> (src/include/revng/Model/Architecture.h): the enumeration of
  the supported processor architectures and the tables over it. The enumerators, with the
  \<^verbatim>\<open>Invalid\<close> and \<^verbatim>\<open>Count\<close> ones the generator adds, come from
  src/include/revng/Model/model-schema.yml. A table entry that calls \<^verbatim>\<open>revng_abort\<close> is
  \<^term>\<open>None\<close>.
\<close>

datatype Architecture =
    Architecture_Invalid
  | x86 | x86_64 | arm | aarch64 | mips | mipsel | systemz
  | Architecture_Count

datatype OperatingSystem = OS_Invalid | OS_Linux | OS_Windows | OS_MacOS | OS_Count

text \<open>
  The values of \<^verbatim>\<open>llvm::Triple::ArchType\<close> the source mentions; every other one is
  \<open>LLVM_other\<close>.
\<close>

datatype LLVMArchType =
    LLVM_x86 | LLVM_x86_64 | LLVM_arm | LLVM_aarch64 | LLVM_mips | LLVM_mipsel | LLVM_systemz
  | LLVM_other nat

subsection \<open>Tables\<close>

fun isLittleEndian :: "Architecture \<Rightarrow> bool checked" where
  "isLittleEndian x86 = Some True"
| "isLittleEndian x86_64 = Some True"
| "isLittleEndian arm = Some True"
| "isLittleEndian aarch64 = Some True"
| "isLittleEndian mipsel = Some True"
| "isLittleEndian mips = Some False"
| "isLittleEndian systemz = Some False"
| "isLittleEndian _ = revng_abort"

fun fromLLVMArchitecture :: "LLVMArchType \<Rightarrow> Architecture" where
  "fromLLVMArchitecture LLVM_x86 = x86"
| "fromLLVMArchitecture LLVM_x86_64 = x86_64"
| "fromLLVMArchitecture LLVM_arm = arm"
| "fromLLVMArchitecture LLVM_aarch64 = aarch64"
| "fromLLVMArchitecture LLVM_mips = mips"
| "fromLLVMArchitecture LLVM_mipsel = mipsel"
| "fromLLVMArchitecture LLVM_systemz = systemz"
| "fromLLVMArchitecture _ = Architecture_Invalid"

fun toLLVMArchitecture :: "Architecture \<Rightarrow> LLVMArchType checked" where
  "toLLVMArchitecture x86 = Some LLVM_x86"
| "toLLVMArchitecture x86_64 = Some LLVM_x86_64"
| "toLLVMArchitecture arm = Some LLVM_arm"
| "toLLVMArchitecture aarch64 = Some LLVM_aarch64"
| "toLLVMArchitecture mips = Some LLVM_mips"
| "toLLVMArchitecture mipsel = Some LLVM_mipsel"
| "toLLVMArchitecture systemz = Some LLVM_systemz"
| "toLLVMArchitecture _ = revng_abort"

fun getPointerSize :: "Architecture \<Rightarrow> u64 checked" where
  "getPointerSize x86 = Some 4"
| "getPointerSize arm = Some 4"
| "getPointerSize mips = Some 4"
| "getPointerSize mipsel = Some 4"
| "getPointerSize x86_64 = Some 8"
| "getPointerSize aarch64 = Some 8"
| "getPointerSize systemz = Some 8"
| "getPointerSize _ = revng_abort"

fun getCallPushSize :: "Architecture \<Rightarrow> u64 checked" where
  "getCallPushSize x86 = Some 4"
| "getCallPushSize x86_64 = Some 8"
| "getCallPushSize arm = Some 0"
| "getCallPushSize mips = Some 0"
| "getCallPushSize mipsel = Some 0"
| "getCallPushSize aarch64 = Some 0"
| "getCallPushSize systemz = Some 0"
| "getCallPushSize _ = revng_abort"

text \<open>
  The result is an array reference built from a string literal, so it spans the whole
  \<^verbatim>\<open>char[N]\<close> array of the literal, terminating zero included.
\<close>

fun getBasicBlockEndingPattern :: "Architecture \<Rightarrow> u8 list checked" where
  "getBasicBlockEndingPattern x86 = Some [0xcc, 0]"
| "getBasicBlockEndingPattern x86_64 = Some [0xcc, 0]"
| "getBasicBlockEndingPattern arm = Some [0x1e, 0xff, 0x2f, 0xe1, 0]"
| "getBasicBlockEndingPattern mips = Some [0x08, 0x00, 0xe0, 0x03, 0]"
| "getBasicBlockEndingPattern mipsel = Some [0x03, 0xe0, 0x00, 0x08, 0]"
| "getBasicBlockEndingPattern aarch64 = Some [0xc0, 0x03, 0x5f, 0xd6, 0]"
| "getBasicBlockEndingPattern systemz = Some [0]"
| "getBasicBlockEndingPattern _ = revng_abort"

fun getSyscallHelper :: "Architecture \<Rightarrow> string checked" where
  "getSyscallHelper x86 = Some ''helper_raise_interrupt''"
| "getSyscallHelper x86_64 = Some ''helper_syscall''"
| "getSyscallHelper arm = Some ''helper_exception_with_syndrome''"
| "getSyscallHelper aarch64 = Some ''helper_exception_with_syndrome''"
| "getSyscallHelper mips = Some ''helper_raise_exception''"
| "getSyscallHelper mipsel = Some ''helper_raise_exception''"
| "getSyscallHelper systemz = Some ''helper_exception''"
| "getSyscallHelper _ = revng_abort"

fun getNoReturnSyscallNumbers :: "Architecture \<Rightarrow> u64 list checked" where
  "getNoReturnSyscallNumbers x86 = Some [0xfc, 0x01, 0x0b]"
| "getNoReturnSyscallNumbers x86_64 = Some [0xe7, 0x3c, 0x3b]"
| "getNoReturnSyscallNumbers arm = Some [0xf8, 0x1, 0xb]"
| "getNoReturnSyscallNumbers aarch64 = Some [0x5e, 0x5d, 0xdd]"
| "getNoReturnSyscallNumbers mips = Some [0x1096, 0xfa1, 0xfab]"
| "getNoReturnSyscallNumbers mipsel = Some [0x1096, 0xfa1, 0xfab]"
| "getNoReturnSyscallNumbers systemz = Some [0xf8, 0x1, 0xb]"
| "getNoReturnSyscallNumbers _ = revng_abort"

fun hasELFRelocationAddend :: "Architecture \<Rightarrow> bool checked" where
  "hasELFRelocationAddend x86_64 = Some True"
| "hasELFRelocationAddend systemz = Some True"
| "hasELFRelocationAddend aarch64 = Some True"
| "hasELFRelocationAddend x86 = Some False"
| "hasELFRelocationAddend arm = Some False"
| "hasELFRelocationAddend mips = Some False"
| "hasELFRelocationAddend mipsel = Some False"
| "hasELFRelocationAddend _ = revng_abort"

fun getReadRegisterAssembly :: "Architecture \<Rightarrow> string checked" where
  "getReadRegisterAssembly x86_64 = Some ''movq %REGISTER, $0''"
| "getReadRegisterAssembly systemz = Some ''''"
| "getReadRegisterAssembly x86 = Some ''''"
| "getReadRegisterAssembly arm = Some ''''"
| "getReadRegisterAssembly aarch64 = Some ''''"
| "getReadRegisterAssembly mips = Some ''''"
| "getReadRegisterAssembly mipsel = Some ''''"
| "getReadRegisterAssembly _ = revng_abort"

fun getWriteRegisterAssembly :: "Architecture \<Rightarrow> string checked" where
  "getWriteRegisterAssembly x86_64 = Some ''movq $0, %REGISTER''"
| "getWriteRegisterAssembly systemz = Some ''''"
| "getWriteRegisterAssembly x86 = Some ''''"
| "getWriteRegisterAssembly arm = Some ''''"
| "getWriteRegisterAssembly aarch64 = Some ''''"
| "getWriteRegisterAssembly mips = Some ''''"
| "getWriteRegisterAssembly mipsel = Some ''''"
| "getWriteRegisterAssembly _ = revng_abort"

fun getJumpAssembly :: "Architecture \<Rightarrow> string checked" where
  "getJumpAssembly x86_64 = Some ''jmpq *$0''"
| "getJumpAssembly systemz = Some ''''"
| "getJumpAssembly x86 = Some ''''"
| "getJumpAssembly arm = Some ''''"
| "getJumpAssembly aarch64 = Some ''''"
| "getJumpAssembly mips = Some ''''"
| "getJumpAssembly mipsel = Some ''''"
| "getJumpAssembly _ = revng_abort"

fun getQEMUName :: "Architecture \<Rightarrow> string checked" where
  "getQEMUName x86_64 = Some ''x86_64''"
| "getQEMUName systemz = Some ''s390x''"
| "getQEMUName x86 = Some ''i386''"
| "getQEMUName arm = Some ''arm''"
| "getQEMUName aarch64 = Some ''aarch64''"
| "getQEMUName mips = Some ''mips''"
| "getQEMUName mipsel = Some ''mipsel''"
| "getQEMUName _ = revng_abort"

definition fromQEMUName :: "string \<Rightarrow> Architecture checked" where
  "fromQEMUName Name =
     (if Name = ''x86_64'' then Some x86_64
      else if Name = ''s390x'' then Some systemz
      else if Name = ''i386'' then Some x86
      else if Name = ''arm'' then Some arm
      else if Name = ''aarch64'' then Some aarch64
      else if Name = ''mips'' then Some mips
      else if Name = ''mipsel'' then Some mipsel
      else revng_abort)"

fun getMinimalFinalStackOffset :: "Architecture \<Rightarrow> u32 checked" where
  "getMinimalFinalStackOffset x86_64 = Some 8"
| "getMinimalFinalStackOffset x86 = Some 4"
| "getMinimalFinalStackOffset systemz = Some 0"
| "getMinimalFinalStackOffset arm = Some 0"
| "getMinimalFinalStackOffset aarch64 = Some 0"
| "getMinimalFinalStackOffset mips = Some 0"
| "getMinimalFinalStackOffset mipsel = Some 0"
| "getMinimalFinalStackOffset _ = revng_abort"

fun getAssemblyCommentIndicator :: "Architecture \<Rightarrow> string checked" where
  "getAssemblyCommentIndicator x86 = Some ''#''"
| "getAssemblyCommentIndicator x86_64 = Some ''#''"
| "getAssemblyCommentIndicator mips = Some ''#''"
| "getAssemblyCommentIndicator mipsel = Some ''#''"
| "getAssemblyCommentIndicator systemz = Some ''#''"
| "getAssemblyCommentIndicator arm = Some ''@''"
| "getAssemblyCommentIndicator aarch64 = Some ''//''"
| "getAssemblyCommentIndicator _ = revng_abort"

fun getAssemblyLabelIndicator :: "Architecture \<Rightarrow> string checked" where
  "getAssemblyLabelIndicator Architecture_Invalid = revng_abort"
| "getAssemblyLabelIndicator Architecture_Count = revng_abort"
| "getAssemblyLabelIndicator _ = Some '':''"

fun hasDelaySlot :: "Architecture \<Rightarrow> bool checked" where
  "hasDelaySlot x86 = Some False"
| "hasDelaySlot x86_64 = Some False"
| "hasDelaySlot arm = Some False"
| "hasDelaySlot aarch64 = Some False"
| "hasDelaySlot systemz = Some False"
| "hasDelaySlot mips = Some True"
| "hasDelaySlot mipsel = Some True"
| "hasDelaySlot _ = revng_abort"

fun isAvailableFor :: "Architecture \<Rightarrow> OperatingSystem \<Rightarrow> bool checked" where
  "isAvailableFor V OS_Linux =
     (case V of Architecture_Count \<Rightarrow> revng_abort | Architecture_Invalid \<Rightarrow> revng_abort
      | _ \<Rightarrow> Some True)"
| "isAvailableFor V OS_Windows =
     (case V of Architecture_Count \<Rightarrow> revng_abort | Architecture_Invalid \<Rightarrow> revng_abort
      | mips \<Rightarrow> Some False | mipsel \<Rightarrow> Some False | systemz \<Rightarrow> Some False
      | _ \<Rightarrow> Some True)"
| "isAvailableFor V OS_MacOS =
     (case V of Architecture_Count \<Rightarrow> revng_abort | Architecture_Invalid \<Rightarrow> revng_abort
      | x86_64 \<Rightarrow> Some True | aarch64 \<Rightarrow> Some True
      | _ \<Rightarrow> Some False)"
| "isAvailableFor V OS_Invalid = do { revng_assert (V \<noteq> Architecture_Invalid); Some True }"
| "isAvailableFor V OS_Count = revng_abort"

subsection \<open>Supported architectures\<close>

text \<open>The architectures on which no table aborts.\<close>

definition supported :: "Architecture \<Rightarrow> bool" where
  "supported V \<longleftrightarrow> V \<noteq> Architecture_Invalid \<and> V \<noteq> Architecture_Count"

lemma supported_cases [consumes 1, case_names x86 x86_64 arm aarch64 mips mipsel systemz]:
  assumes "supported V"
  obtains "V = x86" | "V = x86_64" | "V = arm" | "V = aarch64" | "V = mips" | "V = mipsel"
    | "V = systemz"
  using assms by (cases V) (auto simp: supported_def)

lemma supported_simps [simp]:
  "supported x86" "supported x86_64" "supported arm" "supported aarch64"
  "supported mips" "supported mipsel" "supported systemz"
  "\<not> supported Architecture_Invalid" "\<not> supported Architecture_Count"
  by (simp_all add: supported_def)

lemma getPointerSize_eq_None [simp]: "getPointerSize V = None \<longleftrightarrow> \<not> supported V"
  by (cases V) simp_all

lemma getQEMUName_eq_None [simp]: "getQEMUName V = None \<longleftrightarrow> \<not> supported V"
  by (cases V) simp_all

lemma fromQEMUName_getQEMUName: "getQEMUName V = Some Name \<Longrightarrow> fromQEMUName Name = Some V"
  by (cases V) (auto simp: fromQEMUName_def)

lemma getQEMUName_fromQEMUName: "fromQEMUName Name = Some V \<Longrightarrow> getQEMUName V = Some Name"
  unfolding fromQEMUName_def by (simp split: if_split_asm)

subsection \<open>Properties\<close>

text \<open>
  \<^bold>\<open>Fact\<close>. \<^verbatim>\<open>getQEMUName\<close> and \<^verbatim>\<open>fromQEMUName\<close> are inverse to each other: a name is accepted
  exactly when it is the QEMU name of the architecture returned, and the two abort
  exactly on unsupported architectures and on strings that name none.
\<close>

theorem qemu_name_roundtrip:
  "(fromQEMUName Name = Some V \<longleftrightarrow> getQEMUName V = Some Name)
   \<and> (getQEMUName V = None \<longleftrightarrow> \<not> supported V)"
  by (intro conjI iffI getQEMUName_eq_None)
    (erule fromQEMUName_getQEMUName getQEMUName_fromQEMUName)+

text \<open>
  \<^bold>\<open>Fact\<close>. The tables agree with each other: a call pushes nothing or exactly one pointer,
  the minimal final stack offset is what a call pushes, the architectures whose ELF
  relocations carry an addend are the 64-bit ones, and the conversion to an LLVM
  architecture is undone by the conversion back.
\<close>

theorem architecture_tables_agree:
  assumes "supported V"
  shows "(getCallPushSize V = Some 0 \<or> getCallPushSize V = getPointerSize V)
    \<and> map_option unat (getMinimalFinalStackOffset V) = map_option unat (getCallPushSize V)
    \<and> hasELFRelocationAddend V = Some (getPointerSize V = Some 8)
    \<and> map_option fromLLVMArchitecture (toLLVMArchitecture V) = Some V"
  using assms by (cases V rule: supported_cases) simp_all

theorem architecture_tables_agree_witness:
  "supported aarch64 \<and> hasELFRelocationAddend aarch64 = Some (getPointerSize aarch64 = Some 8)"
  using architecture_tables_agree [of aarch64] by simp

text \<open>
  \<^bold>\<open>Fact\<close>. The two MIPS entries of \<^verbatim>\<open>getBasicBlockEndingPattern\<close> are exchanged: the bytes given
  for the big-endian \<^verbatim>\<open>mips\<close> are the little-endian encoding of \<^verbatim>\<open>jr ra\<close>
  (\<open>0x03e00008\<close>), and those given for the little-endian \<^verbatim>\<open>mipsel\<close> are the big-endian
  one; on the other fixed-width targets (arm's \<^verbatim>\<open>bx lr\<close> and aarch64's \<^verbatim>\<open>ret\<close>) byte order
  and table agree.
\<close>

theorem mips_ending_pattern_swapped:
  "isLittleEndian mips = Some False
   \<and> map_option (take 4) (getBasicBlockEndingPattern mips) = Some (le_bytes 4 0x03e00008)
   \<and> isLittleEndian mipsel = Some True
   \<and> map_option (take 4) (getBasicBlockEndingPattern mipsel) = Some (rev (le_bytes 4 0x03e00008))
   \<and> map_option (take 4) (getBasicBlockEndingPattern arm) = Some (le_bytes 4 0xe12fff1e)
   \<and> map_option (take 4) (getBasicBlockEndingPattern aarch64) = Some (le_bytes 4 0xd65f03c0)"
  by simp

end
