(* ===== verification/Meta_Address_Type.thy ===== *)
theory Meta_Address_Type
  imports Architecture
begin

text \<open>
  \<^verbatim>\<open>namespace MetaAddressType\<close> (src/include/revng/Support/MetaAddress.h): the kinds of
  addresses (generic ones and code of a given instruction set) and the tables over them.
  The enumeration has \<^verbatim>\<open>uint16_t\<close> as underlying type, so a value of it can be any 16-bit
  number: \<open>Unnamed\<close> stands for those with no enumerator, \<open>Values\<close> is the cast from
  \<^verbatim>\<open>uint16_t\<close> and \<open>raw\<close> the cast to it.
\<close>

datatype MetaAddressType =
    Invalid | Generic32 | Generic64 | Code_x86 | Code_x86_64 | Code_mips | Code_mipsel
  | Code_arm | Code_arm_thumb | Code_aarch64 | Code_systemz | Count | Unnamed u16

fun raw :: "MetaAddressType \<Rightarrow> u16" where
  "raw Invalid = 0"
| "raw Generic32 = 1"
| "raw Generic64 = 2"
| "raw Code_x86 = 3"
| "raw Code_x86_64 = 4"
| "raw Code_mips = 5"
| "raw Code_mipsel = 6"
| "raw Code_arm = 7"
| "raw Code_arm_thumb = 8"
| "raw Code_aarch64 = 9"
| "raw Code_systemz = 10"
| "raw Count = 11"
| "raw (Unnamed n) = n"

definition Values :: "u16 \<Rightarrow> MetaAddressType" where
  "Values n =
     (if n = 0 then Invalid else if n = 1 then Generic32 else if n = 2 then Generic64
      else if n = 3 then Code_x86 else if n = 4 then Code_x86_64 else if n = 5 then Code_mips
      else if n = 6 then Code_mipsel else if n = 7 then Code_arm else if n = 8 then Code_arm_thumb
      else if n = 9 then Code_aarch64 else if n = 10 then Code_systemz else if n = 11 then Count
      else Unnamed n)"

text \<open>The enumerators before \<open>Count\<close>, in order of value.\<close>

definition enumerators :: "MetaAddressType list" where
  "enumerators = [Invalid, Generic32, Generic64, Code_x86, Code_x86_64, Code_mips, Code_mipsel,
     Code_arm, Code_arm_thumb, Code_aarch64, Code_systemz]"

subsection \<open>Tables\<close>

fun isValid :: "MetaAddressType \<Rightarrow> bool" where
  "isValid Count = False"
| "isValid (Unnamed _) = False"
| "isValid _ = True"

fun toString :: "MetaAddressType \<Rightarrow> string checked" where
  "toString Invalid = Some ''Invalid''"
| "toString Generic32 = Some ''Generic32''"
| "toString Generic64 = Some ''Generic64''"
| "toString Code_x86 = Some ''Code_x86''"
| "toString Code_x86_64 = Some ''Code_x86_64''"
| "toString Code_mips = Some ''Code_mips''"
| "toString Code_mipsel = Some ''Code_mipsel''"
| "toString Code_arm = Some ''Code_arm''"
| "toString Code_arm_thumb = Some ''Code_arm_thumb''"
| "toString Code_aarch64 = Some ''Code_aarch64''"
| "toString Code_systemz = Some ''Code_systemz''"
| "toString Count = revng_abort"
| "toString (Unnamed _) = revng_abort"

definition fromString :: "string \<Rightarrow> MetaAddressType" where
  "fromString String =
     (if String = ''Generic32'' then Generic32
      else if String = ''Generic64'' then Generic64
      else if String = ''Code_x86'' then Code_x86
      else if String = ''Code_x86_64'' then Code_x86_64
      else if String = ''Code_mips'' then Code_mips
      else if String = ''Code_mipsel'' then Code_mipsel
      else if String = ''Code_arm'' then Code_arm
      else if String = ''Code_arm_thumb'' then Code_arm_thumb
      else if String = ''Code_aarch64'' then Code_aarch64
      else if String = ''Code_systemz'' then Code_systemz
      else Invalid)"

text \<open>
  The loop of \<^verbatim>\<open>consumeFromString\<close>: \<open>Index\<close> runs over the enumerators from
  \<^verbatim>\<open>Invalid\<close> up to \<^verbatim>\<open>Count\<close>, and the first one whose name is a prefix is dropped.
\<close>

fun consumeFromString_loop :: "string \<Rightarrow> MetaAddressType list \<Rightarrow> string checked" where
  "consumeFromString_loop String [] = Some String"
| "consumeFromString_loop String (Index # rest) = do {
     Serialized \<leftarrow> toString Index;
     if take (length Serialized) String = Serialized
     then Some (drop (length Serialized) String)
     else consumeFromString_loop String rest }"

definition consumeFromString :: "string \<Rightarrow> string checked" where
  "consumeFromString String = consumeFromString_loop String enumerators"

fun arch :: "MetaAddressType \<Rightarrow> Architecture checked" where
  "arch Code_x86 = Some x86"
| "arch Code_x86_64 = Some x86_64"
| "arch Code_mips = Some mips"
| "arch Code_mipsel = Some mipsel"
| "arch Code_arm = Some arm"
| "arch Code_arm_thumb = Some arm"
| "arch Code_aarch64 = Some aarch64"
| "arch Code_systemz = Some systemz"
| "arch Invalid = Some Architecture_Invalid"
| "arch Generic32 = Some Architecture_Invalid"
| "arch Generic64 = Some Architecture_Invalid"
| "arch Count = revng_abort"
| "arch (Unnamed _) = revng_abort"

fun genericFromArch :: "Architecture \<Rightarrow> MetaAddressType checked" where
  "genericFromArch x86 = Some Generic32"
| "genericFromArch arm = Some Generic32"
| "genericFromArch mips = Some Generic32"
| "genericFromArch mipsel = Some Generic32"
| "genericFromArch x86_64 = Some Generic64"
| "genericFromArch aarch64 = Some Generic64"
| "genericFromArch systemz = Some Generic64"
| "genericFromArch _ = revng_abort"

fun toGeneric :: "MetaAddressType \<Rightarrow> MetaAddressType checked" where
  "toGeneric Invalid = revng_abort"
| "toGeneric Generic32 = Some Generic32"
| "toGeneric Generic64 = Some Generic64"
| "toGeneric Code_x86 = Some Generic32"
| "toGeneric Code_arm_thumb = Some Generic32"
| "toGeneric Code_mips = Some Generic32"
| "toGeneric Code_mipsel = Some Generic32"
| "toGeneric Code_arm = Some Generic32"
| "toGeneric Code_x86_64 = Some Generic64"
| "toGeneric Code_systemz = Some Generic64"
| "toGeneric Code_aarch64 = Some Generic64"
| "toGeneric Count = revng_abort"
| "toGeneric (Unnamed _) = revng_abort"

fun defaultCodeFromArch :: "Architecture \<Rightarrow> MetaAddressType checked" where
  "defaultCodeFromArch x86 = Some Code_x86"
| "defaultCodeFromArch arm = Some Code_arm"
| "defaultCodeFromArch mips = Some Code_mips"
| "defaultCodeFromArch mipsel = Some Code_mipsel"
| "defaultCodeFromArch x86_64 = Some Code_x86_64"
| "defaultCodeFromArch aarch64 = Some Code_aarch64"
| "defaultCodeFromArch systemz = Some Code_systemz"
| "defaultCodeFromArch _ = revng_abort"

fun archCodeTypes :: "Architecture \<Rightarrow> MetaAddressType list checked" where
  "archCodeTypes x86 = Some [Code_x86]"
| "archCodeTypes arm = Some [Code_arm, Code_arm_thumb]"
| "archCodeTypes mips = Some [Code_mips]"
| "archCodeTypes mipsel = Some [Code_mipsel]"
| "archCodeTypes x86_64 = Some [Code_x86_64]"
| "archCodeTypes aarch64 = Some [Code_aarch64]"
| "archCodeTypes systemz = Some [Code_systemz]"
| "archCodeTypes _ = revng_abort"

fun alignment :: "MetaAddressType \<Rightarrow> nat checked" where
  "alignment Invalid = revng_abort"
| "alignment Generic32 = Some 1"
| "alignment Generic64 = Some 1"
| "alignment Code_x86 = Some 1"
| "alignment Code_x86_64 = Some 1"
| "alignment Code_arm_thumb = Some 2"
| "alignment Code_systemz = Some 2"
| "alignment Code_mips = Some 4"
| "alignment Code_mipsel = Some 4"
| "alignment Code_arm = Some 4"
| "alignment Code_aarch64 = Some 4"
| "alignment Count = revng_abort"
| "alignment (Unnamed _) = revng_abort"

fun bitSize :: "MetaAddressType \<Rightarrow> nat checked" where
  "bitSize Invalid = revng_abort"
| "bitSize Generic32 = Some 32"
| "bitSize Code_x86 = Some 32"
| "bitSize Code_arm_thumb = Some 32"
| "bitSize Code_mips = Some 32"
| "bitSize Code_mipsel = Some 32"
| "bitSize Code_arm = Some 32"
| "bitSize Generic64 = Some 64"
| "bitSize Code_x86_64 = Some 64"
| "bitSize Code_systemz = Some 64"
| "bitSize Code_aarch64 = Some 64"
| "bitSize Count = revng_abort"
| "bitSize (Unnamed _) = revng_abort"

definition addressMask :: "MetaAddressType \<Rightarrow> u64 checked" where
  "addressMask Type = do {
     n \<leftarrow> bitSize Type;
     revng_assert (n \<noteq> 0);
     Some (drop_bit (64 - n) (- 1)) }"

fun isCode :: "MetaAddressType \<Rightarrow> bool checked" where
  "isCode Invalid = Some False"
| "isCode Generic32 = Some False"
| "isCode Generic64 = Some False"
| "isCode Count = revng_abort"
| "isCode (Unnamed _) = revng_abort"
| "isCode _ = Some True"

fun isCodeFor :: "MetaAddressType \<Rightarrow> Architecture \<Rightarrow> bool checked" where
  "isCodeFor Type x86 = Some (Type = Code_x86)"
| "isCodeFor Type arm = Some (Type = Code_arm \<or> Type = Code_arm_thumb)"
| "isCodeFor Type mips = Some (Type = Code_mips)"
| "isCodeFor Type mipsel = Some (Type = Code_mipsel)"
| "isCodeFor Type x86_64 = Some (Type = Code_x86_64)"
| "isCodeFor Type aarch64 = Some (Type = Code_aarch64)"
| "isCodeFor Type systemz = Some (Type = Code_systemz)"
| "isCodeFor Type _ = revng_abort"

fun isGeneric :: "MetaAddressType \<Rightarrow> bool checked" where
  "isGeneric Generic32 = Some True"
| "isGeneric Generic64 = Some True"
| "isGeneric Count = revng_abort"
| "isGeneric (Unnamed _) = revng_abort"
| "isGeneric _ = Some False"

fun isDefaultCode :: "MetaAddressType \<Rightarrow> bool checked" where
  "isDefaultCode Invalid = Some False"
| "isDefaultCode Generic32 = Some False"
| "isDefaultCode Generic64 = Some False"
| "isDefaultCode Code_arm_thumb = Some False"
| "isDefaultCode Count = revng_abort"
| "isDefaultCode (Unnamed _) = revng_abort"
| "isDefaultCode _ = Some True"

fun getLLVMCPUFeatures :: "MetaAddressType \<Rightarrow> string checked" where
  "getLLVMCPUFeatures Code_arm_thumb = Some ''+thumb-mode''"
| "getLLVMCPUFeatures Count = revng_abort"
| "getLLVMCPUFeatures (Unnamed _) = revng_abort"
| "getLLVMCPUFeatures _ = Some ''''"

subsection \<open>Casts\<close>

lemma raw_Values [simp]: "raw (Values n) = n"
  by (simp add: Values_def)

lemma Values_raw [simp]: "isValid T \<Longrightarrow> Values (raw T) = T"
  by (cases T) (simp_all add: Values_def)

lemma Values_eq_Invalid [simp]: "Values n = Invalid \<longleftrightarrow> n = 0"
  by (simp add: Values_def)

text \<open>
  A type that denotes addresses: an enumerator other than \<open>Invalid\<close>. The partial tables
  are defined exactly there.
\<close>

definition addressable :: "MetaAddressType \<Rightarrow> bool" where
  "addressable T \<longleftrightarrow> isValid T \<and> T \<noteq> Invalid"

lemma addressable_simps [simp]:
  "addressable Generic32" "addressable Generic64" "addressable Code_x86" "addressable Code_x86_64"
  "addressable Code_mips" "addressable Code_mipsel" "addressable Code_arm"
  "addressable Code_arm_thumb" "addressable Code_aarch64" "addressable Code_systemz"
  "\<not> addressable Invalid" "\<not> addressable Count" "\<not> addressable (Unnamed n)"
  by (simp_all add: addressable_def)

lemma addressable_eq: "addressable (Values n) \<longleftrightarrow> n \<noteq> 0 \<and> n < 11"
proof -
  have "n < 11 \<longleftrightarrow> n = 10 \<or> n = 9 \<or> n = 8 \<or> n = 7 \<or> n = 6 \<or> n = 5 \<or> n = 4 \<or> n = 3 \<or> n = 2
      \<or> n = 1 \<or> n = 0"
    by unat_arith
  then show ?thesis by (auto simp: Values_def)
qed

lemma bitSize_cases:
  "addressable T \<Longrightarrow> bitSize T = Some 32 \<or> bitSize T = Some 64"
  by (cases T) simp_all

lemma addressMask_eq: "addressMask T = map_option mask (bitSize T)"
  by (cases T) (simp_all add: addressMask_def)

lemma alignment_eq_None [simp]: "alignment T = None \<longleftrightarrow> \<not> addressable T"
  by (cases T) simp_all

lemma bitSize_eq_None [simp]: "bitSize T = None \<longleftrightarrow> \<not> addressable T"
  by (cases T) simp_all

lemma toGeneric_eq_None [simp]: "toGeneric T = None \<longleftrightarrow> \<not> addressable T"
  by (cases T) simp_all

lemma toGeneric_bitSize: "toGeneric T = Some G \<Longrightarrow> bitSize G = bitSize T \<and> alignment G = Some 1"
  by (cases T) auto

lemma toGeneric_addressable: "toGeneric T = Some G \<Longrightarrow> addressable G"
  by (cases T) auto

lemma alignment_pos: "alignment T = Some a \<Longrightarrow> 0 < a"
  by (cases T) auto

lemma defaultCode_addressable: "defaultCodeFromArch A = Some T \<Longrightarrow> addressable T \<and> isCode T = Some True"
  by (cases A) auto

lemma map_fromString_toString: "isValid T \<Longrightarrow> map_option fromString (toString T) = Some T"
  by (cases T) (simp_all add: fromString_def)

lemma toString_eq_None [simp]: "toString T = None \<longleftrightarrow> \<not> isValid T"
  by (cases T) simp_all

lemma fromString_toString: "toString T = Some s \<Longrightarrow> fromString s = T"
  using map_fromString_toString [of T] toString_eq_None [of T] by (cases "isValid T") simp_all

lemma consumeFromString_whole:
  "T \<noteq> Code_x86_64 \<Longrightarrow> T \<noteq> Code_mipsel \<Longrightarrow> T \<noteq> Code_arm_thumb \<Longrightarrow>
     map_option (\<lambda>s. consumeFromString (s @ r)) (toString T)
       = (if isValid T then Some (Some r) else None)"
  by (cases T) (simp_all add: consumeFromString_def enumerators_def)

lemma toString_fromString: "fromString s \<noteq> Invalid \<Longrightarrow> toString (fromString s) = Some s"
  unfolding fromString_def by (simp split: if_split_asm)

lemma fromString_isValid: "isValid (fromString s)"
  by (simp add: fromString_def)

subsection \<open>Properties\<close>

text \<open>
  \<^bold>\<open>Fact\<close>. For code of an architecture the tables of \<^verbatim>\<open>MetaAddressType\<close> agree with each other
  and with those of \<^verbatim>\<open>model::Architecture\<close>: \<^verbatim>\<open>archCodeTypes\<close> lists exactly the types that
  \<^verbatim>\<open>isCode\<close> accepts for the architecture and whose \<^verbatim>\<open>arch\<close> it is, the default code type
  is its first entry, all of them decay to the generic type of the architecture, and
  the addresses of each have the width of a pointer.
\<close>

theorem code_types_agree:
  assumes "archCodeTypes A = Some Ts"
  shows "(\<forall>T. T \<in> set Ts \<longleftrightarrow> isCodeFor T A = Some True)
    \<and> (\<forall>T \<in> set Ts. arch T = Some A \<and> isCode T = Some True \<and> toGeneric T = genericFromArch A
          \<and> map_option (\<lambda>b. b div 8) (bitSize T) = map_option unat (getPointerSize A))
    \<and> defaultCodeFromArch A = Some (hd Ts)"
  using assms by (cases A) auto

theorem code_types_agree_witness:
  "archCodeTypes arm = Some [Code_arm, Code_arm_thumb] \<and> arch Code_arm_thumb = Some arm"
  using code_types_agree [of arm "[Code_arm, Code_arm_thumb]"] by simp

text \<open>
  \<^bold>\<open>Fact\<close>. Printing a type and reading it back gives the type; conversely a string that is
  read as anything but \<^verbatim>\<open>Invalid\<close> is the printed form of the result.
\<close>

theorem type_string_roundtrip:
  "(isValid T \<longrightarrow> map_option fromString (toString T) = Some T)
   \<and> (fromString s \<noteq> Invalid \<longrightarrow> toString (fromString s) = Some s)"
  by (intro conjI impI map_fromString_toString toString_fromString)

theorem type_string_roundtrip_witness:
  "isValid Code_arm_thumb \<and> map_option fromString (toString Code_arm_thumb) = Some Code_arm_thumb
   \<and> fromString ''Code_mipsel'' \<noteq> Invalid"
  using type_string_roundtrip [of Code_arm_thumb] by (simp add: fromString_def)

text \<open>
  \<^bold>\<open>Fact\<close>. \<^verbatim>\<open>consumeFromString\<close> tries the enumerators in order of value and so stops at the
  first name that is a prefix, not at the longest: the name of a type that extends the
  name of an earlier one (\<^verbatim>\<open>Code_x86_64\<close>, \<^verbatim>\<open>Code_mipsel\<close>, \<^verbatim>\<open>Code_arm_thumb\<close>) is not consumed
  whole, while every other name is, whatever follows it.
\<close>

theorem consumeFromString_stops_at_first_prefix:
  "consumeFromString (''Code_x86_64'' @ r) = Some (''_64'' @ r)
   \<and> consumeFromString (''Code_mipsel'' @ r) = Some (''el'' @ r)
   \<and> consumeFromString (''Code_arm_thumb'' @ r) = Some (''_thumb'' @ r)
   \<and> (T \<notin> {Code_x86_64, Code_mipsel, Code_arm_thumb} \<longrightarrow> toString T = Some s \<longrightarrow>
        consumeFromString (s @ r) = Some r)"
  using consumeFromString_whole [of T r] toString_eq_None [of T]
  by (intro conjI impI) (simp add: consumeFromString_def enumerators_def | force split: if_splits)+

theorem consumeFromString_stops_at_first_prefix_witness:
  "consumeFromString (''Code_aarch64'' @ '':1'') = Some '':1''"
  using consumeFromString_stops_at_first_prefix [of "'':1''" Code_aarch64 "''Code_aarch64''"] by simp

end
