(* ===== verification/Overflow_Safe_Int.thy ===== *)
theory Overflow_Safe_Int
  imports Revng_Prelude
begin

text \<open>
  \<^verbatim>\<open>OverflowSafeInt<T>\<close> (src/include/revng/Support/OverflowSafeInt.h) for an unsigned \<^verbatim>\<open>T\<close> of
  \<open>'w\<close> bits, as all its users in the modelled code instantiate it: an optional value that
  becomes empty as soon as an operation overflows. The compiler's
  \<^verbatim>\<open>__builtin_*_overflow\<close> return the wrapped result and whether it differs from the exact
  one.
\<close>

type_synonym 'w OverflowSafeInt = "'w word option"

subsection \<open>Operations\<close>

definition add_overflow :: "'w::len word \<Rightarrow> 'w word \<Rightarrow> 'w word option" where
  "add_overflow FirstOperand SecondOperand =
     (let Result = FirstOperand + SecondOperand;
          Overflow = unat Result \<noteq> unat FirstOperand + unat SecondOperand
      in if Overflow then None else Some Result)"

definition sub_overflow :: "'w::len word \<Rightarrow> 'w word \<Rightarrow> 'w word option" where
  "sub_overflow FirstOperand SecondOperand =
     (let Result = FirstOperand - SecondOperand;
          Overflow = uint Result \<noteq> uint FirstOperand - uint SecondOperand
      in if Overflow then None else Some Result)"

definition mul_overflow :: "'w::len word \<Rightarrow> 'w word \<Rightarrow> 'w word option" where
  "mul_overflow FirstOperand SecondOperand =
     (let Result = FirstOperand * SecondOperand;
          Overflow = unat Result \<noteq> unat FirstOperand * unat SecondOperand
      in if Overflow then None else Some Result)"

fun osi_add :: "'w::len OverflowSafeInt \<Rightarrow> 'w OverflowSafeInt \<Rightarrow> 'w OverflowSafeInt" where
  "osi_add (Some a) (Some b) = add_overflow a b"
| "osi_add _ _ = None"

fun osi_sub :: "'w::len OverflowSafeInt \<Rightarrow> 'w OverflowSafeInt \<Rightarrow> 'w OverflowSafeInt" where
  "osi_sub (Some a) (Some b) = sub_overflow a b"
| "osi_sub _ _ = None"

fun osi_mul :: "'w::len OverflowSafeInt \<Rightarrow> 'w OverflowSafeInt \<Rightarrow> 'w OverflowSafeInt" where
  "osi_mul (Some a) (Some b) = mul_overflow a b"
| "osi_mul _ _ = None"

text \<open>\<^verbatim>\<open>llvm::isPowerOf2_64\<close> holds of the powers of two that fit 64 bits.\<close>

definition isPowerOf2 :: "nat \<Rightarrow> bool" where
  "isPowerOf2 n \<longleftrightarrow> (\<exists>k < 64. n = 2 ^ k)"

definition osi_div :: "'w::len OverflowSafeInt \<Rightarrow> 'w word \<Rightarrow> 'w OverflowSafeInt checked" where
  "osi_div Value Other = do {
     revng_assert (isPowerOf2 (unat Other));
     Some (case Value of None \<Rightarrow> None | Some v \<Rightarrow> Some (v div Other)) }"

subsection \<open>Exactness\<close>

lemma add_overflow_None:
  "add_overflow a b = None \<longleftrightarrow> 2 ^ LENGTH('w) \<le> unat a + unat (b :: 'w::len word)"
  using unat_add_lem [of a b] by (auto simp: add_overflow_def Let_def)

lemma add_overflow_Some:
  "add_overflow a b = Some c \<longleftrightarrow> unat a + unat b = unat (c :: 'w::len word)"
proof -
  have "unat a + unat b = unat c \<Longrightarrow> a + b = c"
    using unat_add_lem [of a b] unsigned_less [of c, where 'a = nat]
    by (simp add: word_unat_eq_iff)
  then show ?thesis by (auto simp: add_overflow_def Let_def)
qed

lemma sub_overflow_eq:
  "sub_overflow a b = (if b \<le> a then Some (a - b) else None)"
  using uint_sub_lem [of b a] by (auto simp: sub_overflow_def Let_def word_le_def)

lemma sub_overflow_None: "sub_overflow a b = None \<longleftrightarrow> a < b"
  by (auto simp: sub_overflow_eq)

lemma sub_overflow_Some:
  "sub_overflow a b = Some c \<longleftrightarrow> unat a = unat b + unat (c :: 'w::len word)"
proof
  assume "sub_overflow a b = Some c"
  then have "b \<le> a" and "c = a - b" by (auto simp: sub_overflow_eq split: if_splits)
  then show "unat a = unat b + unat c"
    by (simp add: unat_sub word_le_nat_alt)
next
  assume sum: "unat a = unat b + unat c"
  then have "b \<le> a" by (simp add: word_le_nat_alt)
  moreover from this sum have "a - b = c" by (simp add: word_unat_eq_iff unat_sub)
  ultimately show "sub_overflow a b = Some c" by (simp add: sub_overflow_eq)
qed

lemma mul_overflow_Some:
  "mul_overflow a b = Some c \<longleftrightarrow> unat a * unat b = unat (c :: 'w::len word)"
proof -
  have "unat a * unat b = unat c \<Longrightarrow> a * b = c"
    using unat_mult_lem [of a b] unsigned_less [of c, where 'a = nat]
    by (simp add: word_unat_eq_iff)
  then show ?thesis by (auto simp: mul_overflow_def Let_def)
qed

lemma mul_overflow_None:
  "mul_overflow a b = None \<longleftrightarrow> 2 ^ LENGTH('w) \<le> unat a * unat (b :: 'w::len word)"
  using unat_mult_lem [of a b] by (auto simp: mul_overflow_def Let_def)

subsection \<open>Properties\<close>

text \<open>
  \<^bold>\<open>Fact\<close>. Exactness of the overflow-checked arithmetic: a sum, difference or product holds
  a value exactly when both operands do and the exact result of the operation on the
  natural numbers is representable, and then that result is the value.
\<close>

theorem osi_exact:
  fixes x y :: "'w::len OverflowSafeInt"
  shows "(osi_add x y = Some c \<longleftrightarrow>
            (\<exists>a b. x = Some a \<and> y = Some b \<and> unat a + unat b = unat c))
     \<and> (osi_sub x y = Some c \<longleftrightarrow>
            (\<exists>a b. x = Some a \<and> y = Some b \<and> unat a = unat b + unat c))
     \<and> (osi_mul x y = Some c \<longleftrightarrow>
            (\<exists>a b. x = Some a \<and> y = Some b \<and> unat a * unat b = unat c))"
  by (cases x; cases y)
    (simp_all add: add_overflow_Some sub_overflow_Some mul_overflow_Some)

end
