(* ===== verification/Integer_Serialization.thy ===== *)
theory Integer_Serialization
  imports Revng_Prelude
begin

text \<open>
  The packed little-endian serialisation of integer tuples
  (src/include/revng/Support/IntegerSerialization.h). A parameter pack or a tuple of
  integers is a list of pairs of the size in bytes of the element's type and its value;
  the types alone are the list of sizes. \<^verbatim>\<open>llvm::support::endian::write\<close> and
  \<^verbatim>\<open>readNext\<close> on little-endian unaligned data are \<^const>\<open>le_bytes\<close> and \<^const>\<open>le_value\<close>.
\<close>

definition packedSize :: "nat list \<Rightarrow> nat" where
  "packedSize Sizes = sum_list Sizes"

definition writeNext :: "u8 list \<Rightarrow> nat \<times> nat \<Rightarrow> u8 list" where
  "writeNext Written Arg = (case Arg of (Size, Value) \<Rightarrow> Written @ le_bytes Size Value)"

definition toBytes :: "(nat \<times> nat) list \<Rightarrow> u8 list" where
  "toBytes Args = foldl writeNext [] Args"

definition readNext :: "nat \<Rightarrow> u8 list \<Rightarrow> nat \<times> u8 list" where
  "readNext Size Ptr = (le_value (take Size Ptr), drop Size Ptr)"

fun readAll :: "nat list \<Rightarrow> u8 list \<Rightarrow> nat list" where
  "readAll [] Ptr = []"
| "readAll (Size # Sizes) Ptr = (let (v, Ptr') = readNext Size Ptr in v # readAll Sizes Ptr')"

definition fromBytes :: "nat list \<Rightarrow> u8 list \<Rightarrow> nat list checked" where
  "fromBytes Sizes Data = do {
     revng_assert (length Data = packedSize Sizes);
     Some (readAll Sizes Data) }"

subsection \<open>Round trips\<close>

lemma foldl_writeNext: "foldl writeNext bs Args = bs @ concat (map (\<lambda>(s, v). le_bytes s v) Args)"
  by (induction Args arbitrary: bs) (auto simp: writeNext_def)

lemma toBytes_concat: "toBytes Args = concat (map (\<lambda>(s, v). le_bytes s v) Args)"
  by (simp add: toBytes_def foldl_writeNext)

lemma length_toBytes [simp]: "length (toBytes Args) = packedSize (map fst Args)"
  by (induction Args) (auto simp: toBytes_concat packedSize_def)

lemma readAll_toBytes:
  "readAll (map fst Args) (toBytes Args @ rest) = map (\<lambda>(s, v). v mod 256 ^ s) Args"
  by (induction Args) (auto simp: toBytes_concat readNext_def le_value_le_bytes)

lemma toBytes_readAll:
  "length Data = packedSize Sizes \<Longrightarrow> toBytes (zip Sizes (readAll Sizes Data)) = Data"
proof (induction Sizes arbitrary: Data)
  case Nil
  then show ?case by (simp add: toBytes_concat packedSize_def)
next
  case (Cons s Sizes)
  have "length (drop s Data) = packedSize Sizes" and "length (take s Data) = s"
    using Cons.prems by (simp_all add: packedSize_def)
  with Cons.IH [of "drop s Data"] have
    "concat (map (\<lambda>(s, v). le_bytes s v) (zip Sizes (readAll Sizes (drop s Data)))) = drop s Data"
    and "le_bytes s (le_value (take s Data)) = take s Data"
    using le_bytes_le_value [of "take s Data"] by (simp_all add: toBytes_concat)
  then show ?case by (simp add: toBytes_concat readNext_def)
qed

lemma readAll_length [simp]: "length (readAll Sizes Data) = length Sizes"
  by (induction Sizes arbitrary: Data) (simp_all add: readNext_def)

lemma toBytes_simps:
  "toBytes [] = []" "toBytes ((s, v) # Args) = le_bytes s v @ toBytes Args"
  by (simp_all add: toBytes_concat)

subsection \<open>Properties\<close>

text \<open>
  \<^bold>\<open>C40\<close>. Serialisation is a bijection between tuples of in-range values and byte strings of
  the packed size: reading back what was written gives the values, writing what was read
  gives the bytes, and data of any other size is refused.
\<close>

theorem serialization_bijective:
  assumes "\<forall>(s, v) \<in> set Args. v < 256 ^ s"
  shows "fromBytes (map fst Args) (toBytes Args) = Some (map snd Args)
    \<and> (\<forall>Sizes Data vs. fromBytes Sizes Data = Some vs \<longrightarrow> toBytes (zip Sizes vs) = Data)
    \<and> (\<forall>Sizes Data. fromBytes Sizes Data = None \<longleftrightarrow> length Data \<noteq> packedSize Sizes)"
proof (intro conjI allI impI)
  have "map (\<lambda>(s, v). v mod 256 ^ s) Args = map snd Args"
    using assms by auto
  then show "fromBytes (map fst Args) (toBytes Args) = Some (map snd Args)"
    using readAll_toBytes [of Args "[]"] by (simp add: fromBytes_def)
next
  fix Sizes Data vs
  assume "fromBytes Sizes Data = Some vs"
  then show "toBytes (zip Sizes vs) = Data"
    by (auto simp: fromBytes_def checked_simps intro: toBytes_readAll split: if_splits)
next
  fix Sizes Data
  show "fromBytes Sizes Data = None \<longleftrightarrow> length Data \<noteq> packedSize Sizes"
    by (simp add: fromBytes_def revng_assert_def)
qed

theorem serialization_bijective_witness:
  "fromBytes [4, 2] (toBytes [(4, 0x01020304), (2, 7)]) = Some [0x01020304, 7]"
  using serialization_bijective [of "[(4, 0x01020304), (2, 7)]"] by simp

end
