(* ===== verification/Meta_Address.thy ===== *)
theory Meta_Address
  imports Meta_Address_Type Overflow_Safe_Int Integer_Serialization
begin

text \<open>
  \<^verbatim>\<open>class MetaAddress\<close> (src/include/revng/Support/MetaAddress.h, with the integer codec of
  src/lib/Support/MetaAddress.cpp): an address with a type, an address space and an epoch.
  The record has the members of \<^verbatim>\<open>PlainMetaAddress\<close>; the methods carry the prefix
  \<open>ma_\<close>. A method that contains a check returns a \<^typ>\<open>'a checked\<close>.
\<close>

record MetaAddress =
  Epoch :: u32
  AddressSpace :: u16
  Type :: u16
  Address :: u64

record Features =
  F_Architecture :: Architecture
  F_Epoch :: u32
  F_AddressSpace :: u16

subsection \<open>Accessors\<close>

definition ma_invalid :: MetaAddress where
  "ma_invalid = \<lparr>Epoch = 0, AddressSpace = 0, Type = 0, Address = 0\<rparr>"

definition ma_tombstone :: MetaAddress where
  "ma_tombstone = \<lparr>Epoch = 0, AddressSpace = 0, Type = 0, Address = 1\<rparr>"

definition ma_type :: "MetaAddress \<Rightarrow> MetaAddressType" where
  "ma_type M = Values (Type M)"

definition ma_isInvalid :: "MetaAddress \<Rightarrow> bool" where
  "ma_isInvalid M \<longleftrightarrow> ma_type M = Invalid"

definition ma_isValid :: "MetaAddress \<Rightarrow> bool" where
  "ma_isValid M \<longleftrightarrow> \<not> ma_isInvalid M"

definition ma_isCode :: "MetaAddress \<Rightarrow> bool checked" where
  "ma_isCode M = isCode (ma_type M)"

definition ma_isCodeFor :: "MetaAddress \<Rightarrow> Architecture \<Rightarrow> bool checked" where
  "ma_isCodeFor M Arch = isCodeFor (ma_type M) Arch"

definition ma_isGeneric :: "MetaAddress \<Rightarrow> bool checked" where
  "ma_isGeneric M = isGeneric (ma_type M)"

definition ma_isDefaultCode :: "MetaAddress \<Rightarrow> bool checked" where
  "ma_isDefaultCode M = isDefaultCode (ma_type M)"

definition ma_bitSize :: "MetaAddress \<Rightarrow> nat checked" where
  "ma_bitSize M = bitSize (ma_type M)"

definition ma_alignment :: "MetaAddress \<Rightarrow> nat checked" where
  "ma_alignment M = alignment (ma_type M)"

definition ma_arch :: "MetaAddress \<Rightarrow> Architecture checked" where
  "ma_arch M = arch (ma_type M)"

definition ma_address :: "MetaAddress \<Rightarrow> u64 checked" where
  "ma_address M = do { revng_assert (ma_isValid M); Some (Address M) }"

definition ma_addressSpace :: "MetaAddress \<Rightarrow> u16 checked" where
  "ma_addressSpace M = do { revng_assert (ma_isValid M); Some (AddressSpace M) }"

definition ma_isDefaultAddressSpace :: "MetaAddress \<Rightarrow> bool checked" where
  "ma_isDefaultAddressSpace M = do { a \<leftarrow> ma_addressSpace M; Some (a = 0) }"

definition ma_epoch :: "MetaAddress \<Rightarrow> u32 checked" where
  "ma_epoch M = do { revng_assert (ma_isValid M); Some (Epoch M) }"

definition ma_isDefaultEpoch :: "MetaAddress \<Rightarrow> bool checked" where
  "ma_isDefaultEpoch M = do { e \<leftarrow> ma_epoch M; Some (e = 0) }"

definition ma_features :: "MetaAddress \<Rightarrow> Features checked" where
  "ma_features M = do {
     A \<leftarrow> arch (ma_type M);
     Some \<lparr>F_Architecture = A, F_Epoch = Epoch M, F_AddressSpace = AddressSpace M\<rparr> }"

subsection \<open>Validation\<close>

definition ma_addressMask :: "MetaAddress \<Rightarrow> u64 checked" where
  "ma_addressMask M = addressMask (ma_type M)"

definition ma_verify :: "MetaAddress \<Rightarrow> bool checked" where
  "ma_verify M =
     (if ma_type M = Invalid \<or> raw Count \<le> raw (ma_type M) then Some False
      else do {
        a \<leftarrow> ma_alignment M;
        if unat (Address M) mod a \<noteq> 0 then Some False
        else do {
          m \<leftarrow> ma_addressMask M;
          Some (Address M = Address M AND m) } })"

definition ma_setInvalid :: "MetaAddress \<Rightarrow> MetaAddress" where
  "ma_setInvalid M = ma_invalid"

definition ma_validate :: "MetaAddress \<Rightarrow> MetaAddress checked" where
  "ma_validate M = do { ok \<leftarrow> ma_verify M; Some (if ok then M else ma_setInvalid M) }"

definition ma_setAddress :: "MetaAddress \<Rightarrow> u64 \<Rightarrow> MetaAddress checked" where
  "ma_setAddress M NewAddress = do {
     m \<leftarrow> ma_addressMask M;
     ma_validate (M\<lparr>Address := NewAddress AND m\<rparr>) }"

definition ma_setPC :: "MetaAddress \<Rightarrow> u64 \<Rightarrow> MetaAddress checked" where
  "ma_setPC M PC =
     (if ma_type M = Code_arm_thumb
      then (if PC AND 1 = 0 then Some (ma_setInvalid M) else ma_setAddress M (PC AND NOT 1))
      else ma_setAddress M PC)"

subsection \<open>Constructors and conversions\<close>

definition ma_new :: "u64 \<Rightarrow> MetaAddressType \<Rightarrow> u32 \<Rightarrow> u16 \<Rightarrow> MetaAddress checked" where
  "ma_new Addr T E S = ma_validate \<lparr>Epoch = E, AddressSpace = S, Type = raw T, Address = Addr\<rparr>"

definition ma_fromPC :: "Architecture \<Rightarrow> u64 \<Rightarrow> u32 \<Rightarrow> u16 \<Rightarrow> MetaAddress checked" where
  "ma_fromPC Arch PC E S = do {
     T \<leftarrow> defaultCodeFromArch Arch;
     Result \<leftarrow> ma_new 0 T E S;
     revng_assert (ma_isValid Result);
     let Result = (if Arch = arm \<and> PC AND 1 = 1 then Result\<lparr>Type := raw Code_arm_thumb\<rparr> else Result);
     Result \<leftarrow> ma_setPC Result PC;
     ma_validate Result }"

definition ma_fromPC_base :: "MetaAddress \<Rightarrow> u64 \<Rightarrow> MetaAddress checked" where
  "ma_fromPC_base Base Addr = do {
     A \<leftarrow> ma_arch Base; E \<leftarrow> ma_epoch Base; S \<leftarrow> ma_addressSpace Base;
     ma_fromPC A Addr E S }"

definition ma_fromPC_features :: "u64 \<Rightarrow> Features \<Rightarrow> MetaAddress checked" where
  "ma_fromPC_features Addr F = ma_fromPC (F_Architecture F) Addr (F_Epoch F) (F_AddressSpace F)"

definition ma_fromGeneric :: "Architecture \<Rightarrow> u64 \<Rightarrow> u32 \<Rightarrow> u16 \<Rightarrow> MetaAddress checked" where
  "ma_fromGeneric Arch Addr E S = do { T \<leftarrow> genericFromArch Arch; ma_new Addr T E S }"

definition ma_fromGeneric_features :: "u64 \<Rightarrow> Features \<Rightarrow> MetaAddress checked" where
  "ma_fromGeneric_features Addr F = do {
     T \<leftarrow> genericFromArch (F_Architecture F); ma_new Addr T (F_Epoch F) (F_AddressSpace F) }"

definition ma_toGeneric :: "MetaAddress \<Rightarrow> MetaAddress checked" where
  "ma_toGeneric M = do {
     revng_assert (ma_isValid M);
     G \<leftarrow> toGeneric (ma_type M);
     Some (M\<lparr>Type := raw G\<rparr>) }"

definition ma_toGeneric64 :: "MetaAddress \<Rightarrow> MetaAddress checked" where
  "ma_toGeneric64 M = do { revng_assert (ma_isValid M); Some (M\<lparr>Type := raw Generic64\<rparr>) }"

definition ma_toPC :: "MetaAddress \<Rightarrow> Architecture \<Rightarrow> MetaAddress checked" where
  "ma_toPC M Arch = ma_fromPC Arch (Address M) (Epoch M) (AddressSpace M)"

definition ma_replaceAddress :: "MetaAddress \<Rightarrow> u64 \<Rightarrow> MetaAddress checked" where
  "ma_replaceAddress M Addr = do {
     revng_assert (ma_isValid M);
     Result \<leftarrow> ma_setAddress M Addr;
     ma_validate Result }"

definition ma_replaceType :: "MetaAddress \<Rightarrow> MetaAddressType \<Rightarrow> MetaAddress checked" where
  "ma_replaceType M NewType = do {
     revng_assert (ma_isValid M);
     ma_validate (M\<lparr>Type := raw NewType\<rparr>) }"

definition ma_asPCOrZero :: "MetaAddress \<Rightarrow> u64 checked" where
  "ma_asPCOrZero M = do {
     c \<leftarrow> ma_isCode M;
     revng_assert (c \<or> ma_isInvalid M);
     (case ma_type M of
        Invalid \<Rightarrow> do { revng_assert (Address M = 0); Some 0 }
      | Code_arm_thumb \<Rightarrow> do { revng_assert (Address M AND 1 = 0); Some (Address M OR 1) }
      | Generic32 \<Rightarrow> revng_abort
      | Generic64 \<Rightarrow> revng_abort
      | Count \<Rightarrow> revng_abort
      | Unnamed _ \<Rightarrow> revng_abort
      | _ \<Rightarrow> Some (Address M)) }"

definition ma_asPC :: "MetaAddress \<Rightarrow> u64 checked" where
  "ma_asPC M = do { revng_assert (ma_isValid M); ma_asPCOrZero M }"

subsection \<open>Order\<close>

text \<open>
  \<^verbatim>\<open>operator<=>\<close> compares the tuple \<^verbatim>\<open>(Epoch, AddressSpace, Type, Address)\<close>
  lexicographically, and \<^verbatim>\<open>operator==\<close> is equality of all four.
\<close>

definition ma_tie :: "'z MetaAddress_scheme \<Rightarrow> u32 \<times> u16 \<times> u16 \<times> u64" where
  "ma_tie M = (Epoch M, AddressSpace M, Type M, Address M)"

instantiation MetaAddress_ext :: (linorder) linorder
begin

definition less_eq_MetaAddress_ext :: "'a MetaAddress_ext \<Rightarrow> 'a MetaAddress_ext \<Rightarrow> bool" where
  "less_eq_MetaAddress_ext M N \<longleftrightarrow> (ma_tie M, MetaAddress.more M) \<le> (ma_tie N, MetaAddress.more N)"

definition less_MetaAddress_ext :: "'a MetaAddress_ext \<Rightarrow> 'a MetaAddress_ext \<Rightarrow> bool" where
  "less_MetaAddress_ext M N \<longleftrightarrow> (ma_tie M, MetaAddress.more M) < (ma_tie N, MetaAddress.more N)"

instance
proof (standard, goal_cases)
  case (1 M N)
  show ?case
    unfolding less_eq_MetaAddress_ext_def less_MetaAddress_ext_def by (rule less_le_not_le)
next
  case (2 M)
  show ?case unfolding less_eq_MetaAddress_ext_def by (rule order_refl)
next
  case (3 M N P)
  then show ?case unfolding less_eq_MetaAddress_ext_def by (rule order_trans)
next
  case (4 M N)
  then have "(ma_tie M, MetaAddress.more M) = (ma_tie N, MetaAddress.more N)"
    unfolding less_eq_MetaAddress_ext_def by (rule antisym)
  then show ?case unfolding ma_tie_def by (intro MetaAddress.equality) simp_all
next
  case (5 M N)
  show ?case unfolding less_eq_MetaAddress_ext_def by (rule linear)
qed

end

definition ma_addressEquals :: "MetaAddress \<Rightarrow> MetaAddress \<Rightarrow> bool checked" where
  "ma_addressEquals M Other = do {
     revng_assert (ma_isValid M); revng_assert (ma_isValid Other);
     a \<leftarrow> ma_toGeneric64 M; b \<leftarrow> ma_toGeneric64 Other;
     Some (a = b) }"

definition ma_addressDiffers :: "MetaAddress \<Rightarrow> MetaAddress \<Rightarrow> bool checked" where
  "ma_addressDiffers M Other = do {
     revng_assert (ma_isValid M); revng_assert (ma_isValid Other);
     e \<leftarrow> ma_addressEquals M Other;
     Some (\<not> e) }"

definition ma_addressLowerThan :: "MetaAddress \<Rightarrow> MetaAddress \<Rightarrow> bool checked" where
  "ma_addressLowerThan M Other = do {
     revng_assert (ma_isValid M); revng_assert (ma_isValid Other);
     a \<leftarrow> ma_toGeneric64 M; b \<leftarrow> ma_toGeneric64 Other;
     Some (a < b) }"

definition ma_addressLowerThanOrEqual :: "MetaAddress \<Rightarrow> MetaAddress \<Rightarrow> bool checked" where
  "ma_addressLowerThanOrEqual M Other = do {
     revng_assert (ma_isValid M); revng_assert (ma_isValid Other);
     a \<leftarrow> ma_toGeneric64 M; b \<leftarrow> ma_toGeneric64 Other;
     Some (a \<le> b) }"

definition ma_addressGreaterThanOrEqual :: "MetaAddress \<Rightarrow> MetaAddress \<Rightarrow> bool checked" where
  "ma_addressGreaterThanOrEqual M Other = do {
     revng_assert (ma_isValid M); revng_assert (ma_isValid Other);
     l \<leftarrow> ma_addressLowerThan M Other;
     Some (\<not> l) }"

definition ma_addressGreaterThan :: "MetaAddress \<Rightarrow> MetaAddress \<Rightarrow> bool checked" where
  "ma_addressGreaterThan M Other = do {
     revng_assert (ma_isValid M); revng_assert (ma_isValid Other);
     l \<leftarrow> ma_addressLowerThanOrEqual M Other;
     Some (\<not> l) }"

definition ma_isIn :: "MetaAddress \<Rightarrow> MetaAddress \<Rightarrow> MetaAddress \<Rightarrow> bool" where
  "ma_isIn M Start End \<longleftrightarrow> Start \<le> M \<and> M < End"

subsection \<open>Arithmetic\<close>

definition ma_difference :: "MetaAddress \<Rightarrow> MetaAddress \<Rightarrow> u64 option checked" where
  "ma_difference M Other = do {
     revng_assert (ma_isValid M); revng_assert (ma_isValid Other);
     revng_assert (Epoch M = Epoch Other);
     revng_assert (AddressSpace M = AddressSpace Other);
     Some (osi_sub (Some (Address M)) (Some (Address Other))) }"

text \<open>
  The body of \<^verbatim>\<open>Update\<close> once \<^verbatim>\<open>NewAddress\<close> has been computed in the width \<open>'w\<close>.
\<close>

definition ma_update :: "MetaAddress \<Rightarrow> 'w::len OverflowSafeInt \<Rightarrow> MetaAddress checked" where
  "ma_update M NewAddress =
     (case NewAddress of Some a \<Rightarrow> ma_setAddress M (ucast a) | None \<Rightarrow> Some ma_invalid)"

text \<open>
  \<^verbatim>\<open>operator+=\<close> and \<^verbatim>\<open>operator-=\<close> for an unsigned offset type. The offset is converted to the
  width of the address before the addition, so for 32-bit addresses its upper bits are
  lost: \<open>ucast\<close> to \<^typ>\<open>u32\<close>.
\<close>

definition ma_plus :: "MetaAddress \<Rightarrow> u64 \<Rightarrow> MetaAddress checked" where
  "ma_plus M Offset =
     (if ma_isInvalid M then Some M
      else do {
        b \<leftarrow> ma_bitSize M;
        if b = 32
        then ma_update M (osi_add (Some (ucast (Address M) :: u32)) (Some (ucast Offset)))
        else ma_update M (osi_add (Some (Address M)) (Some Offset)) })"

definition ma_minus :: "MetaAddress \<Rightarrow> u64 \<Rightarrow> MetaAddress checked" where
  "ma_minus M Offset =
     (if ma_isInvalid M then Some M
      else do {
        b \<leftarrow> ma_bitSize M;
        if b = 32
        then ma_update M (osi_sub (Some (ucast (Address M) :: u32)) (Some (ucast Offset)))
        else ma_update M (osi_sub (Some (Address M)) (Some Offset)) })"

text \<open>
  The same for a signed offset type, here \<^verbatim>\<open>int64_t\<close>, given as its two's complement word:
  a negative offset is negated and applied with the opposite operation. Negating the
  least value is undefined behaviour.
\<close>

definition ma_plus_signed :: "MetaAddress \<Rightarrow> u64 \<Rightarrow> MetaAddress checked" where
  "ma_plus_signed M Offset =
     (if ma_isInvalid M then Some M
      else if 0 \<le> sint Offset then ma_plus M Offset
      else do { revng_assert (sint Offset \<noteq> - (2 ^ 63)); ma_minus M (- Offset) })"

definition ma_minus_signed :: "MetaAddress \<Rightarrow> u64 \<Rightarrow> MetaAddress checked" where
  "ma_minus_signed M Offset =
     (if ma_isInvalid M then Some M
      else if 0 \<le> sint Offset then ma_minus M Offset
      else do { revng_assert (sint Offset \<noteq> - (2 ^ 63)); ma_plus M (- Offset) })"

definition ma_pageStart :: "MetaAddress \<Rightarrow> MetaAddress checked" where
  "ma_pageStart M = do {
     revng_assert (ma_isValid M);
     G \<leftarrow> ma_toGeneric M;
     ma_minus G (Address M mod 4096) }"

definition ma_nextPageStart :: "MetaAddress \<Rightarrow> MetaAddress checked" where
  "ma_nextPageStart M = do {
     revng_assert (ma_isValid M);
     q \<leftarrow> osi_div (osi_add (Some (Address M)) (Some (4096 - 1))) 4096;
     let Addend = osi_sub (osi_mul q (Some 4096)) (Some (Address M));
     (case Addend of
        None \<Rightarrow> Some ma_invalid
      | Some a \<Rightarrow> do { G \<leftarrow> ma_toGeneric M; ma_plus G a }) }"

subsection \<open>Codecs\<close>

definition ma_toBytes :: "MetaAddress \<Rightarrow> u8 list" where
  "ma_toBytes M =
     toBytes [(4, unat (Epoch M)), (2, unat (AddressSpace M)), (2, unat (Type M)), (8, unat (Address M))]"

definition ma_fromBytes :: "u8 list \<Rightarrow> MetaAddress checked" where
  "ma_fromBytes Data = do {
     vs \<leftarrow> fromBytes [4, 2, 2, 8] Data;
     ma_validate \<lparr>Epoch = word_of_nat (vs ! 0), AddressSpace = word_of_nat (vs ! 1),
                  Type = word_of_nat (vs ! 2), Address = word_of_nat (vs ! 3)\<rparr> }"

text \<open>
  The value that the instructions emitted by \<^verbatim>\<open>composeIntegerPC\<close> compute from the four
  components, and its inverse.
\<close>

definition composeIntegerPC :: "u64 \<Rightarrow> u32 \<Rightarrow> u16 \<Rightarrow> u16 \<Rightarrow> u128" where
  "composeIntegerPC AddressValue EpochValue AddressSpaceValue TypeValue =
     (let E = push_bit 64 (ucast EpochValue);
          S = push_bit (64 + 32) (ucast AddressSpaceValue);
          T = push_bit (64 + 32 + 16) (ucast TypeValue)
      in ucast AddressValue + (E + (S + T)))"

definition decomposeIntegerPC :: "u128 \<Rightarrow> MetaAddress checked" where
  "decomposeIntegerPC Value =
     (let Lower = (ucast (Value AND ucast (- 1 :: u64)) :: u64);
          Upper = (ucast (drop_bit 64 Value) :: u64)
      in ma_validate
           \<lparr>Epoch = ucast (Upper AND 0xFFFFFFFF),
            AddressSpace = ucast (drop_bit 32 Upper AND 0xFFFF),
            Type = ucast (drop_bit (32 + 16) Upper),
            Address = Lower\<rparr>)"

section \<open>Well-formedness\<close>

text \<open>
  What \<^verbatim>\<open>verify\<close> means: the type has a bit size and an alignment, the address is a multiple
  of the alignment and fits in the bit size.
\<close>

definition ma_wf :: "MetaAddress \<Rightarrow> bool" where
  "ma_wf M \<longleftrightarrow>
     (case (ma_alignment M, ma_bitSize M) of
        (Some a, Some b) \<Rightarrow> a dvd unat (Address M) \<and> unat (Address M) < 2 ^ b
      | _ \<Rightarrow> False)"

text \<open>The invariant of the class: the address is the one invalid address, or well formed.\<close>

definition ma_inv :: "MetaAddress \<Rightarrow> bool" where
  "ma_inv M \<longleftrightarrow> M = ma_invalid \<or> ma_wf M"

lemma ma_type_simps [simp]:
  "ma_type (M\<lparr>Address := a\<rparr>) = ma_type M"
  "ma_type ma_invalid = Invalid"
  by (simp_all add: ma_type_def ma_invalid_def)

lemma ma_isValid_iff: "ma_isValid M \<longleftrightarrow> Type M \<noteq> 0"
  by (simp add: ma_isValid_def ma_isInvalid_def ma_type_def)

lemma ma_wfE:
  assumes "ma_wf M"
  obtains a b where "ma_alignment M = Some a" "ma_bitSize M = Some b" "b = 32 \<or> b = 64"
    "0 < a" "a dvd unat (Address M)" "unat (Address M) < 2 ^ b" "addressable (ma_type M)"
proof -
  from assms obtain a b where *: "alignment (ma_type M) = Some a" "bitSize (ma_type M) = Some b"
      "a dvd unat (Address M)" "unat (Address M) < 2 ^ b"
    unfolding ma_wf_def ma_alignment_def ma_bitSize_def
    by (auto split: option.splits)
  then have "addressable (ma_type M)" using bitSize_eq_None [of "ma_type M"] by simp
  moreover from this have "b = 32 \<or> b = 64" using bitSize_cases [of "ma_type M"] *(2) by simp
  moreover have "0 < a" using alignment_pos *(1) by blast
  ultimately show thesis using that * by (simp add: ma_alignment_def ma_bitSize_def)
qed

lemma ma_wf_isValid [simp]: "ma_wf M \<Longrightarrow> ma_isValid M"
  by (erule ma_wfE) (auto simp: ma_isValid_def ma_isInvalid_def addressable_def)

lemma not_wf_invalid [simp]: "\<not> ma_wf ma_invalid"
  using ma_wf_isValid [of ma_invalid] by (auto simp: ma_isValid_def ma_isInvalid_def)

lemma ma_inv_isInvalid: "ma_inv M \<Longrightarrow> ma_isInvalid M \<longleftrightarrow> M = ma_invalid"
  unfolding ma_inv_def using ma_wf_isValid by (auto simp: ma_isValid_def ma_isInvalid_def)

lemma ma_inv_isValid: "ma_inv M \<Longrightarrow> ma_isValid M \<longleftrightarrow> ma_wf M"
  unfolding ma_inv_def using ma_wf_isValid by (auto simp: ma_isValid_def ma_isInvalid_def)

lemma ma_inv_intros [intro, simp]:
  "ma_inv ma_invalid"
  "ma_wf M \<Longrightarrow> ma_inv M"
  by (simp_all add: ma_inv_def)

lemma ma_verify_eq: "ma_verify M = Some (ma_wf M)"
proof (cases "addressable (ma_type M)")
  case True
  then obtain a b where ab: "alignment (ma_type M) = Some a" "bitSize (ma_type M) = Some b"
    by (metis alignment_eq_None bitSize_eq_None option.exhaust)
  from True have r: "ma_type M \<noteq> Invalid" "\<not> raw Count \<le> raw (ma_type M)"
    unfolding ma_type_def using addressable_eq [of "Type M"] by auto
  show ?thesis
    using r ab and_mask_eq_self_iff [of "Address M" b]
    by (auto simp: ma_verify_def ma_wf_def ma_alignment_def ma_bitSize_def ma_addressMask_def
        addressMask_eq dvd_eq_mod_eq_0)
next
  case False
  then have "ma_alignment M = None" by (simp add: ma_alignment_def)
  moreover from False have "ma_type M = Invalid \<or> raw Count \<le> raw (ma_type M)"
    unfolding ma_type_def using addressable_eq [of "Type M"] by auto
  ultimately show ?thesis by (auto simp: ma_verify_def ma_wf_def)
qed

lemma ma_validate_eq: "ma_validate M = Some (if ma_wf M then M else ma_invalid)"
  by (simp add: ma_validate_def ma_verify_eq ma_setInvalid_def)

lemma ma_validate_inv: "\<exists>N. ma_validate M = Some N \<and> ma_inv N"
  by (simp add: ma_validate_eq)

lemma ma_setAddress_eq:
  assumes "ma_bitSize M = Some b"
  shows "ma_setAddress M n =
    (let N = M\<lparr>Address := n AND mask b\<rparr> in Some (if ma_wf N then N else ma_invalid))"
  using assms
  by (simp add: ma_setAddress_def ma_addressMask_def ma_bitSize_def addressMask_eq ma_validate_eq Let_def)

text \<open>The address \<open>s\<close> in \<open>M\<close>'s type, or the invalid address when it does not fit.\<close>

definition ma_at :: "MetaAddress \<Rightarrow> int \<Rightarrow> MetaAddress" where
  "ma_at M s =
     (case (ma_alignment M, ma_bitSize M) of
        (Some a, Some b) \<Rightarrow>
          (if 0 \<le> s \<and> s < 2 ^ b \<and> int a dvd s then M\<lparr>Address := word_of_int s\<rparr> else ma_invalid)
      | _ \<Rightarrow> ma_invalid)"

lemma ma_at_inv: "ma_inv (ma_at M s)"
proof (cases "ma_at M s = ma_invalid")
  case False
  then obtain a b where *: "alignment (ma_type M) = Some a" "bitSize (ma_type M) = Some b"
      "0 \<le> s" "s < 2 ^ b" "int a dvd s" "ma_at M s = M\<lparr>Address := word_of_int s\<rparr>"
    by (auto simp: ma_at_def ma_alignment_def ma_bitSize_def split: option.splits if_splits)
  then have "b = 32 \<or> b = 64"
    using bitSize_cases [of "ma_type M"] bitSize_eq_None [of "ma_type M"] by auto
  with * have "uint (word_of_int s :: u64) = s"
    by (auto simp: unsigned_of_int take_bit_int_eq_self)
  with * have "ma_wf (ma_at M s)"
    by (simp add: ma_wf_def ma_alignment_def ma_bitSize_def
        flip: uint_less_power_iff int_dvd_uint_iff)
  then show ?thesis by simp
qed simp

lemma ma_at_self: "ma_wf M \<Longrightarrow> ma_at M (uint (Address M)) = M"
  by (erule ma_wfE) (simp add: ma_at_def uint_less_power_iff int_dvd_uint_iff)

lemma ma_update_eq:
  fixes x :: "'w::len OverflowSafeInt"
  assumes "ma_wf M" "ma_bitSize M = Some b" "LENGTH('w) = b"
  shows "ma_update M x = Some (case x of None \<Rightarrow> ma_invalid | Some a \<Rightarrow> ma_at M (uint a))"
proof (cases x)
  case None
  then show ?thesis by (simp add: ma_update_def)
next
  case (Some v)
  from assms(1,2) obtain a where a: "ma_alignment M = Some a" and b: "b \<le> 64"
    by (auto elim: ma_wfE)
  have lt: "unat v < 2 ^ b" using unsigned_less [of v, where 'a = nat] assms(3) by simp
  have "(2::nat) ^ b \<le> 2 ^ 64" using b by (rule power_increasing) simp
  with lt have u: "unat (ucast v :: u64) = unat v"
    by (simp add: unsigned_ucast_eq take_bit_nat_eq_self)
  then have m: "(ucast v :: u64) AND mask b = ucast v" using lt and_mask_eq_self_iff by metis
  have w: "word_of_int (uint v) = (ucast v :: u64)" by simp
  show ?thesis
    using a assms(2) lt u m w Some
    by (simp add: ma_update_def ma_setAddress_eq Let_def ma_wf_def ma_at_def ma_alignment_def
        ma_bitSize_def uint_less_power_iff int_dvd_uint_iff)
qed

lemma ma_update_add:
  fixes x y :: "'w::len word"
  assumes "ma_wf M" "ma_bitSize M = Some b" "LENGTH('w) = b"
  shows "ma_update M (osi_add (Some x) (Some y)) = Some (ma_at M (uint x + uint y))"
proof (cases "add_overflow x y")
  case None
  then have "int (2 ^ b) \<le> int (unat x + unat y)"
    unfolding add_overflow_None assms(3) by (rule of_nat_mono)
  then have "2 ^ b \<le> uint x + uint y" by simp
  then show ?thesis using None assms
    by (simp add: ma_update_eq ma_at_def split: option.split)
next
  case (Some c)
  then have "uint x + uint y = uint c" by (simp add: add_overflow_Some uint_add_eq_iff)
  then show ?thesis using Some assms by (simp add: ma_update_eq)
qed

lemma ma_update_sub:
  fixes x y :: "'w::len word"
  assumes "ma_wf M" "ma_bitSize M = Some b" "LENGTH('w) = b"
  shows "ma_update M (osi_sub (Some x) (Some y)) = Some (ma_at M (uint x - uint y))"
proof (cases "sub_overflow x y")
  case None
  then have "uint x < uint y" by (simp add: sub_overflow_None word_less_def)
  then show ?thesis using None assms
    by (simp add: ma_update_eq ma_at_def split: option.split)
next
  case (Some c)
  then have "uint y + uint c = uint x" by (simp add: sub_overflow_Some uint_add_eq_iff)
  then have "uint x - uint y = uint c" by simp
  then show ?thesis using Some assms by (simp add: ma_update_eq)
qed

lemma ma_ucast_Address:
  assumes "ma_wf M" "ma_bitSize M = Some 32"
  shows "uint (ucast (Address M) :: u32) = uint (Address M)"
proof -
  have "uint (Address M) < 2 ^ 32" unfolding uint_less_power_iff
    using assms by (auto elim: ma_wfE)
  then show ?thesis by (simp add: unsigned_ucast_eq take_bit_int_eq_self)
qed

lemma ma_plus_eq:
  assumes "ma_wf M" "ma_bitSize M = Some b"
  shows "ma_plus M off = Some (ma_at M (uint (Address M) + uint off mod 2 ^ b))"
proof -
  have "b = 32 \<or> b = 64" "\<not> ma_isInvalid M"
    using assms ma_wf_isValid by (auto elim: ma_wfE simp: ma_isValid_def)
  then show ?thesis
    using assms ma_update_add [OF assms, of "ucast (Address M) :: u32" "ucast off"]
      ma_update_add [OF assms, of "Address M" off] ma_ucast_Address [OF assms(1)]
      uint_mod_size [of off]
    by (auto simp: ma_plus_def unsigned_ucast_eq take_bit_eq_mod)
qed

lemma ma_minus_eq:
  assumes "ma_wf M" "ma_bitSize M = Some b"
  shows "ma_minus M off = Some (ma_at M (uint (Address M) - uint off mod 2 ^ b))"
proof -
  have "b = 32 \<or> b = 64" "\<not> ma_isInvalid M"
    using assms ma_wf_isValid by (auto elim: ma_wfE simp: ma_isValid_def)
  then show ?thesis
    using assms ma_update_sub [OF assms, of "ucast (Address M) :: u32" "ucast off"]
      ma_update_sub [OF assms, of "Address M" off] ma_ucast_Address [OF assms(1)]
      uint_mod_size [of off]
    by (auto simp: ma_minus_def unsigned_ucast_eq take_bit_eq_mod)
qed

lemma ma_plus_inv: "ma_inv M \<Longrightarrow> ma_plus M off = Some N \<Longrightarrow> ma_inv N"
  unfolding ma_inv_def [of M]
proof (elim disjE)
  assume "ma_wf M" "ma_plus M off = Some N"
  then show "ma_inv N"
    using ma_at_inv by (auto elim!: ma_wfE [of M] simp: ma_plus_eq [OF \<open>ma_wf M\<close>])
qed (auto simp: ma_plus_def ma_isInvalid_def)

lemma ma_minus_inv: "ma_inv M \<Longrightarrow> ma_minus M off = Some N \<Longrightarrow> ma_inv N"
  unfolding ma_inv_def [of M]
proof (elim disjE)
  assume "ma_wf M" "ma_minus M off = Some N"
  then show "ma_inv N"
    using ma_at_inv by (auto elim!: ma_wfE [of M] simp: ma_minus_eq [OF \<open>ma_wf M\<close>])
qed (auto simp: ma_minus_def ma_isInvalid_def)

lemma ma_toGeneric_wf:
  assumes "ma_wf M"
  obtains G where "ma_toGeneric M = Some G" "ma_wf G" "Address G = Address M"
    "Epoch G = Epoch M" "AddressSpace G = AddressSpace M"
    "ma_alignment G = Some 1" "ma_bitSize G = ma_bitSize M"
    "toGeneric (ma_type M) = Some (ma_type G)"
proof -
  from assms obtain a b where *: "ma_alignment M = Some a" "ma_bitSize M = Some b"
      "unat (Address M) < 2 ^ b" "addressable (ma_type M)" by (auto elim: ma_wfE)
  then obtain T where T: "toGeneric (ma_type M) = Some T" by fastforce
  then have "isValid T" by (cases "ma_type M") auto
  then have "ma_type (M\<lparr>Type := raw T\<rparr>) = T" by (simp add: ma_type_def)
  moreover have "ma_toGeneric M = Some (M\<lparr>Type := raw T\<rparr>)"
    using T assms by (simp add: ma_toGeneric_def)
  ultimately show thesis
    using that [of "M\<lparr>Type := raw T\<rparr>"] toGeneric_bitSize [OF T] T *
    by (simp add: ma_wf_def ma_alignment_def ma_bitSize_def)
qed

lemma ma_toGeneric_inv:
  assumes "ma_inv M" "ma_toGeneric M = Some N"
  shows "ma_wf N"
proof -
  from assms(2) have "ma_isValid M" by (simp add: ma_toGeneric_def checked_simps split: if_splits)
  with assms(1) have "ma_wf M" by (simp add: ma_inv_isValid)
  then obtain G where "ma_toGeneric M = Some G" "ma_wf G" by (rule ma_toGeneric_wf)
  with assms(2) show ?thesis by simp
qed

lemma ma_toGeneric64_wf:
  assumes "ma_wf M"
  shows "ma_toGeneric64 M = Some (M\<lparr>Type := raw Generic64\<rparr>) \<and> ma_wf (M\<lparr>Type := raw Generic64\<rparr>)"
proof -
  have "Values (raw Generic64) = Generic64" by (rule Values_raw) simp
  then show ?thesis
    using assms unsigned_less [of "Address M", where 'a = nat]
    by (simp add: ma_toGeneric64_def ma_wf_def ma_alignment_def ma_bitSize_def ma_type_def del: raw.simps)
qed

lemma ma_signed_inv:
  "ma_inv M \<Longrightarrow> ma_plus_signed M x = Some N \<or> ma_minus_signed M x = Some N \<Longrightarrow> ma_inv N"
  unfolding ma_plus_signed_def ma_minus_signed_def revng_assert_bind
  by (elim disjE; simp split: if_split_asm; erule (1) ma_plus_inv ma_minus_inv)

lemma ma_validate_SomeD: "ma_validate M = Some N \<Longrightarrow> ma_inv N"
  by (auto simp: ma_validate_eq split: if_splits)

lemma ma_new_inv: "ma_new x T e sp = Some N \<Longrightarrow> ma_inv N"
  by (simp add: ma_new_def ma_validate_SomeD)

text \<open>Definitions that evaluate the methods on a concrete address.\<close>

lemmas ma_eval = ma_wf_def ma_inv_def ma_alignment_def ma_bitSize_def ma_type_def ma_at_def
  ma_isValid_def ma_isInvalid_def Values_def

subsection \<open>Program counters\<close>

lemma ma_new_zero: "addressable T \<Longrightarrow>
   ma_new 0 T e sp = Some \<lparr>Epoch = e, AddressSpace = sp, Type = raw T, Address = 0\<rparr>"
  by (cases T) (simp_all add: ma_new_def ma_validate_eq ma_eval)

lemma ma_fromPC_eq:
  assumes "defaultCodeFromArch A = Some T"
    and "T' = (if A = arm \<and> PC AND 1 = 1 then Code_arm_thumb else T)"
    and "P = (if T' = Code_arm_thumb then PC AND NOT 1 else PC)"
    and "bitSize T' = Some b"
  shows "ma_fromPC A PC e sp = ma_new (P AND mask b) T' e sp"
proof -
  have T: "addressable T" "isValid T'" "T \<noteq> Code_arm_thumb" "T \<noteq> Invalid"
    using assms(1,2) by (cases A; simp add: assms(2))+
  define R where "R = \<lparr>Epoch = e, AddressSpace = sp, Type = raw T', Address = 0\<rparr>"
  have R: "ma_type R = T'" "ma_bitSize R = Some b"
    using T assms(4) by (simp_all add: R_def ma_type_def ma_bitSize_def)
  have "ma_fromPC A PC e sp = ma_setPC R PC \<bind> ma_validate"
    using assms(1,2) T ma_new_zero [OF T(1), of e sp] and_one_cases [of PC]
    by (cases T) (auto simp: ma_fromPC_def ma_isValid_iff R_def Let_def)
  moreover have "ma_setPC R PC = ma_setAddress R P"
    using R assms(2,3) T(3) by (auto simp: ma_setPC_def split: if_splits)
  moreover have "ma_setAddress R P = ma_new (P AND mask b) T' e sp"
    using R by (simp add: ma_setAddress_eq Let_def ma_new_def ma_validate_eq R_def)
  ultimately show ?thesis by (simp add: ma_new_def ma_validate_eq)
qed

lemma raw_ma_type [simp]: "raw (ma_type M) = Type M"
  by (simp add: ma_type_def)

lemma ma_new_self: "ma_wf M \<Longrightarrow> ma_new (Address M) (ma_type M) (Epoch M) (AddressSpace M) = Some M"
  by (cases M) (simp add: ma_new_def ma_validate_eq)

lemma ma_new_eq:
  assumes "isValid T" "alignment T = Some a" "bitSize T = Some b"
  shows "ma_new x T e sp =
    Some (if a dvd unat x \<and> unat x < 2 ^ b
          then \<lparr>Epoch = e, AddressSpace = sp, Type = raw T, Address = x\<rparr> else ma_invalid)"
  using assms by (simp add: ma_new_def ma_validate_eq ma_wf_def ma_alignment_def ma_bitSize_def ma_type_def)

subsection \<open>Codecs, order and pages\<close>

lemma ma_validate_inv_eq: "ma_inv M \<Longrightarrow> ma_validate M = Some M"
  by (auto simp: ma_validate_eq ma_inv_def)

lemma ma_fromBytes_toBytes:
  assumes "ma_inv M"
  shows "ma_fromBytes (ma_toBytes M) = Some M"
proof -
  let ?args = "[(4, unat (Epoch M)), (2, unat (AddressSpace M)), (2, unat (Type M)), (8, unat (Address M))]"
  have "readAll [4, 2, 2, 8] (toBytes ?args) = map (\<lambda>(s, v). v mod 256 ^ s) ?args"
    using readAll_toBytes [of ?args "[]"] by simp
  moreover have "length (toBytes ?args) = packedSize [4, 2, 2, 8]" by simp
  ultimately have "fromBytes [4, 2, 2, 8] (ma_toBytes M) = Some (map (\<lambda>(s, v). v mod 256 ^ s) ?args)"
    unfolding ma_toBytes_def fromBytes_def by (simp del: list.map)
  then show ?thesis
    unfolding ma_fromBytes_def using ma_validate_inv_eq [OF assms]
      unsigned_less [of "Epoch M", where 'a = nat] unsigned_less [of "AddressSpace M", where 'a = nat]
      unsigned_less [of "Type M", where 'a = nat] unsigned_less [of "Address M", where 'a = nat]
    by (cases M) simp
qed

lemma composeIntegerPC_or:
  "composeIntegerPC a e s t =
     ucast a OR (push_bit 64 (ucast e) OR (push_bit 96 (ucast s) OR push_bit 112 (ucast t)))"
proof -
  have "push_bit 96 (ucast s :: u128) AND push_bit 112 (ucast t) = 0"
    by (rule bit_word_eqI) (auto simp: bit_simps dest: bit_imp_le_length)
  moreover have "push_bit 64 (ucast e :: u128) AND (push_bit 96 (ucast s) OR push_bit 112 (ucast t)) = 0"
    by (rule bit_word_eqI) (auto simp: bit_simps dest: bit_imp_le_length)
  moreover have "ucast a AND (push_bit 64 (ucast e :: u128) OR (push_bit 96 (ucast s) OR push_bit 112 (ucast t))) = 0"
    by (rule bit_word_eqI) (auto simp: bit_simps dest: bit_imp_le_length)
  ultimately show ?thesis
    by (simp add: composeIntegerPC_def Let_def disjunctive_add_eq_or)
qed

lemma bit_composeIntegerPC:
  assumes "n < 128"
  shows "bit (composeIntegerPC a e s t) n =
    (if n < 64 then bit a n else if n < 96 then bit e (n - 64)
     else if n < 112 then bit s (n - 96) else bit t (n - 112))"
  using assms by (auto simp: composeIntegerPC_or bit_simps dest: bit_imp_le_length)

lemma decompose_composeIntegerPC:
  "decomposeIntegerPC (composeIntegerPC a e s t) =
     ma_validate \<lparr>Epoch = e, AddressSpace = s, Type = t, Address = a\<rparr>"
proof -
  let ?v = "composeIntegerPC a e s t"
  have masks: "(0xFFFFFFFF :: u64) = mask 32" "(0xFFFF :: u64) = mask 16"
    by (simp_all add: mask_eq_exp_minus_1)
  have "(ucast (?v AND ucast (- 1 :: u64)) :: u64) = a"
    by (rule bit_word_eqI) (auto simp: bit_simps bit_composeIntegerPC)
  moreover have "(ucast ((ucast (drop_bit 64 ?v) :: u64) AND 0xFFFFFFFF) :: u32) = e"
    unfolding masks by (rule bit_word_eqI) (auto simp: bit_simps bit_composeIntegerPC)
  moreover have "(ucast (drop_bit 32 (ucast (drop_bit 64 ?v) :: u64) AND 0xFFFF) :: u16) = s"
    unfolding masks by (rule bit_word_eqI) (auto simp: bit_simps bit_composeIntegerPC)
  moreover have "(ucast (drop_bit (32 + 16) (ucast (drop_bit 64 ?v) :: u64)) :: u16) = t"
    by (rule bit_word_eqI) (auto simp: bit_simps bit_composeIntegerPC)
  ultimately show ?thesis unfolding decomposeIntegerPC_def Let_def by simp
qed

lemma ma_less_iff: "(M :: MetaAddress) < N \<longleftrightarrow> ma_tie M < ma_tie N"
  by (cases "ma_tie M"; cases "ma_tie N") (simp add: less_MetaAddress_ext_def)

lemma ma_le_iff: "(M :: MetaAddress) \<le> N \<longleftrightarrow> ma_tie M \<le> ma_tie N"
  by (cases "ma_tie M"; cases "ma_tie N") (auto simp add: less_eq_MetaAddress_ext_def)

text \<open>What the comparisons that ignore the type compare.\<close>

definition ma_location :: "MetaAddress \<Rightarrow> u32 \<times> u16 \<times> u64" where
  "ma_location M = (Epoch M, AddressSpace M, Address M)"

lemma isPowerOf2_page: "isPowerOf2 4096"
  unfolding isPowerOf2_def by (rule exI [of _ 12]) simp

lemma ma_pageStart_eq:
  assumes "ma_wf M" and "ma_toGeneric M = Some G"
  shows "ma_pageStart M = Some (G\<lparr>Address := word_of_nat (unat (Address M) div 4096 * 4096)\<rparr>)"
proof -
  let ?x = "unat (Address M)"
  from ma_toGeneric_wf [OF assms(1)] assms(2) have G: "ma_wf G" "Address G = Address M" 
     "ma_alignment G = Some 1" "ma_bitSize G = ma_bitSize M" by auto
  obtain b where b: "ma_bitSize M = Some b" "b = 32 \<or> b = 64" "?x < 2 ^ b" 
    using assms(1) by (auto elim: ma_wfE)
  have "uint (Address M mod 4096) = int (?x mod 4096)" by (simp add: uint_mod_distrib zmod_int)
  moreover have "int (?x mod 4096) mod 2 ^ b = int (?x mod 4096)"
    using b(2) by (auto simp: mod_pos_pos_trivial)
  moreover have "uint (Address M) - int (?x mod 4096) = int (?x div 4096 * 4096)"
    by (simp add: minus_mod_eq_div_mult [symmetric] zmod_int)
  moreover have "int (?x div 4096 * 4096) < 2 ^ b"
    using le_less_trans [OF div_times_less_eq_dividend b(3), of 4096]
      of_nat_less_iff [of "?x div 4096 * 4096" "2 ^ b", where 'a = int] by simp
  ultimately show ?thesis
    using assms G b by (simp add: ma_pageStart_def ma_minus_eq ma_at_def)
qed

lemma page_round_up:
  fixes x :: nat
  shows "x \<le> (x + 4095) div 4096 * 4096" "(x + 4095) div 4096 * 4096 - x < 4096"
  using div_mult_mod_eq [of "x + 4095" 4096] mod_less_divisor [of 4096 "x + 4095"] by linarith+

lemma ma_nextPageStart_eq:
  assumes "ma_wf M" and "ma_toGeneric M = Some G" and "ma_bitSize M = Some b"
    and "n = (unat (Address M) + 4095) div 4096 * 4096"
  shows "ma_nextPageStart M = Some (if n < 2 ^ b then G\<lparr>Address := word_of_nat n\<rparr> else ma_invalid)"
proof -
  let ?x = "unat (Address M)"
  from ma_toGeneric_wf [OF assms(1)] assms(2,3) have G: "ma_wf G" "Address G = Address M"
     "ma_alignment G = Some 1" "ma_bitSize G = Some b" by auto
  have b: "b = 32 \<or> b = 64" using assms(1,3) by (auto elim: ma_wfE)
  have page: "unat (4096 :: u64) = 4096" "unat (4095 :: u64) = 4095" by simp_all
  note round = page_round_up [of ?x, folded assms(4)]
  show ?thesis
  proof (cases "add_overflow (Address M) 4095")
    case None
    then have "2 ^ 64 \<le> ?x + 4095" by (simp add: add_overflow_None)
    then have "2 ^ 64 \<le> n" unfolding assms(4) using div_le_mono [of "2 ^ 64" "?x + 4095" 4096] by simp
    moreover have "(2::nat) ^ b \<le> 2 ^ 64" using b by auto
    ultimately have "\<not> n < 2 ^ b" by linarith
    then show ?thesis
      using None assms(1) by (simp add: ma_nextPageStart_def osi_div_def isPowerOf2_page)
  next
    case (Some v)
    then have v: "unat v = ?x + 4095" by (simp add: add_overflow_Some)
    then have q: "unat (v div 4096) = (?x + 4095) div 4096" by (simp add: unat_div)
    have "n < 2 ^ 64" using v unsigned_less [of v, where 'a = nat] assms(4) by simp
    then have un: "unat (word_of_nat n :: u64) = n" by (simp add: unat_of_nat)
    then have mul: "mul_overflow (v div 4096) 4096 = Some (word_of_nat n)"
      using q by (simp add: mul_overflow_Some assms(4))
    obtain a where a: "sub_overflow (word_of_nat n) (Address M) = Some a"
      using round(1) un sub_overflow_None [of "word_of_nat n" "Address M"]
      by (cases "sub_overflow (word_of_nat n) (Address M)") (auto simp: word_less_nat_alt)
    then have ua: "n = ?x + unat a" using un by (simp add: sub_overflow_Some)
    then have "unat a < 4096" using round(2) by simp
    moreover have "(4096::nat) \<le> 2 ^ b" using b by auto
    ultimately have "uint a < 2 ^ b" unfolding uint_less_power_iff by linarith
    then have "ma_plus G a = Some (ma_at G (uint (Address M) + uint a))"
      using G by (simp add: ma_plus_eq)
    also have "uint (Address M) + uint a = int n" unfolding ua by simp
    finally have "ma_plus G a = Some (if n < 2 ^ b then G\<lparr>Address := word_of_nat n\<rparr> else ma_invalid)"
      using G by (simp add: ma_at_def)
    then show ?thesis
      using Some mul a assms(1,2) by (simp add: ma_nextPageStart_def osi_div_def isPowerOf2_page)
  qed
qed

section \<open>Properties\<close>



text \<open>
  \<^bold>\<open>C29\<close>. Address arithmetic is exact for the offsets that fit the bit size of the address:
  adding or subtracting gives the address at the exact sum or difference when that fits the
  bit size and is aligned for the type, and the invalid address otherwise. When the sum is
  valid, subtracting the offset gives back the address, and the difference is the offset.
\<close>

theorem ma_arithmetic_exact:
  assumes "ma_wf M" and "ma_bitSize M = Some b" and "uint off < 2 ^ b"
  shows "ma_plus M off = Some (ma_at M (uint (Address M) + uint off))
     \<and> ma_minus M off = Some (ma_at M (uint (Address M) - uint off))
     \<and> (ma_plus M off = Some N \<and> ma_isValid N \<longrightarrow>
          ma_minus N off = Some M \<and> ma_difference N M = Some (Some off))"
proof (intro conjI impI)
  show plus: "ma_plus M off = Some (ma_at M (uint (Address M) + uint off))"
    using assms by (simp add: ma_plus_eq)
  show "ma_minus M off = Some (ma_at M (uint (Address M) - uint off))"
    using assms by (simp add: ma_minus_eq)
  assume N: "ma_plus M off = Some N \<and> ma_isValid N"
  from assms obtain a where a: "ma_alignment M = Some a" and ab: "b = 32 \<or> b = 64"
    by (auto elim: ma_wfE)
  have inv: "ma_inv N" using ma_plus_inv [of M off N] assms(1) N by simp
  with N have wf: "ma_wf N" by (simp add: ma_inv_isValid)
  then have "N \<noteq> ma_invalid" by auto
  with N plus a assms(2) have
    eq: "N = M\<lparr>Address := word_of_int (uint (Address M) + uint off)\<rparr>"
    and lt: "uint (Address M) + uint off < 2 ^ b"
    by (auto simp: ma_at_def split: if_splits)
  from lt ab have u: "uint (Address N) = uint (Address M) + uint off"
    using uint_add_lem [of "Address M" off] unfolding eq by auto
  have bits: "ma_bitSize N = Some b" using assms(2) unfolding eq by (simp add: ma_bitSize_def)
  have "ma_minus N off = Some (ma_at N (uint (Address M)))"
    using assms(3) u by (simp add: ma_minus_eq [OF wf bits])
  also have "ma_at N (uint (Address M)) = ma_at M (uint (Address M))"
    unfolding eq using a assms(2) by (simp add: ma_at_def ma_alignment_def ma_bitSize_def)
  also have "\<dots> = M" using assms(1) by (rule ma_at_self)
  finally show "ma_minus N off = Some M" .
  have "unat (Address N) = unat (Address M) + unat off"
    using u uint_add_eq_iff by metis
  then have "sub_overflow (Address N) (Address M) = Some off" by (simp add: sub_overflow_Some)
  then show "ma_difference N M = Some (Some off)"
    using N assms(1) eq by (simp add: ma_difference_def)
qed

theorem ma_arithmetic_exact_witness:
  "ma_minus \<lparr>Epoch = 0, AddressSpace = 0, Type = raw Code_x86_64, Address = 0x1010\<rparr> 0x10
     = Some \<lparr>Epoch = 0, AddressSpace = 0, Type = raw Code_x86_64, Address = 0x1000\<rparr>"
proof -
  define M where "M = \<lparr>Epoch = 0, AddressSpace = 0, Type = raw Code_x86_64, Address = 0x1000\<rparr>"
  define N where "N = \<lparr>Epoch = 0, AddressSpace = 0, Type = raw Code_x86_64, Address = 0x1010\<rparr>"
  have "ma_wf M" unfolding M_def by (simp add: ma_eval)
  moreover have "ma_bitSize M = Some 64" unfolding M_def by (simp add: ma_eval)
  moreover have "ma_plus M 0x10 = Some N" unfolding M_def N_def by (simp add: ma_plus_eq ma_eval)
  moreover have "ma_isValid N" unfolding N_def by (simp add: ma_eval)
  ultimately have "ma_minus N 0x10 = Some M"
    using ma_arithmetic_exact [of M 64 "0x10" N] by simp
  then show ?thesis unfolding M_def N_def .
qed

text \<open>
  \<^bold>\<open>Fact\<close>. For a 32-bit address the offset is converted to \<^verbatim>\<open>uint32_t\<close> before the addition, so
  only its low half counts: adding or subtracting a multiple of 4 GiB, whose exact result
  is outside the address space, returns the address unchanged and valid.
\<close>

theorem ma_plus_ignores_upper_half:
  assumes "ma_wf M" and "ma_bitSize M = Some 32"
  shows "ma_plus M off = ma_plus M (off AND 0xFFFFFFFF)
     \<and> ma_minus M off = ma_minus M (off AND 0xFFFFFFFF)
     \<and> (unat off mod 2 ^ 32 = 0 \<longrightarrow> ma_plus M off = Some M \<and> ma_minus M off = Some M)"
proof -
  have mask: "(0xFFFFFFFF :: u64) = mask 32" by (simp add: mask_eq_exp_minus_1)
  have low: "uint (off AND 0xFFFFFFFF) = uint off mod 2 ^ 32"
    unfolding mask take_bit_eq_mask [symmetric] unsigned_take_bit_eq by (rule take_bit_eq_mod)
  have zero: "uint off mod 2 ^ 32 = 0" if "unat off mod 2 ^ 32 = 0"
    using that int_dvd_uint_iff [of "2 ^ 32" off] by (simp add: dvd_eq_mod_eq_0)
  show ?thesis
    using ma_plus_eq [OF assms] ma_minus_eq [OF assms] low zero ma_at_self [OF assms(1)] by simp
qed

theorem ma_plus_ignores_upper_half_witness:
  "ma_plus \<lparr>Epoch = 0, AddressSpace = 0, Type = raw Code_x86, Address = 0x1000\<rparr> 0x100000000
     = Some \<lparr>Epoch = 0, AddressSpace = 0, Type = raw Code_x86, Address = 0x1000\<rparr>"
proof -
  define M where "M = \<lparr>Epoch = 0, AddressSpace = 0, Type = raw Code_x86, Address = 0x1000\<rparr>"
  have "ma_wf M" unfolding M_def by (simp add: ma_eval)
  moreover have "ma_bitSize M = Some 32" unfolding M_def by (simp add: ma_eval)
  ultimately have "ma_plus M 0x100000000 = Some M"
    using ma_plus_ignores_upper_half [of M "0x100000000"] by auto
  then show ?thesis unfolding M_def .
qed

text \<open>
  \<^bold>\<open>C30\<close>. A valid code address survives the trip through its program counter: converting it
  with \<^verbatim>\<open>asPC\<close> and back with \<^verbatim>\<open>fromPC\<close> for its own architecture, epoch and address space
  returns it, the Thumb bit included.
\<close>

theorem fromPC_asPC:
  assumes "ma_wf M" and "ma_isCode M = Some True"
  shows "(do { A \<leftarrow> ma_arch M; PC \<leftarrow> ma_asPC M; ma_fromPC A PC (Epoch M) (AddressSpace M) }) = Some M"
proof -
  obtain a b where ab: "alignment (ma_type M) = Some a" "bitSize (ma_type M) = Some b"
      "a dvd unat (Address M)" "unat (Address M) < 2 ^ b"
    using assms(1) by (auto elim: ma_wfE simp: ma_alignment_def ma_bitSize_def)
  have masked: "Address M AND mask b = Address M" using ab(4) and_mask_eq_self_iff by blast
  have valid: "ma_isValid M" using assms(1) by simp
  show ?thesis
  proof (cases "ma_type M = Code_arm_thumb")
    case True
    then have zero: "Address M AND 1 = 0" using ab(1,3) by (simp add: and_one_zero_iff)
    have "(Address M OR 1) AND 1 = 1" by (simp add: bit.conj_disj_distrib2)
    then have "ma_fromPC arm (Address M OR 1) e sp = ma_new (Address M) Code_arm_thumb e sp" for e sp
      using ma_fromPC_eq [of arm Code_arm Code_arm_thumb "Address M OR 1" "Address M" b e sp] True ab(2)
        masked or_one_and_not_one [OF zero] by simp
    then show ?thesis
      using True zero assms valid ma_new_self [OF assms(1)]
      by (simp add: ma_arch_def ma_asPC_def ma_asPCOrZero_def)
  next
    case False
    then obtain A where A: "arch (ma_type M) = Some A" "defaultCodeFromArch A = Some (ma_type M)"
        "ma_asPC M = Some (Address M)" "ma_type M = Code_arm \<longleftrightarrow> A = arm"
      using assms(2) valid
      by (cases "ma_type M") (simp_all add: ma_isCode_def ma_asPC_def ma_asPCOrZero_def)
    have "\<not> (A = arm \<and> Address M AND 1 = 1)"
      using A(4) ab(1,3) and_one_zero_iff [of "Address M"]
      by (auto dest: dvd_trans [of 2 4])
    then show ?thesis
      using ma_fromPC_eq [OF A(2) _ refl, of "ma_type M" "Address M" b] False ab(2) masked
        ma_new_self [OF assms(1)] A
      by (simp add: ma_arch_def)
  qed
qed

theorem fromPC_asPC_witness:
  "ma_fromPC arm 0x8001 3 0 = Some \<lparr>Epoch = 3, AddressSpace = 0, Type = raw Code_arm_thumb, Address = 0x8000\<rparr>"
proof -
  define M where "M = \<lparr>Epoch = 3, AddressSpace = 0, Type = raw Code_arm_thumb, Address = 0x8000\<rparr>"
  have "ma_wf M" unfolding M_def by (simp add: ma_eval)
  moreover have "ma_isCode M = Some True" unfolding M_def by (simp add: ma_isCode_def ma_eval)
  moreover have "ma_arch M = Some arm" "ma_asPC M = Some 0x8001"
    unfolding M_def by (simp_all add: ma_arch_def ma_asPC_def ma_asPCOrZero_def ma_isCode_def ma_eval)
  ultimately have "ma_fromPC arm 0x8001 (Epoch M) (AddressSpace M) = Some M"
    using fromPC_asPC [of M] by simp
  then show ?thesis unfolding M_def by simp
qed

text \<open>
  \<^bold>\<open>Fact\<close>. For a supported architecture \<^verbatim>\<open>fromPC\<close> always returns; the result is valid exactly
  when the program counter is aligned for the default code type (an odd one is Thumb code
  on ARM), and then \<^verbatim>\<open>asPC\<close> gives back the program counter, reduced to the bit size of the
  architecture.
\<close>

theorem asPC_fromPC:
  assumes "defaultCodeFromArch A = Some T" and "bitSize T = Some b" and "alignment T = Some a"
  shows "\<exists>M. ma_fromPC A PC e sp = Some M
     \<and> (ma_isValid M \<longleftrightarrow> a dvd unat PC \<or> (A = arm \<and> odd (unat PC)))
     \<and> (ma_isValid M \<longrightarrow> ma_arch M = Some A \<and> ma_asPC M = Some (PC AND mask b))"
proof (cases "A = arm \<and> PC AND 1 = 1")
  case True
  then have T: "T = Code_arm" "b = 32" using assms by auto
  have eq: "ma_fromPC A PC e sp = ma_new ((PC AND NOT 1) AND mask 32) Code_arm_thumb e sp"
    using ma_fromPC_eq [OF assms(1) _ refl, of Code_arm_thumb PC 32 e sp] True by simp
  have odd: "odd (unat PC)" using True and_one_zero_iff [of PC] by auto
  define P where "P = (PC AND mask 32) AND NOT 1"
  have P: "(PC AND NOT 1) AND mask 32 = P" unfolding P_def by (simp only: ac_simps)
  have "P AND 1 = 0" unfolding P_def by (rule bit_word_eqI) (auto simp: bit_simps)
  moreover have "(PC AND mask 32) AND 1 = PC AND 1" by (rule bit_word_eqI) (auto simp: bit_simps)
  then have "P OR 1 = PC AND mask 32"
    unfolding P_def using True by (intro and_not_one_or_one) simp
  moreover have "P AND mask 32 = P" unfolding P_def by (rule bit_word_eqI) (auto simp: bit_simps)
  then have "unat P < 2 ^ 32" unfolding and_mask_eq_self_iff .
  ultimately show ?thesis
    using eq T True odd ma_new_eq [of Code_arm_thumb 2 32 P e sp] and_one_zero_iff [of P] P
    by (simp add: ma_isValid_iff ma_arch_def ma_asPC_def ma_asPCOrZero_def ma_isCode_def
        ma_type_def Values_def)
next
  case False
  then have eq: "ma_fromPC A PC e sp = ma_new (PC AND mask b) T e sp"
    using ma_fromPC_eq [OF assms(1) _ refl, of T PC b e sp] assms(1,2) by (cases A) auto
  have "a dvd 2 ^ b" using assms by (cases A) auto
  then have "a dvd unat (PC AND mask b) \<longleftrightarrow> a dvd unat PC"
    unfolding unat_and_mask by (simp add: dvd_mod_iff)
  moreover have "\<not> (A = arm \<and> odd (unat PC))"
    using False and_one_zero_iff [of PC] and_one_cases [of PC] by auto
  moreover have "isValid T" "raw T \<noteq> 0" using assms(1) by (cases A; auto)+
  moreover have "unat (PC AND mask b) < 2 ^ b" unfolding unat_and_mask by simp
  moreover have "ma_arch M = Some A \<and> ma_asPC M = Some (Address M)"
    if "Type M = raw T" for M
    using assms(1) that by (cases A) (auto simp: ma_arch_def ma_asPC_def ma_asPCOrZero_def ma_isCode_def ma_eval)
  ultimately show ?thesis
    using assms eq ma_new_eq [of T a b] by (auto simp: ma_isValid_iff ma_invalid_def)
qed

theorem asPC_fromPC_witness:
  "\<exists>M. ma_fromPC mips 0x100000404 0 0 = Some M \<and> ma_asPC M = Some (0x100000404 AND mask 32)"
  using asPC_fromPC [of mips Code_mips 32 4 "0x100000404" 0 0] by auto

text \<open>
  \<^bold>\<open>C31\<close>. Both binary codecs of an address are lossless: the packed byte string and the
  128-bit integer that the lifted code computes decode to the address they were made from.
\<close>

theorem ma_codecs_roundtrip:
  assumes "ma_inv M"
  shows "ma_fromBytes (ma_toBytes M) = Some M
     \<and> decomposeIntegerPC (composeIntegerPC (Address M) (Epoch M) (AddressSpace M) (Type M)) = Some M"
  using ma_fromBytes_toBytes [OF assms] ma_validate_inv_eq [OF assms]
  by (cases M) (simp add: decompose_composeIntegerPC)

theorem ma_codecs_roundtrip_witness:
  "ma_fromBytes (ma_toBytes \<lparr>Epoch = 1, AddressSpace = 2, Type = raw Code_aarch64, Address = 0x4000\<rparr>)
     = Some \<lparr>Epoch = 1, AddressSpace = 2, Type = raw Code_aarch64, Address = 0x4000\<rparr>"
proof -
  have "ma_inv \<lparr>Epoch = 1, AddressSpace = 2, Type = raw Code_aarch64, Address = 0x4000\<rparr>"
    by (simp add: ma_eval)
  from ma_codecs_roundtrip [OF this] show ?thesis by blast
qed

text \<open>
  \<^bold>\<open>Fact\<close>. On valid addresses the six address comparisons return, and decide the total order on
  epoch, address space and address, whatever the types are.
\<close>

theorem ma_address_comparisons:
  assumes "ma_isValid M" and "ma_isValid N"
  shows "ma_addressEquals M N = Some (ma_location M = ma_location N)
     \<and> ma_addressDiffers M N = Some (ma_location M \<noteq> ma_location N)
     \<and> ma_addressLowerThan M N = Some (ma_location M < ma_location N)
     \<and> ma_addressLowerThanOrEqual M N = Some (ma_location M \<le> ma_location N)
     \<and> ma_addressGreaterThan M N = Some (ma_location M > ma_location N)
     \<and> ma_addressGreaterThanOrEqual M N = Some (ma_location M \<ge> ma_location N)"
proof -
  have "M\<lparr>Type := t\<rparr> = N\<lparr>Type := t\<rparr> \<longleftrightarrow> ma_location M = ma_location N" for t
    by (cases M; cases N) (simp add: ma_location_def)
  moreover have "M\<lparr>Type := t\<rparr> < N\<lparr>Type := t\<rparr> \<longleftrightarrow> ma_location M < ma_location N" for t
    by (simp add: ma_less_iff ma_tie_def ma_location_def)
  moreover have "M\<lparr>Type := t\<rparr> \<le> N\<lparr>Type := t\<rparr> \<longleftrightarrow> ma_location M \<le> ma_location N" for t
    by (simp add: ma_le_iff ma_tie_def ma_location_def)
  ultimately show ?thesis
    using assms
    by (simp add: ma_addressEquals_def ma_addressDiffers_def ma_addressLowerThan_def
        ma_addressLowerThanOrEqual_def ma_addressGreaterThan_def ma_addressGreaterThanOrEqual_def
        ma_toGeneric64_def not_less not_le)
qed

theorem ma_address_comparisons_witness:
  "ma_addressLowerThan \<lparr>Epoch = 0, AddressSpace = 0, Type = raw Code_systemz, Address = 8\<rparr>
     \<lparr>Epoch = 0, AddressSpace = 0, Type = raw Generic64, Address = 16\<rparr> = Some True"
proof -
  define M where "M = \<lparr>Epoch = 0, AddressSpace = 0, Type = raw Code_systemz, Address = 8\<rparr>"
  define N where "N = \<lparr>Epoch = 0, AddressSpace = 0, Type = raw Generic64, Address = 16\<rparr>"
  have "ma_isValid M" "ma_isValid N" unfolding M_def N_def by (simp_all add: ma_eval)
  moreover have "ma_location M < ma_location N" unfolding M_def N_def by (simp add: ma_location_def)
  ultimately have "ma_addressLowerThan M N = Some True" using ma_address_comparisons [of M N] by simp
  then show ?thesis unfolding M_def N_def .
qed

text \<open>
  \<^bold>\<open>Fact\<close>. Pages of 4096 bytes: \<^verbatim>\<open>pageStart\<close> is the generic address of the greatest multiple not
  above the address; \<^verbatim>\<open>nextPageStart\<close> is that of the least multiple not below it (so an
  aligned address is its own next page start), and invalid when this multiple is outside the
  address space.
\<close>

theorem ma_pages:
  assumes "ma_wf M" and "ma_bitSize M = Some b"
    and "n = (unat (Address M) + 4095) div 4096 * 4096"
  shows "\<exists>G. ma_toGeneric M = Some G
     \<and> ma_pageStart M = Some (G\<lparr>Address := word_of_nat (unat (Address M) div 4096 * 4096)\<rparr>)
     \<and> ma_nextPageStart M = Some (if n < 2 ^ b then G\<lparr>Address := word_of_nat n\<rparr> else ma_invalid)"
proof -
  obtain G where G: "ma_toGeneric M = Some G" using assms(1) by (rule ma_toGeneric_wf)
  with ma_pageStart_eq [OF assms(1) G] ma_nextPageStart_eq [OF assms(1) G assms(2,3)]
  show ?thesis by blast
qed

theorem ma_pages_witness:
  "ma_nextPageStart \<lparr>Epoch = 0, AddressSpace = 0, Type = raw Code_x86, Address = 0xFFFFF001\<rparr>
     = Some ma_invalid"
proof -
  define M where "M = \<lparr>Epoch = 0, AddressSpace = 0, Type = raw Code_x86, Address = 0xFFFFF001\<rparr>"
  have "ma_wf M" "ma_bitSize M = Some 32" unfolding M_def by (simp_all add: ma_eval)
  moreover have "(2::nat) ^ 32 = (unat (Address M) + 4095) div 4096 * 4096"
    unfolding M_def by simp
  ultimately have "ma_nextPageStart M = Some ma_invalid"
    using ma_pages [of M 32 "2 ^ 32"] by auto
  then show ?thesis unfolding M_def .
qed

end
