(* ===== verification/Meta_Address_Text.thy ===== *)
theory Meta_Address_Text
  imports Meta_Address
begin

text \<open>
  The text form of \<^verbatim>\<open>MetaAddress\<close> (src/lib/Support/MetaAddress.cpp) and \<^verbatim>\<open>BasicBlockID\<close>
  (src/include/revng/Support/BasicBlockID.h, src/lib/Support/BasicBlockID.cpp). The string and
  number functions of LLVM that the code calls are a parameter; the locale \<open>llvm_strings\<close> states what
  their documentation promises.
\<close>

section \<open>The string functions of LLVM\<close>

text \<open>
  \<open>StringRef_split s sep\<close> is \<^verbatim>\<open>s.split(Parts, sep)\<close>; \<open>getAsInteger w s\<close> is
  \<^verbatim>\<open>s.getAsInteger(0, Result)\<close> for a result of \<open>w\<close> bits, \<^term>\<open>None\<close> where it reports an error;
  \<open>getAsAPInt s\<close> is \<^verbatim>\<open>s.getAsInteger(10, Result)\<close> for an \<^verbatim>\<open>APInt\<close>, with the width it chose.
\<close>

record LLVM_strings =
  StringRef_split :: "string \<Rightarrow> string \<Rightarrow> string list"
  getAsInteger :: "nat \<Rightarrow> string \<Rightarrow> nat option"
  getAsAPInt :: "string \<Rightarrow> (nat \<times> nat) option"
  utohexstr :: "u64 \<Rightarrow> string"
  decimal :: "nat \<Rightarrow> string"

section \<open>Text of an address\<close>

definition Separator :: string where
  "Separator = '':''"

definition toStringImpl :: "LLVM_strings \<Rightarrow> MetaAddress \<Rightarrow> Architecture \<Rightarrow> string \<Rightarrow> string checked" where
  "toStringImpl L A Arch Sep =
     (if ma_isInvalid A then Some (Sep @ ''Invalid'')
      else do {
        ShouldPrintTheType \<leftarrow>
          (if Arch \<noteq> Architecture_Invalid
           then do {
             _ \<leftarrow> genericFromArch Arch;
             AddressArch \<leftarrow> ma_arch A;
             Some (\<not> (AddressArch \<noteq> Architecture_Invalid \<and> AddressArch = Arch)) }
           else Some True);
        Number \<leftarrow> ma_address A;
        TypeName \<leftarrow> (if ShouldPrintTheType then map_option (\<lambda>T. Sep @ T) (Meta_Address_Type.toString (ma_type A)) else Some []);
        DefaultEpoch \<leftarrow> ma_isDefaultEpoch A;
        DefaultSpace \<leftarrow> ma_isDefaultAddressSpace A;
        Some (''0x'' @ utohexstr L Number @ TypeName
              @ (if DefaultEpoch then [] else Sep @ decimal L (unat (Epoch A)))
              @ (if DefaultSpace then [] else Sep @ decimal L (unat (AddressSpace A)))) })"

definition ma_toString :: "LLVM_strings \<Rightarrow> Architecture \<Rightarrow> MetaAddress \<Rightarrow> string checked" where
  "ma_toString L Arch A = toStringImpl L A Arch Separator"

definition ma_toIdentifier :: "LLVM_strings \<Rightarrow> Architecture \<Rightarrow> MetaAddress \<Rightarrow> string checked" where
  "ma_toIdentifier L Arch A = toStringImpl L A Arch ''_''"

text \<open>
  \<^verbatim>\<open>fromString\<close>. An optional part that is missing or empty leaves the zero; a \<^term>\<open>None\<close> of
  \<open>optional_part\<close> is the error.
\<close>

definition optional_part :: "LLVM_strings \<Rightarrow> nat \<Rightarrow> bool \<Rightarrow> string \<Rightarrow> nat option" where
  "optional_part L w Present Part = (if Present \<and> 0 < length Part then getAsInteger L w Part else Some 0)"

definition ma_fromString :: "LLVM_strings \<Rightarrow> string \<Rightarrow> MetaAddress checked" where
  "ma_fromString L Text =
     (if length Text \<le> length Separator then Some ma_invalid
      else if take (length Separator) Text = Separator \<and> drop (length Separator) Text = ''Invalid''
      then Some ma_invalid
      else
        let Parts = StringRef_split L Text Separator in
        if length Parts < 2 \<or> 4 < length Parts then Some ma_invalid
        else case getAsInteger L 64 (Parts ! 0) of
          None \<Rightarrow> Some ma_invalid
        | Some Number \<Rightarrow>
            let T = Meta_Address_Type.fromString (Parts ! 1) in
            if T = Invalid then Some ma_invalid
            else case optional_part L 32 (3 \<le> length Parts) (Parts ! 2) of
              None \<Rightarrow> Some ma_invalid
            | Some E \<Rightarrow> (case optional_part L 16 (length Parts = 4) (Parts ! 3) of
                None \<Rightarrow> Some ma_invalid
              | Some S \<Rightarrow> ma_validate \<lparr>Epoch = word_of_nat E, AddressSpace = word_of_nat S,
                                      Type = raw T, Address = word_of_nat Number\<rparr>))"

section \<open>Identifiers of basic blocks\<close>

record BasicBlockID =
  Start :: MetaAddress
  InliningIndex :: u64

definition bbid_verify :: "BasicBlockID \<Rightarrow> bool" where
  "bbid_verify B \<longleftrightarrow> (if ma_isInvalid (Start B) then InliningIndex B = 0 else True)"

definition bbid_invalid :: BasicBlockID where
  "bbid_invalid = \<lparr>Start = ma_invalid, InliningIndex = 0\<rparr>"

definition bbid_new :: "MetaAddress \<Rightarrow> u64 \<Rightarrow> BasicBlockID checked" where
  "bbid_new S Index = do {
     let Result = \<lparr>Start = S, InliningIndex = Index\<rparr>;
     revng_assert (bbid_verify Result);
     Some Result }"

definition notInlinedAddress :: "BasicBlockID \<Rightarrow> MetaAddress checked" where
  "notInlinedAddress B = do { revng_assert (InliningIndex B = 0); Some (Start B) }"

definition bbid_isInlined :: "BasicBlockID \<Rightarrow> bool" where
  "bbid_isInlined B \<longleftrightarrow> InliningIndex B \<noteq> 0"

definition bbid_isValid :: "BasicBlockID \<Rightarrow> bool" where
  "bbid_isValid B \<longleftrightarrow> ma_isValid (Start B)"

definition bbid_tie :: "'z BasicBlockID_scheme \<Rightarrow> MetaAddress \<times> u64" where
  "bbid_tie B = (Start B, InliningIndex B)"

definition bbid_toString :: "LLVM_strings \<Rightarrow> Architecture \<Rightarrow> BasicBlockID \<Rightarrow> string checked" where
  "bbid_toString L Arch B = do {
     Result \<leftarrow> ma_toString L Arch (Start B);
     Some (if bbid_isInlined B then Result @ ''-'' @ decimal L (unat (InliningIndex B)) else Result) }"

text \<open>\<^verbatim>\<open>getLimitedValue\<close> of a number of at most 64 bits is the number.\<close>

definition bbid_fromString :: "LLVM_strings \<Rightarrow> string \<Rightarrow> BasicBlockID checked" where
  "bbid_fromString L Text =
     (let Parts = StringRef_split L Text ''-'' in
      if Parts = [] \<or> 2 < length Parts then Some bbid_invalid
      else do {
        S \<leftarrow> ma_fromString L (Parts ! 0);
        if \<not> ma_isValid S then Some bbid_invalid
        else if length Parts = 2
        then (case getAsAPInt L (Parts ! 1) of
            None \<Rightarrow> Some bbid_invalid
          | Some (Width, Value) \<Rightarrow> if 64 < Width then Some bbid_invalid else bbid_new S (word_of_nat Value))
        else bbid_new S 0 })"

instantiation BasicBlockID_ext :: (linorder) linorder
begin

definition less_eq_BasicBlockID_ext :: "'a BasicBlockID_ext \<Rightarrow> 'a BasicBlockID_ext \<Rightarrow> bool" where
  "less_eq_BasicBlockID_ext A B \<longleftrightarrow> (bbid_tie A, BasicBlockID.more A) \<le> (bbid_tie B, BasicBlockID.more B)"

definition less_BasicBlockID_ext :: "'a BasicBlockID_ext \<Rightarrow> 'a BasicBlockID_ext \<Rightarrow> bool" where
  "less_BasicBlockID_ext A B \<longleftrightarrow> (bbid_tie A, BasicBlockID.more A) < (bbid_tie B, BasicBlockID.more B)"

instance
proof
  fix A B C :: "'a BasicBlockID_ext"
  show "A < B \<longleftrightarrow> A \<le> B \<and> \<not> B \<le> A" unfolding less_eq_BasicBlockID_ext_def less_BasicBlockID_ext_def by auto
  show "A \<le> A" unfolding less_eq_BasicBlockID_ext_def by simp
  show "A \<le> B \<Longrightarrow> B \<le> C \<Longrightarrow> A \<le> C" unfolding less_eq_BasicBlockID_ext_def by (rule order_trans)
  show "A \<le> B \<or> B \<le> A" unfolding less_eq_BasicBlockID_ext_def by (rule linear)
  show "A \<le> B \<Longrightarrow> B \<le> A \<Longrightarrow> A = B"
    unfolding less_eq_BasicBlockID_ext_def using order_antisym [of "(bbid_tie A, BasicBlockID.more A)" "(bbid_tie B, BasicBlockID.more B)"]
    by (cases A, cases B) (simp add: bbid_tie_def)
qed

end

section \<open>What the string functions promise\<close>

text \<open>The text whose parts are \<open>ps\<close>.\<close>

fun join :: "string \<Rightarrow> string list \<Rightarrow> string" where
  "join sep [] = []"
| "join sep [p] = p"
| "join sep (p # ps) = p @ sep @ join sep ps"

locale llvm_strings =
  fixes L :: LLVM_strings
  assumes split_join: "ps \<noteq> [] \<Longrightarrow> \<forall>p \<in> set ps. c \<notin> set p \<Longrightarrow> StringRef_split L (join [c] ps) [c] = ps"
    and hex_digits: "set (utohexstr L v) \<subseteq> set ''0123456789ABCDEF''"
    and hex_value: "getAsInteger L 64 (''0x'' @ utohexstr L v) = Some (unat v)"
    and decimal_digits: "decimal L n \<noteq> []" "set (decimal L n) \<subseteq> set ''0123456789''"
    and decimal_value: "n < 2 ^ w \<Longrightarrow> getAsInteger L w (decimal L n) = Some n"
    and apint_value: "\<exists>w. getAsAPInt L (decimal L n) = Some (w, n) \<and> n < 2 ^ w"

section \<open>Lists of characters as strings\<close>

text \<open>An implementation of these functions.\<close>

definition digit_char :: "nat \<Rightarrow> char" where
  "digit_char d = ''0123456789ABCDEF'' ! d"

fun in_base :: "nat \<Rightarrow> nat \<Rightarrow> string" where
  "in_base b n = (if n < b \<or> b < 2 then [digit_char n] else in_base b (n div b) @ [digit_char (n mod b)])"

declare in_base.simps [simp del]

definition digit_value :: "char \<Rightarrow> nat option" where
  "digit_value c = map_of (zip ''0123456789ABCDEF'' [0..<16]) c"

fun parse_digits :: "nat \<Rightarrow> nat \<Rightarrow> string \<Rightarrow> nat option" where
  "parse_digits b acc [] = Some acc"
| "parse_digits b acc (c # cs) = do {
     d \<leftarrow> digit_value c;
     if d < b then parse_digits b (acc * b + d) cs else None }"

definition bounded :: "nat \<Rightarrow> nat option \<Rightarrow> nat option" where
  "bounded w r = r \<bind> (\<lambda>n. if n < 2 ^ w then Some n else None)"

fun split_char :: "char \<Rightarrow> string \<Rightarrow> string \<Rightarrow> string list" where
  "split_char c acc [] = [acc]"
| "split_char c acc (d # ds) = (if d = c then acc # split_char c [] ds else split_char c (acc @ [d]) ds)"

definition list_strings :: LLVM_strings where
  "list_strings =
     \<lparr>StringRef_split = (\<lambda>s sep. split_char (hd sep) [] s),
      getAsInteger = (\<lambda>w s. bounded w (if take 2 s = ''0x'' then parse_digits 16 0 (drop 2 s) else parse_digits 10 0 s)),
      getAsAPInt = (\<lambda>s. map_option (\<lambda>n. (4 * length s, n)) (parse_digits 10 0 s)),
      utohexstr = (\<lambda>v. in_base 16 (unat v)), decimal = in_base 10\<rparr>"

lemma digit_value_char: "d < 16 \<Longrightarrow> digit_value (digit_char d) = Some d"
proof -
  have "\<forall>d \<in> set [0..<16]. digit_value (digit_char d) = Some d" by code_simp
  then show "d < 16 \<Longrightarrow> digit_value (digit_char d) = Some d" by simp
qed

lemma set_digits: "2 \<le> b \<Longrightarrow> set (in_base b n) \<subseteq> digit_char ` {..<b}"
proof (induction b n rule: in_base.induct)
  case (1 b n)
  show ?case
  proof (cases "n < b")
    case True
    then show ?thesis using 1 by (subst in_base.simps) simp
  next
    case False
    then show ?thesis using 1 by (subst in_base.simps) auto
  qed
qed

lemma parse_append: "parse_digits b acc (xs @ ys) = parse_digits b acc xs \<bind> (\<lambda>n. parse_digits b n ys)"
proof (induction xs arbitrary: acc)
  case (Cons x xs)
  show ?case by (cases "digit_value x") (simp_all add: Cons)
qed simp

lemma parse_digits: "2 \<le> b \<Longrightarrow> b \<le> 16 \<Longrightarrow> parse_digits b 0 (in_base b n) = Some n"
proof (induction b n rule: in_base.induct)
  case (1 b n)
  show ?case
  proof (cases "n < b")
    case True
    then show ?thesis using 1 by (subst in_base.simps) (simp add: digit_value_char)
  next
    case False
    have "n mod b < b" using 1 by simp
    moreover have "digit_value (digit_char (n mod b)) = Some (n mod b)"
      by (rule digit_value_char) (use calculation 1 in linarith)
    ultimately show ?thesis using 1 False by (subst in_base.simps) (simp add: parse_append)
  qed
qed

lemma digits_length: "n < 10 ^ length (in_base 10 n)"
proof (induction n rule: less_induct)
  case (less n)
  have "n < 10 * 10 ^ length (in_base 10 (n div 10))" if "10 \<le> n"
    using less [of "n div 10"] that by linarith
  then show ?case by (cases "10 \<le> n"; subst in_base.simps) simp_all
qed

lemma digits_nonempty: "in_base b n \<noteq> []"
  by (subst in_base.simps) simp

lemma split_char_part: "c \<notin> set p \<Longrightarrow> split_char c acc (p @ rest) = split_char c (acc @ p) rest"
  by (induction p arbitrary: acc) auto

lemma split_char_join: "ps \<noteq> [] \<Longrightarrow> \<forall>p \<in> set ps. c \<notin> set p \<Longrightarrow> split_char c acc (join [c] ps) = (acc @ hd ps) # tl ps"
proof (induction "[c]" ps arbitrary: acc rule: join.induct)
  case (2 p)
  then show ?case using split_char_part [of c p acc "[]"] by simp
next
  case (3 p q ps)
  then show ?case using split_char_part [of c p acc] by simp
qed simp

lemma digit_chars: "digit_char ` {..<16} = set ''0123456789ABCDEF''" "digit_char ` {..<10} = set ''0123456789''"
proof -
  have "digit_char ` set [0..<16] = set ''0123456789ABCDEF''" "digit_char ` set [0..<10] = set ''0123456789''"
    by code_simp+
  then show "digit_char ` {..<16} = set ''0123456789ABCDEF''" "digit_char ` {..<10} = set ''0123456789''"
    by (simp_all only: set_upt atLeast0LessThan)
qed

lemma decimal_not_hex: "take 2 (in_base 10 n) \<noteq> ''0x''"
proof
  assume "take 2 (in_base 10 n) = ''0x''"
  then have "CHR ''x'' \<in> set (take 2 (in_base 10 n))" by simp
  then have "CHR ''x'' \<in> set (in_base 10 n)" by (rule in_set_takeD)
  then show False using set_digits [of 10 n] unfolding digit_chars by auto
qed

interpretation list_strings: llvm_strings list_strings
proof
  fix ps c v n w
  show "StringRef_split list_strings (join [c] ps) [c] = ps" if "ps \<noteq> []" "\<forall>p \<in> set ps. c \<notin> set p"
    using split_char_join [OF that, of "[]"] that(1) by (simp add: list_strings_def)
  show "set (utohexstr list_strings v) \<subseteq> set ''0123456789ABCDEF''"
    using set_digits [of 16 "unat v"] unfolding digit_chars by (simp add: list_strings_def)
  show "getAsInteger list_strings 64 (''0x'' @ utohexstr list_strings v) = Some (unat v)"
    using unsigned_less [of v, where 'a = nat] by (simp add: list_strings_def parse_digits bounded_def)
  show "decimal list_strings n \<noteq> []" by (simp add: list_strings_def digits_nonempty)
  show "set (decimal list_strings n) \<subseteq> set ''0123456789''"
    using set_digits [of 10 n] unfolding digit_chars by (simp add: list_strings_def)
  show "getAsInteger list_strings w (decimal list_strings n) = Some n" if "n < 2 ^ w"
    using that decimal_not_hex [of n] by (simp add: list_strings_def parse_digits bounded_def)
  have "(10 :: nat) ^ k \<le> 2 ^ (4 * k)" for k by (simp add: power_mult power_mono)
  then show "\<exists>w. getAsAPInt list_strings (decimal list_strings n) = Some (w, n) \<and> n < 2 ^ w"
    using digits_length [of n] by (simp add: list_strings_def parse_digits less_le_trans)
qed

section \<open>Printing and parsing\<close>

lemma type_name_chars: "Meta_Address_Type.toString T = Some s \<Longrightarrow> CHR '':'' \<notin> set s \<and> CHR ''-'' \<notin> set s"
  by (cases T) auto

text \<open>The parts of the text of a valid address.\<close>

definition text_parts :: "LLVM_strings \<Rightarrow> MetaAddress \<Rightarrow> string \<Rightarrow> string list" where
  "text_parts L M T = [''0x'' @ utohexstr L (Address M), T]
     @ (if Epoch M = 0 then [] else [decimal L (unat (Epoch M))])
     @ (if AddressSpace M = 0 then [] else [decimal L (unat (AddressSpace M))])"

lemma toString_text_parts:
  assumes "ma_wf M"
  obtains T where "Meta_Address_Type.toString (ma_type M) = Some T" "Meta_Address_Type.fromString T = ma_type M"
    "ma_toString L Architecture_Invalid M = Some (join Separator (text_parts L M T))"
proof -
  have v: "ma_isValid M" using assms by simp
  have "isValid (ma_type M)" using assms by (elim ma_wfE) (cases "ma_type M"; simp add: addressable_def)
  then obtain T where T: "Meta_Address_Type.toString (ma_type M) = Some T" "Meta_Address_Type.fromString T = ma_type M"
    using map_fromString_toString [of "ma_type M"] by auto
  have "ma_toString L Architecture_Invalid M = Some (join Separator (text_parts L M T))"
    using v T(1) by (simp add: ma_toString_def toStringImpl_def ma_isValid_def ma_address_def ma_isDefaultEpoch_def
        ma_epoch_def ma_isDefaultAddressSpace_def ma_addressSpace_def text_parts_def Separator_def)
  then show thesis using that T by blast
qed

context llvm_strings
begin

lemma part_chars:
  assumes "Meta_Address_Type.toString T = Some s" "p \<in> set (text_parts L M s)"
  shows "CHR '':'' \<notin> set p" "CHR ''-'' \<notin> set p"
  using assms type_name_chars [OF assms(1)] hex_digits [of "Address M"] decimal_digits(2)
  by (auto simp: text_parts_def split: if_splits)

lemma fromString_parts:
  assumes "Text = CHR ''0'' # t" "t \<noteq> []" "StringRef_split L Text Separator = Parts" "2 \<le> length Parts" "length Parts \<le> 4"
  shows "ma_fromString L Text =
    (case getAsInteger L 64 (Parts ! 0) of
       None \<Rightarrow> Some ma_invalid
     | Some Number \<Rightarrow>
         if Meta_Address_Type.fromString (Parts ! 1) = Invalid then Some ma_invalid
         else case optional_part L 32 (3 \<le> length Parts) (Parts ! 2) of
           None \<Rightarrow> Some ma_invalid
         | Some E \<Rightarrow> (case optional_part L 16 (length Parts = 4) (Parts ! 3) of
             None \<Rightarrow> Some ma_invalid
           | Some S \<Rightarrow> ma_validate \<lparr>Epoch = word_of_nat E, AddressSpace = word_of_nat S,
                 Type = raw (Meta_Address_Type.fromString (Parts ! 1)), Address = word_of_nat Number\<rparr>))"
  using assms by (simp add: ma_fromString_def Let_def Separator_def split: option.split)

lemma text_parts_no_colon:
  "Meta_Address_Type.toString T = Some s \<Longrightarrow> \<forall>p \<in> set (text_parts L M s). CHR '':'' \<notin> set p"
  using part_chars(1) by blast

lemma decimal_part: "n < 2 ^ w \<Longrightarrow> optional_part L w True (decimal L n) = Some n"
  using decimal_digits(1) by (simp add: optional_part_def decimal_value)

lemma parse_text:
  assumes wf: "ma_wf M" and T: "Meta_Address_Type.toString (ma_type M) = Some T" "Meta_Address_Type.fromString T = ma_type M"
  shows "ma_fromString L (join Separator (text_parts L M T)) =
    (if Epoch M = 0 then ma_validate (M\<lparr>Epoch := word_of_nat (unat (AddressSpace M)), AddressSpace := 0\<rparr>) else ma_validate M)"
proof -
  have ty: "ma_type M \<noteq> Invalid" "raw (ma_type M) = Type M" using ma_wf_isValid [OF wf] by (simp_all add: ma_isValid_def ma_isInvalid_def)
  have E: "unat (Epoch M) < 2 ^ 32" and S: "unat (AddressSpace M) < 2 ^ 16"
    using unsigned_less [of "Epoch M", where 'a = nat] unsigned_less [of "AddressSpace M", where 'a = nat] by simp_all
  then have S': "unat (AddressSpace M) < 2 ^ 32" by simp
  let ?ps = "text_parts L M T"
  have split: "StringRef_split L (join Separator ?ps) Separator = ?ps"
    unfolding Separator_def using text_parts_no_colon [OF T(1), of M] by (intro split_join) (simp_all add: text_parts_def)
  have "\<exists>t. join Separator ?ps = CHR ''0'' # t \<and> t \<noteq> []" by (simp add: text_parts_def)
  then obtain t where t: "join Separator ?ps = CHR ''0'' # t" "t \<noteq> []" by blast
  have hex: "getAsInteger L 64 (CHR ''0'' # CHR ''x'' # utohexstr L (Address M)) = Some (unat (Address M))"
    using hex_value [of "Address M"] by simp
  have "2 \<le> length ?ps" "length ?ps \<le> 4" by (simp_all add: text_parts_def)
  note parse = fromString_parts [OF t split this]
  have rec: "\<lparr>Epoch = e, AddressSpace = 0, Type = Type M, Address = Address M\<rparr> = M\<lparr>Epoch := e, AddressSpace := 0\<rparr>"
      "AddressSpace M = 0 \<Longrightarrow> M\<lparr>AddressSpace := 0\<rparr> = M"
      "\<lparr>Epoch = Epoch M, AddressSpace = AddressSpace M, Type = Type M, Address = Address M\<rparr> = M" for e
    by (cases M; simp)+
  show ?thesis
    unfolding parse using decimal_part [OF E] decimal_part [OF S] decimal_part [OF S']
    by (cases "Epoch M = 0"; cases "AddressSpace M = 0")
      (simp_all add: text_parts_def hex T(2) ty optional_part_def rec)
qed

end

lemma ma_wf_features: "ma_wf (M\<lparr>Epoch := e, AddressSpace := s\<rparr>) \<longleftrightarrow> ma_wf M"
proof -
  let ?M = "M\<lparr>Epoch := e, AddressSpace := s\<rparr>"
  have "ma_alignment ?M = ma_alignment M" "ma_bitSize ?M = ma_bitSize M" "Address ?M = Address M"
    by (simp_all add: ma_alignment_def ma_bitSize_def ma_type_def)
  then show ?thesis by (simp only: ma_wf_def)
qed


context llvm_strings
begin

lemma text_of_valid:
  assumes "ma_wf M"
  shows "\<exists>s. ma_toString L Architecture_Invalid M = Some s \<and> CHR ''-'' \<notin> set s
    \<and> ma_fromString L s = Some (if Epoch M = 0 then M\<lparr>Epoch := word_of_nat (unat (AddressSpace M)), AddressSpace := 0\<rparr> else M)"
proof -
  obtain T where T: "Meta_Address_Type.toString (ma_type M) = Some T" "Meta_Address_Type.fromString T = ma_type M"
    and s: "ma_toString L Architecture_Invalid M = Some (join Separator (text_parts L M T))"
    using toString_text_parts [OF assms] .
  have "set (join [c] ps) \<subseteq> insert c (\<Union>p \<in> set ps. set p)" for c ps
    by (induction "[c]" ps rule: join.induct) auto
  then have "CHR ''-'' \<notin> set (join Separator (text_parts L M T))"
    using part_chars(2) [OF T(1), of _ M] unfolding Separator_def by fastforce
  then show ?thesis
    using s parse_text [OF assms T] assms by (simp add: ma_validate_eq ma_wf_features)
qed

lemma text_of_address:
  assumes "ma_inv M" "Epoch M \<noteq> 0 \<or> AddressSpace M = 0"
  shows "\<exists>s. ma_toString L Architecture_Invalid M = Some s \<and> CHR ''-'' \<notin> set s \<and> ma_fromString L s = Some M"
proof (cases "ma_wf M")
  case True
  have "Epoch M = 0 \<Longrightarrow> AddressSpace M = 0 \<Longrightarrow> M\<lparr>Epoch := 0, AddressSpace := 0\<rparr> = M" by (cases M) simp
  then show ?thesis using text_of_valid [OF True] assms(2) by (auto split: if_splits)
next
  case False
  then have "M = ma_invalid" using assms(1) by (simp add: ma_inv_def)
  moreover have "ma_isInvalid ma_invalid" by (simp add: ma_isInvalid_def)
  ultimately show ?thesis by (simp add: ma_toString_def toStringImpl_def ma_fromString_def Separator_def)
qed

end

section \<open>The properties\<close>



text \<open>
  \<^bold>\<open>Fact\<close>. The text of a valid address with the default epoch and another address space parses to a
  different address: the epoch is left out of the text and the address space takes its place.
\<close>

theorem ma_text_confuses_address_space:
  assumes "llvm_strings L" "ma_wf M" "Epoch M = 0" "AddressSpace M \<noteq> 0"
  shows "\<exists>s. ma_toString L Architecture_Invalid M = Some s
    \<and> ma_fromString L s = Some (M\<lparr>Epoch := ucast (AddressSpace M), AddressSpace := 0\<rparr>)
    \<and> M\<lparr>Epoch := ucast (AddressSpace M), AddressSpace := 0\<rparr> \<noteq> M"
proof -
  have "M\<lparr>Epoch := ucast (AddressSpace M), AddressSpace := 0\<rparr> \<noteq> M" using assms(4) by (cases M) simp
  then show ?thesis using llvm_strings.text_of_valid [OF assms(1,2)] assms(3) by auto
qed

theorem ma_text_confuses_address_space_witness:
  "\<exists>s. ma_toString list_strings Architecture_Invalid \<lparr>Epoch = 0, AddressSpace = 7, Type = raw Generic64, Address = 16\<rparr> = Some s
     \<and> ma_fromString list_strings s = Some \<lparr>Epoch = 7, AddressSpace = 0, Type = raw Generic64, Address = 16\<rparr>"
  using ma_text_confuses_address_space [OF list_strings.llvm_strings_axioms,
      of "\<lparr>Epoch = 0, AddressSpace = 7, Type = raw Generic64, Address = 16\<rparr>"]
  by (simp add: ma_eval)



end
