(* ===== verification/Sorted_Vector.thy ===== *)
theory Sorted_Vector
  imports Meta_Address
begin

text \<open>
  \<^verbatim>\<open>SortedVector\<close> (src/include/revng/ADT/SortedVector.h): a vector of objects with a key, kept
  sorted by key and free of duplicates, with bulk insertion that sorts once at the end.
  The template parameters are the fields of a record \<open>K\<close>; iterators are indices, the end
  being the length. A method that can stop at an assertion returns a
  \<^typ>\<open>'a checked\<close>; one that changes the vector returns the new one with its result.
\<close>

subsection \<open>Keyed objects\<close>

text \<open>
  \<^verbatim>\<open>KeyedObjectTraits<T>\<close> and \<^verbatim>\<open>Compare\<close>, and what the move assignment of \<^verbatim>\<open>T\<close> leaves in an
  object that is assigned to itself, which the language does not fix.
\<close>

record ('a, 'k) KeyedObjectTraits =
  key_of :: "'a \<Rightarrow> 'k"
  fromKey :: "'k \<Rightarrow> 'a"
  Compare :: "'k \<Rightarrow> 'k \<Rightarrow> bool"
  self_move :: "'a \<Rightarrow> 'a"

definition IdentityKeyedObjectTraits :: "('a::linorder, 'a) KeyedObjectTraits" where
  "IdentityKeyedObjectTraits =
     \<lparr>key_of = (\<lambda>Obj. Obj), fromKey = (\<lambda>Obj. Obj), Compare = (<), self_move = (\<lambda>Obj. Obj)\<rparr>"

definition compareKeys :: "('a, 'k) KeyedObjectTraits \<Rightarrow> 'k \<Rightarrow> 'k \<Rightarrow> bool" where
  "compareKeys K LHS RHS \<longleftrightarrow> Compare K LHS RHS"

definition compareElements :: "('a, 'k) KeyedObjectTraits \<Rightarrow> 'a \<Rightarrow> 'a \<Rightarrow> bool" where
  "compareElements K LHS RHS \<longleftrightarrow> compareKeys K (key_of K LHS) (key_of K RHS)"

definition keysEqual :: "('a, 'k) KeyedObjectTraits \<Rightarrow> 'k \<Rightarrow> 'k \<Rightarrow> bool" where
  "keysEqual K LHS RHS \<longleftrightarrow> \<not> compareKeys K LHS RHS \<and> \<not> compareKeys K RHS LHS"

definition elementsEqual :: "('a, 'k) KeyedObjectTraits \<Rightarrow> 'a \<Rightarrow> 'a \<Rightarrow> bool" where
  "elementsEqual K LHS RHS \<longleftrightarrow> keysEqual K (key_of K LHS) (key_of K RHS)"

subsection \<open>Algorithms\<close>

text \<open>
  \<^verbatim>\<open>std::lower_bound\<close> and \<^verbatim>\<open>std::upper_bound\<close>: bisection of the \<open>count\<close> elements from
  \<open>first\<close>.
\<close>

function bisect_bound :: "('a \<Rightarrow> bool) \<Rightarrow> 'a list \<Rightarrow> nat \<Rightarrow> nat \<Rightarrow> nat" where
  "bisect_bound before xs first count =
     (if count = 0 then first
      else let step = count div 2; it = first + step
           in if before (xs ! it) then bisect_bound before xs (it + 1) (count - (step + 1))
              else bisect_bound before xs first step)"
  by pat_completeness auto
termination by (relation "measure (\<lambda>(_, _, _, count). count)") auto

declare bisect_bound.simps [simp del]

text \<open>
  \<^verbatim>\<open>std::stable_sort\<close>, as the insertion of each element before the first greater one.
  \<^verbatim>\<open>std::sort\<close> is modelled by the same function: it is only used where two equivalent
  elements abort the program, so that the order it gives them is never seen.
\<close>

fun insert_stable :: "('a \<Rightarrow> 'a \<Rightarrow> bool) \<Rightarrow> 'a \<Rightarrow> 'a list \<Rightarrow> 'a list" where
  "insert_stable lt x [] = [x]"
| "insert_stable lt x (y # ys) = (if lt y x then y # insert_stable lt x ys else x # y # ys)"

definition stable_sort :: "('a \<Rightarrow> 'a \<Rightarrow> bool) \<Rightarrow> 'a list \<Rightarrow> 'a list" where
  "stable_sort lt xs = foldr (insert_stable lt) xs []"

text \<open>\<^verbatim>\<open>std::adjacent_find\<close> finds something.\<close>

fun adjacent_find :: "('a \<Rightarrow> 'a \<Rightarrow> bool) \<Rightarrow> 'a list \<Rightarrow> bool" where
  "adjacent_find p (x # y # ys) = (p x y \<or> adjacent_find p (y # ys))"
| "adjacent_find p _ = False"

text \<open>
  \<^verbatim>\<open>unique_last\<close>: the loop with its two iterators, and the function, which returns the array
  and the new end. When \<^verbatim>\<open>++Result\<close> reaches \<^verbatim>\<open>First\<close> the assignment moves an element onto
  itself; the value of any other object moved from is never read again.
\<close>

function unique_last_loop ::
  "('a \<Rightarrow> 'a) \<Rightarrow> ('a \<Rightarrow> 'a \<Rightarrow> bool) \<Rightarrow> 'a list \<Rightarrow> nat \<Rightarrow> nat \<Rightarrow> 'a list \<times> nat" where
  "unique_last_loop mv Predicate xs Result First =
     (let First' = First + 1
      in if length xs \<le> First' then (xs, Result + 1)
         else if Predicate (xs ! Result) (xs ! First')
         then unique_last_loop mv Predicate (xs[Result := xs ! First']) Result First'
         else let Result' = Result + 1
              in if Result' \<noteq> First'
                 then unique_last_loop mv Predicate (xs[Result' := xs ! First']) Result' First'
                 else unique_last_loop mv Predicate (xs[Result' := mv (xs ! First')]) Result' First')"
  by pat_completeness auto
termination by (relation "measure (\<lambda>(_, _, xs, _, First). length xs - First)") auto

declare unique_last_loop.simps [simp del]

definition unique_last :: "('a \<Rightarrow> 'a) \<Rightarrow> ('a \<Rightarrow> 'a \<Rightarrow> bool) \<Rightarrow> 'a list \<Rightarrow> 'a list \<times> nat" where
  "unique_last mv Predicate xs = (if xs = [] then (xs, 0) else unique_last_loop mv Predicate xs 0 0)"

subsection \<open>The container\<close>

record 'a SortedVector =
  TheVector :: "'a list"
  BatchInsertInProgress :: bool

definition sv_new :: "'a SortedVector" where
  "sv_new = \<lparr>TheVector = [], BatchInsertInProgress = False\<rparr>"

definition sv_sort :: "bool \<Rightarrow> ('a, 'k) KeyedObjectTraits \<Rightarrow> 'a SortedVector \<Rightarrow> 'a SortedVector checked" where
  "sv_sort EnsureUnique K V = do {
     revng_assert (\<not> BatchInsertInProgress V);
     let Sorted = stable_sort (compareElements K) (TheVector V);
     (if EnsureUnique
      then do {
        revng_assert (\<not> adjacent_find (elementsEqual K) Sorted);
        Some (V\<lparr>TheVector := Sorted\<rparr>) }
      else do {
        let (Array, NewEnd) = unique_last (self_move K) (elementsEqual K) Sorted;
        Some (V\<lparr>TheVector := take NewEnd Array\<rparr>) }) }"

definition sv_swap :: "'a SortedVector \<Rightarrow> 'a SortedVector \<Rightarrow> ('a SortedVector \<times> 'a SortedVector) checked" where
  "sv_swap V Other = do {
     revng_assert (\<not> BatchInsertInProgress V);
     Some (V\<lparr>TheVector := TheVector Other\<rparr>, Other\<lparr>TheVector := TheVector V\<rparr>) }"

definition sv_end :: "'a SortedVector \<Rightarrow> nat checked" where
  "sv_end V = do { revng_assert (\<not> BatchInsertInProgress V); Some (length (TheVector V)) }"

definition sv_empty :: "'a SortedVector \<Rightarrow> bool checked" where
  "sv_empty V = do { revng_assert (\<not> BatchInsertInProgress V); Some (TheVector V = []) }"

definition sv_size :: "'a SortedVector \<Rightarrow> nat checked" where
  "sv_size V = do { revng_assert (\<not> BatchInsertInProgress V); Some (length (TheVector V)) }"

definition sv_clear :: "'a SortedVector \<Rightarrow> 'a SortedVector checked" where
  "sv_clear V = do { revng_assert (\<not> BatchInsertInProgress V); Some (V\<lparr>TheVector := []\<rparr>) }"

definition sv_lower_bound :: "('a, 'k) KeyedObjectTraits \<Rightarrow> 'a SortedVector \<Rightarrow> 'k \<Rightarrow> nat checked" where
  "sv_lower_bound K V Key = do {
     revng_assert (\<not> BatchInsertInProgress V);
     Some (bisect_bound (\<lambda>x. compareElements K x (fromKey K Key)) (TheVector V) 0 (length (TheVector V))) }"

definition sv_upper_bound :: "('a, 'k) KeyedObjectTraits \<Rightarrow> 'a SortedVector \<Rightarrow> 'k \<Rightarrow> nat checked" where
  "sv_upper_bound K V Key = do {
     revng_assert (\<not> BatchInsertInProgress V);
     Some (bisect_bound (\<lambda>x. \<not> compareElements K (fromKey K Key) x) (TheVector V) 0 (length (TheVector V))) }"

definition sv_find :: "('a, 'k) KeyedObjectTraits \<Rightarrow> 'a SortedVector \<Rightarrow> 'k \<Rightarrow> nat checked" where
  "sv_find K V Key = do {
     revng_assert (\<not> BatchInsertInProgress V);
     It \<leftarrow> sv_lower_bound K V Key;
     End \<leftarrow> sv_end V;
     Some (if It \<noteq> End \<and> Compare K Key (key_of K (TheVector V ! It)) then End else It) }"

definition sv_count :: "('a, 'k) KeyedObjectTraits \<Rightarrow> 'a SortedVector \<Rightarrow> 'k \<Rightarrow> nat checked" where
  "sv_count K V Key = do {
     revng_assert (\<not> BatchInsertInProgress V);
     It \<leftarrow> sv_find K V Key;
     End \<leftarrow> sv_end V;
     Some (if It \<noteq> End then 1 else 0) }"

definition sv_contains :: "('a, 'k) KeyedObjectTraits \<Rightarrow> 'a SortedVector \<Rightarrow> 'k \<Rightarrow> bool checked" where
  "sv_contains K V Key = do { It \<leftarrow> sv_find K V Key; End \<leftarrow> sv_end V; Some (It \<noteq> End) }"

definition sv_at :: "('a, 'k) KeyedObjectTraits \<Rightarrow> 'a SortedVector \<Rightarrow> 'k \<Rightarrow> 'a checked" where
  "sv_at K V Key = do {
     revng_assert (\<not> BatchInsertInProgress V);
     It \<leftarrow> sv_find K V Key;
     End \<leftarrow> sv_end V;
     revng_assert (It \<noteq> End);
     Some (TheVector V ! It) }"

definition vector_emplace :: "'a list \<Rightarrow> nat \<Rightarrow> 'a \<Rightarrow> 'a list" where
  "vector_emplace xs Pos x = take Pos xs @ x # drop Pos xs"

definition sv_emplace ::
  "('a, 'k) KeyedObjectTraits \<Rightarrow> 'a SortedVector \<Rightarrow> 'a \<Rightarrow> ((nat \<times> bool) \<times> 'a SortedVector) checked" where
  "sv_emplace K V Value = do {
     revng_assert (\<not> BatchInsertInProgress V);
     let Key = key_of K Value;
     It \<leftarrow> sv_lower_bound K V Key;
     End \<leftarrow> sv_end V;
     Some (if It = End
           then ((length (TheVector V), True), V\<lparr>TheVector := TheVector V @ [Value]\<rparr>)
           else if keysEqual K (key_of K (TheVector V ! It)) Key
           then ((It, False), V)
           else ((It, True), V\<lparr>TheVector := vector_emplace (TheVector V) It Value\<rparr>)) }"

definition sv_emplace_or_assign ::
  "('a, 'k) KeyedObjectTraits \<Rightarrow> 'a SortedVector \<Rightarrow> 'a \<Rightarrow> ((nat \<times> bool) \<times> 'a SortedVector) checked" where
  "sv_emplace_or_assign K V Value = do {
     revng_assert (\<not> BatchInsertInProgress V);
     let Key = key_of K Value;
     It \<leftarrow> sv_lower_bound K V Key;
     End \<leftarrow> sv_end V;
     Some (if It = End
           then ((length (TheVector V), True), V\<lparr>TheVector := TheVector V @ [Value]\<rparr>)
           else if keysEqual K (key_of K (TheVector V ! It)) Key
           then ((It, False), V\<lparr>TheVector := (TheVector V)[It := Value]\<rparr>)
           else ((It, True), V\<lparr>TheVector := vector_emplace (TheVector V) It Value\<rparr>)) }"

definition sv_subscript ::
  "('a, 'k) KeyedObjectTraits \<Rightarrow> 'a SortedVector \<Rightarrow> 'k \<Rightarrow> (nat \<times> 'a SortedVector) checked" where
  "sv_subscript K V Key = do {
     revng_assert (\<not> BatchInsertInProgress V);
     ((It, _), V') \<leftarrow> sv_emplace K V (fromKey K Key);
     Some (It, V') }"

text \<open>Erasing at the end iterator, or a range that is not one, is undefined behaviour.\<close>

definition sv_erase_at :: "'a SortedVector \<Rightarrow> nat \<Rightarrow> (nat \<times> 'a SortedVector) checked" where
  "sv_erase_at V Pos = do {
     revng_assert (\<not> BatchInsertInProgress V);
     revng_assert (Pos < length (TheVector V));
     Some (Pos, V\<lparr>TheVector := take Pos (TheVector V) @ drop (Pos + 1) (TheVector V)\<rparr>) }"

definition sv_erase_range :: "'a SortedVector \<Rightarrow> nat \<Rightarrow> nat \<Rightarrow> (nat \<times> 'a SortedVector) checked" where
  "sv_erase_range V First Last = do {
     revng_assert (\<not> BatchInsertInProgress V);
     revng_assert (First \<le> Last \<and> Last \<le> length (TheVector V));
     Some (First, V\<lparr>TheVector := take First (TheVector V) @ drop Last (TheVector V)\<rparr>) }"

definition sv_erase ::
  "('a, 'k) KeyedObjectTraits \<Rightarrow> 'a SortedVector \<Rightarrow> 'k \<Rightarrow> (nat \<times> 'a SortedVector) checked" where
  "sv_erase K V Key = do {
     revng_assert (\<not> BatchInsertInProgress V);
     It \<leftarrow> sv_find K V Key;
     End \<leftarrow> sv_end V;
     (if It = End then Some (0, V)
      else do { (_, V') \<leftarrow> sv_erase_at V It; Some (1, V') }) }"

definition sv_erase_if :: "'a SortedVector \<Rightarrow> ('a \<Rightarrow> bool) \<Rightarrow> (nat \<times> 'a SortedVector) checked" where
  "sv_erase_if V Callable = do {
     revng_assert (\<not> BatchInsertInProgress V);
     Some (length (filter Callable (TheVector V)),
           V\<lparr>TheVector := filter (\<lambda>x. \<not> Callable x) (TheVector V)\<rparr>) }"

subsection \<open>Batch insertion\<close>

text \<open>
  The constructor, \<^verbatim>\<open>emplaceImpl\<close> and \<^verbatim>\<open>commit\<close> (also the destructor) of
  \<^verbatim>\<open>BatchInserterBase\<close>; \<open>Owns\<close> says that its pointer \<^verbatim>\<open>SV\<close> is not null, which a move
  makes false.
\<close>

definition batch_begin :: "'a SortedVector \<Rightarrow> 'a SortedVector checked" where
  "batch_begin V = do {
     revng_assert (\<not> BatchInsertInProgress V);
     Some (V\<lparr>BatchInsertInProgress := True\<rparr>) }"

definition batch_emplaceImpl :: "'a SortedVector \<Rightarrow> 'a \<Rightarrow> 'a SortedVector checked" where
  "batch_emplaceImpl V Value = do {
     revng_assert (BatchInsertInProgress V);
     Some (V\<lparr>TheVector := TheVector V @ [Value]\<rparr>) }"

definition batch_commit ::
  "bool \<Rightarrow> ('a, 'k) KeyedObjectTraits \<Rightarrow> bool \<Rightarrow> 'a SortedVector \<Rightarrow> 'a SortedVector checked" where
  "batch_commit EnsureUnique K Owns V =
     (if Owns \<and> BatchInsertInProgress V
      then sv_sort EnsureUnique K (V\<lparr>BatchInsertInProgress := False\<rparr>)
      else Some V)"

fun batch_emplace_all :: "'a SortedVector \<Rightarrow> 'a list \<Rightarrow> 'a SortedVector checked" where
  "batch_emplace_all V [] = Some V"
| "batch_emplace_all V (x # xs) = do { V' \<leftarrow> batch_emplaceImpl V x; batch_emplace_all V' xs }"

text \<open>
  A whole batch, from \<^verbatim>\<open>batch_insert\<close> (\<open>EnsureUnique\<close>) or \<^verbatim>\<open>batch_insert_or_assign\<close> to the
  end of the life of the inserter.
\<close>

definition sv_batch ::
  "bool \<Rightarrow> ('a, 'k) KeyedObjectTraits \<Rightarrow> 'a SortedVector \<Rightarrow> 'a list \<Rightarrow> 'a SortedVector checked" where
  "sv_batch EnsureUnique K V xs = do {
     V' \<leftarrow> batch_begin V;
     V'' \<leftarrow> batch_emplace_all V' xs;
     batch_commit EnsureUnique K True V'' }"

definition sv_of_list :: "('a, 'k) KeyedObjectTraits \<Rightarrow> 'a list \<Rightarrow> 'a SortedVector checked" where
  "sv_of_list K List = sv_batch False K sv_new List"

definition sv_of_range :: "('a, 'k) KeyedObjectTraits \<Rightarrow> 'a list \<Rightarrow> 'a SortedVector checked" where
  "sv_of_range K xs = sv_sort True K \<lparr>TheVector = xs, BatchInsertInProgress = False\<rparr>"

fun isSorted_loop :: "('a, 'k) KeyedObjectTraits \<Rightarrow> 'a list \<Rightarrow> bool" where
  "isSorted_loop K (L # R # rest) =
     (if \<not> compareElements K L R then False else isSorted_loop K (R # rest))"
| "isSorted_loop K _ = True"

definition sv_isSorted :: "('a, 'k) KeyedObjectTraits \<Rightarrow> 'a SortedVector \<Rightarrow> bool checked" where
  "sv_isSorted K V = do {
     revng_assert (\<not> BatchInsertInProgress V);
     Some (isSorted_loop K (TheVector V)) }"

section \<open>Correctness of the algorithms\<close>

lemma bisect_bound_partition:
  assumes mono: "\<And>i j. i \<le> j \<Longrightarrow> j < length xs \<Longrightarrow> before (xs ! j) \<Longrightarrow> before (xs ! i)"
    and "first + count \<le> length xs"
    and "\<And>i. i < first \<Longrightarrow> before (xs ! i)"
    and "\<And>i. first + count \<le> i \<Longrightarrow> i < length xs \<Longrightarrow> \<not> before (xs ! i)"
  shows "bisect_bound before xs first count = length (takeWhile before xs)"
  using assms(2-)
proof (induction count arbitrary: first rule: less_induct)
  case (less count)
  let ?it = "first + count div 2"
  show ?case
  proof (cases "count = 0")
    case True
    then have "takeWhile before xs = take first xs"
      using less.prems by (intro takeWhile_eq_take_P_nth) auto
    then show ?thesis using True less.prems(1) by (simp add: bisect_bound.simps)
  next
    case False
    then have it: "?it < length xs" using less.prems(1) by linarith
    show ?thesis
    proof (cases "before (xs ! ?it)")
      case True
      have "bisect_bound before xs (?it + 1) (count - (count div 2 + 1)) = length (takeWhile before xs)"
        using False less.prems mono [OF _ it True] by (intro less.IH) auto
      then show ?thesis using False True by (simp add: bisect_bound.simps [of _ _ _ count] Let_def)
    next
      case after: False
      have "bisect_bound before xs first (count div 2) = length (takeWhile before xs)"
        using False less.prems mono after it by (intro less.IH) (auto simp: le_less)
      then show ?thesis using False after by (simp add: bisect_bound.simps [of _ _ _ count] Let_def)
    qed
  qed
qed

lemma bisect_bound_sorted:
  assumes "sorted_wrt R xs" and "\<And>x y. R x y \<Longrightarrow> before y \<Longrightarrow> before x"
  shows "bisect_bound before xs 0 (length xs) = length (takeWhile before xs)"
proof (rule bisect_bound_partition)
  fix i j
  assume "i \<le> j" "j < length xs" "before (xs ! j)"
  then show "before (xs ! i)"
    using assms(2) sorted_wrt_nth_less [OF assms(1), of i j] by (cases "i = j") auto
qed simp_all

text \<open>
  What \<^verbatim>\<open>unique_last\<close> leaves before the new end: of each run of equivalent elements the
  last one. \<open>r\<close> is \<^verbatim>\<open>*Result\<close>, \<open>gap\<close> says that \<^verbatim>\<open>First\<close> is more than one ahead of it.
\<close>

fun keep_last :: "('a \<Rightarrow> 'a) \<Rightarrow> ('a \<Rightarrow> 'a \<Rightarrow> bool) \<Rightarrow> 'a \<Rightarrow> bool \<Rightarrow> 'a list \<Rightarrow> 'a list" where
  "keep_last mv p r gap [] = [r]"
| "keep_last mv p r gap (x # xs) =
     (if p r x then keep_last mv p x True xs
      else r # (if gap then keep_last mv p x True xs else keep_last mv p (mv x) False xs))"

lemma unique_last_loop_keep_last:
  "unique_last_loop mv p (kept @ r # gap @ xs) (length kept) (length kept + length gap) = (ys, n) \<Longrightarrow>
     take n ys = kept @ keep_last mv p r (gap \<noteq> []) xs"
proof (induction xs arbitrary: kept r gap)
  case Nil
  then show ?case by (auto simp: unique_last_loop.simps [of _ _ _ "length kept"])
next
  case (Cons x xs)
  let ?f = "Suc (length kept + length gap)"
  have nths: "(kept @ r # gap @ x # xs) ! length kept = r" "(kept @ r # gap @ x # xs) ! ?f = x"
    by (simp_all add: nth_append)
  show ?case
  proof (cases "p r x")
    case True
    from Cons.prems True have
      "unique_last_loop mv p (kept @ x # (gap @ [x]) @ xs) (length kept) (length kept + length (gap @ [x])) = (ys, n)"
      using nths by (simp add: unique_last_loop.simps [of _ _ _ "length kept" "length kept + length gap"] Let_def list_update_append)
    from Cons.IH [OF this] True show ?thesis by simp
  next
    case False
    show ?thesis
    proof (cases gap)
      case Nil
      from Cons.prems False Nil have
        "unique_last_loop mv p ((kept @ [r]) @ mv x # [] @ xs) (length (kept @ [r])) (length (kept @ [r]) + length []) = (ys, n)"
        using nths by (simp add: unique_last_loop.simps [of _ _ _ "length kept" "length kept"] Let_def list_update_append)
      from Cons.IH [OF this] False Nil show ?thesis by simp
    next
      case (Cons g gs)
      from Cons.prems False Cons have
        "unique_last_loop mv p ((kept @ [r]) @ x # (gs @ [x]) @ xs) (length (kept @ [r])) (length (kept @ [r]) + length (gs @ [x])) = (ys, n)"
        using nths by (simp add: unique_last_loop.simps [of _ _ _ "length kept" "Suc (length kept + length gs)"] Let_def list_update_append)
      from Cons.IH [OF this] False Cons show ?thesis by simp
    qed
  qed
qed

lemma unique_last_keep_last:
  "unique_last mv p xs = (ys, n) \<Longrightarrow>
    take n ys = (case xs of [] \<Rightarrow> [] | x # xs' \<Rightarrow> keep_last mv p x False xs')"
  using unique_last_loop_keep_last [of mv p "[]" _ "[]"]
  by (cases xs) (auto simp: unique_last_def)

section \<open>The interface to keyed objects\<close>

text \<open>
  What a container asks of the traits and the comparator: a strict weak order on the keys,
  and an object that has the key it was made from.
\<close>

locale keyed_object =
  fixes K :: "('a, 'k) KeyedObjectTraits"
  assumes Compare_irrefl: "\<not> Compare K a a"
    and Compare_trans: "Compare K a b \<Longrightarrow> Compare K b c \<Longrightarrow> Compare K a c"
    and Compare_neg_trans: "\<not> Compare K a b \<Longrightarrow> \<not> Compare K b c \<Longrightarrow> \<not> Compare K a c"
    and key_fromKey: "key_of K (fromKey K k) = k"
begin

lemma keysEqual_refl [simp]: "keysEqual K a a"
  by (simp add: keysEqual_def compareKeys_def Compare_irrefl)

lemma keysEqual_sym: "keysEqual K a b \<longleftrightarrow> keysEqual K b a"
  by (auto simp: keysEqual_def)

lemma keysEqual_trans: "keysEqual K a b \<Longrightarrow> keysEqual K b c \<Longrightarrow> keysEqual K a c"
  using Compare_neg_trans by (auto simp: keysEqual_def compareKeys_def)

lemma Compare_asym: "Compare K a b \<Longrightarrow> \<not> Compare K b a"
  using Compare_trans Compare_irrefl by blast

lemma Compare_not_trans: "Compare K a b \<Longrightarrow> \<not> Compare K c b \<Longrightarrow> Compare K a c"
  using Compare_neg_trans by blast

lemma not_Compare_trans: "\<not> Compare K b a \<Longrightarrow> Compare K b c \<Longrightarrow> Compare K a c"
  using Compare_neg_trans by blast

lemma elements_lt_not_equal: "compareElements K x y \<Longrightarrow> \<not> elementsEqual K x y"
  by (simp add: compareElements_def elementsEqual_def keysEqual_def)

lemma lower_bound_eq:
  assumes "sorted_wrt (compareElements K) xs"
  shows "bisect_bound (\<lambda>x. compareElements K x (fromKey K k)) xs 0 (length xs)
    = length (takeWhile (\<lambda>x. Compare K (key_of K x) k) xs)"
  using bisect_bound_sorted [OF assms, of "\<lambda>x. compareElements K x (fromKey K k)"] Compare_trans
  by (auto simp: compareElements_def compareKeys_def key_fromKey)

lemma upper_bound_eq:
  assumes "sorted_wrt (compareElements K) xs"
  shows "bisect_bound (\<lambda>x. \<not> compareElements K (fromKey K k) x) xs 0 (length xs)
    = length (takeWhile (\<lambda>x. \<not> Compare K k (key_of K x)) xs)"
  using bisect_bound_sorted [OF assms, of "\<lambda>x. \<not> compareElements K (fromKey K k) x"] Compare_trans
  by (auto simp: compareElements_def compareKeys_def key_fromKey)

end

lemma takeWhile_eq_filter_sorted:
  assumes "sorted_wrt R xs" and "\<And>x y. R x y \<Longrightarrow> before y \<Longrightarrow> before x"
  shows "takeWhile before xs = filter before xs"
  using assms(1)
proof (induction xs)
  case (Cons x xs)
  have "filter before xs = []" if "\<not> before x"
    using that Cons.prems assms(2) [of x] by (auto simp: filter_empty_conv)
  with Cons show ?case by auto
qed simp

text \<open>The element with key \<open>k\<close>: the map a sorted vector stands for.\<close>

definition sv_lookup :: "('a, 'k) KeyedObjectTraits \<Rightarrow> 'a list \<Rightarrow> 'k \<Rightarrow> 'a option" where
  "sv_lookup K xs k = List.find (\<lambda>x. keysEqual K (key_of K x) k) xs"

context keyed_object
begin

lemma sorted_split:
  assumes "sorted_wrt (compareElements K) xs"
  obtains A B where "xs = A @ B" "length A = length (takeWhile (\<lambda>x. Compare K (key_of K x) k) xs)"
    "\<forall>x \<in> set A. Compare K (key_of K x) k"
    "\<forall>y \<in> set B. \<not> Compare K (key_of K y) k"
    "\<forall>y \<in> set (tl B). Compare K k (key_of K y)"
proof -
  let ?p = "\<lambda>x. Compare K (key_of K x) k"
  define A where "A = takeWhile ?p xs"
  define B where "B = dropWhile ?p xs"
  have xs: "xs = A @ B" by (simp add: A_def B_def)
  then have sorted: "sorted_wrt (compareElements K) B" using assms by (simp add: sorted_wrt_append)
  have hd: "\<not> ?p (hd B)" if "B \<noteq> []" using that unfolding B_def by (rule hd_dropWhile)
  have tl: "\<forall>y \<in> set (tl B). Compare K k (key_of K y)"
  proof
    fix y
    assume y: "y \<in> set (tl B)"
    then have "B \<noteq> []" by auto
    moreover from this y sorted have "Compare K (key_of K (hd B)) (key_of K y)"
      by (cases B) (simp_all add: compareElements_def compareKeys_def)
    ultimately show "Compare K k (key_of K y)" using hd not_Compare_trans by blast
  qed
  have above: "\<forall>y \<in> set B. \<not> ?p y"
  proof
    fix y
    assume "y \<in> set B"
    then have "B \<noteq> []" "y = hd B \<or> y \<in> set (tl B)" by (cases B; simp)+
    then show "\<not> ?p y" using tl hd Compare_asym by blast
  qed
  have below: "\<forall>x \<in> set A. ?p x" unfolding A_def by (auto dest: set_takeWhileD)
  have "length A = length (takeWhile ?p xs)" by (simp add: A_def)
  then show thesis by (rule that [OF xs _ below above tl])
qed

lemma sv_lookup_split:
  assumes "\<And>x. x \<in> set A \<Longrightarrow> Compare K (key_of K x) k"
    and "\<And>y. y \<in> set (tl B) \<Longrightarrow> Compare K k (key_of K y)"
    and "\<And>y. y \<in> set B \<Longrightarrow> \<not> Compare K (key_of K y) k"
  shows "sv_lookup K (A @ B) k =
    (if B \<noteq> [] \<and> \<not> Compare K k (key_of K (hd B)) then Some (hd B) else None)"
proof -
  have "List.find (\<lambda>x. keysEqual K (key_of K x) k) (A @ B) = List.find (\<lambda>x. keysEqual K (key_of K x) k) B"
    using assms(1) by (induction A) (auto simp: keysEqual_def compareKeys_def)
  moreover have "List.find (\<lambda>x. keysEqual K (key_of K x) k) (tl B) = None"
    using assms(2) by (auto simp: find_None_iff keysEqual_def compareKeys_def)
  ultimately show ?thesis
    using assms(3) by (cases B) (auto simp: sv_lookup_def keysEqual_def compareKeys_def)
qed

end

text \<open>The invariant of the container between two calls.\<close>

definition sv_inv :: "('a, 'k) KeyedObjectTraits \<Rightarrow> 'a SortedVector \<Rightarrow> bool" where
  "sv_inv K V \<longleftrightarrow> \<not> BatchInsertInProgress V \<and> sorted_wrt (compareElements K) (TheVector V)"

context keyed_object
begin

lemma sv_lower_bound_eq:
  "sv_inv K V \<Longrightarrow> sv_lower_bound K V k = Some (length (takeWhile (\<lambda>x. Compare K (key_of K x) k) (TheVector V)))"
  by (simp add: sv_lower_bound_def sv_inv_def lower_bound_eq)

lemma sorted_insert:
  assumes "sorted_wrt (compareElements K) (A @ B)"
    and "\<And>a. a \<in> set A \<Longrightarrow> compareElements K a x" and "\<And>b. b \<in> set B \<Longrightarrow> compareElements K x b"
  shows "sorted_wrt (compareElements K) (A @ x # B)"
  using assms by (auto simp: sorted_wrt_append)

lemma lookup_insert:
  assumes "\<And>y. y \<in> set A \<union> set B \<Longrightarrow> \<not> elementsEqual K y x"
  shows "sv_lookup K (A @ x # B) k = (if keysEqual K (key_of K x) k then Some x else sv_lookup K (A @ B) k)"
proof -
  have "\<not> keysEqual K (key_of K y) k" if "y \<in> set A \<union> set B" "keysEqual K (key_of K x) k" for y
    using assms [OF that(1)] that(2) keysEqual_trans keysEqual_sym unfolding elementsEqual_def by blast
  then show ?thesis
    by (induction A) (auto simp: sv_lookup_def)
qed

lemma sv_emplace_cases:
  assumes "sv_inv K V"
  obtains A B C new where "TheVector V = A @ B"
    "\<forall>a \<in> set A. compareElements K a x" "\<forall>c \<in> set C. compareElements K x c"
    "new \<longleftrightarrow> \<not> (B \<noteq> [] \<and> elementsEqual K (hd B) x)" "C = (if new then B else tl B)"
    "sv_lookup K (TheVector V) (key_of K x) = (if new then None else Some (hd B))"
    "sv_emplace K V x = Some ((length A, new), if new then V\<lparr>TheVector := A @ x # C\<rparr> else V)"
    "sv_emplace_or_assign K V x = Some ((length A, new), V\<lparr>TheVector := A @ x # C\<rparr>)"
proof -
  have sorted: "sorted_wrt (compareElements K) (TheVector V)" and idle: "\<not> BatchInsertInProgress V"
    using assms by (simp_all add: sv_inv_def)
  obtain A B where AB: "TheVector V = A @ B"
      "length A = length (takeWhile (\<lambda>y. Compare K (key_of K y) (key_of K x)) (TheVector V))"
      "\<forall>y \<in> set A. Compare K (key_of K y) (key_of K x)"
      "\<forall>y \<in> set B. \<not> Compare K (key_of K y) (key_of K x)"
      "\<forall>y \<in> set (tl B). Compare K (key_of K x) (key_of K y)"
    by (rule sorted_split [OF sorted, of "key_of K x"])
  have lb: "sv_lower_bound K V (key_of K x) = Some (length A)"
    using assms AB(2) by (simp add: sv_lower_bound_eq)
  have end_: "sv_end V = Some (length A + length B)" using AB(1) idle by (simp add: sv_end_def)
  define new where "new \<longleftrightarrow> \<not> (B \<noteq> [] \<and> elementsEqual K (hd B) x)"
  define C where "C = (if new then B else tl B)"
  note defs = elementsEqual_def keysEqual_def compareKeys_def compareElements_def
  show thesis
  proof (rule that [OF AB(1) _ _ new_def C_def])
    show "\<forall>c \<in> set C. compareElements K x c"
      using AB(4,5) by (cases B) (auto simp: C_def new_def defs)
    show "sv_lookup K (TheVector V) (key_of K x) = (if new then None else Some (hd B))"
      using sv_lookup_split [of A "key_of K x" B] AB by (cases B) (auto simp: new_def defs)
    show "sv_emplace K V x = Some ((length A, new), if new then V\<lparr>TheVector := A @ x # C\<rparr> else V)"
      using lb end_ AB(1) idle
      by (cases B) (auto simp: sv_emplace_def vector_emplace_def Let_def C_def new_def elementsEqual_def)
    show "sv_emplace_or_assign K V x = Some ((length A, new), V\<lparr>TheVector := A @ x # C\<rparr>)"
      using lb end_ AB(1) idle
      by (cases B) (auto simp: sv_emplace_or_assign_def vector_emplace_def Let_def C_def new_def elementsEqual_def)
  qed (use AB(3) in \<open>simp add: defs\<close>)
qed

end

context keyed_object
begin

lemma sv_insert_effect:
  assumes "sv_inv K V" "TheVector V = A @ B"
    and "\<forall>a \<in> set A. compareElements K a x" "\<forall>c \<in> set C. compareElements K x c"
    and "new \<longleftrightarrow> \<not> (B \<noteq> [] \<and> elementsEqual K (hd B) x)" "C = (if new then B else tl B)"
  shows "sv_inv K (V\<lparr>TheVector := A @ x # C\<rparr>)"
    and "sv_lookup K (A @ x # C) k =
      (if keysEqual K (key_of K x) k then Some x else sv_lookup K (TheVector V) k)"
proof -
  have "sorted_wrt (compareElements K) (A @ C)"
    using assms(1,2,6) by (cases B) (auto simp: sv_inv_def sorted_wrt_append)
  then show "sv_inv K (V\<lparr>TheVector := A @ x # C\<rparr>)"
    using assms(1,3,4) sorted_insert [of A C x] by (simp add: sv_inv_def)
  have "sv_lookup K (A @ C) k = sv_lookup K (A @ B) k" if "\<not> keysEqual K (key_of K x) k"
  proof (cases new)
    case False
    then have "\<not> keysEqual K (key_of K (hd B)) k" "B \<noteq> []"
      using that assms(5) keysEqual_trans keysEqual_sym unfolding elementsEqual_def by blast+
    with False assms(6) show ?thesis by (induction A; cases B) (auto simp: sv_lookup_def)
  qed (simp add: assms(6))
  moreover have "\<And>y. y \<in> set A \<union> set C \<Longrightarrow> \<not> elementsEqual K y x"
    using assms(3,4) by (auto simp: elementsEqual_def keysEqual_def compareElements_def)
  ultimately show "sv_lookup K (A @ x # C) k =
      (if keysEqual K (key_of K x) k then Some x else sv_lookup K (TheVector V) k)"
    using lookup_insert [of A C x k] assms(2) by simp
qed

lemma sv_emplace_correct:
  assumes "sv_inv K V"
  obtains i new W where "sv_emplace K V x = Some ((i, new), W)" "sv_inv K W"
    "new \<longleftrightarrow> sv_lookup K (TheVector V) (key_of K x) = None"
    "\<forall>k. sv_lookup K (TheVector W) k =
       (if new \<and> keysEqual K (key_of K x) k then Some x else sv_lookup K (TheVector V) k)"
    "i < length (TheVector W)" "elementsEqual K (TheVector W ! i) x"
  using assms
proof (rule sv_emplace_cases [of V x])
  fix A B C new
  assume *: "TheVector V = A @ B"
    "\<forall>a \<in> set A. compareElements K a x" "\<forall>c \<in> set C. compareElements K x c"
    "new \<longleftrightarrow> \<not> (B \<noteq> [] \<and> elementsEqual K (hd B) x)" "C = (if new then B else tl B)"
    and look: "sv_lookup K (TheVector V) (key_of K x) = (if new then None else Some (hd B))"
    and eq: "sv_emplace K V x = Some ((length A, new), if new then V\<lparr>TheVector := A @ x # C\<rparr> else V)"
  note effect = sv_insert_effect [OF assms *]
  show thesis
    by (rule that [OF eq]) (use effect assms look *(1,4) in
      \<open>cases B; auto simp: nth_append elementsEqual_def\<close>)+
qed

lemma sv_emplace_or_assign_correct:
  assumes "sv_inv K V"
  obtains i new W where "sv_emplace_or_assign K V x = Some ((i, new), W)" "sv_inv K W"
    "new \<longleftrightarrow> sv_lookup K (TheVector V) (key_of K x) = None"
    "\<forall>k. sv_lookup K (TheVector W) k =
       (if keysEqual K (key_of K x) k then Some x else sv_lookup K (TheVector V) k)"
    "i < length (TheVector W)" "TheVector W ! i = x"
  using assms
proof (rule sv_emplace_cases [of V x])
  fix A B C new
  assume *: "TheVector V = A @ B"
    "\<forall>a \<in> set A. compareElements K a x" "\<forall>c \<in> set C. compareElements K x c"
    "new \<longleftrightarrow> \<not> (B \<noteq> [] \<and> elementsEqual K (hd B) x)" "C = (if new then B else tl B)"
    and look: "sv_lookup K (TheVector V) (key_of K x) = (if new then None else Some (hd B))"
    and eq: "sv_emplace_or_assign K V x = Some ((length A, new), V\<lparr>TheVector := A @ x # C\<rparr>)"
  note effect = sv_insert_effect [OF assms *]
  show thesis
    by (rule that [OF eq]) (use effect look in simp_all)
qed

end

section \<open>Sorting and batches\<close>

text \<open>Sorted up to equivalent keys.\<close>

definition weakly_sorted :: "('a, 'k) KeyedObjectTraits \<Rightarrow> 'a list \<Rightarrow> bool" where
  "weakly_sorted K xs \<longleftrightarrow> sorted_wrt (\<lambda>x y. \<not> compareElements K y x) xs"

text \<open>No two elements have equivalent keys.\<close>

definition keys_distinct :: "('a, 'k) KeyedObjectTraits \<Rightarrow> 'a list \<Rightarrow> bool" where
  "keys_distinct K xs \<longleftrightarrow> sorted_wrt (\<lambda>x y. \<not> elementsEqual K x y) xs"

lemma set_insert_stable [simp]: "set (insert_stable lt x ys) = insert x (set ys)"
  by (induction ys) auto

lemma set_stable_sort [simp]: "set (stable_sort lt xs) = set xs"
  unfolding stable_sort_def by (induction xs) auto

context keyed_object
begin

lemma elements_asym: "compareElements K x y \<Longrightarrow> \<not> compareElements K y x"
  unfolding compareElements_def compareKeys_def by (rule Compare_asym)

lemma elements_less_le: "compareElements K x y \<Longrightarrow> \<not> compareElements K z y \<Longrightarrow> compareElements K x z"
  unfolding compareElements_def compareKeys_def by (rule Compare_not_trans)

lemma elements_less_iff: "compareElements K x y \<longleftrightarrow> \<not> compareElements K y x \<and> \<not> elementsEqual K x y"
  using elements_asym unfolding elementsEqual_def keysEqual_def compareElements_def by blast

lemma elements_sandwich:
  "\<not> compareElements K y x \<Longrightarrow> \<not> compareElements K z y \<Longrightarrow> elementsEqual K x z \<Longrightarrow> elementsEqual K x y"
  using elements_less_le elements_less_iff by blast

lemma weakly_sorted_head_less:
  assumes "weakly_sorted K (r # x # xs)" "\<not> elementsEqual K r x" "y \<in> set (x # xs)"
  shows "compareElements K r y"
proof -
  have "compareElements K r x" using assms(1,2) elements_less_iff [of r x] by (simp add: weakly_sorted_def)
  moreover have "y = x \<or> \<not> compareElements K y x" using assms(1,3) by (auto simp: weakly_sorted_def)
  ultimately show ?thesis using elements_less_le by blast
qed

lemma weakly_sorted_insert_stable:
  "weakly_sorted K ys \<Longrightarrow> weakly_sorted K (insert_stable (compareElements K) x ys)"
proof (induction ys)
  case (Cons y ys)
  show ?case
  proof (cases "compareElements K y x")
    case True
    then have "\<not> compareElements K x y" by (rule elements_asym)
    with True Cons show ?thesis by (auto simp: weakly_sorted_def)
  next
    case False
    have "\<not> compareElements K z x" if "z \<in> set ys" for z
      using False Cons.prems that Compare_neg_trans [of "key_of K z" "key_of K y" "key_of K x"]
      by (simp add: weakly_sorted_def compareElements_def compareKeys_def)
    with False Cons.prems show ?thesis by (simp add: weakly_sorted_def)
  qed
qed (simp add: weakly_sorted_def)

lemma weakly_sorted_stable_sort: "weakly_sorted K (stable_sort (compareElements K) xs)"
  unfolding stable_sort_def
  by (induction xs) (simp_all add: weakly_sorted_insert_stable, simp add: weakly_sorted_def)

lemma filter_insert_stable:
  "filter (\<lambda>y. keysEqual K (key_of K y) k) (insert_stable (compareElements K) x ys) =
    filter (\<lambda>y. keysEqual K (key_of K y) k) (x # ys)"
proof (induction ys)
  case (Cons y ys)
  have "\<not> (keysEqual K (key_of K y) k \<and> keysEqual K (key_of K x) k)" if "compareElements K y x"
    using that elements_lt_not_equal [OF that] keysEqual_trans keysEqual_sym
    unfolding elementsEqual_def by blast
  with Cons show ?case by auto
qed simp

lemma filter_stable_sort:
  "filter (\<lambda>y. keysEqual K (key_of K y) k) (stable_sort (compareElements K) xs) =
    filter (\<lambda>y. keysEqual K (key_of K y) k) xs"
  unfolding stable_sort_def by (induction xs) (simp_all add: filter_insert_stable)

lemma keys_distinct_iff_filter:
  "keys_distinct K xs \<longleftrightarrow> (\<forall>k. length (filter (\<lambda>y. keysEqual K (key_of K y) k) xs) \<le> 1)"
proof (induction xs)
  case (Cons x xs)
  have "(\<forall>y \<in> set xs. \<not> elementsEqual K x y) \<longleftrightarrow>
      (\<forall>k. keysEqual K (key_of K x) k \<longrightarrow> filter (\<lambda>y. keysEqual K (key_of K y) k) xs = [])"
    using keysEqual_trans keysEqual_sym keysEqual_refl
    unfolding elementsEqual_def filter_empty_conv by metis
  with Cons show ?case by (auto simp: keys_distinct_def)
qed (simp add: keys_distinct_def)

lemma keys_distinct_stable_sort:
  "keys_distinct K (stable_sort (compareElements K) xs) \<longleftrightarrow> keys_distinct K xs"
  unfolding keys_distinct_iff_filter filter_stable_sort ..

lemma strictly_sorted_iff:
  "sorted_wrt (compareElements K) xs \<longleftrightarrow> weakly_sorted K xs \<and> keys_distinct K xs"
proof (induction xs)
  case (Cons x xs)
  have "(\<forall>y \<in> set xs. compareElements K x y) \<longleftrightarrow>
      (\<forall>y \<in> set xs. \<not> compareElements K y x) \<and> (\<forall>y \<in> set xs. \<not> elementsEqual K x y)"
    by (subst elements_less_iff) blast
  with Cons show ?case unfolding weakly_sorted_def keys_distinct_def sorted_wrt.simps by blast
qed (simp add: weakly_sorted_def keys_distinct_def)

lemma adjacent_find_weakly_sorted:
  "weakly_sorted K xs \<Longrightarrow> adjacent_find (elementsEqual K) xs \<longleftrightarrow> \<not> keys_distinct K xs"
proof (induction "elementsEqual K" xs rule: adjacent_find.induct)
  case (1 x y ys)
  have "elementsEqual K x y" if "z \<in> set ys" "elementsEqual K x z" for z
    using 1(2) that by (intro elements_sandwich [of y x z]) (simp_all add: weakly_sorted_def)
  then have "(\<forall>z \<in> set (y # ys). \<not> elementsEqual K x z) \<longleftrightarrow> \<not> elementsEqual K x y" by auto
  with 1 show ?case unfolding weakly_sorted_def keys_distinct_def sorted_wrt.simps adjacent_find.simps by blast
qed (simp_all add: keys_distinct_def)

lemma keep_last_lookup:
  assumes "weakly_sorted K (r # xs)"
  shows "sv_lookup K (keep_last (\<lambda>x. x) (elementsEqual K) r gap xs) k =
    (let m = filter (\<lambda>y. keysEqual K (key_of K y) k) (r # xs) in if m = [] then None else Some (last m))"
  using assms
proof (induction xs arbitrary: r gap)
  case Nil
  then show ?case by (simp add: sv_lookup_def)
next
  case (Cons x xs)
  have ws: "weakly_sorted K (x # xs)" using Cons.prems by (simp add: weakly_sorted_def)
  show ?case
  proof (cases "elementsEqual K r x")
    case True
    then have "keysEqual K (key_of K r) k \<longleftrightarrow> keysEqual K (key_of K x) k"
      using keysEqual_trans keysEqual_sym unfolding elementsEqual_def by blast
    with True Cons.IH [OF ws] show ?thesis by (simp add: Let_def)
  next
    case False
    have "\<not> keysEqual K (key_of K y) k" if "keysEqual K (key_of K r) k" "y \<in> set (x # xs)" for y
      using elements_lt_not_equal [OF weakly_sorted_head_less [OF Cons.prems False that(2)]] that(1)
        keysEqual_trans keysEqual_sym unfolding elementsEqual_def by blast
    then have "keysEqual K (key_of K r) k \<Longrightarrow> filter (\<lambda>y. keysEqual K (key_of K y) k) (x # xs) = []"
      by (simp add: filter_empty_conv)
    with False Cons.IH [OF ws] show ?thesis by (auto simp: sv_lookup_def Let_def)
  qed
qed

lemma keep_last_subset: "set (keep_last (\<lambda>x. x) p r gap xs) \<subseteq> set (r # xs)"
  by (induction xs arbitrary: r gap) auto

lemma keep_last_sorted:
  assumes "weakly_sorted K (r # xs)"
  shows "sorted_wrt (compareElements K) (keep_last (\<lambda>x. x) (elementsEqual K) r gap xs)"
  using assms
proof (induction xs arbitrary: r gap)
  case (Cons x xs)
  have ws: "weakly_sorted K (x # xs)" using Cons.prems by (simp add: weakly_sorted_def)
  show ?case
  proof (cases "elementsEqual K r x")
    case False
    have "\<forall>y \<in> set (keep_last (\<lambda>x. x) (elementsEqual K) x g xs). compareElements K r y" for g
      using weakly_sorted_head_less [OF Cons.prems False] keep_last_subset [of "elementsEqual K" x g xs]
      by (meson subsetD)
    with False Cons.IH [OF ws] show ?thesis by simp
  qed (use Cons.IH [OF ws] in simp)
qed simp

end

text \<open>One call of \<^verbatim>\<open>insert_or_assign\<close> for each element of a list, in order.\<close>

fun sv_assign_all :: "('a, 'k) KeyedObjectTraits \<Rightarrow> 'a SortedVector \<Rightarrow> 'a list \<Rightarrow> 'a SortedVector checked" where
  "sv_assign_all K V [] = Some V"
| "sv_assign_all K V (x # xs) = do { (_, V') \<leftarrow> sv_emplace_or_assign K V x; sv_assign_all K V' xs }"

lemma batch_emplace_all_eq:
  "BatchInsertInProgress V \<Longrightarrow> batch_emplace_all V xs = Some (V\<lparr>TheVector := TheVector V @ xs\<rparr>)"
  by (induction xs arbitrary: V) (simp_all add: batch_emplaceImpl_def)

lemma sv_batch_eq:
  "\<not> BatchInsertInProgress V \<Longrightarrow>
    sv_batch u K V xs = sv_sort u K \<lparr>TheVector = TheVector V @ xs, BatchInsertInProgress = False\<rparr>"
  by (cases V) (simp add: sv_batch_def batch_begin_def batch_emplace_all_eq batch_commit_def)

context keyed_object
begin

lemma lookup_member: "sorted_wrt (compareElements K) xs \<Longrightarrow> x \<in> set xs \<Longrightarrow> sv_lookup K xs (key_of K x) = Some x"
proof (induction xs)
  case (Cons y ys)
  then show ?case
    using elements_lt_not_equal [of y x] by (auto simp: sv_lookup_def elementsEqual_def)
qed simp

lemma sorted_set_eq:
  assumes "sorted_wrt (compareElements K) xs" "sorted_wrt (compareElements K) ys" "set xs = set ys"
  shows "xs = ys"
  using assms
proof (induction xs arbitrary: ys)
  case (Cons x xs)
  then obtain y ys' where ys: "ys = y # ys'" by (cases ys) auto
  have "x = y"
  proof (rule ccontr)
    assume "x \<noteq> y"
    then have "x \<in> set ys'" "y \<in> set xs" using Cons.prems(3) ys by auto
    then show False using Cons.prems(1,2) ys elements_asym by auto
  qed
  moreover have "x \<notin> set xs" "y \<notin> set ys'"
    using Cons.prems(1,2) ys elements_asym by auto
  ultimately have "set xs = set ys'" using Cons.prems(3) ys by auto
  with Cons ys \<open>x = y\<close> show ?case by simp
qed simp

lemma sorted_lookup_eq:
  assumes "sorted_wrt (compareElements K) xs" "sorted_wrt (compareElements K) ys"
    and "\<And>k. sv_lookup K xs k = sv_lookup K ys k"
  shows "xs = ys"
proof (rule sorted_set_eq [OF assms(1,2)])
  have "x \<in> set zs" if "sv_lookup K zs k = Some x" for x zs k
    using that by (auto simp: sv_lookup_def find_Some_iff)
  then show "set xs = set ys"
    using assms(3) lookup_member [OF assms(1)] lookup_member [OF assms(2)] by (metis subsetI subset_antisym)
qed

text \<open>The last element of a list with key \<open>k\<close>.\<close>

lemma lookup_last:
  assumes "sorted_wrt (compareElements K) xs"
  shows "sv_lookup K xs k =
    (let m = filter (\<lambda>y. keysEqual K (key_of K y) k) xs in if m = [] then None else Some (last m))"
proof -
  have "keys_distinct K xs" using assms by (simp add: strictly_sorted_iff)
  then have "length (filter (\<lambda>y. keysEqual K (key_of K y) k) xs) \<le> 1" by (simp add: keys_distinct_iff_filter)
  moreover have "sv_lookup K xs k = (let m = filter (\<lambda>y. keysEqual K (key_of K y) k) xs in if m = [] then None else Some (hd m))"
    unfolding sv_lookup_def by (induction xs) (auto simp: Let_def)
  ultimately show ?thesis
    by (cases "filter (\<lambda>y. keysEqual K (key_of K y) k) xs") (auto simp: Let_def)
qed

lemma sv_assign_all_correct:
  assumes "sv_inv K V"
  obtains W where "sv_assign_all K V xs = Some W" "sv_inv K W"
    "\<And>k. sv_lookup K (TheVector W) k =
      (let m = filter (\<lambda>y. keysEqual K (key_of K y) k) xs in if m = [] then sv_lookup K (TheVector V) k else Some (last m))"
  using assms
proof (induction xs arbitrary: V thesis)
  case Nil
  then show ?case by simp
next
  case (Cons x xs)
  obtain i new U where U: "sv_emplace_or_assign K V x = Some ((i, new), U)" "sv_inv K U"
    "\<forall>k. sv_lookup K (TheVector U) k = (if keysEqual K (key_of K x) k then Some x else sv_lookup K (TheVector V) k)"
    using sv_emplace_or_assign_correct [OF Cons.prems(2), of x] by metis
  obtain W where W: "sv_assign_all K U xs = Some W" "sv_inv K W"
    "\<And>k. sv_lookup K (TheVector W) k =
      (let m = filter (\<lambda>y. keysEqual K (key_of K y) k) xs in if m = [] then sv_lookup K (TheVector U) k else Some (last m))"
    using Cons.IH [OF _ U(2)] by blast
  show ?case
    by (rule Cons.prems(1) [of W]) (use U(1,3) W in \<open>simp_all add: Let_def\<close>)
qed

lemma sv_sort_assign_correct:
  assumes "self_move K = (\<lambda>x. x)" "\<not> BatchInsertInProgress V"
  obtains W where "sv_sort False K V = Some W" "sv_inv K W"
    "\<And>k. sv_lookup K (TheVector W) k =
      (let m = filter (\<lambda>y. keysEqual K (key_of K y) k) (TheVector V) in if m = [] then None else Some (last m))"
proof -
  define S where "S = stable_sort (compareElements K) (TheVector V)"
  obtain ys n where u: "unique_last (\<lambda>x. x) (elementsEqual K) S = (ys, n)" by fastforce
  have take: "take n ys = (case S of [] \<Rightarrow> [] | x # xs' \<Rightarrow> keep_last (\<lambda>x. x) (elementsEqual K) x False xs')"
    by (rule unique_last_keep_last [OF u])
  have ws: "weakly_sorted K S" unfolding S_def by (rule weakly_sorted_stable_sort)
  have sorted: "sorted_wrt (compareElements K) (take n ys)"
    unfolding take using ws keep_last_sorted by (cases S) simp_all
  have "sv_lookup K (take n ys) k =
      (let m = filter (\<lambda>y. keysEqual K (key_of K y) k) S in if m = [] then None else Some (last m))" for k
    unfolding take using ws keep_last_lookup
    by (cases S) (simp_all only: list.case, simp add: sv_lookup_def)
  moreover have "sv_sort False K V = Some (V\<lparr>TheVector := take n ys\<rparr>)"
    using assms u by (simp add: sv_sort_def S_def)
  ultimately show thesis
    using that [of "V\<lparr>TheVector := take n ys\<rparr>"] sorted assms(2)
    by (simp add: sv_inv_def S_def filter_stable_sort)
qed

lemma sv_batch_assign:
  assumes "self_move K = (\<lambda>x. x)" "sv_inv K V"
  shows "sv_batch False K V xs = sv_assign_all K V xs \<and> sv_assign_all K V xs \<noteq> None"
proof -
  have idle: "\<not> BatchInsertInProgress V" using assms(2) by (simp add: sv_inv_def)
  obtain W where W: "sv_batch False K V xs = Some W" "sv_inv K W"
    "\<And>k. sv_lookup K (TheVector W) k =
      (let m = filter (\<lambda>y. keysEqual K (key_of K y) k) (TheVector V @ xs) in if m = [] then None else Some (last m))"
    using sv_sort_assign_correct [OF assms(1), of "\<lparr>TheVector = TheVector V @ xs, BatchInsertInProgress = False\<rparr>"]
    by (auto simp: sv_batch_eq [OF idle])
  obtain U where U: "sv_assign_all K V xs = Some U" "sv_inv K U"
    "\<And>k. sv_lookup K (TheVector U) k =
      (let m = filter (\<lambda>y. keysEqual K (key_of K y) k) xs in if m = [] then sv_lookup K (TheVector V) k else Some (last m))"
    using sv_assign_all_correct [OF assms(2), of xs] by blast
  have "sv_lookup K (TheVector V) k =
      (let m = filter (\<lambda>y. keysEqual K (key_of K y) k) (TheVector V) in if m = [] then None else Some (last m))" for k
    using lookup_last assms(2) by (simp add: sv_inv_def)
  then have "TheVector W = TheVector U"
    using W U by (intro sorted_lookup_eq) (auto simp: sv_inv_def Let_def)
  with W U show ?thesis by (simp add: sv_inv_def SortedVector.equality)
qed

lemma sv_batch_unique:
  assumes "\<not> BatchInsertInProgress V"
  shows "sv_batch True K V xs =
    (if keys_distinct K (TheVector V @ xs)
     then Some \<lparr>TheVector = stable_sort (compareElements K) (TheVector V @ xs), BatchInsertInProgress = False\<rparr>
     else None)"
  using adjacent_find_weakly_sorted [OF weakly_sorted_stable_sort, of "TheVector V @ xs"]
  by (simp add: sv_batch_eq [OF assms] sv_sort_def keys_distinct_stable_sort)

end

section \<open>Searching and erasing\<close>

context keyed_object
begin

lemma sv_batch_unique_inv:
  assumes "\<not> BatchInsertInProgress V" "sv_batch True K V xs = Some W"
  shows "sv_inv K W"
  using assms weakly_sorted_stable_sort keys_distinct_stable_sort
  by (auto simp: sv_batch_unique sv_inv_def strictly_sorted_iff split: if_splits)

lemma sv_find_correct:
  assumes "sv_inv K V"
  obtains i where "sv_find K V k = Some i" "sv_end V = Some (length (TheVector V))"
    "if sv_lookup K (TheVector V) k = None then i = length (TheVector V)
     else i < length (TheVector V) \<and> sv_lookup K (TheVector V) k = Some (TheVector V ! i)"
proof -
  have sorted: "sorted_wrt (compareElements K) (TheVector V)" and idle: "\<not> BatchInsertInProgress V"
    using assms by (simp_all add: sv_inv_def)
  obtain A B where AB: "TheVector V = A @ B"
      "length A = length (takeWhile (\<lambda>y. Compare K (key_of K y) k) (TheVector V))"
      "\<forall>y \<in> set A. Compare K (key_of K y) k"
      "\<forall>y \<in> set B. \<not> Compare K (key_of K y) k"
      "\<forall>y \<in> set (tl B). Compare K k (key_of K y)"
    by (rule sorted_split [OF sorted, of k])
  have lb: "sv_lower_bound K V k = Some (length A)"
    using assms AB(2) by (simp add: sv_lower_bound_eq)
  have look: "sv_lookup K (A @ B) k = (if B \<noteq> [] \<and> \<not> Compare K k (key_of K (hd B)) then Some (hd B) else None)"
    using AB(3-5) by (intro sv_lookup_split) auto
  define i where "i = (if B \<noteq> [] \<and> \<not> Compare K k (key_of K (hd B)) then length A else length A + length B)"
  have end_: "sv_end V = Some (length (TheVector V))" using idle by (simp add: sv_end_def)
  have "sv_find K V k = Some i"
    using lb end_ idle AB(1) by (cases B) (simp_all add: sv_find_def i_def)
  from that [OF this end_] show thesis
    using look AB(1) by (cases B) (simp_all add: i_def split: if_splits)
qed

lemma sv_find_derived:
  assumes "sv_inv K V"
  shows "(\<exists>i. sv_find K V k = Some i \<and>
            (case sv_lookup K (TheVector V) k of
               None \<Rightarrow> i = length (TheVector V)
             | Some x \<Rightarrow> i < length (TheVector V) \<and> TheVector V ! i = x))
     \<and> sv_at K V k = sv_lookup K (TheVector V) k
     \<and> sv_count K V k = Some (if sv_lookup K (TheVector V) k = None then 0 else 1)
     \<and> sv_contains K V k = Some (sv_lookup K (TheVector V) k \<noteq> None)"
proof -
  obtain i where i: "sv_find K V k = Some i" "sv_end V = Some (length (TheVector V))"
    "if sv_lookup K (TheVector V) k = None then i = length (TheVector V)
     else i < length (TheVector V) \<and> sv_lookup K (TheVector V) k = Some (TheVector V ! i)"
    by (rule sv_find_correct [OF assms, of k])
  then show ?thesis
    using assms
    by (cases "sv_lookup K (TheVector V) k")
      (simp_all add: sv_at_def sv_count_def sv_contains_def sv_inv_def)
qed

lemma sv_bounds_filter:
  assumes "sv_inv K V"
  shows "sv_lower_bound K V k = Some (length (filter (\<lambda>x. Compare K (key_of K x) k) (TheVector V)))
     \<and> sv_upper_bound K V k = Some (length (filter (\<lambda>x. \<not> Compare K k (key_of K x)) (TheVector V)))"
proof -
  have sorted: "sorted_wrt (compareElements K) (TheVector V)" and idle: "\<not> BatchInsertInProgress V"
    using assms by (simp_all add: sv_inv_def)
  have "takeWhile (\<lambda>x. Compare K (key_of K x) k) (TheVector V) = filter (\<lambda>x. Compare K (key_of K x) k) (TheVector V)"
    by (rule takeWhile_eq_filter_sorted [OF sorted])
      (auto simp: compareElements_def compareKeys_def intro: Compare_trans)
  moreover have "takeWhile (\<lambda>x. \<not> Compare K k (key_of K x)) (TheVector V) = filter (\<lambda>x. \<not> Compare K k (key_of K x)) (TheVector V)"
    by (rule takeWhile_eq_filter_sorted [OF sorted])
      (auto simp: compareElements_def compareKeys_def dest: Compare_trans)
  ultimately show ?thesis
    using idle lower_bound_eq [OF sorted, of k] upper_bound_eq [OF sorted, of k]
    by (simp add: sv_lower_bound_def sv_upper_bound_def)
qed

lemma stable_sort_sorted:
  assumes "sorted_wrt (compareElements K) xs"
  shows "stable_sort (compareElements K) xs = xs"
  using assms weakly_sorted_stable_sort [of xs] keys_distinct_stable_sort [of xs]
  by (intro sorted_set_eq) (auto simp: strictly_sorted_iff)

lemma keep_last_sorted_distinct:
  assumes "\<And>x. key_of K (mv x) = key_of K x"
  shows "sorted_wrt (compareElements K) (r # xs) \<Longrightarrow>
    keep_last mv (elementsEqual K) r False xs = r # map mv xs"
proof (induction xs arbitrary: r)
  case (Cons x xs)
  then have "compareElements K r x" by simp
  then have "\<not> elementsEqual K r x" by (rule elements_lt_not_equal)
  moreover have "sorted_wrt (compareElements K) (mv x # xs)"
    using Cons.prems assms by (simp add: compareElements_def [of K "mv x"] compareElements_def [of K x])
  ultimately show ?case using Cons.IH [of "mv x"] by simp
qed simp

lemma sorted_wrt_erase:
  assumes "sorted_wrt R xs" "i \<le> j"
  shows "sorted_wrt R (take i xs @ drop j xs)"
proof -
  have "sorted_wrt R (take j xs @ drop j xs)" using assms(1) by simp
  then have "\<forall>x \<in> set (take j xs). \<forall>y \<in> set (drop j xs). R x y" unfolding sorted_wrt_append by blast
  then show ?thesis
    using assms set_take_subset_set_take [OF assms(2), of xs]
    by (auto simp: sorted_wrt_append sorted_wrt_take sorted_wrt_drop)
qed

lemma sv_erase_correct:
  assumes "sv_inv K V"
  obtains n W where "sv_erase K V k = Some (n, W)" "sv_inv K W"
    "n = (if sv_lookup K (TheVector V) k = None then 0 else 1)"
    "\<forall>k'. sv_lookup K (TheVector W) k' = (if keysEqual K k k' then None else sv_lookup K (TheVector V) k')"
proof -
  obtain i where i: "sv_find K V k = Some i" "sv_end V = Some (length (TheVector V))"
    "if sv_lookup K (TheVector V) k = None then i = length (TheVector V)
     else i < length (TheVector V) \<and> sv_lookup K (TheVector V) k = Some (TheVector V ! i)"
    by (rule sv_find_correct [OF assms, of k])
  have idle: "\<not> BatchInsertInProgress V" and sorted: "sorted_wrt (compareElements K) (TheVector V)"
    using assms by (simp_all add: sv_inv_def)
  have same_key: "sv_lookup K xs k = sv_lookup K xs k'" if "keysEqual K k k'" for xs k'
  proof -
    have "keysEqual K (key_of K y) k \<longleftrightarrow> keysEqual K (key_of K y) k'" for y
      using that keysEqual_trans keysEqual_sym by blast
    then show ?thesis by (simp add: sv_lookup_def)
  qed
  show thesis
  proof (cases "sv_lookup K (TheVector V) k")
    case None
    have "sv_erase K V k = Some (0, V)" using i None idle by (simp add: sv_erase_def)
    moreover have "sv_lookup K (TheVector V) k' = None" if "keysEqual K k k'" for k'
      using same_key [OF that, of "TheVector V"] None by metis
    ultimately show ?thesis using that assms None by simp
  next
    case (Some y)
    define A where "A = take i (TheVector V)"
    define C where "C = drop (i + 1) (TheVector V)"
    from i Some have lt: "i < length (TheVector V)" and y: "TheVector V ! i = y" by auto
    have xs: "TheVector V = A @ y # C" using id_take_nth_drop [OF lt] y by (simp add: A_def C_def)
    have key: "keysEqual K (key_of K y) k" using Some by (auto simp: sv_lookup_def find_Some_iff)
    have eq: "sv_erase K V k = Some (1, V\<lparr>TheVector := A @ C\<rparr>)"
      using i lt idle by (simp add: sv_erase_def sv_erase_at_def A_def C_def)
    have inv: "sv_inv K (V\<lparr>TheVector := A @ C\<rparr>)"
      using idle sorted_wrt_erase [OF sorted, of i "i + 1"] by (simp add: sv_inv_def A_def C_def)
    have "(\<forall>a \<in> set A. compareElements K a y) \<and> (\<forall>c \<in> set C. compareElements K y c)"
      using sorted unfolding xs by (simp add: sorted_wrt_append)
    then have dist: "\<And>z. z \<in> set A \<union> set C \<Longrightarrow> \<not> elementsEqual K z y"
      by (auto simp: elementsEqual_def keysEqual_def compareElements_def)
    have gone: "sv_lookup K (A @ C) k' = None" if "keysEqual K k k'" for k'
    proof -
      have "\<not> keysEqual K (key_of K z) k'" if "z \<in> set (A @ C)" for z
        using dist [of z] that key \<open>keysEqual K k k'\<close> keysEqual_trans keysEqual_sym
        unfolding elementsEqual_def set_append by blast
      then show ?thesis unfolding sv_lookup_def find_None_iff by blast
    qed
    have "keysEqual K (key_of K y) k' \<longleftrightarrow> keysEqual K k k'" for k'
      using key keysEqual_trans keysEqual_sym by blast
    then have "\<forall>k'. sv_lookup K (A @ C) k' = (if keysEqual K k k' then None else sv_lookup K (TheVector V) k')"
      unfolding xs using gone lookup_insert [OF dist] by simp
    then show ?thesis using that [OF eq inv] Some by simp
  qed
qed

end

section \<open>Instances\<close>

interpretation identity_keys: keyed_object "IdentityKeyedObjectTraits :: ('a::linorder, 'a) KeyedObjectTraits"
  by unfold_locales (auto simp: IdentityKeyedObjectTraits_def)

text \<open>
  The edges of a serialised graph, keyed by the neighbour
  (src/include/revng/ADT/SerializableGraph.h, for nodes that are their own key); the default
  label and the effect of moving a label onto itself are parameters.
\<close>

record ('k, 'l) SerializableEdge =
  Neighbor :: 'k
  Label :: 'l

definition SerializableEdgeTraits ::
  "'l \<Rightarrow> ('l \<Rightarrow> 'l) \<Rightarrow> (('k::linorder, 'l) SerializableEdge, 'k) KeyedObjectTraits" where
  "SerializableEdgeTraits DefaultLabel move_label =
     \<lparr>key_of = Neighbor, fromKey = (\<lambda>Key. \<lparr>Neighbor = Key, Label = DefaultLabel\<rparr>), Compare = (<),
      self_move = (\<lambda>Edge. Edge\<lparr>Label := move_label (Label Edge)\<rparr>)\<rparr>"

interpretation edge_keys: keyed_object "SerializableEdgeTraits DefaultLabel move_label"
  by unfold_locales (auto simp: SerializableEdgeTraits_def)

text \<open>Definitions that evaluate the container on concrete keys.\<close>

lemmas sv_eval = sv_inv_def sv_lookup_def keysEqual_def compareKeys_def compareElements_def
  elementsEqual_def IdentityKeyedObjectTraits_def SerializableEdgeTraits_def

section \<open>Properties\<close>

text \<open>
  \<^bold>\<open>C19\<close>. Lookups by bisection agree with a linear scan. In a vector that satisfies the
  invariant, \<^verbatim>\<open>find\<close> returns the position of the element with the key or the end,
  \<^verbatim>\<open>at\<close> returns that element and aborts when there is none, \<^verbatim>\<open>count\<close> and \<^verbatim>\<open>contains\<close> say
  whether there is one, and \<^verbatim>\<open>lower_bound\<close> and \<^verbatim>\<open>upper_bound\<close> count the elements below, and
  not above, the key.
\<close>

theorem sv_lookups_correct:
  assumes "keyed_object K" and "sv_inv K V"
  shows "(\<exists>i. sv_find K V k = Some i \<and>
            (case sv_lookup K (TheVector V) k of
               None \<Rightarrow> i = length (TheVector V)
             | Some x \<Rightarrow> i < length (TheVector V) \<and> TheVector V ! i = x))
     \<and> sv_at K V k = sv_lookup K (TheVector V) k
     \<and> sv_count K V k = Some (if sv_lookup K (TheVector V) k = None then 0 else 1)
     \<and> sv_contains K V k = Some (sv_lookup K (TheVector V) k \<noteq> None)
     \<and> sv_lower_bound K V k = Some (length (filter (\<lambda>x. Compare K (key_of K x) k) (TheVector V)))
     \<and> sv_upper_bound K V k = Some (length (filter (\<lambda>x. \<not> Compare K k (key_of K x)) (TheVector V)))"
  using keyed_object.sv_find_derived [OF assms, of k] keyed_object.sv_bounds_filter [OF assms, of k]
    by blast

theorem sv_lookups_correct_witness:
  "sv_at IdentityKeyedObjectTraits \<lparr>TheVector = [2, 5, 9 :: nat], BatchInsertInProgress = False\<rparr> 5 = Some 5"
proof -
  let ?V = "\<lparr>TheVector = [2, 5, 9 :: nat], BatchInsertInProgress = False\<rparr>"
  have "sv_inv IdentityKeyedObjectTraits ?V" by (simp add: sv_eval)
  from sv_lookups_correct [OF identity_keys.keyed_object_axioms this, of 5]
  show ?thesis by (simp add: sv_eval)
qed

text \<open>
  \<^bold>\<open>C20\<close>. Insertion has the semantics of a map. \<^verbatim>\<open>emplace\<close> keeps the element that already has
  the key, \<^verbatim>\<open>emplace_or_assign\<close> replaces it; both report whether the key was new, return a
  position that holds an element with the key, keep the invariant and leave every other key
  alone.
\<close>

theorem sv_insertion_correct:
  assumes "keyed_object K" and "sv_inv K V"
  shows "(\<exists>i new W. sv_emplace K V x = Some ((i, new), W) \<and> sv_inv K W
        \<and> (new \<longleftrightarrow> sv_lookup K (TheVector V) (key_of K x) = None)
        \<and> i < length (TheVector W) \<and> elementsEqual K (TheVector W ! i) x
        \<and> (\<forall>k. sv_lookup K (TheVector W) k =
             (if new \<and> keysEqual K (key_of K x) k then Some x else sv_lookup K (TheVector V) k)))
     \<and> (\<exists>i new W. sv_emplace_or_assign K V x = Some ((i, new), W) \<and> sv_inv K W
        \<and> (new \<longleftrightarrow> sv_lookup K (TheVector V) (key_of K x) = None)
        \<and> i < length (TheVector W) \<and> TheVector W ! i = x
        \<and> (\<forall>k. sv_lookup K (TheVector W) k =
             (if keysEqual K (key_of K x) k then Some x else sv_lookup K (TheVector V) k)))"
  by (rule conjI; rule keyed_object.sv_emplace_correct [OF assms, of x];
      rule keyed_object.sv_emplace_or_assign_correct [OF assms, of x]; blast)

theorem sv_insertion_correct_witness:
  "\<exists>i W. sv_emplace_or_assign (SerializableEdgeTraits ''d'' id)
     \<lparr>TheVector = [\<lparr>Neighbor = 4 :: nat, Label = ''a''\<rparr>], BatchInsertInProgress = False\<rparr>
     \<lparr>Neighbor = 4, Label = ''b''\<rparr> = Some ((i, False), W)
     \<and> TheVector W ! i = \<lparr>Neighbor = 4, Label = ''b''\<rparr>"
proof -
  let ?V = "\<lparr>TheVector = [\<lparr>Neighbor = 4 :: nat, Label = ''a''\<rparr>], BatchInsertInProgress = False\<rparr>"
  have "sv_inv (SerializableEdgeTraits ''d'' id) ?V" by (simp add: sv_inv_def)
  from sv_insertion_correct [OF edge_keys.keyed_object_axioms this, of "\<lparr>Neighbor = 4, Label = ''b''\<rparr>"]
  show ?thesis by (auto simp: sv_eval)
qed

text \<open>
  \<^bold>\<open>C21\<close>. \<^verbatim>\<open>erase\<close> of a key removes the element with that key, returns how many it removed
  (0 or 1), keeps the invariant and leaves every other key alone.
\<close>

theorem sv_erasure_correct:
  assumes "keyed_object K" and "sv_inv K V"
  shows "\<exists>n W. sv_erase K V k = Some (n, W) \<and> sv_inv K W
     \<and> n = (if sv_lookup K (TheVector V) k = None then 0 else 1)
     \<and> (\<forall>k'. sv_lookup K (TheVector W) k' =
          (if keysEqual K k k' then None else sv_lookup K (TheVector V) k'))"
  using keyed_object.sv_erase_correct [OF assms, of k] by metis

theorem sv_erasure_correct_witness:
  "\<exists>W. sv_erase IdentityKeyedObjectTraits \<lparr>TheVector = [2, 5 :: nat], BatchInsertInProgress = False\<rparr> 5
     = Some (1, W) \<and> sv_lookup IdentityKeyedObjectTraits (TheVector W) 5 = None"
proof -
  let ?V = "\<lparr>TheVector = [2, 5 :: nat], BatchInsertInProgress = False\<rparr>"
  have "sv_inv IdentityKeyedObjectTraits ?V" by (simp add: sv_eval)
  from sv_erasure_correct [OF identity_keys.keyed_object_axioms this, of 5]
  show ?thesis by (auto simp: sv_eval)
qed

text \<open>
  \<^bold>\<open>Fact\<close>. Every operation that changes the vector keeps the invariant: the elements are in
  strictly increasing order of key and no batch is left open.
\<close>

theorem sv_operations_keep_invariant:
  assumes "keyed_object K" and "sv_inv K V"
    and "Some W \<in> {map_option snd (sv_emplace K V x), map_option snd (sv_emplace_or_assign K V x),
           map_option snd (sv_subscript K V k), map_option snd (sv_erase K V k),
           map_option snd (sv_erase_at V i), map_option snd (sv_erase_range V i j),
           map_option snd (sv_erase_if V p), sv_clear V, sv_batch True K V xs, sv_of_range K xs}"
  shows "sv_inv K W"
proof -
  have idle: "\<not> BatchInsertInProgress V" and sorted: "sorted_wrt (compareElements K) (TheVector V)"
    using assms(2) by (simp_all add: sv_inv_def)
  have emplaced: "sv_inv K W" if "map_option snd (sv_emplace K V y) = Some W" for y
    using keyed_object.sv_emplace_correct [OF assms(1,2), of y] that by (metis option.map(2) option.inject snd_conv)
  have subscripted: "sv_inv K W" if "map_option snd (sv_subscript K V k) = Some W"
    using that idle emplaced [of "fromKey K k"] by (auto simp: sv_subscript_def bind_Some_iff split: prod.splits)
  have assigned: "sv_inv K W" if "map_option snd (sv_emplace_or_assign K V x) = Some W"
    using keyed_object.sv_emplace_or_assign_correct [OF assms(1,2), of x] that
    by (metis option.map(2) option.inject snd_conv)
  have erased: "sv_inv K W" if "map_option snd (sv_erase K V k) = Some W"
    using keyed_object.sv_erase_correct [OF assms(1,2), of k] that by (metis option.map(2) option.inject snd_conv)
  have ranges: "sv_inv K W" if "map_option snd (sv_erase_at V i) = Some W \<or> map_option snd (sv_erase_range V i j) = Some W"
    using that idle sorted keyed_object.sorted_wrt_erase [OF assms(1) sorted]
    by (auto simp: sv_erase_at_def sv_erase_range_def sv_inv_def revng_assert_def split: if_splits)
  have filtered: "sv_inv K W" if "map_option snd (sv_erase_if V p) = Some W \<or> sv_clear V = Some W"
    using that idle sorted by (auto simp: sv_erase_if_def sv_clear_def sv_inv_def sorted_wrt_filter)
  have batch: "sv_inv K W" if "sv_batch True K U xs = Some W" "\<not> BatchInsertInProgress U" for U
    using that keyed_object.sv_batch_unique_inv [OF assms(1)] by blast
  have "sv_of_range K xs = sv_batch True K sv_new xs"
    by (simp add: sv_of_range_def sv_batch_eq sv_new_def)
  with assms(3) show ?thesis
    unfolding insert_iff empty_iff
    using emplaced subscripted assigned erased ranges filtered batch [of V] batch [of sv_new] idle
    by (metis SortedVector.select_convs(2) sv_new_def)
qed

theorem sv_operations_keep_invariant_witness:
  "\<exists>W. sv_batch True IdentityKeyedObjectTraits \<lparr>TheVector = [2, 5 :: nat], BatchInsertInProgress = False\<rparr> [3]
     = Some W \<and> sv_inv IdentityKeyedObjectTraits W"
proof -
  let ?V = "\<lparr>TheVector = [2, 5 :: nat], BatchInsertInProgress = False\<rparr>"
  have inv: "sv_inv IdentityKeyedObjectTraits ?V" by (simp add: sv_eval)
  have "keys_distinct IdentityKeyedObjectTraits (TheVector ?V @ [3])" by (simp add: keys_distinct_def sv_eval)
  then obtain W where W: "sv_batch True IdentityKeyedObjectTraits ?V [3] = Some W"
    by (simp add: identity_keys.sv_batch_unique)
  then have "sv_inv IdentityKeyedObjectTraits W"
    using sv_operations_keep_invariant [OF identity_keys.keyed_object_axioms inv, of W _ _ _ _ _ "[3]"] by simp
  with W show ?thesis by blast
qed

text \<open>
  \<^bold>\<open>C18\<close>. A batch of \<^verbatim>\<open>insert_or_assign\<close> is equivalent to the single calls in order: for element
  types whose move assignment is harmless when source and target are the same object,
  appending and then sorting stably and keeping the last of each run of equal keys gives the
  same vector as inserting or assigning one by one, and never aborts.
\<close>

theorem sv_batch_is_sequential:
  assumes "keyed_object K" and "sv_inv K V" and "self_move K = (\<lambda>x. x)"
  shows "sv_batch False K V xs = sv_assign_all K V xs
     \<and> (\<exists>W. sv_batch False K V xs = Some W \<and> sv_inv K W)"
proof -
  obtain W where "sv_assign_all K V xs = Some W" "sv_inv K W"
    using keyed_object.sv_assign_all_correct [OF assms(1,2), of xs] by blast
  then show ?thesis using keyed_object.sv_batch_assign [OF assms(1,3,2)] by simp
qed

theorem sv_batch_is_sequential_witness:
  "sv_batch False IdentityKeyedObjectTraits \<lparr>TheVector = [2, 5 :: nat], BatchInsertInProgress = False\<rparr> [3, 2]
     = sv_assign_all IdentityKeyedObjectTraits \<lparr>TheVector = [2, 5], BatchInsertInProgress = False\<rparr> [3, 2]"
proof -
  have "sv_inv IdentityKeyedObjectTraits \<lparr>TheVector = [2, 5 :: nat], BatchInsertInProgress = False\<rparr>"
    by (simp add: sv_eval)
  moreover have "self_move IdentityKeyedObjectTraits = (\<lambda>x :: nat. x)"
    by (simp add: IdentityKeyedObjectTraits_def)
  ultimately show ?thesis
    using sv_batch_is_sequential [OF identity_keys.keyed_object_axioms] by blast
qed

text \<open>
  \<^bold>\<open>Fact\<close>. A batch of \<^verbatim>\<open>insert\<close> aborts exactly when two elements, old or new, have equivalent
  keys; otherwise the vector then holds exactly the old and the new elements and satisfies
  the invariant.
\<close>

theorem sv_batch_insert_rejects_duplicates:
  assumes "keyed_object K" and "\<not> BatchInsertInProgress V"
  shows "(sv_batch True K V xs = None \<longleftrightarrow> \<not> keys_distinct K (TheVector V @ xs))
     \<and> (\<forall>W. sv_batch True K V xs = Some W \<longrightarrow>
          sv_inv K W \<and> set (TheVector W) = set (TheVector V) \<union> set xs)"
  using keyed_object.sv_batch_unique [OF assms, of xs]
    keyed_object.strictly_sorted_iff [OF assms(1)]
    keyed_object.weakly_sorted_stable_sort [OF assms(1)]
    keyed_object.keys_distinct_stable_sort [OF assms(1)]
  by (simp add: sv_inv_def)

theorem sv_batch_insert_rejects_duplicates_witness:
  "sv_batch True IdentityKeyedObjectTraits \<lparr>TheVector = [2, 5 :: nat], BatchInsertInProgress = False\<rparr> [3, 2] = None"
proof -
  let ?V = "\<lparr>TheVector = [2, 5 :: nat], BatchInsertInProgress = False\<rparr>"
  have "\<not> BatchInsertInProgress ?V" by simp
  from sv_batch_insert_rejects_duplicates [OF identity_keys.keyed_object_axioms this, of "[3, 2]"]
  show ?thesis by (auto simp: keys_distinct_def sv_eval)
qed

text \<open>
  \<^bold>\<open>Fact\<close>. What a batch of \<^verbatim>\<open>insert_or_assign\<close> does when the keys are all different: every element
  but the first is move-assigned onto itself, so its value afterwards is whatever the move
  assignment of the element type leaves there.
\<close>

theorem sv_batch_self_moves:
  assumes "keyed_object K" and "\<And>x. key_of K (self_move K x) = key_of K x"
    and "sorted_wrt (compareElements K) (x # xs)"
  shows "sv_of_list K (x # xs)
    = Some \<lparr>TheVector = x # map (self_move K) xs, BatchInsertInProgress = False\<rparr>"
proof -
  obtain ys n where u: "unique_last (self_move K) (elementsEqual K) (x # xs) = (ys, n)" by fastforce
  have "take n ys = x # map (self_move K) xs"
    using unique_last_keep_last [OF u] keyed_object.keep_last_sorted_distinct [OF assms(1,2,3)] by simp
  then show ?thesis
    using u keyed_object.stable_sort_sorted [OF assms(1,3)]
    by (simp add: sv_of_list_def sv_new_def sv_batch_eq sv_sort_def)
qed

theorem sv_batch_self_moves_witness:
  "sv_of_list (SerializableEdgeTraits [] (\<lambda>_. []))
     [\<lparr>Neighbor = 1 :: nat, Label = ''a''\<rparr>, \<lparr>Neighbor = 2, Label = ''b''\<rparr>]
   = Some \<lparr>TheVector = [\<lparr>Neighbor = 1, Label = ''a''\<rparr>, \<lparr>Neighbor = 2, Label = []\<rparr>],
       BatchInsertInProgress = False\<rparr>"
proof -
  let ?K = "SerializableEdgeTraits [] (\<lambda>_. []) :: ((nat, string) SerializableEdge, nat) KeyedObjectTraits"
  let ?a = "\<lparr>Neighbor = 1 :: nat, Label = ''a''\<rparr>" and ?b = "\<lparr>Neighbor = 2 :: nat, Label = ''b''\<rparr>"
  have "\<And>x. key_of ?K (self_move ?K x) = key_of ?K x" by (simp add: SerializableEdgeTraits_def)
  moreover have "sorted_wrt (compareElements ?K) (?a # [?b])" by (simp add: sv_eval)
  ultimately have "sv_of_list ?K (?a # [?b])
      = Some \<lparr>TheVector = ?a # map (self_move ?K) [?b], BatchInsertInProgress = False\<rparr>"
    by (rule sv_batch_self_moves [OF edge_keys.keyed_object_axioms])
  then show ?thesis by (simp add: SerializableEdgeTraits_def)
qed

end
