(* ===== verification/Zip_Map_Iterator.thy ===== *)
theory Zip_Map_Iterator
  imports Revng_Prelude
begin

text \<open>
  \<^verbatim>\<open>ZipMapIterator\<close> (src/include/revng/ADT/ZipMapIterator.h): the simultaneous traversal of two
  containers sorted by the same keys. An inner iterator with its end is the list of the
  elements that are left, a null pointer is \<^term>\<open>None\<close>, and the comparator is a parameter
  \<open>cmp\<close> with results \<open>- 1\<close>, \<open>0\<close> and \<open>1\<close>.
\<close>

subsection \<open>The iterator\<close>

definition DefaultComparator ::
  "('k \<Rightarrow> 'k \<Rightarrow> bool) \<Rightarrow> ('a \<Rightarrow> 'k) \<Rightarrow> ('b \<Rightarrow> 'k) \<Rightarrow> 'a \<Rightarrow> 'b \<Rightarrow> int" where
  "DefaultComparator Less keyL keyR LHS RHS =
     (let LHSKey = keyL LHS; RHSKey = keyR RHS
      in if Less LHSKey RHSKey then - 1 else if Less RHSKey LHSKey then 1 else 0)"

record ('a, 'b) ZipMapIterator =
  Current :: "'a option \<times> 'b option"
  LeftIt :: "'a list"
  RightIt :: "'b list"

definition zip_next ::
  "('a \<Rightarrow> 'b \<Rightarrow> int) \<Rightarrow> ('a, 'b) ZipMapIterator \<Rightarrow> ('a, 'b) ZipMapIterator checked" where
  "zip_next cmp It =
     (case (LeftIt It, RightIt It) of
        (l # ls, r # rs) \<Rightarrow>
          (if cmp l r = 0 then Some \<lparr>Current = (Some l, Some r), LeftIt = ls, RightIt = rs\<rparr>
           else if cmp l r = - 1 then Some \<lparr>Current = (Some l, None), LeftIt = ls, RightIt = r # rs\<rparr>
           else if cmp l r = 1 then Some \<lparr>Current = (None, Some r), LeftIt = l # ls, RightIt = rs\<rparr>
           else revng_abort)
      | (l # ls, []) \<Rightarrow> Some \<lparr>Current = (Some l, None), LeftIt = ls, RightIt = []\<rparr>
      | ([], r # rs) \<Rightarrow> Some \<lparr>Current = (None, Some r), LeftIt = [], RightIt = rs\<rparr>
      | ([], []) \<Rightarrow> Some \<lparr>Current = (None, None), LeftIt = [], RightIt = []\<rparr>)"

definition zipmap_begin ::
  "('a \<Rightarrow> 'b \<Rightarrow> int) \<Rightarrow> 'a list \<Rightarrow> 'b list \<Rightarrow> ('a, 'b) ZipMapIterator checked" where
  "zipmap_begin cmp L R = zip_next cmp \<lparr>Current = (None, None), LeftIt = L, RightIt = R\<rparr>"

definition zipmap_end :: "('a \<Rightarrow> 'b \<Rightarrow> int) \<Rightarrow> ('a, 'b) ZipMapIterator checked" where
  "zipmap_end cmp = zip_next cmp \<lparr>Current = (None, None), LeftIt = [], RightIt = []\<rparr>"

text \<open>
  \<^verbatim>\<open>operator==\<close>: the positions and the current pairs are equal. Positions in the same
  containers are equal when as many elements are left; pointers to elements of the same
  container, when the positions are.
\<close>

definition zip_equal :: "('a, 'b) ZipMapIterator \<Rightarrow> ('a, 'b) ZipMapIterator \<Rightarrow> bool" where
  "zip_equal It Other \<longleftrightarrow>
     length (LeftIt It) = length (LeftIt Other) \<and> length (RightIt It) = length (RightIt Other)
     \<and> (fst (Current It) = None \<longleftrightarrow> fst (Current Other) = None)
     \<and> (snd (Current It) = None \<longleftrightarrow> snd (Current Other) = None)"

text \<open>A range-based \<^verbatim>\<open>for\<close> over \<^verbatim>\<open>zipmap_range\<close>: the pairs it visits.\<close>

definition zip_left :: "('a, 'b) ZipMapIterator \<Rightarrow> nat" where
  "zip_left It = 2 * (length (LeftIt It) + length (RightIt It)) + (if Current It = (None, None) then 0 else 1)"

lemma zip_next_decreases:
  assumes "zipmap_end cmp = Some End" "\<not> zip_equal It End" "zip_next cmp It = Some It'"
  shows "zip_left It' < zip_left It"
proof -
  have End: "End = \<lparr>Current = (None, None), LeftIt = [], RightIt = []\<rparr>"
    using assms(1) by (simp add: zipmap_end_def zip_next_def)
  show ?thesis
  proof (cases "LeftIt It = [] \<and> RightIt It = []")
    case True
    then have "Current It \<noteq> (None, None)" using assms(2) End by (cases "Current It") (auto simp: zip_equal_def)
    with True assms(3) show ?thesis by (auto simp: zip_next_def zip_left_def)
  next
    case False
    with assms(3) show ?thesis
      by (auto simp: zip_next_def zip_left_def split: list.splits if_splits)
  qed
qed

function zipmap_loop ::
  "('a \<Rightarrow> 'b \<Rightarrow> int) \<Rightarrow> ('a, 'b) ZipMapIterator \<Rightarrow> ('a option \<times> 'b option) list checked" where
  "zipmap_loop cmp It = do {
     End \<leftarrow> zipmap_end cmp;
     (if zip_equal It End then Some []
      else do {
        It' \<leftarrow> zip_next cmp It;
        Rest \<leftarrow> zipmap_loop cmp It';
        Some (Current It # Rest) }) }"
  by pat_completeness auto
termination
  by (relation "measure (\<lambda>(_, It). zip_left It)") (auto intro: zip_next_decreases)

declare zipmap_loop.simps [simp del]

definition zipmap_range ::
  "('a \<Rightarrow> 'b \<Rightarrow> int) \<Rightarrow> 'a list \<Rightarrow> 'b list \<Rightarrow> ('a option \<times> 'b option) list checked" where
  "zipmap_range cmp L R = do { It \<leftarrow> zipmap_begin cmp L R; zipmap_loop cmp It }"

section \<open>The traversal as a merge\<close>

text \<open>The key of a visited pair.\<close>

fun pair_key :: "('a \<Rightarrow> 'k) \<Rightarrow> ('b \<Rightarrow> 'k) \<Rightarrow> 'a option \<times> 'b option \<Rightarrow> 'k option" where
  "pair_key kl kr (Some l, _) = Some (kl l)"
| "pair_key kl kr (None, Some r) = Some (kr r)"
| "pair_key kl kr (None, None) = None"

fun zip_merge :: "('a \<Rightarrow> 'b \<Rightarrow> int) \<Rightarrow> 'a list \<Rightarrow> 'b list \<Rightarrow> ('a option \<times> 'b option) list" where
  "zip_merge cmp (l # ls) (r # rs) =
     (if cmp l r = 0 then (Some l, Some r) # zip_merge cmp ls rs
      else if cmp l r = - 1 then (Some l, None) # zip_merge cmp ls (r # rs)
      else (None, Some r) # zip_merge cmp (l # ls) rs)"
| "zip_merge cmp ls [] = map (\<lambda>l. (Some l, None)) ls"
| "zip_merge cmp [] rs = map (\<lambda>r. (None, Some r)) rs"

lemma zip_merge_Nil [simp]: "zip_merge cmp [] rs = map (\<lambda>r. (None, Some r)) rs"
  by (cases rs) simp_all

lemma zipmap_end_eq: "zipmap_end cmp = Some \<lparr>Current = (None, None), LeftIt = [], RightIt = []\<rparr>"
  by (simp add: zipmap_end_def zip_next_def)

lemma zipmap_loop_end: "zipmap_loop cmp \<lparr>Current = (None, None), LeftIt = [], RightIt = []\<rparr> = Some []"
  by (simp add: zipmap_loop.simps zipmap_end_eq zip_equal_def)

lemma zipmap_loop_next:
  "c \<noteq> (None, None) \<Longrightarrow>
    zipmap_loop cmp \<lparr>Current = c, LeftIt = ls, RightIt = rs\<rparr> = do {
      It \<leftarrow> zip_next cmp \<lparr>Current = c, LeftIt = ls, RightIt = rs\<rparr>;
      Rest \<leftarrow> zipmap_loop cmp It;
      Some (c # Rest) }"
  by (subst zipmap_loop.simps) (cases c; auto simp: zipmap_end_eq zip_equal_def)

lemma zipmap_loop_eq:
  assumes "\<And>l r. cmp l r \<in> {- 1, 0, 1}" "c \<noteq> (None, None)"
  shows "zipmap_loop cmp \<lparr>Current = c, LeftIt = ls, RightIt = rs\<rparr> = Some (c # zip_merge cmp ls rs)"
  using assms(2)
proof (induction "length ls + length rs" arbitrary: ls rs c rule: less_induct)
  case less
  note step = zipmap_loop_next [OF less.prems] zip_next_def
  show ?case
  proof (cases ls; cases rs)
    fix l ls' r rs'
    assume "ls = l # ls'" "rs = r # rs'"
    then show ?thesis using less.hyps assms(1) [of l r] by (auto simp: step)
  next
    fix l ls'
    assume "ls = l # ls'" "rs = []"
    then show ?thesis using less.hyps [of ls' "[]" "(Some l, None)"] by (simp add: step)
  next
    fix r rs'
    assume "ls = []" "rs = r # rs'"
    then show ?thesis using less.hyps [of "[]" rs' "(None, Some r)"] by (simp add: step)
  next
    assume "ls = []" "rs = []"
    then show ?thesis by (simp add: step zipmap_loop_end)
  qed
qed

lemma zipmap_range_eq:
  assumes "\<And>l r. cmp l r \<in> {- 1, 0, 1}"
  shows "zipmap_range cmp L R = Some (zip_merge cmp L R)"
proof (cases L; cases R)
  fix l ls r rs
  assume "L = l # ls" "R = r # rs"
  then show ?thesis
    using assms [of l r]
    by (auto simp: zipmap_range_def zipmap_begin_def zip_next_def zipmap_loop_eq [OF assms])
qed (simp_all add: zipmap_range_def zipmap_begin_def zip_next_def zipmap_loop_eq [OF assms] zipmap_loop_end)

lemma zip_merge_keys_above:
  fixes kl :: "'a \<Rightarrow> 'k::linorder"
  assumes "\<forall>l \<in> set L. v < kl l" "\<forall>r \<in> set R. v < kr r"
  shows "\<forall>q \<in> set (zip_merge cmp L R). v < the (pair_key kl kr q)"
  using assms by (induction cmp L R rule: zip_merge.induct) auto

text \<open>The left and the right elements of the visited pairs.\<close>

definition lefts :: "('a option \<times> 'b option) list \<Rightarrow> 'a list" where
  "lefts ps = List.map_filter fst ps"

definition rights :: "('a option \<times> 'b option) list \<Rightarrow> 'b list" where
  "rights ps = List.map_filter snd ps"

lemma lefts_rights_simps [simp]:
  "lefts [] = []" "rights [] = []"
  "lefts ((Some l, y) # ps) = l # lefts ps" "lefts ((None, y) # ps) = lefts ps"
  "rights ((x, Some r) # ps) = r # rights ps" "rights ((x, None) # ps) = rights ps"
  by (simp_all add: lefts_def rights_def)

lemma lefts_rights_map [simp]:
  "lefts (map (\<lambda>l. (Some l, None)) ls) = ls" "rights (map (\<lambda>l. (Some l, None)) ls) = []"
  "lefts (map (\<lambda>r. (None, Some r)) rs) = []" "rights (map (\<lambda>r. (None, Some r)) rs) = rs"
  by (induction ls; simp; fail | induction rs; simp)+

lemma zip_merge_parts: "lefts (zip_merge cmp L R) = L \<and> rights (zip_merge cmp L R) = R"
  by (induction cmp L R rule: zip_merge.induct) auto

lemma default_compare_range: "DefaultComparator Less kl kr l r \<in> {- 1, 0, 1}"
  by (simp add: DefaultComparator_def Let_def)

text \<open>The pairs of a traversal by key: increasing, and both halves of a pair have the key.\<close>

definition zip_ordered :: "('a \<Rightarrow> 'k::linorder) \<Rightarrow> ('b \<Rightarrow> 'k) \<Rightarrow> ('a option \<times> 'b option) list \<Rightarrow> bool" where
  "zip_ordered kl kr ps \<longleftrightarrow>
     sorted_wrt (\<lambda>p q. the (pair_key kl kr p) < the (pair_key kl kr q)) ps
     \<and> list_all (\<lambda>p. case p of (Some l, Some r) \<Rightarrow> kl l = kr r | (None, None) \<Rightarrow> False | _ \<Rightarrow> True) ps"

lemma zip_ordered_Cons:
  "zip_ordered kl kr (p # ps) \<longleftrightarrow>
    (\<forall>q \<in> set ps. the (pair_key kl kr p) < the (pair_key kl kr q))
    \<and> (case p of (Some l, Some r) \<Rightarrow> kl l = kr r | (None, None) \<Rightarrow> False | _ \<Rightarrow> True)
    \<and> zip_ordered kl kr ps"
  unfolding zip_ordered_def sorted_wrt.simps list.pred_inject by blast

lemma zip_merge_ordered:
  fixes kl :: "'a \<Rightarrow> 'k::linorder"
  assumes "sorted_wrt (<) (map kl L)" "sorted_wrt (<) (map kr R)"
    and "cmp = DefaultComparator (<) kl kr"
  shows "zip_ordered kl kr (zip_merge cmp L R)"
  using assms
proof (induction cmp L R rule: zip_merge.induct)
  case (1 cmp l ls r rs)
  have sorted: "sorted_wrt (<) (map kl ls)" "sorted_wrt (<) (map kr rs)"
      "\<forall>x \<in> set ls. kl l < kl x" "\<forall>y \<in> set rs. kr r < kr y"
    using 1(4,5) by simp_all
  consider (eq) "kl l = kr r" | (lt) "kl l < kr r" | (gt) "kr r < kl l" by force
  then show ?case
  proof cases
    case eq
    then have "cmp l r = 0" using 1(6) by (simp add: DefaultComparator_def Let_def not_less_iff_gr_or_eq)
    moreover from this have "zip_ordered kl kr (zip_merge cmp ls rs)" using 1 sorted by blast
    ultimately show ?thesis
      using eq sorted(3,4) zip_merge_keys_above [of ls "kl l" kl rs kr cmp] by (simp add: zip_ordered_Cons)
  next
    case lt
    then have c: "cmp l r = - 1" using 1(6) by (simp add: DefaultComparator_def Let_def not_less_iff_gr_or_eq)
    then have "zip_ordered kl kr (zip_merge cmp ls (r # rs))" using 1 sorted by simp
    moreover have "\<forall>y \<in> set (r # rs). kl l < kr y" using lt sorted(4) by (auto intro: less_trans)
    ultimately show ?thesis
      using c sorted(3) zip_merge_keys_above [of ls "kl l" kl "r # rs" kr cmp]
      by (simp add: zip_ordered_Cons)
  next
    case gt
    then have c: "cmp l r = 1" using 1(6) by (simp add: DefaultComparator_def Let_def not_less_iff_gr_or_eq)
    then have "zip_ordered kl kr (zip_merge cmp (l # ls) rs)" using 1 sorted by simp
    moreover have "\<forall>x \<in> set (l # ls). kr r < kl x" using gt sorted(3) by (auto intro: less_trans)
    ultimately show ?thesis
      using c sorted(4) zip_merge_keys_above [of "l # ls" "kr r" kl rs kr cmp]
      by (simp add: zip_ordered_Cons)
  qed
next
  case (2 cmp ls)
  then show ?case by (simp add: zip_ordered_def sorted_wrt_map list_all_iff)
next
  case (3 cmp r rs)
  then show ?case by (simp add: zip_ordered_def sorted_wrt_map list_all_iff)
qed

section \<open>Properties\<close>

text \<open>
  \<^bold>\<open>C25\<close>. The simultaneous traversal of two sorted containers. With the default comparator,
  the loop over \<^verbatim>\<open>zipmap_range\<close> ends without reaching the abort in \<^verbatim>\<open>next\<close>; the left halves
  it visits are the left container in order, the right halves the right one; the keys of the
  visited pairs increase strictly, and both halves of a pair have its key: so an element is
  paired exactly when the other container has an element with its key.
\<close>

theorem zipmap_range_correct:
  fixes kl :: "'a \<Rightarrow> 'k::linorder"
  assumes "sorted_wrt (<) (map kl L)" and "sorted_wrt (<) (map kr R)"
  shows "\<exists>ps. zipmap_range (DefaultComparator (<) kl kr) L R = Some ps
     \<and> lefts ps = L \<and> rights ps = R \<and> zip_ordered kl kr ps"
  using zipmap_range_eq [of "DefaultComparator (<) kl kr" L R, OF default_compare_range]
    zip_merge_ordered [OF assms refl] zip_merge_parts by simp

theorem zipmap_range_correct_witness:
  "\<exists>ps. zipmap_range (DefaultComparator (<) id id) [1, 4, 6 :: nat] [2, 4] = Some ps
     \<and> lefts ps = [1, 4, 6] \<and> rights ps = [2, 4] \<and> zip_ordered id id ps"
  using zipmap_range_correct [of id "[1, 4, 6 :: nat]" id "[2, 4]"] by simp

end
