(* ===== verification/Constant_Range_Set.thy ===== *)
theory Constant_Range_Set
  imports Zip_Map_Iterator
begin

text \<open>
  \<^verbatim>\<open>ConstantRangeSet\<close> (src/include/revng/ADT/ConstantRangeSet.h): a set of integers of a given
  bit width, as the increasing vector of the values where membership flips, starting from
  "outside". The integers are \<^verbatim>\<open>llvm::APInt\<close>, which is not part of the sources: its
  operations are the fields of a record \<open>A\<close>, and the locale below states what their
  documentation promises, in terms of the width and the unsigned value of an integer.
\<close>

record 'i APInt_ops =
  ap_width :: "'i \<Rightarrow> nat"
  ap_value :: "'i \<Rightarrow> nat"
  ap_new :: "nat \<Rightarrow> nat \<Rightarrow> 'i"
  ap_eq :: "'i \<Rightarrow> 'i \<Rightarrow> bool"
  ap_ult :: "'i \<Rightarrow> 'i \<Rightarrow> bool"
  ap_isZero :: "'i \<Rightarrow> bool"
  ap_isMaxValue :: "'i \<Rightarrow> bool"
  ap_inc :: "'i \<Rightarrow> 'i"
  ap_add :: "'i \<Rightarrow> 'i \<Rightarrow> 'i"
  ap_sub :: "'i \<Rightarrow> 'i \<Rightarrow> 'i"
  ap_zext :: "'i \<Rightarrow> nat \<Rightarrow> 'i"
  ap_sext :: "'i \<Rightarrow> nat \<Rightarrow> 'i"
  ap_trunc :: "'i \<Rightarrow> nat \<Rightarrow> 'i"
  ap_getHighBitsSet :: "nat \<Rightarrow> nat \<Rightarrow> 'i"

text \<open>The answers of an \<^verbatim>\<open>llvm::ConstantRange\<close> to the queries of the constructor.\<close>

record 'i ConstantRange =
  cr_width :: nat
  cr_isFullSet :: bool
  cr_isEmptySet :: bool
  cr_isWrappedSet :: bool
  cr_getLower :: 'i
  cr_getUpper :: 'i

subsection \<open>The set\<close>

record 'i ConstantRangeSet =
  Bounds :: "'i list"
  BitWidth :: nat

definition APIntVectorKeyContainer_compare :: "'i APInt_ops \<Rightarrow> 'i \<Rightarrow> 'i \<Rightarrow> int" where
  "APIntVectorKeyContainer_compare A LHS RHS =
     (if ap_eq A LHS RHS then 0 else if ap_ult A LHS RHS then - 1 else 1)"

definition crs_default :: "'i ConstantRangeSet" where
  "crs_default = \<lparr>Bounds = [], BitWidth = 0\<rparr>"

definition crs_new :: "'i APInt_ops \<Rightarrow> nat \<Rightarrow> bool \<Rightarrow> 'i ConstantRangeSet" where
  "crs_new A Width IsFullSet =
     \<lparr>Bounds = (if IsFullSet then [ap_new A Width 0] else []), BitWidth = Width\<rparr>"

definition crs_of_range :: "'i APInt_ops \<Rightarrow> 'i ConstantRange \<Rightarrow> 'i ConstantRangeSet" where
  "crs_of_range A CR =
     \<lparr>Bounds =
        (if cr_isFullSet CR then [ap_new A (cr_width CR) 0]
         else if cr_isEmptySet CR then []
         else if cr_isWrappedSet CR
         then [ap_new A (cr_width CR) 0, cr_getUpper CR, cr_getLower CR]
         else cr_getLower CR #
              (if \<not> ap_eq A (cr_getUpper CR) (ap_new A (cr_width CR) 0)
               then [cr_getUpper CR] else [])),
      BitWidth = cr_width CR\<rparr>"

definition crs_isFullSet :: "'i APInt_ops \<Rightarrow> 'i ConstantRangeSet \<Rightarrow> bool" where
  "crs_isFullSet A S \<longleftrightarrow> length (Bounds S) = 1 \<and> ap_isZero A (hd (Bounds S))"

definition crs_isEmptySet :: "'i ConstantRangeSet \<Rightarrow> bool" where
  "crs_isEmptySet S \<longleftrightarrow> length (Bounds S) = 0"

definition crs_complement :: "'i APInt_ops \<Rightarrow> 'i ConstantRangeSet \<Rightarrow> 'i ConstantRangeSet" where
  "crs_complement A S =
     (if crs_isEmptySet S then crs_new A (BitWidth S) True
      else if ap_isZero A (hd (Bounds S)) then S\<lparr>Bounds := tl (Bounds S)\<rparr>
      else S\<lparr>Bounds := ap_new A (BitWidth S) 0 # Bounds S\<rparr>)"

text \<open>
  The loop of \<^verbatim>\<open>merge\<close> over the zipped bounds, with its three flags; the result is the list
  of the bounds pushed.
\<close>

fun crs_merge_loop ::
  "'i APInt_ops \<Rightarrow> bool \<Rightarrow> nat \<Rightarrow> bool \<Rightarrow> bool \<Rightarrow> bool \<Rightarrow> ('i option \<times> 'i option) list \<Rightarrow> 'i list checked" where
  "crs_merge_loop A And Width LastOutput LeftActive RightActive [] = Some []"
| "crs_merge_loop A And Width LastOutput LeftActive RightActive ((L, R) # Ps) = do {
     revng_assert (case L of None \<Rightarrow> True | Some l \<Rightarrow> ap_width A l = Width);
     let LeftActive' = (if L \<noteq> None then \<not> LeftActive else LeftActive);
     revng_assert (case R of None \<Rightarrow> True | Some r \<Rightarrow> ap_width A r = Width);
     let RightActive' = (if R \<noteq> None then \<not> RightActive else RightActive);
     Value \<leftarrow> (if L = None then R else L);
     let NewOutput = (if And then LeftActive' \<and> RightActive' else LeftActive' \<or> RightActive');
     Rest \<leftarrow> crs_merge_loop A And Width NewOutput LeftActive' RightActive' Ps;
     Some (if NewOutput \<noteq> LastOutput then Value # Rest else Rest) }"

definition crs_merge ::
  "'i APInt_ops \<Rightarrow> bool \<Rightarrow> 'i ConstantRangeSet \<Rightarrow> 'i ConstantRangeSet \<Rightarrow> 'i ConstantRangeSet checked" where
  "crs_merge A And S Other = do {
     let ResultBitWidth = max (BitWidth S) (BitWidth Other);
     revng_assert (BitWidth S = 0 \<or> BitWidth Other = 0 \<or> BitWidth S = BitWidth Other);
     Ps \<leftarrow> zipmap_range (APIntVectorKeyContainer_compare A) (Bounds S) (Bounds Other);
     Bs \<leftarrow> crs_merge_loop A And ResultBitWidth False False False Ps;
     Some \<lparr>Bounds = Bs, BitWidth = ResultBitWidth\<rparr> }"

definition crs_unionWith ::
  "'i APInt_ops \<Rightarrow> 'i ConstantRangeSet \<Rightarrow> 'i ConstantRangeSet \<Rightarrow> 'i ConstantRangeSet checked" where
  "crs_unionWith A S Other = crs_merge A False S Other"

definition crs_intersectWith ::
  "'i APInt_ops \<Rightarrow> 'i ConstantRangeSet \<Rightarrow> 'i ConstantRangeSet \<Rightarrow> 'i ConstantRangeSet checked" where
  "crs_intersectWith A S Other = crs_merge A True S Other"

definition crs_equal :: "'i APInt_ops \<Rightarrow> 'i ConstantRangeSet \<Rightarrow> 'i ConstantRangeSet \<Rightarrow> bool" where
  "crs_equal A S Other \<longleftrightarrow> list_all2 (ap_eq A) (Bounds S) (Bounds Other)"

definition crs_contains ::
  "'i APInt_ops \<Rightarrow> 'i ConstantRangeSet \<Rightarrow> 'i ConstantRangeSet \<Rightarrow> bool checked" where
  "crs_contains A S Other = do { I \<leftarrow> crs_intersectWith A S Other; Some (crs_equal A I Other) }"

definition crs_setWidth :: "'i ConstantRangeSet \<Rightarrow> nat \<Rightarrow> 'i ConstantRangeSet checked" where
  "crs_setWidth S NewBitWidth =
     (if BitWidth S = 0 then Some (S\<lparr>BitWidth := NewBitWidth\<rparr>)
      else do { revng_assert (BitWidth S = NewBitWidth); Some S })"

text \<open>The loop of \<^verbatim>\<open>size\<close>; \<open>Last\<close> is the open bound, if any.\<close>

fun crs_size_loop :: "'i APInt_ops \<Rightarrow> nat \<Rightarrow> 'i \<Rightarrow> 'i option \<Rightarrow> 'i list \<Rightarrow> 'i \<times> 'i option" where
  "crs_size_loop A SizeBitWidth Size Last [] = (Size, Last)"
| "crs_size_loop A SizeBitWidth Size None (N # Bs) = crs_size_loop A SizeBitWidth Size (Some N) Bs"
| "crs_size_loop A SizeBitWidth Size (Some l) (N # Bs) =
     crs_size_loop A SizeBitWidth (ap_add A Size (ap_zext A (ap_sub A N l) SizeBitWidth)) None Bs"

definition crs_size :: "'i APInt_ops \<Rightarrow> 'i ConstantRangeSet \<Rightarrow> 'i" where
  "crs_size A S =
     (let SizeBitWidth = BitWidth S + 1
      in if length (Bounds S) = 0 then ap_new A SizeBitWidth 0
         else case crs_size_loop A SizeBitWidth (ap_new A SizeBitWidth 0) None (Bounds S) of
                (Size, None) \<Rightarrow> Size
              | (Size, Some l) \<Rightarrow>
                  ap_add A Size (ap_sub A (ap_getHighBitsSet A SizeBitWidth 1) (ap_zext A l SizeBitWidth)))"

definition crs_changeSize ::
  "'i APInt_ops \<Rightarrow> 'i ConstantRangeSet \<Rightarrow> nat \<Rightarrow> bool \<Rightarrow> 'i ConstantRangeSet" where
  "crs_changeSize A S NewSize SignExtend =
     (if NewSize = BitWidth S then S
      else if BitWidth S < NewSize
      then \<lparr>Bounds = map (\<lambda>Bound. if SignExtend then ap_sext A Bound NewSize else ap_zext A Bound NewSize)
                        (Bounds S),
            BitWidth = NewSize\<rparr>
      else \<lparr>Bounds = map (\<lambda>Bound. ap_trunc A Bound NewSize) (Bounds S), BitWidth = NewSize\<rparr>)"

definition crs_zext :: "'i APInt_ops \<Rightarrow> 'i ConstantRangeSet \<Rightarrow> nat \<Rightarrow> 'i ConstantRangeSet checked" where
  "crs_zext A S NewSize = do { revng_assert (BitWidth S \<le> NewSize); Some (crs_changeSize A S NewSize False) }"

definition crs_sext :: "'i APInt_ops \<Rightarrow> 'i ConstantRangeSet \<Rightarrow> nat \<Rightarrow> 'i ConstantRangeSet checked" where
  "crs_sext A S NewSize = do { revng_assert (BitWidth S \<le> NewSize); Some (crs_changeSize A S NewSize True) }"

definition crs_zextOrTrunc :: "'i APInt_ops \<Rightarrow> 'i ConstantRangeSet \<Rightarrow> nat \<Rightarrow> 'i ConstantRangeSet" where
  "crs_zextOrTrunc A S NewSize = crs_changeSize A S NewSize False"

definition crs_sextOrTrunc :: "'i APInt_ops \<Rightarrow> 'i ConstantRangeSet \<Rightarrow> nat \<Rightarrow> 'i ConstantRangeSet" where
  "crs_sextOrTrunc A S NewSize = crs_changeSize A S NewSize True"

subsection \<open>The iterator\<close>

text \<open>\<^verbatim>\<open>NextBound\<close> with \<^verbatim>\<open>End\<close> is the list of the bounds not reached yet.\<close>

record 'i ConstantRangeSetIterator =
  it_Current :: "'i option"
  NextBound :: "'i list"
  ToLast :: bool
  Done :: bool

definition crs_iterator :: "'i list \<Rightarrow> 'i ConstantRangeSetIterator" where
  "crs_iterator Start =
     (case Start of
        [] \<Rightarrow> \<lparr>it_Current = None, NextBound = [], ToLast = False, Done = True\<rparr>
      | b # bs \<Rightarrow> \<lparr>it_Current = Some b, NextBound = bs, ToLast = (bs = []), Done = False\<rparr>)"

definition crs_iterator_next ::
  "'i APInt_ops \<Rightarrow> 'i ConstantRangeSetIterator \<Rightarrow> 'i ConstantRangeSetIterator checked" where
  "crs_iterator_next A It = do {
     revng_assert (\<not> Done It);
     Cur \<leftarrow> it_Current It;
     (if ToLast It \<and> ap_isMaxValue A Cur then Some (It\<lparr>Done := True\<rparr>)
      else let Cur' = ap_inc A Cur; It' = It\<lparr>it_Current := Some Cur'\<rparr>
           in if ToLast It then Some It'
              else case NextBound It of
                     [] \<Rightarrow> None
                   | b # bs \<Rightarrow>
                       (if \<not> ap_eq A Cur' b then Some It'
                        else case bs of
                               [] \<Rightarrow> Some (It'\<lparr>NextBound := [], Done := True\<rparr>)
                             | c # cs \<Rightarrow> Some (It'\<lparr>it_Current := Some c, NextBound := cs, ToLast := (cs = [])\<rparr>))) }"

text \<open>
  The values a loop from \<^verbatim>\<open>begin()\<close> to \<^verbatim>\<open>end()\<close> visits, within a number of steps; \<^term>\<open>None\<close> when
  an assertion fails or the steps are not enough.
\<close>

fun crs_iterate :: "'i APInt_ops \<Rightarrow> nat \<Rightarrow> 'i ConstantRangeSetIterator \<Rightarrow> 'i list checked" where
  "crs_iterate A fuel It =
     (if Done It then Some []
      else case fuel of
             0 \<Rightarrow> None
           | Suc n \<Rightarrow> do {
               Cur \<leftarrow> it_Current It;
               It' \<leftarrow> crs_iterator_next A It;
               Rest \<leftarrow> crs_iterate A n It';
               Some (Cur # Rest) })"

declare crs_iterate.simps [simp del]

section \<open>What the integers promise\<close>

locale apint =
  fixes A :: "'i APInt_ops"
  assumes value_bound: "ap_value A x < 2 ^ ap_width A x"
    and new: "v < 2 ^ w \<Longrightarrow> ap_width A (ap_new A w v) = w \<and> ap_value A (ap_new A w v) = v"
    and eq: "ap_width A x = ap_width A y \<Longrightarrow> ap_eq A x y \<longleftrightarrow> ap_value A x = ap_value A y"
    and ult: "ap_width A x = ap_width A y \<Longrightarrow> ap_ult A x y \<longleftrightarrow> ap_value A x < ap_value A y"
    and isZero: "ap_isZero A x \<longleftrightarrow> ap_value A x = 0"
    and isMaxValue: "ap_isMaxValue A x \<longleftrightarrow> ap_value A x = 2 ^ ap_width A x - 1"
    and inc: "ap_width A (ap_inc A x) = ap_width A x
        \<and> ap_value A (ap_inc A x) = (ap_value A x + 1) mod 2 ^ ap_width A x"
    and add: "ap_width A x = ap_width A y \<Longrightarrow> ap_width A (ap_add A x y) = ap_width A x
        \<and> ap_value A (ap_add A x y) = (ap_value A x + ap_value A y) mod 2 ^ ap_width A x"
    and sub: "ap_width A x = ap_width A y \<Longrightarrow> ap_width A (ap_sub A x y) = ap_width A x
        \<and> ap_value A (ap_sub A x y) = (ap_value A x + 2 ^ ap_width A x - ap_value A y) mod 2 ^ ap_width A x"
    and zext: "ap_width A x \<le> n \<Longrightarrow> ap_width A (ap_zext A x n) = n
        \<and> ap_value A (ap_zext A x n) = ap_value A x"
    and sext: "ap_width A x \<le> n \<Longrightarrow> ap_width A (ap_sext A x n) = n
        \<and> ap_value A (ap_sext A x n) =
          (if 2 ^ ap_width A x \<le> 2 * ap_value A x
           then ap_value A x + (2 ^ n - 2 ^ ap_width A x) else ap_value A x)"
    and trunc: "n \<le> ap_width A x \<Longrightarrow> ap_width A (ap_trunc A x n) = n
        \<and> ap_value A (ap_trunc A x n) = ap_value A x mod 2 ^ n"
    and getHighBitsSet: "0 < n \<Longrightarrow> ap_width A (ap_getHighBitsSet A n 1) = n
        \<and> ap_value A (ap_getHighBitsSet A n 1) = 2 ^ (n - 1)"
begin

lemma new_zero [simp]: "ap_width A (ap_new A w 0) = w" "ap_value A (ap_new A w 0) = 0"
  using new [of 0 w] by simp_all

end

text \<open>Membership: an odd number of flips up to the value.\<close>

definition flipped :: "'i APInt_ops \<Rightarrow> 'i list \<Rightarrow> nat \<Rightarrow> bool" where
  "flipped A bs n \<longleftrightarrow> odd (length (filter (\<lambda>b. ap_value A b \<le> n) bs))"

text \<open>The integers in the set.\<close>

definition crs_set :: "'i APInt_ops \<Rightarrow> 'i ConstantRangeSet \<Rightarrow> nat set" where
  "crs_set A S = {n. n < 2 ^ BitWidth S \<and> flipped A (Bounds S) n}"

definition increasing :: "'i APInt_ops \<Rightarrow> 'i list \<Rightarrow> bool" where
  "increasing A bs \<longleftrightarrow> sorted_wrt (<) (map (ap_value A) bs)"

text \<open>The invariant: bounds increase strictly and have the width of the set.\<close>

definition crs_wf :: "'i APInt_ops \<Rightarrow> 'i ConstantRangeSet \<Rightarrow> bool" where
  "crs_wf A S \<longleftrightarrow> increasing A (Bounds S) \<and> list_all (\<lambda>b. ap_width A b = BitWidth S) (Bounds S)"

lemma flipped_Nil [simp]: "\<not> flipped A [] n"
  by (simp add: flipped_def)

lemma flipped_Cons [simp]: "flipped A (b # bs) n \<longleftrightarrow> (ap_value A b \<le> n) \<noteq> flipped A bs n"
  by (simp add: flipped_def)

lemma increasing_simps [simp]:
  "increasing A []"
  "increasing A (b # bs) \<longleftrightarrow> (\<forall>c \<in> set bs. ap_value A b < ap_value A c) \<and> increasing A bs"
  by (simp_all add: increasing_def)

lemma flipped_below: "(\<forall>b \<in> set bs. n < ap_value A b) \<Longrightarrow> \<not> flipped A bs n"
  by (induction bs) auto

lemma zip_ordered_above:
  "zip_ordered kl kr ps \<Longrightarrow> \<forall>q \<in> set ps. v < the (pair_key kl kr q) \<Longrightarrow>
    (\<forall>l \<in> set (lefts ps). v < kl l) \<and> (\<forall>r \<in> set (rights ps). v < kr r)"
proof (induction ps)
  case (Cons p ps)
  obtain L R where p: "p = (L, R)" by (cases p)
  with Cons show ?case by (cases L; cases R) (auto simp: zip_ordered_Cons)
qed simp

context apint
begin

lemma compare_eq:
  assumes "\<forall>x \<in> set L \<union> set R. ap_width A x = w"
  shows "zip_merge (APIntVectorKeyContainer_compare A) L R =
    zip_merge (DefaultComparator (<) (ap_value A) (ap_value A)) L R"
proof -
  have "APIntVectorKeyContainer_compare A x y = DefaultComparator (<) (ap_value A) (ap_value A) x y"
    if "ap_width A x = w" "ap_width A y = w" for x y
    using that eq [of x y] ult [of x y] by (auto simp: APIntVectorKeyContainer_compare_def DefaultComparator_def Let_def)
  then show ?thesis
    using assms by (induction "DefaultComparator (<) (ap_value A) (ap_value A)" L R rule: zip_merge.induct) auto
qed

lemma compare_range: "APIntVectorKeyContainer_compare A x y \<in> {- 1, 0, 1}"
  by (simp add: APIntVectorKeyContainer_compare_def)

lemma zip_bounds:
  assumes "increasing A L" "increasing A R" "\<forall>x \<in> set L \<union> set R. ap_width A x = w"
  obtains ps where "zipmap_range (APIntVectorKeyContainer_compare A) L R = Some ps"
    "lefts ps = L" "rights ps = R" "zip_ordered (ap_value A) (ap_value A) ps"
proof
  show "zipmap_range (APIntVectorKeyContainer_compare A) L R
      = Some (zip_merge (DefaultComparator (<) (ap_value A) (ap_value A)) L R)"
    using zipmap_range_eq [of "APIntVectorKeyContainer_compare A" L R, OF compare_range]
      compare_eq [OF assms(3)] by simp
qed (use zip_merge_parts [of _ L R] zip_merge_ordered [OF _ _ refl] assms(1,2) in
    \<open>simp_all add: increasing_def\<close>)

lemma merge_loop_correct:
  assumes "zip_ordered (ap_value A) (ap_value A) ps"
    and "\<forall>x \<in> set (lefts ps) \<union> set (rights ps). ap_width A x = w"
    and "out = (if And then la \<and> ra else la \<or> ra)"
  obtains bs where "crs_merge_loop A And w out la ra ps = Some bs"
    "increasing A bs" "set bs \<subseteq> set (lefts ps) \<union> set (rights ps)"
    "\<And>n. out \<noteq> flipped A bs n \<longleftrightarrow>
      (if And then (la \<noteq> flipped A (lefts ps) n) \<and> (ra \<noteq> flipped A (rights ps) n)
       else (la \<noteq> flipped A (lefts ps) n) \<or> (ra \<noteq> flipped A (rights ps) n))"
  using assms
proof (induction ps arbitrary: out la ra thesis)
  case Nil
  then show ?case by simp
next
  case (Cons p ps)
  obtain L R where p: "p = (L, R)" by (cases p)
  define la' where "la' = (if L \<noteq> None then \<not> la else la)"
  define ra' where "ra' = (if R \<noteq> None then \<not> ra else ra)"
  define out' where "out' = (if And then la' \<and> ra' else la' \<or> ra')"
  define v where "v = the (if L = None then R else L)"
  have head: "case (L, R) of (Some l, Some r) \<Rightarrow> ap_value A l = ap_value A r | (None, None) \<Rightarrow> False | _ \<Rightarrow> True"
      "\<forall>q \<in> set ps. the (pair_key (ap_value A) (ap_value A) (L, R)) < the (pair_key (ap_value A) (ap_value A) q)"
    using Cons.prems(2) unfolding p zip_ordered_Cons by blast+
  have v: "(if L = None then R else L) = Some v"
      "\<forall>l. L = Some l \<longrightarrow> ap_value A l = ap_value A v" "\<forall>r. R = Some r \<longrightarrow> ap_value A r = ap_value A v"
      "\<forall>q \<in> set ps. ap_value A v < the (pair_key (ap_value A) (ap_value A) q)"
      "v \<in> set (lefts (p # ps)) \<union> set (rights (p # ps))"
    using head by (cases L; cases R; simp add: p v_def)+
  have ord: "zip_ordered (ap_value A) (ap_value A) ps" using Cons.prems(2) by (simp add: zip_ordered_Cons)
  have above: "\<forall>x \<in> set (lefts ps) \<union> set (rights ps). ap_value A v < ap_value A x"
    using zip_ordered_above [OF ord v(4)] by blast
  have widths: "\<forall>x \<in> set (lefts ps) \<union> set (rights ps). ap_width A x = w"
      "\<forall>l. L = Some l \<longrightarrow> ap_width A l = w" "\<forall>r. R = Some r \<longrightarrow> ap_width A r = w"
    using Cons.prems(3) by (cases L; cases R; simp add: p)+
  obtain bs where bs: "crs_merge_loop A And w out' la' ra' ps = Some bs"
    "increasing A bs" "set bs \<subseteq> set (lefts ps) \<union> set (rights ps)"
    "\<And>n. out' \<noteq> flipped A bs n \<longleftrightarrow>
      (if And then (la' \<noteq> flipped A (lefts ps) n) \<and> (ra' \<noteq> flipped A (rights ps) n)
       else (la' \<noteq> flipped A (lefts ps) n) \<or> (ra' \<noteq> flipped A (rights ps) n))"
    using Cons.IH [OF _ ord widths(1) out'_def] by blast
  define cs where "cs = (if out' \<noteq> out then v # bs else bs)"
  have "crs_merge_loop A And w out la ra (p # ps) = Some cs"
    unfolding p crs_merge_loop.simps Let_def la'_def [symmetric] ra'_def [symmetric]
      out'_def [symmetric] v(1)
    using widths(2,3) bs(1) by (simp add: cs_def revng_assert_bind split: option.split)
  moreover have "increasing A cs" using bs(2,3) above by (auto simp: cs_def)
  moreover have "set cs \<subseteq> set (lefts (p # ps)) \<union> set (rights (p # ps))"
    using bs(3) v(5) by (cases L; cases R) (auto simp: p cs_def)
  moreover have "out \<noteq> flipped A cs n \<longleftrightarrow>
      (if And then (la \<noteq> flipped A (lefts (p # ps)) n) \<and> (ra \<noteq> flipped A (rights (p # ps)) n)
       else (la \<noteq> flipped A (lefts (p # ps)) n) \<or> (ra \<noteq> flipped A (rights (p # ps)) n))" for n
  proof (cases "ap_value A v \<le> n")
    case True
    have "la \<noteq> flipped A (lefts (p # ps)) n \<longleftrightarrow> la' \<noteq> flipped A (lefts ps) n"
      using True v(2) by (cases L) (auto simp: p la'_def)
    moreover have "ra \<noteq> flipped A (rights (p # ps)) n \<longleftrightarrow> ra' \<noteq> flipped A (rights ps) n"
      using True v(3) by (cases R) (auto simp: p ra'_def)
    moreover have "out \<noteq> flipped A cs n \<longleftrightarrow> out' \<noteq> flipped A bs n"
      using True by (auto simp: cs_def)
    ultimately show ?thesis using bs(4) [of n] by presburger
  next
    case False
    have "\<forall>x \<in> set (lefts ps) \<union> set (rights ps). n < ap_value A x"
      using above False by (meson less_trans not_le)
    then have "\<not> flipped A (lefts ps) n" "\<not> flipped A (rights ps) n" "\<not> flipped A bs n"
      using bs(3) by (meson UnCI flipped_below subsetD)+
    note none = this
    have "\<not> flipped A (lefts (p # ps)) n" using False v(2) none(1) by (cases L) (simp_all add: p)
    moreover have "\<not> flipped A (rights (p # ps)) n" using False v(3) none(2) by (cases R) (simp_all add: p)
    moreover have "\<not> flipped A cs n" using False none(3) by (simp add: cs_def)
    ultimately show ?thesis using Cons.prems(4) by simp
  qed
  ultimately show ?case by (rule Cons.prems(1))
qed

end

section \<open>Set semantics\<close>

lemma flipped_head: "increasing A (b # bs) \<Longrightarrow> flipped A (b # bs) (ap_value A b)"
  using flipped_below [of bs "ap_value A b" A] by simp

lemma increasing_flipped_eq:
  assumes "increasing A xs" "increasing A ys" "\<forall>x \<in> set xs \<union> set ys. ap_value A x < m"
    and "\<forall>n < m. flipped A xs n \<longleftrightarrow> flipped A ys n"
  shows "map (ap_value A) xs = map (ap_value A) ys"
  using assms
proof (induction xs arbitrary: ys)
  case Nil
  show ?case
  proof (cases ys)
    case (Cons y ys')
    then show ?thesis using Nil(2-4) flipped_head [of A y ys'] by (simp del: flipped_Cons)
  qed simp
next
  case (Cons x xs)
  show ?case
  proof (cases ys)
    case Nil
    then show ?thesis using Cons.prems flipped_head [of A x xs] by (simp del: flipped_Cons)
  next
    case ys: (Cons y ys')
    have x: "flipped A ys (ap_value A x)" using Cons.prems flipped_head [of A x xs] by (simp del: flipped_Cons)
    have y: "flipped A (x # xs) (ap_value A y)"
      using Cons.prems ys flipped_head [of A y ys'] by (simp del: flipped_Cons)
    have "ap_value A y \<le> ap_value A x"
    proof (rule ccontr)
      assume "\<not> ap_value A y \<le> ap_value A x"
      then have "\<forall>b \<in> set ys. ap_value A x < ap_value A b" using Cons.prems(2) ys by (auto intro: less_trans)
      with x flipped_below show False by blast
    qed
    moreover have "ap_value A x \<le> ap_value A y"
    proof (rule ccontr)
      assume "\<not> ap_value A x \<le> ap_value A y"
      then have "\<forall>b \<in> set (x # xs). ap_value A y < ap_value A b" using Cons.prems(1) by (auto intro: less_trans)
      with y flipped_below show False by blast
    qed
    ultimately have e: "ap_value A x = ap_value A y" by simp
    have "\<forall>n < m. flipped A xs n \<longleftrightarrow> flipped A ys' n"
      using Cons.prems(4) unfolding ys flipped_Cons e by blast
    then have "map (ap_value A) xs = map (ap_value A) ys'"
      using Cons.prems(1-3) ys by (intro Cons.IH) simp_all
    with e ys show ?thesis by simp
  qed
qed

lemma flipped_map: "flipped A xs n \<longleftrightarrow> odd (length (filter (\<lambda>v. v \<le> n) (map (ap_value A) xs)))"
  by (simp add: flipped_def filter_map comp_def)

lemma flipped_cong: "map (ap_value A) xs = map (ap_value A) ys \<Longrightarrow> flipped A xs n = flipped A ys n"
  unfolding flipped_map by (rule arg_cong)

text \<open>The number of members, from the bounds.\<close>

fun bounds_size :: "'i APInt_ops \<Rightarrow> nat \<Rightarrow> 'i list \<Rightarrow> nat" where
  "bounds_size A m [] = 0"
| "bounds_size A m [b] = m - ap_value A b"
| "bounds_size A m (b # c # bs) = (ap_value A c - ap_value A b) + bounds_size A m bs"

lemma card_flipped:
  "increasing A bs \<Longrightarrow> \<forall>b \<in> set bs. ap_value A b < m \<Longrightarrow> card {n. n < m \<and> flipped A bs n} = bounds_size A m bs"
proof (induction A m bs rule: bounds_size.induct)
  case (2 A m b)
  have "{n. n < m \<and> flipped A [b] n} = {ap_value A b..<m}" by auto
  then show ?case by simp
next
  case (3 A m b c bs)
  have after: "\<not> flipped A bs n" if "n < ap_value A c" for n
    using that 3(2) by (intro flipped_below) (auto intro: less_trans)
  have "n < m \<and> flipped A (b # c # bs) n \<longleftrightarrow> ap_value A b \<le> n \<and> n < ap_value A c \<or> n < m \<and> flipped A bs n" for n
    using 3(2,3) after [of n] by (cases "n < ap_value A c") auto
  then have "{n. n < m \<and> flipped A (b # c # bs) n} = {ap_value A b..<ap_value A c} \<union> {n. n < m \<and> flipped A bs n}"
    by (simp only: set_eq_iff Un_iff mem_Collect_eq atLeastLessThan_iff) simp
  moreover have "{ap_value A b..<ap_value A c} \<inter> {n. n < m \<and> flipped A bs n} = {}" using after by auto
  moreover have "card {n. n < m \<and> flipped A bs n} = bounds_size A m bs"
    using 3 by simp
  ultimately show ?case by (simp add: card_Un_disjoint)
qed simp

context apint
begin

lemma complement_correct:
  assumes "crs_wf A S"
  shows "crs_wf A (crs_complement A S) \<and> BitWidth (crs_complement A S) = BitWidth S
    \<and> crs_set A (crs_complement A S) = {n. n < 2 ^ BitWidth S} - crs_set A S"
proof (cases "Bounds S")
  case Nil
  then show ?thesis
    by (auto simp: crs_complement_def crs_isEmptySet_def crs_new_def crs_wf_def crs_set_def)
next
  case (Cons b bs)
  show ?thesis
  proof (cases "ap_value A b = 0")
    case True
    then have "crs_complement A S = S\<lparr>Bounds := bs\<rparr>"
      using Cons by (simp add: crs_complement_def crs_isEmptySet_def isZero)
    then show ?thesis using assms Cons True by (auto simp: crs_wf_def crs_set_def)
  next
    case False
    then have "crs_complement A S = S\<lparr>Bounds := ap_new A (BitWidth S) 0 # b # bs\<rparr>"
      using Cons by (simp add: crs_complement_def crs_isEmptySet_def isZero)
    then show ?thesis using assms Cons False by (auto simp: crs_wf_def crs_set_def)
  qed
qed

lemma merge_correct:
  assumes "crs_wf A S" "crs_wf A T" "BitWidth S = BitWidth T"
  obtains U where "crs_merge A And S T = Some U" "crs_wf A U" "BitWidth U = BitWidth S"
    "crs_set A U = (if And then crs_set A S \<inter> crs_set A T else crs_set A S \<union> crs_set A T)"
proof -
  have w: "\<forall>x \<in> set (Bounds S) \<union> set (Bounds T). ap_width A x = BitWidth S"
    using assms by (auto simp: crs_wf_def list_all_iff)
  obtain ps where ps: "zipmap_range (APIntVectorKeyContainer_compare A) (Bounds S) (Bounds T) = Some ps"
    "lefts ps = Bounds S" "rights ps = Bounds T" "zip_ordered (ap_value A) (ap_value A) ps"
    by (rule zip_bounds [of "Bounds S" "Bounds T" "BitWidth S"]) (use assms w in \<open>simp_all add: crs_wf_def\<close>)
  obtain bs where bs: "crs_merge_loop A And (BitWidth S) False False False ps = Some bs"
    "increasing A bs" "set bs \<subseteq> set (lefts ps) \<union> set (rights ps)"
    "\<And>n. False \<noteq> flipped A bs n \<longleftrightarrow>
      (if And then (False \<noteq> flipped A (lefts ps) n) \<and> (False \<noteq> flipped A (rights ps) n)
       else (False \<noteq> flipped A (lefts ps) n) \<or> (False \<noteq> flipped A (rights ps) n))"
    by (rule merge_loop_correct [OF ps(4), of "BitWidth S" False And False False]) (use w ps(2,3) in simp_all)
  show thesis
  proof (rule that)
    show "crs_merge A And S T = Some \<lparr>Bounds = bs, BitWidth = BitWidth S\<rparr>"
      using ps(1) bs(1) assms(3) by (simp add: crs_merge_def)
    show "crs_wf A \<lparr>Bounds = bs, BitWidth = BitWidth S\<rparr>"
      using bs(2,3) w ps(2,3) by (auto simp: crs_wf_def list_all_iff)
    show "crs_set A \<lparr>Bounds = bs, BitWidth = BitWidth S\<rparr> =
        (if And then crs_set A S \<inter> crs_set A T else crs_set A S \<union> crs_set A T)"
      using bs(4) ps(2,3) assms(3) by (auto simp: crs_set_def)
  qed simp
qed

lemma list_all2_ap_eq:
  assumes "\<forall>x \<in> set xs \<union> set ys. ap_width A x = w"
  shows "list_all2 (ap_eq A) xs ys \<longleftrightarrow> map (ap_value A) xs = map (ap_value A) ys"
  using assms
proof (induction xs arbitrary: ys)
  case (Cons x xs)
  then show ?case using eq [of x "hd ys"] by (cases ys) simp_all
qed simp

lemma equal_correct:
  assumes "crs_wf A S" "crs_wf A T" "BitWidth S = BitWidth T"
  shows "crs_equal A S T \<longleftrightarrow> crs_set A S = crs_set A T"
proof -
  have w: "\<forall>x \<in> set (Bounds S) \<union> set (Bounds T). ap_width A x = BitWidth S"
    using assms by (auto simp: crs_wf_def list_all_iff)
  have "crs_equal A S T \<longleftrightarrow> map (ap_value A) (Bounds S) = map (ap_value A) (Bounds T)"
    unfolding crs_equal_def by (rule list_all2_ap_eq [OF w])
  also have "\<dots> \<longleftrightarrow> (\<forall>n < 2 ^ BitWidth S. flipped A (Bounds S) n \<longleftrightarrow> flipped A (Bounds T) n)"
  proof
    assume "map (ap_value A) (Bounds S) = map (ap_value A) (Bounds T)"
    then show "\<forall>n < 2 ^ BitWidth S. flipped A (Bounds S) n \<longleftrightarrow> flipped A (Bounds T) n"
      using flipped_cong by blast
  next
    assume *: "\<forall>n < 2 ^ BitWidth S. flipped A (Bounds S) n \<longleftrightarrow> flipped A (Bounds T) n"
    have "\<forall>x \<in> set (Bounds S) \<union> set (Bounds T). ap_value A x < 2 ^ BitWidth S"
      using w value_bound by metis
    then show "map (ap_value A) (Bounds S) = map (ap_value A) (Bounds T)"
      using assms(1,2) * by (intro increasing_flipped_eq) (simp_all add: crs_wf_def)
  qed
  also have "\<dots> \<longleftrightarrow> crs_set A S = crs_set A T"
    using assms(3) by (auto simp: crs_set_def)
  finally show ?thesis .
qed

end

section \<open>Size and iteration\<close>

text \<open>The members at least \<open>c\<close>, given the bounds after \<open>c\<close>, which is a member.\<close>

definition members_from :: "'i APInt_ops \<Rightarrow> nat \<Rightarrow> nat \<Rightarrow> 'i list \<Rightarrow> nat list" where
  "members_from A m c bs = filter (\<lambda>n. \<not> flipped A bs n) [c..<m]"

lemma members_from_step:
  assumes "c < m" "\<forall>b \<in> set bs. c < ap_value A b"
  shows "members_from A m c bs = c # members_from A m (c + 1) bs"
  using assms flipped_below [of bs c A] by (simp add: members_from_def upt_conv_Cons)

lemma members_from_last: "ap_value A b \<le> c \<Longrightarrow> members_from A m c [b] = []"
  by (simp add: members_from_def filter_empty_conv)

lemma members_from_skip:
  assumes "increasing A (b # d # cs)" "ap_value A d \<le> m"
  shows "members_from A m (ap_value A b) (b # d # cs) = members_from A m (ap_value A d) cs"
proof -
  have "[ap_value A b..<m] = [ap_value A b..<ap_value A d] @ [ap_value A d..<m]"
    using assms upt_add_eq_append [of "ap_value A b" "ap_value A d" "m - ap_value A d"] by simp
  moreover have "filter (\<lambda>n. \<not> flipped A (b # d # cs) n) [ap_value A b..<ap_value A d] = []"
  proof -
    have "\<not> flipped A cs n" if "n < ap_value A d" for n
      using that assms(1) by (intro flipped_below) (auto intro: less_trans)
    then show ?thesis by (auto simp: filter_empty_conv)
  qed
  moreover have "filter (\<lambda>n. \<not> flipped A (b # d # cs) n) [ap_value A d..<m] = filter (\<lambda>n. \<not> flipped A cs n) [ap_value A d..<m]"
    using assms(1) by (intro filter_cong) auto
  ultimately show ?thesis by (simp only: members_from_def filter_append) simp
qed

lemma bounds_size_le:
  "increasing A bs \<Longrightarrow> \<forall>b \<in> set bs. ap_value A b < m \<Longrightarrow> bounds_size A m bs \<le> m"
  using card_mono [of "{..<m}" "{n. n < m \<and> flipped A bs n}"] by (subst card_flipped [symmetric]) auto

context apint
begin

lemma size_loop_correct:
  assumes "increasing A bs" "\<forall>b \<in> set bs. ap_width A b = w" "ap_width A Size = w + 1"
    and "ap_value A Size + bounds_size A (2 ^ w) bs \<le> 2 ^ w"
    and "final = (case crs_size_loop A (w + 1) Size None bs of
                (Size, None) \<Rightarrow> Size
              | (Size, Some l) \<Rightarrow> ap_add A Size (ap_sub A (ap_getHighBitsSet A (w + 1) 1) (ap_zext A l (w + 1))))"
  shows "ap_value A final = ap_value A Size + bounds_size A (2 ^ w) bs"
  using assms
proof (induction bs arbitrary: Size rule: induct_list012)
  case 1
  then show ?case by simp
next
  case (2 b)
  have b: "ap_value A b < 2 ^ w" using 2(2) value_bound [of b] by simp
  let ?d = "ap_sub A (ap_getHighBitsSet A (w + 1) 1) (ap_zext A b (w + 1))"
  have z: "ap_width A (ap_zext A b (w + 1)) = w + 1" "ap_value A (ap_zext A b (w + 1)) = ap_value A b"
    using zext [of b "w + 1"] 2(2) by simp_all
  have h: "ap_width A (ap_getHighBitsSet A (w + 1) 1) = w + 1" "ap_value A (ap_getHighBitsSet A (w + 1) 1) = 2 ^ w"
    using getHighBitsSet [of "w + 1"] by simp_all
  have "ap_width A ?d = w + 1" and "ap_value A ?d = (2 ^ w - ap_value A b + 2 ^ (w + 1)) mod 2 ^ (w + 1)"
    using sub [of "ap_getHighBitsSet A (w + 1) 1" "ap_zext A b (w + 1)"] z h b by (simp_all add: algebra_simps)
  moreover have "2 ^ w - ap_value A b < 2 ^ (w + 1)"
    by (rule le_less_trans [of _ "2 ^ w"]) simp_all
  ultimately have "ap_width A ?d = w + 1" "ap_value A ?d = 2 ^ w - ap_value A b"
    by (simp_all only: mod_add_self2 mod_less)
  then have "ap_value A (ap_add A Size ?d) = (ap_value A Size + (2 ^ w - ap_value A b)) mod 2 ^ (w + 1)"
    using add [of Size ?d] 2(3) by simp
  also have "\<dots> = ap_value A Size + (2 ^ w - ap_value A b)"
    using le_less_trans [OF 2(4), of "2 ^ (w + 1)"] by (intro mod_less) simp
  finally show ?case using 2(5) by simp
next
  case (3 b c bs)
  have lt: "ap_value A b < ap_value A c" "ap_value A c < 2 ^ w"
    using 3(3,4) value_bound [of c] by simp_all
  let ?d = "ap_zext A (ap_sub A c b) (w + 1)"
  have "ap_width A (ap_sub A c b) = w" "ap_value A (ap_sub A c b) = (ap_value A c - ap_value A b + 2 ^ w) mod 2 ^ w"
    using sub [of c b] 3(4) lt by (simp_all add: Nat.add_diff_assoc2)
  moreover from lt have "ap_value A c - ap_value A b < 2 ^ w" by simp
  ultimately have "ap_width A (ap_sub A c b) = w" "ap_value A (ap_sub A c b) = ap_value A c - ap_value A b"
    by (simp_all only: mod_add_self2 mod_less)
  then have d: "ap_width A ?d = w + 1" "ap_value A ?d = ap_value A c - ap_value A b"
    using zext [of "ap_sub A c b" "w + 1"] by simp_all
  have "ap_value A (ap_add A Size ?d) = (ap_value A Size + (ap_value A c - ap_value A b)) mod 2 ^ (w + 1)"
    and width: "ap_width A (ap_add A Size ?d) = w + 1"
    using add [of Size ?d] 3(5) d by simp_all
  moreover have "(ap_value A Size + (ap_value A c - ap_value A b)) mod 2 ^ (w + 1) = ap_value A Size + (ap_value A c - ap_value A b)"
    using le_less_trans [OF 3(6), of "2 ^ (w + 1)"] by (intro mod_less) simp
  ultimately have s: "ap_value A (ap_add A Size ?d) = ap_value A Size + (ap_value A c - ap_value A b)" by simp
  have "ap_value A final = ap_value A (ap_add A Size ?d) + bounds_size A (2 ^ w) bs"
    using 3(3-7) s width by (intro 3(1)) simp_all
  with s show ?case by simp
qed

lemma iterate_correct:
  assumes "increasing A nb" "\<forall>b \<in> set nb. ap_width A b = w \<and> ap_value A c < ap_value A b"
    and "ap_width A c = w" "2 ^ w - ap_value A c \<le> fuel"
  shows "\<exists>xs. crs_iterate A fuel \<lparr>it_Current = Some c, NextBound = nb, ToLast = (nb = []), Done = False\<rparr> = Some xs
     \<and> map (ap_value A) xs = members_from A (2 ^ w) (ap_value A c) nb"
  using assms
proof (induction fuel arbitrary: c nb)
  case 0
  then show ?case using value_bound [of c] by simp
next
  case (Suc fuel)
  have c: "ap_value A c < 2 ^ w" using Suc.prems(3) value_bound [of c] by simp
  have above: "\<forall>b \<in> set nb. ap_value A c < ap_value A b" using Suc.prems(2) by blast
  note step = members_from_step [OF c above] crs_iterate.simps [of A "Suc fuel"] crs_iterator_next_def
  have inc': "ap_width A (ap_inc A c) = w"
      "ap_value A (ap_inc A c) = (if ap_value A c = 2 ^ w - 1 then 0 else ap_value A c + 1)"
    using inc [of c] Suc.prems(3) c by (auto simp: mod_if)
  have fuel: "2 ^ w - d \<le> fuel" if "ap_value A c < d" for d
    using that Suc.prems(4) by simp
  show ?case
  proof (cases nb)
    case Nil
    show ?thesis
    proof (cases "ap_value A c = 2 ^ w - 1")
      case True
      then have "members_from A (2 ^ w) (ap_value A c + 1) [] = []" by (simp add: members_from_def)
      then have "members_from A (2 ^ w) (ap_value A c) nb = [ap_value A c]" using step(1) Nil by simp
      moreover have "ap_isMaxValue A c" using True Suc.prems(3) by (simp add: isMaxValue)
      ultimately show ?thesis
        using Nil by (simp add: step(2,3) crs_iterate.simps [of A fuel])
    next
      case False
      obtain xs where "crs_iterate A fuel \<lparr>it_Current = Some (ap_inc A c), NextBound = [], ToLast = True, Done = False\<rparr> = Some xs"
          "map (ap_value A) xs = members_from A (2 ^ w) (ap_value A c + 1) []"
        using Suc.IH [of "[]" "ap_inc A c"] inc' False fuel [of "ap_value A c + 1"] by auto
      with False Nil Suc.prems(3) step(1) show ?thesis by (simp add: step(2,3) isMaxValue)
    qed
  next
    case (Cons b bs)
    have b: "ap_width A b = w" "ap_value A c < ap_value A b" "ap_value A b < 2 ^ w" "increasing A (b # bs)"
      using Suc.prems(1,2) Cons value_bound [of b] by simp_all
    then have i: "ap_value A (ap_inc A c) = ap_value A c + 1" using inc'(2) by simp
    have eqb: "ap_eq A (ap_inc A c) b \<longleftrightarrow> ap_value A c + 1 = ap_value A b"
      using eq [of "ap_inc A c" b] inc'(1) b(1) i by simp
    have "ap_value A c + 1 < ap_value A b \<or> ap_value A c + 1 = ap_value A b" using b(2) by linarith
    then consider (far) "ap_value A c + 1 < ap_value A b" | (last) "ap_value A c + 1 = ap_value A b" "bs = []"
      | (jump) d cs where "ap_value A c + 1 = ap_value A b" "bs = d # cs"
      by (cases bs) blast+
    then show ?thesis
    proof cases
      case far
      have rest: "\<forall>x \<in> set nb. ap_width A x = w \<and> ap_value A (ap_inc A c) < ap_value A x"
        using far i Cons Suc.prems(2) b(4) by (auto intro: less_trans)
      obtain xs where "crs_iterate A fuel \<lparr>it_Current = Some (ap_inc A c), NextBound = nb, ToLast = (nb = []), Done = False\<rparr> = Some xs"
          "map (ap_value A) xs = members_from A (2 ^ w) (ap_value A c + 1) nb"
        using Suc.IH [OF Suc.prems(1) rest inc'(1)] fuel [of "ap_value A c + 1"] i by auto
      with far Cons eqb step(1) show ?thesis by (simp add: step(2,3))
    next
      case last
      then have "members_from A (2 ^ w) (ap_value A c + 1) nb = []" using Cons by (simp add: members_from_last)
      with last Cons eqb step(1) show ?thesis by (simp add: step(2,3) crs_iterate.simps [of A fuel])
    next
      case jump
      have d: "ap_width A d = w" "ap_value A c < ap_value A d" "ap_value A d < 2 ^ w"
        using Suc.prems(2) Cons jump(2) value_bound [of d] by simp_all
      have rest: "increasing A cs" "\<forall>x \<in> set cs. ap_width A x = w \<and> ap_value A d < ap_value A x"
        using b(4) jump(2) Suc.prems(2) Cons by simp_all
      obtain xs where "crs_iterate A fuel \<lparr>it_Current = Some d, NextBound = cs, ToLast = (cs = []), Done = False\<rparr> = Some xs"
          "map (ap_value A) xs = members_from A (2 ^ w) (ap_value A d) cs"
        using Suc.IH [OF rest d(1) fuel [OF d(2)]] by blast
      moreover have "members_from A (2 ^ w) (ap_value A c + 1) nb = members_from A (2 ^ w) (ap_value A d) cs"
        using members_from_skip [of A b d cs "2 ^ w"] b(4) d(3) jump Cons by simp
      ultimately show ?thesis using jump Cons eqb step(1) by (simp add: step(2,3))
    qed
  qed
qed

end

context apint
begin

lemma crs_size_correct:
  assumes "crs_wf A S"
  shows "ap_value A (crs_size A S) = card (crs_set A S)"
proof -
  have w: "\<forall>b \<in> set (Bounds S). ap_width A b = BitWidth S" and inc: "increasing A (Bounds S)"
    using assms by (auto simp: crs_wf_def list_all_iff)
  have lt: "\<forall>b \<in> set (Bounds S). ap_value A b < 2 ^ BitWidth S" using w value_bound by metis
  have card: "card (crs_set A S) = bounds_size A (2 ^ BitWidth S) (Bounds S)"
    unfolding crs_set_def by (rule card_flipped [OF inc lt])
  show ?thesis
  proof (cases "Bounds S = []")
    case True
    then show ?thesis using card by (simp add: crs_size_def)
  next
    case False
    then show ?thesis
      using size_loop_correct [OF inc w, of "ap_new A (BitWidth S + 1) 0"] bounds_size_le [OF inc lt] card
      by (simp add: crs_size_def Let_def)
  qed
qed

lemma crs_iterate_correct:
  assumes "crs_wf A S" "2 ^ BitWidth S \<le> fuel"
  shows "\<exists>xs. crs_iterate A fuel (crs_iterator (Bounds S)) = Some xs
     \<and> map (ap_value A) xs = filter (\<lambda>n. n \<in> crs_set A S) [0..<2 ^ BitWidth S]"
proof (cases "Bounds S")
  case Nil
  then show ?thesis by (simp add: crs_iterator_def crs_iterate.simps crs_set_def)
next
  case (Cons b bs)
  have b: "increasing A bs" "\<forall>x \<in> set bs. ap_width A x = BitWidth S \<and> ap_value A b < ap_value A x"
      "ap_width A b = BitWidth S"
    using assms(1) Cons by (auto simp: crs_wf_def list_all_iff)
  then have lt: "ap_value A b < 2 ^ BitWidth S" using value_bound [of b] by simp
  have "2 ^ BitWidth S - ap_value A b \<le> fuel" using assms(2) by simp
  from iterate_correct [OF b this] obtain xs where
    xs: "crs_iterate A fuel (crs_iterator (Bounds S)) = Some xs"
      "map (ap_value A) xs = members_from A (2 ^ BitWidth S) (ap_value A b) bs"
    using Cons by (auto simp: crs_iterator_def)
  have "[0..<2 ^ BitWidth S] = [0..<ap_value A b] @ [ap_value A b..<2 ^ BitWidth S]"
    using upt_add_eq_append [of 0 "ap_value A b" "2 ^ BitWidth S - ap_value A b"] lt by simp
  moreover have "filter (\<lambda>n. n \<in> crs_set A S) [0..<ap_value A b] = []"
  proof -
    have "\<not> flipped A (b # bs) n" if "n < ap_value A b" for n
      using that b(2) by (intro flipped_below) (auto intro: less_trans)
    then show ?thesis unfolding crs_set_def Cons by (auto simp: filter_empty_conv simp del: flipped_Cons)
  qed
  moreover have "filter (\<lambda>n. n \<in> crs_set A S) [ap_value A b..<2 ^ BitWidth S] = members_from A (2 ^ BitWidth S) (ap_value A b) bs"
    unfolding members_from_def crs_set_def Cons by (intro filter_cong) auto
  ultimately show ?thesis using xs by (simp only: filter_append) simp
qed

lemma crs_zext_correct:
  assumes "crs_wf A S" "BitWidth S \<le> m"
  shows "crs_set A (crs_changeSize A S m False) =
    crs_set A S \<union> (if odd (length (Bounds S)) then {n. 2 ^ BitWidth S \<le> n \<and> n < 2 ^ m} else {})"
proof -
  have w: "\<forall>b \<in> set (Bounds S). ap_width A b = BitWidth S"
    using assms by (auto simp: crs_wf_def list_all_iff)
  have lt: "\<forall>b \<in> set (Bounds S). ap_value A b < 2 ^ BitWidth S" using w value_bound by metis
  have pow: "(2::nat) ^ BitWidth S \<le> 2 ^ m" using assms(2) by (simp add: power_increasing)
  have bounds: "map (ap_value A) (Bounds (crs_changeSize A S m False)) = map (ap_value A) (Bounds S)"
    and width: "BitWidth (crs_changeSize A S m False) = m"
    using w zext assms(2) by (auto simp: crs_changeSize_def)
  have beyond: "flipped A (Bounds S) n \<longleftrightarrow> odd (length (Bounds S))" if "2 ^ BitWidth S \<le> n" for n
  proof -
    have "filter (\<lambda>b. ap_value A b \<le> n) (Bounds S) = Bounds S"
      using that lt by (auto simp: filter_id_conv)
    then show ?thesis by (simp add: flipped_def)
  qed
  have "n < 2 ^ m \<and> flipped A (Bounds S) n \<longleftrightarrow>
      n < 2 ^ BitWidth S \<and> flipped A (Bounds S) n \<or> odd (length (Bounds S)) \<and> 2 ^ BitWidth S \<le> n \<and> n < 2 ^ m" for n
    using beyond [of n] less_le_trans [OF _ pow, of n] by (cases "n < 2 ^ BitWidth S") auto
  then show ?thesis
    unfolding crs_set_def width flipped_cong [OF bounds] by auto
qed

end

section \<open>An instance\<close>

text \<open>Pairs of a width and a number, with the arithmetic written out, satisfy the laws.\<close>

definition pair_value :: "nat \<times> nat \<Rightarrow> nat" where
  "pair_value x = snd x mod 2 ^ fst x"

definition apint_pairs :: "(nat \<times> nat) APInt_ops" where
  "apint_pairs =
     \<lparr>ap_width = fst, ap_value = pair_value, ap_new = Pair,
      ap_eq = (\<lambda>x y. pair_value x = pair_value y), ap_ult = (\<lambda>x y. pair_value x < pair_value y),
      ap_isZero = (\<lambda>x. pair_value x = 0), ap_isMaxValue = (\<lambda>x. pair_value x = 2 ^ fst x - 1),
      ap_inc = (\<lambda>x. (fst x, pair_value x + 1)),
      ap_add = (\<lambda>x y. (fst x, pair_value x + pair_value y)),
      ap_sub = (\<lambda>x y. (fst x, pair_value x + 2 ^ fst x - pair_value y)),
      ap_zext = (\<lambda>x n. (n, pair_value x)),
      ap_sext = (\<lambda>x n. (n, if 2 ^ fst x \<le> 2 * pair_value x
                             then pair_value x + (2 ^ n - 2 ^ fst x) else pair_value x)),
      ap_trunc = (\<lambda>x n. (n, pair_value x)),
      ap_getHighBitsSet = (\<lambda>n k. (n, 2 ^ n - 2 ^ (n - k)))\<rparr>"

lemma apint_pairs_simps [simp]:
  "ap_width apint_pairs x = fst x" "ap_value apint_pairs x = pair_value x"
  "ap_new apint_pairs w v = (w, v)"
  by (simp_all add: apint_pairs_def)

interpretation pairs: apint apint_pairs
proof
  fix x :: "nat \<times> nat" and n :: nat
  assume n: "ap_width apint_pairs x \<le> n"
  have "(2::nat) ^ fst x \<le> 2 ^ n" using n by (simp add: power_increasing)
  moreover have "snd x mod 2 ^ fst x < 2 ^ fst x" by simp
  ultimately have "snd x mod 2 ^ fst x < 2 ^ n" "snd x mod 2 ^ fst x + (2 ^ n - 2 ^ fst x) < 2 ^ n" by linarith+
  then show "ap_width apint_pairs (ap_zext apint_pairs x n) = n \<and> ap_value apint_pairs (ap_zext apint_pairs x n) = ap_value apint_pairs x"
    "ap_width apint_pairs (ap_sext apint_pairs x n) = n
        \<and> ap_value apint_pairs (ap_sext apint_pairs x n) =
          (if 2 ^ ap_width apint_pairs x \<le> 2 * ap_value apint_pairs x
           then ap_value apint_pairs x + (2 ^ n - 2 ^ ap_width apint_pairs x) else ap_value apint_pairs x)"
    by (simp_all add: apint_pairs_def pair_value_def)
next
  fix x :: "nat \<times> nat" and n :: nat
  assume n: "n \<le> ap_width apint_pairs x"
  then show "ap_width apint_pairs (ap_trunc apint_pairs x n) = n
      \<and> ap_value apint_pairs (ap_trunc apint_pairs x n) = ap_value apint_pairs x mod 2 ^ n"
    by (simp add: apint_pairs_def pair_value_def)
next
  fix n :: nat
  assume "0 < n"
  then have "(2::nat) ^ n - 2 ^ (n - 1) = 2 ^ (n - 1)" by (cases n) simp_all
  moreover have "(2::nat) ^ (n - 1) < 2 ^ n" using \<open>0 < n\<close> by simp
  ultimately show "ap_width apint_pairs (ap_getHighBitsSet apint_pairs n 1) = n
      \<and> ap_value apint_pairs (ap_getHighBitsSet apint_pairs n 1) = 2 ^ (n - 1)"
    by (simp add: apint_pairs_def pair_value_def)
qed (simp_all add: apint_pairs_def pair_value_def)

section \<open>Properties\<close>

text \<open>
  \<^bold>\<open>C26\<close>. The operations on range sets are the set operations. For sets of the same width that
  satisfy the invariant, \<^verbatim>\<open>complement\<close>, \<^verbatim>\<open>unionWith\<close> and \<^verbatim>\<open>intersectWith\<close> return without
  reaching an assertion, their results satisfy the invariant, and denote the complement, the
  union and the intersection.
\<close>

theorem crs_set_operations:
  assumes "apint A" and "crs_wf A S" and "crs_wf A T" and "BitWidth S = BitWidth T"
  shows "crs_wf A (crs_complement A S)
     \<and> crs_set A (crs_complement A S) = {n. n < 2 ^ BitWidth S} - crs_set A S
     \<and> (\<exists>U. crs_unionWith A S T = Some U \<and> crs_wf A U \<and> crs_set A U = crs_set A S \<union> crs_set A T)
     \<and> (\<exists>U. crs_intersectWith A S T = Some U \<and> crs_wf A U \<and> crs_set A U = crs_set A S \<inter> crs_set A T)"
proof (intro conjI)
  show "crs_wf A (crs_complement A S)"
    and "crs_set A (crs_complement A S) = {n. n < 2 ^ BitWidth S} - crs_set A S"
    using apint.complement_correct [OF assms(1,2)] by blast+
  show "\<exists>U. crs_unionWith A S T = Some U \<and> crs_wf A U \<and> crs_set A U = crs_set A S \<union> crs_set A T"
    by (rule apint.merge_correct [OF assms, of False]) (auto simp: crs_unionWith_def)
  show "\<exists>U. crs_intersectWith A S T = Some U \<and> crs_wf A U \<and> crs_set A U = crs_set A S \<inter> crs_set A T"
    by (rule apint.merge_correct [OF assms, of True]) (auto simp: crs_intersectWith_def)
qed

theorem crs_set_operations_witness:
  "\<exists>U. crs_unionWith apint_pairs \<lparr>Bounds = [(8, 5), (8, 10)], BitWidth = 8\<rparr>
          \<lparr>Bounds = [(8, 8), (8, 20)], BitWidth = 8\<rparr> = Some U
     \<and> crs_set apint_pairs U = crs_set apint_pairs \<lparr>Bounds = [(8, 5), (8, 10)], BitWidth = 8\<rparr>
          \<union> crs_set apint_pairs \<lparr>Bounds = [(8, 8), (8, 20)], BitWidth = 8\<rparr>"
proof -
  let ?S = "\<lparr>Bounds = [(8, 5), (8, 10)], BitWidth = 8\<rparr> :: (nat \<times> nat) ConstantRangeSet"
  let ?T = "\<lparr>Bounds = [(8, 8), (8, 20)], BitWidth = 8\<rparr> :: (nat \<times> nat) ConstantRangeSet"
  have "crs_wf apint_pairs ?S" "crs_wf apint_pairs ?T" by (simp_all add: crs_wf_def pair_value_def)
  from crs_set_operations [OF pairs.apint_axioms this] show ?thesis by auto
qed

text \<open>
  \<^bold>\<open>Fact\<close>. The representation is canonical: \<^verbatim>\<open>operator==\<close>, which compares the bounds, decides
  equality of the denoted sets, and \<^verbatim>\<open>contains\<close>, which compares an intersection with its
  operand, decides inclusion.
\<close>

theorem crs_canonical:
  assumes "apint A" and "crs_wf A S" and "crs_wf A T" and "BitWidth S = BitWidth T"
  shows "(crs_equal A S T \<longleftrightarrow> crs_set A S = crs_set A T)
     \<and> crs_contains A S T = Some (crs_set A T \<subseteq> crs_set A S)"
proof
  show "crs_equal A S T \<longleftrightarrow> crs_set A S = crs_set A T"
    by (rule apint.equal_correct [OF assms])
  obtain U where U: "crs_merge A True S T = Some U" "crs_wf A U" "BitWidth U = BitWidth S"
    "crs_set A U = (if True then crs_set A S \<inter> crs_set A T else crs_set A S \<union> crs_set A T)"
    by (rule apint.merge_correct [OF assms])
  then show "crs_contains A S T = Some (crs_set A T \<subseteq> crs_set A S)"
    using apint.equal_correct [OF assms(1) U(2) assms(3)] assms(4)
    by (auto simp: crs_contains_def crs_intersectWith_def)
qed

theorem crs_canonical_witness:
  "crs_contains apint_pairs \<lparr>Bounds = [(8, 5)], BitWidth = 8\<rparr> \<lparr>Bounds = [(8, 8), (8, 20)], BitWidth = 8\<rparr>
     = Some (crs_set apint_pairs \<lparr>Bounds = [(8, 8), (8, 20)], BitWidth = 8\<rparr>
         \<subseteq> crs_set apint_pairs \<lparr>Bounds = [(8, 5)], BitWidth = 8\<rparr>)"
proof -
  let ?S = "\<lparr>Bounds = [(8, 5)], BitWidth = 8\<rparr> :: (nat \<times> nat) ConstantRangeSet"
  let ?T = "\<lparr>Bounds = [(8, 8), (8, 20)], BitWidth = 8\<rparr> :: (nat \<times> nat) ConstantRangeSet"
  have "crs_wf apint_pairs ?S" "crs_wf apint_pairs ?T" by (simp_all add: crs_wf_def pair_value_def)
  from crs_canonical [OF pairs.apint_axioms this] show ?thesis by auto
qed



text \<open>
  \<^bold>\<open>Fact\<close>. Zero extension changes the set when its last range is open. \<^verbatim>\<open>zext\<close> extends each
  bound, so a set with an odd number of bounds, whose last range reaches the greatest
  integer of the old width, also gets every integer that only the new width has.
\<close>

theorem crs_zext_open_range:
  assumes "apint A" and "crs_wf A S" and "BitWidth S \<le> m"
  shows "\<exists>U. crs_zext A S m = Some U
     \<and> crs_set A U = crs_set A S \<union>
         (if odd (length (Bounds S)) then {n. 2 ^ BitWidth S \<le> n \<and> n < 2 ^ m} else {})"
  using apint.crs_zext_correct [OF assms] assms(3) by (simp add: crs_zext_def)

theorem crs_zext_open_range_witness:
  "\<exists>U. crs_zext apint_pairs \<lparr>Bounds = [(8, 10)], BitWidth = 8\<rparr> 16 = Some U
     \<and> 300 \<in> crs_set apint_pairs U \<and> 300 \<notin> crs_set apint_pairs \<lparr>Bounds = [(8, 10)], BitWidth = 8\<rparr>"
proof -
  let ?S = "\<lparr>Bounds = [(8, 10)], BitWidth = 8\<rparr> :: (nat \<times> nat) ConstantRangeSet"
  have "crs_wf apint_pairs ?S" by (simp add: crs_wf_def)
  from crs_zext_open_range [OF pairs.apint_axioms this, of 16]
  show ?thesis by (auto simp: crs_set_def)
qed

end
