(* ===== verification/Generic_Graph.thy ===== *)
theory Generic_Graph
  imports Revng_Prelude "HOL-Library.Multiset"
begin

text \<open>
  The graphs of src/include/revng/ADT/GenericGraph.h: \<^verbatim>\<open>ForwardNode\<close>, \<^verbatim>\<open>BidirectionalNode\<close> and the
  owning container \<^verbatim>\<open>GenericGraph\<close>. Nodes are objects reached through pointers, so the state is
  a heap from pointers to node objects; a pointer is a natural number and \<open>0\<close> is the null pointer.
  An edge of a \<^verbatim>\<open>BidirectionalNode\<close> is stored twice, in the successors of its source and in the
  predecessors of its target. The theory shows which operations keep the two copies in step.
\<close>

section \<open>Nodes and edges\<close>

type_synonym ptr = nat

abbreviation (input) nullptr :: ptr where
  "nullptr \<equiv> 0"

record 'l Edge =
  Neighbor :: ptr
  EdgeLabel :: 'l

record ('l, 'd) BidirectionalNode =
  Successors :: "'l Edge list"
  Predecessors :: "'l Edge list"
  NodeData :: 'd

type_synonym ('l, 'd) heap = "ptr \<Rightarrow> ('l, 'd) BidirectionalNode"

section \<open>Vectors\<close>

text \<open>\<^verbatim>\<open>Vector.erase(It)\<close> for the iterator at an index, and the loops that erase the first match.\<close>

definition erase_at :: "nat \<Rightarrow> 'a list \<Rightarrow> 'a list checked" where
  "erase_at i xs = (if i < length xs then Some (take i xs @ drop (Suc i) xs) else None)"

fun erase_first :: "('a \<Rightarrow> bool) \<Rightarrow> 'a list \<Rightarrow> 'a list checked" where
  "erase_first P [] = None"
| "erase_first P (x # xs) = (if P x then Some xs else map_option ((#) x) (erase_first P xs))"

section \<open>Node operations\<close>

definition set_Successors :: "ptr \<Rightarrow> 'l Edge list \<Rightarrow> ('l, 'd) heap \<Rightarrow> ('l, 'd) heap" where
  "set_Successors n Es h = h(n := (h n)\<lparr>Successors := Es\<rparr>)"

definition set_Predecessors :: "ptr \<Rightarrow> 'l Edge list \<Rightarrow> ('l, 'd) heap \<Rightarrow> ('l, 'd) heap" where
  "set_Predecessors n Es h = h(n := (h n)\<lparr>Predecessors := Es\<rparr>)"

definition ForwardNode_addSuccessor :: "ptr \<Rightarrow> ptr \<Rightarrow> 'l \<Rightarrow> ('l, 'd) heap \<Rightarrow> ('l, 'd) heap" where
  "ForwardNode_addSuccessor this NewSuccessor EL h =
     set_Successors this (Successors (h this) @ [\<lparr>Neighbor = NewSuccessor, EdgeLabel = EL\<rparr>]) h"

definition ForwardNode_removeSuccessor :: "ptr \<Rightarrow> nat \<Rightarrow> ('l, 'd) heap \<Rightarrow> ('l, 'd) heap checked" where
  "ForwardNode_removeSuccessor this It h = do {
     Es \<leftarrow> erase_at It (Successors (h this));
     Some (set_Successors this Es h) }"

definition ForwardNode_clearSuccessors :: "ptr \<Rightarrow> ('l, 'd) heap \<Rightarrow> ('l, 'd) heap" where
  "ForwardNode_clearSuccessors this h = set_Successors this [] h"

definition successors_of :: "('l, 'd) heap \<Rightarrow> ptr \<Rightarrow> ptr list" where
  "successors_of h n = map Neighbor (Successors (h n))"

definition predecessors_of :: "('l, 'd) heap \<Rightarrow> ptr \<Rightarrow> ptr list" where
  "predecessors_of h n = map Neighbor (Predecessors (h n))"

definition successorCount :: "('l, 'd) heap \<Rightarrow> ptr \<Rightarrow> nat" where
  "successorCount h n = length (Successors (h n))"

definition predecessorCount :: "('l, 'd) heap \<Rightarrow> ptr \<Rightarrow> nat" where
  "predecessorCount h n = length (Predecessors (h n))"

definition hasSuccessor :: "('l, 'd) heap \<Rightarrow> ptr \<Rightarrow> ptr \<Rightarrow> bool" where
  "hasSuccessor h n S \<longleftrightarrow> List.find (\<lambda>N. Neighbor N = S) (Successors (h n)) \<noteq> None"

definition hasPredecessor :: "('l, 'd) heap \<Rightarrow> ptr \<Rightarrow> ptr \<Rightarrow> bool" where
  "hasPredecessor h n P \<longleftrightarrow> List.find (\<lambda>N. Neighbor N = P) (Predecessors (h n)) \<noteq> None"

definition addSuccessor :: "ptr \<Rightarrow> ptr \<Rightarrow> 'l \<Rightarrow> ('l, 'd) heap \<Rightarrow> ('l, 'd) heap" where
  "addSuccessor this NewSuccessor EL h =
     (let h1 = set_Successors this (Successors (h this) @ [\<lparr>Neighbor = NewSuccessor, EdgeLabel = EL\<rparr>]) h
      in set_Predecessors NewSuccessor
           (Predecessors (h1 NewSuccessor) @ [\<lparr>Neighbor = this, EdgeLabel = EL\<rparr>]) h1)"

definition addPredecessor :: "ptr \<Rightarrow> ptr \<Rightarrow> 'l \<Rightarrow> ('l, 'd) heap \<Rightarrow> ('l, 'd) heap" where
  "addPredecessor this NewPredecessor EL h =
     (let h1 = set_Predecessors this (Predecessors (h this) @ [\<lparr>Neighbor = NewPredecessor, EdgeLabel = EL\<rparr>]) h
      in set_Successors NewPredecessor
           (Successors (h1 NewPredecessor) @ [\<lparr>Neighbor = this, EdgeLabel = EL\<rparr>]) h1)"

text \<open>
  The removals by child iterator compare each edge of the neighbour with a copy of itself whose
  target is \<open>this\<close>; the removals by edge iterator compare it with the inverted edge.
\<close>

definition removePredecessor :: "ptr \<Rightarrow> nat \<Rightarrow> ('l, 'd) heap \<Rightarrow> ('l, 'd) heap checked" where
  "removePredecessor this It h = do {
     E \<leftarrow> at (Predecessors (h this)) It;
     let Predecessor = Neighbor E;
     Es \<leftarrow> erase_first (\<lambda>Edge. Edge\<lparr>Neighbor := this\<rparr> = Edge) (Successors (h Predecessor));
     let h1 = set_Successors Predecessor Es h;
     Es' \<leftarrow> erase_at It (Predecessors (h1 this));
     Some (set_Predecessors this Es' h1) }"

definition removePredecessorEdge :: "ptr \<Rightarrow> nat \<Rightarrow> ('l, 'd) heap \<Rightarrow> ('l, 'd) heap checked" where
  "removePredecessorEdge this It h = do {
     E \<leftarrow> at (Predecessors (h this)) It;
     let Predecessor = Neighbor E;
     let Edge = E\<lparr>Neighbor := this\<rparr>;
     Es \<leftarrow> erase_first (\<lambda>e. Edge = e) (Successors (h Predecessor));
     let h1 = set_Successors Predecessor Es h;
     Es' \<leftarrow> erase_at It (Predecessors (h1 this));
     Some (set_Predecessors this Es' h1) }"

definition removeSuccessor :: "ptr \<Rightarrow> nat \<Rightarrow> ('l, 'd) heap \<Rightarrow> ('l, 'd) heap checked" where
  "removeSuccessor this It h = do {
     E \<leftarrow> at (Successors (h this)) It;
     let Successor = Neighbor E;
     Es \<leftarrow> erase_first (\<lambda>Edge. Edge\<lparr>Neighbor := this\<rparr> = Edge) (Predecessors (h Successor));
     let h1 = set_Predecessors Successor Es h;
     Es' \<leftarrow> erase_at It (Successors (h1 this));
     Some (set_Successors this Es' h1) }"

definition removeSuccessorEdge :: "ptr \<Rightarrow> nat \<Rightarrow> ('l, 'd) heap \<Rightarrow> ('l, 'd) heap checked" where
  "removeSuccessorEdge this It h = do {
     E \<leftarrow> at (Successors (h this)) It;
     let Successor = Neighbor E;
     let Edge = E\<lparr>Neighbor := this\<rparr>;
     Es \<leftarrow> erase_first (\<lambda>e. Edge = e) (Predecessors (h Successor));
     let h1 = set_Predecessors Successor Es h;
     Es' \<leftarrow> erase_at It (Successors (h1 this));
     Some (set_Successors this Es' h1) }"

subsection \<open>The heap after a node operation\<close>

lemma set_Successors_simps [simp]:
  "Successors (set_Successors n Es h m) = (if m = n then Es else Successors (h m))"
  "Predecessors (set_Successors n Es h m) = Predecessors (h m)"
  "NodeData (set_Successors n Es h m) = NodeData (h m)"
  by (simp_all add: set_Successors_def)

lemma set_Predecessors_simps [simp]:
  "Predecessors (set_Predecessors n Es h m) = (if m = n then Es else Predecessors (h m))"
  "Successors (set_Predecessors n Es h m) = Successors (h m)"
  "NodeData (set_Predecessors n Es h m) = NodeData (h m)"
  by (simp_all add: set_Predecessors_def)

lemma erase_at_Some: "erase_at i xs = Some ys \<longleftrightarrow> i < length xs \<and> ys = take i xs @ drop (Suc i) xs"
  by (auto simp: erase_at_def)

lemma at_Some: "at xs i = Some x \<longleftrightarrow> i < length xs \<and> x = xs ! i"
  by (auto simp: at_def)

lemma length_erase_at: "erase_at i xs = Some ys \<Longrightarrow> Suc (length ys) = length xs"
  by (auto simp: erase_at_Some)

lemma removePredecessorEdge_length:
  "removePredecessorEdge this It h = Some h' \<Longrightarrow>
    Suc (length (Predecessors (h' this))) = length (Predecessors (h this))"
  by (auto simp: removePredecessorEdge_def bind_Some_iff Let_def erase_at_Some)

lemma removeSuccessorEdge_length:
  "removeSuccessorEdge this It h = Some h' \<Longrightarrow>
    Suc (length (Successors (h' this))) = length (Successors (h this))"
  by (auto simp: removeSuccessorEdge_def bind_Some_iff Let_def erase_at_Some)

function (sequential) clearPredecessors :: "ptr \<Rightarrow> ('l, 'd) heap \<Rightarrow> ('l, 'd) heap checked" where
  "clearPredecessors this h =
     (if Predecessors (h this) = [] then Some h
      else case removePredecessorEdge this 0 h of
             None \<Rightarrow> None
           | Some h' \<Rightarrow> clearPredecessors this h')"
  by pat_completeness auto

termination clearPredecessors
  by (relation "measure (\<lambda>(this, h). length (Predecessors (h this)))")
    (auto dest: removePredecessorEdge_length)

function (sequential) clearSuccessors :: "ptr \<Rightarrow> ('l, 'd) heap \<Rightarrow> ('l, 'd) heap checked" where
  "clearSuccessors this h =
     (if Successors (h this) = [] then Some h
      else case removeSuccessorEdge this 0 h of
             None \<Rightarrow> None
           | Some h' \<Rightarrow> clearSuccessors this h')"
  by pat_completeness auto

termination clearSuccessors
  by (relation "measure (\<lambda>(this, h). length (Successors (h this)))")
    (auto dest: removeSuccessorEdge_length)

declare clearPredecessors.simps [simp del] clearSuccessors.simps [simp del]

section \<open>The graph\<close>

record ('l, 'd) GenericGraph =
  EntryNode :: ptr
  Nodes :: "ptr list"
  Heap :: "('l, 'd) heap"

datatype graph_error = NullptrNode | UnknownSuccessor | UnknownPredecessor

text \<open>\<^verbatim>\<open>verify\<close>: the second loop checks the successors of a node, then its predecessors.\<close>

fun verify_links :: "ptr set \<Rightarrow> ('l, 'd) heap \<Rightarrow> ptr list \<Rightarrow> graph_error + unit" where
  "verify_links ValidNodes h [] = Inr ()"
| "verify_links ValidNodes h (Node # Rest) =
     (if \<exists>Successor \<in> set (successors_of h Node). Successor \<notin> ValidNodes then Inl UnknownSuccessor
      else if \<exists>Predecessor \<in> set (predecessors_of h Node). Predecessor \<notin> ValidNodes then Inl UnknownPredecessor
      else verify_links ValidNodes h Rest)"

definition verify :: "('l, 'd) GenericGraph \<Rightarrow> graph_error + unit" where
  "verify G =
     (if nullptr \<in> set (Nodes G) then Inl NullptrNode
      else verify_links (set (Nodes G)) (Heap G) (Nodes G))"

fun findNode_loop :: "ptr \<Rightarrow> ptr list \<Rightarrow> nat \<Rightarrow> nat" where
  "findNode_loop NodePtr [] i = i"
| "findNode_loop NodePtr (N # Ns) i = (if N = NodePtr then i else findNode_loop NodePtr Ns (Suc i))"

definition findNode :: "ptr \<Rightarrow> ('l, 'd) GenericGraph \<Rightarrow> nat" where
  "findNode NodePtr G = findNode_loop NodePtr (Nodes G) 0"

definition hasNode :: "ptr \<Rightarrow> ('l, 'd) GenericGraph \<Rightarrow> bool" where
  "hasNode NodePtr G \<longleftrightarrow> findNode NodePtr G \<noteq> length (Nodes G)"

text \<open>\<^verbatim>\<open>addNode\<close> with constructor arguments; \<open>New\<close> is the pointer \<^verbatim>\<open>std::make_unique\<close> returns.\<close>

definition addNode :: "ptr \<Rightarrow> 'd \<Rightarrow> ('l, 'd) GenericGraph \<Rightarrow> ('l, 'd) GenericGraph" where
  "addNode New D G =
     G\<lparr>Nodes := Nodes G @ [New],
       Heap := (Heap G)(New := \<lparr>Successors = [], Predecessors = [], NodeData = D\<rparr>)\<rparr>"

definition insertNode :: "nat \<Rightarrow> ptr \<Rightarrow> 'd \<Rightarrow> ('l, 'd) GenericGraph \<Rightarrow> ('l, 'd) GenericGraph" where
  "insertNode Where New D G =
     G\<lparr>Nodes := take Where (Nodes G) @ New # drop Where (Nodes G),
       Heap := (Heap G)(New := \<lparr>Successors = [], Predecessors = [], NodeData = D\<rparr>)\<rparr>"

definition removeNode :: "ptr \<Rightarrow> ('l, 'd) GenericGraph \<Rightarrow> ('l, 'd) GenericGraph checked" where
  "removeNode NodePtr G = do {
     Ns \<leftarrow> erase_at (findNode NodePtr G) (Nodes G);
     Some (G\<lparr>Nodes := Ns\<rparr>) }"

definition graph_clear :: "('l, 'd) GenericGraph \<Rightarrow> ('l, 'd) GenericGraph" where
  "graph_clear G = G\<lparr>Nodes := []\<rparr>"

definition setEntryNode :: "ptr \<Rightarrow> ('l, 'd) GenericGraph \<Rightarrow> ('l, 'd) GenericGraph" where
  "setEntryNode Entry G = G\<lparr>EntryNode := Entry\<rparr>"

section \<open>The two copies of the edges\<close>

text \<open>Every edge is stored as often in the successors of its source as in the predecessors of its target.\<close>

definition edges_match :: "('l, 'd) heap \<Rightarrow> bool" where
  "edges_match h \<longleftrightarrow> (\<forall>a b l. count (mset (Successors (h a))) \<lparr>Neighbor = b, EdgeLabel = l\<rparr>
     = count (mset (Predecessors (h b))) \<lparr>Neighbor = a, EdgeLabel = l\<rparr>)"

lemma edges_match_count:
  "edges_match h \<Longrightarrow> count (mset (Successors (h a))) \<lparr>Neighbor = b, EdgeLabel = l\<rparr>
     = count (mset (Predecessors (h b))) \<lparr>Neighbor = a, EdgeLabel = l\<rparr>"
  by (simp add: edges_match_def)

lemma edges_match_mem:
  assumes "edges_match h"
  shows "\<lparr>Neighbor = b, EdgeLabel = l\<rparr> \<in> set (Successors (h a)) \<longleftrightarrow>
    \<lparr>Neighbor = a, EdgeLabel = l\<rparr> \<in> set (Predecessors (h b))"
  using edges_match_count [OF assms, of a b l] by (metis count_eq_zero_iff set_mset_mset)

lemma edge_eta: "Neighbor e = b \<Longrightarrow> \<lparr>Neighbor = b, EdgeLabel = EdgeLabel e\<rparr> = e"
  by (cases e) simp

lemma edge_eq_iff: "\<lparr>Neighbor = n, EdgeLabel = l\<rparr> = e \<longleftrightarrow> Neighbor e = n \<and> EdgeLabel e = l"
  by (cases e) auto

lemma edge_retarget: "e\<lparr>Neighbor := n\<rparr> = \<lparr>Neighbor = n, EdgeLabel = EdgeLabel e\<rparr>"
  by (cases e) simp

lemma edges_match_neighbors:
  assumes "edges_match h"
  shows "b \<in> set (successors_of h a) \<longleftrightarrow> a \<in> set (predecessors_of h b)"
proof
  assume "b \<in> set (successors_of h a)"
  then obtain e where e: "e \<in> set (Successors (h a))" "Neighbor e = b" by (auto simp: successors_of_def)
  then have "\<lparr>Neighbor = a, EdgeLabel = EdgeLabel e\<rparr> \<in> set (Predecessors (h b))"
    using edges_match_mem [OF assms, of b "EdgeLabel e" a] edge_eta [OF e(2)] by simp
  then show "a \<in> set (predecessors_of h b)" by (force simp: predecessors_of_def)
next
  assume "a \<in> set (predecessors_of h b)"
  then obtain e where e: "e \<in> set (Predecessors (h b))" "Neighbor e = a" by (auto simp: predecessors_of_def)
  then have "\<lparr>Neighbor = b, EdgeLabel = EdgeLabel e\<rparr> \<in> set (Successors (h a))"
    using edges_match_mem [OF assms, of b "EdgeLabel e" a] edge_eta [OF e(2)] by simp
  then show "b \<in> set (successors_of h a)" by (force simp: successors_of_def)
qed

lemma edges_match_add:
  assumes "edges_match h"
    and "\<And>n. mset (Successors (h' n)) = mset (Successors (h n)) + (if n = a then {#\<lparr>Neighbor = b, EdgeLabel = l\<rparr>#} else {#})"
    and "\<And>n. mset (Predecessors (h' n)) = mset (Predecessors (h n)) + (if n = b then {#\<lparr>Neighbor = a, EdgeLabel = l\<rparr>#} else {#})"
  shows "edges_match h'"
  unfolding edges_match_def assms(2,3) using edges_match_count [OF assms(1)] by simp

lemma edges_match_remove:
  assumes "edges_match h"
    and "\<And>n. mset (Successors (h' n)) = mset (Successors (h n)) - (if n = a then {#\<lparr>Neighbor = b, EdgeLabel = l\<rparr>#} else {#})"
    and "\<And>n. mset (Predecessors (h' n)) = mset (Predecessors (h n)) - (if n = b then {#\<lparr>Neighbor = a, EdgeLabel = l\<rparr>#} else {#})"
  shows "edges_match h'"
  unfolding edges_match_def assms(2,3) using edges_match_count [OF assms(1)] by simp

lemma mset_erase_at: "i < length xs \<Longrightarrow> mset (take i xs @ drop (Suc i) xs) = mset xs - {#xs ! i#}"
  by (subst (3) id_take_nth_drop [of i xs]) simp_all

lemma erase_first_eq: "erase_first (\<lambda>e. x = e) xs = (if x \<in> set xs then Some (remove1 x xs) else None)"
  by (induction xs) auto

lemma erase_first_Some:
  "erase_first P xs = Some ys \<Longrightarrow> \<exists>x \<in> set xs. P x \<and> mset ys = mset xs - {#x#}"
proof (induction xs arbitrary: ys)
  case (Cons a xs)
  show ?case
  proof (cases "P a")
    case False
    then obtain zs where "erase_first P xs = Some zs" "ys = a # zs" using Cons.prems by auto
    with Cons.IH [of zs] show ?thesis by (auto simp: insert_DiffM2 intro!: bexI)
  qed (use Cons.prems in auto)
qed simp

lemma erase_first_None: "erase_first P xs = None \<longleftrightarrow> (\<forall>x \<in> set xs. \<not> P x)"
  by (induction xs) auto

section \<open>The operations keep the copies in step\<close>

lemma addSuccessor_simps [simp]:
  "Successors (addSuccessor this New EL h n) =
     Successors (h n) @ (if n = this then [\<lparr>Neighbor = New, EdgeLabel = EL\<rparr>] else [])"
  "Predecessors (addSuccessor this New EL h n) =
     Predecessors (h n) @ (if n = New then [\<lparr>Neighbor = this, EdgeLabel = EL\<rparr>] else [])"
  "NodeData (addSuccessor this New EL h n) = NodeData (h n)"
  by (simp_all add: addSuccessor_def Let_def)

lemma addPredecessor_eq: "addPredecessor this New EL h = addSuccessor New this EL h"
  by (auto simp: addPredecessor_def addSuccessor_def Let_def set_Predecessors_def set_Successors_def fun_eq_iff)

lemma addSuccessor_match: "edges_match h \<Longrightarrow> edges_match (addSuccessor this New EL h)"
  by (rule edges_match_add [of h _ this New EL]) simp_all

definition removes_edge :: "('l, 'd) heap \<Rightarrow> ptr \<Rightarrow> ptr \<Rightarrow> 'l \<Rightarrow> ('l, 'd) heap \<Rightarrow> bool" where
  "removes_edge h a b l h' \<longleftrightarrow>
     (\<forall>n. mset (Successors (h' n)) = mset (Successors (h n)) - (if n = a then {#\<lparr>Neighbor = b, EdgeLabel = l\<rparr>#} else {#})
        \<and> mset (Predecessors (h' n)) = mset (Predecessors (h n)) - (if n = b then {#\<lparr>Neighbor = a, EdgeLabel = l\<rparr>#} else {#})
        \<and> (n \<noteq> a \<longrightarrow> Successors (h' n) = Successors (h n))
        \<and> (n \<noteq> b \<longrightarrow> Predecessors (h' n) = Predecessors (h n))
        \<and> NodeData (h' n) = NodeData (h n))"

lemma removes_edge_match: "edges_match h \<Longrightarrow> removes_edge h a b l h' \<Longrightarrow> edges_match h'"
  unfolding removes_edge_def by (rule edges_match_remove [of h h' a b l]) simp_all

lemma removeSuccessorEdge_correct:
  assumes "edges_match h" "It < length (Successors (h this))" "E = Successors (h this) ! It"
  shows "\<exists>h'. removeSuccessorEdge this It h = Some h'
    \<and> Successors (h' this) = take It (Successors (h this)) @ drop (Suc It) (Successors (h this))
    \<and> removes_edge h this (Neighbor E) (EdgeLabel E) h'"
proof -
  have "E \<in> set (Successors (h this))" using assms(2,3) by simp
  then have "\<lparr>Neighbor = this, EdgeLabel = EdgeLabel E\<rparr> \<in> set (Predecessors (h (Neighbor E)))"
    using edges_match_mem [OF assms(1), of "Neighbor E" "EdgeLabel E" this] edge_eta [OF refl, of E] by simp
  then have "removeSuccessorEdge this It h = Some (set_Successors this
      (take It (Successors (h this)) @ drop (Suc It) (Successors (h this)))
      (set_Predecessors (Neighbor E) (remove1 \<lparr>Neighbor = this, EdgeLabel = EdgeLabel E\<rparr> (Predecessors (h (Neighbor E)))) h))"
    using assms(2,3) by (simp add: removeSuccessorEdge_def at_def erase_at_def erase_first_eq Let_def edge_retarget)
  moreover have "mset (take It (Successors (h this)) @ drop (Suc It) (Successors (h this)))
      = mset (Successors (h this)) - {#\<lparr>Neighbor = Neighbor E, EdgeLabel = EdgeLabel E\<rparr>#}"
    using mset_erase_at [OF assms(2)] unfolding assms(3) [symmetric] edge_eta [OF refl] by simp
  ultimately show ?thesis by (simp add: removes_edge_def)
qed

lemma removePredecessorEdge_correct:
  assumes "edges_match h" "It < length (Predecessors (h this))" "E = Predecessors (h this) ! It"
  shows "\<exists>h'. removePredecessorEdge this It h = Some h'
    \<and> Predecessors (h' this) = take It (Predecessors (h this)) @ drop (Suc It) (Predecessors (h this))
    \<and> removes_edge h (Neighbor E) this (EdgeLabel E) h'"
proof -
  have "E \<in> set (Predecessors (h this))" using assms(2,3) by simp
  then have "\<lparr>Neighbor = this, EdgeLabel = EdgeLabel E\<rparr> \<in> set (Successors (h (Neighbor E)))"
    using edges_match_mem [OF assms(1), of this "EdgeLabel E" "Neighbor E"] edge_eta [OF refl, of E] by simp
  then have "removePredecessorEdge this It h = Some (set_Predecessors this
      (take It (Predecessors (h this)) @ drop (Suc It) (Predecessors (h this)))
      (set_Successors (Neighbor E) (remove1 \<lparr>Neighbor = this, EdgeLabel = EdgeLabel E\<rparr> (Successors (h (Neighbor E)))) h))"
    using assms(2,3) by (simp add: removePredecessorEdge_def at_def erase_at_def erase_first_eq Let_def edge_retarget)
  moreover have "mset (take It (Predecessors (h this)) @ drop (Suc It) (Predecessors (h this)))
      = mset (Predecessors (h this)) - {#\<lparr>Neighbor = Neighbor E, EdgeLabel = EdgeLabel E\<rparr>#}"
    using mset_erase_at [OF assms(2)] unfolding assms(3) [symmetric] edge_eta [OF refl] by simp
  ultimately show ?thesis by (simp add: removes_edge_def)
qed


text \<open>Clearing one side of a node removes the other copies of these edges and nothing else.\<close>

definition clears_successors :: "('l, 'd) heap \<Rightarrow> ptr \<Rightarrow> ('l, 'd) heap \<Rightarrow> bool" where
  "clears_successors h this h' \<longleftrightarrow> edges_match h' \<and> Successors (h' this) = []
     \<and> (\<forall>n. (n \<noteq> this \<longrightarrow> Successors (h' n) = Successors (h n)) \<and> NodeData (h' n) = NodeData (h n)
          \<and> mset (Predecessors (h' n)) = filter_mset (\<lambda>e. Neighbor e \<noteq> this) (mset (Predecessors (h n))))"

definition clears_predecessors :: "('l, 'd) heap \<Rightarrow> ptr \<Rightarrow> ('l, 'd) heap \<Rightarrow> bool" where
  "clears_predecessors h this h' \<longleftrightarrow> edges_match h' \<and> Predecessors (h' this) = []
     \<and> (\<forall>n. (n \<noteq> this \<longrightarrow> Predecessors (h' n) = Predecessors (h n)) \<and> NodeData (h' n) = NodeData (h n)
          \<and> mset (Successors (h' n)) = filter_mset (\<lambda>e. Neighbor e \<noteq> this) (mset (Successors (h n))))"

lemma no_successors_no_predecessor_copies:
  assumes "edges_match h" "Successors (h this) = []"
  shows "filter_mset (\<lambda>e. Neighbor e \<noteq> this) (mset (Predecessors (h n))) = mset (Predecessors (h n))"
proof -
  have "this \<notin> set (predecessors_of h n)"
    using edges_match_neighbors [OF assms(1), of n this] assms(2) by (simp add: successors_of_def)
  then have "filter (\<lambda>e. Neighbor e \<noteq> this) (Predecessors (h n)) = Predecessors (h n)"
    by (auto simp: predecessors_of_def filter_id_conv)
  then show ?thesis by (metis mset_filter)
qed

lemma no_predecessors_no_successor_copies:
  assumes "edges_match h" "Predecessors (h this) = []"
  shows "filter_mset (\<lambda>e. Neighbor e \<noteq> this) (mset (Successors (h n))) = mset (Successors (h n))"
proof -
  have "this \<notin> set (successors_of h n)"
    using edges_match_neighbors [OF assms(1), of this n] assms(2) by (simp add: predecessors_of_def)
  then have "filter (\<lambda>e. Neighbor e \<noteq> this) (Successors (h n)) = Successors (h n)"
    by (auto simp: successors_of_def filter_id_conv)
  then show ?thesis by (metis mset_filter)
qed

lemma clearSuccessors_correct:
  assumes "edges_match h"
  shows "\<exists>h'. clearSuccessors this h = Some h' \<and> clears_successors h this h'"
  using assms
proof (induction this h rule: clearSuccessors.induct)
  case (1 this h)
  show ?case
  proof (cases "Successors (h this)")
    case Nil
    then show ?thesis
      using 1(2) no_successors_no_predecessor_copies [OF 1(2) Nil]
      by (simp add: clearSuccessors.simps clears_successors_def)
  next
    case (Cons E Es)
    then have ne: "Successors (h this) \<noteq> []" and E: "0 < length (Successors (h this))" "E = Successors (h this) ! 0" by simp_all
    obtain h1 where h1: "removeSuccessorEdge this 0 h = Some h1"
        "removes_edge h this (Neighbor E) (EdgeLabel E) h1"
      using removeSuccessorEdge_correct [OF 1(2) E] by blast
    obtain h' where h': "clearSuccessors this h1 = Some h'" "clears_successors h1 this h'"
      using 1(1) [OF ne h1(1) removes_edge_match [OF 1(2) h1(2)]] by blast
    have "clears_successors h this h'"
      using h1(2) h'(2) by (simp add: clears_successors_def removes_edge_def)
    then show ?thesis using ne h1(1) h'(1) by (simp add: clearSuccessors.simps [of this h])
  qed
qed

lemma clearPredecessors_correct:
  assumes "edges_match h"
  shows "\<exists>h'. clearPredecessors this h = Some h' \<and> clears_predecessors h this h'"
  using assms
proof (induction this h rule: clearPredecessors.induct)
  case (1 this h)
  show ?case
  proof (cases "Predecessors (h this)")
    case Nil
    then show ?thesis
      using 1(2) no_predecessors_no_successor_copies [OF 1(2) Nil]
      by (simp add: clearPredecessors.simps clears_predecessors_def)
  next
    case (Cons E Es)
    then have ne: "Predecessors (h this) \<noteq> []" and E: "0 < length (Predecessors (h this))" "E = Predecessors (h this) ! 0" by simp_all
    obtain h1 where h1: "removePredecessorEdge this 0 h = Some h1"
        "removes_edge h (Neighbor E) this (EdgeLabel E) h1"
      using removePredecessorEdge_correct [OF 1(2) E] by blast
    obtain h' where h': "clearPredecessors this h1 = Some h'" "clears_predecessors h1 this h'"
      using 1(1) [OF ne h1(1) removes_edge_match [OF 1(2) h1(2)]] by blast
    have "clears_predecessors h this h'"
      using h1(2) h'(2) by (simp add: clears_predecessors_def removes_edge_def)
    then show ?thesis using ne h1(1) h'(1) by (simp add: clearPredecessors.simps [of this h])
  qed
qed

section \<open>Removal by child iterator\<close>

lemma erase_first_cong: "(\<And>x. x \<in> set xs \<Longrightarrow> P x \<longleftrightarrow> Q x) \<Longrightarrow> erase_first P xs = erase_first Q xs"
  by (induction xs) simp_all

lemma removePredecessor_eq:
  assumes "E = Predecessors (h this) ! It"
    and "\<forall>e \<in> set (Successors (h (Neighbor E))). Neighbor e = this \<longrightarrow> EdgeLabel e = EdgeLabel E"
  shows "removePredecessor this It h = removePredecessorEdge this It h"
proof -
  have "erase_first (\<lambda>Edge. Edge\<lparr>Neighbor := this\<rparr> = Edge) (Successors (h (Neighbor E)))
      = erase_first (\<lambda>e. E\<lparr>Neighbor := this\<rparr> = e) (Successors (h (Neighbor E)))"
  proof (rule erase_first_cong)
    fix e
    assume "e \<in> set (Successors (h (Neighbor E)))"
    then show "e\<lparr>Neighbor := this\<rparr> = e \<longleftrightarrow> E\<lparr>Neighbor := this\<rparr> = e"
      using assms(2) unfolding edge_retarget edge_eq_iff by auto
  qed
  then show ?thesis
    using assms(1) by (simp add: removePredecessor_def removePredecessorEdge_def at_def Let_def)
qed

lemma removeSuccessor_eq:
  assumes "E = Successors (h this) ! It"
    and "\<forall>e \<in> set (Predecessors (h (Neighbor E))). Neighbor e = this \<longrightarrow> EdgeLabel e = EdgeLabel E"
  shows "removeSuccessor this It h = removeSuccessorEdge this It h"
proof -
  have "erase_first (\<lambda>Edge. Edge\<lparr>Neighbor := this\<rparr> = Edge) (Predecessors (h (Neighbor E)))
      = erase_first (\<lambda>e. E\<lparr>Neighbor := this\<rparr> = e) (Predecessors (h (Neighbor E)))"
  proof (rule erase_first_cong)
    fix e
    assume "e \<in> set (Predecessors (h (Neighbor E)))"
    then show "e\<lparr>Neighbor := this\<rparr> = e \<longleftrightarrow> E\<lparr>Neighbor := this\<rparr> = e"
      using assms(2) unfolding edge_retarget edge_eq_iff by auto
  qed
  then show ?thesis
    using assms(1) by (simp add: removeSuccessor_def removeSuccessorEdge_def at_def Let_def)
qed

section \<open>The invariant of the graph\<close>

definition graph_wf :: "('l, 'd) GenericGraph \<Rightarrow> bool" where
  "graph_wf G \<longleftrightarrow> distinct (Nodes G) \<and> nullptr \<notin> set (Nodes G) \<and> edges_match (Heap G)
     \<and> (\<forall>n. n \<notin> set (Nodes G) \<longrightarrow> Successors (Heap G n) = [] \<and> Predecessors (Heap G n) = [])"

lemma graph_wf_links:
  assumes "graph_wf G"
  shows "set (successors_of (Heap G) n) \<subseteq> set (Nodes G)" "set (predecessors_of (Heap G) n) \<subseteq> set (Nodes G)"
proof -
  have match: "edges_match (Heap G)" using assms by (simp add: graph_wf_def)
  have dead: "m \<in> set (Nodes G)" if "Successors (Heap G m) \<noteq> [] \<or> Predecessors (Heap G m) \<noteq> []" for m
    using assms that by (auto simp: graph_wf_def)
  show "set (successors_of (Heap G) n) \<subseteq> set (Nodes G)"
  proof
    fix m
    assume "m \<in> set (successors_of (Heap G) n)"
    then have "n \<in> set (predecessors_of (Heap G) m)" using edges_match_neighbors [OF match] by simp
    then have "Predecessors (Heap G m) \<noteq> []" by (auto simp: predecessors_of_def)
    then show "m \<in> set (Nodes G)" using dead by blast
  qed
  show "set (predecessors_of (Heap G) n) \<subseteq> set (Nodes G)"
  proof
    fix m
    assume "m \<in> set (predecessors_of (Heap G) n)"
    then have "n \<in> set (successors_of (Heap G) m)" using edges_match_neighbors [OF match] by simp
    then have "Successors (Heap G m) \<noteq> []" by (auto simp: successors_of_def)
    then show "m \<in> set (Nodes G)" using dead by blast
  qed
qed

lemma verify_links_correct:
  "verify_links V h Ns = Inr () \<longleftrightarrow>
    (\<forall>n \<in> set Ns. set (successors_of h n) \<subseteq> V \<and> set (predecessors_of h n) \<subseteq> V)"
  by (induction Ns) auto

lemma verify_correct:
  "verify G = Inr () \<longleftrightarrow> nullptr \<notin> set (Nodes G)
     \<and> (\<forall>n \<in> set (Nodes G). set (successors_of (Heap G) n) \<subseteq> set (Nodes G)
          \<and> set (predecessors_of (Heap G) n) \<subseteq> set (Nodes G))"
  by (simp add: verify_def verify_links_correct)

lemma graph_wf_verify: "graph_wf G \<Longrightarrow> verify G = Inr ()"
  using graph_wf_links [of G] by (simp add: verify_correct graph_wf_def)

lemma findNode_loop_correct:
  "findNode_loop p Ns i = i + length (takeWhile (\<lambda>n. n \<noteq> p) Ns)"
  by (induction Ns arbitrary: i) auto

lemma hasNode_iff: "hasNode p G \<longleftrightarrow> p \<in> set (Nodes G)"
proof -
  have "length (takeWhile (\<lambda>n. n \<noteq> p) Ns) = length Ns \<longleftrightarrow> p \<notin> set Ns" for Ns
    by (induction Ns) auto
  then show ?thesis by (simp add: hasNode_def findNode_def findNode_loop_correct)
qed

lemma removeNode_eq:
  "removeNode p G = (if p \<in> set (Nodes G) then Some (G\<lparr>Nodes := remove1 p (Nodes G)\<rparr>) else None)"
proof -
  have "erase_at (length (takeWhile (\<lambda>n. n \<noteq> p) Ns)) Ns = (if p \<in> set Ns then Some (remove1 p Ns) else None)" for Ns
    by (induction Ns) (auto simp: erase_at_def split: if_splits)
  then show ?thesis by (simp add: removeNode_def findNode_def findNode_loop_correct)
qed

lemma graph_wf_addNode:
  assumes "graph_wf G" "New \<notin> set (Nodes G)" "New \<noteq> nullptr"
  shows "graph_wf (addNode New D G)" "graph_wf (insertNode Where New D G)"
proof -
  have "Successors (((Heap G)(New := \<lparr>Successors = [], Predecessors = [], NodeData = D\<rparr>)) n) = Successors (Heap G n)"
    "Predecessors (((Heap G)(New := \<lparr>Successors = [], Predecessors = [], NodeData = D\<rparr>)) n) = Predecessors (Heap G n)" for n
    using assms by (auto simp: graph_wf_def)
  note same = this
  show "graph_wf (addNode New D G)"
    using assms by (simp add: graph_wf_def addNode_def edges_match_def same del: fun_upd_apply)
  have u: "set (take Where (Nodes G)) \<union> set (drop Where (Nodes G)) = set (Nodes G)"
    by (metis append_take_drop_id set_append)
  have "distinct (take Where (Nodes G) @ drop Where (Nodes G))" using assms(1) by (simp add: graph_wf_def)
  moreover have "New \<notin> set (take Where (Nodes G)) \<union> set (drop Where (Nodes G))" unfolding u by (rule assms(2))
  ultimately have "distinct (take Where (Nodes G) @ New # drop Where (Nodes G))"
    unfolding distinct_append by simp
  moreover have "set (take Where (Nodes G) @ New # drop Where (Nodes G)) = insert New (set (Nodes G))"
    using u by auto
  ultimately show "graph_wf (insertNode Where New D G)"
    using assms unfolding graph_wf_def insertNode_def edges_match_def
    by (simp add: same del: fun_upd_apply distinct_append set_append)
qed

text \<open>The address of a new node: one that no node of the graph has.\<close>

definition fresh_ptr :: "('l, 'd) GenericGraph \<Rightarrow> ptr" where
  "fresh_ptr G = Suc (foldr max (Nodes G) 0)"

lemma fresh_ptr: "fresh_ptr G \<notin> set (Nodes G)" "fresh_ptr G \<noteq> nullptr"
proof -
  have "n \<in> set xs \<Longrightarrow> n \<le> foldr max xs 0" for n and xs :: "nat list" by (induction xs) auto
  then have "Suc (foldr max (Nodes G) 0) \<in> set (Nodes G) \<Longrightarrow> False" by fastforce
  then show "fresh_ptr G \<notin> set (Nodes G)" by (auto simp: fresh_ptr_def)
  show "fresh_ptr G \<noteq> nullptr" by (simp add: fresh_ptr_def)
qed

lemma graph_wf_heap:
  assumes "graph_wf G" "edges_match h'"
    and "\<And>n. n \<notin> set (Nodes G) \<Longrightarrow> Successors (h' n) = [] \<and> Predecessors (h' n) = []"
  shows "graph_wf (G\<lparr>Heap := h'\<rparr>)"
  using assms by (simp add: graph_wf_def)

lemma graph_wf_addSuccessor:
  assumes "graph_wf G" "a \<in> set (Nodes G)" "b \<in> set (Nodes G)"
  shows "graph_wf (G\<lparr>Heap := addSuccessor a b EL (Heap G)\<rparr>)"
  by (rule graph_wf_heap [OF assms(1)]) (use assms in \<open>auto simp: graph_wf_def addSuccessor_match\<close>)

lemma graph_wf_removes_edge:
  assumes "graph_wf G" "removes_edge (Heap G) a b l h'"
  shows "graph_wf (G\<lparr>Heap := h'\<rparr>)"
proof (rule graph_wf_heap [OF assms(1)])
  show "edges_match h'" using assms removes_edge_match by (auto simp: graph_wf_def)
next
  fix n
  assume "n \<notin> set (Nodes G)"
  then have "mset (Successors (h' n)) = {#} \<and> mset (Predecessors (h' n)) = {#}"
    using assms by (simp add: graph_wf_def removes_edge_def)
  then show "Successors (h' n) = [] \<and> Predecessors (h' n) = []" by simp
qed

lemma graph_wf_clears_successors:
  assumes "graph_wf G" "clears_successors (Heap G) a h'"
  shows "graph_wf (G\<lparr>Heap := h'\<rparr>)"
proof (rule graph_wf_heap [OF assms(1)])
  show "edges_match h'" using assms by (simp add: clears_successors_def)
next
  fix n
  assume "n \<notin> set (Nodes G)"
  then have "Successors (h' n) = []" "mset (Predecessors (h' n)) = {#}"
    using assms by (cases "n = a"; simp add: graph_wf_def clears_successors_def)+
  then show "Successors (h' n) = [] \<and> Predecessors (h' n) = []" by simp
qed

lemma graph_wf_clears_predecessors:
  assumes "graph_wf G" "clears_predecessors (Heap G) a h'"
  shows "graph_wf (G\<lparr>Heap := h'\<rparr>)"
proof (rule graph_wf_heap [OF assms(1)])
  show "edges_match h'" using assms by (simp add: clears_predecessors_def)
next
  fix n
  assume "n \<notin> set (Nodes G)"
  then have "Predecessors (h' n) = []" "mset (Successors (h' n)) = {#}"
    using assms by (cases "n = a"; simp add: graph_wf_def clears_predecessors_def)+
  then show "Successors (h' n) = [] \<and> Predecessors (h' n) = []" by simp
qed

lemma graph_wf_removeNode:
  assumes "graph_wf G" "n \<in> set (Nodes G)" "Successors (Heap G n) = []" "Predecessors (Heap G n) = []"
  shows "removeNode n G = Some (G\<lparr>Nodes := remove1 n (Nodes G)\<rparr>)" "graph_wf (G\<lparr>Nodes := remove1 n (Nodes G)\<rparr>)"
  using assms by (auto simp: removeNode_eq graph_wf_def)

section \<open>The properties\<close>


text \<open>For the witnesses: node 1 with two parallel edges to node 2, labelled 10 and 20.\<close>

definition empty_heap :: "(nat, unit) heap" where
  "empty_heap = (\<lambda>_. \<lparr>Successors = [], Predecessors = [], NodeData = ()\<rparr>)"

definition parallel_edges :: "(nat, unit) heap" where
  "parallel_edges = addSuccessor 1 2 20 (addSuccessor 1 2 10 empty_heap)"

lemma empty_heap_match: "edges_match empty_heap"
  by (simp add: edges_match_def empty_heap_def)

lemma parallel_edges_match: "edges_match parallel_edges"
  by (simp add: parallel_edges_def addSuccessor_match empty_heap_match)


text \<open>
  \<^bold>\<open>Fact\<close>. When no two parallel edges carry different labels, removing through a child iterator is
  removing through the edge iterator, so it keeps the copies in agreement as well.
\<close>

theorem child_iterator_removal:
  assumes "edges_match h"
    and "\<forall>n. \<forall>e \<in> set (Successors (h n)). \<forall>e' \<in> set (Successors (h n)). Neighbor e = Neighbor e' \<longrightarrow> EdgeLabel e = EdgeLabel e'"
  shows "(It < length (Successors (h a)) \<longrightarrow> removeSuccessor a It h = removeSuccessorEdge a It h)
    \<and> (It < length (Predecessors (h b)) \<longrightarrow> removePredecessor b It h = removePredecessorEdge b It h)"
proof (intro conjI impI)
  assume "It < length (Successors (h a))"
  define E where "E = Successors (h a) ! It"
  have E: "E \<in> set (Successors (h a))" using \<open>It < _\<close> by (simp add: E_def)
  have "EdgeLabel e = EdgeLabel E" if e: "e \<in> set (Predecessors (h (Neighbor E)))" "Neighbor e = a" for e
  proof -
    have "\<lparr>Neighbor = Neighbor E, EdgeLabel = EdgeLabel e\<rparr> \<in> set (Successors (h a))"
      using edges_match_mem [OF assms(1), of "Neighbor E" "EdgeLabel e" a] e edge_eta [OF e(2)] by simp
    then show ?thesis using assms(2) E by fastforce
  qed
  then show "removeSuccessor a It h = removeSuccessorEdge a It h"
    by (intro removeSuccessor_eq [of E h a It]) (auto simp: E_def)
next
  assume "It < length (Predecessors (h b))"
  define E where "E = Predecessors (h b) ! It"
  have "E \<in> set (Predecessors (h b))" using \<open>It < _\<close> by (simp add: E_def)
  then have "\<lparr>Neighbor = b, EdgeLabel = EdgeLabel E\<rparr> \<in> set (Successors (h (Neighbor E)))"
    using edges_match_mem [OF assms(1), of b "EdgeLabel E" "Neighbor E"] edge_eta [OF refl, of E] by simp
  then have "\<forall>e \<in> set (Successors (h (Neighbor E))). Neighbor e = b \<longrightarrow> EdgeLabel e = EdgeLabel E"
    using assms(2) by fastforce
  then show "removePredecessor b It h = removePredecessorEdge b It h"
    by (intro removePredecessor_eq [of E h b It]) (simp_all add: E_def)
qed

theorem child_iterator_removal_witness:
  "removeSuccessor 1 0 (addSuccessor 1 2 10 empty_heap) = removeSuccessorEdge 1 0 (addSuccessor 1 2 10 empty_heap)"
  using child_iterator_removal [of "addSuccessor 1 2 10 empty_heap" 0 1] addSuccessor_match [OF empty_heap_match]
  by (simp add: empty_heap_def)

text \<open>
  \<^bold>\<open>Fact\<close>. With parallel edges that carry different labels, removing through a child iterator
  removes the wrong copy on the other side: the edge of node 1 labelled 20 is removed from its
  successors, but node 2 loses the copy labelled 10, and the two nodes disagree afterwards.
\<close>

theorem child_iterator_removal_mixes_labels:
  "edges_match parallel_edges
   \<and> (\<exists>h'. removeSuccessor 1 1 parallel_edges = Some h' \<and> \<not> edges_match h'
        \<and> Successors (h' 1) = [\<lparr>Neighbor = 2, EdgeLabel = 10\<rparr>] \<and> Predecessors (h' 2) = [\<lparr>Neighbor = 1, EdgeLabel = 20\<rparr>])
   \<and> (\<exists>h'. removePredecessor 2 1 parallel_edges = Some h' \<and> \<not> edges_match h'
        \<and> Successors (h' 1) = [\<lparr>Neighbor = 2, EdgeLabel = 20\<rparr>] \<and> Predecessors (h' 2) = [\<lparr>Neighbor = 1, EdgeLabel = 10\<rparr>])"
proof -
  have mismatch: "\<not> edges_match h" if "Successors (h 1) = [\<lparr>Neighbor = 2, EdgeLabel = l\<rparr>]"
      "Predecessors (h 2) = [\<lparr>Neighbor = 1, EdgeLabel = m\<rparr>]" "l \<noteq> m" for h :: "(nat, unit) heap" and l m
    using that edges_match_mem [of h 2 l 1] by auto
  show ?thesis
    using parallel_edges_match mismatch
    by (simp add: removeSuccessor_def removePredecessor_def parallel_edges_def empty_heap_def at_def erase_at_def Let_def)
qed

text \<open>
  \<^bold>\<open>C33\<close>. The invariant of a graph (its nodes are distinct and not null, the copies of every edge
  agree, and a node that is not in the graph has no edges) is kept by adding or inserting a fresh
  node, by adding an edge between nodes of the graph, by removing edges through edge iterators, by
  clearing a node, and by removing a node whose edges have been cleared; it makes \<^verbatim>\<open>verify\<close> succeed.
\<close>

theorem generic_graph_invariant:
  assumes "graph_wf G"
  shows "verify G = Inr ()
    \<and> (New \<notin> set (Nodes G) \<and> New \<noteq> nullptr \<longrightarrow>
         graph_wf (addNode New D G) \<and> graph_wf (insertNode Where New D G) \<and> hasNode New (addNode New D G))
    \<and> (a \<in> set (Nodes G) \<and> b \<in> set (Nodes G) \<longrightarrow> graph_wf (G\<lparr>Heap := addSuccessor a b EL (Heap G)\<rparr>))
    \<and> (\<forall>h'. removeSuccessorEdge a It (Heap G) = Some h' \<longrightarrow> graph_wf (G\<lparr>Heap := h'\<rparr>))
    \<and> (\<forall>h'. removePredecessorEdge a It (Heap G) = Some h' \<longrightarrow> graph_wf (G\<lparr>Heap := h'\<rparr>))
    \<and> (\<exists>h1 h2. clearSuccessors a (Heap G) = Some h1 \<and> clearPredecessors a h1 = Some h2
         \<and> graph_wf (G\<lparr>Heap := h2\<rparr>)
         \<and> (a \<in> set (Nodes G) \<longrightarrow> (\<exists>G'. removeNode a (G\<lparr>Heap := h2\<rparr>) = Some G' \<and> graph_wf G' \<and> \<not> hasNode a G')))"
proof (intro conjI)
  have match: "edges_match (Heap G)" using assms by (simp add: graph_wf_def)
  show "verify G = Inr ()" by (rule graph_wf_verify [OF assms])
  show "New \<notin> set (Nodes G) \<and> New \<noteq> nullptr \<longrightarrow>
      graph_wf (addNode New D G) \<and> graph_wf (insertNode Where New D G) \<and> hasNode New (addNode New D G)"
    using graph_wf_addNode [OF assms] by (simp add: hasNode_iff addNode_def)
  show "a \<in> set (Nodes G) \<and> b \<in> set (Nodes G) \<longrightarrow> graph_wf (G\<lparr>Heap := addSuccessor a b EL (Heap G)\<rparr>)"
    using graph_wf_addSuccessor [OF assms] by blast
  show "\<forall>h'. removeSuccessorEdge a It (Heap G) = Some h' \<longrightarrow> graph_wf (G\<lparr>Heap := h'\<rparr>)"
  proof (intro allI impI)
    fix h'
    assume r: "removeSuccessorEdge a It (Heap G) = Some h'"
    then have "It < length (Successors (Heap G a))" by (auto simp: removeSuccessorEdge_def bind_Some_iff at_Some)
    from removeSuccessorEdge_correct [OF match this refl] r show "graph_wf (G\<lparr>Heap := h'\<rparr>)"
      using graph_wf_removes_edge [OF assms] by auto
  qed
  show "\<forall>h'. removePredecessorEdge a It (Heap G) = Some h' \<longrightarrow> graph_wf (G\<lparr>Heap := h'\<rparr>)"
  proof (intro allI impI)
    fix h'
    assume r: "removePredecessorEdge a It (Heap G) = Some h'"
    then have "It < length (Predecessors (Heap G a))" by (auto simp: removePredecessorEdge_def bind_Some_iff at_Some)
    from removePredecessorEdge_correct [OF match this refl] r show "graph_wf (G\<lparr>Heap := h'\<rparr>)"
      using graph_wf_removes_edge [OF assms] by auto
  qed
  obtain h1 where h1: "clearSuccessors a (Heap G) = Some h1" "clears_successors (Heap G) a h1"
    using clearSuccessors_correct [OF match] by blast
  have wf1: "graph_wf (G\<lparr>Heap := h1\<rparr>)" by (rule graph_wf_clears_successors [OF assms h1(2)])
  obtain h2 where h2: "clearPredecessors a h1 = Some h2" "clears_predecessors h1 a h2"
    using clearPredecessors_correct [of h1] h1(2) by (auto simp: clears_successors_def)
  have wf2: "graph_wf (G\<lparr>Heap := h2\<rparr>)" using graph_wf_clears_predecessors [OF wf1, of a h2] h2(2) by simp
  have "mset (Successors (h2 a)) = {#}" "Predecessors (h2 a) = []"
    using h1(2) h2(2) by (simp_all add: clears_successors_def clears_predecessors_def)
  then have e: "Successors (h2 a) = []" "Predecessors (h2 a) = []" by simp_all
  have "\<exists>G'. removeNode a (G\<lparr>Heap := h2\<rparr>) = Some G' \<and> graph_wf G' \<and> \<not> hasNode a G'" if "a \<in> set (Nodes G)"
    using graph_wf_removeNode [OF wf2, of a] that e assms by (simp add: hasNode_iff graph_wf_def)
  then show "\<exists>h1 h2. clearSuccessors a (Heap G) = Some h1 \<and> clearPredecessors a h1 = Some h2
      \<and> graph_wf (G\<lparr>Heap := h2\<rparr>)
      \<and> (a \<in> set (Nodes G) \<longrightarrow> (\<exists>G'. removeNode a (G\<lparr>Heap := h2\<rparr>) = Some G' \<and> graph_wf G' \<and> \<not> hasNode a G'))"
    using h1(1) h2(1) wf2 by blast
qed

theorem generic_graph_invariant_witness:
  "graph_wf (addNode 1 () \<lparr>EntryNode = 0, Nodes = [], Heap = empty_heap\<rparr>)"
proof -
  have "graph_wf \<lparr>EntryNode = 0, Nodes = [], Heap = empty_heap\<rparr>"
    using empty_heap_match by (simp add: graph_wf_def empty_heap_def)
  from generic_graph_invariant [OF this, of 1 "()"] show ?thesis by simp
qed

end
