(* ===== verification/Maximal_Fixed_Point.thy ===== *)
theory Maximal_Fixed_Point
  imports Revng_Prelude
begin

text \<open>
  The solver of monotone data-flow frameworks, \<^verbatim>\<open>mfp::getMaximalFixedPoint\<close>
  (src/include/revng/MFP/MFP.h), with the set lattices of src/include/revng/MFP/SetLattices.h.
  A label is of a linearly ordered type \<open>'l\<close>, a lattice element of type \<open>'e\<close>; the extra
  state that transfer functions write to is threaded explicitly. Logging is left out. The
  post-order iterator \<^verbatim>\<open>llvm::po_ext_iterator\<close> is not part of the sources and is a parameter.
\<close>

section \<open>Extra state\<close>

datatype Position = Before | After

type_synonym ('k, 'e) ExtraState = "'k \<times> Position \<rightharpoonup> 'e"

definition registerAsInteresting ::
  "'e \<Rightarrow> Position \<Rightarrow> ('k, 'e) ExtraState \<Rightarrow> 'k \<Rightarrow> ('k, 'e) ExtraState" where
  "registerAsInteresting Default Pos Map K =
     (if (K, Pos) \<in> dom Map then Map else Map((K, Pos) \<mapsto> Default))"

definition register_value ::
  "Position \<Rightarrow> ('k, 'e) ExtraState \<Rightarrow> 'k \<Rightarrow> 'e \<Rightarrow> ('k, 'e) ExtraState" where
  "register_value Pos Map K Value =
     (case Map (K, Pos) of None \<Rightarrow> Map | Some _ \<Rightarrow> Map((K, Pos) \<mapsto> Value))"

definition get_value :: "Position \<Rightarrow> ('k, 'e) ExtraState \<Rightarrow> 'k \<Rightarrow> 'e checked" where
  "get_value Pos Map K = Map (K, Pos)"

section \<open>Frameworks, graphs and configurations\<close>

record ('l, 'e, 'x) MonotoneFrameworkInstance =
  combineValues :: "'e \<Rightarrow> 'e \<Rightarrow> 'e"
  isLessOrEqual :: "'e \<Rightarrow> 'e \<Rightarrow> bool"
  applyTransferFunction :: "'l \<Rightarrow> 'e \<Rightarrow> 'x \<Rightarrow> ('e \<times> 'x) checked"

record 'e MFPResult =
  InValue :: 'e
  OutValue :: 'e

text \<open>
  \<^verbatim>\<open>llvm::GraphTraits\<close> of a graph: the successors, the entry node (\<^term>\<open>None\<close> for the null
  node), the nodes (\<^term>\<open>None\<close> when the traits have no node range), and the nodes that
  \<^verbatim>\<open>po_ext_iterator\<close> visits from a node in post-order, given the nodes already visited, which
  it also updates.
\<close>

record 'l Graph =
  successors :: "'l \<Rightarrow> 'l list"
  getEntryNode :: "'l option"
  graph_nodes :: "'l list option"
  po_ext :: "'l \<Rightarrow> 'l set \<Rightarrow> 'l list \<times> 'l set"

datatype 'l EntryLabelsOptions = Entry | All | Labels "'l list option"

record ('l, 'e, 'x) MFPConfiguration =
  Instance :: "('l, 'e, 'x) MonotoneFrameworkInstance option"
  Flow :: "'l Graph"
  Bottom :: "'e option"
  ExtremalValue :: "'e option"
  ExtremalLabels :: "'l list option"
  EntryLabels :: "'l EntryLabelsOptions"
  cfg_ExtraState :: "'x option"

section \<open>The algorithm\<close>

definition ReversePostOrderTraversalExt :: "'l Graph \<Rightarrow> 'l \<Rightarrow> 'l set \<Rightarrow> 'l list \<times> 'l set" where
  "ReversePostOrderTraversalExt G Start Visited =
     (let (Blocks, Visited') = po_ext G Start Visited in (rev Blocks, Visited'))"

definition ResolveEntryLabels :: "'l Graph \<Rightarrow> 'l EntryLabelsOptions \<Rightarrow> 'l list checked" where
  "ResolveEntryLabels G Option =
     (case Option of
        Entry \<Rightarrow> Some (case getEntryNode G of None \<Rightarrow> [] | Some Seed \<Rightarrow> [Seed])
      | All \<Rightarrow> graph_nodes G
      | Labels Ls \<Rightarrow> Ls)"

text \<open>
  The analysis results, the worklist (a \<^verbatim>\<open>std::set\<close> of priorities and labels, as its sorted
  list), the priorities and the extra state.
\<close>

record ('l, 'e, 'x) MFPState =
  AnalysisResult :: "'l \<rightharpoonup> 'e MFPResult"
  Worklist :: "(nat \<times> 'l) list"
  LabelPriority :: "'l \<rightharpoonup> nat"
  st_ExtraState :: 'x

text \<open>\<^verbatim>\<open>AnalysisResult[L].InValue = Value\<close>: a missing entry is default-constructed first.\<close>

definition set_InValue ::
  "'e \<Rightarrow> ('l \<rightharpoonup> 'e MFPResult) \<Rightarrow> 'l \<Rightarrow> 'e \<Rightarrow> ('l \<rightharpoonup> 'e MFPResult)" where
  "set_InValue Default R L Value =
     R(L \<mapsto> (case R L of None \<Rightarrow> \<lparr>InValue = Value, OutValue = Default\<rparr> | Some r \<Rightarrow> r\<lparr>InValue := Value\<rparr>))"

definition mfp_init_extremal ::
  "'e \<Rightarrow> 'e \<Rightarrow> 'l list \<Rightarrow> ('l \<rightharpoonup> 'e MFPResult)" where
  "mfp_init_extremal Default Value Ls = foldl (\<lambda>R L. set_InValue Default R L Value) Map.empty Ls"

text \<open>One node of a traversal, and all of them; \<open>card (dom P)\<close> is \<^verbatim>\<open>LabelPriority.size()\<close>.\<close>

definition mfp_init_node ::
  "'e \<Rightarrow> 'e \<Rightarrow> 'l::linorder \<Rightarrow> ('l, 'e, 'x) MFPState \<Rightarrow> ('l, 'e, 'x) MFPState" where
  "mfp_init_node Default Bot Node S =
     (let Priority = card (dom (LabelPriority S))
      in S\<lparr>LabelPriority := (LabelPriority S)(Node \<mapsto> Priority),
           Worklist := insort_insert (Priority, Node) (Worklist S),
           AnalysisResult := (if Node \<in> dom (AnalysisResult S) then AnalysisResult S
                              else set_InValue Default (AnalysisResult S) Node Bot)\<rparr>)"

fun mfp_init_worklist ::
  "'l Graph \<Rightarrow> 'e \<Rightarrow> 'e \<Rightarrow> 'l::linorder list \<Rightarrow> 'l set \<Rightarrow> ('l, 'e, 'x) MFPState \<Rightarrow> ('l, 'e, 'x) MFPState" where
  "mfp_init_worklist G Default Bot [] Visited S = S"
| "mfp_init_worklist G Default Bot (Start # Starts) Visited S =
     (if Start \<in> Visited then mfp_init_worklist G Default Bot Starts Visited S
      else let (RPOT, Visited') = ReversePostOrderTraversalExt G Start Visited
           in mfp_init_worklist G Default Bot Starts Visited' (fold (mfp_init_node Default Bot) RPOT S))"

text \<open>The loop over the successors of \<open>Start\<close>, whose final value is read anew each time.\<close>

fun mfp_successors ::
  "('l::linorder, 'e, 'x) MonotoneFrameworkInstance \<Rightarrow> 'l \<Rightarrow> 'l list \<Rightarrow> ('l, 'e, 'x) MFPState
    \<Rightarrow> ('l, 'e, 'x) MFPState checked" where
  "mfp_successors I Start [] S = Some S"
| "mfp_successors I Start (Successor # Rest) S = do {
     LabelAnalysis \<leftarrow> AnalysisResult S Start;
     SuccessorResults \<leftarrow> AnalysisResult S Successor;
     (if \<not> isLessOrEqual I (OutValue LabelAnalysis) (InValue SuccessorResults)
      then do {
        let New = combineValues I (InValue SuccessorResults) (OutValue LabelAnalysis);
        P \<leftarrow> LabelPriority S Successor;
        mfp_successors I Start Rest
          (S\<lparr>AnalysisResult := (AnalysisResult S)(Successor \<mapsto> SuccessorResults\<lparr>InValue := New\<rparr>),
             Worklist := insort_insert (P, Successor) (Worklist S)\<rparr>) }
      else mfp_successors I Start Rest S) }"

definition mfp_iteration ::
  "('l::linorder, 'e, 'x) MonotoneFrameworkInstance \<Rightarrow> 'l Graph \<Rightarrow> ('l, 'e, 'x) MFPState
    \<Rightarrow> ('l, 'e, 'x) MFPState checked" where
  "mfp_iteration I G S =
     (case Worklist S of
        [] \<Rightarrow> Some S
      | (_, Start) # Rest \<Rightarrow> do {
          LabelAnalysis \<leftarrow> AnalysisResult S Start;
          (New, X) \<leftarrow> applyTransferFunction I Start (InValue LabelAnalysis) (st_ExtraState S);
          mfp_successors I Start (successors G Start)
            (S\<lparr>Worklist := Rest, st_ExtraState := X,
               AnalysisResult := (AnalysisResult S)(Start \<mapsto> LabelAnalysis\<lparr>OutValue := New\<rparr>)\<rparr>) })"

partial_function (option) mfp_loop ::
  "('l::linorder, 'e, 'x) MonotoneFrameworkInstance \<Rightarrow> 'l Graph \<Rightarrow> ('l, 'e, 'x) MFPState
    \<Rightarrow> ('l, 'e, 'x) MFPState checked" where
  "mfp_loop I G S =
     (if Worklist S = [] then Some S
      else do { S' \<leftarrow> mfp_iteration I G S; mfp_loop I G S' })"

text \<open>
  \<^verbatim>\<open>getMaximalFixedPointImpl\<close>: every pointer of the configuration must be set. The results are
  returned with the final extra state, which the caller owns.
\<close>

definition getMaximalFixedPointImpl ::
  "'e \<Rightarrow> ('l::linorder, 'e, 'x) MFPConfiguration \<Rightarrow> (('l \<rightharpoonup> 'e MFPResult) \<times> 'x) checked" where
  "getMaximalFixedPointImpl Default C = do {
     I \<leftarrow> Instance C;
     Bot \<leftarrow> Bottom C;
     Ext \<leftarrow> ExtremalValue C;
     ELs \<leftarrow> ExtremalLabels C;
     X \<leftarrow> cfg_ExtraState C;
     Entries \<leftarrow> ResolveEntryLabels (Flow C) (EntryLabels C);
     S \<leftarrow> mfp_loop I (Flow C)
            (mfp_init_worklist (Flow C) Default Bot Entries {}
               \<lparr>AnalysisResult = mfp_init_extremal Default Ext ELs, Worklist = [],
                LabelPriority = Map.empty, st_ExtraState = X\<rparr>);
     Some (AnalysisResult S, st_ExtraState S) }"

text \<open>
  \<^verbatim>\<open>getMaximalFixedPoint\<close> supplies default-constructed values; \<open>DefaultInstance\<close> is
  \<^term>\<open>None\<close> for an instance type that cannot be default-constructed.
\<close>

definition getMaximalFixedPoint ::
  "('l::linorder, 'e, 'x) MonotoneFrameworkInstance option \<Rightarrow> 'e \<Rightarrow> 'x \<Rightarrow> ('l, 'e, 'x) MFPConfiguration
    \<Rightarrow> (('l \<rightharpoonup> 'e MFPResult) \<times> 'x) checked" where
  "getMaximalFixedPoint DefaultInstance Default DefaultExtraState C =
     getMaximalFixedPointImpl Default
       (C\<lparr>Instance := case Instance C of None \<Rightarrow> DefaultInstance | Some I \<Rightarrow> Some I,
          Bottom := Some (case Bottom C of None \<Rightarrow> Default | Some b \<Rightarrow> b),
          ExtremalValue := Some (case ExtremalValue C of None \<Rightarrow> Default | Some v \<Rightarrow> v),
          ExtremalLabels := Some (case ExtremalLabels C of None \<Rightarrow> [] | Some Ls \<Rightarrow> Ls),
          cfg_ExtraState := Some (case cfg_ExtraState C of None \<Rightarrow> DefaultExtraState | Some x \<Rightarrow> x)\<rparr>)"

section \<open>Set lattices\<close>

text \<open>Sorted sets are finite sets; \<^verbatim>\<open>std::includes\<close> decides inclusion.\<close>

definition SetUnion_combineValues :: "'a set \<Rightarrow> 'a set \<Rightarrow> 'a set" where
  "SetUnion_combineValues L R = L \<union> R"

definition SetUnion_isLessOrEqual :: "'a set \<Rightarrow> 'a set \<Rightarrow> bool" where
  "SetUnion_isLessOrEqual L R \<longleftrightarrow> (if card L > card R then False else L \<subseteq> R)"

definition SetIntersection_combineValues :: "'a set \<Rightarrow> 'a set \<Rightarrow> 'a set" where
  "SetIntersection_combineValues L R = L \<inter> R"

definition SetIntersection_isLessOrEqual :: "'a set \<Rightarrow> 'a set \<Rightarrow> bool" where
  "SetIntersection_isLessOrEqual L R \<longleftrightarrow> (if card R > card L then False else R \<subseteq> L)"

section \<open>Interfaces\<close>

definition edges :: "'l Graph \<Rightarrow> ('l \<times> 'l) set" where
  "edges G = {(a, b). b \<in> set (successors G a)}"

text \<open>
  What \<^verbatim>\<open>po_ext_iterator\<close> promises: from a node not visited yet it visits that node and nodes
  reachable from it, each once and none visited before, it marks exactly these, and it leaves
  out no successor.
\<close>

locale post_order_graph =
  fixes G :: "'l::linorder Graph"
  assumes po_visits: "s \<notin> V \<Longrightarrow> po_ext G s V = (ns, V') \<Longrightarrow>
      s \<in> set ns \<and> distinct ns \<and> set ns \<inter> V = {} \<and> V' = V \<union> set ns
      \<and> (\<forall>n \<in> set ns. set (successors G n) \<subseteq> V') \<and> (\<forall>n \<in> set ns. (s, n) \<in> (edges G)\<^sup>*)"

text \<open>
  The lattice of a framework: a preorder with least upper bounds on a carrier of elements,
  and no infinite ascending chains, by a measure that each proper combination decreases.
\<close>

locale mfp_lattice =
  fixes combine :: "'e \<Rightarrow> 'e \<Rightarrow> 'e"
    and leq :: "'e \<Rightarrow> 'e \<Rightarrow> bool"
    and carrier :: "'e \<Rightarrow> bool"
    and height :: "'e \<Rightarrow> nat"
  assumes leq_refl: "carrier a \<Longrightarrow> leq a a"
    and leq_trans: "carrier a \<Longrightarrow> carrier b \<Longrightarrow> carrier c \<Longrightarrow> leq a b \<Longrightarrow> leq b c \<Longrightarrow> leq a c"
    and combine_carrier: "carrier a \<Longrightarrow> carrier b \<Longrightarrow> carrier (combine a b)"
    and combine_upper: "carrier a \<Longrightarrow> carrier b \<Longrightarrow> leq a (combine a b) \<and> leq b (combine a b)"
    and combine_least: "carrier a \<Longrightarrow> carrier b \<Longrightarrow> carrier c \<Longrightarrow>
        leq a c \<Longrightarrow> leq b c \<Longrightarrow> leq (combine a b) c"
    and height_decreases: "carrier a \<Longrightarrow> carrier b \<Longrightarrow> \<not> leq b a \<Longrightarrow> height (combine a b) < height a"

text \<open>
  What the solver asks of a framework instance on the nodes of a graph: such a lattice and a
  monotone transfer function whose value does not depend on the extra state.
\<close>

locale monotone_framework = mfp_lattice "combineValues I" "isLessOrEqual I" carrier height
  for I :: "('l::linorder, 'e, 'x) MonotoneFrameworkInstance"
    and carrier :: "'e \<Rightarrow> bool"
    and height :: "'e \<Rightarrow> nat" +
  fixes G :: "'l Graph"
    and Nodes :: "'l set"
    and tf :: "'l \<Rightarrow> 'e \<Rightarrow> 'e"
  assumes nodes_closed: "l \<in> Nodes \<Longrightarrow> set (successors G l) \<subseteq> Nodes"
    and transfer: "l \<in> Nodes \<Longrightarrow> carrier e \<Longrightarrow> \<exists>x'. applyTransferFunction I l e x = Some (tf l e, x')"
    and tf_carrier: "l \<in> Nodes \<Longrightarrow> carrier e \<Longrightarrow> carrier (tf l e)"
    and tf_mono: "l \<in> Nodes \<Longrightarrow> carrier a \<Longrightarrow> carrier b \<Longrightarrow>
        isLessOrEqual I a b \<Longrightarrow> isLessOrEqual I (tf l a) (tf l b)"

text \<open>
  A solution of the data-flow equations on the nodes \<open>N\<close>: it is above the initial values, and
  what a node makes of its value flows into its successors.
\<close>

definition mfp_solution ::
  "('l, 'e, 'x) MonotoneFrameworkInstance \<Rightarrow> 'l Graph \<Rightarrow> 'l set \<Rightarrow> ('e \<Rightarrow> bool) \<Rightarrow> ('l \<Rightarrow> 'e \<Rightarrow> 'e)
    \<Rightarrow> ('l \<Rightarrow> 'e) \<Rightarrow> ('l \<Rightarrow> 'e) \<Rightarrow> bool" where
  "mfp_solution I G N carrier tf init val \<longleftrightarrow>
     (\<forall>l \<in> N. carrier (val l) \<and> isLessOrEqual I (init l) (val l)
        \<and> (\<forall>s \<in> set (successors G l). isLessOrEqual I (tf l (val l)) (val s)))"

definition in_of :: "('l, 'e, 'x) MFPState \<Rightarrow> 'l \<Rightarrow> 'e" where
  "in_of S l = InValue (the (AnalysisResult S l))"

definition out_of :: "('l, 'e, 'x) MFPState \<Rightarrow> 'l \<Rightarrow> 'e" where
  "out_of S l = OutValue (the (AnalysisResult S l))"

text \<open>A node is settled when its final value is up to date and has flowed into its successors.\<close>

definition settled ::
  "('l, 'e, 'x) MonotoneFrameworkInstance \<Rightarrow> 'l Graph \<Rightarrow> ('l \<Rightarrow> 'e \<Rightarrow> 'e) \<Rightarrow> ('l, 'e, 'x) MFPState \<Rightarrow> 'l \<Rightarrow> bool" where
  "settled I G tf S l \<longleftrightarrow> out_of S l = tf l (in_of S l)
     \<and> (\<forall>s \<in> set (successors G l). isLessOrEqual I (out_of S l) (in_of S s))"

text \<open>The part of the loop invariant that holds throughout an iteration.\<close>

definition mfp_base ::
  "('l, 'e, 'x) MonotoneFrameworkInstance \<Rightarrow> 'l set \<Rightarrow> ('e \<Rightarrow> bool) \<Rightarrow> ('l \<Rightarrow> 'e) \<Rightarrow> ('l \<Rightarrow> 'e) set
    \<Rightarrow> ('l, 'e, 'x) MFPState \<Rightarrow> bool" where
  "mfp_base I N carrier init Sols S \<longleftrightarrow>
     snd ` set (Worklist S) \<subseteq> N
     \<and> (\<forall>l \<in> N. AnalysisResult S l \<noteq> None \<and> LabelPriority S l \<noteq> None \<and> carrier (in_of S l)
          \<and> isLessOrEqual I (init l) (in_of S l)
          \<and> (\<forall>val \<in> Sols. isLessOrEqual I (in_of S l) (val l)))"

definition mfp_invariant ::
  "('l, 'e, 'x) MonotoneFrameworkInstance \<Rightarrow> 'l Graph \<Rightarrow> 'l set \<Rightarrow> ('e \<Rightarrow> bool) \<Rightarrow> ('l \<Rightarrow> 'e \<Rightarrow> 'e)
    \<Rightarrow> ('l \<Rightarrow> 'e) \<Rightarrow> ('l \<Rightarrow> 'e) set \<Rightarrow> ('l, 'e, 'x) MFPState \<Rightarrow> bool" where
  "mfp_invariant I G N carrier tf init Sols S \<longleftrightarrow>
     mfp_base I N carrier init Sols S
     \<and> (\<forall>l \<in> N. l \<notin> snd ` set (Worklist S) \<longrightarrow> settled I G tf S l)"

definition total_height :: "('e \<Rightarrow> nat) \<Rightarrow> 'l set \<Rightarrow> ('l, 'e, 'x) MFPState \<Rightarrow> nat" where
  "total_height height N S = (\<Sum>l \<in> N. height (in_of S l))"

text \<open>The invariant of the loop over the successors, of which \<open>seen\<close> are done.\<close>

definition mfp_mid ::
  "('l, 'e, 'x) MonotoneFrameworkInstance \<Rightarrow> 'l Graph \<Rightarrow> 'l set \<Rightarrow> ('e \<Rightarrow> bool) \<Rightarrow> ('l \<Rightarrow> 'e \<Rightarrow> 'e)
    \<Rightarrow> ('l \<Rightarrow> 'e) \<Rightarrow> ('l \<Rightarrow> 'e) set \<Rightarrow> 'l \<Rightarrow> 'e \<Rightarrow> 'l set \<Rightarrow> ('l, 'e, 'x) MFPState \<Rightarrow> bool" where
  "mfp_mid I G N carrier tf init Sols start New seen S \<longleftrightarrow>
     mfp_base I N carrier init Sols S \<and> out_of S start = New
     \<and> (\<forall>l \<in> N. l \<noteq> start \<and> l \<notin> snd ` set (Worklist S) \<longrightarrow> settled I G tf S l)
     \<and> (start \<notin> snd ` set (Worklist S) \<longrightarrow> New = tf start (in_of S start))
     \<and> (\<forall>s \<in> seen. isLessOrEqual I New (in_of S s))"

lemma raise_simps:
  assumes "AnalysisResult S s = Some r"
    and "S' = S\<lparr>AnalysisResult := (AnalysisResult S)(s \<mapsto> r\<lparr>InValue := v\<rparr>), Worklist := W\<rparr>"
  shows "in_of S' l = (if l = s then v else in_of S l)" "out_of S' l = out_of S l"
    "AnalysisResult S' l = None \<longleftrightarrow> AnalysisResult S l = None"
    "LabelPriority S' = LabelPriority S" "Worklist S' = W"
  using assms by (auto simp: in_of_def out_of_def)

context monotone_framework
begin

lemma total_height_raise:
  assumes "finite N" "s \<in> N" "\<And>l. in_of S' l = (if l = s then v else in_of S l)"
    and "height v < height (in_of S s)"
  shows "total_height height N S' < total_height height N S"
proof -
  have "(\<Sum>l \<in> N - {s}. height (in_of S' l)) = (\<Sum>l \<in> N - {s}. height (in_of S l))"
    using assms(3) by (intro sum.cong) auto
  then show ?thesis
    using assms(3) [of s] assms(4) sum.remove [OF assms(1,2), of "\<lambda>l. height (in_of S l)"]
      sum.remove [OF assms(1,2), of "\<lambda>l. height (in_of S' l)"]
    by (simp add: total_height_def)
qed

lemma mfp_raise:
  assumes N: "finite N" "N \<subseteq> Nodes" "\<forall>val \<in> Sols. \<forall>l \<in> N. carrier (val l)" "\<forall>l \<in> N. carrier (init l)"
    and mid: "mfp_mid I G N carrier tf init Sols start New seen S" "carrier New"
    and s: "s \<in> N" "\<forall>val \<in> Sols. isLessOrEqual I New (val s)" "\<not> isLessOrEqual I New (in_of S s)"
    and r: "AnalysisResult S s = Some r"
    and S': "S' = S\<lparr>AnalysisResult := (AnalysisResult S)(s \<mapsto> r\<lparr>InValue := combineValues I (in_of S s) New\<rparr>),
        Worklist := insort_insert (p, s) (Worklist S)\<rparr>"
  shows "mfp_mid I G N carrier tf init Sols start New (insert s seen) S'"
    and "total_height height N S' < total_height height N S"
proof -
  note raise = raise_simps [OF r S']
  let ?v = "combineValues I (in_of S s) New"
  have base: "mfp_base I N carrier init Sols S" using mid(1) by (simp add: mfp_mid_def)
  have cs: "carrier (in_of S s)" using base s(1) by (simp add: mfp_base_def)
  note up = combine_upper [OF cs mid(2)] and cv = combine_carrier [OF cs mid(2)]
  have W': "snd ` set (Worklist S') = insert s (snd ` set (Worklist S))"
    unfolding raise(5) by (simp add: set_insort_insert)
  have grow: "isLessOrEqual I (in_of S l) (in_of S' l)" if "l \<in> N" for l
    using that raise(1) up base leq_refl by (auto simp: mfp_base_def)
  show "total_height height N S' < total_height height N S"
    using total_height_raise [OF N(1) s(1) raise(1)] height_decreases [OF cs mid(2) s(3)] by simp
  have base': "mfp_base I N carrier init Sols S'"
    unfolding mfp_base_def W'
  proof (intro conjI ballI)
    show "insert s (snd ` set (Worklist S)) \<subseteq> N" using base s(1) by (simp add: mfp_base_def)
    fix l
    assume l: "l \<in> N"
    have bl: "AnalysisResult S l \<noteq> None" "LabelPriority S l \<noteq> None" "carrier (in_of S l)"
        "isLessOrEqual I (init l) (in_of S l)" "\<forall>val \<in> Sols. isLessOrEqual I (in_of S l) (val l)"
      using base l by (simp_all add: mfp_base_def)
    show "AnalysisResult S' l \<noteq> None" "LabelPriority S' l \<noteq> None" using bl(1,2) raise(3,4) by auto
    show c': "carrier (in_of S' l)" using bl(3) cv raise(1) by simp
    show "isLessOrEqual I (init l) (in_of S' l)"
      by (rule leq_trans [OF _ bl(3) c' bl(4) grow [OF l]]) (use N(4) l in blast)
    show "isLessOrEqual I (in_of S' l) (val l)" if "val \<in> Sols" for val
      using that bl(5) raise(1) [of l] combine_least [OF cs mid(2)] N(3) l s(2) by auto
  qed
  have settled': "settled I G tf S' l" if "l \<in> N" "l \<noteq> start" "l \<notin> snd ` set (Worklist S')" for l
  proof -
    have ls: "l \<noteq> s" and st: "settled I G tf S l" using that W' mid(1) by (auto simp: mfp_mid_def)
    have co: "carrier (out_of S l)"
      using st that(1) N(2) base tf_carrier by (auto simp: settled_def mfp_base_def)
    have "isLessOrEqual I (out_of S l) (in_of S' t)" if t: "t \<in> set (successors G l)" for t
    proof (cases "t = s")
      case True
      have "isLessOrEqual I (out_of S l) (in_of S s)" using st t True unfolding settled_def by blast
      then show ?thesis using leq_trans [OF co cs cv] up True raise(1) by simp
    next
      case False
      have "isLessOrEqual I (out_of S l) (in_of S t)" using st t unfolding settled_def by blast
      then show ?thesis using False raise(1) by simp
    qed
    then show ?thesis using st ls raise(1,2) by (simp add: settled_def)
  qed
  have seen': "isLessOrEqual I New (in_of S' t)" if "t \<in> insert s seen" for t
    using that mid(1) up raise(1) by (auto simp: mfp_mid_def)
  show "mfp_mid I G N carrier tf init Sols start New (insert s seen) S'"
    unfolding mfp_mid_def
    using base' settled' seen' mid(1) W' raise(1,2) by (auto simp: mfp_mid_def)
qed

lemma mfp_successors_correct:
  assumes N: "finite N" "N \<subseteq> Nodes" "\<forall>val \<in> Sols. \<forall>l \<in> N. carrier (val l)" "\<forall>l \<in> N. carrier (init l)"
    and "start \<in> N" "carrier New"
  shows "mfp_mid I G N carrier tf init Sols start New seen S \<Longrightarrow> set xs \<subseteq> N \<Longrightarrow>
      \<forall>s \<in> set xs. \<forall>val \<in> Sols. isLessOrEqual I New (val s) \<Longrightarrow>
    \<exists>S'. mfp_successors I start xs S = Some S'
      \<and> mfp_mid I G N carrier tf init Sols start New (seen \<union> set xs) S'
      \<and> (total_height height N S' < total_height height N S
         \<or> total_height height N S' = total_height height N S \<and> Worklist S' = Worklist S)"
proof (induction xs arbitrary: S seen)
  case Nil
  then show ?case by simp
next
  case (Cons s xs)
  have base: "mfp_base I N carrier init Sols S" using Cons.prems(1) by (simp add: mfp_mid_def)
  have s: "s \<in> N" "\<forall>val \<in> Sols. isLessOrEqual I New (val s)" using Cons.prems(2,3) by simp_all
  have "AnalysisResult S s \<noteq> None" "LabelPriority S s \<noteq> None" "AnalysisResult S start \<noteq> None"
    using base s(1) assms(5) by (simp_all add: mfp_base_def)
  then obtain r p r0 where r: "AnalysisResult S s = Some r" and p: "LabelPriority S s = Some p"
      and r0: "AnalysisResult S start = Some r0"
    by fast
  have out: "OutValue r0 = New" using Cons.prems(1) r0 by (simp add: mfp_mid_def out_of_def)
  have in_s: "InValue r = in_of S s" using r by (simp add: in_of_def)
  show ?case
  proof (cases "isLessOrEqual I New (in_of S s)")
    case True
    then have "mfp_mid I G N carrier tf init Sols start New (insert s seen) S"
      using Cons.prems(1) by (simp add: mfp_mid_def)
    moreover have "mfp_successors I start (s # xs) S = mfp_successors I start xs S"
      using True r r0 out in_s by simp
    ultimately show ?thesis using Cons.IH [of "insert s seen" S] Cons.prems(2,3) by simp
  next
    case False
    define S' where "S' = S\<lparr>AnalysisResult := (AnalysisResult S)(s \<mapsto> r\<lparr>InValue := combineValues I (in_of S s) New\<rparr>),
        Worklist := insort_insert (p, s) (Worklist S)\<rparr>"
    note raised = mfp_raise [OF N Cons.prems(1) assms(6) s False r S'_def]
    have "mfp_successors I start (s # xs) S = mfp_successors I start xs S'"
      using False r r0 p out in_s by (simp add: S'_def)
    then show ?thesis
      using Cons.IH [OF raised(1)] Cons.prems(2,3) raised(2) by auto
  qed
qed

lemma mfp_iteration_correct:
  assumes N: "finite N" "N \<subseteq> Nodes" "\<forall>val \<in> Sols. mfp_solution I G N carrier tf init val" "\<forall>l \<in> N. carrier (init l)"
    and closed: "\<forall>l \<in> N. set (successors G l) \<subseteq> N"
    and inv: "mfp_invariant I G N carrier tf init Sols S" and W: "Worklist S = (p, start) # Rest"
  shows "\<exists>S'. mfp_iteration I G S = Some S' \<and> mfp_invariant I G N carrier tf init Sols S'
      \<and> (total_height height N S' < total_height height N S
         \<or> total_height height N S' = total_height height N S \<and> length (Worklist S') < length (Worklist S))"
proof -
  have base: "mfp_base I N carrier init Sols S" using inv by (simp add: mfp_invariant_def)
  have Sols: "\<forall>val \<in> Sols. \<forall>l \<in> N. carrier (val l)" using N(3) by (simp add: mfp_solution_def)
  have start: "start \<in> N" "start \<in> Nodes" using base W N(2) by (auto simp: mfp_base_def)
  have c: "carrier (in_of S start)" and "AnalysisResult S start \<noteq> None" using base start(1) by (simp_all add: mfp_base_def)
  then obtain r where r: "AnalysisResult S start = Some r" by blast
  define New where "New = tf start (in_of S start)"
  have cN: "carrier New" unfolding New_def using tf_carrier [OF start(2) c] .
  obtain x where x: "applyTransferFunction I start (in_of S start) (st_ExtraState S) = Some (New, x)"
    using transfer [OF start(2) c] unfolding New_def by blast
  define S1 where "S1 = S\<lparr>Worklist := Rest, st_ExtraState := x,
      AnalysisResult := (AnalysisResult S)(start \<mapsto> r\<lparr>OutValue := New\<rparr>)\<rparr>"
  have in1: "in_of S1 = in_of S" using r by (auto simp: S1_def in_of_def fun_eq_iff)
  have out1: "out_of S1 l = (if l = start then New else out_of S l)" for l by (simp add: S1_def out_of_def)
  have "mfp_base I N carrier init Sols S1"
    using base W in1 by (auto simp: mfp_base_def S1_def)
  moreover have "settled I G tf S1 l" if "l \<in> N" "l \<noteq> start" "l \<notin> snd ` set (Worklist S1)" for l
    using that inv W in1 out1 by (auto simp: mfp_invariant_def settled_def S1_def)
  ultimately have mid: "mfp_mid I G N carrier tf init Sols start New {} S1"
    using in1 out1 by (simp add: mfp_mid_def New_def)
  have flow: "isLessOrEqual I New (val s)" if "s \<in> set (successors G start)" "val \<in> Sols" for s val
  proof -
    have sol: "mfp_solution I G N carrier tf init val" using N(3) that(2) by blast
    have cv: "carrier (val start)" "carrier (val s)" using Sols that closed start(1) by blast+
    have "isLessOrEqual I (in_of S start) (val start)" using base that(2) start(1) by (simp add: mfp_base_def)
    then have "isLessOrEqual I New (tf start (val start))"
      unfolding New_def using tf_mono [OF start(2) c cv(1)] by blast
    moreover have "isLessOrEqual I (tf start (val start)) (val s)"
      using sol start(1) that(1) by (simp add: mfp_solution_def)
    ultimately show ?thesis using leq_trans [OF cN tf_carrier [OF start(2) cv(1)] cv(2)] by blast
  qed
  have "set (successors G start) \<subseteq> N" "\<forall>s \<in> set (successors G start). \<forall>val \<in> Sols. isLessOrEqual I New (val s)"
    using closed start(1) flow by blast+
  from mfp_successors_correct [OF N(1,2) Sols N(4) start(1) cN mid this] obtain S'
    where S': "mfp_successors I start (successors G start) S1 = Some S'"
      "mfp_mid I G N carrier tf init Sols start New (set (successors G start)) S'"
      "total_height height N S' < total_height height N S1
         \<or> total_height height N S' = total_height height N S1 \<and> Worklist S' = Worklist S1"
    by auto
  have "mfp_iteration I G S = Some S'"
    using W r x S'(1) by (simp add: mfp_iteration_def S1_def in_of_def)
  moreover have "mfp_invariant I G N carrier tf init Sols S'"
    using S'(2) by (auto simp: mfp_mid_def mfp_invariant_def settled_def)
  moreover have "total_height height N S1 = total_height height N S" by (simp add: total_height_def in1)
  ultimately show ?thesis using S'(3) W by (auto simp: S1_def)
qed

lemma mfp_loop_correct:
  assumes N: "finite N" "N \<subseteq> Nodes" "\<forall>val \<in> Sols. mfp_solution I G N carrier tf init val" "\<forall>l \<in> N. carrier (init l)"
    and closed: "\<forall>l \<in> N. set (successors G l) \<subseteq> N"
    and "mfp_invariant I G N carrier tf init Sols S"
  shows "\<exists>S'. mfp_loop I G S = Some S' \<and> mfp_invariant I G N carrier tf init Sols S' \<and> Worklist S' = []"
  using assms(6)
proof (induction S rule: wf_induct_rule [OF wf_inv_image [OF wf_lex_prod [OF wf_less_than wf_less_than],
        of "\<lambda>S. (total_height height N S, length (Worklist S))"]])
  case (1 S)
  show ?case
  proof (cases "Worklist S")
    case Nil
    then show ?thesis using 1(2) by (simp add: mfp_loop.simps)
  next
    case (Cons w Rest)
    obtain p start where w: "w = (p, start)" by (cases w)
    obtain S' where S': "mfp_iteration I G S = Some S'" "mfp_invariant I G N carrier tf init Sols S'"
        "total_height height N S' < total_height height N S
         \<or> total_height height N S' = total_height height N S \<and> length (Worklist S') < length (Worklist S)"
      using mfp_iteration_correct [OF N closed 1(2), of p start Rest] Cons w by auto
    have "(S', S) \<in> inv_image (less_than <*lex*> less_than) (\<lambda>S. (total_height height N S, length (Worklist S)))"
      using S'(3) by auto
    from 1(1) [OF this S'(2)] S'(1) Cons show ?thesis by (simp add: mfp_loop.simps [of I G S])
  qed
qed

end

text \<open>The state after the nodes \<open>V\<close> have been put on the worklist.\<close>

definition mfp_initial ::
  "('l \<rightharpoonup> 'e MFPResult) \<Rightarrow> ('l \<Rightarrow> 'e) \<Rightarrow> 'l set \<Rightarrow> ('l, 'e, 'x) MFPState \<Rightarrow> bool" where
  "mfp_initial Ext init V S \<longleftrightarrow>
     snd ` set (Worklist S) = V \<and> dom (LabelPriority S) = V
     \<and> (\<forall>l \<in> V. AnalysisResult S l \<noteq> None \<and> in_of S l = init l)
     \<and> (\<forall>l. l \<notin> V \<longrightarrow> AnalysisResult S l = Ext l)"

definition mfp_init_value :: "'e \<Rightarrow> 'e \<Rightarrow> 'l list \<Rightarrow> 'l \<Rightarrow> 'e" where
  "mfp_init_value Bot Ext ELs l = (if l \<in> set ELs then Ext else Bot)"

lemma mfp_init_extremal_eq:
  "mfp_init_extremal Default Ext ELs l =
    (if l \<in> set ELs then Some \<lparr>InValue = Ext, OutValue = Default\<rparr> else None)"
proof (induction ELs arbitrary: l rule: rev_induct)
  case Nil
  then show ?case by (simp add: mfp_init_extremal_def)
next
  case (snoc x xs)
  have "mfp_init_extremal Default Ext (xs @ [x]) = set_InValue Default (mfp_init_extremal Default Ext xs) x Ext"
    by (simp add: mfp_init_extremal_def)
  then show ?case using snoc [of l] snoc [of x] by (auto simp: set_InValue_def)
qed

lemma mfp_init_node_correct:
  assumes "mfp_initial (mfp_init_extremal Default Ext ELs) (mfp_init_value Bot Ext ELs) V S" "n \<notin> V"
  shows "mfp_initial (mfp_init_extremal Default Ext ELs) (mfp_init_value Bot Ext ELs) (insert n V)
    (mfp_init_node Default Bot n S)"
  using assms
  by (auto simp: mfp_initial_def mfp_init_node_def Let_def set_insort_insert in_of_def set_InValue_def
      mfp_init_value_def mfp_init_extremal_eq split: if_splits)

lemma mfp_init_nodes_correct:
  assumes "mfp_initial (mfp_init_extremal Default Ext ELs) (mfp_init_value Bot Ext ELs) V S"
    "distinct ns" "set ns \<inter> V = {}"
  shows "mfp_initial (mfp_init_extremal Default Ext ELs) (mfp_init_value Bot Ext ELs) (V \<union> set ns)
    (fold (mfp_init_node Default Bot) ns S)"
  using assms
proof (induction ns arbitrary: V S)
  case (Cons n ns)
  from Cons.IH [OF mfp_init_node_correct [OF Cons.prems(1)], of n] Cons.prems(2,3)
  show ?case by auto
qed simp

lemma reachable_closed:
  assumes "\<forall>l \<in> V. set (successors G l) \<subseteq> V"
  shows "(edges G)\<^sup>* `` V \<subseteq> V"
proof -
  have "b \<in> V" if "(a, b) \<in> (edges G)\<^sup>*" "a \<in> V" for a b
    using that by (induction rule: rtrancl_induct) (use assms in \<open>auto simp: edges_def\<close>)
  then show ?thesis by blast
qed

lemma reachable_eq: "\<forall>l \<in> V. set (successors G l) \<subseteq> V \<Longrightarrow> (edges G)\<^sup>* `` V = V"
  using reachable_closed [of V G] by blast

context post_order_graph
begin

lemma mfp_init_worklist_correct:
  assumes "mfp_initial (mfp_init_extremal Default Ext ELs) (mfp_init_value Bot Ext ELs) V S"
    "\<forall>l \<in> V. set (successors G l) \<subseteq> V"
  shows "mfp_initial (mfp_init_extremal Default Ext ELs) (mfp_init_value Bot Ext ELs)
      (V \<union> (edges G)\<^sup>* `` set starts) (mfp_init_worklist G Default Bot starts V S)"
  using assms
proof (induction starts arbitrary: V S)
  case Nil
  then show ?case by auto
next
  case (Cons s starts)
  show ?case
  proof (cases "s \<in> V")
    case True
    then have "V \<union> (edges G)\<^sup>* `` set (s # starts) = V \<union> (edges G)\<^sup>* `` set starts"
      using reachable_closed [OF Cons.prems(2)] by auto
    then show ?thesis using True Cons.IH [OF Cons.prems] by simp
  next
    case False
    obtain ns V' where po: "po_ext G s V = (ns, V')" by fastforce
    have *: "s \<in> set ns" "distinct ns" "set ns \<inter> V = {}" "V' = V \<union> set ns"
        "\<forall>n \<in> set ns. set (successors G n) \<subseteq> V'" "\<forall>n \<in> set ns. (s, n) \<in> (edges G)\<^sup>*"
      using po_visits [OF False po] by blast+
    have init: "mfp_initial (mfp_init_extremal Default Ext ELs) (mfp_init_value Bot Ext ELs) V'
        (fold (mfp_init_node Default Bot) (rev ns) S)"
      using mfp_init_nodes_correct [OF Cons.prems(1), of "rev ns"] *(2-4) by simp
    have closed: "\<forall>l \<in> V'. set (successors G l) \<subseteq> V'" using Cons.prems(2) *(4,5) by blast
    have "V' \<union> (edges G)\<^sup>* `` set starts = V \<union> (edges G)\<^sup>* `` set (s # starts)"
      using reachable_closed [OF closed] *(1,4,6) by auto
    then show ?thesis using Cons.IH [OF init closed] False po
      by (simp add: ReversePostOrderTraversalExt_def)
  qed
qed

end

locale mfp_solver = post_order_graph G + monotone_framework I carrier height G Nodes tf
  for I :: "('l::linorder, 'e, 'x) MonotoneFrameworkInstance" and carrier height G Nodes tf
begin

lemma impl_least_solution:
  assumes C: "Instance C = Some I" "Flow C = G" "Bottom C = Some Bot" "ExtremalValue C = Some Ext"
      "ExtremalLabels C = Some ELs" "cfg_ExtraState C = Some X"
      "ResolveEntryLabels G (EntryLabels C) = Some Es"
    and N: "N = (edges G)\<^sup>* `` set Es" "finite N" "set Es \<subseteq> Nodes" "carrier Bot" "carrier Ext"
  shows "\<exists>R X' val. getMaximalFixedPointImpl Default C = Some (R, X')
      \<and> (\<forall>l \<in> N. R l = Some \<lparr>InValue = val l, OutValue = tf l (val l)\<rparr>)
      \<and> mfp_solution I G N carrier tf (mfp_init_value Bot Ext ELs) val
      \<and> (\<forall>val'. mfp_solution I G N carrier tf (mfp_init_value Bot Ext ELs) val'
           \<longrightarrow> (\<forall>l \<in> N. isLessOrEqual I (val l) (val' l)))"
proof -
  let ?init = "mfp_init_value Bot Ext ELs"
  define Sols where "Sols = {val'. mfp_solution I G N carrier tf ?init val'}"
  define S where "S = mfp_init_worklist G Default Bot Es {} \<lparr>AnalysisResult = mfp_init_extremal Default Ext ELs,
      Worklist = [], LabelPriority = Map.empty, st_ExtraState = X\<rparr>"
  have ci: "\<forall>l \<in> N. carrier (?init l)" using N(4,5) by (simp add: mfp_init_value_def)
  have closed: "\<forall>l \<in> N. set (successors G l) \<subseteq> N"
    unfolding N(1) by (auto simp: edges_def intro: rtrancl_into_rtrancl)
  have sub: "N \<subseteq> Nodes"
    using reachable_closed [of Nodes] nodes_closed N(3) unfolding N(1) by blast
  have "mfp_initial (mfp_init_extremal Default Ext ELs) ?init ({} \<union> N) S"
    unfolding S_def N(1) by (rule mfp_init_worklist_correct) (simp_all add: mfp_initial_def)
  then have inv: "mfp_invariant I G N carrier tf ?init Sols S"
    using ci leq_refl
    by (auto simp: mfp_initial_def mfp_invariant_def mfp_base_def Sols_def mfp_solution_def)
  obtain S' where S': "mfp_loop I G S = Some S'" "mfp_invariant I G N carrier tf ?init Sols S'" "Worklist S' = []"
    using mfp_loop_correct [OF N(2) sub _ ci closed inv] by (auto simp: Sols_def)
  have settled': "settled I G tf S' l" if "l \<in> N" for l using that S'(2,3) by (simp add: mfp_invariant_def)
  have base': "mfp_base I N carrier ?init Sols S'" using S'(2) by (simp add: mfp_invariant_def)
  have result: "AnalysisResult S' l = Some \<lparr>InValue = in_of S' l, OutValue = tf l (in_of S' l)\<rparr>" if "l \<in> N" for l
    using settled' [OF that] base' that by (auto simp: settled_def mfp_base_def in_of_def out_of_def)
  have "isLessOrEqual I (tf l (in_of S' l)) (in_of S' s)" if "l \<in> N" "s \<in> set (successors G l)" for l s
    using settled' [OF that(1)] that(2) unfolding settled_def by metis
  then have "mfp_solution I G N carrier tf ?init (in_of S')"
    using base' by (simp add: mfp_solution_def mfp_base_def)
  moreover have "getMaximalFixedPointImpl Default C = Some (AnalysisResult S', st_ExtraState S')"
    using C S'(1) by (simp add: getMaximalFixedPointImpl_def S_def)
  ultimately show ?thesis using result base' by (auto simp: mfp_base_def Sols_def)
qed

text \<open>The way the register usage analyses run the solver: every node is an entry label.\<close>

lemma all_entries_least_solution:
  assumes "graph_nodes G = Some Ns" "Nodes = set Ns" "carrier D"
  shows "\<exists>R X' val. getMaximalFixedPoint DI Default X \<lparr>Instance = Some I, Flow = G, Bottom = Some D,
        ExtremalValue = Some D, ExtremalLabels = Some ELs, EntryLabels = All, cfg_ExtraState = None\<rparr> = Some (R, X')
      \<and> (\<forall>l \<in> Nodes. R l = Some \<lparr>InValue = val l, OutValue = tf l (val l)\<rparr>)
      \<and> mfp_solution I G Nodes carrier tf (\<lambda>_. D) val
      \<and> (\<forall>val'. mfp_solution I G Nodes carrier tf (\<lambda>_. D) val'
           \<longrightarrow> (\<forall>l \<in> Nodes. isLessOrEqual I (val l) (val' l)))"
proof -
  let ?C = "\<lparr>Instance = Some I, Flow = G, Bottom = Some D, ExtremalValue = Some D,
      ExtremalLabels = Some ELs, EntryLabels = All, cfg_ExtraState = Some X\<rparr>"
  have init: "mfp_init_value D D ELs = (\<lambda>_. D)" by (simp add: mfp_init_value_def fun_eq_iff)
  have N: "Nodes = (edges G)\<^sup>* `` set Ns"
    unfolding assms(2) using nodes_closed assms(2) by (intro reachable_eq [symmetric]) blast
  have "\<exists>R X' val. getMaximalFixedPointImpl Default ?C = Some (R, X')
      \<and> (\<forall>l \<in> Nodes. R l = Some \<lparr>InValue = val l, OutValue = tf l (val l)\<rparr>)
      \<and> mfp_solution I G Nodes carrier tf (mfp_init_value D D ELs) val
      \<and> (\<forall>val'. mfp_solution I G Nodes carrier tf (mfp_init_value D D ELs) val'
           \<longrightarrow> (\<forall>l \<in> Nodes. isLessOrEqual I (val l) (val' l)))"
    by (rule impl_least_solution [where Es = Ns and X = X, OF _ _ _ _ _ _ _ N]) (use assms in \<open>simp_all add: ResolveEntryLabels_def\<close>)
  then show ?thesis unfolding init by (simp add: getMaximalFixedPoint_def)
qed

end

section \<open>A post-order traversal\<close>

text \<open>
  A depth-first traversal of a finite graph keeps the promise of \<^verbatim>\<open>po_ext_iterator\<close>. The fuel
  bounds the depth; the number of nodes is enough.
\<close>

fun dfs_from :: "nat \<Rightarrow> ('l \<Rightarrow> 'l list) \<Rightarrow> 'l list \<Rightarrow> 'l set \<Rightarrow> 'l list \<times> 'l set" where
  "dfs_from k succ [] V = ([], V)"
| "dfs_from 0 succ (s # ss) V = ([], V)"
| "dfs_from (Suc k) succ (s # ss) V =
     (if s \<in> V then dfs_from (Suc k) succ ss V
      else let (ns, V1) = dfs_from k succ (succ s) (insert s V);
               (ms, V2) = dfs_from (Suc k) succ ss V1
           in (ns @ s # ms, V2))"

definition dfs_graph :: "'l list \<Rightarrow> ('l \<Rightarrow> 'l list) \<Rightarrow> 'l Graph" where
  "dfs_graph U succ =
     (let succ' = (\<lambda>l. if l \<in> set U then filter (\<lambda>s. s \<in> set U) (succ l) else [])
      in \<lparr>successors = succ', getEntryNode = (case U of [] \<Rightarrow> None | l # _ \<Rightarrow> Some l),
          graph_nodes = Some U, po_ext = (\<lambda>s V. dfs_from (Suc (length U)) succ' [s] V)\<rparr>)"

definition dfs_visits :: "('l \<Rightarrow> 'l list) \<Rightarrow> 'l list \<Rightarrow> 'l set \<Rightarrow> 'l list \<times> 'l set \<Rightarrow> bool" where
  "dfs_visits succ ss V = (\<lambda>(ns, V').
     set ss \<subseteq> V' \<and> distinct ns \<and> set ns \<inter> V = {} \<and> V' = V \<union> set ns
     \<and> (\<forall>n \<in> set ns. set (succ n) \<subseteq> V')
     \<and> set ns \<subseteq> {(a, b). b \<in> set (succ a)}\<^sup>* `` set ss)"

lemma dfs_visits_step:
  assumes "dfs_visits succ (succ s) (insert s V) (ns, V1)" "dfs_visits succ ss V1 (ms, V2)" "s \<notin> V"
  shows "dfs_visits succ (s # ss) V (ns @ s # ms, V2)"
proof -
  have "set ns \<subseteq> {(a, b). b \<in> set (succ a)}\<^sup>* `` {s}"
  proof
    fix n
    assume "n \<in> set ns"
    then obtain t where "t \<in> set (succ s)" "(t, n) \<in> {(a, b). b \<in> set (succ a)}\<^sup>*"
      using assms(1) by (auto simp: dfs_visits_def)
    then show "n \<in> {(a, b). b \<in> set (succ a)}\<^sup>* `` {s}"
      using converse_rtrancl_into_rtrancl [of s t "{(a, b). b \<in> set (succ a)}" n] by simp
  qed
  moreover have "set ms \<subseteq> {(a, b). b \<in> set (succ a)}\<^sup>* `` set ss" "set ms \<inter> V1 = {}" "V1 = insert s V \<union> set ns"
    using assms(1,2) by (auto simp: dfs_visits_def)
  ultimately show ?thesis using assms by (auto simp: dfs_visits_def)
qed

lemma dfs_correct:
  assumes "finite U"
  shows "\<forall>l \<in> U. set (succ l) \<subseteq> U \<Longrightarrow> set ss \<subseteq> U \<Longrightarrow> card (U - V) \<le> k \<Longrightarrow>
    dfs_visits succ ss V (dfs_from k succ ss V)"
proof (induction k succ ss V rule: dfs_from.induct)
  case (2 succ s ss V)
  then have "U \<subseteq> V" using assms(1) by simp
  with 2 show ?case by (auto simp: dfs_visits_def)
next
  case (3 k succ s ss V)
  show ?case
  proof (cases "s \<in> V")
    case True
    then have "dfs_visits succ ss V (dfs_from (Suc k) succ ss V)" using 3 by simp
    then show ?thesis using True by (auto simp: dfs_visits_def, blast)
  next
    case False
    obtain ns V1 where d1: "dfs_from k succ (succ s) (insert s V) = (ns, V1)" by fastforce
    obtain ms V2 where d2: "dfs_from (Suc k) succ ss V1 = (ms, V2)" by fastforce
    have s: "s \<in> U" "set (succ s) \<subseteq> U" "set ss \<subseteq> U" using "3.prems"(1,2) by auto
    have "U - insert s V = (U - V) - {s}" by auto
    then have "card (U - insert s V) \<le> k" using "3.prems"(3) s(1) False assms by simp
    then have v1: "dfs_visits succ (succ s) (insert s V) (ns, V1)"
      using "3.IH"(2) [OF False "3.prems"(1) s(2)] d1 by simp
    then have "U - V1 \<subseteq> U - V" by (auto simp: dfs_visits_def)
    then have "card (U - V1) \<le> card (U - V)" using assms by (simp add: card_mono)
    then have "dfs_visits succ ss V1 (ms, V2)"
      using "3.IH"(3) [OF False d1 [symmetric] refl "3.prems"(1) s(3)] d2 "3.prems"(3) by simp
    from dfs_visits_step [OF v1 this False] show ?thesis using False d1 d2 by simp
  qed
qed (simp add: dfs_visits_def)

lemma dfs_graph_post_order: "post_order_graph (dfs_graph U succ)"
proof
  fix s V ns V'
  assume s: "s \<notin> V" and po: "po_ext (dfs_graph U succ) s V = (ns, V')"
  let ?succ = "successors (dfs_graph U succ)"
  have E: "{(a, b). b \<in> set (?succ a)} = edges (dfs_graph U succ)" by (simp add: edges_def)
  have "card (insert s (set U) - V) \<le> Suc (length U)"
    using card_mono [of "insert s (set U)" "insert s (set U) - V"] card_insert_le_m1 card_length [of U]
    by (simp add: card_insert_if split: if_splits)
  then have "dfs_visits ?succ [s] V (dfs_from (Suc (length U)) ?succ [s] V)"
    by (intro dfs_correct [of "insert s (set U)"]) (auto simp: dfs_graph_def Let_def)
  moreover have "dfs_from (Suc (length U)) ?succ [s] V = (ns, V')" using po by (simp add: dfs_graph_def Let_def)
  ultimately have "dfs_visits ?succ [s] V (ns, V')" by simp
  then show "s \<in> set ns \<and> distinct ns \<and> set ns \<inter> V = {} \<and> V' = V \<union> set ns
      \<and> (\<forall>n \<in> set ns. set (?succ n) \<subseteq> V') \<and> (\<forall>n \<in> set ns. (s, n) \<in> (edges (dfs_graph U succ))\<^sup>*)"
    using s by (auto simp: dfs_visits_def E)
qed

interpretation dfs: post_order_graph "dfs_graph U succ" for U and succ
  by (rule dfs_graph_post_order)

section \<open>The set lattices\<close>

lemma SetUnion_isLessOrEqual_iff: "finite R \<Longrightarrow> SetUnion_isLessOrEqual L R \<longleftrightarrow> L \<subseteq> R"
  using card_mono [of R L] by (auto simp: SetUnion_isLessOrEqual_def)

lemma SetIntersection_isLessOrEqual_iff: "finite L \<Longrightarrow> SetIntersection_isLessOrEqual L R \<longleftrightarrow> R \<subseteq> L"
  using card_mono [of L R] by (auto simp: SetIntersection_isLessOrEqual_def)

lemma set_union_lattice:
  assumes "finite U"
  shows "mfp_lattice SetUnion_combineValues SetUnion_isLessOrEqual (\<lambda>e. e \<subseteq> U) (\<lambda>e. card (U - e))"
proof -
  have leq: "SetUnion_isLessOrEqual a b \<longleftrightarrow> a \<subseteq> b" if "b \<subseteq> U" for a b
    using SetUnion_isLessOrEqual_iff finite_subset [OF that assms] by blast
  have "card (U - (a \<union> b)) < card (U - a)" if "b \<subseteq> U" "\<not> b \<subseteq> a" for a b
    by (rule psubset_card_mono) (use assms that in auto)
  then show ?thesis
    by unfold_locales (auto simp: leq SetUnion_combineValues_def)
qed

lemma set_intersection_lattice:
  assumes "finite U"
  shows "mfp_lattice SetIntersection_combineValues SetIntersection_isLessOrEqual (\<lambda>e. e \<subseteq> U) card"
proof -
  have leq: "SetIntersection_isLessOrEqual a b \<longleftrightarrow> b \<subseteq> a" if "a \<subseteq> U" for a b
    using SetIntersection_isLessOrEqual_iff finite_subset [OF that assms] by blast
  have "card (a \<inter> b) < card a" if "a \<subseteq> U" "\<not> a \<subseteq> b" for a b
    by (rule psubset_card_mono) (use assms that finite_subset in auto)
  then show ?thesis
    by unfold_locales (auto simp: leq le_infI1 SetIntersection_combineValues_def)
qed

interpretation set_union: mfp_lattice SetUnion_combineValues SetUnion_isLessOrEqual
  "\<lambda>e :: 'a::finite set. e \<subseteq> UNIV" "\<lambda>e. card (UNIV - e)"
  by (rule set_union_lattice) simp

interpretation set_intersection: mfp_lattice SetIntersection_combineValues SetIntersection_isLessOrEqual
  "\<lambda>e :: 'a::finite set. e \<subseteq> UNIV" card
  by (rule set_intersection_lattice) simp

section \<open>The properties\<close>

text \<open>
  \<^bold>\<open>C6\<close>. The solver returns, on every monotone framework over a lattice without infinite
  ascending chains, and its result is the least solution of the data-flow equations: each
  node reachable from the entry labels has an entry, whose final value is the transfer function
  of its initial value; the initial values are above \<open>Bottom\<close> (on the extremal labels above the
  extremal value), absorb the final values of the predecessors, and are below every other
  solution. Unset fields of the configuration stand for default-constructed values.
\<close>

theorem mfp_least_solution:
  assumes G: "post_order_graph (Flow C)"
    and I: "monotone_framework I carrier height (Flow C) Nodes tf"
    and "(case Instance C of None \<Rightarrow> DefaultInstance | Some i \<Rightarrow> Some i) = Some I"
    and "ResolveEntryLabels (Flow C) (EntryLabels C) = Some Es" "set Es \<subseteq> Nodes"
    and "N = (edges (Flow C))\<^sup>* `` set Es" "finite N"
    and "Bot = (case Bottom C of None \<Rightarrow> Default | Some b \<Rightarrow> b)" "carrier Bot"
    and "Ext = (case ExtremalValue C of None \<Rightarrow> Default | Some v \<Rightarrow> v)" "carrier Ext"
    and "ELs = (case ExtremalLabels C of None \<Rightarrow> [] | Some Ls \<Rightarrow> Ls)"
  shows "\<exists>R X val. getMaximalFixedPoint DefaultInstance Default DefaultExtraState C = Some (R, X)
      \<and> (\<forall>l \<in> N. R l = Some \<lparr>InValue = val l, OutValue = tf l (val l)\<rparr>)
      \<and> (\<forall>l \<in> N. carrier (val l) \<and> isLessOrEqual I (if l \<in> set ELs then Ext else Bot) (val l)
           \<and> (\<forall>s \<in> set (successors (Flow C) l). isLessOrEqual I (tf l (val l)) (val s)))
      \<and> (\<forall>val'. (\<forall>l \<in> N. carrier (val' l) \<and> isLessOrEqual I (if l \<in> set ELs then Ext else Bot) (val' l)
              \<and> (\<forall>s \<in> set (successors (Flow C) l). isLessOrEqual I (tf l (val' l)) (val' s)))
           \<longrightarrow> (\<forall>l \<in> N. isLessOrEqual I (val l) (val' l)))"
proof -
  let ?C = "C\<lparr>Instance := Some I, Bottom := Some Bot, ExtremalValue := Some Ext, ExtremalLabels := Some ELs,
      cfg_ExtraState := Some (case cfg_ExtraState C of None \<Rightarrow> DefaultExtraState | Some x \<Rightarrow> x)\<rparr>"
  have eq: "getMaximalFixedPoint DefaultInstance Default DefaultExtraState C = getMaximalFixedPointImpl Default ?C"
    unfolding getMaximalFixedPoint_def assms(3,8,10,12) ..
  have S: "mfp_solver I carrier height (Flow C) Nodes tf" by (rule mfp_solver.intro [OF G I])
  show ?thesis
    unfolding eq
    using mfp_solver.impl_least_solution [OF S, of ?C Bot Ext ELs _ Es N Default] assms(4-7,9,11)
    unfolding mfp_solution_def mfp_init_value_def by simp
qed

text \<open>For the witness: the labels on the paths to a node, on a loop of two nodes.\<close>

definition labels_before :: "(nat, nat set, unit) MonotoneFrameworkInstance" where
  "labels_before = \<lparr>combineValues = SetUnion_combineValues, isLessOrEqual = SetUnion_isLessOrEqual,
     applyTransferFunction = (\<lambda>l e x. Some (insert l e, x))\<rparr>"

definition two_nodes :: "nat Graph" where
  "two_nodes = dfs_graph [0, 1] (\<lambda>l. [1 - l])"

definition labels_before_configuration :: "(nat, nat set, unit) MFPConfiguration" where
  "labels_before_configuration = \<lparr>Instance = Some labels_before, Flow = two_nodes, Bottom = None,
     ExtremalValue = None, ExtremalLabels = None, EntryLabels = Entry, cfg_ExtraState = None\<rparr>"

lemma two_nodes_simps [simp]:
  "successors two_nodes l = (if l = 0 then [1] else if l = 1 then [0] else [])"
  "getEntryNode two_nodes = Some 0"
  by (auto simp: two_nodes_def dfs_graph_def Let_def)

lemma two_nodes_reachable: "(edges two_nodes)\<^sup>* `` {0} = {0, 1}"
proof
  show "(edges two_nodes)\<^sup>* `` {0} \<subseteq> {0, 1}"
    using reachable_closed [of "{0, 1}" two_nodes] by auto
  have "(0, 1) \<in> edges two_nodes" by (simp add: edges_def)
  then show "{0, 1} \<subseteq> (edges two_nodes)\<^sup>* `` {0}" by auto
qed

lemma labels_before_framework:
  "monotone_framework labels_before (\<lambda>e. e \<subseteq> {0, 1}) (\<lambda>e. card ({0, 1} - e)) two_nodes {0, 1} insert"
proof -
  have leq: "SetUnion_isLessOrEqual a b \<longleftrightarrow> a \<subseteq> b" if "b \<subseteq> {0, 1 :: nat}" for a b
    using SetUnion_isLessOrEqual_iff finite_subset [OF that] by blast
  have "mfp_lattice (combineValues labels_before) (isLessOrEqual labels_before)
      (\<lambda>e. e \<subseteq> {0, 1}) (\<lambda>e. card ({0, 1} - e))"
    using set_union_lattice [of "{0, 1 :: nat}"] by (simp add: labels_before_def)
  then show ?thesis
    by (intro monotone_framework.intro monotone_framework_axioms.intro)
      (auto simp: labels_before_def leq)
qed

lemma labels_before_leq: "finite b \<Longrightarrow> isLessOrEqual labels_before a b \<longleftrightarrow> a \<subseteq> b"
  by (simp add: labels_before_def SetUnion_isLessOrEqual_iff)

theorem mfp_least_solution_witness:
  "\<exists>R X val. getMaximalFixedPoint None {} () labels_before_configuration = Some (R, X)
     \<and> R 0 = Some \<lparr>InValue = val 0, OutValue = insert 0 (val 0)\<rparr> \<and> 0 \<in> val (1 :: nat) \<and> val 1 \<subseteq> {0, 1 :: nat}"
proof -
  have C: "Instance labels_before_configuration = Some labels_before" "Flow labels_before_configuration = two_nodes"
      "Bottom labels_before_configuration = None" "ExtremalValue labels_before_configuration = None"
      "ExtremalLabels labels_before_configuration = None"
      "ResolveEntryLabels two_nodes (EntryLabels labels_before_configuration) = Some [0]"
    by (simp_all add: labels_before_configuration_def ResolveEntryLabels_def)
  have G: "post_order_graph two_nodes" unfolding two_nodes_def by (rule dfs_graph_post_order)
  have N: "set [0] \<subseteq> {0, 1 :: nat}" "{0, 1} = (edges two_nodes)\<^sup>* `` set [0]" "finite {0, 1 :: nat}"
      "{} \<subseteq> {0, 1 :: nat}"
    by (simp_all add: two_nodes_reachable)
  from mfp_least_solution [of labels_before_configuration, unfolded C option.case,
      OF G labels_before_framework refl refl N(1-3) refl N(4) refl N(4) refl, of None "()"]
  obtain R X val
    where R: "getMaximalFixedPoint None {} () labels_before_configuration = Some (R, X)"
      "\<forall>l \<in> {0, 1}. R l = Some \<lparr>InValue = val l, OutValue = insert l (val l)\<rparr>"
    and val: "\<forall>l \<in> {0, 1}. val l \<subseteq> {0, 1}
        \<and> isLessOrEqual labels_before (if l \<in> set [] then {} else {}) (val l)
        \<and> (\<forall>s \<in> set (successors two_nodes l). isLessOrEqual labels_before (insert l (val l)) (val s))"
    by (elim exE conjE) (rule that)
  have "val 1 \<subseteq> {0, 1}" "isLessOrEqual labels_before (insert 0 (val 0)) (val 1)" using val by simp_all
  then have "0 \<in> val 1" using labels_before_leq [of "val 1" "insert 0 (val 0)"] finite_subset by blast
  then show ?thesis using R \<open>val 1 \<subseteq> {0, 1}\<close>
    by (intro exI [of _ R] exI [of _ X] exI [of _ val]) simp
qed

text \<open>
  \<^bold>\<open>Fact\<close>. On the subsets of a finite set, the union lattice and the intersection lattice are
  lattices in the sense of the solver, without infinite ascending chains; the test of the
  sizes before \<^verbatim>\<open>std::includes\<close> does not change the order.
\<close>

theorem set_lattices_correct:
  assumes "finite U"
  shows "mfp_lattice SetUnion_combineValues SetUnion_isLessOrEqual (\<lambda>e. e \<subseteq> U) (\<lambda>e. card (U - e))
    \<and> mfp_lattice SetIntersection_combineValues SetIntersection_isLessOrEqual (\<lambda>e. e \<subseteq> U) card
    \<and> (\<forall>L R. L \<subseteq> U \<and> R \<subseteq> U \<longrightarrow> (SetUnion_isLessOrEqual L R \<longleftrightarrow> L \<subseteq> R)
         \<and> (SetIntersection_isLessOrEqual L R \<longleftrightarrow> R \<subseteq> L))"
  by (intro conjI allI impI set_union_lattice [OF assms] set_intersection_lattice [OF assms]
      SetUnion_isLessOrEqual_iff SetIntersection_isLessOrEqual_iff) (auto intro: finite_subset [OF _ assms])

theorem set_lattices_correct_witness:
  "SetUnion_isLessOrEqual {1} {1, 2 :: nat} \<and> SetIntersection_isLessOrEqual {1, 2 :: nat} {1}"
  using set_lattices_correct [of "{1, 2 :: nat}"] by simp

text \<open>
  \<^bold>\<open>Fact\<close>. The extra state: only a position marked as interesting is ever written or read, what
  was recorded last is what is read, marking a position again keeps its value, and reading a
  position that is not marked fails.
\<close>

theorem extra_state_laws:
  "get_value Pos (register_value Pos' Map K' V) K =
     (if (K, Pos) = (K', Pos') \<and> get_value Pos Map K \<noteq> None then Some V else get_value Pos Map K)
   \<and> get_value Pos (registerAsInteresting Default Pos' Map K') K =
     (if (K, Pos) = (K', Pos') \<and> get_value Pos Map K = None then Some Default else get_value Pos Map K)"
  by (auto simp: get_value_def register_value_def registerAsInteresting_def split: option.splits)

end
