(* ===== verification/Distributive_Analysis.thy ===== *)
theory Distributive_Analysis
  imports Maximal_Fixed_Point
begin

text \<open>
  Analyses whose transfer functions work on each fact alone: a block generates some facts and turns
  a fact that reaches it into others. For these the least solution that the solver of
  src/include/revng/MFP/MFP.h computes is exact: it holds the facts that flow along the edges of the
  graph and no others. The register usage analyses are of this kind.
\<close>

section \<open>Facts that flow along the edges\<close>

inductive_set flowing :: "('l \<Rightarrow> 'l list) \<Rightarrow> 'l set \<Rightarrow> ('l \<Rightarrow> 'f set) \<Rightarrow> ('l \<Rightarrow> ('f \<times> 'f) set) \<Rightarrow> ('l \<times> 'f) set"
  for succ :: "'l \<Rightarrow> 'l list" and Nodes :: "'l set" and gen :: "'l \<Rightarrow> 'f set" and flow :: "'l \<Rightarrow> ('f \<times> 'f) set" where
  generated: "l \<in> Nodes \<Longrightarrow> f \<in> gen l \<Longrightarrow> (l, f) \<in> flowing succ Nodes gen flow"
| flows: "(k, g) \<in> flowing succ Nodes gen flow \<Longrightarrow> l \<in> set (succ k) \<Longrightarrow> (g, f) \<in> flow l
    \<Longrightarrow> (l, f) \<in> flowing succ Nodes gen flow"

definition incoming :: "('l \<Rightarrow> 'l list) \<Rightarrow> ('l \<times> 'f) set \<Rightarrow> 'l \<Rightarrow> 'f set" where
  "incoming succ E l = {f. \<exists>k. l \<in> set (succ k) \<and> (k, f) \<in> E}"

lemma flowing_unfold:
  assumes "l \<in> Nodes"
  shows "(l, f) \<in> flowing succ Nodes gen flow
    \<longleftrightarrow> f \<in> gen l \<union> flow l `` incoming succ (flowing succ Nodes gen flow) l"
proof
  assume "(l, f) \<in> flowing succ Nodes gen flow"
  then show "f \<in> gen l \<union> flow l `` incoming succ (flowing succ Nodes gen flow) l"
    by cases (auto simp: incoming_def)
qed (use assms in \<open>auto simp: incoming_def intro: flowing.intros\<close>)

section \<open>The solver computes them\<close>

locale distributive_analysis = mfp_solver I carrier height G Nodes tf
  for I :: "('l::linorder, 'e, 'x) MonotoneFrameworkInstance" and carrier height G Nodes tf +
  fixes facts :: "'e \<Rightarrow> 'f set"
    and Univ :: "'f set"
    and gen :: "'l \<Rightarrow> 'f set"
    and flow :: "'l \<Rightarrow> ('f \<times> 'f) set"
  assumes leq_facts: "carrier a \<Longrightarrow> carrier b \<Longrightarrow> isLessOrEqual I a b \<longleftrightarrow> facts a \<subseteq> facts b"
    and facts_bound: "carrier a \<Longrightarrow> facts a \<subseteq> Univ"
    and facts_onto: "S \<subseteq> Univ \<Longrightarrow> \<exists>a. carrier a \<and> facts a = S"
    and tf_facts: "l \<in> Nodes \<Longrightarrow> carrier a \<Longrightarrow> facts (tf l a) = gen l \<union> flow l `` facts a"
begin

abbreviation E :: "('l \<times> 'f) set" where
  "E \<equiv> flowing (successors G) Nodes gen flow"

lemma flowing_nodes: "(l, f) \<in> E \<Longrightarrow> l \<in> Nodes"
  by (induction rule: flowing.induct) (use nodes_closed in blast)+

lemma flowing_bound: "(l, f) \<in> E \<Longrightarrow> f \<in> Univ"
proof (induction rule: flowing.induct)
  case (generated l f)
  obtain a where "carrier a" using facts_onto [of "{}"] by blast
  then show ?case using generated tf_facts [of l a] facts_bound [OF tf_carrier, of l a] by blast
next
  case (flows k g l f)
  have l: "l \<in> Nodes" using flowing_nodes [OF flows.hyps(1)] flows.hyps(2) nodes_closed by blast
  obtain a where a: "carrier a" "facts a = {g}" using facts_onto [of "{g}"] flows.IH by blast
  have "f \<in> facts (tf l a)" using tf_facts [OF l a(1)] a(2) flows.hyps(3) by blast
  then show ?case using facts_bound [OF tf_carrier [OF l a(1)]] by blast
qed

lemma flowing_in_solution:
  assumes "mfp_solution I G Nodes carrier tf init val"
  shows "(l, f) \<in> E \<Longrightarrow> f \<in> facts (tf l (val l))"
proof (induction rule: flowing.induct)
  case (generated l f)
  have "carrier (val l)" using assms generated.hyps(1) by (simp add: mfp_solution_def)
  then show ?case using tf_facts [OF generated.hyps(1)] generated.hyps(2) by blast
next
  case (flows k g l f)
  have k: "k \<in> Nodes" by (rule flowing_nodes [OF flows.hyps(1)])
  then have l: "l \<in> Nodes" using flows.hyps(2) nodes_closed by blast
  have c: "carrier (val k)" "carrier (val l)" using assms k l by (simp_all add: mfp_solution_def)
  have "isLessOrEqual I (tf k (val k)) (val l)" using assms k flows.hyps(2) by (simp add: mfp_solution_def)
  then have "facts (tf k (val k)) \<subseteq> facts (val l)" using leq_facts [OF tf_carrier [OF k c(1)] c(2)] by blast
  then show ?case using flows.IH flows.hyps(3) tf_facts [OF l c(2)] by blast
qed

lemma flowing_is_solution:
  assumes val: "\<And>l. carrier (val l)" "\<And>l. facts (val l) = incoming (successors G) E l"
    and init: "\<And>l. carrier (init l)" "\<And>l. facts (init l) = {}"
  shows "mfp_solution I G Nodes carrier tf init val"
  unfolding mfp_solution_def
proof (intro ballI conjI)
  fix l assume l: "l \<in> Nodes"
  show "carrier (val l)" by (rule val)
  show "isLessOrEqual I (init l) (val l)" using leq_facts [OF init(1) val(1)] init(2) by simp
  fix s assume s: "s \<in> set (successors G l)"
  have "facts (tf l (val l)) \<subseteq> facts (val s)"
  proof
    fix f assume "f \<in> facts (tf l (val l))"
    then have "f \<in> gen l \<union> flow l `` incoming (successors G) E l" by (simp only: tf_facts [OF l val(1)] val(2))
    then have "(l, f) \<in> E" by (simp only: flowing_unfold [OF l, of f])
    then show "f \<in> facts (val s)" using s unfolding val(2) incoming_def by blast
  qed
  then show "isLessOrEqual I (tf l (val l)) (val s)" using leq_facts [OF tf_carrier [OF l val(1)] val(1)] by blast
qed

lemma solver_exact:
  assumes "graph_nodes G = Some Ns" "Nodes = set Ns" "carrier D" "facts D = {}"
  shows "\<exists>R X'. getMaximalFixedPoint DI Default X \<lparr>Instance = Some I, Flow = G, Bottom = Some D,
        ExtremalValue = Some D, ExtremalLabels = Some ELs, EntryLabels = All, cfg_ExtraState = None\<rparr> = Some (R, X')
      \<and> (\<forall>l \<in> Nodes. \<exists>v w. R l = Some \<lparr>InValue = v, OutValue = w\<rparr> \<and> carrier v \<and> carrier w
           \<and> facts v = incoming (successors G) E l \<and> facts w = {f. (l, f) \<in> E})"
proof -
  from all_entries_least_solution [OF assms(1-3), of DI Default X ELs] obtain R X' val where
    R: "getMaximalFixedPoint DI Default X \<lparr>Instance = Some I, Flow = G, Bottom = Some D,
        ExtremalValue = Some D, ExtremalLabels = Some ELs, EntryLabels = All, cfg_ExtraState = None\<rparr> = Some (R, X')"
      "\<forall>l \<in> Nodes. R l = Some \<lparr>InValue = val l, OutValue = tf l (val l)\<rparr>"
    and sol: "mfp_solution I G Nodes carrier tf (\<lambda>_. D) val"
    and least: "\<forall>val'. mfp_solution I G Nodes carrier tf (\<lambda>_. D) val' \<longrightarrow> (\<forall>l \<in> Nodes. isLessOrEqual I (val l) (val' l))"
    by (elim exE conjE) (rule that)
  have "incoming (successors G) E l \<subseteq> Univ" for l using flowing_bound by (auto simp: incoming_def)
  then have "\<exists>a. carrier a \<and> facts a = incoming (successors G) E l" for l by (rule facts_onto)
  then obtain val' where val': "\<And>l. carrier (val' l)" "\<And>l. facts (val' l) = incoming (successors G) E l" by metis
  have sol': "mfp_solution I G Nodes carrier tf (\<lambda>_. D) val'"
    by (rule flowing_is_solution [OF val' assms(3,4)])
  have c: "carrier (val l)" if "l \<in> Nodes" for l using sol that by (simp add: mfp_solution_def)
  have In: "facts (val l) = incoming (successors G) E l" if l: "l \<in> Nodes" for l
  proof
    have "isLessOrEqual I (val l) (val' l)" using least sol' l by blast
    then show "facts (val l) \<subseteq> incoming (successors G) E l" using leq_facts [OF c [OF l] val'(1)] val'(2) by blast
    show "incoming (successors G) E l \<subseteq> facts (val l)"
    proof
      fix f assume "f \<in> incoming (successors G) E l"
      then obtain k where k: "l \<in> set (successors G k)" "(k, f) \<in> E" by (auto simp: incoming_def)
      note kN = flowing_nodes [OF k(2)]
      have "isLessOrEqual I (tf k (val k)) (val l)" using sol kN k(1) by (simp add: mfp_solution_def)
      then have "facts (tf k (val k)) \<subseteq> facts (val l)"
        using leq_facts [OF tf_carrier [OF kN c [OF kN]] c [OF l]] by blast
      then show "f \<in> facts (val l)" using flowing_in_solution [OF sol k(2)] by blast
    qed
  qed
  have Out: "facts (tf l (val l)) = {f. (l, f) \<in> E}" if l: "l \<in> Nodes" for l
    using flowing_unfold [OF l, where succ = "successors G" and gen = gen and flow = flow]
    by (simp add: tf_facts [OF l c [OF l]] In [OF l] set_eq_iff)
  have "\<exists>v w. R l = Some \<lparr>InValue = v, OutValue = w\<rparr> \<and> carrier v \<and> carrier w
      \<and> facts v = incoming (successors G) E l \<and> facts w = {f. (l, f) \<in> E}" if l: "l \<in> Nodes" for l
    using R(2) l c [OF l] tf_carrier [OF l c [OF l]] In [OF l] Out [OF l]
    by (intro exI [of _ "val l"] exI [of _ "tf l (val l)"]) simp
  then show ?thesis using R(1) by (intro exI [of _ R] exI [of _ X'] conjI ballI)
qed

end

end
