(* ===== verification/Bit_Vector.thy ===== *)
theory Bit_Vector
  imports Revng_Prelude
begin

text \<open>
  \<^verbatim>\<open>llvm::BitVector\<close>, which the register usage analyses compute with, is not part of the sources: its
  operations are a parameter, and the locale \<open>bit_vector\<close> states what its documentation promises of
  them. Lists of truth values are an instance.
\<close>

section \<open>Bit vectors\<close>

record 'v BitVector_ops =
  bv_empty :: 'v
  bv_size :: "'v \<Rightarrow> nat"
  bv_set_bits :: "'v \<Rightarrow> nat list"
  bv_resize :: "nat \<Rightarrow> 'v \<Rightarrow> 'v"
  bv_set :: "nat \<Rightarrow> 'v \<Rightarrow> 'v"
  bv_reset :: "nat \<Rightarrow> 'v \<Rightarrow> 'v"
  bv_reset_all :: "'v \<Rightarrow> 'v"
  bv_flip :: "'v \<Rightarrow> 'v"
  bv_or :: "'v \<Rightarrow> 'v \<Rightarrow> 'v"
  bv_and :: "'v \<Rightarrow> 'v \<Rightarrow> 'v"
  bv_eq :: "'v \<Rightarrow> 'v \<Rightarrow> bool"
  bv_anyCommon :: "'v \<Rightarrow> 'v \<Rightarrow> bool"

text \<open>Writing a bit out of range has no meaning.\<close>

definition bv_set_at :: "'v BitVector_ops \<Rightarrow> nat \<Rightarrow> 'v \<Rightarrow> 'v checked" where
  "bv_set_at B i v = (if i < bv_size B v then Some (bv_set B i v) else None)"

definition bv_reset_at :: "'v BitVector_ops \<Rightarrow> nat \<Rightarrow> 'v \<Rightarrow> 'v checked" where
  "bv_reset_at B i v = (if i < bv_size B v then Some (bv_reset B i v) else None)"

section \<open>What bit vectors promise\<close>

abbreviation bits :: "'v BitVector_ops \<Rightarrow> 'v \<Rightarrow> nat set" where
  "bits B v \<equiv> set (bv_set_bits B v)"

locale bit_vector =
  fixes B :: "'v BitVector_ops"
  assumes bits_bound: "bits B v \<subseteq> {..<bv_size B v}"
    and bits_ascending: "sorted_wrt (<) (bv_set_bits B v)"
    and size_empty: "bv_size B (bv_empty B) = 0"
    and resize: "bv_size B (bv_resize B n v) = n" "bits B (bv_resize B n v) = bits B v \<inter> {..<n}"
    and set_bit: "i < bv_size B v \<Longrightarrow> bv_size B (bv_set B i v) = bv_size B v"
      "i < bv_size B v \<Longrightarrow> bits B (bv_set B i v) = insert i (bits B v)"
    and reset_bit: "i < bv_size B v \<Longrightarrow> bv_size B (bv_reset B i v) = bv_size B v"
      "i < bv_size B v \<Longrightarrow> bits B (bv_reset B i v) = bits B v - {i}"
    and reset_all: "bv_size B (bv_reset_all B v) = bv_size B v" "bits B (bv_reset_all B v) = {}"
    and flip: "bv_size B (bv_flip B v) = bv_size B v" "bits B (bv_flip B v) = {..<bv_size B v} - bits B v"
    and or_bits: "bv_size B (bv_or B v w) = max (bv_size B v) (bv_size B w)" "bits B (bv_or B v w) = bits B v \<union> bits B w"
    and and_bits: "bv_size B (bv_and B v w) = bv_size B v" "bits B (bv_and B v w) = bits B v \<inter> bits B w"
    and eq_bits: "bv_eq B v w \<longleftrightarrow> bv_size B v = bv_size B w \<and> bits B v = bits B w"
    and any_common: "bv_anyCommon B v w \<longleftrightarrow> bits B v \<inter> bits B w \<noteq> {}"

text \<open>Lists of truth values keep this promise.\<close>

definition list_bits :: "bool list BitVector_ops" where
  "list_bits =
     \<lparr>bv_empty = [], bv_size = length,
      bv_set_bits = (\<lambda>v. filter (\<lambda>i. v ! i) [0..<length v]),
      bv_resize = (\<lambda>n v. map (\<lambda>i. i < length v \<and> v ! i) [0..<n]),
      bv_set = (\<lambda>i v. v[i := True]), bv_reset = (\<lambda>i v. v[i := False]),
      bv_reset_all = map (\<lambda>_. False), bv_flip = map Not,
      bv_or = (\<lambda>v w. map (\<lambda>i. i < length v \<and> v ! i \<or> i < length w \<and> w ! i) [0..<max (length v) (length w)]),
      bv_and = (\<lambda>v w. map (\<lambda>i. v ! i \<and> i < length w \<and> w ! i) [0..<length v]),
      bv_eq = (=),
      bv_anyCommon = (\<lambda>v w. \<exists>i < min (length v) (length w). v ! i \<and> w ! i)\<rparr>"

lemma set_list_bits: "bits list_bits v = {i. i < length v \<and> v ! i}"
  by (auto simp: list_bits_def)

lemma list_bits_eq_iff: "v = w \<longleftrightarrow> length v = length w \<and> bits list_bits v = bits list_bits w"
proof
  assume *: "length v = length w \<and> bits list_bits v = bits list_bits w"
  have "v ! i \<longleftrightarrow> w ! i" if "i < length v" for i
  proof -
    have "i \<in> bits list_bits v \<longleftrightarrow> i \<in> bits list_bits w" using * by simp
    then show ?thesis using * that unfolding set_list_bits by simp
  qed
  then show "v = w" using * by (simp add: list_eq_iff_nth_eq)
qed simp

interpretation list_bits: bit_vector list_bits
proof
  fix v w :: "bool list"
  show "sorted_wrt (<) (bv_set_bits list_bits v)"
    by (simp add: list_bits_def sorted_wrt_filter)
  show "bv_eq list_bits v w \<longleftrightarrow> bv_size list_bits v = bv_size list_bits w \<and> bits list_bits v = bits list_bits w"
    using list_bits_eq_iff [of v w] by (simp add: list_bits_def)
qed (auto simp: set_list_bits, auto simp: list_bits_def nth_list_update split: if_splits)

context bit_vector
begin

lemma ex_bits:
  assumes "S \<subseteq> {..<n}"
  shows "\<exists>v. bv_size B v = n \<and> bits B v = S"
  using finite_subset [OF assms finite_lessThan] assms
proof (induction rule: finite_induct)
  case empty
  have "bits B (bv_empty B) = {}" using bits_bound [of "bv_empty B"] size_empty by simp
  then show ?case using resize [of n "bv_empty B"] by (intro exI [of _ "bv_resize B n (bv_empty B)"]) simp
next
  case (insert a F)
  then obtain v where "bv_size B v = n" "bits B v = F" by blast
  then show ?case using insert set_bit [of a v] by (intro exI [of _ "bv_set B a v"]) simp
qed

lemma bits_empty: "bits B (bv_empty B) = {}"
  using bits_bound [of "bv_empty B"] size_empty by simp

end

end
