(* ===== verification/Graph_Traits.thy ===== *)
theory Graph_Traits
  imports Generic_Graph Maximal_Fixed_Point
begin

text \<open>
  The \<^verbatim>\<open>GraphTraits\<close> of src/include/revng/ADT/GenericGraph.h, through which the solver of
  src/include/revng/MFP/MFP.h sees a graph, and the traversal that serves as post-order iterator.
\<close>

section \<open>Graph traits\<close>

text \<open>\<^verbatim>\<open>GraphTraits\<close> of a graph and of its inverse, which has the same entry node; \<open>po\<close> is the iterator.\<close>

definition GraphTraits :: "(ptr \<Rightarrow> ptr set \<Rightarrow> ptr list \<times> ptr set) \<Rightarrow> ('l, 'd) GenericGraph \<Rightarrow> ptr Graph" where
  "GraphTraits po G =
     \<lparr>successors = successors_of (Heap G),
      getEntryNode = (if EntryNode G = nullptr then None else Some (EntryNode G)),
      graph_nodes = Some (Nodes G), po_ext = po\<rparr>"

definition GraphTraits_Inverse :: "(ptr \<Rightarrow> ptr set \<Rightarrow> ptr list \<times> ptr set) \<Rightarrow> ('l, 'd) GenericGraph \<Rightarrow> ptr Graph" where
  "GraphTraits_Inverse po G =
     \<lparr>successors = predecessors_of (Heap G),
      getEntryNode = (if EntryNode G = nullptr then None else Some (EntryNode G)),
      graph_nodes = Some (Nodes G), po_ext = po\<rparr>"

section \<open>A post-order iterator\<close>

definition dfs_po :: "ptr list \<Rightarrow> (ptr \<Rightarrow> ptr list) \<Rightarrow> ptr \<Rightarrow> ptr set \<Rightarrow> ptr list \<times> ptr set" where
  "dfs_po U succ = po_ext (dfs_graph U succ)"

lemma post_order_graph_cong:
  assumes "post_order_graph G" "\<And>l. successors G' l = successors G l" "po_ext G' = po_ext G"
  shows "post_order_graph G'"
proof -
  have "edges G' = edges G" by (simp add: edges_def assms(2))
  then show ?thesis using assms(1) by (simp add: post_order_graph_def assms(2,3))
qed

lemma dfs_po_inverse:
  assumes "graph_wf G"
  shows "post_order_graph (GraphTraits_Inverse (dfs_po (Nodes G) (predecessors_of (Heap G))) G)"
proof (rule post_order_graph_cong [OF dfs_graph_post_order])
  fix l
  have "filter (\<lambda>s. s \<in> set (Nodes G)) (predecessors_of (Heap G) l) = predecessors_of (Heap G) l"
    using graph_wf_links(2) [OF assms, of l] by (auto simp: filter_id_conv)
  moreover have "l \<notin> set (Nodes G) \<Longrightarrow> predecessors_of (Heap G) l = []"
    using assms by (simp add: graph_wf_def predecessors_of_def)
  ultimately show "successors (GraphTraits_Inverse (dfs_po (Nodes G) (predecessors_of (Heap G))) G) l
      = successors (dfs_graph (Nodes G) (predecessors_of (Heap G))) l"
    by (simp add: GraphTraits_Inverse_def dfs_graph_def Let_def)
qed (simp add: GraphTraits_Inverse_def dfs_po_def)

lemma dfs_po_forward:
  assumes "graph_wf G"
  shows "post_order_graph (GraphTraits (dfs_po (Nodes G) (successors_of (Heap G))) G)"
proof (rule post_order_graph_cong [OF dfs_graph_post_order])
  fix l
  have "filter (\<lambda>s. s \<in> set (Nodes G)) (successors_of (Heap G) l) = successors_of (Heap G) l"
    using graph_wf_links(1) [OF assms, of l] by (auto simp: filter_id_conv)
  moreover have "l \<notin> set (Nodes G) \<Longrightarrow> successors_of (Heap G) l = []"
    using assms by (simp add: graph_wf_def successors_of_def)
  ultimately show "successors (GraphTraits (dfs_po (Nodes G) (successors_of (Heap G))) G) l
      = successors (dfs_graph (Nodes G) (successors_of (Heap G))) l"
    by (simp add: GraphTraits_def dfs_graph_def Let_def)
qed (simp add: GraphTraits_def dfs_po_def)

end
