(* ===== verification/Rua_Function.thy ===== *)
theory Rua_Function
  imports Graph_Traits Distributive_Analysis Bit_Vector
begin

text \<open>
  The graph of register operations that the register usage analyses work on
  (src/include/revng/RegisterUsageAnalyses/Function.h): a node is a block of reads, writes and
  clobbers of CSVs (\<open>'c\<close> is their type, pointers to global variables), which the function numbers.
  The theory also has what the analyses are
  about: the operations along the paths of the graph.
\<close>

section \<open>Functions\<close>

datatype OperationType = Invalid | Read | Write | Clobber

definition OperationType_getName :: "OperationType \<Rightarrow> string" where
  "OperationType_getName V =
     (case V of Invalid \<Rightarrow> ''Invalid'' | Read \<Rightarrow> ''Read'' | Write \<Rightarrow> ''Write'' | Clobber \<Rightarrow> ''Clobber'')"

record Operation =
  Type :: OperationType
  Target :: u8

record Block =
  Label :: string
  Operations :: "Operation list"

record 'c Function =
  IndexToCSV :: "u8 \<rightharpoonup> 'c"
  CSVToIndex :: "'c \<rightharpoonup> u8"
  Graph :: "(unit, Block) GenericGraph"

text \<open>\<open>card (dom m)\<close> is the \<^verbatim>\<open>size()\<close> of a \<^verbatim>\<open>DenseMap\<close>.\<close>

definition csvIndex :: "'c \<Rightarrow> 'c Function \<Rightarrow> (u8 \<times> 'c Function) checked" where
  "csvIndex CSV F =
     (case CSVToIndex F CSV of
        Some Index \<Rightarrow> Some (Index, F)
      | None \<Rightarrow> do {
          let CSVCount = card (dom (CSVToIndex F));
          revng_assert (CSVCount \<le> 255);
          let F' = F\<lparr>CSVToIndex := (CSVToIndex F)(CSV \<mapsto> word_of_nat CSVCount),
                     IndexToCSV := (IndexToCSV F)(word_of_nat CSVCount \<mapsto> CSV)\<rparr>;
          revng_assert (card (dom (CSVToIndex F')) = card (dom (IndexToCSV F')));
          revng_assert (card (dom (CSVToIndex F')) = 1 + CSVCount);
          Some (word_of_nat CSVCount, F') })"

definition csvByIndex :: "u8 \<Rightarrow> 'c Function \<Rightarrow> 'c checked" where
  "csvByIndex Index F = IndexToCSV F Index"

definition csvCount :: "'c Function \<Rightarrow> u8" where
  "csvCount F = word_of_nat (card (dom (IndexToCSV F)))"

text \<open>\<^verbatim>\<open>csvsInSet\<close>: the \<^verbatim>\<open>unsigned\<close> index of a bit becomes a \<^verbatim>\<open>uint8_t\<close>.\<close>

fun csvs_loop :: "'c Function \<Rightarrow> nat list \<Rightarrow> 'c list checked" where
  "csvs_loop F [] = Some []"
| "csvs_loop F (Index # Rest) = do {
     CSV \<leftarrow> csvByIndex (word_of_nat Index) F;
     CSVs \<leftarrow> csvs_loop F Rest;
     Some (CSV # CSVs) }"

definition csvsInSet :: "'v BitVector_ops \<Rightarrow> 'c Function \<Rightarrow> 'v \<Rightarrow> 'c list checked" where
  "csvsInSet B F Set = csvs_loop F (bv_set_bits B Set)"

definition block_ops :: "'c Function \<Rightarrow> ptr \<Rightarrow> Operation list" where
  "block_ops F n = Operations (NodeData (Heap (Graph F) n))"

definition all_operations :: "'c Function \<Rightarrow> Operation list" where
  "all_operations F = concat (map (block_ops F) (Nodes (Graph F)))"


section \<open>Paths and accesses\<close>

text \<open>The type of the first operation on a register in a sequence of operations.\<close>

fun first_access :: "Operation list \<Rightarrow> nat \<Rightarrow> OperationType option" where
  "first_access [] r = None"
| "first_access (Op # Ops) r = (if unat (Target Op) = r then Some (Type Op) else first_access Ops r)"

fun is_path :: "('n \<Rightarrow> 'n list) \<Rightarrow> 'n list \<Rightarrow> bool" where
  "is_path succ [] = True"
| "is_path succ [b] = True"
| "is_path succ (b # c # p) = (c \<in> set (succ b) \<and> is_path succ (c # p))"

definition path_ops :: "'c Function \<Rightarrow> ptr list \<Rightarrow> Operation list" where
  "path_ops F p = concat (map (block_ops F) p)"

text \<open>A register is live at the start of a block when some path from it reads it before any other access.\<close>

definition live :: "'c Function \<Rightarrow> ptr \<Rightarrow> nat \<Rightarrow> bool" where
  "live F b r \<longleftrightarrow> (\<exists>p. is_path (successors_of (Heap (Graph F))) (b # p) \<and> first_access (path_ops F (b # p)) r = Some Read)"

lemma first_access_append:
  "first_access (xs @ ys) r = (case first_access xs r of None \<Rightarrow> first_access ys r | Some t \<Rightarrow> Some t)"
  by (induction xs) auto

lemma path_ops_Cons: "path_ops F (b # p) = block_ops F b @ path_ops F p"
  by (simp add: path_ops_def)

lemma live_unfold:
  "live F b r \<longleftrightarrow> first_access (block_ops F b) r = Some Read
     \<or> first_access (block_ops F b) r = None \<and> (\<exists>s \<in> set (successors_of (Heap (Graph F)) b). live F s r)"
proof
  assume "live F b r"
  then obtain p where p: "is_path (successors_of (Heap (Graph F))) (b # p)" "first_access (path_ops F (b # p)) r = Some Read"
    by (auto simp: live_def)
  show "first_access (block_ops F b) r = Some Read
     \<or> first_access (block_ops F b) r = None \<and> (\<exists>s \<in> set (successors_of (Heap (Graph F)) b). live F s r)"
  proof (cases p)
    case Nil
    then show ?thesis using p by (simp add: path_ops_def)
  next
    case (Cons s q)
    then show ?thesis
      using p by (auto simp: path_ops_Cons [of F b] first_access_append live_def split: option.splits)
  qed
next
  assume "first_access (block_ops F b) r = Some Read
     \<or> first_access (block_ops F b) r = None \<and> (\<exists>s \<in> set (successors_of (Heap (Graph F)) b). live F s r)"
  then show "live F b r"
  proof
    assume "first_access (block_ops F b) r = Some Read"
    then show ?thesis unfolding live_def by (intro exI [of _ "[]"]) (simp add: path_ops_def)
  next
    assume a: "first_access (block_ops F b) r = None \<and> (\<exists>s \<in> set (successors_of (Heap (Graph F)) b). live F s r)"
    then obtain s p where "s \<in> set (successors_of (Heap (Graph F)) b)"
        "is_path (successors_of (Heap (Graph F))) (s # p)" "first_access (path_ops F (s # p)) r = Some Read"
      by (auto simp: live_def)
    then show ?thesis unfolding live_def
      using a by (intro exI [of _ "s # p"]) (simp add: path_ops_Cons [of F b] first_access_append)
  qed
qed

section \<open>Well-formed functions\<close>

text \<open>The functions the analyses are run on: their graph is well formed and no operation is \<^verbatim>\<open>Invalid\<close>.\<close>

definition function_wf :: "'c Function \<Rightarrow> bool" where
  "function_wf F \<longleftrightarrow> graph_wf (Graph F) \<and> (\<forall>Op \<in> set (all_operations F). Type Op \<noteq> Invalid)"

lemma block_ops_subset: "n \<in> set (Nodes (Graph F)) \<Longrightarrow> set (block_ops F n) \<subseteq> set (all_operations F)"
  by (auto simp: all_operations_def)

section \<open>The numbering of the CSVs\<close>

text \<open>The two maps are inverse to each other and the indices in use are an initial segment.\<close>

definition csv_wf :: "'c Function \<Rightarrow> bool" where
  "csv_wf F \<longleftrightarrow> (\<forall>c i. CSVToIndex F c = Some i \<longleftrightarrow> IndexToCSV F i = Some c)
     \<and> dom (IndexToCSV F) = word_of_nat ` {..<card (dom (IndexToCSV F))}"

lemma inj_index: "inj_on (word_of_nat :: nat \<Rightarrow> u8) {..<256}"
  by (rule inj_onI) (simp add: of_nat_eq_iff word_of_nat_eq_iff take_bit_nat_eq_self)

lemma card_csv_maps:
  assumes "csv_wf F"
  shows "card (dom (CSVToIndex F)) = card (dom (IndexToCSV F))"
proof (rule bij_betw_same_card [of "\<lambda>c. the (CSVToIndex F c)"])
  have inv: "CSVToIndex F c = Some i \<longleftrightarrow> IndexToCSV F i = Some c" for c i using assms by (simp add: csv_wf_def)
  have A: "IndexToCSV F (the (CSVToIndex F c)) = Some c" if c: "c \<in> dom (CSVToIndex F)" for c
  proof -
    obtain i where "CSVToIndex F c = Some i" using c by (auto simp only: dom_def)
    then show ?thesis using inv [of c i] by simp
  qed
  have B: "CSVToIndex F (the (IndexToCSV F i)) = Some i" if i: "i \<in> dom (IndexToCSV F)" for i
  proof -
    obtain c where "IndexToCSV F i = Some c" using i by (auto simp only: dom_def)
    then show ?thesis using inv [of c i] by simp
  qed
  show "bij_betw (\<lambda>c. the (CSVToIndex F c)) (dom (CSVToIndex F)) (dom (IndexToCSV F))"
    by (rule bij_betw_byWitness [where f' = "\<lambda>i. the (IndexToCSV F i)"])
      (simp_all add: A B image_subset_iff domIff)
qed

lemma csv_count_bound: "card (dom (IndexToCSV (F :: 'c Function))) \<le> 256"
  using card_mono [of "UNIV :: u8 set" "dom (IndexToCSV F)"] by (simp add: card_word)

lemma csvIndex_new:
  assumes wf: "csv_wf F" and new: "CSVToIndex F c = None" and n: "n = card (dom (IndexToCSV F))" "n \<le> 255"
    and F': "F' = F\<lparr>CSVToIndex := (CSVToIndex F)(c \<mapsto> word_of_nat n), IndexToCSV := (IndexToCSV F)(word_of_nat n \<mapsto> c)\<rparr>"
  shows "csvIndex c F = Some (word_of_nat n, F')" "csv_wf F'" "IndexToCSV F (word_of_nat n) = None"
    "card (dom (IndexToCSV F')) = Suc n"
proof -
  have inv: "CSVToIndex F d = Some i \<longleftrightarrow> IndexToCSV F i = Some d" for d i using wf by (simp add: csv_wf_def)
  have dom: "dom (IndexToCSV F) = word_of_nat ` {..<n}" using wf n(1) by (simp add: csv_wf_def)
  have "word_of_nat n \<notin> (word_of_nat :: nat \<Rightarrow> u8) ` {..<n}"
    using inj_on_image_mem_iff [OF inj_index, of n "{..<n}"] n(2) by auto
  then have fresh: "word_of_nat n \<notin> dom (IndexToCSV F)" unfolding dom .
  then show free: "IndexToCSV F (word_of_nat n) = None" by auto
  have fin: "finite (dom (IndexToCSV F))" by simp
  have finC: "finite (dom (CSVToIndex F))"
  proof (cases "dom (CSVToIndex F) = {}")
    case False
    have "ran (IndexToCSV F) = dom (CSVToIndex F)" using inv by (auto simp: ran_def dom_def)
    then show ?thesis using finite_ran [OF fin] by simp
  qed simp
  show cardI: "card (dom (IndexToCSV F')) = Suc n" using fresh fin n(1) by (simp add: F')
  have "c \<notin> dom (CSVToIndex F)" using new by auto
  then have cardC: "card (dom (CSVToIndex F')) = Suc n"
    using finC card_csv_maps [OF wf] n(1) by (simp add: F')
  show "csvIndex c F = Some (word_of_nat n, F')"
    using new n cardI cardC card_csv_maps [OF wf] by (simp add: csvIndex_def F' Let_def)
  have "CSVToIndex F' d = Some i \<longleftrightarrow> IndexToCSV F' i = Some d" for d i
    using inv [of d i] inv [of c i] inv [of d "word_of_nat n"] free new by (auto simp: F')
  moreover have "dom (IndexToCSV F') = word_of_nat ` {..<Suc n}" using dom by (simp add: F' lessThan_Suc)
  ultimately show "csv_wf F'" using cardI by (simp add: csv_wf_def)
qed

text \<open>
  \<^bold>\<open>Fact\<close>. The numbering of CSVs: asking for an index aborts only when all 256 are in use by other
  CSVs; otherwise the index returned leads back to the CSV, the indices given out before keep their
  CSVs, a known CSV changes nothing, and the indices in use stay an initial segment.
\<close>

theorem csv_index_roundtrip:
  assumes "csv_wf F"
  shows "case csvIndex c F of
      None \<Rightarrow> CSVToIndex F c = None \<and> card (dom (IndexToCSV F)) = 256
    | Some (i, F') \<Rightarrow> csv_wf F' \<and> csvByIndex i F' = Some c \<and> (CSVToIndex F c \<noteq> None \<longrightarrow> F' = F)
        \<and> (\<forall>j d. csvByIndex j F = Some d \<longrightarrow> csvByIndex j F' = Some d)"
proof (cases "CSVToIndex F c")
  case (Some i)
  have "IndexToCSV F i = Some c" using assms Some by (simp add: csv_wf_def)
  then show ?thesis using assms Some by (simp add: csvIndex_def csvByIndex_def)
next
  case None
  define n where "n = card (dom (IndexToCSV F))"
  show ?thesis
  proof (cases "n \<le> 255")
    case True
    note new = csvIndex_new [OF assms None n_def True refl]
    show ?thesis unfolding new(1) using new(2,3) None by (auto simp: csvByIndex_def)
  next
    case False
    then have "card (dom (IndexToCSV F)) = 256" using csv_count_bound [of F] by (simp add: n_def)
    then show ?thesis using None card_csv_maps [OF assms] by (simp add: csvIndex_def)
  qed
qed

definition no_csvs :: "nat Function" where
  "no_csvs = \<lparr>IndexToCSV = Map.empty, CSVToIndex = Map.empty,
     Graph = \<lparr>EntryNode = 0, Nodes = [], Heap = (\<lambda>_. \<lparr>Successors = [], Predecessors = [], NodeData = \<lparr>Label = [], Operations = []\<rparr>\<rparr>)\<rparr>\<rparr>"

theorem csv_index_roundtrip_witness:
  "case csvIndex 7 no_csvs of None \<Rightarrow> False | Some (i, F') \<Rightarrow> csvByIndex i F' = Some 7"
proof -
  have wf: "csv_wf no_csvs" by (simp add: csv_wf_def no_csvs_def)
  have "card (dom (IndexToCSV no_csvs)) \<noteq> 256" by (simp add: no_csvs_def)
  then show ?thesis using csv_index_roundtrip [OF wf, of 7] by (auto split: option.splits)
qed

text \<open>
  \<^bold>\<open>Fact\<close>. \<^verbatim>\<open>csvIndex\<close> accepts a 256th CSV, but \<^verbatim>\<open>csvCount\<close> returns a \<^verbatim>\<open>uint8_t\<close>: it is the number of
  CSVs below 256 and zero at 256, although the function uses every index.
\<close>

theorem csvCount_wraps:
  assumes "csv_wf F"
  shows "unat (csvCount F) = card (dom (IndexToCSV F)) mod 256
    \<and> (card (dom (IndexToCSV F)) = 255 \<longrightarrow> CSVToIndex F c = None \<longrightarrow>
         (\<exists>i F'. csvIndex c F = Some (i, F') \<and> csv_wf F' \<and> csvCount F' = 0 \<and> dom (IndexToCSV F') = UNIV))"
proof (intro conjI impI)
  show "unat (csvCount F) = card (dom (IndexToCSV F)) mod 256"
    by (simp add: csvCount_def unat_of_nat)
  assume n: "card (dom (IndexToCSV F)) = 255" and c: "CSVToIndex F c = None"
  note new = csvIndex_new [OF assms c n [symmetric] _ refl, simplified]
  let ?F' = "F\<lparr>CSVToIndex := (CSVToIndex F)(c \<mapsto> 255), IndexToCSV := (IndexToCSV F)(255 \<mapsto> c)\<rparr>"
  have card: "card (dom (IndexToCSV ?F')) = 256" using new(4) by simp
  then have "dom (IndexToCSV ?F') = UNIV"
    by (intro card_subset_eq) (simp_all add: card_word)
  moreover have "csvCount ?F' = 0" unfolding csvCount_def card by simp
  ultimately show "\<exists>i F'. csvIndex c F = Some (i, F') \<and> csv_wf F' \<and> csvCount F' = 0 \<and> dom (IndexToCSV F') = UNIV"
    using new(1,2) by (intro exI [of _ "255"] exI [of _ ?F']) simp
qed

definition csvs_255 :: "nat Function" where
  "csvs_255 = no_csvs\<lparr>IndexToCSV := (\<lambda>i. if i = 255 then None else Some (unat i)),
     CSVToIndex := (\<lambda>c. if c < 255 then Some (word_of_nat c) else None)\<rparr>"

lemma index_not_255: "i \<noteq> 255 \<longleftrightarrow> unat (i :: u8) < 255"
  using unsigned_less [of i, where 'a = nat] by (auto simp: word_unat_eq_iff)

lemma csvs_255_dom: "dom (IndexToCSV csvs_255) = word_of_nat ` {..<255}" "card (dom (IndexToCSV csvs_255)) = 255"
proof -
  have "i \<in> word_of_nat ` {..<255}" if "i \<noteq> 255" for i :: u8
  proof (rule image_eqI [of _ _ "unat i"])
    show "unat i \<in> {..<255}" using that by (simp add: index_not_255)
  qed simp
  moreover have "(255 :: u8) \<notin> word_of_nat ` {..<255}"
    using inj_on_image_mem_iff [OF inj_index, of 255 "{..<255}"] by auto
  ultimately show d: "dom (IndexToCSV csvs_255) = word_of_nat ` {..<255}"
    by (auto simp: csvs_255_def split: if_splits)
  have "inj_on (word_of_nat :: nat \<Rightarrow> u8) {..<255}" by (rule inj_on_subset [OF inj_index]) auto
  then show "card (dom (IndexToCSV csvs_255)) = 255" unfolding d by (simp add: card_image)
qed

lemma csvs_255_wf: "csv_wf csvs_255"
proof -
  have u: "unat (word_of_nat c :: u8) = c" if "c < 255" for c using that by (simp add: unat_of_nat)
  have "CSVToIndex csvs_255 c = Some i \<longleftrightarrow> IndexToCSV csvs_255 i = Some c" for c i
    using u [of c] index_not_255 [of i] by (auto simp: csvs_255_def)
  then show ?thesis using csvs_255_dom by (simp add: csv_wf_def)
qed

theorem csvCount_wraps_witness:
  "\<exists>i F'. csvIndex 1000 csvs_255 = Some (i, F') \<and> csvCount F' = 0 \<and> dom (IndexToCSV F') = UNIV"
  using csvCount_wraps [OF csvs_255_wf, of 1000] csvs_255_dom(2) by (auto simp: csvs_255_def)

end
