(* ===== verification/Rua_Simplify.thy ===== *)
theory Rua_Simplify
  imports Rua_Function "HOL-Library.Sublist" "HOL-Library.Multiset"
begin

text \<open>
  \<^verbatim>\<open>rua::Function::simplify\<close>: it merges a block into its only predecessor when that has no other
  successor. The operations that a run of the function may perform are shown to be the same.
\<close>

section \<open>The operation\<close>

text \<open>
  The predicate of the \<^verbatim>\<open>erase_if\<close> in \<^verbatim>\<open>simplify\<close>: whether the node is dropped, and the heap after
  its side effects. The addition of the successors reads a copy of the vector.
\<close>

fun add_successors :: "ptr \<Rightarrow> ptr list \<Rightarrow> (unit, Block) heap \<Rightarrow> (unit, Block) heap" where
  "add_successors Predecessor [] h = h"
| "add_successors Predecessor (Successor # Rest) h =
     add_successors Predecessor Rest (addSuccessor Predecessor Successor () h)"

definition push_operations :: "ptr \<Rightarrow> Operation list \<Rightarrow> (unit, Block) heap \<Rightarrow> (unit, Block) heap" where
  "push_operations n Ops h =
     h(n := (h n)\<lparr>NodeData := (NodeData (h n))\<lparr>Operations := Operations (NodeData (h n)) @ Ops\<rparr>\<rparr>)"

definition simplify_node ::
  "ptr set \<Rightarrow> ptr \<Rightarrow> (unit, Block) heap \<Rightarrow> (bool \<times> (unit, Block) heap) checked" where
  "simplify_node ToPreserve N h =
     (if predecessorCount h N \<noteq> 1 then Some (False, h)
      else do {
        Predecessor \<leftarrow> at (predecessors_of h N) 0;
        (if successorCount h Predecessor \<noteq> 1 then Some (False, h)
         else do {
           First \<leftarrow> at (successors_of h Predecessor) 0;
           revng_assert (First = N);
           (if N = Predecessor then Some (False, h)
            else if N \<in> ToPreserve \<or> Predecessor \<in> ToPreserve then Some (False, h)
            else if \<exists>Successor \<in> set (successors_of h N). Successor = N \<or> Successor = Predecessor
            then Some (False, h)
            else do {
              h1 \<leftarrow> clearPredecessors N h;
              let Successors = successors_of h1 N;
              let h2 = add_successors Predecessor Successors h1;
              h3 \<leftarrow> clearSuccessors N h2;
              Some (True, push_operations Predecessor (Operations (NodeData (h3 N))) h3) }) }) })"

fun simplify_loop ::
  "ptr set \<Rightarrow> ptr list \<Rightarrow> (unit, Block) heap \<Rightarrow> (ptr list \<times> (unit, Block) heap) checked" where
  "simplify_loop ToPreserve [] h = Some ([], h)"
| "simplify_loop ToPreserve (N # Ns) h = do {
     (Drop, h1) \<leftarrow> simplify_node ToPreserve N h;
     (Kept, h2) \<leftarrow> simplify_loop ToPreserve Ns h1;
     Some (if Drop then Kept else N # Kept, h2) }"

definition simplify :: "ptr set \<Rightarrow> 'c Function \<Rightarrow> 'c Function checked" where
  "simplify ToPreserve F = do {
     (Kept, h) \<leftarrow> simplify_loop ToPreserve (Nodes (Graph F)) (Heap (Graph F));
     Some (F\<lparr>Graph := (Graph F)\<lparr>Nodes := Kept, Heap := h\<rparr>\<rparr>) }"

section \<open>Executions\<close>

text \<open>
  The operations a run may perform from the start of a block: a prefix of the operations of the
  block, or all of them followed by a run from a successor.
\<close>

definition heap_ops :: "(unit, Block) heap \<Rightarrow> ptr \<Rightarrow> Operation list" where
  "heap_ops h n = Operations (NodeData (h n))"

inductive exec :: "(unit, Block) heap \<Rightarrow> ptr \<Rightarrow> Operation list \<Rightarrow> bool" for h where
  exec_here: "prefix xs (heap_ops h b) \<Longrightarrow> exec h b xs"
| exec_step: "s \<in> set (successors_of h b) \<Longrightarrow> exec h s ys \<Longrightarrow> xs = heap_ops h b @ ys \<Longrightarrow> exec h b xs"

lemma block_ops_heap: "block_ops F n = heap_ops (Heap (Graph F)) n"
  by (simp add: block_ops_def heap_ops_def)

lemma exec_path:
  "exec (Heap (Graph F)) b xs \<longleftrightarrow>
    (\<exists>p. is_path (successors_of (Heap (Graph F))) (b # p) \<and> prefix xs (path_ops F (b # p)))"
proof
  assume "exec (Heap (Graph F)) b xs"
  then show "\<exists>p. is_path (successors_of (Heap (Graph F))) (b # p) \<and> prefix xs (path_ops F (b # p))"
  proof induction
    case (exec_here xs b)
    then show ?case by (intro exI [of _ "[]"]) (simp add: path_ops_def block_ops_heap)
  next
    case (exec_step s b ys xs)
    then obtain p where "is_path (successors_of (Heap (Graph F))) (s # p)" "prefix ys (path_ops F (s # p))" by blast
    then show ?case using exec_step
      by (intro exI [of _ "s # p"]) (simp add: path_ops_Cons [of F b] block_ops_heap)
  qed
next
  assume "\<exists>p. is_path (successors_of (Heap (Graph F))) (b # p) \<and> prefix xs (path_ops F (b # p))"
  then obtain p where "is_path (successors_of (Heap (Graph F))) (b # p)" "prefix xs (path_ops F (b # p))" by blast
  then show "exec (Heap (Graph F)) b xs"
  proof (induction p arbitrary: b xs)
    case Nil
    then show ?case by (intro exec_here) (simp add: path_ops_def block_ops_heap)
  next
    case (Cons s p)
    then have "prefix xs (heap_ops (Heap (Graph F)) b) \<or> (\<exists>ys. xs = heap_ops (Heap (Graph F)) b @ ys \<and> prefix ys (path_ops F (s # p)))"
      by (simp add: path_ops_Cons [of F b] block_ops_heap prefix_append)
    then show ?case
    proof
      assume "prefix xs (heap_ops (Heap (Graph F)) b)"
      then show ?case by (rule exec_here)
    next
      assume "\<exists>ys. xs = heap_ops (Heap (Graph F)) b @ ys \<and> prefix ys (path_ops F (s # p))"
      then show ?case using Cons.IH [of s] Cons.prems(1) by (auto intro: exec_step)
    qed
  qed
qed

lemma first_access_prefix: "prefix xs ys \<Longrightarrow> first_access xs r = Some t \<Longrightarrow> first_access ys r = Some t"
  by (auto simp: prefix_def first_access_append)

lemma live_exec: "live F b r \<longleftrightarrow> (\<exists>xs. exec (Heap (Graph F)) b xs \<and> first_access xs r = Some Read)"
  unfolding live_def exec_path using first_access_prefix by blast

section \<open>Merging a node\<close>

definition heap_wf :: "ptr set \<Rightarrow> (unit, Block) heap \<Rightarrow> bool" where
  "heap_wf V h \<longleftrightarrow> edges_match h \<and> (\<forall>n. n \<notin> V \<longrightarrow> Successors (h n) = [] \<and> Predecessors (h n) = [])"

text \<open>What merging the node \<open>N\<close> into its only predecessor \<open>P\<close> does to the heap.\<close>

definition merges :: "(unit, Block) heap \<Rightarrow> ptr \<Rightarrow> ptr \<Rightarrow> (unit, Block) heap \<Rightarrow> bool" where
  "merges h P N h' \<longleftrightarrow> P \<noteq> N
     \<and> set (successors_of h P) = {N} \<and> set (predecessors_of h N) = {P} \<and> N \<notin> set (successors_of h N)
     \<and> (\<forall>n. heap_ops h' n = heap_ops h n @ (if n = P then heap_ops h N else []))
     \<and> (\<forall>n. N \<notin> set (successors_of h' n))
     \<and> (\<forall>n. n \<noteq> N \<longrightarrow> set (successors_of h' n) = set (successors_of h (if n = P then N else n)))"

lemma merges_exec_left:
  assumes "edges_match h" "merges h P N h'" "exec h' b xs" "b \<noteq> N"
  shows "exec h b xs"
  using assms(3,4)
proof induction
  case (exec_here xs b)
  show ?case
  proof (cases "b = P")
    case True
    then have "prefix xs (heap_ops h P @ heap_ops h N)" using exec_here assms(2) by (simp add: merges_def)
    then consider "prefix xs (heap_ops h P)" | ys where "xs = heap_ops h P @ ys" "prefix ys (heap_ops h N)"
      by (auto simp: prefix_append)
    then show ?thesis
    proof cases
      case 1
      then show ?thesis using True by (simp add: exec.exec_here)
    next
      case 2
      have "N \<in> set (successors_of h P)" using assms(2) by (simp add: merges_def)
      then show ?thesis using True 2 exec.exec_here [OF 2(2)] by (blast intro: exec.exec_step)
    qed
  next
    case False
    then show ?thesis using exec_here assms(2) by (intro exec.exec_here) (simp add: merges_def)
  qed
next
  case (exec_step s b ys xs)
  have "s \<noteq> N" using exec_step(1) assms(2) by (auto simp: merges_def)
  then have ys: "exec h s ys" by (rule exec_step)
  show ?case
  proof (cases "b = P")
    case True
    have "s \<in> set (successors_of h N)" "N \<in> set (successors_of h P)" "xs = heap_ops h P @ heap_ops h N @ ys"
      using exec_step True assms(2) by (auto simp: merges_def)
    then show ?thesis using True ys by (blast intro: exec.exec_step)
  next
    case False
    have "s \<in> set (successors_of h b)" "xs = heap_ops h b @ ys"
      using exec_step False assms(2) by (auto simp: merges_def)
    then show ?thesis using ys by (blast intro: exec.exec_step)
  qed
qed

lemma merges_exec_right:
  assumes "edges_match h" "merges h P N h'" "exec h b xs"
  shows "if b = N then exec h' P (heap_ops h P @ xs) else exec h' b xs"
  using assms(3)
proof induction
  case (exec_here xs b)
  have P: "heap_ops h' P = heap_ops h P @ heap_ops h N" using assms(2) by (simp add: merges_def)
  have b: "heap_ops h' b = heap_ops h b @ (if b = P then heap_ops h N else [])" using assms(2) by (simp add: merges_def)
  show ?case
  proof (cases "b = N")
    case True
    then have "prefix (heap_ops h P @ xs) (heap_ops h' P)" using exec_here P by simp
    then show ?thesis using True by (simp add: exec.exec_here)
  next
    case False
    then show ?thesis using exec_here b by (auto intro!: exec.exec_here)
  qed
next
  case (exec_step s b ys xs)
  have P: "heap_ops h' P = heap_ops h P @ heap_ops h N" "set (successors_of h' P) = set (successors_of h N)"
    using assms(2) by (auto simp: merges_def)
  show ?case
  proof (cases "b = N")
    case True
    then have "s \<noteq> N" "s \<in> set (successors_of h' P)" using exec_step(1) P(2) assms(2) by (auto simp: merges_def)
    then show ?thesis using True exec_step P(1) by (auto intro: exec.exec_step)
  next
    case False
    show ?thesis
    proof (cases "s = N")
      case True
      then have "b \<in> set (predecessors_of h N)"
        using edges_match_neighbors [OF assms(1), of N b] exec_step(1) by simp
      then have "b = P" using assms(2) by (simp add: merges_def)
      then show ?thesis using True False exec_step by simp
    next
      case s: False
      then have "b \<noteq> P" using exec_step(1) assms(2) by (auto simp: merges_def)
      then have "s \<in> set (successors_of h' b)" "xs = heap_ops h' b @ ys"
        using exec_step False assms(2) by (auto simp: merges_def)
      then show ?thesis using False s exec_step by (auto intro: exec.exec_step)
    qed
  qed
qed

lemma merges_exec: "edges_match h \<Longrightarrow> merges h P N h' \<Longrightarrow> b \<noteq> N \<Longrightarrow> exec h' b xs \<longleftrightarrow> exec h b xs"
  using merges_exec_left merges_exec_right by (metis (full_types))

lemma add_successors_simps:
  "successors_of (add_successors P Ss h) n = successors_of h n @ (if n = P then Ss else [])"
  "set (predecessors_of (add_successors P Ss h) n) = set (predecessors_of h n) \<union> (if n \<in> set Ss then {P} else {})"
  "NodeData (add_successors P Ss h n) = NodeData (h n)"
  "edges_match h \<Longrightarrow> edges_match (add_successors P Ss h)"
  by (induction Ss arbitrary: h)
    (auto simp: successors_of_def predecessors_of_def addSuccessor_match split: if_splits)

lemma push_operations_simps [simp]:
  "Successors (push_operations n Ops h m) = Successors (h m)"
  "Predecessors (push_operations n Ops h m) = Predecessors (h m)"
  "heap_ops (push_operations n Ops h) m = heap_ops h m @ (if m = n then Ops else [])"
  by (simp_all add: push_operations_def heap_ops_def)

lemma clears_successors_simps:
  assumes "clears_successors h n h'"
  shows "edges_match h'" "successors_of h' m = (if m = n then [] else successors_of h m)"
    "set (predecessors_of h' m) = set (predecessors_of h m) - {n}" "NodeData (h' m) = NodeData (h m)"
proof -
  have "set_mset (mset (Predecessors (h' m))) = {e \<in> set (Predecessors (h m)). Neighbor e \<noteq> n}"
    using assms by (simp add: clears_successors_def)
  then show "set (predecessors_of h' m) = set (predecessors_of h m) - {n}"
    by (auto simp: predecessors_of_def)
qed (use assms in \<open>auto simp: clears_successors_def successors_of_def\<close>)

lemma clears_predecessors_simps:
  assumes "clears_predecessors h n h'"
  shows "edges_match h'" "predecessors_of h' m = (if m = n then [] else predecessors_of h m)"
    "set (successors_of h' m) = set (successors_of h m) - {n}" "NodeData (h' m) = NodeData (h m)"
proof -
  have "set_mset (mset (Successors (h' m))) = {e \<in> set (Successors (h m)). Neighbor e \<noteq> n}"
    using assms by (simp add: clears_predecessors_def)
  then show "set (successors_of h' m) = set (successors_of h m) - {n}"
    by (auto simp: successors_of_def)
qed (use assms in \<open>auto simp: clears_predecessors_def predecessors_of_def\<close>)

lemma no_edges_iff:
  "Successors (h n) = [] \<longleftrightarrow> set (successors_of h n) = {}" "Predecessors (h n) = [] \<longleftrightarrow> set (predecessors_of h n) = {}"
  by (simp_all add: successors_of_def predecessors_of_def)

lemma simplify_merge:
  assumes h: "edges_match h" and P: "P \<noteq> N" "set (successors_of h P) = {N}" "set (predecessors_of h N) = {P}"
    and N: "N \<notin> set (successors_of h N)" "P \<notin> set (successors_of h N)"
  shows "\<exists>h1 h3. clearPredecessors N h = Some h1
      \<and> clearSuccessors N (add_successors P (successors_of h1 N) h1) = Some h3
      \<and> merges h P N (push_operations P (Operations (NodeData (h3 N))) h3)
      \<and> edges_match h3
      \<and> (\<forall>n. set (predecessors_of h3 n) \<subseteq> (if n \<in> set (successors_of h N) then insert P (set (predecessors_of h n)) else set (predecessors_of h n)) - {N})
      \<and> successors_of h3 N = [] \<and> predecessors_of h3 N = []"
proof -
  obtain h1 where h1: "clearPredecessors N h = Some h1" "clears_predecessors h N h1"
    using clearPredecessors_correct [OF h] by blast
  note c1 = clears_predecessors_simps [OF h1(2)]
  define Ss where "Ss = successors_of h1 N"
  have Ss: "set Ss = set (successors_of h N)" using c1(3) [of N] N(1) by (simp add: Ss_def)
  define h2 where "h2 = add_successors P Ss h1"
  note c2 = add_successors_simps [where P = P and Ss = Ss and h = h1, folded h2_def]
  obtain h3 where h3: "clearSuccessors N h2 = Some h3" "clears_successors h2 N h3"
    using clearSuccessors_correct [OF c2(4) [OF c1(1)]] by blast
  note c3 = clears_successors_simps [OF h3(2)]
  have data: "NodeData (h3 n) = NodeData (h n)" for n using c1(4) c2(3) c3(4) by simp
  have succ: "set (successors_of h3 n) = (if n = N then {} else (set (successors_of h n) - {N}) \<union> (if n = P then set (successors_of h N) else {}))" for n
    using c3(2) [of n] c2(1) [of n] c1(3) [of n] Ss by simp
  have nN: "n = P" if "N \<in> set (successors_of h n)" for n
    using that edges_match_neighbors [OF h, of N n] P(3) by simp
  have "merges h P N (push_operations P (Operations (NodeData (h3 N))) h3)"
    unfolding merges_def
  proof (intro conjI allI impI)
    show "P \<noteq> N" "set (successors_of h P) = {N}" "set (predecessors_of h N) = {P}" "N \<notin> set (successors_of h N)"
      using P N by simp_all
    fix n
    show "heap_ops (push_operations P (Operations (NodeData (h3 N))) h3) n = heap_ops h n @ (if n = P then heap_ops h N else [])"
      by (simp add: data) (simp add: heap_ops_def data)
    have eq: "successors_of (push_operations P (Operations (NodeData (h3 N))) h3) n = successors_of h3 n"
      by (simp add: successors_of_def)
    show "N \<notin> set (successors_of (push_operations P (Operations (NodeData (h3 N))) h3) n)"
      unfolding eq succ using N(1) by simp
    assume n: "n \<noteq> N"
    show "set (successors_of (push_operations P (Operations (NodeData (h3 N))) h3) n) = set (successors_of h (if n = P then N else n))"
    proof (cases "n = P")
      case True
      then show ?thesis unfolding eq succ using P(1,2) by simp
    next
      case False
      then have "N \<notin> set (successors_of h n)" using nN by blast
      then show ?thesis unfolding eq succ using n False by simp
    qed
  qed
  moreover have "set (predecessors_of h3 n) \<subseteq> (if n \<in> set (successors_of h N) then insert P (set (predecessors_of h n)) else set (predecessors_of h n)) - {N}" for n
    using c3(3) [of n] c2(2) [of n] c1(2) [of n] Ss by auto
  moreover have "successors_of h3 N = []" using c3(2) by simp
  moreover have "set (predecessors_of h3 N) = {}" using c3(3) [of N] c2(2) [of N] c1(2) [of N] Ss N(1) by simp
  ultimately show ?thesis
    using h1(1) h3(1) c3(1) by (intro exI [of _ h1] exI [of _ h3]) (simp add: h2_def Ss_def)
qed

lemma simplify_node_correct:
  assumes "heap_wf V h" "N \<in> V"
  shows "\<exists>Drop h'. simplify_node TP N h = Some (Drop, h') \<and> (if \<not> Drop then h' = h
      else N \<notin> TP \<and> Predecessors (h N) \<noteq> [] \<and> heap_wf (V - {N}) h' \<and> (\<exists>P \<in> V. merges h P N h')
        \<and> (\<forall>n. Predecessors (h n) = [] \<longrightarrow> Predecessors (h' n) = []))"
proof (cases "predecessorCount h N = 1")
  case False
  then show ?thesis by (intro exI [of _ False] exI [of _ h]) (simp add: simplify_node_def)
next
  case True
  have match: "edges_match h" using assms by (simp add: heap_wf_def)
  obtain P where P: "predecessors_of h N = [P]" "at (predecessors_of h N) 0 = Some P"
    using True by (auto simp: predecessorCount_def predecessors_of_def at_def length_Suc_conv)
  then have "N \<in> set (successors_of h P)" using edges_match_neighbors [OF match, of N P] by simp
  have PV: "P \<in> V"
  proof (rule ccontr)
    assume "P \<notin> V"
    then show False using assms(1) \<open>N \<in> set (successors_of h P)\<close> by (simp add: heap_wf_def successors_of_def)
  qed
  show ?thesis
  proof (cases "successorCount h P = 1")
    case False
    then show ?thesis using True P by (intro exI [of _ False] exI [of _ h]) (simp add: simplify_node_def)
  next
    case 1: True
    then have sP: "successors_of h P = [N]" "at (successors_of h P) 0 = Some N"
      using \<open>N \<in> set (successors_of h P)\<close>
      by (auto simp: successorCount_def successors_of_def at_def length_Suc_conv)
    show ?thesis
    proof (cases "N = P \<or> N \<in> TP \<or> P \<in> TP \<or> N \<in> set (successors_of h N) \<or> P \<in> set (successors_of h N)")
      case True
      then show ?thesis using \<open>predecessorCount h N = 1\<close> 1 P sP
        by (intro exI [of _ False] exI [of _ h]) (auto simp: simplify_node_def)
    next
      case no: False
      obtain h1 h3 where m: "clearPredecessors N h = Some h1"
          "clearSuccessors N (add_successors P (successors_of h1 N) h1) = Some h3"
          "merges h P N (push_operations P (Operations (NodeData (h3 N))) h3)" "edges_match h3"
          "\<forall>n. set (predecessors_of h3 n) \<subseteq> (if n \<in> set (successors_of h N) then insert P (set (predecessors_of h n)) else set (predecessors_of h n)) - {N}"
          "successors_of h3 N = []" "predecessors_of h3 N = []"
        using simplify_merge [OF match, of P N] no P(1) sP(1) by auto
      define h' where "h' = push_operations P (Operations (NodeData (h3 N))) h3"
      have run: "simplify_node TP N h = Some (True, h')"
        using True 1 P sP no m(1,2) unfolding simplify_node_def h'_def by (auto simp: Let_def)
      have keep: "Predecessors (h' n) = []" if "Predecessors (h n) = []" for n
      proof -
        have "n \<notin> set (successors_of h N)" using edges_match_neighbors [OF match, of n N] that by (simp add: predecessors_of_def)
        then have "set (predecessors_of h3 n) \<subseteq> set (predecessors_of h n)" using spec [OF m(5), of n] by auto
        then show ?thesis using that by (simp add: h'_def predecessors_of_def)
      qed
      have "Successors (h' n) = [] \<and> Predecessors (h' n) = []" if n: "n \<notin> V - {N}" for n
      proof (cases "n = N")
        case True
        then show ?thesis using m(6,7) by (simp add: h'_def successors_of_def predecessors_of_def)
      next
        case False
        then have dead: "Successors (h n) = []" "Predecessors (h n) = []" using n assms(1) by (simp_all add: heap_wf_def)
        have "n \<noteq> P" using PV n False by auto
        then have "set (successors_of h' n) = {}" using m(3) False dead(1) by (simp add: merges_def h'_def successors_of_def)
        then show ?thesis using keep [OF dead(2)] by (simp add: no_edges_iff(1))
      qed
      then have "heap_wf (V - {N}) h'" using m(4) by (auto simp: heap_wf_def h'_def edges_match_def)
      moreover have "Predecessors (h N) \<noteq> []" using P(1) by (auto simp: predecessors_of_def)
      ultimately show ?thesis using run m(3) keep no PV by (auto simp: h'_def)
    qed
  qed
qed

text \<open>A merge keeps the reachability of the nodes that are not merged.\<close>

definition heap_edges :: "('l, 'd) heap \<Rightarrow> (ptr \<times> ptr) set" where
  "heap_edges h = {(a, b). b \<in> set (successors_of h a)}"

lemma merges_reach:
  assumes match: "edges_match h" and m: "merges h P N h'" and "T \<noteq> N"
  shows "(b, T) \<in> (heap_edges h)\<^sup>* \<Longrightarrow> (if b = N then P else b, T) \<in> (heap_edges h')\<^sup>*"
proof (induction rule: converse_rtrancl_induct)
  case base
  then show ?case using assms(3) by simp
next
  case (step b c)
  have P: "set (successors_of h P) = {N}" "P \<noteq> N" and N: "c = N \<Longrightarrow> b = P"
    using m edges_match_neighbors [OF match, of N b] step.hyps(1) by (auto simp: merges_def heap_edges_def)
  have c: "c \<in> set (successors_of h b)" using step.hyps(1) by (simp add: heap_edges_def)
  show ?case
  proof (cases "c = N")
    case True
    then show ?thesis using N P(2) step.IH by simp
  next
    case False
    then have "b \<noteq> P" using c P(1) by auto
    then have "c \<in> set (successors_of h' (if b = N then P else b))" using m c P(2) by (auto simp: merges_def)
    then have "(if b = N then P else b, c) \<in> heap_edges h'" by (simp add: heap_edges_def)
    then show ?thesis using step.IH False by (simp add: converse_rtrancl_into_rtrancl)
  qed
qed

text \<open>What the loop over the nodes \<open>Ns\<close> keeps, when \<open>V\<close> are the nodes of the graph.\<close>

definition simplifies ::
  "ptr set \<Rightarrow> ptr set \<Rightarrow> ptr list \<Rightarrow> (unit, Block) heap \<Rightarrow> ptr list \<Rightarrow> (unit, Block) heap \<Rightarrow> bool" where
  "simplifies TP V Ns h Kept h' \<longleftrightarrow>
     subseq Kept Ns \<and> heap_wf (V - (set Ns - set Kept)) h'
     \<and> (\<forall>n \<in> set Ns. n \<in> TP \<or> Predecessors (h n) = [] \<longrightarrow> n \<in> set Kept)
     \<and> (\<forall>b \<in> V - (set Ns - set Kept). \<forall>xs. exec h' b xs \<longleftrightarrow> exec h b xs)
     \<and> (\<forall>b \<in> V - (set Ns - set Kept). \<forall>T \<in> TP. (b, T) \<in> (heap_edges h)\<^sup>* \<longrightarrow> (b, T) \<in> (heap_edges h')\<^sup>*)
     \<and> (\<Sum>n \<in> V - (set Ns - set Kept). mset (heap_ops h' n)) = (\<Sum>n \<in> V. mset (heap_ops h n))"

lemma subseq_set: "subseq xs ys \<Longrightarrow> set xs \<subseteq> set ys"
  by (induction rule: list_emb.induct) auto

lemma subseq_distinct_list: "subseq xs ys \<Longrightarrow> distinct ys \<Longrightarrow> distinct xs"
  by (induction rule: list_emb.induct) (auto dest: subseq_set)

lemma merges_ops:
  assumes "merges h P N h'" "P \<in> V" "N \<in> V" "finite V"
  shows "(\<Sum>n \<in> V - {N}. mset (heap_ops h' n)) = (\<Sum>n \<in> V. mset (heap_ops h n))"
proof -
  have ops: "mset (heap_ops h' n) = mset (heap_ops h n) + (if n = P then mset (heap_ops h N) else {#})" and "P \<noteq> N" for n
    using assms(1) by (simp_all add: merges_def)
  then have "(\<Sum>n \<in> V - {N}. mset (heap_ops h' n)) = (\<Sum>n \<in> V - {N}. mset (heap_ops h n)) + mset (heap_ops h N)"
    using assms(2,4) unfolding ops sum.distrib by (subst sum.delta) auto
  also have "\<dots> = (\<Sum>n \<in> V. mset (heap_ops h n))" using assms(3,4) by (subst sum.remove [of V N]) (simp_all add: add.commute)
  finally show ?thesis .
qed

lemma all_operations_mset:
  "distinct (Nodes (Graph F)) \<Longrightarrow>
    mset (all_operations F) = (\<Sum>n \<in> set (Nodes (Graph F)). mset (heap_ops (Heap (Graph F)) n))"
  by (simp add: all_operations_def block_ops_heap mset_concat sum_list_distinct_conv_sum_set comp_def)

lemma simplify_loop_correct:
  "heap_wf V h \<Longrightarrow> distinct Ns \<Longrightarrow> set Ns \<subseteq> V \<Longrightarrow> finite V \<Longrightarrow>
    \<exists>Kept h'. simplify_loop TP Ns h = Some (Kept, h') \<and> simplifies TP V Ns h Kept h'"
proof (induction Ns arbitrary: V h)
  case Nil
  then show ?case by (simp add: simplifies_def)
next
  case (Cons N Ns)
  obtain Drop h1 where node: "simplify_node TP N h = Some (Drop, h1)"
    and n: "if \<not> Drop then h1 = h
      else N \<notin> TP \<and> Predecessors (h N) \<noteq> [] \<and> heap_wf (V - {N}) h1 \<and> (\<exists>P \<in> V. merges h P N h1)
        \<and> (\<forall>n. Predecessors (h n) = [] \<longrightarrow> Predecessors (h1 n) = [])"
    using simplify_node_correct [OF Cons.prems(1), of N TP] Cons.prems(3) by auto
  show ?case
  proof (cases Drop)
    case False
    obtain Kept h' where l: "simplify_loop TP Ns h = Some (Kept, h')" "simplifies TP V Ns h Kept h'"
      using Cons.IH [OF Cons.prems(1)] Cons.prems(2-4) by auto
    have "set (N # Ns) - set (N # Kept) = set Ns - set Kept" using Cons.prems(2) by auto
    then have "simplifies TP V (N # Ns) h (N # Kept) h'" using l(2) by (simp add: simplifies_def)
    then show ?thesis using node n False l(1) by simp
  next
    case True
    then have d: "N \<notin> TP" "Predecessors (h N) \<noteq> []" "heap_wf (V - {N}) h1"
        "\<forall>n. Predecessors (h n) = [] \<longrightarrow> Predecessors (h1 n) = []"
      and "\<exists>P \<in> V. merges h P N h1" using n by simp_all
    then obtain P where P: "P \<in> V" "merges h P N h1" by blast
    have sub: "set Ns \<subseteq> V - {N}" "N \<in> V" using Cons.prems(2,3) by auto
    obtain Kept h' where l: "simplify_loop TP Ns h1 = Some (Kept, h')" "simplifies TP (V - {N}) Ns h1 Kept h'"
      using Cons.IH [OF d(3)] Cons.prems(2,4) sub(1) by auto
    have K: "subseq Kept Ns" "N \<notin> set Kept"
      using l(2) Cons.prems(2) by (auto simp: simplifies_def dest: subseq_set)
    have V: "V - (set (N # Ns) - set Kept) = (V - {N}) - (set Ns - set Kept)" using K(2) by auto
    have match: "edges_match h" using Cons.prems(1) by (simp add: heap_wf_def)
    have "exec h' b xs \<longleftrightarrow> exec h b xs" if "b \<in> (V - {N}) - (set Ns - set Kept)" for b xs
      using that l(2) merges_exec [OF match P(2), of b xs] by (simp add: simplifies_def)
    moreover have "(b, T) \<in> (heap_edges h')\<^sup>*"
      if "b \<in> (V - {N}) - (set Ns - set Kept)" "T \<in> TP" "(b, T) \<in> (heap_edges h)\<^sup>*" for b T
    proof -
      have "T \<noteq> N" using that(2) d(1) by blast
      then have "(b, T) \<in> (heap_edges h1)\<^sup>*" using merges_reach [OF match P(2) _ that(3)] that(1) by simp
      then show ?thesis using l(2) that(1,2) unfolding simplifies_def by blast
    qed
    moreover have "(\<Sum>n \<in> (V - {N}) - (set Ns - set Kept). mset (heap_ops h' n)) = (\<Sum>n \<in> V. mset (heap_ops h n))"
      using l(2) merges_ops [OF P(2,1) sub(2) Cons.prems(4)] by (simp add: simplifies_def)
    ultimately have "simplifies TP V (N # Ns) h Kept h'"
      using l(2) d K(1) unfolding simplifies_def V by auto
    then show ?thesis using node True l(1) by simp
  qed
qed

lemma simplify_correct:
  assumes "function_wf F"
  shows "\<exists>F'. simplify ToPreserve F = Some F' \<and> function_wf F'
    \<and> IndexToCSV F' = IndexToCSV F \<and> CSVToIndex F' = CSVToIndex F \<and> EntryNode (Graph F') = EntryNode (Graph F)
    \<and> subseq (Nodes (Graph F')) (Nodes (Graph F))
    \<and> (\<forall>n \<in> set (Nodes (Graph F)). n \<in> ToPreserve \<or> predecessors_of (Heap (Graph F)) n = [] \<longrightarrow> n \<in> set (Nodes (Graph F')))
    \<and> (\<forall>b \<in> set (Nodes (Graph F')). (\<forall>xs. exec (Heap (Graph F')) b xs \<longleftrightarrow> exec (Heap (Graph F)) b xs)
         \<and> (\<forall>r. live F' b r \<longleftrightarrow> live F b r)
         \<and> (\<forall>T \<in> ToPreserve. (b, T) \<in> (heap_edges (Heap (Graph F)))\<^sup>* \<longrightarrow> (b, T) \<in> (heap_edges (Heap (Graph F')))\<^sup>*))
    \<and> mset (all_operations F') = mset (all_operations F)"
proof -
  let ?N = "Nodes (Graph F)" and ?h = "Heap (Graph F)"
  have wf: "graph_wf (Graph F)" and valid: "\<forall>Op \<in> set (all_operations F). Type Op \<noteq> Invalid"
    using assms by (simp_all add: function_wf_def)
  have "heap_wf (set ?N) ?h" "distinct ?N" using wf by (simp_all add: heap_wf_def graph_wf_def)
  then obtain Kept h' where l: "simplify_loop ToPreserve ?N ?h = Some (Kept, h')" "simplifies ToPreserve (set ?N) ?N ?h Kept h'"
    using simplify_loop_correct [of "set ?N" ?h ?N ToPreserve] by auto
  define F' where "F' = F\<lparr>Graph := (Graph F)\<lparr>Nodes := Kept, Heap := h'\<rparr>\<rparr>"
  have sub: "subseq Kept ?N" "set Kept \<subseteq> set ?N" using l(2) subseq_set by (auto simp: simplifies_def)
  have V: "set ?N - (set ?N - set Kept) = set Kept" using sub(2) by blast
  have "distinct Kept" using subseq_distinct_list [OF sub(1)] wf by (simp add: graph_wf_def)
  then have graph: "graph_wf (Graph F')"
    using l(2) sub(2) wf unfolding simplifies_def V by (auto simp: F'_def graph_wf_def heap_wf_def)
  have ops: "mset (all_operations F') = mset (all_operations F)"
    using l(2) wf \<open>distinct Kept\<close> unfolding simplifies_def V by (simp add: F'_def all_operations_mset graph_wf_def)
  then have "function_wf F'" using graph valid mset_eq_setD [OF ops] by (simp add: function_wf_def)
  moreover have exec: "exec h' b xs \<longleftrightarrow> exec ?h b xs" if "b \<in> set Kept" for b xs
    using l(2) that unfolding simplifies_def V by blast
  moreover have "live F' b r \<longleftrightarrow> live F b r" if "b \<in> set Kept" for b r
    unfolding live_exec using exec [OF that] by (simp add: F'_def)
  moreover have "\<forall>n \<in> set ?N. n \<in> ToPreserve \<or> predecessors_of ?h n = [] \<longrightarrow> n \<in> set Kept"
    using l(2) by (auto simp: simplifies_def predecessors_of_def)
  moreover have "(b, T) \<in> (heap_edges h')\<^sup>*" if "b \<in> set Kept" "T \<in> ToPreserve" "(b, T) \<in> (heap_edges ?h)\<^sup>*" for b T
    using l(2) that unfolding simplifies_def V by blast
  ultimately show ?thesis
    using l(1) sub(1) ops by (intro exI [of _ F'] conjI) (simp_all add: simplify_def F'_def)
qed

text \<open>
  \<^bold>\<open>C34\<close>. Simplifying a well-formed function succeeds and gives a well-formed function with the same
  CSV numbering: it keeps the order of the nodes, every node to preserve and every node without
  predecessors, and from each node that is kept the function may execute exactly the sequences of
  operations it could execute before, so that its liveness does not change. No operation is lost or
  duplicated.
\<close>

theorem simplify_preserves_executions:
  assumes "function_wf F"
  shows "\<exists>F'. simplify ToPreserve F = Some F' \<and> function_wf F'
    \<and> IndexToCSV F' = IndexToCSV F \<and> CSVToIndex F' = CSVToIndex F \<and> EntryNode (Graph F') = EntryNode (Graph F)
    \<and> subseq (Nodes (Graph F')) (Nodes (Graph F))
    \<and> (\<forall>n \<in> set (Nodes (Graph F)). n \<in> ToPreserve \<or> predecessors_of (Heap (Graph F)) n = [] \<longrightarrow> n \<in> set (Nodes (Graph F')))
    \<and> (\<forall>b \<in> set (Nodes (Graph F')). (\<forall>xs. exec (Heap (Graph F')) b xs \<longleftrightarrow> exec (Heap (Graph F)) b xs)
         \<and> (\<forall>r. live F' b r \<longleftrightarrow> live F b r))
    \<and> mset (all_operations F') = mset (all_operations F)"
  using simplify_correct [OF assms, of ToPreserve] by blast

text \<open>For the witness: block 1, which writes register 0, followed by block 2, which reads it.\<close>

definition chain :: "nat Function" where
  "chain = no_csvs\<lparr>Graph := \<lparr>EntryNode = 1, Nodes = [1, 2],
       Heap = (\<lambda>n. if n = 1 then \<lparr>Successors = [\<lparr>Neighbor = 2, EdgeLabel = ()\<rparr>], Predecessors = [],
                NodeData = \<lparr>Label = [], Operations = [\<lparr>Type = Write, Target = 0\<rparr>]\<rparr>\<rparr>
              else if n = 2 then \<lparr>Successors = [], Predecessors = [\<lparr>Neighbor = 1, EdgeLabel = ()\<rparr>],
                NodeData = \<lparr>Label = [], Operations = [\<lparr>Type = Read, Target = 0\<rparr>]\<rparr>\<rparr>
              else \<lparr>Successors = [], Predecessors = [], NodeData = \<lparr>Label = [], Operations = []\<rparr>\<rparr>)\<rparr>\<rparr>"

lemma chain_wf: "function_wf chain"
  by (auto simp: function_wf_def graph_wf_def edges_match_def chain_def all_operations_def block_ops_def)

theorem simplify_preserves_executions_witness:
  "\<exists>F'. simplify {} chain = Some F' \<and> 1 \<in> set (Nodes (Graph F')) \<and> \<not> live F' 1 0"
proof -
  have "\<not> live chain 1 0"
    unfolding live_unfold [of chain 1] by (simp add: chain_def block_ops_def)
  moreover have "1 \<in> set (Nodes (Graph chain))" "predecessors_of (Heap (Graph chain)) 1 = []"
    by (simp_all add: chain_def predecessors_of_def)
  ultimately show ?thesis using simplify_preserves_executions [OF chain_wf, of "{}"] by blast
qed

end
