(* ===== verification/Liveness_Analysis.thy ===== *)
theory Liveness_Analysis
  imports Rua_Function
begin

text \<open>
  The liveness analysis (src/include/revng/RegisterUsageAnalyses/Liveness.h) and the way
  \<^verbatim>\<open>efa::analyzeRegisterUsage\<close> runs it with the solver. The analysis is shown to be exact.
\<close>

section \<open>Liveness\<close>

definition Liveness_defaultValue :: "'v BitVector_ops \<Rightarrow> 'c Function \<Rightarrow> 'v" where
  "Liveness_defaultValue B F =
     (let Max = foldl (\<lambda>Max Operation. max Max (Target Operation)) 0 (all_operations F)
      in bv_resize B (unat Max + 1) (bv_empty B))"

definition Liveness_combineValues :: "'v BitVector_ops \<Rightarrow> 'v \<Rightarrow> 'v \<Rightarrow> 'v" where
  "Liveness_combineValues B LHS RHS = bv_or B LHS RHS"

definition Liveness_isLessOrEqual :: "'v BitVector_ops \<Rightarrow> 'v \<Rightarrow> 'v \<Rightarrow> bool" where
  "Liveness_isLessOrEqual B LHS RHS \<longleftrightarrow> bv_eq B (bv_and B RHS LHS) LHS"

fun Liveness_loop :: "'v BitVector_ops \<Rightarrow> Operation list \<Rightarrow> 'v \<Rightarrow> 'v checked" where
  "Liveness_loop B [] Result = Some Result"
| "Liveness_loop B (Op # Ops) Result = do {
     R \<leftarrow> (case Type Op of
            Read \<Rightarrow> bv_set_at B (unat (Target Op)) Result
          | Write \<Rightarrow> bv_reset_at B (unat (Target Op)) Result
          | Clobber \<Rightarrow> bv_reset_at B (unat (Target Op)) Result
          | Invalid \<Rightarrow> revng_abort);
     Liveness_loop B Ops R }"

definition Liveness_applyTransferFunction ::
  "'v BitVector_ops \<Rightarrow> 'c Function \<Rightarrow> ptr \<Rightarrow> 'v \<Rightarrow> unit \<Rightarrow> ('v \<times> unit) checked" where
  "Liveness_applyTransferFunction B F Block InitialState X =
     map_option (\<lambda>v. (v, X)) (Liveness_loop B (rev (block_ops F Block)) InitialState)"

definition Liveness :: "'v BitVector_ops \<Rightarrow> 'c Function \<Rightarrow> (ptr, 'v, unit) MonotoneFrameworkInstance" where
  "Liveness B F =
     \<lparr>combineValues = Liveness_combineValues B, isLessOrEqual = Liveness_isLessOrEqual B,
      applyTransferFunction = Liveness_applyTransferFunction B F\<rparr>"

text \<open>The liveness part of \<^verbatim>\<open>analyzeRegisterUsage\<close>: the configuration it runs the solver with.\<close>

definition liveness_analysis ::
  "'v BitVector_ops \<Rightarrow> (ptr \<Rightarrow> ptr set \<Rightarrow> ptr list \<times> ptr set) \<Rightarrow> 'c Function \<Rightarrow> ptr
    \<Rightarrow> (ptr \<rightharpoonup> 'v MFPResult) checked" where
  "liveness_analysis B po F ReturnNode =
     map_option fst (getMaximalFixedPoint None (bv_empty B) ()
       \<lparr>Instance = Some (Liveness B F), Flow = GraphTraits_Inverse po (Graph F),
        Bottom = Some (Liveness_defaultValue B F), ExtremalValue = Some (Liveness_defaultValue B F),
        ExtremalLabels = Some [ReturnNode], EntryLabels = All, cfg_ExtraState = None\<rparr>)"

section \<open>Liveness is exact\<close>

definition liveness_size :: "'c Function \<Rightarrow> nat" where
  "liveness_size F = unat (foldl (\<lambda>Max Operation. max Max (Target Operation)) 0 (all_operations F)) + 1"

lemma foldl_max_bound:
  fixes a :: "u8"
  shows "a \<le> foldl (\<lambda>Max Operation. max Max (Target Operation)) a Ops
    \<and> (\<forall>Op \<in> set Ops. Target Op \<le> foldl (\<lambda>Max Operation. max Max (Target Operation)) a Ops)"
proof (induction Ops arbitrary: a)
  case (Cons Op Ops)
  from Cons [of "max a (Target Op)"] show ?case by (auto intro: order_trans)
qed simp

lemma target_bound: "Op \<in> set (all_operations F) \<Longrightarrow> unat (Target Op) < liveness_size F"
  using foldl_max_bound [of 0 "all_operations F"] by (simp add: liveness_size_def less_Suc_eq_le word_le_nat_alt)

lemma Liveness_loop_append: "Liveness_loop B (xs @ ys) v = Liveness_loop B xs v \<bind> Liveness_loop B ys"
proof (induction xs arbitrary: v)
  case (Cons x xs)
  then have "Liveness_loop B (xs @ ys) = (\<lambda>v. Liveness_loop B xs v \<bind> Liveness_loop B ys)" by (simp add: fun_eq_iff)
  then show ?case by (cases "Type x") simp_all
qed simp

definition Liveness_tf :: "'v BitVector_ops \<Rightarrow> 'c Function \<Rightarrow> ptr \<Rightarrow> 'v \<Rightarrow> 'v" where
  "Liveness_tf B F b v = the (Liveness_loop B (rev (block_ops F b)) v)"

context bit_vector
begin

lemma liveness_lattice:
  "mfp_lattice (Liveness_combineValues B) (Liveness_isLessOrEqual B) (\<lambda>v. bv_size B v = n) (\<lambda>v. n - card (bits B v))"
proof -
  have leq: "Liveness_isLessOrEqual B v w \<longleftrightarrow> bits B v \<subseteq> bits B w" if "bv_size B v = n" "bv_size B w = n" for v w
    using that by (auto simp: Liveness_isLessOrEqual_def eq_bits and_bits)
  have "n - card (bits B v \<union> bits B w) < n - card (bits B v)"
    if "bv_size B v = n" "bv_size B w = n" "\<not> bits B w \<subseteq> bits B v" for v w
  proof -
    have "bits B v \<union> bits B w \<subseteq> {..<n}" using bits_bound [of v] bits_bound [of w] that(1,2) by simp
    then have "card (bits B v \<union> bits B w) \<le> n" using card_mono [of "{..<n}"] by fastforce
    moreover have "card (bits B v) < card (bits B v \<union> bits B w)"
      by (rule psubset_card_mono) (use that in auto)
    ultimately show ?thesis by linarith
  qed
  then show ?thesis
    by unfold_locales (auto simp: leq Liveness_combineValues_def or_bits)
qed

lemma Liveness_leq:
  "bv_size B v = n \<Longrightarrow> bv_size B w = n \<Longrightarrow> Liveness_isLessOrEqual B v w \<longleftrightarrow> bits B v \<subseteq> bits B w"
  by (auto simp: Liveness_isLessOrEqual_def eq_bits and_bits)

lemma Liveness_loop_correct:
  assumes "\<forall>Op \<in> set Ops. unat (Target Op) < n \<and> Type Op \<noteq> Invalid" "bv_size B v = n"
  shows "\<exists>v'. Liveness_loop B (rev Ops) v = Some v' \<and> bv_size B v' = n
    \<and> bits B v' = {r. first_access Ops r = Some Read \<or> first_access Ops r = None \<and> r \<in> bits B v}"
  using assms(1)
proof (induction Ops)
  case Nil
  then show ?case using assms(2) by simp
next
  case (Cons Op Ops)
  then obtain v' where v': "Liveness_loop B (rev Ops) v = Some v'" "bv_size B v' = n"
      "bits B v' = {r. first_access Ops r = Some Read \<or> first_access Ops r = None \<and> r \<in> bits B v}"
    by auto
  have t: "unat (Target Op) < bv_size B v'" "Type Op \<noteq> Invalid" using Cons.prems v'(2) by simp_all
  show ?case
  proof (cases "Type Op")
    case Read
    have "Liveness_loop B (rev (Op # Ops)) v = Some (bv_set B (unat (Target Op)) v')"
      using v'(1) t Read by (simp add: Liveness_loop_append bv_set_at_def)
    moreover have "insert (unat (Target Op)) (bits B v') = {r. first_access (Op # Ops) r = Some Read
        \<or> first_access (Op # Ops) r = None \<and> r \<in> bits B v}" using Read v'(3) by auto
    ultimately show ?thesis using set_bit [OF t(1)] v'(2) by simp
  next
    case Write
    have "Liveness_loop B (rev (Op # Ops)) v = Some (bv_reset B (unat (Target Op)) v')"
      using v'(1) t Write by (simp add: Liveness_loop_append bv_reset_at_def)
    moreover have "bits B v' - {unat (Target Op)} = {r. first_access (Op # Ops) r = Some Read
        \<or> first_access (Op # Ops) r = None \<and> r \<in> bits B v}" using Write v'(3) by auto
    ultimately show ?thesis using reset_bit [OF t(1)] v'(2) by simp
  next
    case Clobber
    have "Liveness_loop B (rev (Op # Ops)) v = Some (bv_reset B (unat (Target Op)) v')"
      using v'(1) t Clobber by (simp add: Liveness_loop_append bv_reset_at_def)
    moreover have "bits B v' - {unat (Target Op)} = {r. first_access (Op # Ops) r = Some Read
        \<or> first_access (Op # Ops) r = None \<and> r \<in> bits B v}" using Clobber v'(3) by auto
    ultimately show ?thesis using reset_bit [OF t(1)] v'(2) by simp
  qed (use t(2) in simp)
qed

lemma Liveness_tf_correct:
  assumes "function_wf F" "b \<in> set (Nodes (Graph F))" "bv_size B v = liveness_size F"
  shows "Liveness_applyTransferFunction B F b v x = Some (Liveness_tf B F b v, x)"
    "bv_size B (Liveness_tf B F b v) = liveness_size F"
    "bits B (Liveness_tf B F b v) = {r. first_access (block_ops F b) r = Some Read
        \<or> first_access (block_ops F b) r = None \<and> r \<in> bits B v}"
proof -
  have "\<forall>Op \<in> set (block_ops F b). unat (Target Op) < liveness_size F \<and> Type Op \<noteq> Invalid"
    using block_ops_subset [OF assms(2)] assms(1) target_bound by (auto simp: function_wf_def)
  from Liveness_loop_correct [OF this assms(3)] obtain v' where
    "Liveness_loop B (rev (block_ops F b)) v = Some v'" "bv_size B v' = liveness_size F"
    "bits B v' = {r. first_access (block_ops F b) r = Some Read \<or> first_access (block_ops F b) r = None \<and> r \<in> bits B v}"
    by blast
  then show "Liveness_applyTransferFunction B F b v x = Some (Liveness_tf B F b v, x)"
    "bv_size B (Liveness_tf B F b v) = liveness_size F"
    "bits B (Liveness_tf B F b v) = {r. first_access (block_ops F b) r = Some Read
        \<or> first_access (block_ops F b) r = None \<and> r \<in> bits B v}"
    by (simp_all add: Liveness_applyTransferFunction_def Liveness_tf_def)
qed

lemma Liveness_framework:
  assumes "function_wf F"
  shows "monotone_framework (Liveness B F) (\<lambda>v. bv_size B v = liveness_size F)
    (\<lambda>v. liveness_size F - card (bits B v)) (GraphTraits_Inverse po (Graph F)) (set (Nodes (Graph F))) (Liveness_tf B F)"
proof -
  note tf = Liveness_tf_correct [OF assms]
  have wf: "graph_wf (Graph F)" using assms by (simp add: function_wf_def)
  show ?thesis
  proof (intro monotone_framework.intro monotone_framework_axioms.intro)
    show "mfp_lattice (combineValues (Liveness B F)) (isLessOrEqual (Liveness B F))
        (\<lambda>v. bv_size B v = liveness_size F) (\<lambda>v. liveness_size F - card (bits B v))"
      using liveness_lattice by (simp add: Liveness_def)
    show "set (successors (GraphTraits_Inverse po (Graph F)) l) \<subseteq> set (Nodes (Graph F))" for l
      using graph_wf_links(2) [OF wf, of l] by (simp add: GraphTraits_Inverse_def)
    fix l a b :: _ and x :: unit
    assume l: "l \<in> set (Nodes (Graph F))" and a: "bv_size B a = liveness_size F"
    show "\<exists>x'. applyTransferFunction (Liveness B F) l a x = Some (Liveness_tf B F l a, x')"
      using tf(1) [OF l a] by (simp add: Liveness_def)
    show "bv_size B (Liveness_tf B F l a) = liveness_size F" by (rule tf(2) [OF l a])
    assume b: "bv_size B b = liveness_size F" and "isLessOrEqual (Liveness B F) a b"
    then have "bits B a \<subseteq> bits B b" using Liveness_leq [OF a b] by (simp add: Liveness_def)
    then have "bits B (Liveness_tf B F l a) \<subseteq> bits B (Liveness_tf B F l b)"
      unfolding tf(3) [OF l a] tf(3) [OF l b] by blast
    then show "isLessOrEqual (Liveness B F) (Liveness_tf B F l a) (Liveness_tf B F l b)"
      using Liveness_leq [OF tf(2) [OF l a] tf(2) [OF l b]] by (simp add: Liveness_def)
  qed
qed

lemma Liveness_defaultValue_bits:
  "bv_size B (Liveness_defaultValue B F) = liveness_size F" "bits B (Liveness_defaultValue B F) = {}"
proof -
  have "bits B (bv_empty B) = {}" using bits_bound [of "bv_empty B"] size_empty by simp
  then show "bv_size B (Liveness_defaultValue B F) = liveness_size F" "bits B (Liveness_defaultValue B F) = {}"
    by (simp_all add: Liveness_defaultValue_def liveness_size_def Let_def resize)
qed

end

section \<open>Live registers are the facts that flow against the edges\<close>

definition live_gen :: "'c Function \<Rightarrow> ptr \<Rightarrow> nat set" where
  "live_gen F b = {r. first_access (block_ops F b) r = Some Read}"

definition live_flow :: "'c Function \<Rightarrow> ptr \<Rightarrow> (nat \<times> nat) set" where
  "live_flow F b = {(r, r) | r. first_access (block_ops F b) r = None}"

lemma live_flowing:
  assumes wf: "graph_wf (Graph F)" and b: "b \<in> set (Nodes (Graph F))"
  shows "(b, r) \<in> flowing (predecessors_of (Heap (Graph F))) (set (Nodes (Graph F))) (live_gen F) (live_flow F) \<longleftrightarrow> live F b r"
    (is "_ \<in> ?E \<longleftrightarrow> _")
proof
  have link: "l \<in> set (predecessors_of (Heap (Graph F)) k) \<longleftrightarrow> k \<in> set (successors_of (Heap (Graph F)) l)" for k l
    using edges_match_neighbors [of "Heap (Graph F)" k l] wf by (simp add: graph_wf_def)
  show "live F b r" if "(b, r) \<in> ?E"
    using that
  proof (induction rule: flowing.induct)
    case (generated l f)
    then show ?case by (subst live_unfold) (simp add: live_gen_def)
  next
    case (flows k g l f)
    then show ?case using link [of l k] by (subst live_unfold) (auto simp: live_flow_def)
  qed
  assume "live F b r"
  then obtain p where "is_path (successors_of (Heap (Graph F))) (b # p)" "first_access (path_ops F (b # p)) r = Some Read"
    by (auto simp: live_def)
  then show "(b, r) \<in> ?E" using b
  proof (induction p arbitrary: b)
    case Nil
    then show ?case by (intro flowing.generated) (simp_all add: live_gen_def path_ops_def)
  next
    case (Cons s p)
    have s: "s \<in> set (successors_of (Heap (Graph F)) b)" "s \<in> set (Nodes (Graph F))"
      using Cons.prems(1) graph_wf_links(1) [OF wf, of b] by auto
    consider "first_access (block_ops F b) r = Some Read"
      | "first_access (block_ops F b) r = None" "first_access (path_ops F (s # p)) r = Some Read"
      using Cons.prems(2) by (auto simp: path_ops_Cons [of F b] first_access_append split: option.splits)
    then show ?case
    proof cases
      case 1
      then show ?thesis using Cons.prems(3) by (intro flowing.generated) (simp_all add: live_gen_def)
    next
      case 2
      have "(s, r) \<in> ?E" by (rule Cons.IH) (use Cons.prems(1) 2(2) s(2) in simp_all)
      then show ?thesis by (rule flowing.flows) (use s(1) 2(1) in \<open>simp_all add: link live_flow_def\<close>)
    qed
  qed
qed

locale liveness_run = bit_vector B
  for B :: "'v BitVector_ops" +
  fixes F :: "'c Function" and po :: "ptr \<Rightarrow> ptr set \<Rightarrow> ptr list \<times> ptr set"
  assumes wf: "function_wf F"
    and po: "post_order_graph (GraphTraits_Inverse po (Graph F))"

sublocale liveness_run \<subseteq> distributive_analysis "Liveness B F" "\<lambda>v. bv_size B v = liveness_size F"
    "\<lambda>v. liveness_size F - card (bits B v)" "GraphTraits_Inverse po (Graph F)" "set (Nodes (Graph F))" "Liveness_tf B F"
    "bits B" "{..<liveness_size F}" "live_gen F" "live_flow F"
proof (intro distributive_analysis.intro distributive_analysis_axioms.intro)
  show "mfp_solver (Liveness B F) (\<lambda>v. bv_size B v = liveness_size F) (\<lambda>v. liveness_size F - card (bits B v))
      (GraphTraits_Inverse po (Graph F)) (set (Nodes (Graph F))) (Liveness_tf B F)"
    by (rule mfp_solver.intro [OF po Liveness_framework [OF wf]])
  show "\<exists>a. bv_size B a = liveness_size F \<and> bits B a = S" if "S \<subseteq> {..<liveness_size F}" for S
    using that by (rule ex_bits)
  fix a b assume a: "bv_size B a = liveness_size F"
  show "bits B a \<subseteq> {..<liveness_size F}" using bits_bound [of a] a by simp
  show "bits B (Liveness_tf B F l a) = live_gen F l \<union> live_flow F l `` bits B a" if "l \<in> set (Nodes (Graph F))" for l
    unfolding Liveness_tf_correct(3) [OF wf that a] by (auto simp: live_gen_def live_flow_def)
  assume "bv_size B b = liveness_size F"
  then show "isLessOrEqual (Liveness B F) a b \<longleftrightarrow> bits B a \<subseteq> bits B b"
    using Liveness_leq [OF a] by (simp add: Liveness_def)
qed

context liveness_run
begin

lemma liveness_analysis_exact:
  "\<exists>R. liveness_analysis B po F ReturnNode = Some R
    \<and> (\<forall>b \<in> set (Nodes (Graph F)). \<exists>v w. R b = Some \<lparr>InValue = v, OutValue = w\<rparr>
         \<and> bits B v = {r. \<exists>s \<in> set (successors_of (Heap (Graph F)) b). live F s r}
         \<and> bits B w = {r. live F b r})"
proof -
  have gwf: "graph_wf (Graph F)" using wf by (simp add: function_wf_def)
  have succ: "successors (GraphTraits_Inverse po (Graph F)) = predecessors_of (Heap (Graph F))"
    and nodes: "graph_nodes (GraphTraits_Inverse po (Graph F)) = Some (Nodes (Graph F))"
    by (simp_all add: GraphTraits_Inverse_def)
  note E = live_flowing [OF gwf]
  have in_E: "incoming (predecessors_of (Heap (Graph F)))
      (flowing (predecessors_of (Heap (Graph F))) (set (Nodes (Graph F))) (live_gen F) (live_flow F)) b
    = {r. \<exists>s \<in> set (successors_of (Heap (Graph F)) b). live F s r}" for b
  proof -
    have "b \<in> set (predecessors_of (Heap (Graph F)) k) \<longleftrightarrow> k \<in> set (successors_of (Heap (Graph F)) b)" for k
      using edges_match_neighbors [of "Heap (Graph F)" k b] gwf by (simp add: graph_wf_def)
    moreover have "(k, r) \<in> flowing (predecessors_of (Heap (Graph F))) (set (Nodes (Graph F))) (live_gen F) (live_flow F) \<longleftrightarrow> live F k r"
      if "k \<in> set (successors_of (Heap (Graph F)) b)" for k r
      by (rule E) (use graph_wf_links(1) [OF gwf, of b] that in blast)
    ultimately show ?thesis by (simp add: incoming_def Bex_def cong: conj_cong)
  qed
  from solver_exact [OF nodes refl Liveness_defaultValue_bits, of None "bv_empty B" "()" "[ReturnNode]"]
  obtain R X' where R: "liveness_analysis B po F ReturnNode = Some R"
    "\<forall>l \<in> set (Nodes (Graph F)). \<exists>v w. R l = Some \<lparr>InValue = v, OutValue = w\<rparr> \<and> bv_size B v = liveness_size F
       \<and> bv_size B w = liveness_size F
       \<and> bits B v = incoming (predecessors_of (Heap (Graph F))) (flowing (predecessors_of (Heap (Graph F)))
            (set (Nodes (Graph F))) (live_gen F) (live_flow F)) l
       \<and> bits B w = {f. (l, f) \<in> flowing (predecessors_of (Heap (Graph F))) (set (Nodes (Graph F))) (live_gen F) (live_flow F)}"
    unfolding succ by (elim exE conjE) (rule that, simp_all add: liveness_analysis_def)
  have "\<exists>v w. R b = Some \<lparr>InValue = v, OutValue = w\<rparr>
      \<and> bits B v = {r. \<exists>s \<in> set (successors_of (Heap (Graph F)) b). live F s r} \<and> bits B w = {r. live F b r}"
    if b: "b \<in> set (Nodes (Graph F))" for b
    using R(2) [rule_format, OF b] unfolding in_E E [OF b] by (elim exE conjE) (intro exI conjI)
  then show ?thesis using R(1) by (intro exI [of _ R] conjI ballI)
qed

end

section \<open>The properties\<close>

text \<open>
  \<^bold>\<open>C3\<close>. The liveness analysis returns, and its result is exact on every node: the final value of
  a block holds the registers that some path starting at the block reads before it writes or
  clobbers them, the initial value those that a path starting at one of its successors does.
\<close>

theorem liveness_exact:
  assumes "bit_vector B" "post_order_graph (GraphTraits_Inverse po (Graph F))" "function_wf F"
  shows "\<exists>R. liveness_analysis B po F ReturnNode = Some R
    \<and> (\<forall>b \<in> set (Nodes (Graph F)). \<exists>v w. R b = Some \<lparr>InValue = v, OutValue = w\<rparr>
         \<and> set (bv_set_bits B v) = {r. \<exists>s p. s \<in> set (successors_of (Heap (Graph F)) b)
              \<and> is_path (successors_of (Heap (Graph F))) (s # p) \<and> first_access (path_ops F (s # p)) r = Some Read}
         \<and> set (bv_set_bits B w) = {r. \<exists>p. is_path (successors_of (Heap (Graph F))) (b # p)
              \<and> first_access (path_ops F (b # p)) r = Some Read})"
proof -
  have "{r. \<exists>s \<in> set (successors_of (Heap (Graph F)) b). live F s r} = {r. \<exists>s p. s \<in> set (successors_of (Heap (Graph F)) b)
      \<and> is_path (successors_of (Heap (Graph F))) (s # p) \<and> first_access (path_ops F (s # p)) r = Some Read}" for b
    by (auto simp: live_def)
  then show ?thesis
    using liveness_run.liveness_analysis_exact [OF liveness_run.intro [OF assms(1) liveness_run_axioms.intro [OF assms(3,2)]], of ReturnNode]
    by (simp add: live_def)
qed

text \<open>
  For the witness: block 1 reads register 1 and writes register 0, block 2 reads register 0 and
  jumps back; a depth-first traversal is the post-order iterator.
\<close>

definition two_blocks :: "nat Function" where
  "two_blocks = \<lparr>IndexToCSV = [0 \<mapsto> 100, 1 \<mapsto> 101], CSVToIndex = [100 \<mapsto> 0, 101 \<mapsto> 1],
     Graph = \<lparr>EntryNode = 1, Nodes = [1, 2],
       Heap = (\<lambda>n. if n = 1 then \<lparr>Successors = [\<lparr>Neighbor = 2, EdgeLabel = ()\<rparr>],
                Predecessors = [\<lparr>Neighbor = 2, EdgeLabel = ()\<rparr>],
                NodeData = \<lparr>Label = ''first'', Operations =
                  [\<lparr>Type = Read, Target = 1\<rparr>, \<lparr>Type = Write, Target = 0\<rparr>]\<rparr>\<rparr>
              else if n = 2 then \<lparr>Successors = [\<lparr>Neighbor = 1, EdgeLabel = ()\<rparr>],
                Predecessors = [\<lparr>Neighbor = 1, EdgeLabel = ()\<rparr>],
                NodeData = \<lparr>Label = ''second'', Operations = [\<lparr>Type = Read, Target = 0\<rparr>]\<rparr>\<rparr>
              else \<lparr>Successors = [], Predecessors = [], NodeData = \<lparr>Label = [], Operations = []\<rparr>\<rparr>)\<rparr>\<rparr>"

lemma two_blocks_wf: "function_wf two_blocks"
  by (auto simp: function_wf_def graph_wf_def edges_match_def two_blocks_def all_operations_def block_ops_def)

theorem liveness_exact_witness:
  "\<exists>R v w. liveness_analysis list_bits (dfs_po [1, 2] (predecessors_of (Heap (Graph two_blocks)))) two_blocks 0 = Some R
     \<and> R 2 = Some \<lparr>InValue = v, OutValue = w\<rparr> \<and> 0 \<in> bits list_bits w \<and> 0 \<notin> bits list_bits v"
proof -
  let ?po = "dfs_po [1, 2] (predecessors_of (Heap (Graph two_blocks)))"
  have N: "Nodes (Graph two_blocks) = [1, 2]" by (simp add: two_blocks_def)
  have "post_order_graph (GraphTraits_Inverse ?po (Graph two_blocks))"
    using dfs_po_inverse [of "Graph two_blocks"] two_blocks_wf unfolding N function_wf_def by blast
  from liveness_exact [OF list_bits.bit_vector_axioms this two_blocks_wf, of 0]
  obtain R v w where R: "liveness_analysis list_bits ?po two_blocks 0 = Some R" "R 2 = Some \<lparr>InValue = v, OutValue = w\<rparr>"
    and w: "bits list_bits w = {r. \<exists>p. is_path (successors_of (Heap (Graph two_blocks))) (2 # p)
              \<and> first_access (path_ops two_blocks (2 # p)) r = Some Read}"
    and v: "bits list_bits v = {r. \<exists>s p. s \<in> set (successors_of (Heap (Graph two_blocks)) 2)
              \<and> is_path (successors_of (Heap (Graph two_blocks))) (s # p) \<and> first_access (path_ops two_blocks (s # p)) r = Some Read}"
    unfolding N by auto
  have "first_access (path_ops two_blocks [2]) 0 = Some Read" by (simp add: path_ops_def block_ops_def two_blocks_def)
  then have "0 \<in> bits list_bits w" unfolding w by (intro CollectI exI [of _ "[]"]) simp
  moreover have "first_access (path_ops two_blocks (1 # p)) 0 = Some Write" for p
    by (simp add: path_ops_def block_ops_def two_blocks_def)
  then have "0 \<notin> bits list_bits v" unfolding v by (auto simp: two_blocks_def successors_of_def)
  ultimately show ?thesis using R by blast
qed

end
