(* ===== verification/Reaching_Definitions.thy ===== *)
theory Reaching_Definitions
  imports Rua_Function
begin

text \<open>
  The reaching definitions analysis (src/include/revng/RegisterUsageAnalyses/ReachingDefinitions.h):
  for every register, which of its writes reach a point, and which have been read on a path to it.
  A write is an \<^verbatim>\<open>Operation *\<close>, here the block it is in and its position there.
\<close>

section \<open>Lattice elements\<close>

record 'v RegisterWriters =
  Reaching :: 'v
  ReadBy :: 'v

type_synonym 'v WritersSet = "'v RegisterWriters list"

definition rw_equal :: "'v BitVector_ops \<Rightarrow> 'v RegisterWriters \<Rightarrow> 'v RegisterWriters \<Rightarrow> bool" where
  "rw_equal B W Other \<longleftrightarrow> bv_eq B (Reaching W) (Reaching Other) \<and> bv_eq B (ReadBy W) (ReadBy Other)"

definition rw_or :: "'v BitVector_ops \<Rightarrow> 'v RegisterWriters \<Rightarrow> 'v RegisterWriters \<Rightarrow> 'v RegisterWriters" where
  "rw_or B W Other = \<lparr>Reaching = bv_or B (Reaching W) (Reaching Other), ReadBy = bv_or B (ReadBy W) (ReadBy Other)\<rparr>"

definition rw_and :: "'v BitVector_ops \<Rightarrow> 'v RegisterWriters \<Rightarrow> 'v RegisterWriters \<Rightarrow> 'v RegisterWriters" where
  "rw_and B W Other = \<lparr>Reaching = bv_and B (Reaching W) (Reaching Other), ReadBy = bv_and B (ReadBy W) (ReadBy Other)\<rparr>"

text \<open>\<^verbatim>\<open>zip\<close> stops at the end of the shorter range.\<close>

fun rd_combineValues :: "'v BitVector_ops \<Rightarrow> 'v WritersSet \<Rightarrow> 'v WritersSet \<Rightarrow> 'v WritersSet" where
  "rd_combineValues B (L # Ls) (R # Rs) = rw_or B L R # rd_combineValues B Ls Rs"
| "rd_combineValues B Ls _ = Ls"

fun rd_isLessOrEqual :: "'v BitVector_ops \<Rightarrow> 'v WritersSet \<Rightarrow> 'v WritersSet \<Rightarrow> bool" where
  "rd_isLessOrEqual B (L # Ls) (R # Rs) =
     (if \<not> rw_equal B (rw_and B L R) L then False else rd_isLessOrEqual B Ls Rs)"
| "rd_isLessOrEqual B _ _ = True"

section \<open>The numbering of the writes\<close>

type_synonym WriteToIndex = "ptr \<times> nat \<rightharpoonup> u8"

text \<open>
  The loops of the constructor: the counter of the target, an \<^verbatim>\<open>int\<close>, becomes a \<^verbatim>\<open>uint8_t\<close> in
  \<^verbatim>\<open>WriteToIndex\<close>; a target beyond the counters is an access out of range.
\<close>

fun number_operations ::
  "ptr \<Rightarrow> nat \<Rightarrow> Operation list \<Rightarrow> WriteToIndex \<times> nat list \<Rightarrow> (WriteToIndex \<times> nat list) checked" where
  "number_operations b i [] S = Some S"
| "number_operations b i (Op # Ops) (W, Counts) =
     (if Type Op = Write
      then do {
        C \<leftarrow> at Counts (unat (Target Op));
        number_operations b (Suc i) Ops (W((b, i) \<mapsto> word_of_nat C), Counts[unat (Target Op) := C + 1]) }
      else number_operations b (Suc i) Ops (W, Counts))"

fun number_blocks ::
  "'c Function \<Rightarrow> ptr list \<Rightarrow> WriteToIndex \<times> nat list \<Rightarrow> (WriteToIndex \<times> nat list) checked" where
  "number_blocks F [] S = Some S"
| "number_blocks F (b # bs) S = do { S' \<leftarrow> number_operations b 0 (block_ops F b) S; number_blocks F bs S' }"

record 'v ReachingDefinitions =
  WriteToIndex :: WriteToIndex
  rd_Default :: "'v WritersSet"

definition rd_new :: "'v BitVector_ops \<Rightarrow> 'c Function \<Rightarrow> 'v ReachingDefinitions checked" where
  "rd_new B F = do {
     (W, Counts) \<leftarrow> number_blocks F (Nodes (Graph F)) (Map.empty, replicate (unat (csvCount F)) 0);
     Some \<lparr>WriteToIndex = W,
           rd_Default = map (\<lambda>C. \<lparr>Reaching = bv_resize B C (bv_empty B), ReadBy = bv_resize B C (bv_empty B)\<rparr>) Counts\<rparr> }"

section \<open>Transfer function and result\<close>

fun rd_loop ::
  "'v BitVector_ops \<Rightarrow> WriteToIndex \<Rightarrow> ptr \<Rightarrow> nat \<Rightarrow> Operation list \<Rightarrow> 'v WritersSet \<Rightarrow> 'v WritersSet checked" where
  "rd_loop B W b i [] Result = Some Result"
| "rd_loop B W b i (Op # Ops) Result = do {
     Writes \<leftarrow> at Result (unat (Target Op));
     Writes' \<leftarrow> (case Type Op of
         Write \<Rightarrow> do {
           Index \<leftarrow> W (b, i);
           v \<leftarrow> bv_set_at B (unat Index) (bv_reset_all B (Reaching Writes));
           Some (Writes\<lparr>Reaching := v\<rparr>) }
       | Clobber \<Rightarrow> Some (Writes\<lparr>Reaching := bv_reset_all B (Reaching Writes)\<rparr>)
       | Read \<Rightarrow> Some (Writes\<lparr>ReadBy := bv_or B (ReadBy Writes) (Reaching Writes)\<rparr>)
       | Invalid \<Rightarrow> revng_abort);
     rd_loop B W b (Suc i) Ops (Result[unat (Target Op) := Writes']) }"

definition rd_applyTransferFunction ::
  "'v BitVector_ops \<Rightarrow> 'v ReachingDefinitions \<Rightarrow> 'c Function \<Rightarrow> ptr \<Rightarrow> 'v WritersSet \<Rightarrow> unit
    \<Rightarrow> ('v WritersSet \<times> unit) checked" where
  "rd_applyTransferFunction B D F Block InitialState X =
     map_option (\<lambda>v. (v, X)) (rd_loop B (WriteToIndex D) Block 0 (block_ops F Block) InitialState)"

definition rd_instance ::
  "'v BitVector_ops \<Rightarrow> 'v ReachingDefinitions \<Rightarrow> 'c Function \<Rightarrow> (ptr, 'v WritersSet, unit) MonotoneFrameworkInstance" where
  "rd_instance B D F =
     \<lparr>combineValues = rd_combineValues B, isLessOrEqual = rd_isLessOrEqual B,
      applyTransferFunction = rd_applyTransferFunction B D F\<rparr>"

text \<open>\<^verbatim>\<open>compute\<close>: the registers with a write that reaches the point and is never read before the sink.\<close>

fun rd_compute_loop ::
  "'v BitVector_ops \<Rightarrow> nat \<Rightarrow> 'v WritersSet \<Rightarrow> 'v WritersSet \<Rightarrow> 'v \<Rightarrow> 'v checked" where
  "rd_compute_loop B Index (AtPoint # Ps) (AtSink # Ss) Result = do {
     R \<leftarrow> (if bv_anyCommon B (Reaching AtPoint) (bv_flip B (ReadBy AtSink))
           then bv_set_at B Index Result else bv_reset_at B Index Result);
     rd_compute_loop B (Suc Index) Ps Ss R }"
| "rd_compute_loop B Index _ _ Result = Some Result"

definition rd_compute :: "'v BitVector_ops \<Rightarrow> 'v WritersSet \<Rightarrow> 'v WritersSet \<Rightarrow> 'v checked" where
  "rd_compute B ProgramPoint Sink = do {
     revng_assert (length Sink = length ProgramPoint);
     rd_compute_loop B 0 ProgramPoint Sink (bv_resize B (length ProgramPoint) (bv_empty B)) }"

text \<open>The way \<^verbatim>\<open>analyzeRegisterUsage\<close> runs the solver on it.\<close>

definition rd_analysis ::
  "'v BitVector_ops \<Rightarrow> (ptr \<Rightarrow> ptr set \<Rightarrow> ptr list \<times> ptr set) \<Rightarrow> 'c Function
    \<Rightarrow> (ptr \<rightharpoonup> 'v WritersSet MFPResult) checked" where
  "rd_analysis B po F = do {
     D \<leftarrow> rd_new B F;
     map_option fst (getMaximalFixedPoint None [] ()
       \<lparr>Instance = Some (rd_instance B D F), Flow = GraphTraits po (Graph F),
        Bottom = Some (rd_Default D), ExtremalValue = Some (rd_Default D),
        ExtremalLabels = Some [EntryNode (Graph F)], EntryLabels = All, cfg_ExtraState = None\<rparr>) }"

section \<open>The numbering is right\<close>

text \<open>The operation at position \<open>j\<close> of block \<open>a\<close> writes the register \<open>r\<close>.\<close>

definition write_at :: "'c Function \<Rightarrow> ptr \<Rightarrow> nat \<Rightarrow> nat \<Rightarrow> bool" where
  "write_at F a j r \<longleftrightarrow> j < length (block_ops F a) \<and> Type (block_ops F a ! j) = Write \<and> unat (Target (block_ops F a ! j)) = r"

text \<open>
  After the writes in \<open>Done\<close>, each has a number of its own among the writes of its register, below
  the counter of the register, and its index is that number modulo 256.
\<close>

definition numbering :: "'c Function \<Rightarrow> (ptr \<times> nat) set \<Rightarrow> (ptr \<times> nat \<Rightarrow> nat) \<Rightarrow> WriteToIndex \<Rightarrow> nat list \<Rightarrow> bool" where
  "numbering F Done num W Counts \<longleftrightarrow>
     (\<forall>a j r. (a, j) \<in> Done \<and> write_at F a j r \<longrightarrow> W (a, j) = Some (word_of_nat (num (a, j))) \<and> num (a, j) < Counts ! r)
     \<and> (\<forall>a j a' j' r. (a, j) \<in> Done \<and> (a', j') \<in> Done \<and> write_at F a j r \<and> write_at F a' j' r
          \<and> num (a, j) = num (a', j') \<longrightarrow> (a, j) = (a', j'))"

lemma numbering_write:
  assumes "numbering F Done num W Counts" "write_at F b i t" "(b, i) \<notin> Done" "t < length Counts"
  shows "numbering F (insert (b, i) Done) (num((b, i) := Counts ! t)) (W((b, i) \<mapsto> word_of_nat (Counts ! t)))
    (Counts[t := Counts ! t + 1])"
proof -
  have r: "r = t" if "write_at F b i r" for r using that assms(2) by (simp add: write_at_def)
  have old: "W (a, j) = Some (word_of_nat (num (a, j)))" "num (a, j) < Counts ! r"
    if "(a, j) \<in> Done" "write_at F a j r" for a j r
    using assms(1) that by (auto simp: numbering_def)
  have inj: "(a, j) = (a', j')"
    if "(a, j) \<in> Done" "(a', j') \<in> Done" "write_at F a j r" "write_at F a' j' r" "num (a, j) = num (a', j')" for a j a' j' r
    using assms(1) that by (simp only: numbering_def)
  have ne: "(a, j) \<noteq> (b, i)" if "(a, j) \<in> Done" for a j using that assms(3) by auto
  show ?thesis
    unfolding numbering_def
  proof (intro conjI allI impI)
    fix a j r
    assume a: "(a, j) \<in> insert (b, i) Done \<and> write_at F a j r"
    show "(W((b, i) \<mapsto> word_of_nat (Counts ! t))) (a, j) = Some (word_of_nat ((num((b, i) := Counts ! t)) (a, j)))"
      using a old by (cases "(a, j) = (b, i)") auto
    show "(num((b, i) := Counts ! t)) (a, j) < Counts[t := Counts ! t + 1] ! r"
    proof (cases "(a, j) = (b, i)")
      case True
      then have "r = t" using a r by simp
      then show ?thesis using True assms(4) by simp
    next
      case False
      then have "num (a, j) < Counts ! r" using a old(2) [of a j r] by auto
      moreover have "Counts ! r \<le> Counts[t := Counts ! t + 1] ! r" using assms(4) by (simp add: nth_list_update)
      ultimately show ?thesis using False by auto
    qed
  next
    fix a j a' j' r
    assume *: "(a, j) \<in> insert (b, i) Done \<and> (a', j') \<in> insert (b, i) Done \<and> write_at F a j r \<and> write_at F a' j' r
      \<and> (num((b, i) := Counts ! t)) (a, j) = (num((b, i) := Counts ! t)) (a', j')"
    show "(a, j) = (a', j')"
    proof (cases "(a, j) = (b, i)"; cases "(a', j') = (b, i)")
      assume "(a, j) \<noteq> (b, i)" "(a', j') \<noteq> (b, i)"
      then show ?thesis using * inj [of a j a' j' r] by auto
    next
      assume "(a, j) = (b, i)" "(a', j') \<noteq> (b, i)"
      then show ?thesis using * old(2) [of a' j' r] r [of r] by auto
    next
      assume "(a, j) \<noteq> (b, i)" "(a', j') = (b, i)"
      then show ?thesis using * old(2) [of a j r] r [of r] by auto
    qed simp
  qed
qed

lemma numbering_skip:
  assumes "numbering F Done num W Counts" "\<And>r. \<not> write_at F b i r"
  shows "numbering F (insert (b, i) Done) num W Counts"
  using assms unfolding numbering_def by blast

lemma atLeastLessThan_insert_lower: "i < n \<Longrightarrow> {i..<n} = insert i {Suc i..<n}" for n :: nat
  by auto

lemma number_operations_correct:
  assumes "\<forall>Op \<in> set (block_ops F b). unat (Target Op) < n"
  shows "Ops = drop i (block_ops F b) \<Longrightarrow> numbering F Done num W Counts \<Longrightarrow> length Counts = n \<Longrightarrow>
      \<forall>j \<ge> i. (b, j) \<notin> Done \<Longrightarrow>
    \<exists>W' Counts' num' Done'. number_operations b i Ops (W, Counts) = Some (W', Counts') \<and> length Counts' = n
      \<and> numbering F Done' num' W' Counts' \<and> Done \<subseteq> Done' \<and> {b} \<times> {i..<length (block_ops F b)} \<subseteq> Done'
      \<and> Done' \<subseteq> Done \<union> {b} \<times> UNIV"
proof (induction Ops arbitrary: i W Counts num Done)
  case Nil
  then have "length (block_ops F b) \<le> i" by simp
  then show ?case using Nil.prems by auto
next
  case (Cons Op Ops)
  have i: "i < length (block_ops F b)" "block_ops F b ! i = Op" "Ops = drop (Suc i) (block_ops F b)"
    using Cons.prems(1) by (metis drop_eq_Nil2 list.distinct(1) not_le, metis nth_via_drop, metis drop_Suc list.sel(3) tl_drop)
  have t: "unat (Target Op) < length Counts" using assms i(1,2) Cons.prems(3) nth_mem by blast
  have fresh: "(b, i) \<notin> Done" "\<forall>j \<ge> Suc i. (b, j) \<notin> insert (b, i) Done" using Cons.prems(4) by auto
  have Done: "Done \<subseteq> Done'" "{b} \<times> {i..<length (block_ops F b)} \<subseteq> Done'"
    if "insert (b, i) Done \<subseteq> Done'" "{b} \<times> {Suc i..<length (block_ops F b)} \<subseteq> Done'" for Done'
    subgoal using that(1) by simp
    subgoal using that(2) insert_subset [of "(b, i)" Done Done'] that(1) atLeastLessThan_insert_lower [OF i(1)]
      by (simp add: insert_Times_insert)
    done
  show ?case
  proof (cases "Type Op = Write")
    case True
    then have w: "write_at F b i (unat (Target Op))" using i by (simp add: write_at_def)
    note num' = numbering_write [OF Cons.prems(2) w fresh(1) t]
    have "length (Counts[unat (Target Op) := Counts ! unat (Target Op) + 1]) = n" using Cons.prems(3) by simp
    from Cons.IH [OF i(3) num' this fresh(2)] obtain W' Counts' num' Done' where R:
      "number_operations b (Suc i) Ops (W((b, i) \<mapsto> word_of_nat (Counts ! unat (Target Op))),
         Counts[unat (Target Op) := Counts ! unat (Target Op) + 1]) = Some (W', Counts')" "length Counts' = n"
      "numbering F Done' num' W' Counts'" "insert (b, i) Done \<subseteq> Done'" "{b} \<times> {Suc i..<length (block_ops F b)} \<subseteq> Done'"
      "Done' \<subseteq> insert (b, i) Done \<union> {b} \<times> UNIV"
      by (elim exE conjE) (rule that)
    have "number_operations b i (Op # Ops) (W, Counts) = Some (W', Counts')" using R(1) True t by (simp add: at_def)
    moreover have "Done' \<subseteq> Done \<union> {b} \<times> UNIV" using R(6) by auto
    ultimately show ?thesis using R(2,3) Done [OF R(4,5)]
      by (intro exI [of _ W'] exI [of _ Counts'] exI [of _ num'] exI [of _ Done'] conjI) simp_all
  next
    case False
    then have "\<not> write_at F b i r" for r using i by (simp add: write_at_def)
    note num' = numbering_skip [OF Cons.prems(2) this]
    from Cons.IH [OF i(3) num' Cons.prems(3) fresh(2)] obtain W' Counts' num' Done' where R:
      "number_operations b (Suc i) Ops (W, Counts) = Some (W', Counts')" "length Counts' = n"
      "numbering F Done' num' W' Counts'" "insert (b, i) Done \<subseteq> Done'" "{b} \<times> {Suc i..<length (block_ops F b)} \<subseteq> Done'"
      "Done' \<subseteq> insert (b, i) Done \<union> {b} \<times> UNIV"
      by (elim exE conjE) (rule that)
    have "number_operations b i (Op # Ops) (W, Counts) = Some (W', Counts')" using R(1) False by simp
    moreover have "Done' \<subseteq> Done \<union> {b} \<times> UNIV" using R(6) by auto
    ultimately show ?thesis using R(2,3) Done [OF R(4,5)]
      by (intro exI [of _ W'] exI [of _ Counts'] exI [of _ num'] exI [of _ Done'] conjI) simp_all
  qed
qed

lemma number_blocks_correct:
  "\<forall>b \<in> set bs. \<forall>Op \<in> set (block_ops F b). unat (Target Op) < n \<Longrightarrow> distinct bs \<Longrightarrow> numbering F Done num W Counts \<Longrightarrow>
    length Counts = n \<Longrightarrow> \<forall>b \<in> set bs. \<forall>j. (b, j) \<notin> Done \<Longrightarrow>
    \<exists>W' Counts' num' Done'. number_blocks F bs (W, Counts) = Some (W', Counts') \<and> length Counts' = n
      \<and> numbering F Done' num' W' Counts' \<and> Done \<subseteq> Done' \<and> (\<forall>b \<in> set bs. {b} \<times> {..<length (block_ops F b)} \<subseteq> Done')"
proof (induction bs arbitrary: W Counts num Done)
  case Nil
  then show ?case by auto
next
  case (Cons b bs)
  from number_operations_correct [of F b n "block_ops F b" 0 Done num W Counts] Cons.prems
  obtain W1 Counts1 num1 Done1 where 1: "number_operations b 0 (block_ops F b) (W, Counts) = Some (W1, Counts1)"
      "length Counts1 = n" "numbering F Done1 num1 W1 Counts1" "Done \<subseteq> Done1"
      "{b} \<times> {0..<length (block_ops F b)} \<subseteq> Done1" "Done1 \<subseteq> Done \<union> {b} \<times> UNIV"
    by auto
  have "\<forall>b' \<in> set bs. \<forall>j. (b', j) \<notin> Done1" using 1(6) Cons.prems(2,5) by auto
  from Cons.IH [OF _ _ 1(3,2) this] Cons.prems(1,2) obtain W' Counts' num' Done' where
    2: "number_blocks F bs (W1, Counts1) = Some (W', Counts')" "length Counts' = n"
      "numbering F Done' num' W' Counts'" "Done1 \<subseteq> Done'" "\<forall>b \<in> set bs. {b} \<times> {..<length (block_ops F b)} \<subseteq> Done'"
    by auto
  have "{b} \<times> {..<length (block_ops F b)} \<subseteq> Done'" using 1(5) 2(4) by (auto simp: lessThan_atLeast0)
  moreover have "number_blocks F (b # bs) (W, Counts) = Some (W', Counts')" using 1(1) 2(1) by simp
  moreover have "Done \<subseteq> Done'" using 1(4) 2(4) by (rule subset_trans)
  ultimately show ?case
    using 2(2,3,5) by (intro exI [of _ W'] exI [of _ Counts'] exI [of _ num'] exI [of _ Done'] conjI) simp_all
qed

end
