(* ===== verification/Reaching_Exact.thy ===== *)
theory Reaching_Exact
  imports Reaching_Definitions
begin

text \<open>
  The reaching definitions analysis is exact: its lattice and transfer function fit the distributive
  analyses, and the facts that flow along the edges are the writes that survive, or are read, along
  the paths of the graph. The indices of the writes are eight bits wide, which is enough up to 256
  writes of a register and wrong beyond.
\<close>

section \<open>The lattice of writers\<close>

text \<open>A fact: the write with a number among those of a register reaches (\<open>True\<close>) or has been read (\<open>False\<close>).\<close>

type_synonym write_fact = "nat \<times> bool \<times> nat"

definition rd_facts :: "'v BitVector_ops \<Rightarrow> 'v WritersSet \<Rightarrow> write_fact set" where
  "rd_facts B ws = {(r, c, i). r < length ws \<and> i \<in> bits B (if c then Reaching (ws ! r) else ReadBy (ws ! r))}"

definition rd_univ :: "nat list \<Rightarrow> write_fact set" where
  "rd_univ ks = {(r, c, i). r < length ks \<and> i < ks ! r}"

definition rd_carrier :: "'v BitVector_ops \<Rightarrow> nat list \<Rightarrow> 'v WritersSet \<Rightarrow> bool" where
  "rd_carrier B ks ws \<longleftrightarrow> length ws = length ks
     \<and> (\<forall>r < length ks. bv_size B (Reaching (ws ! r)) = ks ! r \<and> bv_size B (ReadBy (ws ! r)) = ks ! r)"

lemma finite_rd_univ: "finite (rd_univ ks)"
proof (rule finite_subset)
  have "ks ! r \<le> sum_list ks" if "r < length ks" for r using member_le_sum_list [OF nth_mem [OF that]] by simp
  then show "rd_univ ks \<subseteq> {..<length ks} \<times> UNIV \<times> {..<sum_list ks}"
    by (fastforce simp: rd_univ_def)
qed simp

lemma rd_combineValues_map2: "length v = length w \<Longrightarrow> rd_combineValues B v w = map2 (rw_or B) v w"
  by (induction v w rule: list_induct2) simp_all

lemma rd_isLessOrEqual_all: "length v = length w \<Longrightarrow>
    rd_isLessOrEqual B v w \<longleftrightarrow> (\<forall>r < length v. rw_equal B (rw_and B (v ! r) (w ! r)) (v ! r))"
proof (induction v w rule: list_induct2)
  case (Cons x xs y ys)
  then show ?case by (auto simp: less_Suc_eq_0_disj)
qed simp

context bit_vector
begin

lemma rd_facts_bound: "rd_carrier B ks ws \<Longrightarrow> rd_facts B ws \<subseteq> rd_univ ks"
  using bits_bound by (fastforce simp: rd_facts_def rd_univ_def rd_carrier_def split: if_splits)

lemma rd_leq:
  assumes "rd_carrier B ks v" "rd_carrier B ks w"
  shows "rd_isLessOrEqual B v w \<longleftrightarrow> rd_facts B v \<subseteq> rd_facts B w"
proof -
  have len: "length v = length ks" "length w = length ks" using assms by (simp_all add: rd_carrier_def)
  have "rw_equal B (rw_and B (v ! r) (w ! r)) (v ! r) \<longleftrightarrow>
      bits B (Reaching (v ! r)) \<subseteq> bits B (Reaching (w ! r)) \<and> bits B (ReadBy (v ! r)) \<subseteq> bits B (ReadBy (w ! r))" for r
    by (auto simp: rw_equal_def rw_and_def eq_bits and_bits)
  then have "rd_isLessOrEqual B v w \<longleftrightarrow> (\<forall>r < length ks. \<forall>c i. i \<in> bits B (if c then Reaching (v ! r) else ReadBy (v ! r))
      \<longrightarrow> i \<in> bits B (if c then Reaching (w ! r) else ReadBy (w ! r)))"
    using len by (auto simp: rd_isLessOrEqual_all split: if_splits)
  also have "\<dots> \<longleftrightarrow> rd_facts B v \<subseteq> rd_facts B w"
    unfolding rd_facts_def len by (simp only: subset_iff split_paired_All mem_Collect_eq prod.case) blast
  finally show ?thesis .
qed

lemma rd_combine:
  assumes "rd_carrier B ks v" "rd_carrier B ks w"
  shows "rd_carrier B ks (rd_combineValues B v w)" "rd_facts B (rd_combineValues B v w) = rd_facts B v \<union> rd_facts B w"
proof -
  have len: "length v = length ks" "length w = length ks" using assms by (simp_all add: rd_carrier_def)
  have nth: "map2 (rw_or B) v w ! r = rw_or B (v ! r) (w ! r)" if "r < length ks" for r using that len by simp
  show "rd_carrier B ks (rd_combineValues B v w)"
    using assms len nth by (simp add: rd_combineValues_map2 rd_carrier_def rw_or_def or_bits)
  show "rd_facts B (rd_combineValues B v w) = rd_facts B v \<union> rd_facts B w"
    using len nth by (auto simp: rd_combineValues_map2 rd_facts_def rw_or_def or_bits split: if_splits)
qed

lemma rd_lattice:
  "mfp_lattice (rd_combineValues B) (rd_isLessOrEqual B) (rd_carrier B ks) (\<lambda>v. card (rd_univ ks) - card (rd_facts B v))"
proof
  fix a b c assume a: "rd_carrier B ks a"
  show "rd_isLessOrEqual B a a" using rd_leq [OF a a] by simp
  assume b: "rd_carrier B ks b"
  note ab = rd_combine [OF a b]
  show "rd_carrier B ks (rd_combineValues B a b)" by (rule ab)
  show "rd_isLessOrEqual B a (rd_combineValues B a b) \<and> rd_isLessOrEqual B b (rd_combineValues B a b)"
    using rd_leq [OF a ab(1)] rd_leq [OF b ab(1)] ab(2) by simp
  show "card (rd_univ ks) - card (rd_facts B (rd_combineValues B a b)) < card (rd_univ ks) - card (rd_facts B a)"
    if "\<not> rd_isLessOrEqual B b a"
  proof -
    have "finite (rd_facts B a \<union> rd_facts B b)" "rd_facts B a \<union> rd_facts B b \<subseteq> rd_univ ks"
      using rd_facts_bound [OF a] rd_facts_bound [OF b] finite_subset [OF _ finite_rd_univ] by auto
    moreover have "\<not> rd_facts B b \<subseteq> rd_facts B a" using that rd_leq [OF b a] by simp
    ultimately have "card (rd_facts B a) < card (rd_facts B a \<union> rd_facts B b)" "card (rd_facts B a \<union> rd_facts B b) \<le> card (rd_univ ks)"
      using card_mono [OF finite_rd_univ] by (auto intro!: psubset_card_mono)
    then show ?thesis unfolding ab(2) by linarith
  qed
  assume c: "rd_carrier B ks c"
  show "rd_isLessOrEqual B a c" if "rd_isLessOrEqual B a b" "rd_isLessOrEqual B b c"
    using that rd_leq [OF a b] rd_leq [OF b c] rd_leq [OF a c] by blast
  show "rd_isLessOrEqual B (rd_combineValues B a b) c" if "rd_isLessOrEqual B a c" "rd_isLessOrEqual B b c"
    using that rd_leq [OF a c] rd_leq [OF b c] rd_leq [OF ab(1) c] ab(2) by simp
qed

lemma rd_facts_onto:
  assumes "S \<subseteq> rd_univ ks"
  shows "\<exists>ws. rd_carrier B ks ws \<and> rd_facts B ws = S"
proof -
  have "{i. (r, c, i) \<in> S} \<subseteq> {..<ks ! r}" for r c using assms by (auto simp: rd_univ_def)
  then have "\<exists>v. bv_size B v = ks ! r \<and> bits B v = {i. (r, c, i) \<in> S}" for r c by (rule ex_bits)
  then obtain v where v: "\<And>r c. bv_size B (v r c) = ks ! r" "\<And>r c. bits B (v r c) = {i. (r, c, i) \<in> S}" by metis
  define ws where "ws = map (\<lambda>r. \<lparr>Reaching = v r True, ReadBy = v r False\<rparr>) [0..<length ks]"
  have "rd_carrier B ks ws" by (simp add: ws_def rd_carrier_def v)
  moreover have "rd_facts B ws = S"
  proof (intro set_eqI)
    fix x :: write_fact
    obtain r c i where x: "x = (r, c, i)" by (cases x)
    have "(r, c, i) \<in> S \<Longrightarrow> r < length ks" using assms by (auto simp: rd_univ_def)
    then show "x \<in> rd_facts B ws \<longleftrightarrow> x \<in> S" unfolding x by (cases c) (auto simp: rd_facts_def ws_def v)
  qed
  ultimately show ?thesis by blast
qed

end

section \<open>The transfer function\<close>

text \<open>Nothing in the sequence ends the life of a write of the register.\<close>

definition no_kill :: "Operation list \<Rightarrow> nat \<Rightarrow> bool" where
  "no_kill Ops r \<longleftrightarrow> (\<forall>Op \<in> set Ops. unat (Target Op) = r \<longrightarrow> Type Op = Read)"

definition write_index :: "WriteToIndex \<Rightarrow> 'c Function \<Rightarrow> ptr \<Rightarrow> nat \<Rightarrow> nat \<Rightarrow> nat \<Rightarrow> bool" where
  "write_index W F a j r i \<longleftrightarrow> write_at F a j r \<and> map_option unat (W (a, j)) = Some i"

text \<open>The fate of a write: it survives the operations after it, or one of them reads it.\<close>

definition fate :: "bool \<Rightarrow> Operation list \<Rightarrow> nat \<Rightarrow> bool" where
  "fate c Ops r \<longleftrightarrow> (if c then no_kill Ops r else first_access Ops r = Some Read)"

definition rd_gen :: "WriteToIndex \<Rightarrow> 'c Function \<Rightarrow> ptr \<Rightarrow> nat \<Rightarrow> write_fact set" where
  "rd_gen W F b n = {(r, c, i). \<exists>j \<ge> n. write_index W F b j r i \<and> fate c (drop (Suc j) (block_ops F b)) r}"

definition rd_flow :: "Operation list \<Rightarrow> (write_fact \<times> write_fact) set" where
  "rd_flow Ops = {((r, c, i), (r', c', i')). r' = r \<and> i' = i \<and> (if c then fate c' Ops r else \<not> c')}"

lemma rd_flow_Image:
  "(r, c, i) \<in> rd_flow Ops `` S \<longleftrightarrow> fate c Ops r \<and> (r, True, i) \<in> S \<or> \<not> c \<and> (r, False, i) \<in> S"
  by (auto simp: rd_flow_def Image_iff Bex_def split: if_splits)

lemma no_kill_simps [simp]:
  "no_kill [] r" "no_kill (Op # Ops) r \<longleftrightarrow> (unat (Target Op) = r \<longrightarrow> Type Op = Read) \<and> no_kill Ops r"
  "no_kill (xs @ ys) r \<longleftrightarrow> no_kill xs r \<and> no_kill ys r"
  by (auto simp: no_kill_def)

lemma rd_gen_step:
  assumes "n < length (block_ops F b)"
  shows "(r, c, i) \<in> rd_gen W F b n \<longleftrightarrow>
    write_index W F b n r i \<and> fate c (drop (Suc n) (block_ops F b)) r \<or> (r, c, i) \<in> rd_gen W F b (Suc n)"
proof -
  have "(\<exists>j \<ge> n. P j) \<longleftrightarrow> P n \<or> (\<exists>j \<ge> Suc n. P j)" for P by (metis Suc_leD le_refl not_less_eq_eq order_antisym)
  then show ?thesis by (simp add: rd_gen_def)
qed

lemma rd_gen_end: "length (block_ops F b) \<le> n \<Longrightarrow> rd_gen W F b n = {}"
  by (auto simp: rd_gen_def write_index_def write_at_def)

text \<open>One operation.\<close>

definition op_effect :: "Operation \<Rightarrow> nat option \<Rightarrow> write_fact set \<Rightarrow> write_fact set" where
  "op_effect Op Index S = {(r, c, i).
     if r \<noteq> unat (Target Op) then (r, c, i) \<in> S
     else if Type Op = Read then (r, c, i) \<in> S \<or> \<not> c \<and> (r, True, i) \<in> S
     else if c then Type Op = Write \<and> Index = Some i else (r, c, i) \<in> S}"

lemma op_effect_rest:
  assumes "n < length (block_ops F b)" "block_ops F b ! n = Op" "Ops = drop (Suc n) (block_ops F b)"
    "Type Op \<noteq> Invalid"
  shows "rd_gen W F b n \<union> rd_flow (Op # Ops) `` S
    = rd_gen W F b (Suc n) \<union> rd_flow Ops `` op_effect Op (map_option unat (W (b, n))) S"
proof (rule set_eqI)
  fix x :: write_fact
  obtain r c i where x: "x = (r, c, i)" by (cases x)
  have w: "write_index W F b n r i \<longleftrightarrow> Type Op = Write \<and> r = unat (Target Op) \<and> map_option unat (W (b, n)) = Some i"
    using assms(1,2) by (auto simp: write_index_def write_at_def)
  show "x \<in> rd_gen W F b n \<union> rd_flow (Op # Ops) `` S
    \<longleftrightarrow> x \<in> rd_gen W F b (Suc n) \<union> rd_flow Ops `` op_effect Op (map_option unat (W (b, n))) S"
    unfolding x Un_iff rd_gen_step [OF assms(1)] rd_flow_Image w assms(3) [symmetric]
    using assms(4) by (cases c; cases "Type Op"; cases "r = unat (Target Op)") (auto simp: op_effect_def fate_def)
qed

context bit_vector
begin

lemma rd_update:
  assumes "rd_carrier B ks ws" "t < length ks" "bv_size B (Reaching w) = ks ! t" "bv_size B (ReadBy w) = ks ! t"
  shows "rd_carrier B ks (ws[t := w])"
    "rd_facts B (ws[t := w]) = {(r, c, i). if r = t then i \<in> bits B (if c then Reaching w else ReadBy w) else (r, c, i) \<in> rd_facts B ws}"
proof -
  have len: "length ws = length ks" using assms(1) by (simp add: rd_carrier_def)
  show "rd_carrier B ks (ws[t := w])" using assms by (simp add: rd_carrier_def nth_list_update)
  show "rd_facts B (ws[t := w]) = {(r, c, i). if r = t then i \<in> bits B (if c then Reaching w else ReadBy w) else (r, c, i) \<in> rd_facts B ws}"
    using assms(2) len by (auto simp: rd_facts_def nth_list_update split: if_splits)
qed

lemma rd_step_correct:
  assumes ws: "rd_carrier B ks ws" and t: "unat (Target Op) < length ks" "Type Op \<noteq> Invalid"
    and W: "Type Op = Write \<Longrightarrow> \<exists>x. W (b, n) = Some x \<and> unat x < ks ! unat (Target Op)"
  shows "\<exists>ws'. rd_loop B W b n (Op # Ops) ws = rd_loop B W b (Suc n) Ops ws' \<and> rd_carrier B ks ws'
    \<and> rd_facts B ws' = op_effect Op (map_option unat (W (b, n))) (rd_facts B ws)"
proof -
  let ?t = "unat (Target Op)"
  let ?R = "Reaching (ws ! ?t)" and ?D = "ReadBy (ws ! ?t)"
  have sz: "bv_size B ?R = ks ! ?t" "bv_size B ?D = ks ! ?t" "length ws = length ks" using ws t(1) by (simp_all add: rd_carrier_def)
  have mem: "(?t, c, i) \<in> rd_facts B ws \<longleftrightarrow> i \<in> bits B (if c then ?R else ?D)" for c i using t(1) sz by (simp add: rd_facts_def)
  have step: "\<exists>ws'. rd_loop B W b n (Op # Ops) ws = rd_loop B W b (Suc n) Ops ws' \<and> rd_carrier B ks ws'
      \<and> rd_facts B ws' = op_effect Op (map_option unat (W (b, n))) (rd_facts B ws)"
    if loop: "rd_loop B W b n (Op # Ops) ws = rd_loop B W b (Suc n) Ops (ws[?t := w])"
      and size: "bv_size B (Reaching w) = ks ! ?t" "bv_size B (ReadBy w) = ks ! ?t"
      and eff: "\<And>c i. i \<in> bits B (if c then Reaching w else ReadBy w)
        \<longleftrightarrow> (?t, c, i) \<in> op_effect Op (map_option unat (W (b, n))) (rd_facts B ws)" for w
  proof -
    have "(r, c, i) \<in> rd_facts B (ws[?t := w]) \<longleftrightarrow> (r, c, i) \<in> op_effect Op (map_option unat (W (b, n))) (rd_facts B ws)" for r c i
      unfolding rd_update(2) [OF ws t(1) size] using eff [of i c] by (cases "r = ?t") (simp_all add: op_effect_def)
    then have "rd_facts B (ws[?t := w]) = op_effect Op (map_option unat (W (b, n))) (rd_facts B ws)"
      by (intro set_eqI) (simp only: split_paired_all)
    then show ?thesis using loop rd_update(1) [OF ws t(1) size] by blast
  qed
  show ?thesis
  proof (cases "Type Op")
    case Write
    then obtain x where x: "W (b, n) = Some x" "unat x < ks ! ?t" using W by blast
    let ?v = "bv_set B (unat x) (bv_reset_all B ?R)"
    have x': "unat x < bv_size B (bv_reset_all B ?R)" using x(2) sz(1) reset_all by simp
    show ?thesis
      by (rule step [of "(ws ! ?t)\<lparr>Reaching := ?v\<rparr>"])
        (use Write x x' t(1) sz set_bit [OF x'] reset_all in \<open>simp_all add: at_def bv_set_at_def op_effect_def mem eq_commute [of "unat x"]\<close>)
  next
    case Clobber
    show ?thesis
      by (rule step [of "(ws ! ?t)\<lparr>Reaching := bv_reset_all B ?R\<rparr>"])
        (use Clobber t(1) sz reset_all in \<open>simp_all add: at_def op_effect_def mem\<close>)
  next
    case Read
    show ?thesis
      by (rule step [of "(ws ! ?t)\<lparr>ReadBy := bv_or B ?D ?R\<rparr>"])
        (use Read t(1) sz or_bits in \<open>auto simp: at_def op_effect_def mem\<close>)
  qed (use t(2) in simp)
qed

lemma rd_loop_correct:
  assumes ops: "\<And>Op. Op \<in> set (block_ops F b) \<Longrightarrow> unat (Target Op) < length ks \<and> Type Op \<noteq> Invalid"
    and W: "\<And>j r. write_at F b j r \<Longrightarrow> \<exists>x. W (b, j) = Some x \<and> unat x < ks ! r"
  shows "Ops = drop n (block_ops F b) \<Longrightarrow> rd_carrier B ks ws \<Longrightarrow>
    \<exists>ws'. rd_loop B W b n Ops ws = Some ws' \<and> rd_carrier B ks ws'
      \<and> rd_facts B ws' = rd_gen W F b n \<union> rd_flow Ops `` rd_facts B ws"
proof (induction Ops arbitrary: n ws)
  case Nil
  have "x \<in> rd_flow [] `` S \<longleftrightarrow> x \<in> S" for x S
    by (cases x) (simp only: rd_flow_Image, auto simp: fate_def split: if_splits)
  then have "rd_flow [] `` S = S" for S by blast
  then show ?case using Nil rd_gen_end [of F b n W] by simp
next
  case (Cons Op Ops)
  have n: "n < length (block_ops F b)" "block_ops F b ! n = Op" "Ops = drop (Suc n) (block_ops F b)"
    using Cons.prems(1) by (metis drop_eq_Nil2 list.distinct(1) not_le, metis nth_via_drop, metis drop_Suc list.sel(3) tl_drop)
  have Op: "unat (Target Op) < length ks" "Type Op \<noteq> Invalid" using ops n(1,2) nth_mem by blast+
  have "Type Op = Write \<Longrightarrow> \<exists>x. W (b, n) = Some x \<and> unat x < ks ! unat (Target Op)"
    using W [of n] n(1,2) by (simp add: write_at_def)
  from rd_step_correct [where W = W and b = b and n = n and Ops = Ops, OF Cons.prems(2) Op this] obtain ws1 where
    1: "rd_loop B W b n (Op # Ops) ws = rd_loop B W b (Suc n) Ops ws1" "rd_carrier B ks ws1"
      "rd_facts B ws1 = op_effect Op (map_option unat (W (b, n))) (rd_facts B ws)"
    by blast
  from Cons.IH [OF n(3) 1(2)] show ?case unfolding 1(1,3) op_effect_rest [OF n Op(2)] .
qed

end

section \<open>Writes along paths\<close>

text \<open>
  The write at position \<open>j\<close> of block \<open>a\<close> meets the fate \<open>c\<close> on some path from it to the end of block \<open>b\<close>.
\<close>

definition write_path :: "bool \<Rightarrow> 'c Function \<Rightarrow> ptr \<Rightarrow> nat \<Rightarrow> nat \<Rightarrow> ptr \<Rightarrow> bool" where
  "write_path c F a j r b \<longleftrightarrow> (\<exists>q. is_path (successors_of (Heap (Graph F))) (a # q) \<and> last (a # q) = b
     \<and> fate c (drop (Suc j) (block_ops F a) @ path_ops F q) r)"

lemma is_path_snoc: "is_path succ (p @ [b]) \<longleftrightarrow> p = [] \<or> is_path succ p \<and> b \<in> set (succ (last p))"
  by (induction succ p rule: is_path.induct) auto

lemma no_kill_first_access: "no_kill Ops r \<Longrightarrow> first_access Ops r = None \<or> first_access Ops r = Some Read"
  by (induction Ops) auto

lemma first_access_no_kill: "first_access Ops r = None \<Longrightarrow> no_kill Ops r"
  by (induction Ops) (auto split: if_splits)

lemma fate_append_cases:
  "fate c (xs @ ys) r \<longleftrightarrow> (\<exists>c'. fate c' xs r \<and> (if c' then fate c ys r else \<not> c))"
proof (cases c)
  case False
  have "fate False (xs @ ys) r \<longleftrightarrow> fate False xs r \<or> fate True xs r \<and> fate False ys r"
    using no_kill_first_access [of xs r] first_access_no_kill [of xs r]
    by (auto simp: fate_def first_access_append split: option.splits)
  then show ?thesis using False by (auto simp: ex_bool_eq)
qed (simp add: fate_def ex_bool_eq)

lemma path_ops_snoc: "path_ops F (q @ [b]) = path_ops F q @ block_ops F b"
  by (simp add: path_ops_def)

lemma write_path_step:
  assumes "write_path c' F a j r k" "b \<in> set (successors_of (Heap (Graph F)) k)"
    "if c' then fate c (block_ops F b) r else \<not> c"
  shows "write_path c F a j r b"
proof -
  obtain q where q: "is_path (successors_of (Heap (Graph F))) (a # q)" "last (a # q) = k"
      "fate c' (drop (Suc j) (block_ops F a) @ path_ops F q) r"
    using assms(1) by (auto simp: write_path_def)
  have "is_path (successors_of (Heap (Graph F))) (a # q @ [b])"
    using is_path_snoc [of _ "a # q" b] q(1,2) assms(2) by simp
  moreover have "fate c (drop (Suc j) (block_ops F a) @ path_ops F (q @ [b])) r"
    unfolding path_ops_snoc append_assoc [symmetric] fate_append_cases [of c "_ @ path_ops F q"]
    using q(3) assms(3) by blast
  ultimately show ?thesis unfolding write_path_def by (intro exI [of _ "q @ [b]"]) simp
qed

lemma write_path_flowing:
  "(b, (r, c, i)) \<in> flowing (successors_of (Heap (Graph F))) N (\<lambda>b. rd_gen W F b 0) (\<lambda>b. rd_flow (block_ops F b))
    \<longleftrightarrow> (\<exists>a j. a \<in> N \<and> write_index W F a j r i \<and> write_path c F a j r b)" (is "_ \<in> ?E \<longleftrightarrow> _")
proof
  show "\<exists>a j. a \<in> N \<and> write_index W F a j r i \<and> write_path c F a j r b" if "(b, (r, c, i)) \<in> ?E"
    using that
  proof (induction b "(r, c, i)" arbitrary: r c i rule: flowing.induct)
    case (generated l)
    then obtain j where j: "write_index W F l j r i" "fate c (drop (Suc j) (block_ops F l)) r"
      by (auto simp: rd_gen_def)
    have "write_path c F l j r l" unfolding write_path_def
      using j(2) by (intro exI [of _ "[]"]) (simp add: path_ops_def)
    then show ?case using generated.hyps(1) j(1) by blast
  next
    case (flows k g l)
    obtain r' c' i' where g: "g = (r', c', i')" by (cases g)
    have g': "g = (r, c', i)" "if c' then fate c (block_ops F l) r else \<not> c"
      using flows.hyps(4) unfolding g by (auto simp: rd_flow_def)
    obtain a j where "a \<in> N" "write_index W F a j r i" "write_path c' F a j r k" using flows.hyps(2) [OF g'(1)] by blast
    then show ?case using write_path_step [OF _ flows.hyps(3) g'(2)] by blast
  qed
  assume "\<exists>a j. a \<in> N \<and> write_index W F a j r i \<and> write_path c F a j r b"
  then obtain a j q where a: "a \<in> N" "write_index W F a j r i"
    and q: "is_path (successors_of (Heap (Graph F))) (a # q)" "last (a # q) = b"
      "fate c (drop (Suc j) (block_ops F a) @ path_ops F q) r"
    by (auto simp: write_path_def)
  show "(b, (r, c, i)) \<in> ?E" using q
  proof (induction q arbitrary: b c rule: rev_induct)
    case Nil
    then show ?case using a by (intro flowing.generated) (auto simp: path_ops_def rd_gen_def)
  next
    case (snoc b' q)
    have b: "b' = b" "is_path (successors_of (Heap (Graph F))) (a # q)" "b \<in> set (successors_of (Heap (Graph F)) (last (a # q)))"
      using snoc.prems(1,2) is_path_snoc [of _ "a # q" b'] by auto
    obtain c' where c': "fate c' (drop (Suc j) (block_ops F a) @ path_ops F q) r" "if c' then fate c (block_ops F b) r else \<not> c"
      using snoc.prems(3) unfolding path_ops_snoc append_assoc [symmetric] fate_append_cases [of c "_ @ path_ops F q"] b(1) by blast
    show ?case
      by (rule flowing.flows [OF snoc.IH [OF b(2) refl c'(1)] b(3)]) (use c'(2) in \<open>simp add: rd_flow_def\<close>)
  qed
qed

section \<open>The analysis\<close>

text \<open>The registers of the operations are numbered.\<close>

definition targets_counted :: "'c Function \<Rightarrow> bool" where
  "targets_counted F \<longleftrightarrow> (\<forall>Op \<in> set (all_operations F). unat (Target Op) < unat (csvCount F))"

text \<open>What the constructor establishes: each write has a number below the count of its register.\<close>

definition numbered :: "'c Function \<Rightarrow> WriteToIndex \<Rightarrow> nat list \<Rightarrow> (ptr \<times> nat \<Rightarrow> nat) \<Rightarrow> bool" where
  "numbered F W ks num \<longleftrightarrow> length ks = unat (csvCount F)
     \<and> numbering F {(a, j). a \<in> set (Nodes (Graph F)) \<and> j < length (block_ops F a)} num W ks"

lemma numbered_index:
  assumes "numbered F W ks num" "a \<in> set (Nodes (Graph F))" "write_at F a j r"
  shows "W (a, j) = Some (word_of_nat (num (a, j)))" "num (a, j) < ks ! r"
    "\<exists>x. W (a, j) = Some x \<and> unat x < ks ! r"
proof -
  have "(a, j) \<in> {(a, j). a \<in> set (Nodes (Graph F)) \<and> j < length (block_ops F a)}"
    using assms(2,3) by (simp add: write_at_def)
  then show 1: "W (a, j) = Some (word_of_nat (num (a, j)))" "num (a, j) < ks ! r"
    using assms(1,3) unfolding numbered_def numbering_def by blast+
  have "unat (word_of_nat (num (a, j)) :: u8) \<le> num (a, j)" by (simp add: unat_of_nat)
  then show "\<exists>x. W (a, j) = Some x \<and> unat x < ks ! r" using 1 by (meson le_less_trans)
qed

context bit_vector
begin

lemma rd_new_correct:
  assumes F: "function_wf F" "targets_counted F"
  shows "\<exists>D ks num. rd_new B F = Some D \<and> numbered F (WriteToIndex D) ks num
    \<and> rd_carrier B ks (rd_Default D) \<and> rd_facts B (rd_Default D) = {}"
proof -
  have nodes: "distinct (Nodes (Graph F))" using F(1) by (simp add: function_wf_def graph_wf_def)
  have t: "\<forall>b \<in> set (Nodes (Graph F)). \<forall>Op \<in> set (block_ops F b). unat (Target Op) < unat (csvCount F)"
    using F(2) block_ops_subset by (fastforce simp: targets_counted_def)
  have empty: "numbering F {} (\<lambda>_. 0) Map.empty (replicate (unat (csvCount F)) 0)" by (simp add: numbering_def)
  from number_blocks_correct [OF t nodes empty] obtain W ks num Done where
    W: "number_blocks F (Nodes (Graph F)) (Map.empty, replicate (unat (csvCount F)) 0) = Some (W, ks)"
      "length ks = unat (csvCount F)" "numbering F Done num W ks"
      "\<forall>b \<in> set (Nodes (Graph F)). {b} \<times> {..<length (block_ops F b)} \<subseteq> Done"
    by (elim exE conjE meta_impE) simp_all
  have "{(a, j). a \<in> set (Nodes (Graph F)) \<and> j < length (block_ops F a)} \<subseteq> Done" using W(4) by auto
  then have "numbering F {(a, j). a \<in> set (Nodes (Graph F)) \<and> j < length (block_ops F a)} num W ks"
    using W(3) unfolding numbering_def by blast
  then have "numbered F W ks num" using W(2) by (simp add: numbered_def)
  moreover have "bv_set_bits B (bv_resize B n (bv_empty B)) = []" for n using resize(2) [of n "bv_empty B"] bits_empty by simp
  ultimately show ?thesis
    using W(1) by (intro exI [of _ ks] exI [of _ num] exI)
      (auto simp: rd_new_def rd_carrier_def rd_facts_def resize split: if_splits)
qed

end

definition rd_tf :: "'v BitVector_ops \<Rightarrow> WriteToIndex \<Rightarrow> 'c Function \<Rightarrow> ptr \<Rightarrow> 'v WritersSet \<Rightarrow> 'v WritersSet" where
  "rd_tf B W F b ws = the (rd_loop B W b 0 (block_ops F b) ws)"

locale reaching_run = bit_vector B
  for B :: "'v BitVector_ops" +
  fixes F :: "'c Function" and po :: "ptr \<Rightarrow> ptr set \<Rightarrow> ptr list \<times> ptr set"
    and D :: "'v ReachingDefinitions" and ks :: "nat list" and num :: "ptr \<times> nat \<Rightarrow> nat"
  assumes wf: "function_wf F" and counted: "targets_counted F"
    and po: "post_order_graph (GraphTraits po (Graph F))"
    and number: "numbered F (WriteToIndex D) ks num"
begin

lemma rd_tf_correct:
  assumes "b \<in> set (Nodes (Graph F))" "rd_carrier B ks ws"
  shows "rd_loop B (WriteToIndex D) b 0 (block_ops F b) ws = Some (rd_tf B (WriteToIndex D) F b ws)"
    "rd_carrier B ks (rd_tf B (WriteToIndex D) F b ws)"
    "rd_facts B (rd_tf B (WriteToIndex D) F b ws)
       = rd_gen (WriteToIndex D) F b 0 \<union> rd_flow (block_ops F b) `` rd_facts B ws"
proof -
  have len: "length ks = unat (csvCount F)" using number by (simp add: numbered_def)
  have ops: "unat (Target Op) < length ks \<and> Type Op \<noteq> Invalid" if "Op \<in> set (block_ops F b)" for Op
    using that block_ops_subset [OF assms(1)] wf counted by (auto simp: function_wf_def targets_counted_def len)
  have drop: "block_ops F b = drop 0 (block_ops F b)" by simp
  from rd_loop_correct [where W = "WriteToIndex D" and n = 0 and F = F and Ops = "block_ops F b",
      OF ops numbered_index(3) [OF number assms(1)] drop assms(2)]
  obtain ws' where "rd_loop B (WriteToIndex D) b 0 (block_ops F b) ws = Some ws'" "rd_carrier B ks ws'"
      "rd_facts B ws' = rd_gen (WriteToIndex D) F b 0 \<union> rd_flow (block_ops F b) `` rd_facts B ws"
    by blast
  then show "rd_loop B (WriteToIndex D) b 0 (block_ops F b) ws = Some (rd_tf B (WriteToIndex D) F b ws)"
    "rd_carrier B ks (rd_tf B (WriteToIndex D) F b ws)"
    "rd_facts B (rd_tf B (WriteToIndex D) F b ws)
       = rd_gen (WriteToIndex D) F b 0 \<union> rd_flow (block_ops F b) `` rd_facts B ws"
    by (simp_all add: rd_tf_def)
qed

lemma rd_framework:
  "monotone_framework (rd_instance B D F) (rd_carrier B ks) (\<lambda>v. card (rd_univ ks) - card (rd_facts B v))
    (GraphTraits po (Graph F)) (set (Nodes (Graph F))) (rd_tf B (WriteToIndex D) F)"
proof (intro monotone_framework.intro monotone_framework_axioms.intro)
  have gwf: "graph_wf (Graph F)" using wf by (simp add: function_wf_def)
  show "mfp_lattice (combineValues (rd_instance B D F)) (isLessOrEqual (rd_instance B D F))
      (rd_carrier B ks) (\<lambda>v. card (rd_univ ks) - card (rd_facts B v))"
    using rd_lattice by (simp add: rd_instance_def)
  show "set (successors (GraphTraits po (Graph F)) l) \<subseteq> set (Nodes (Graph F))" for l
    using graph_wf_links(1) [OF gwf, of l] by (simp add: GraphTraits_def)
  fix l a b and x :: unit
  assume l: "l \<in> set (Nodes (Graph F))" and a: "rd_carrier B ks a"
  show "\<exists>x'. applyTransferFunction (rd_instance B D F) l a x = Some (rd_tf B (WriteToIndex D) F l a, x')"
    using rd_tf_correct(1) [OF l a] by (simp add: rd_instance_def rd_applyTransferFunction_def)
  show "rd_carrier B ks (rd_tf B (WriteToIndex D) F l a)" by (rule rd_tf_correct(2) [OF l a])
  assume b: "rd_carrier B ks b" and "isLessOrEqual (rd_instance B D F) a b"
  then have "rd_facts B a \<subseteq> rd_facts B b" using rd_leq [OF a b] by (simp add: rd_instance_def)
  then have "rd_facts B (rd_tf B (WriteToIndex D) F l a) \<subseteq> rd_facts B (rd_tf B (WriteToIndex D) F l b)"
    unfolding rd_tf_correct(3) [OF l a] rd_tf_correct(3) [OF l b] by blast
  then show "isLessOrEqual (rd_instance B D F) (rd_tf B (WriteToIndex D) F l a) (rd_tf B (WriteToIndex D) F l b)"
    using rd_leq [OF rd_tf_correct(2) [OF l a] rd_tf_correct(2) [OF l b]] by (simp add: rd_instance_def)
qed

end

sublocale reaching_run \<subseteq> distributive_analysis "rd_instance B D F" "rd_carrier B ks"
    "\<lambda>v. card (rd_univ ks) - card (rd_facts B v)" "GraphTraits po (Graph F)" "set (Nodes (Graph F))"
    "rd_tf B (WriteToIndex D) F" "rd_facts B" "rd_univ ks" "\<lambda>b. rd_gen (WriteToIndex D) F b 0" "\<lambda>b. rd_flow (block_ops F b)"
proof (intro distributive_analysis.intro distributive_analysis_axioms.intro)
  show "mfp_solver (rd_instance B D F) (rd_carrier B ks) (\<lambda>v. card (rd_univ ks) - card (rd_facts B v))
      (GraphTraits po (Graph F)) (set (Nodes (Graph F))) (rd_tf B (WriteToIndex D) F)"
    by (rule mfp_solver.intro [OF po rd_framework])
  show "\<exists>a. rd_carrier B ks a \<and> rd_facts B a = S" if "S \<subseteq> rd_univ ks" for S using that by (rule rd_facts_onto)
  fix a b assume a: "rd_carrier B ks a"
  show "rd_facts B a \<subseteq> rd_univ ks" by (rule rd_facts_bound [OF a])
  show "rd_facts B (rd_tf B (WriteToIndex D) F l a)
      = rd_gen (WriteToIndex D) F l 0 \<union> rd_flow (block_ops F l) `` rd_facts B a" if "l \<in> set (Nodes (Graph F))" for l
    by (rule rd_tf_correct(3) [OF that a])
  assume "rd_carrier B ks b"
  then show "isLessOrEqual (rd_instance B D F) a b \<longleftrightarrow> rd_facts B a \<subseteq> rd_facts B b"
    using rd_leq [OF a] by (simp add: rd_instance_def)
qed

text \<open>The facts at the entry and at the end of a block, in terms of the writes and the paths from them.\<close>

definition facts_at_end :: "WriteToIndex \<Rightarrow> 'c Function \<Rightarrow> ptr \<Rightarrow> write_fact set" where
  "facts_at_end W F b = {(r, c, i). \<exists>a j. a \<in> set (Nodes (Graph F)) \<and> write_index W F a j r i \<and> write_path c F a j r b}"

definition facts_at_entry :: "WriteToIndex \<Rightarrow> 'c Function \<Rightarrow> ptr \<Rightarrow> write_fact set" where
  "facts_at_entry W F b = {f. \<exists>k. b \<in> set (successors_of (Heap (Graph F)) k) \<and> f \<in> facts_at_end W F k}"

context reaching_run
begin

lemma rd_run_exact:
  assumes D: "rd_carrier B ks (rd_Default D)" "rd_facts B (rd_Default D) = {}" "rd_new B F = Some D"
  shows "\<exists>R. rd_analysis B po F = Some R
    \<and> (\<forall>b \<in> set (Nodes (Graph F)). \<exists>v w. R b = Some \<lparr>InValue = v, OutValue = w\<rparr> \<and> rd_carrier B ks v \<and> rd_carrier B ks w
         \<and> rd_facts B v = facts_at_entry (WriteToIndex D) F b \<and> rd_facts B w = facts_at_end (WriteToIndex D) F b)"
proof -
  have succ: "successors (GraphTraits po (Graph F)) = successors_of (Heap (Graph F))"
    and nodes: "graph_nodes (GraphTraits po (Graph F)) = Some (Nodes (Graph F))"
    by (simp_all add: GraphTraits_def)
  let ?E = "flowing (successors_of (Heap (Graph F))) (set (Nodes (Graph F)))
    (\<lambda>b. rd_gen (WriteToIndex D) F b 0) (\<lambda>b. rd_flow (block_ops F b))"
  have E: "{f. (b, f) \<in> ?E} = facts_at_end (WriteToIndex D) F b" for b
    by (intro set_eqI) (simp only: split_paired_all mem_Collect_eq write_path_flowing facts_at_end_def prod.case)
  have E': "(b, f) \<in> ?E \<longleftrightarrow> f \<in> facts_at_end (WriteToIndex D) F b" for b f unfolding E [symmetric] by simp
  have inc: "incoming (successors_of (Heap (Graph F))) ?E b = facts_at_entry (WriteToIndex D) F b" for b
    by (simp only: incoming_def facts_at_entry_def E')
  from solver_exact [OF nodes refl D(1,2), of None "[]" "()" "[EntryNode (Graph F)]"] obtain R X' where
    R: "getMaximalFixedPoint None [] () \<lparr>Instance = Some (rd_instance B D F), Flow = GraphTraits po (Graph F),
        Bottom = Some (rd_Default D), ExtremalValue = Some (rd_Default D),
        ExtremalLabels = Some [EntryNode (Graph F)], EntryLabels = All, cfg_ExtraState = None\<rparr> = Some (R, X')"
      "\<forall>b \<in> set (Nodes (Graph F)). \<exists>v w. R b = Some \<lparr>InValue = v, OutValue = w\<rparr> \<and> rd_carrier B ks v \<and> rd_carrier B ks w
         \<and> rd_facts B v = facts_at_entry (WriteToIndex D) F b \<and> rd_facts B w = facts_at_end (WriteToIndex D) F b"
    unfolding succ inc E by (elim exE conjE) (rule that)
  have "rd_analysis B po F = Some R" using R(1) D(3) by (simp add: rd_analysis_def)
  then show ?thesis using R(2) by (intro exI [of _ R] conjI)
qed

end

section \<open>Unread writes\<close>

text \<open>The count of a register is the number of its writes.\<close>

definition write_count :: "nat \<Rightarrow> Operation list \<Rightarrow> nat" where
  "write_count r Ops = length (filter (\<lambda>Op. Type Op = Write \<and> unat (Target Op) = r) Ops)"

lemma number_operations_count:
  "number_operations b i Ops (W, Counts) = Some (W', Counts') \<Longrightarrow>
    length Counts' = length Counts \<and> (\<forall>r < length Counts. Counts' ! r = Counts ! r + write_count r Ops)"
proof (induction Ops arbitrary: i W Counts)
  case (Cons Op Ops)
  show ?case
  proof (cases "Type Op = Write")
    case True
    then have t: "unat (Target Op) < length Counts" and
      rest: "number_operations b (Suc i) Ops (W((b, i) \<mapsto> word_of_nat (Counts ! unat (Target Op))),
        Counts[unat (Target Op) := Counts ! unat (Target Op) + 1]) = Some (W', Counts')"
      using Cons.prems by (simp_all add: at_def split: if_splits)
    show ?thesis using Cons.IH [OF rest] True t by (auto simp: write_count_def nth_list_update)
  next
    case False
    then show ?thesis using Cons.IH Cons.prems by (simp add: write_count_def)
  qed
qed (simp add: write_count_def)

lemma number_blocks_count:
  "number_blocks F bs (W, Counts) = Some (W', Counts') \<Longrightarrow>
    length Counts' = length Counts
    \<and> (\<forall>r < length Counts. Counts' ! r = Counts ! r + write_count r (concat (map (block_ops F) bs)))"
proof (induction bs arbitrary: W Counts)
  case (Cons b bs)
  then obtain W1 Counts1 where 1: "number_operations b 0 (block_ops F b) (W, Counts) = Some (W1, Counts1)"
      "number_blocks F bs (W1, Counts1) = Some (W', Counts')"
    by (auto split: Option.bind_splits)
  show ?case using number_operations_count [OF 1(1)] Cons.IH [OF 1(2)] by (simp add: write_count_def)
qed (simp add: write_count_def)

context bit_vector
begin

lemma rd_new_sizes:
  assumes "rd_new B F = Some D" "rd_carrier B ks (rd_Default D)" "r < unat (csvCount F)"
  shows "ks ! r = write_count r (all_operations F)"
proof -
  obtain W Counts where 1: "number_blocks F (Nodes (Graph F)) (Map.empty, replicate (unat (csvCount F)) 0) = Some (W, Counts)"
      "rd_Default D = map (\<lambda>C. \<lparr>Reaching = bv_resize B C (bv_empty B), ReadBy = bv_resize B C (bv_empty B)\<rparr>) Counts"
    using assms(1) by (auto simp: rd_new_def split: Option.bind_splits)
  have c: "length Counts = unat (csvCount F)" "Counts ! r = write_count r (all_operations F)"
    using number_blocks_count [OF 1(1)] assms(3) by (simp_all add: all_operations_def)
  then show ?thesis using assms(2,3) by (simp add: rd_carrier_def 1(2) resize)
qed

lemma rd_compute_loop_correct:
  assumes "length Ps = length Ss" "k + length Ps \<le> bv_size B Result"
  shows "\<exists>v. rd_compute_loop B k Ps Ss Result = Some v \<and> bv_size B v = bv_size B Result
    \<and> bits B v = {r. if k \<le> r \<and> r < k + length Ps
        then bits B (Reaching (Ps ! (r - k))) \<inter> bits B (bv_flip B (ReadBy (Ss ! (r - k)))) \<noteq> {} else r \<in> bits B Result}"
  using assms
proof (induction Ps Ss arbitrary: k Result rule: list_induct2)
  case (Cons P Ps S Ss)
  let ?hit = "bv_anyCommon B (Reaching P) (bv_flip B (ReadBy S))"
  define R where "R = (if ?hit then bv_set B k Result else bv_reset B k Result)"
  have k: "k < bv_size B Result" using Cons.prems by simp
  have R: "bv_size B R = bv_size B Result" "\<And>r. r \<in> bits B R \<longleftrightarrow> (if r = k then ?hit else r \<in> bits B Result)"
    using set_bit [OF k] reset_bit [OF k] by (auto simp: R_def)
  have eq: "rd_compute_loop B k (P # Ps) (S # Ss) Result = rd_compute_loop B (Suc k) Ps Ss R"
    using k by (simp add: R_def bv_set_at_def bv_reset_at_def)
  from Cons.IH [of "Suc k" R] obtain v where v: "rd_compute_loop B (Suc k) Ps Ss R = Some v" "bv_size B v = bv_size B R"
      "bits B v = {r. if Suc k \<le> r \<and> r < Suc k + length Ps
        then bits B (Reaching (Ps ! (r - Suc k))) \<inter> bits B (bv_flip B (ReadBy (Ss ! (r - Suc k)))) \<noteq> {} else r \<in> bits B R}"
    using Cons.prems R(1) by auto
  have "r \<in> bits B v \<longleftrightarrow> (if k \<le> r \<and> r < k + length (P # Ps)
        then bits B (Reaching ((P # Ps) ! (r - k))) \<inter> bits B (bv_flip B (ReadBy ((S # Ss) ! (r - k)))) \<noteq> {} else r \<in> bits B Result)" for r
  proof (cases "r = k")
    case True
    then show ?thesis unfolding v(3) using R(2) any_common by simp
  next
    case False
    then have "k \<le> r \<longleftrightarrow> Suc k \<le> r" by auto
    moreover have "(X # Xs) ! (r - k) = Xs ! (r - Suc k)" if "Suc k \<le> r" for X and Xs :: "'v RegisterWriters list"
      using that by (simp add: Suc_diff_Suc [symmetric] Suc_le_eq)
    ultimately show ?thesis unfolding v(3) using R(2) False by simp
  qed
  then show ?case unfolding eq using v(1,2) R(1) by (intro exI [of _ v] conjI set_eqI) simp_all
qed auto

lemma rd_compute_correct:
  assumes "rd_carrier B ks P" "rd_carrier B ks S"
  shows "\<exists>v. rd_compute B P S = Some v \<and> bits B v = {r. \<exists>i. (r, True, i) \<in> rd_facts B P \<and> (r, False, i) \<notin> rd_facts B S}"
proof -
  have len: "length P = length ks" "length S = length ks" using assms by (simp_all add: rd_carrier_def)
  let ?R = "bv_resize B (length P) (bv_empty B)"
  have R: "bits B ?R = {}" "bv_size B ?R = length P" using resize [of "length P" "bv_empty B"] bits_empty by simp_all
  from rd_compute_loop_correct [of P S 0 ?R] len R obtain v where v: "rd_compute_loop B 0 P S ?R = Some v"
      "bits B v = {r. if r < length P then bits B (Reaching (P ! r)) \<inter> bits B (bv_flip B (ReadBy (S ! r))) \<noteq> {} else False}"
    by auto
  have "r \<in> bits B v \<longleftrightarrow> (\<exists>i. (r, True, i) \<in> rd_facts B P \<and> (r, False, i) \<notin> rd_facts B S)" for r
  proof (cases "r < length ks")
    case True
    then have "bv_size B (ReadBy (S ! r)) = ks ! r" "bits B (Reaching (P ! r)) \<subseteq> {..<ks ! r}"
      using assms bits_bound [of "Reaching (P ! r)"] by (simp_all add: rd_carrier_def)
    then show ?thesis unfolding v(2) using True len by (auto simp: rd_facts_def flip)
  next
    case False
    then show ?thesis unfolding v(2) using len by (simp add: rd_facts_def)
  qed
  then show ?thesis using v(1) len by (intro exI [of _ v] conjI set_eqI) (simp_all add: rd_compute_def)
qed

end

context reaching_run
begin

lemma index_injective:
  assumes D: "rd_new B F = Some D" "rd_carrier B ks (rd_Default D)"
    and few: "write_count r (all_operations F) \<le> 256"
    and w: "write_index (WriteToIndex D) F a j r i" "write_index (WriteToIndex D) F a' j' r i"
    and N: "a \<in> set (Nodes (Graph F))" "a' \<in> set (Nodes (Graph F))"
  shows "a = a' \<and> j = j'"
proof -
  have wa: "write_at F a j r" "write_at F a' j' r" using w by (simp_all add: write_index_def)
  have "r < unat (csvCount F)"
  proof -
    have "block_ops F a ! j \<in> set (all_operations F)"
      using wa(1) block_ops_subset [OF N(1)] nth_mem [of j "block_ops F a"] by (auto simp: write_at_def)
    then show ?thesis using counted wa(1) by (auto simp: targets_counted_def write_at_def)
  qed
  then have ks: "ks ! r \<le> 256" using rd_new_sizes [OF D] few by simp
  note 1 = numbered_index [OF number N(1) wa(1)] and 2 = numbered_index [OF number N(2) wa(2)]
  have "unat (word_of_nat (num (a, j)) :: u8) = i" "unat (word_of_nat (num (a', j')) :: u8) = i"
    using w 1(1) 2(1) by (simp_all add: write_index_def)
  then have "num (a, j) = num (a', j')" using 1(2) 2(2) ks by (simp add: unat_of_nat)
  moreover have "(a, j) \<in> {(a, j). a \<in> set (Nodes (Graph F)) \<and> j < length (block_ops F a)}"
      "(a', j') \<in> {(a, j). a \<in> set (Nodes (Graph F)) \<and> j < length (block_ops F a)}"
    using wa N by (simp_all add: write_at_def)
  ultimately have "(a, j) = (a', j')" using number wa unfolding numbered_def numbering_def by blast
  then show ?thesis by simp
qed

lemma write_index_exists: "a \<in> set (Nodes (Graph F)) \<Longrightarrow> write_at F a j r \<Longrightarrow> \<exists>i. write_index (WriteToIndex D) F a j r i"
  using numbered_index(1) [OF number] by (simp add: write_index_def)

text \<open>The writes that reach a point and that the sink does not know to be read.\<close>

lemma unread_writes:
  assumes D: "rd_new B F = Some D" "rd_carrier B ks (rd_Default D)"
    and few: "write_count r (all_operations F) \<le> 256"
  shows "(\<exists>i. (\<exists>a j. a \<in> set (Nodes (Graph F)) \<and> write_index (WriteToIndex D) F a j r i \<and> P a j)
        \<and> \<not> (\<exists>a j. a \<in> set (Nodes (Graph F)) \<and> write_index (WriteToIndex D) F a j r i \<and> Q a j))
    \<longleftrightarrow> (\<exists>a j. a \<in> set (Nodes (Graph F)) \<and> write_at F a j r \<and> P a j \<and> \<not> Q a j)" (is "?lhs \<longleftrightarrow> ?rhs")
proof
  assume ?lhs
  then obtain i a j where aj: "a \<in> set (Nodes (Graph F))" "write_index (WriteToIndex D) F a j r i" "P a j"
      "\<not> (\<exists>a j. a \<in> set (Nodes (Graph F)) \<and> write_index (WriteToIndex D) F a j r i \<and> Q a j)"
    by (elim exE conjE)
  have "\<not> Q a j" using aj(1,2,4) by blast
  moreover have "write_at F a j r" using aj(2) by (simp add: write_index_def)
  ultimately show ?rhs using aj(1,3) by (intro exI conjI)
next
  assume ?rhs
  then obtain a j where aj: "a \<in> set (Nodes (Graph F))" "write_at F a j r" "P a j" "\<not> Q a j" by (elim exE conjE)
  obtain i where i: "write_index (WriteToIndex D) F a j r i" using write_index_exists [OF aj(1,2)] by (elim exE)
  have "\<not> Q a' j'" if "a' \<in> set (Nodes (Graph F))" "write_index (WriteToIndex D) F a' j' r i" for a' j'
    using index_injective [OF D few i that(2) aj(1) that(1)] aj(4) by simp
  then have "\<not> (\<exists>a j. a \<in> set (Nodes (Graph F)) \<and> write_index (WriteToIndex D) F a j r i \<and> Q a j)" by blast
  then show ?lhs using i aj(1,3) by (intro exI [of _ i] conjI exI [of _ a] exI [of _ j])
qed

end

lemma reaching_run_ex:
  assumes "bit_vector B" "function_wf F" "targets_counted F" "post_order_graph (GraphTraits po (Graph F))"
  shows "\<exists>D ks num. reaching_run B F po D ks num \<and> rd_new B F = Some D \<and> rd_carrier B ks (rd_Default D) \<and> rd_facts B (rd_Default D) = {}"
proof -
  obtain D ks num where "rd_new B F = Some D" "numbered F (WriteToIndex D) ks num"
      "rd_carrier B ks (rd_Default D)" "rd_facts B (rd_Default D) = {}"
    using bit_vector.rd_new_correct [OF assms(1-3)] by (elim exE conjE)
  moreover from this(2) have "reaching_run B F po D ks num"
    by (intro reaching_run.intro [OF assms(1)] reaching_run_axioms.intro assms(2-4))
  ultimately show ?thesis by (intro exI conjI)
qed

lemma rd_facts_nth:
  "r < length w \<Longrightarrow> bits B (Reaching (w ! r)) = {i. (r, True, i) \<in> rd_facts B w}"
  "r < length w \<Longrightarrow> bits B (ReadBy (w ! r)) = {i. (r, False, i) \<in> rd_facts B w}"
  by (simp_all add: rd_facts_def)

lemma unread_registers:
  assumes "bit_vector B" "post_order_graph (GraphTraits po (Graph F))" "function_wf F" "targets_counted F"
    "\<And>r. write_count r (all_operations F) \<le> 256"
  shows "\<exists>R. rd_analysis B po F = Some R
    \<and> (\<forall>b \<in> set (Nodes (Graph F)). \<forall>s \<in> set (Nodes (Graph F)). \<exists>Rb Rs Before After.
         R b = Some Rb \<and> R s = Some Rs
         \<and> rd_compute B (InValue Rb) (OutValue Rs) = Some Before \<and> rd_compute B (OutValue Rb) (OutValue Rs) = Some After
         \<and> bits B After = {r. \<exists>a j. a \<in> set (Nodes (Graph F)) \<and> write_at F a j r
              \<and> write_path True F a j r b \<and> \<not> write_path False F a j r s}
         \<and> bits B Before = {r. \<exists>a j. a \<in> set (Nodes (Graph F)) \<and> write_at F a j r
              \<and> (\<exists>k. b \<in> set (successors_of (Heap (Graph F)) k) \<and> write_path True F a j r k) \<and> \<not> write_path False F a j r s})"
proof -
  obtain D ks num where run: "reaching_run B F po D ks num" and
    D: "rd_new B F = Some D" "rd_carrier B ks (rd_Default D)" "rd_facts B (rd_Default D) = {}"
    using reaching_run_ex [OF assms(1,3,4,2)] by (elim exE conjE)
  let ?W = "WriteToIndex D" and ?N = "set (Nodes (Graph F))"
  obtain R where R: "rd_analysis B po F = Some R"
    "\<And>b. b \<in> ?N \<Longrightarrow> \<exists>v w. R b = Some \<lparr>InValue = v, OutValue = w\<rparr> \<and> rd_carrier B ks v \<and> rd_carrier B ks w
         \<and> rd_facts B v = facts_at_entry ?W F b \<and> rd_facts B w = facts_at_end ?W F b"
    using reaching_run.rd_run_exact [OF run D(2,3,1)] by blast
  note unread = reaching_run.unread_writes [OF run D(1,2) assms(5)]
  have At_end: "(\<exists>i. (r, True, i) \<in> facts_at_end ?W F b \<and> (r, False, i) \<notin> facts_at_end ?W F s)
      \<longleftrightarrow> (\<exists>a j. a \<in> ?N \<and> write_at F a j r \<and> write_path True F a j r b \<and> \<not> write_path False F a j r s)" for r b s
    using unread [where P = "\<lambda>a j. write_path True F a j r b" and Q = "\<lambda>a j. write_path False F a j r s"]
    by (simp only: facts_at_end_def mem_Collect_eq prod.case)
  have "(r, True, i) \<in> facts_at_entry ?W F b \<longleftrightarrow> (\<exists>a j. a \<in> ?N \<and> write_index ?W F a j r i
      \<and> (\<exists>k. b \<in> set (successors_of (Heap (Graph F)) k) \<and> write_path True F a j r k))" for r i b
    unfolding facts_at_entry_def facts_at_end_def mem_Collect_eq prod.case by blast
  then have At_entry: "(\<exists>i. (r, True, i) \<in> facts_at_entry ?W F b \<and> (r, False, i) \<notin> facts_at_end ?W F s)
      \<longleftrightarrow> (\<exists>a j. a \<in> ?N \<and> write_at F a j r
        \<and> (\<exists>k. b \<in> set (successors_of (Heap (Graph F)) k) \<and> write_path True F a j r k) \<and> \<not> write_path False F a j r s)" for r b s
    using unread [where P = "\<lambda>a j. \<exists>k. b \<in> set (successors_of (Heap (Graph F)) k) \<and> write_path True F a j r k"
        and Q = "\<lambda>a j. write_path False F a j r s"]
    by (simp only: facts_at_end_def mem_Collect_eq prod.case)
  show ?thesis
  proof (intro exI [of _ R] conjI ballI R(1))
    fix b s assume b: "b \<in> ?N" and s: "s \<in> ?N"
    obtain v w where vw: "R b = Some \<lparr>InValue = v, OutValue = w\<rparr>" "rd_carrier B ks v" "rd_carrier B ks w"
      "rd_facts B v = facts_at_entry ?W F b" "rd_facts B w = facts_at_end ?W F b" using R(2) [OF b] by (elim exE conjE)
    obtain v' w' where vw': "R s = Some \<lparr>InValue = v', OutValue = w'\<rparr>" "rd_carrier B ks w'" "rd_facts B w' = facts_at_end ?W F s"
      using R(2) [OF s] by (elim exE conjE)
    obtain Before where Before: "rd_compute B v w' = Some Before"
        "bits B Before = {r. \<exists>i. (r, True, i) \<in> rd_facts B v \<and> (r, False, i) \<notin> rd_facts B w'}"
      using bit_vector.rd_compute_correct [OF assms(1) vw(2) vw'(2)] by (elim exE conjE)
    obtain After where After: "rd_compute B w w' = Some After"
        "bits B After = {r. \<exists>i. (r, True, i) \<in> rd_facts B w \<and> (r, False, i) \<notin> rd_facts B w'}"
      using bit_vector.rd_compute_correct [OF assms(1) vw(3) vw'(2)] by (elim exE conjE)
    show "\<exists>Rb Rs Before After. R b = Some Rb \<and> R s = Some Rs
         \<and> rd_compute B (InValue Rb) (OutValue Rs) = Some Before \<and> rd_compute B (OutValue Rb) (OutValue Rs) = Some After
         \<and> bits B After = {r. \<exists>a j. a \<in> ?N \<and> write_at F a j r \<and> write_path True F a j r b \<and> \<not> write_path False F a j r s}
         \<and> bits B Before = {r. \<exists>a j. a \<in> ?N \<and> write_at F a j r
              \<and> (\<exists>k. b \<in> set (successors_of (Heap (Graph F)) k) \<and> write_path True F a j r k) \<and> \<not> write_path False F a j r s}"
      using Before After unfolding vw(4,5) vw'(3) At_end At_entry
      by (intro exI [of _ "\<lparr>InValue = v, OutValue = w\<rparr>"] exI [of _ "\<lparr>InValue = v', OutValue = w'\<rparr>"] exI [of _ Before] exI [of _ After] conjI)
        (simp_all add: vw(1) vw'(1))
  qed
qed

section \<open>The properties\<close>

text \<open>
  \<^bold>\<open>C4\<close>. The reaching definitions analysis returns, and its result is exact up to the indices of
  the writes: in the final value of a block a write of a register is reaching when some path from
  it to the end of the block neither writes nor clobbers the register, and read when the first
  access to the register on some path from it is a read; in the initial value, the same for a path
  to the end of a predecessor.
\<close>

theorem reaching_definitions_exact:
  assumes "bit_vector B" "post_order_graph (GraphTraits po (Graph F))" "function_wf F" "targets_counted F"
  shows "\<exists>D R. rd_new B F = Some D \<and> rd_analysis B po F = Some R
    \<and> (\<forall>b \<in> set (Nodes (Graph F)). \<exists>v w. R b = Some \<lparr>InValue = v, OutValue = w\<rparr>
         \<and> length v = unat (csvCount F) \<and> length w = unat (csvCount F)
         \<and> (\<forall>r < unat (csvCount F). \<forall>i.
              (i \<in> bits B (Reaching (w ! r)) \<longleftrightarrow> (\<exists>a j. a \<in> set (Nodes (Graph F))
                 \<and> write_index (WriteToIndex D) F a j r i \<and> write_path True F a j r b))
            \<and> (i \<in> bits B (ReadBy (w ! r)) \<longleftrightarrow> (\<exists>a j. a \<in> set (Nodes (Graph F))
                 \<and> write_index (WriteToIndex D) F a j r i \<and> write_path False F a j r b))
            \<and> (i \<in> bits B (Reaching (v ! r)) \<longleftrightarrow> (\<exists>k a j. b \<in> set (successors_of (Heap (Graph F)) k)
                 \<and> a \<in> set (Nodes (Graph F)) \<and> write_index (WriteToIndex D) F a j r i \<and> write_path True F a j r k))
            \<and> (i \<in> bits B (ReadBy (v ! r)) \<longleftrightarrow> (\<exists>k a j. b \<in> set (successors_of (Heap (Graph F)) k)
                 \<and> a \<in> set (Nodes (Graph F)) \<and> write_index (WriteToIndex D) F a j r i \<and> write_path False F a j r k))))"
proof -
  obtain D ks num where run: "reaching_run B F po D ks num" and
    D: "rd_new B F = Some D" "rd_carrier B ks (rd_Default D)" "rd_facts B (rd_Default D) = {}"
    using reaching_run_ex [OF assms(1,3,4,2)] by (elim exE conjE)
  have len: "length ks = unat (csvCount F)" using reaching_run.number [OF run] by (simp add: numbered_def)
  obtain R where R: "rd_analysis B po F = Some R"
    "\<forall>b \<in> set (Nodes (Graph F)). \<exists>v w. R b = Some \<lparr>InValue = v, OutValue = w\<rparr> \<and> rd_carrier B ks v \<and> rd_carrier B ks w
         \<and> rd_facts B v = facts_at_entry (WriteToIndex D) F b \<and> rd_facts B w = facts_at_end (WriteToIndex D) F b"
    using reaching_run.rd_run_exact [OF run D(2,3,1)] by (elim exE conjE)
  show ?thesis
  proof (intro exI [of _ D] exI [of _ R] conjI ballI D(1) R(1))
    fix b assume "b \<in> set (Nodes (Graph F))"
    then obtain v w where vw: "R b = Some \<lparr>InValue = v, OutValue = w\<rparr>" "rd_carrier B ks v" "rd_carrier B ks w"
      "rd_facts B v = facts_at_entry (WriteToIndex D) F b" "rd_facts B w = facts_at_end (WriteToIndex D) F b"
      using R(2) by blast
    have l: "length v = unat (csvCount F)" "length w = unat (csvCount F)" using vw(2,3) len by (simp_all add: rd_carrier_def)
    show "\<exists>v w. R b = Some \<lparr>InValue = v, OutValue = w\<rparr>
         \<and> length v = unat (csvCount F) \<and> length w = unat (csvCount F)
         \<and> (\<forall>r < unat (csvCount F). \<forall>i.
              (i \<in> bits B (Reaching (w ! r)) \<longleftrightarrow> (\<exists>a j. a \<in> set (Nodes (Graph F))
                 \<and> write_index (WriteToIndex D) F a j r i \<and> write_path True F a j r b))
            \<and> (i \<in> bits B (ReadBy (w ! r)) \<longleftrightarrow> (\<exists>a j. a \<in> set (Nodes (Graph F))
                 \<and> write_index (WriteToIndex D) F a j r i \<and> write_path False F a j r b))
            \<and> (i \<in> bits B (Reaching (v ! r)) \<longleftrightarrow> (\<exists>k a j. b \<in> set (successors_of (Heap (Graph F)) k)
                 \<and> a \<in> set (Nodes (Graph F)) \<and> write_index (WriteToIndex D) F a j r i \<and> write_path True F a j r k))
            \<and> (i \<in> bits B (ReadBy (v ! r)) \<longleftrightarrow> (\<exists>k a j. b \<in> set (successors_of (Heap (Graph F)) k)
                 \<and> a \<in> set (Nodes (Graph F)) \<and> write_index (WriteToIndex D) F a j r i \<and> write_path False F a j r k)))"
      using vw(1) l by (intro exI [of _ v] exI [of _ w])
        (simp add: rd_facts_nth vw(4,5) facts_at_entry_def facts_at_end_def)
  qed
qed

text \<open>
  \<^bold>\<open>C5\<close>. \<^verbatim>\<open>compute\<close> is exact when no register has more than 256 writes: between the final values of
  two blocks it returns the registers with a write that reaches the end of the first and that no
  path to the end of the second reads before its next change; from an initial value, the same for
  a write that reaches the entry of the block.
\<close>

theorem unread_writes_exact:
  assumes "bit_vector B" "post_order_graph (GraphTraits po (Graph F))" "function_wf F" "targets_counted F"
    "\<And>r. write_count r (all_operations F) \<le> 256"
  shows "\<exists>R. rd_analysis B po F = Some R
    \<and> (\<forall>b \<in> set (Nodes (Graph F)). \<forall>s \<in> set (Nodes (Graph F)). \<exists>Rb Rs Before After.
         R b = Some Rb \<and> R s = Some Rs
         \<and> rd_compute B (InValue Rb) (OutValue Rs) = Some Before \<and> rd_compute B (OutValue Rb) (OutValue Rs) = Some After
         \<and> bits B After = {r. \<exists>a j. a \<in> set (Nodes (Graph F)) \<and> write_at F a j r
              \<and> write_path True F a j r b \<and> \<not> write_path False F a j r s}
         \<and> bits B Before = {r. \<exists>a j. a \<in> set (Nodes (Graph F)) \<and> write_at F a j r
              \<and> (\<exists>k. b \<in> set (successors_of (Heap (Graph F)) k) \<and> write_path True F a j r k) \<and> \<not> write_path False F a j r s})"
  by (rule unread_registers [OF assms])

text \<open>
  For the witnesses: one block that writes register 0, reads it, and writes it \<open>n\<close> more times.
\<close>

definition rewriting :: "nat \<Rightarrow> nat Function" where
  "rewriting n = \<lparr>IndexToCSV = [0 \<mapsto> 100], CSVToIndex = [100 \<mapsto> 0],
     Graph = \<lparr>EntryNode = 4, Nodes = [4],
       Heap = (\<lambda>k. \<lparr>Successors = [], Predecessors = [], NodeData = \<lparr>Label = [], Operations =
         (if k = 4 then [\<lparr>Type = Write, Target = 0\<rparr>, \<lparr>Type = Read, Target = 0\<rparr>] @ replicate n \<lparr>Type = Write, Target = 0\<rparr> else [])\<rparr>\<rparr>)\<rparr>\<rparr>"

lemma rewriting_simps [simp]:
  "Nodes (Graph (rewriting n)) = [4]" "successors_of (Heap (Graph (rewriting n))) k = []"
  "block_ops (rewriting n) 4 = \<lparr>Type = Write, Target = 0\<rparr> # \<lparr>Type = Read, Target = 0\<rparr> # replicate n \<lparr>Type = Write, Target = 0\<rparr>"
  "csvCount (rewriting n) = 1"
  by (simp_all add: rewriting_def successors_of_def block_ops_def csvCount_def)

lemma rewriting_wf: "function_wf (rewriting n)" "targets_counted (rewriting n)"
  "write_count r (all_operations (rewriting n)) \<le> Suc n"
proof -
  show "function_wf (rewriting n)"
    by (auto simp: function_wf_def all_operations_def) (simp add: graph_wf_def edges_match_def rewriting_def)
  show "targets_counted (rewriting n)" by (auto simp: targets_counted_def all_operations_def)
  show "write_count r (all_operations (rewriting n)) \<le> Suc n"
    by (auto simp: write_count_def all_operations_def)
qed

abbreviation rewriting_po :: "nat \<Rightarrow> ptr \<Rightarrow> ptr set \<Rightarrow> ptr list \<times> ptr set" where
  "rewriting_po n \<equiv> dfs_po [4] (successors_of (Heap (Graph (rewriting n))))"

lemma rewriting_post_order: "post_order_graph (GraphTraits (rewriting_po n) (Graph (rewriting n)))"
  using dfs_po_forward [of "Graph (rewriting n)"] rewriting_wf(1) [of n] by (simp add: function_wf_def)

lemma rewriting_path:
  "write_path c (rewriting n) 4 j r 4 \<longleftrightarrow> fate c (drop (Suc j) (block_ops (rewriting n) 4)) r"
proof -
  have "is_path (successors_of (Heap (Graph (rewriting n)))) (4 # q) \<longleftrightarrow> q = []" for q by (cases q) simp_all
  then show ?thesis by (simp add: write_path_def path_ops_def)
qed

theorem reaching_definitions_exact_witness:
  "\<exists>D R v w. rd_new list_bits (rewriting 2) = Some D \<and> rd_analysis list_bits (rewriting_po 2) (rewriting 2) = Some R
     \<and> R 4 = Some \<lparr>InValue = v, OutValue = w\<rparr> \<and> bits list_bits (Reaching (w ! 0)) = {i. write_index (WriteToIndex D) (rewriting 2) 4 3 0 i}"
proof -
  from reaching_definitions_exact [OF list_bits.bit_vector_axioms rewriting_post_order rewriting_wf(1,2), of 2]
  obtain D R v w where R: "rd_new list_bits (rewriting 2) = Some D" "rd_analysis list_bits (rewriting_po 2) (rewriting 2) = Some R"
      "R 4 = Some \<lparr>InValue = v, OutValue = w\<rparr>"
    and w: "\<And>i. i \<in> bits list_bits (Reaching (w ! 0)) \<longleftrightarrow> (\<exists>j. write_index (WriteToIndex D) (rewriting 2) 4 j 0 i
        \<and> write_path True (rewriting 2) 4 j 0 4)"
    by auto
  have only: "write_at (rewriting 2) 4 j 0 \<and> write_path True (rewriting 2) 4 j 0 4 \<longleftrightarrow> j = 3" for j
  proof (cases "j < 4")
    case True
    then consider "j = 0" | "j = 1" | "j = 2" | "j = 3" by linarith
    then show ?thesis unfolding rewriting_path write_at_def by cases (simp_all add: fate_def numeral_2_eq_2)
  qed (auto simp: write_at_def)
  have "i \<in> bits list_bits (Reaching (w ! 0)) \<longleftrightarrow> write_index (WriteToIndex D) (rewriting 2) 4 3 0 i" for i
  proof -
    have "write_index (WriteToIndex D) (rewriting 2) 4 j 0 i \<and> write_path True (rewriting 2) 4 j 0 4
        \<longleftrightarrow> j = 3 \<and> map_option unat (WriteToIndex D (4, j)) = Some i" for j
      using only [of j] by (auto simp only: write_index_def)
    then have "i \<in> bits list_bits (Reaching (w ! 0)) \<longleftrightarrow> map_option unat (WriteToIndex D (4, 3)) = Some i" unfolding w by simp
    then show ?thesis using only [of 3] by (simp only: write_index_def refl simp_thms)
  qed
  then have "bits list_bits (Reaching (w ! 0)) = {i. write_index (WriteToIndex D) (rewriting 2) 4 3 0 i}" by (intro set_eqI) simp
  then show ?thesis using R by (intro exI [of _ D] exI [of _ R] exI [of _ v] exI [of _ w] conjI)
qed

theorem unread_writes_exact_witness:
  "\<exists>R Rb After. rd_analysis list_bits (rewriting_po 2) (rewriting 2) = Some R \<and> R 4 = Some Rb
     \<and> rd_compute list_bits (OutValue Rb) (OutValue Rb) = Some After \<and> 0 \<in> bits list_bits After"
proof -
  have few: "write_count r (all_operations (rewriting 2)) \<le> 256" for r using rewriting_wf(3) [of r 2] by simp
  from unread_writes_exact [OF list_bits.bit_vector_axioms rewriting_post_order rewriting_wf(1,2) few]
  obtain R Rb Rs After where R: "rd_analysis list_bits (rewriting_po 2) (rewriting 2) = Some R" "R 4 = Some Rb" "R 4 = Some Rs"
      "rd_compute list_bits (OutValue Rb) (OutValue Rs) = Some After"
    and A: "bits list_bits After = {r. \<exists>a j. a \<in> set (Nodes (Graph (rewriting 2))) \<and> write_at (rewriting 2) a j r
              \<and> write_path True (rewriting 2) a j r 4 \<and> \<not> write_path False (rewriting 2) a j r 4}"
    by auto
  have "write_at (rewriting 2) 4 3 0" "write_path True (rewriting 2) 4 3 0 4" "\<not> write_path False (rewriting 2) 4 3 0 4"
    unfolding rewriting_path write_at_def by (simp_all add: fate_def)
  then have "0 \<in> bits list_bits After" unfolding A by (intro CollectI exI [of _ 4] exI [of _ 3]) simp
  then show ?thesis using R by auto
qed

lemma number_replicate:
  "t < length Counts \<Longrightarrow> unat u = t \<Longrightarrow> \<exists>W' Counts'. number_operations b i (replicate n \<lparr>Type = Write, Target = u\<rparr>) (W, Counts) = Some (W', Counts')
     \<and> (\<forall>k < n. W' (b, i + k) = Some (word_of_nat (Counts ! t + k))) \<and> (\<forall>k < i. W' (b, k) = W (b, k))"
proof (induction n arbitrary: i W Counts)
  case (Suc n)
  let ?W = "W((b, i) \<mapsto> word_of_nat (Counts ! t))" and ?C = "Counts[t := Counts ! t + 1]"
  have C: "t < length ?C" using Suc.prems(1) by simp
  obtain W' Counts' where 1: "number_operations b (Suc i) (replicate n \<lparr>Type = Write, Target = u\<rparr>) (?W, ?C) = Some (W', Counts')"
      "\<forall>k < n. W' (b, Suc i + k) = Some (word_of_nat (?C ! t + k))" "\<forall>k < Suc i. W' (b, k) = ?W (b, k)"
    using Suc.IH [OF C Suc.prems(2), where i = "Suc i" and W = ?W] by (elim exE conjE)
  have "W' (b, i + k) = Some (word_of_nat (Counts ! t + k))" if "k < Suc n" for k
  proof (cases k)
    case 0
    then show ?thesis using 1(3) by simp
  next
    case (Suc m)
    then show ?thesis using 1(2) Suc.prems(1) that by simp
  qed
  moreover have "W' (b, k) = W (b, k)" if "k < i" for k using 1(3) that by simp
  moreover have "number_operations b i (replicate (Suc n) \<lparr>Type = Write, Target = u\<rparr>) (W, Counts) = Some (W', Counts')"
    using 1(1) Suc.prems by (simp add: at_def)
  ultimately show ?case by blast
qed simp

text \<open>
  \<^bold>\<open>Fact\<close>. The index of a write is its number truncated to eight bits, so the 257th write of a
  register gets the index of the first. In a block that writes a register, reads it and writes it
  256 times more, the last write reaches the end of the block and is never read, but \<^verbatim>\<open>compute\<close>
  does not return the register.
\<close>

theorem write_index_collision:
  "\<exists>R Rb After. rd_analysis list_bits (rewriting_po 256) (rewriting 256) = Some R \<and> R 4 = Some Rb
     \<and> rd_compute list_bits (OutValue Rb) (OutValue Rb) = Some After \<and> 0 \<notin> bits list_bits After
     \<and> write_at (rewriting 256) 4 257 0 \<and> write_path True (rewriting 256) 4 257 0 4 \<and> \<not> write_path False (rewriting 256) 4 257 0 4"
proof -
  let ?F = "rewriting 256"
  obtain D ks num where run: "reaching_run list_bits ?F (rewriting_po 256) D ks num" and
    D: "rd_new list_bits ?F = Some D" "rd_carrier list_bits ks (rd_Default D)" "rd_facts list_bits (rd_Default D) = {}"
    using reaching_run_ex [OF list_bits.bit_vector_axioms rewriting_wf(1,2) rewriting_post_order, of 256] by (elim exE conjE)
  obtain R where R: "rd_analysis list_bits (rewriting_po 256) ?F = Some R"
    "\<forall>b \<in> set (Nodes (Graph ?F)). \<exists>v w. R b = Some \<lparr>InValue = v, OutValue = w\<rparr> \<and> rd_carrier list_bits ks v \<and> rd_carrier list_bits ks w
         \<and> rd_facts list_bits v = facts_at_entry (WriteToIndex D) ?F b \<and> rd_facts list_bits w = facts_at_end (WriteToIndex D) ?F b"
    using reaching_run.rd_run_exact [OF run D(2,3,1)] by (elim exE conjE)
  obtain v w where w: "R 4 = Some \<lparr>InValue = v, OutValue = w\<rparr>" "rd_carrier list_bits ks w"
      "rd_facts list_bits w = facts_at_end (WriteToIndex D) ?F 4"
    using R(2) by auto
  obtain After where A: "rd_compute list_bits w w = Some After"
      "bits list_bits After = {r. \<exists>i. (r, True, i) \<in> rd_facts list_bits w \<and> (r, False, i) \<notin> rd_facts list_bits w}"
    using list_bits.rd_compute_correct [OF w(2,2)] by (elim exE conjE)
  obtain W' Counts' where num: "number_operations 4 2 (replicate 256 \<lparr>Type = Write, Target = 0\<rparr>) ([(4, 0) \<mapsto> 0], [1]) = Some (W', Counts')"
      "\<forall>k < 256. W' (4, 2 + k) = Some (word_of_nat (1 + k))" "\<forall>k < 2. W' (4, k) = [(4, 0) \<mapsto> 0] (4, k)"
    using number_replicate [of 0 "[1]" 0 4 2 256 "[(4, 0) \<mapsto> 0]"] by (elim exE conjE meta_impE) simp_all
  have "WriteToIndex D = W'" using D(1) num(1) by (auto simp: rd_new_def at_def numeral_2_eq_2)
  then have W: "WriteToIndex D (4, 0) = Some 0" "WriteToIndex D (4, 257) = Some 0"
    using num(3) [rule_format, of 0] num(2) [rule_format, of 255] by simp_all
  have last: "block_ops ?F 4 ! 257 = \<lparr>Type = Write, Target = 0\<rparr>" "length (block_ops ?F 4) = 258" by simp_all
  have dead: "j = 257" if j: "write_at ?F 4 j 0" "write_path True ?F 4 j 0 4" for j
  proof (rule ccontr)
    assume "j \<noteq> 257"
    then have lt: "j < 257" using j(1) last(2) by (simp add: write_at_def)
    then have "drop (Suc j) (block_ops ?F 4) ! (256 - j) = block_ops ?F 4 ! 257" using last(2) by (subst nth_drop) simp_all
    moreover have "256 - j < length (drop (Suc j) (block_ops ?F 4))" using lt last(2) by simp
    ultimately have "\<lparr>Type = Write, Target = 0\<rparr> \<in> set (drop (Suc j) (block_ops ?F 4))" using last(1) nth_mem by metis
    then show False using j(2) unfolding rewriting_path fate_def no_kill_def by auto
  qed
  have "write_at ?F 4 0 0" "write_path False ?F 4 0 0 4" unfolding rewriting_path write_at_def by (simp_all add: fate_def)
  then have read: "(0, False, 0) \<in> facts_at_end (WriteToIndex D) ?F 4"
    using W(1) by (auto simp: facts_at_end_def write_index_def)
  have "i = 0" if "(0, True, i) \<in> facts_at_end (WriteToIndex D) ?F 4" for i
    using that dead W(2) by (auto simp: facts_at_end_def write_index_def)
  then have "0 \<notin> bits list_bits After" unfolding A(2) w(3) using read by blast
  moreover have "write_at ?F 4 257 0" using last by (simp add: write_at_def)
  moreover have "write_path True ?F 4 257 0 4" "\<not> write_path False ?F 4 257 0 4"
    unfolding rewriting_path using last(2) by (simp_all add: fate_def)
  ultimately show ?thesis using R(1) w(1) A(1) by (intro exI [of _ R] exI [of _ "\<lparr>InValue = v, OutValue = w\<rparr>"] exI [of _ After]) simp
qed

end
