(* ===== verification/Register_Usage.thy ===== *)
theory Register_Usage
  imports Liveness_Analysis Reaching_Exact Meta_Address_Text
begin

text \<open>
  \<^verbatim>\<open>efa::analyzeRegisterUsage\<close> (src/lib/EarlyFunctionAnalysis/AnalyzeRegisterUsage.cpp) from the graph
  of register operations on, and its results, \<^verbatim>\<open>RUAResults\<close>
  (src/include/revng/EarlyFunctionAnalysis/AnalyzeRegisterUsage.h): the two analyses are run on the
  function and their values at the entry, at the return node and at the call sites become sets of
  CSVs. The results are shown to be exact.
\<close>

section \<open>Ordered maps\<close>

text \<open>A \<^verbatim>\<open>std::map\<close>: its entries in the order of the keys.\<close>

fun sm_update :: "'k::linorder \<Rightarrow> 'v \<Rightarrow> ('k \<times> 'v) list \<Rightarrow> ('k \<times> 'v) list" where
  "sm_update k v [] = [(k, v)]"
| "sm_update k v ((k', v') # xs) =
     (if k < k' then (k, v) # (k', v') # xs else if k = k' then (k, v) # xs else (k', v') # sm_update k v xs)"

text \<open>\<^verbatim>\<open>m[k]\<close> inserts the default value when the key is missing.\<close>

definition sm_at :: "'v \<Rightarrow> ('k \<times> 'v) list \<Rightarrow> 'k \<Rightarrow> 'v" where
  "sm_at Default m k = (case map_of m k of Some v \<Rightarrow> v | None \<Rightarrow> Default)"

lemma map_of_sm_update [simp]: "map_of (sm_update k v m) = (map_of m)(k \<mapsto> v)"
  by (induction k v m rule: sm_update.induct) auto

lemma keys_sm_update: "fst ` set (sm_update k v m) = insert k (fst ` set m)"
  by (induction k v m rule: sm_update.induct) auto

lemma sm_update_sorted: "sorted_wrt (<) (map fst m) \<Longrightarrow> sorted_wrt (<) (map fst (sm_update k v m))"
proof (induction k v m rule: sm_update.induct)
  case (2 k v k' v' xs)
  then show ?case using keys_sm_update [of k v xs] by (force intro: less_trans)
qed simp

section \<open>Functions to analyze and results\<close>

record CallSite =
  CallSite_Block :: ptr
  Callee :: MetaAddress

definition CallSite_default :: CallSite where
  "CallSite_default = \<lparr>CallSite_Block = nullptr, Callee = ma_invalid\<rparr>"

definition setCallee :: "MetaAddress \<Rightarrow> CallSite \<Rightarrow> CallSite checked" where
  "setCallee C S =
     (if ma_isValid (Callee S) then do { revng_assert (Callee S = C); Some S }
      else Some (S\<lparr>Callee := C\<rparr>))"

record 'c FunctionToAnalyze =
  fta_Function :: "'c Function"
  fta_CallSites :: "(BasicBlockID \<times> CallSite) list"
  ReturnNode :: ptr
  SinkNode :: ptr

record 'c CallSiteResults =
  CalleeAddress :: MetaAddress
  cs_ArgumentsRegisters :: "'c set"
  cs_ReturnValuesRegisters :: "'c set"

record 'c RUAResults =
  ArgumentsRegisters :: "'c set"
  ReturnValuesRegisters :: "'c set"
  CallSites :: "(BasicBlockID \<times> 'c CallSiteResults) list"

definition CallSiteResults_default :: "'c CallSiteResults" where
  "CallSiteResults_default = \<lparr>CalleeAddress = ma_invalid, cs_ArgumentsRegisters = {}, cs_ReturnValuesRegisters = {}\<rparr>"

definition RUAResults_default :: "'c RUAResults" where
  "RUAResults_default = \<lparr>ArgumentsRegisters = {}, ReturnValuesRegisters = {}, CallSites = []\<rparr>"

fun combine_call_sites ::
  "(BasicBlockID \<times> 'c CallSiteResults) list \<Rightarrow> (BasicBlockID \<times> 'c CallSiteResults) list
    \<Rightarrow> (BasicBlockID \<times> 'c CallSiteResults) list" where
  "combine_call_sites [] This = This"
| "combine_call_sites ((OtherBlockID, OtherResults) # Rest) This =
     (let Old = sm_at CallSiteResults_default This OtherBlockID in
      combine_call_sites Rest (sm_update OtherBlockID
        (Old\<lparr>cs_ArgumentsRegisters := cs_ArgumentsRegisters Old \<union> cs_ArgumentsRegisters OtherResults,
             cs_ReturnValuesRegisters := cs_ReturnValuesRegisters Old \<union> cs_ReturnValuesRegisters OtherResults\<rparr>) This))"

definition combine_results :: "'c RUAResults \<Rightarrow> 'c RUAResults \<Rightarrow> 'c RUAResults" where
  "combine_results Other This =
     This\<lparr>ArgumentsRegisters := ArgumentsRegisters This \<union> ArgumentsRegisters Other,
          ReturnValuesRegisters := ReturnValuesRegisters This \<union> ReturnValuesRegisters Other,
          CallSites := combine_call_sites (CallSites Other) (CallSites This)\<rparr>"

section \<open>Running the analyses\<close>

definition registers_in :: "'v BitVector_ops \<Rightarrow> 'c Function \<Rightarrow> 'v \<Rightarrow> 'c set checked" where
  "registers_in B F v = map_option set (csvsInSet B F v)"

fun live_after_calls ::
  "'v BitVector_ops \<Rightarrow> 'c Function \<Rightarrow> (ptr \<rightharpoonup> 'v MFPResult) \<Rightarrow> (BasicBlockID \<times> CallSite) list
    \<Rightarrow> (BasicBlockID \<times> 'c CallSiteResults) list \<Rightarrow> (BasicBlockID \<times> 'c CallSiteResults) list checked" where
  "live_after_calls B F Analysis [] Results = Some Results"
| "live_after_calls B F Analysis ((PC, CallSite) # Rest) Results = do {
     let Old = sm_at CallSiteResults_default Results PC;
     Result \<leftarrow> Analysis (CallSite_Block CallSite);
     CSVs \<leftarrow> registers_in B F (InValue Result);
     live_after_calls B F Analysis Rest (sm_update PC
       (Old\<lparr>CalleeAddress := Callee CallSite,
            cs_ReturnValuesRegisters := cs_ReturnValuesRegisters Old \<union> CSVs\<rparr>) Results) }"

definition rd_Compute ::
  "'v BitVector_ops \<Rightarrow> (ptr \<rightharpoonup> 'v WritersSet MFPResult) \<Rightarrow> ptr \<Rightarrow> ptr \<Rightarrow> bool \<Rightarrow> 'v checked" where
  "rd_Compute B Analysis Sink Node AtEntry = do {
     SinkResults \<leftarrow> Analysis Sink;
     NodeResults \<leftarrow> Analysis Node;
     rd_compute B (if AtEntry then InValue NodeResults else OutValue NodeResults) (OutValue SinkResults) }"

fun unread_before_calls ::
  "'v BitVector_ops \<Rightarrow> 'c Function \<Rightarrow> (ptr \<rightharpoonup> 'v WritersSet MFPResult) \<Rightarrow> ptr \<Rightarrow> (BasicBlockID \<times> CallSite) list
    \<Rightarrow> (BasicBlockID \<times> 'c CallSiteResults) list \<Rightarrow> (BasicBlockID \<times> 'c CallSiteResults) list checked" where
  "unread_before_calls B F Analysis Sink [] Results = Some Results"
| "unread_before_calls B F Analysis Sink ((PC, CallSite) # Rest) Results = do {
     let Old = sm_at CallSiteResults_default Results PC;
     v \<leftarrow> rd_Compute B Analysis Sink (CallSite_Block CallSite) True;
     CSVs \<leftarrow> registers_in B F v;
     unread_before_calls B F Analysis Sink Rest (sm_update PC
       (Old\<lparr>CalleeAddress := Callee CallSite,
            cs_ArgumentsRegisters := cs_ArgumentsRegisters Old \<union> CSVs\<rparr>) Results) }"

text \<open>\<open>po\<close> and \<open>po_inverse\<close> are the post-order iterators on the graph and on its inverse.\<close>

definition analyzeFunction ::
  "'v BitVector_ops \<Rightarrow> (ptr \<Rightarrow> ptr set \<Rightarrow> ptr list \<times> ptr set) \<Rightarrow> (ptr \<Rightarrow> ptr set \<Rightarrow> ptr list \<times> ptr set)
    \<Rightarrow> 'c FunctionToAnalyze \<Rightarrow> 'c RUAResults checked" where
  "analyzeFunction B po_inverse po A = do {
     let F = fta_Function A;
     Live \<leftarrow> liveness_analysis B po_inverse F (ReturnNode A);
     EntryResult \<leftarrow> Live (EntryNode (Graph F));
     Arguments \<leftarrow> registers_in B F (OutValue EntryResult);
     AfterCalls \<leftarrow> live_after_calls B F Live (fta_CallSites A) (CallSites RUAResults_default);
     Definitions \<leftarrow> rd_analysis B po F;
     ExitResult \<leftarrow> rd_Compute B Definitions (SinkNode A) (ReturnNode A) False;
     ReturnValues \<leftarrow> registers_in B F ExitResult;
     Sites \<leftarrow> unread_before_calls B F Definitions (SinkNode A) (fta_CallSites A) AfterCalls;
     Some \<lparr>ArgumentsRegisters = Arguments, ReturnValuesRegisters = ReturnValues, CallSites = Sites\<rparr> }"

section \<open>The CSVs of a set of registers\<close>

definition csv_named :: "'c Function \<Rightarrow> nat \<Rightarrow> 'c option" where
  "csv_named F r = IndexToCSV F (word_of_nat r)"

lemma csvs_loop_correct:
  "\<forall>r \<in> set rs. csv_named F r \<noteq> None \<Longrightarrow>
    \<exists>cs. csvs_loop F rs = Some cs \<and> set cs = {c. \<exists>r \<in> set rs. csv_named F r = Some c}"
proof (induction rs)
  case (Cons r rs)
  obtain c where c: "csv_named F r = Some c" using Cons.prems by auto
  obtain cs where cs: "csvs_loop F rs = Some cs" "set cs = {c. \<exists>r \<in> set rs. csv_named F r = Some c}"
    using Cons by auto
  have "csvs_loop F (r # rs) = Some (c # cs)" using c cs(1) by (simp add: csvByIndex_def csv_named_def)
  moreover have "set (c # cs) = {c. \<exists>r \<in> set (r # rs). csv_named F r = Some c}" using c cs(2) by auto
  ultimately show ?case by blast
qed simp

lemma csv_named_bound:
  assumes "csv_wf F" "r < unat (csvCount F)"
  shows "csv_named F r \<noteq> None"
proof -
  have "unat (csvCount F) \<le> card (dom (IndexToCSV F))" by (simp add: csvCount_def unat_of_nat)
  then have "word_of_nat r \<in> word_of_nat ` {..<card (dom (IndexToCSV F))}" using assms(2) by simp
  moreover have "dom (IndexToCSV F) = word_of_nat ` {..<card (dom (IndexToCSV F))}" using assms(1) by (simp only: csv_wf_def)
  ultimately have "word_of_nat r \<in> dom (IndexToCSV F)" by (rule ssubst [rotated])
  then show ?thesis by (auto simp: csv_named_def)
qed

lemma registers_in_correct:
  assumes "csv_wf F" "bits B v \<subseteq> {..<unat (csvCount F)}"
  shows "registers_in B F v = Some {c. \<exists>r \<in> bits B v. csv_named F r = Some c}"
proof -
  have "\<forall>r \<in> bits B v. csv_named F r \<noteq> None" using assms csv_named_bound by blast
  from csvs_loop_correct [OF this] show ?thesis by (auto simp: registers_in_def csvsInSet_def)
qed

section \<open>The loops over the call sites\<close>

lemma live_after_calls_correct:
  assumes "\<forall>CS \<in> snd ` set Sites. \<exists>R. Analysis (CallSite_Block CS) = Some R \<and> registers_in B F (InValue R) = Some (X CS)"
    "distinct (map fst Sites)"
  shows "\<exists>Res. live_after_calls B F Analysis Sites Results = Some Res
    \<and> (\<forall>PC. map_of Res PC = (case map_of Sites PC of None \<Rightarrow> map_of Results PC
         | Some CS \<Rightarrow> Some ((sm_at CallSiteResults_default Results PC)\<lparr>CalleeAddress := Callee CS,
             cs_ReturnValuesRegisters := cs_ReturnValuesRegisters (sm_at CallSiteResults_default Results PC) \<union> X CS\<rparr>)))"
  using assms
proof (induction Sites arbitrary: Results)
  case (Cons site Sites)
  obtain PC CS where site: "site = (PC, CS)" by (cases site)
  obtain R where R: "Analysis (CallSite_Block CS) = Some R" "registers_in B F (InValue R) = Some (X CS)"
    using Cons.prems(1) unfolding site by auto
  let ?New = "(sm_at CallSiteResults_default Results PC)\<lparr>CalleeAddress := Callee CS,
      cs_ReturnValuesRegisters := cs_ReturnValuesRegisters (sm_at CallSiteResults_default Results PC) \<union> X CS\<rparr>"
  have rest: "\<forall>CS \<in> snd ` set Sites. \<exists>R. Analysis (CallSite_Block CS) = Some R \<and> registers_in B F (InValue R) = Some (X CS)"
    using Cons.prems(1) by simp
  have keys: "distinct (map fst Sites)" using Cons.prems(2) by simp
  obtain Res where Res: "live_after_calls B F Analysis Sites (sm_update PC ?New Results) = Some Res"
    "\<forall>PC'. map_of Res PC' = (case map_of Sites PC' of None \<Rightarrow> map_of (sm_update PC ?New Results) PC'
         | Some CS \<Rightarrow> Some ((sm_at CallSiteResults_default (sm_update PC ?New Results) PC')\<lparr>CalleeAddress := Callee CS,
             cs_ReturnValuesRegisters := cs_ReturnValuesRegisters (sm_at CallSiteResults_default (sm_update PC ?New Results) PC') \<union> X CS\<rparr>))"
    using Cons.IH [OF rest keys, of "sm_update PC ?New Results"] by blast
  have "live_after_calls B F Analysis (site # Sites) Results = Some Res" using R Res(1) by (simp add: site Let_def)
  moreover have "map_of Sites PC = None" using Cons.prems(2) by (simp add: site map_of_eq_None_iff)
  ultimately show ?case using Res(2) by (intro exI [of _ Res] conjI allI) (auto simp: site sm_at_def split: option.split)
qed simp

lemma unread_before_calls_correct:
  assumes "\<forall>CS \<in> snd ` set Sites.
      \<exists>v. rd_Compute B Analysis Sink (CallSite_Block CS) True = Some v \<and> registers_in B F v = Some (X CS)"
    "distinct (map fst Sites)"
  shows "\<exists>Res. unread_before_calls B F Analysis Sink Sites Results = Some Res
    \<and> (\<forall>PC. map_of Res PC = (case map_of Sites PC of None \<Rightarrow> map_of Results PC
         | Some CS \<Rightarrow> Some ((sm_at CallSiteResults_default Results PC)\<lparr>CalleeAddress := Callee CS,
             cs_ArgumentsRegisters := cs_ArgumentsRegisters (sm_at CallSiteResults_default Results PC) \<union> X CS\<rparr>)))"
  using assms
proof (induction Sites arbitrary: Results)
  case (Cons site Sites)
  obtain PC CS where site: "site = (PC, CS)" by (cases site)
  obtain v where v: "rd_Compute B Analysis Sink (CallSite_Block CS) True = Some v" "registers_in B F v = Some (X CS)"
    using Cons.prems(1) unfolding site by auto
  let ?New = "(sm_at CallSiteResults_default Results PC)\<lparr>CalleeAddress := Callee CS,
      cs_ArgumentsRegisters := cs_ArgumentsRegisters (sm_at CallSiteResults_default Results PC) \<union> X CS\<rparr>"
  have rest: "\<forall>CS \<in> snd ` set Sites.
      \<exists>v. rd_Compute B Analysis Sink (CallSite_Block CS) True = Some v \<and> registers_in B F v = Some (X CS)"
    using Cons.prems(1) by simp
  have keys: "distinct (map fst Sites)" using Cons.prems(2) by simp
  obtain Res where Res: "unread_before_calls B F Analysis Sink Sites (sm_update PC ?New Results) = Some Res"
    "\<forall>PC'. map_of Res PC' = (case map_of Sites PC' of None \<Rightarrow> map_of (sm_update PC ?New Results) PC'
         | Some CS \<Rightarrow> Some ((sm_at CallSiteResults_default (sm_update PC ?New Results) PC')\<lparr>CalleeAddress := Callee CS,
             cs_ArgumentsRegisters := cs_ArgumentsRegisters (sm_at CallSiteResults_default (sm_update PC ?New Results) PC') \<union> X CS\<rparr>))"
    using Cons.IH [OF rest keys, of "sm_update PC ?New Results"] by blast
  have "unread_before_calls B F Analysis Sink (site # Sites) Results = Some Res" using v Res(1) by (simp add: site Let_def)
  moreover have "map_of Sites PC = None" using Cons.prems(2) by (simp add: site map_of_eq_None_iff)
  ultimately show ?case using Res(2) by (intro exI [of _ Res] conjI allI) (auto simp: site sm_at_def split: option.split)
qed simp

lemma combine_call_sites_correct:
  "distinct (map fst Other) \<Longrightarrow> map_of (combine_call_sites Other This) PC =
    (case map_of Other PC of None \<Rightarrow> map_of This PC
     | Some Oth \<Rightarrow> (let T = sm_at CallSiteResults_default This PC in
         Some (T\<lparr>cs_ArgumentsRegisters := cs_ArgumentsRegisters T \<union> cs_ArgumentsRegisters Oth,
                 cs_ReturnValuesRegisters := cs_ReturnValuesRegisters T \<union> cs_ReturnValuesRegisters Oth\<rparr>)))"
proof (induction Other This rule: combine_call_sites.induct)
  case (2 k Oth Rest This)
  then have "map_of Rest k = None" by (simp add: map_of_eq_None_iff)
  then show ?case using 2 by (simp add: Let_def sm_at_def split: option.split)
qed simp

section \<open>The registers the analyses find are registers of the function\<close>

lemma first_access_mem: "first_access Ops r = Some t \<Longrightarrow> \<exists>Op \<in> set Ops. unat (Target Op) = r"
  by (induction Ops) (auto split: if_splits)

lemma path_nodes:
  assumes "graph_wf (Graph F)"
  shows "is_path (successors_of (Heap (Graph F))) p \<Longrightarrow> (p \<noteq> [] \<Longrightarrow> hd p \<in> set (Nodes (Graph F))) \<Longrightarrow> set p \<subseteq> set (Nodes (Graph F))"
  using graph_wf_links(1) [OF assms] by (induction "successors_of (Heap (Graph F))" p rule: is_path.induct) auto

lemma live_counted:
  assumes "function_wf F" "targets_counted F" "b \<in> set (Nodes (Graph F))" "live F b r"
  shows "r < unat (csvCount F)"
proof -
  obtain p where p: "is_path (successors_of (Heap (Graph F))) (b # p)" "first_access (path_ops F (b # p)) r = Some Read"
    using assms(4) by (auto simp: live_def)
  have "set (b # p) \<subseteq> set (Nodes (Graph F))"
    by (rule path_nodes) (use assms(1,3) p(1) in \<open>simp_all add: function_wf_def\<close>)
  then have "set (path_ops F (b # p)) \<subseteq> set (all_operations F)" by (auto simp: path_ops_def all_operations_def)
  then show ?thesis using first_access_mem [OF p(2)] assms(2) by (auto simp: targets_counted_def)
qed

lemma write_counted:
  assumes "targets_counted F" "a \<in> set (Nodes (Graph F))" "write_at F a j r"
  shows "r < unat (csvCount F)"
proof -
  have "block_ops F a ! j \<in> set (all_operations F)"
    using assms(3) block_ops_subset [OF assms(2)] nth_mem [of j "block_ops F a"] by (auto simp: write_at_def)
  then show ?thesis using assms(1,3) by (auto simp: targets_counted_def write_at_def)
qed

section \<open>The results\<close>

text \<open>What the construction of the graph provides.\<close>

definition fta_wf :: "'c FunctionToAnalyze \<Rightarrow> bool" where
  "fta_wf A \<longleftrightarrow> (let F = fta_Function A in
     function_wf F \<and> csv_wf F \<and> targets_counted F
     \<and> {EntryNode (Graph F), ReturnNode A, SinkNode A} \<subseteq> set (Nodes (Graph F))
     \<and> (\<forall>(PC, CS) \<in> set (fta_CallSites A). CallSite_Block CS \<in> set (Nodes (Graph F)))
     \<and> distinct (map fst (fta_CallSites A)))"

text \<open>
  The CSVs that some path from the block reads before it changes them, and those with a write that
  satisfies \<open>P\<close> and that no path to the end of the sink reads before the next change.
\<close>

definition live_csvs :: "'c Function \<Rightarrow> ptr \<Rightarrow> 'c set" where
  "live_csvs F b = {c. \<exists>r. csv_named F r = Some c \<and> live F b r}"

definition unread_csvs :: "'c Function \<Rightarrow> ptr \<Rightarrow> (ptr \<Rightarrow> nat \<Rightarrow> nat \<Rightarrow> bool) \<Rightarrow> 'c set" where
  "unread_csvs F Sink P = {c. \<exists>r a j. csv_named F r = Some c \<and> a \<in> set (Nodes (Graph F)) \<and> write_at F a j r
     \<and> P a j r \<and> \<not> write_path False F a j r Sink}"

lemma fta_wfD:
  assumes "fta_wf A"
  shows "function_wf (fta_Function A)" "csv_wf (fta_Function A)" "targets_counted (fta_Function A)"
    "EntryNode (Graph (fta_Function A)) \<in> set (Nodes (Graph (fta_Function A)))"
    "ReturnNode A \<in> set (Nodes (Graph (fta_Function A)))" "SinkNode A \<in> set (Nodes (Graph (fta_Function A)))"
    "(PC, CS) \<in> set (fta_CallSites A) \<Longrightarrow> CallSite_Block CS \<in> set (Nodes (Graph (fta_Function A)))"
    "distinct (map fst (fta_CallSites A))"
  using assms by (auto simp: fta_wf_def Let_def)

lemma liveness_results:
  assumes "bit_vector B" "post_order_graph (GraphTraits_Inverse po_inverse (Graph (fta_Function A)))" "fta_wf A"
  shows "\<exists>Live. liveness_analysis B po_inverse (fta_Function A) Ret = Some Live
    \<and> (\<forall>b \<in> set (Nodes (Graph (fta_Function A))). \<exists>R. Live b = Some R
         \<and> registers_in B (fta_Function A) (OutValue R) = Some (live_csvs (fta_Function A) b)
         \<and> registers_in B (fta_Function A) (InValue R)
             = Some (\<Union>s \<in> set (successors_of (Heap (Graph (fta_Function A))) b). live_csvs (fta_Function A) s))"
proof -
  let ?F = "fta_Function A" and ?N = "set (Nodes (Graph (fta_Function A)))"
  note wf = fta_wfD [OF assms(3)]
  have gwf: "graph_wf (Graph ?F)" using wf(1) by (simp add: function_wf_def)
  obtain Live where Live: "liveness_analysis B po_inverse ?F Ret = Some Live"
    "\<And>b. b \<in> ?N \<Longrightarrow> \<exists>v w. Live b = Some \<lparr>InValue = v, OutValue = w\<rparr>
         \<and> bits B v = {r. \<exists>s \<in> set (successors_of (Heap (Graph ?F)) b). live ?F s r} \<and> bits B w = {r. live ?F b r}"
    using liveness_run.liveness_analysis_exact [OF liveness_run.intro [OF assms(1) liveness_run_axioms.intro [OF wf(1) assms(2)]], of Ret]
    by blast
  have "\<exists>R. Live b = Some R \<and> registers_in B ?F (OutValue R) = Some (live_csvs ?F b)
      \<and> registers_in B ?F (InValue R) = Some (\<Union>s \<in> set (successors_of (Heap (Graph ?F)) b). live_csvs ?F s)" if b: "b \<in> ?N" for b
  proof -
    obtain v w where vw: "Live b = Some \<lparr>InValue = v, OutValue = w\<rparr>"
        "bits B v = {r. \<exists>s \<in> set (successors_of (Heap (Graph ?F)) b). live ?F s r}" "bits B w = {r. live ?F b r}"
      using Live(2) [OF b] by (elim exE conjE)
    have "bits B w \<subseteq> {..<unat (csvCount ?F)}" using live_counted [OF wf(1,3) b] unfolding vw(3) by blast
    note w = registers_in_correct [OF wf(2) this]
    have "bits B v \<subseteq> {..<unat (csvCount ?F)}"
      using live_counted [OF wf(1,3)] graph_wf_links(1) [OF gwf, of b] unfolding vw(2) by blast
    note v = registers_in_correct [OF wf(2) this]
    have "{c. \<exists>r \<in> bits B w. csv_named ?F r = Some c} = live_csvs ?F b" unfolding vw(3) live_csvs_def by blast
    moreover have "{c. \<exists>r \<in> bits B v. csv_named ?F r = Some c} = (\<Union>s \<in> set (successors_of (Heap (Graph ?F)) b). live_csvs ?F s)"
      unfolding vw(2) live_csvs_def by blast
    ultimately show ?thesis using vw(1) v w by simp
  qed
  then show ?thesis using Live(1) by (intro exI [of _ Live] conjI ballI)
qed

text \<open>The same for the reaching definitions, at the two points \<^verbatim>\<open>analyzeRegisterUsage\<close> reads.\<close>

lemma reaching_results:
  assumes "bit_vector B" "post_order_graph (GraphTraits po (Graph (fta_Function A)))" "fta_wf A"
    "\<And>r. write_count r (all_operations (fta_Function A)) \<le> 256"
  shows "\<exists>Definitions. rd_analysis B po (fta_Function A) = Some Definitions
    \<and> (\<forall>b \<in> set (Nodes (Graph (fta_Function A))). \<exists>After Bef.
         rd_Compute B Definitions (SinkNode A) b False = Some After \<and> rd_Compute B Definitions (SinkNode A) b True = Some Bef
         \<and> registers_in B (fta_Function A) After
             = Some (unread_csvs (fta_Function A) (SinkNode A) (\<lambda>a j r. write_path True (fta_Function A) a j r b))
         \<and> registers_in B (fta_Function A) Bef
             = Some (unread_csvs (fta_Function A) (SinkNode A) (\<lambda>a j r.
                 \<exists>k. b \<in> set (successors_of (Heap (Graph (fta_Function A))) k) \<and> write_path True (fta_Function A) a j r k)))"
proof -
  let ?F = "fta_Function A" and ?N = "set (Nodes (Graph (fta_Function A)))" and ?S = "SinkNode A"
  note wf = fta_wfD [OF assms(3)]
  obtain R where R: "rd_analysis B po ?F = Some R"
    "\<And>b. b \<in> ?N \<Longrightarrow> \<exists>Rb Rs Bef After. R b = Some Rb \<and> R ?S = Some Rs
         \<and> rd_compute B (InValue Rb) (OutValue Rs) = Some Bef \<and> rd_compute B (OutValue Rb) (OutValue Rs) = Some After
         \<and> bits B After = {r. \<exists>a j. a \<in> ?N \<and> write_at ?F a j r \<and> write_path True ?F a j r b \<and> \<not> write_path False ?F a j r ?S}
         \<and> bits B Bef = {r. \<exists>a j. a \<in> ?N \<and> write_at ?F a j r
              \<and> (\<exists>k. b \<in> set (successors_of (Heap (Graph ?F)) k) \<and> write_path True ?F a j r k) \<and> \<not> write_path False ?F a j r ?S}"
    using unread_registers [OF assms(1,2) wf(1,3) assms(4)] wf(6) by blast
  have sets: "registers_in B ?F v = Some (unread_csvs ?F ?S P)"
    if "bits B v = {r. \<exists>a j. a \<in> ?N \<and> write_at ?F a j r \<and> P a j r \<and> \<not> write_path False ?F a j r ?S}" for v P
  proof -
    have "bits B v \<subseteq> {..<unat (csvCount ?F)}" using write_counted [OF wf(3)] unfolding that by blast
    moreover have "{c. \<exists>r \<in> bits B v. csv_named ?F r = Some c} = unread_csvs ?F ?S P" unfolding that unread_csvs_def by blast
    ultimately show ?thesis using registers_in_correct [OF wf(2), of B v] by simp
  qed
  have "\<exists>After Bef. rd_Compute B R ?S b False = Some After \<and> rd_Compute B R ?S b True = Some Bef
      \<and> registers_in B ?F After = Some (unread_csvs ?F ?S (\<lambda>a j r. write_path True ?F a j r b))
      \<and> registers_in B ?F Bef = Some (unread_csvs ?F ?S (\<lambda>a j r.
          \<exists>k. b \<in> set (successors_of (Heap (Graph ?F)) k) \<and> write_path True ?F a j r k))" if b: "b \<in> ?N" for b
  proof -
    obtain Rb Rs Bef After where *: "R b = Some Rb" "R ?S = Some Rs"
        "rd_compute B (InValue Rb) (OutValue Rs) = Some Bef" "rd_compute B (OutValue Rb) (OutValue Rs) = Some After"
        "bits B After = {r. \<exists>a j. a \<in> ?N \<and> write_at ?F a j r \<and> write_path True ?F a j r b \<and> \<not> write_path False ?F a j r ?S}"
        "bits B Bef = {r. \<exists>a j. a \<in> ?N \<and> write_at ?F a j r
              \<and> (\<exists>k. b \<in> set (successors_of (Heap (Graph ?F)) k) \<and> write_path True ?F a j r k) \<and> \<not> write_path False ?F a j r ?S}"
      using R(2) [OF b] by (elim exE conjE)
    show ?thesis using *(1-4) sets [OF *(5)] sets [OF *(6)]
      by (intro exI [of _ After] exI [of _ Bef]) (simp add: rd_Compute_def)
  qed
  then show ?thesis using R(1) by (intro exI [of _ R] conjI ballI)
qed

text \<open>
  The results of a function are exact: the argument registers are those that some path from the
  entry reads before it changes them, the return value registers those with a write that reaches
  the end of the return node and that no path to the sink reads; a call site has, as return values,
  the registers that are live after its block and, as arguments, those with such an unread write
  that reaches its block, with the callee recorded for it.
\<close>

lemma analyzeFunction_exact:
  assumes "bit_vector B" "post_order_graph (GraphTraits_Inverse po_inverse (Graph (fta_Function A)))"
    "post_order_graph (GraphTraits po (Graph (fta_Function A)))" "fta_wf A"
    "\<And>r. write_count r (all_operations (fta_Function A)) \<le> 256"
  shows "\<exists>Res. analyzeFunction B po_inverse po A = Some Res
    \<and> ArgumentsRegisters Res = live_csvs (fta_Function A) (EntryNode (Graph (fta_Function A)))
    \<and> ReturnValuesRegisters Res = unread_csvs (fta_Function A) (SinkNode A)
        (\<lambda>a j r. write_path True (fta_Function A) a j r (ReturnNode A))
    \<and> (\<forall>PC. map_of (CallSites Res) PC = map_option (\<lambda>CS.
        \<lparr>CalleeAddress = Callee CS,
         cs_ArgumentsRegisters = unread_csvs (fta_Function A) (SinkNode A) (\<lambda>a j r.
           \<exists>k. CallSite_Block CS \<in> set (successors_of (Heap (Graph (fta_Function A))) k) \<and> write_path True (fta_Function A) a j r k),
         cs_ReturnValuesRegisters =
           (\<Union>s \<in> set (successors_of (Heap (Graph (fta_Function A))) (CallSite_Block CS)). live_csvs (fta_Function A) s)\<rparr>)
        (map_of (fta_CallSites A) PC))"
proof -
  let ?F = "fta_Function A" and ?N = "set (Nodes (Graph (fta_Function A)))"
  note wf = fta_wfD [OF assms(4)]
  obtain Live where Live: "liveness_analysis B po_inverse ?F (ReturnNode A) = Some Live"
    "\<And>b. b \<in> ?N \<Longrightarrow> \<exists>R. Live b = Some R \<and> registers_in B ?F (OutValue R) = Some (live_csvs ?F b)
         \<and> registers_in B ?F (InValue R) = Some (\<Union>s \<in> set (successors_of (Heap (Graph ?F)) b). live_csvs ?F s)"
    using liveness_results [OF assms(1,2,4), of "ReturnNode A"] by blast
  obtain Defs where Defs: "rd_analysis B po ?F = Some Defs"
    "\<And>b. b \<in> ?N \<Longrightarrow> \<exists>After Bef.
         rd_Compute B Defs (SinkNode A) b False = Some After \<and> rd_Compute B Defs (SinkNode A) b True = Some Bef
         \<and> registers_in B ?F After = Some (unread_csvs ?F (SinkNode A) (\<lambda>a j r. write_path True ?F a j r b))
         \<and> registers_in B ?F Bef = Some (unread_csvs ?F (SinkNode A) (\<lambda>a j r.
                 \<exists>k. b \<in> set (successors_of (Heap (Graph ?F)) k) \<and> write_path True ?F a j r k))"
    using reaching_results [OF assms(1,3,4,5)] by blast
  have site: "CallSite_Block CS \<in> ?N" if "CS \<in> snd ` set (fta_CallSites A)" for CS using that wf(7) by auto
  let ?live = "\<lambda>CS. \<Union>s \<in> set (successors_of (Heap (Graph ?F)) (CallSite_Block CS)). live_csvs ?F s"
  let ?unread = "\<lambda>CS. unread_csvs ?F (SinkNode A) (\<lambda>a j r.
      \<exists>k. CallSite_Block CS \<in> set (successors_of (Heap (Graph ?F)) k) \<and> write_path True ?F a j r k)"
  have L: "\<forall>CS \<in> snd ` set (fta_CallSites A). \<exists>R. Live (CallSite_Block CS) = Some R \<and> registers_in B ?F (InValue R) = Some (?live CS)"
    using Live(2) [OF site] by blast
  have D: "\<forall>CS \<in> snd ` set (fta_CallSites A). \<exists>v. rd_Compute B Defs (SinkNode A) (CallSite_Block CS) True = Some v \<and> registers_in B ?F v = Some (?unread CS)"
    using Defs(2) [OF site] by blast
  obtain Sites1 where 1: "live_after_calls B ?F Live (fta_CallSites A) [] = Some Sites1"
    "\<And>PC. map_of Sites1 PC = (case map_of (fta_CallSites A) PC of None \<Rightarrow> map_of [] PC
       | Some CS \<Rightarrow> Some ((sm_at CallSiteResults_default [] PC)\<lparr>CalleeAddress := Callee CS,
           cs_ReturnValuesRegisters := cs_ReturnValuesRegisters (sm_at CallSiteResults_default [] PC) \<union> ?live CS\<rparr>))"
    using live_after_calls_correct [where X = ?live and Results = "[]", OF L wf(8)] by (elim exE conjE) (rule that, assumption, erule spec)
  obtain Sites2 where 2: "unread_before_calls B ?F Defs (SinkNode A) (fta_CallSites A) Sites1 = Some Sites2"
    "\<And>PC. map_of Sites2 PC = (case map_of (fta_CallSites A) PC of None \<Rightarrow> map_of Sites1 PC
         | Some CS \<Rightarrow> Some ((sm_at CallSiteResults_default Sites1 PC)\<lparr>CalleeAddress := Callee CS,
             cs_ArgumentsRegisters := cs_ArgumentsRegisters (sm_at CallSiteResults_default Sites1 PC) \<union> ?unread CS\<rparr>))"
    using unread_before_calls_correct [where X = ?unread and Results = Sites1, OF D wf(8)] by (elim exE conjE) (rule that, assumption, erule spec)
  obtain RE where RE: "Live (EntryNode (Graph ?F)) = Some RE"
      "registers_in B ?F (OutValue RE) = Some (live_csvs ?F (EntryNode (Graph ?F)))"
    using Live(2) [OF wf(4)] by (elim exE conjE)
  obtain After where After: "rd_Compute B Defs (SinkNode A) (ReturnNode A) False = Some After"
      "registers_in B ?F After = Some (unread_csvs ?F (SinkNode A) (\<lambda>a j r. write_path True ?F a j r (ReturnNode A)))"
    using Defs(2) [OF wf(5)] by (elim exE conjE)
  have "analyzeFunction B po_inverse po A = Some \<lparr>ArgumentsRegisters = live_csvs ?F (EntryNode (Graph ?F)),
      ReturnValuesRegisters = unread_csvs ?F (SinkNode A) (\<lambda>a j r. write_path True ?F a j r (ReturnNode A)), CallSites = Sites2\<rparr>"
    using Live(1) RE 1(1) Defs(1) After 2(1) by (simp add: analyzeFunction_def Let_def RUAResults_default_def)
  then show ?thesis
    by (intro exI conjI) (assumption, simp_all add: 1(2) 2(2) sm_at_def CallSiteResults_default_def split: option.split)
qed

section \<open>Combination of results\<close>

text \<open>
  \<^bold>\<open>Fact\<close>. Combining results adds the registers of the other results, site by site; it does not take
  over the callee of a call site that was missing, which stays invalid.
\<close>

theorem rua_combine_correct:
  assumes "distinct (map fst (CallSites Other))"
  shows "ArgumentsRegisters (combine_results Other This) = ArgumentsRegisters This \<union> ArgumentsRegisters Other
    \<and> ReturnValuesRegisters (combine_results Other This) = ReturnValuesRegisters This \<union> ReturnValuesRegisters Other
    \<and> map_of (CallSites (combine_results Other This)) PC =
        (case (map_of (CallSites This) PC, map_of (CallSites Other) PC) of
           (T, None) \<Rightarrow> T
         | (None, Some S) \<Rightarrow> Some (S\<lparr>CalleeAddress := ma_invalid\<rparr>)
         | (Some T, Some S) \<Rightarrow> Some \<lparr>CalleeAddress = CalleeAddress T,
             cs_ArgumentsRegisters = cs_ArgumentsRegisters T \<union> cs_ArgumentsRegisters S,
             cs_ReturnValuesRegisters = cs_ReturnValuesRegisters T \<union> cs_ReturnValuesRegisters S\<rparr>)"
  using combine_call_sites_correct [OF assms, of "CallSites This" PC]
  by (auto simp: combine_results_def Let_def sm_at_def CallSiteResults_default_def split: option.splits)

end
