(* ===== verification/Register_Model.thy ===== *)
theory Register_Model
  imports Meta_Address_Text "HOL-Library.Sublist" "HOL-Library.Multiset"
begin

text \<open>
  \<^verbatim>\<open>namespace model::Register\<close> (src/include/revng/Model/Register.h, src/lib/Model/Register.cpp): the
  registers, their tables, and the CSVs, the LLVM globals that hold slices of the state of the
  processor, that compose them. Names and CSVs are shown to determine the registers.
\<close>

section \<open>The enumeration\<close>

text \<open>
  The enumerators, in the order of src/include/revng/Model/model-schema.yml, are numbers of the
  underlying type \<^verbatim>\<open>uint8_t\<close>: \<^verbatim>\<open>Invalid\<close> is 0 and \<^verbatim>\<open>Count\<close> follows the last one.
\<close>

type_synonym Register = nat

abbreviation (input) Register_Invalid :: Register where "Register_Invalid \<equiv> 0"
abbreviation (input) eax_x86 :: Register where "eax_x86 \<equiv> 1"
abbreviation (input) ebx_x86 :: Register where "ebx_x86 \<equiv> 2"
abbreviation (input) ecx_x86 :: Register where "ecx_x86 \<equiv> 3"
abbreviation (input) edx_x86 :: Register where "edx_x86 \<equiv> 4"
abbreviation (input) esi_x86 :: Register where "esi_x86 \<equiv> 5"
abbreviation (input) edi_x86 :: Register where "edi_x86 \<equiv> 6"
abbreviation (input) ebp_x86 :: Register where "ebp_x86 \<equiv> 7"
abbreviation (input) esp_x86 :: Register where "esp_x86 \<equiv> 8"
abbreviation (input) st0_x86 :: Register where "st0_x86 \<equiv> 9"
abbreviation (input) zmm0_x86 :: Register where "zmm0_x86 \<equiv> 10"
abbreviation (input) zmm1_x86 :: Register where "zmm1_x86 \<equiv> 11"
abbreviation (input) zmm2_x86 :: Register where "zmm2_x86 \<equiv> 12"
abbreviation (input) zmm3_x86 :: Register where "zmm3_x86 \<equiv> 13"
abbreviation (input) zmm4_x86 :: Register where "zmm4_x86 \<equiv> 14"
abbreviation (input) zmm5_x86 :: Register where "zmm5_x86 \<equiv> 15"
abbreviation (input) zmm6_x86 :: Register where "zmm6_x86 \<equiv> 16"
abbreviation (input) zmm7_x86 :: Register where "zmm7_x86 \<equiv> 17"
abbreviation (input) rax_x86_64 :: Register where "rax_x86_64 \<equiv> 18"
abbreviation (input) rbx_x86_64 :: Register where "rbx_x86_64 \<equiv> 19"
abbreviation (input) rcx_x86_64 :: Register where "rcx_x86_64 \<equiv> 20"
abbreviation (input) rdx_x86_64 :: Register where "rdx_x86_64 \<equiv> 21"
abbreviation (input) rbp_x86_64 :: Register where "rbp_x86_64 \<equiv> 22"
abbreviation (input) rsp_x86_64 :: Register where "rsp_x86_64 \<equiv> 23"
abbreviation (input) rsi_x86_64 :: Register where "rsi_x86_64 \<equiv> 24"
abbreviation (input) rdi_x86_64 :: Register where "rdi_x86_64 \<equiv> 25"
abbreviation (input) r8_x86_64 :: Register where "r8_x86_64 \<equiv> 26"
abbreviation (input) r9_x86_64 :: Register where "r9_x86_64 \<equiv> 27"
abbreviation (input) r10_x86_64 :: Register where "r10_x86_64 \<equiv> 28"
abbreviation (input) r11_x86_64 :: Register where "r11_x86_64 \<equiv> 29"
abbreviation (input) r12_x86_64 :: Register where "r12_x86_64 \<equiv> 30"
abbreviation (input) r13_x86_64 :: Register where "r13_x86_64 \<equiv> 31"
abbreviation (input) r14_x86_64 :: Register where "r14_x86_64 \<equiv> 32"
abbreviation (input) r15_x86_64 :: Register where "r15_x86_64 \<equiv> 33"
abbreviation (input) zmm0_x86_64 :: Register where "zmm0_x86_64 \<equiv> 34"
abbreviation (input) zmm1_x86_64 :: Register where "zmm1_x86_64 \<equiv> 35"
abbreviation (input) zmm2_x86_64 :: Register where "zmm2_x86_64 \<equiv> 36"
abbreviation (input) zmm3_x86_64 :: Register where "zmm3_x86_64 \<equiv> 37"
abbreviation (input) zmm4_x86_64 :: Register where "zmm4_x86_64 \<equiv> 38"
abbreviation (input) zmm5_x86_64 :: Register where "zmm5_x86_64 \<equiv> 39"
abbreviation (input) zmm6_x86_64 :: Register where "zmm6_x86_64 \<equiv> 40"
abbreviation (input) zmm7_x86_64 :: Register where "zmm7_x86_64 \<equiv> 41"
abbreviation (input) fs_x86_64 :: Register where "fs_x86_64 \<equiv> 42"
abbreviation (input) r0_arm :: Register where "r0_arm \<equiv> 43"
abbreviation (input) r1_arm :: Register where "r1_arm \<equiv> 44"
abbreviation (input) r2_arm :: Register where "r2_arm \<equiv> 45"
abbreviation (input) r3_arm :: Register where "r3_arm \<equiv> 46"
abbreviation (input) r4_arm :: Register where "r4_arm \<equiv> 47"
abbreviation (input) r5_arm :: Register where "r5_arm \<equiv> 48"
abbreviation (input) r6_arm :: Register where "r6_arm \<equiv> 49"
abbreviation (input) r7_arm :: Register where "r7_arm \<equiv> 50"
abbreviation (input) r8_arm :: Register where "r8_arm \<equiv> 51"
abbreviation (input) r9_arm :: Register where "r9_arm \<equiv> 52"
abbreviation (input) r10_arm :: Register where "r10_arm \<equiv> 53"
abbreviation (input) r11_arm :: Register where "r11_arm \<equiv> 54"
abbreviation (input) r12_arm :: Register where "r12_arm \<equiv> 55"
abbreviation (input) r13_arm :: Register where "r13_arm \<equiv> 56"
abbreviation (input) r14_arm :: Register where "r14_arm \<equiv> 57"
abbreviation (input) r15_arm :: Register where "r15_arm \<equiv> 58"
abbreviation (input) q0_arm :: Register where "q0_arm \<equiv> 59"
abbreviation (input) q1_arm :: Register where "q1_arm \<equiv> 60"
abbreviation (input) q2_arm :: Register where "q2_arm \<equiv> 61"
abbreviation (input) q3_arm :: Register where "q3_arm \<equiv> 62"
abbreviation (input) q4_arm :: Register where "q4_arm \<equiv> 63"
abbreviation (input) q5_arm :: Register where "q5_arm \<equiv> 64"
abbreviation (input) q6_arm :: Register where "q6_arm \<equiv> 65"
abbreviation (input) q7_arm :: Register where "q7_arm \<equiv> 66"
abbreviation (input) x0_aarch64 :: Register where "x0_aarch64 \<equiv> 67"
abbreviation (input) x1_aarch64 :: Register where "x1_aarch64 \<equiv> 68"
abbreviation (input) x2_aarch64 :: Register where "x2_aarch64 \<equiv> 69"
abbreviation (input) x3_aarch64 :: Register where "x3_aarch64 \<equiv> 70"
abbreviation (input) x4_aarch64 :: Register where "x4_aarch64 \<equiv> 71"
abbreviation (input) x5_aarch64 :: Register where "x5_aarch64 \<equiv> 72"
abbreviation (input) x6_aarch64 :: Register where "x6_aarch64 \<equiv> 73"
abbreviation (input) x7_aarch64 :: Register where "x7_aarch64 \<equiv> 74"
abbreviation (input) x8_aarch64 :: Register where "x8_aarch64 \<equiv> 75"
abbreviation (input) x9_aarch64 :: Register where "x9_aarch64 \<equiv> 76"
abbreviation (input) x10_aarch64 :: Register where "x10_aarch64 \<equiv> 77"
abbreviation (input) x11_aarch64 :: Register where "x11_aarch64 \<equiv> 78"
abbreviation (input) x12_aarch64 :: Register where "x12_aarch64 \<equiv> 79"
abbreviation (input) x13_aarch64 :: Register where "x13_aarch64 \<equiv> 80"
abbreviation (input) x14_aarch64 :: Register where "x14_aarch64 \<equiv> 81"
abbreviation (input) x15_aarch64 :: Register where "x15_aarch64 \<equiv> 82"
abbreviation (input) x16_aarch64 :: Register where "x16_aarch64 \<equiv> 83"
abbreviation (input) x17_aarch64 :: Register where "x17_aarch64 \<equiv> 84"
abbreviation (input) x18_aarch64 :: Register where "x18_aarch64 \<equiv> 85"
abbreviation (input) x19_aarch64 :: Register where "x19_aarch64 \<equiv> 86"
abbreviation (input) x20_aarch64 :: Register where "x20_aarch64 \<equiv> 87"
abbreviation (input) x21_aarch64 :: Register where "x21_aarch64 \<equiv> 88"
abbreviation (input) x22_aarch64 :: Register where "x22_aarch64 \<equiv> 89"
abbreviation (input) x23_aarch64 :: Register where "x23_aarch64 \<equiv> 90"
abbreviation (input) x24_aarch64 :: Register where "x24_aarch64 \<equiv> 91"
abbreviation (input) x25_aarch64 :: Register where "x25_aarch64 \<equiv> 92"
abbreviation (input) x26_aarch64 :: Register where "x26_aarch64 \<equiv> 93"
abbreviation (input) x27_aarch64 :: Register where "x27_aarch64 \<equiv> 94"
abbreviation (input) x28_aarch64 :: Register where "x28_aarch64 \<equiv> 95"
abbreviation (input) x29_aarch64 :: Register where "x29_aarch64 \<equiv> 96"
abbreviation (input) lr_aarch64 :: Register where "lr_aarch64 \<equiv> 97"
abbreviation (input) sp_aarch64 :: Register where "sp_aarch64 \<equiv> 98"
abbreviation (input) v0_aarch64 :: Register where "v0_aarch64 \<equiv> 99"
abbreviation (input) v1_aarch64 :: Register where "v1_aarch64 \<equiv> 100"
abbreviation (input) v2_aarch64 :: Register where "v2_aarch64 \<equiv> 101"
abbreviation (input) v3_aarch64 :: Register where "v3_aarch64 \<equiv> 102"
abbreviation (input) v4_aarch64 :: Register where "v4_aarch64 \<equiv> 103"
abbreviation (input) v5_aarch64 :: Register where "v5_aarch64 \<equiv> 104"
abbreviation (input) v6_aarch64 :: Register where "v6_aarch64 \<equiv> 105"
abbreviation (input) v7_aarch64 :: Register where "v7_aarch64 \<equiv> 106"
abbreviation (input) v8_aarch64 :: Register where "v8_aarch64 \<equiv> 107"
abbreviation (input) v9_aarch64 :: Register where "v9_aarch64 \<equiv> 108"
abbreviation (input) v10_aarch64 :: Register where "v10_aarch64 \<equiv> 109"
abbreviation (input) v11_aarch64 :: Register where "v11_aarch64 \<equiv> 110"
abbreviation (input) v12_aarch64 :: Register where "v12_aarch64 \<equiv> 111"
abbreviation (input) v13_aarch64 :: Register where "v13_aarch64 \<equiv> 112"
abbreviation (input) v14_aarch64 :: Register where "v14_aarch64 \<equiv> 113"
abbreviation (input) v15_aarch64 :: Register where "v15_aarch64 \<equiv> 114"
abbreviation (input) v16_aarch64 :: Register where "v16_aarch64 \<equiv> 115"
abbreviation (input) v17_aarch64 :: Register where "v17_aarch64 \<equiv> 116"
abbreviation (input) v18_aarch64 :: Register where "v18_aarch64 \<equiv> 117"
abbreviation (input) v19_aarch64 :: Register where "v19_aarch64 \<equiv> 118"
abbreviation (input) v20_aarch64 :: Register where "v20_aarch64 \<equiv> 119"
abbreviation (input) v21_aarch64 :: Register where "v21_aarch64 \<equiv> 120"
abbreviation (input) v22_aarch64 :: Register where "v22_aarch64 \<equiv> 121"
abbreviation (input) v23_aarch64 :: Register where "v23_aarch64 \<equiv> 122"
abbreviation (input) v24_aarch64 :: Register where "v24_aarch64 \<equiv> 123"
abbreviation (input) v25_aarch64 :: Register where "v25_aarch64 \<equiv> 124"
abbreviation (input) v26_aarch64 :: Register where "v26_aarch64 \<equiv> 125"
abbreviation (input) v27_aarch64 :: Register where "v27_aarch64 \<equiv> 126"
abbreviation (input) v28_aarch64 :: Register where "v28_aarch64 \<equiv> 127"
abbreviation (input) v29_aarch64 :: Register where "v29_aarch64 \<equiv> 128"
abbreviation (input) v30_aarch64 :: Register where "v30_aarch64 \<equiv> 129"
abbreviation (input) v31_aarch64 :: Register where "v31_aarch64 \<equiv> 130"
abbreviation (input) v0_mips :: Register where "v0_mips \<equiv> 131"
abbreviation (input) v1_mips :: Register where "v1_mips \<equiv> 132"
abbreviation (input) a0_mips :: Register where "a0_mips \<equiv> 133"
abbreviation (input) a1_mips :: Register where "a1_mips \<equiv> 134"
abbreviation (input) a2_mips :: Register where "a2_mips \<equiv> 135"
abbreviation (input) a3_mips :: Register where "a3_mips \<equiv> 136"
abbreviation (input) s0_mips :: Register where "s0_mips \<equiv> 137"
abbreviation (input) s1_mips :: Register where "s1_mips \<equiv> 138"
abbreviation (input) s2_mips :: Register where "s2_mips \<equiv> 139"
abbreviation (input) s3_mips :: Register where "s3_mips \<equiv> 140"
abbreviation (input) s4_mips :: Register where "s4_mips \<equiv> 141"
abbreviation (input) s5_mips :: Register where "s5_mips \<equiv> 142"
abbreviation (input) s6_mips :: Register where "s6_mips \<equiv> 143"
abbreviation (input) s7_mips :: Register where "s7_mips \<equiv> 144"
abbreviation (input) t0_mips :: Register where "t0_mips \<equiv> 145"
abbreviation (input) t1_mips :: Register where "t1_mips \<equiv> 146"
abbreviation (input) t2_mips :: Register where "t2_mips \<equiv> 147"
abbreviation (input) t3_mips :: Register where "t3_mips \<equiv> 148"
abbreviation (input) t4_mips :: Register where "t4_mips \<equiv> 149"
abbreviation (input) t5_mips :: Register where "t5_mips \<equiv> 150"
abbreviation (input) t6_mips :: Register where "t6_mips \<equiv> 151"
abbreviation (input) t7_mips :: Register where "t7_mips \<equiv> 152"
abbreviation (input) t8_mips :: Register where "t8_mips \<equiv> 153"
abbreviation (input) t9_mips :: Register where "t9_mips \<equiv> 154"
abbreviation (input) gp_mips :: Register where "gp_mips \<equiv> 155"
abbreviation (input) sp_mips :: Register where "sp_mips \<equiv> 156"
abbreviation (input) fp_mips :: Register where "fp_mips \<equiv> 157"
abbreviation (input) ra_mips :: Register where "ra_mips \<equiv> 158"
abbreviation (input) f0_mips :: Register where "f0_mips \<equiv> 159"
abbreviation (input) f1_mips :: Register where "f1_mips \<equiv> 160"
abbreviation (input) f2_mips :: Register where "f2_mips \<equiv> 161"
abbreviation (input) f3_mips :: Register where "f3_mips \<equiv> 162"
abbreviation (input) f4_mips :: Register where "f4_mips \<equiv> 163"
abbreviation (input) f5_mips :: Register where "f5_mips \<equiv> 164"
abbreviation (input) f6_mips :: Register where "f6_mips \<equiv> 165"
abbreviation (input) f7_mips :: Register where "f7_mips \<equiv> 166"
abbreviation (input) f8_mips :: Register where "f8_mips \<equiv> 167"
abbreviation (input) f9_mips :: Register where "f9_mips \<equiv> 168"
abbreviation (input) f10_mips :: Register where "f10_mips \<equiv> 169"
abbreviation (input) f11_mips :: Register where "f11_mips \<equiv> 170"
abbreviation (input) f12_mips :: Register where "f12_mips \<equiv> 171"
abbreviation (input) f13_mips :: Register where "f13_mips \<equiv> 172"
abbreviation (input) f14_mips :: Register where "f14_mips \<equiv> 173"
abbreviation (input) f15_mips :: Register where "f15_mips \<equiv> 174"
abbreviation (input) f16_mips :: Register where "f16_mips \<equiv> 175"
abbreviation (input) f17_mips :: Register where "f17_mips \<equiv> 176"
abbreviation (input) f18_mips :: Register where "f18_mips \<equiv> 177"
abbreviation (input) f19_mips :: Register where "f19_mips \<equiv> 178"
abbreviation (input) f20_mips :: Register where "f20_mips \<equiv> 179"
abbreviation (input) f21_mips :: Register where "f21_mips \<equiv> 180"
abbreviation (input) f22_mips :: Register where "f22_mips \<equiv> 181"
abbreviation (input) f23_mips :: Register where "f23_mips \<equiv> 182"
abbreviation (input) f24_mips :: Register where "f24_mips \<equiv> 183"
abbreviation (input) f25_mips :: Register where "f25_mips \<equiv> 184"
abbreviation (input) f26_mips :: Register where "f26_mips \<equiv> 185"
abbreviation (input) f27_mips :: Register where "f27_mips \<equiv> 186"
abbreviation (input) f28_mips :: Register where "f28_mips \<equiv> 187"
abbreviation (input) f29_mips :: Register where "f29_mips \<equiv> 188"
abbreviation (input) f30_mips :: Register where "f30_mips \<equiv> 189"
abbreviation (input) f31_mips :: Register where "f31_mips \<equiv> 190"
abbreviation (input) r0_systemz :: Register where "r0_systemz \<equiv> 191"
abbreviation (input) r1_systemz :: Register where "r1_systemz \<equiv> 192"
abbreviation (input) r2_systemz :: Register where "r2_systemz \<equiv> 193"
abbreviation (input) r3_systemz :: Register where "r3_systemz \<equiv> 194"
abbreviation (input) r4_systemz :: Register where "r4_systemz \<equiv> 195"
abbreviation (input) r5_systemz :: Register where "r5_systemz \<equiv> 196"
abbreviation (input) r6_systemz :: Register where "r6_systemz \<equiv> 197"
abbreviation (input) r7_systemz :: Register where "r7_systemz \<equiv> 198"
abbreviation (input) r8_systemz :: Register where "r8_systemz \<equiv> 199"
abbreviation (input) r9_systemz :: Register where "r9_systemz \<equiv> 200"
abbreviation (input) r10_systemz :: Register where "r10_systemz \<equiv> 201"
abbreviation (input) r11_systemz :: Register where "r11_systemz \<equiv> 202"
abbreviation (input) r12_systemz :: Register where "r12_systemz \<equiv> 203"
abbreviation (input) r13_systemz :: Register where "r13_systemz \<equiv> 204"
abbreviation (input) r14_systemz :: Register where "r14_systemz \<equiv> 205"
abbreviation (input) r15_systemz :: Register where "r15_systemz \<equiv> 206"
abbreviation (input) f0_systemz :: Register where "f0_systemz \<equiv> 207"
abbreviation (input) f1_systemz :: Register where "f1_systemz \<equiv> 208"
abbreviation (input) f2_systemz :: Register where "f2_systemz \<equiv> 209"
abbreviation (input) f3_systemz :: Register where "f3_systemz \<equiv> 210"
abbreviation (input) f4_systemz :: Register where "f4_systemz \<equiv> 211"
abbreviation (input) f5_systemz :: Register where "f5_systemz \<equiv> 212"
abbreviation (input) f6_systemz :: Register where "f6_systemz \<equiv> 213"
abbreviation (input) f7_systemz :: Register where "f7_systemz \<equiv> 214"
abbreviation (input) f8_systemz :: Register where "f8_systemz \<equiv> 215"
abbreviation (input) f9_systemz :: Register where "f9_systemz \<equiv> 216"
abbreviation (input) f10_systemz :: Register where "f10_systemz \<equiv> 217"
abbreviation (input) f11_systemz :: Register where "f11_systemz \<equiv> 218"
abbreviation (input) f12_systemz :: Register where "f12_systemz \<equiv> 219"
abbreviation (input) f13_systemz :: Register where "f13_systemz \<equiv> 220"
abbreviation (input) f14_systemz :: Register where "f14_systemz \<equiv> 221"
abbreviation (input) f15_systemz :: Register where "f15_systemz \<equiv> 222"
abbreviation (input) Register_Count :: Register where "Register_Count \<equiv> 223"

definition Register_members :: "string list" where
  "Register_members =
     [''eax_x86'', ''ebx_x86'', ''ecx_x86'', ''edx_x86'', ''esi_x86'', ''edi_x86'', ''ebp_x86'', ''esp_x86'',
      ''st0_x86'', ''zmm0_x86'', ''zmm1_x86'', ''zmm2_x86'', ''zmm3_x86'', ''zmm4_x86'', ''zmm5_x86'',
      ''zmm6_x86'', ''zmm7_x86'', ''rax_x86_64'', ''rbx_x86_64'', ''rcx_x86_64'', ''rdx_x86_64'',
      ''rbp_x86_64'', ''rsp_x86_64'', ''rsi_x86_64'', ''rdi_x86_64'', ''r8_x86_64'', ''r9_x86_64'',
      ''r10_x86_64'', ''r11_x86_64'', ''r12_x86_64'', ''r13_x86_64'', ''r14_x86_64'', ''r15_x86_64'',
      ''zmm0_x86_64'', ''zmm1_x86_64'', ''zmm2_x86_64'', ''zmm3_x86_64'', ''zmm4_x86_64'', ''zmm5_x86_64'',
      ''zmm6_x86_64'', ''zmm7_x86_64'', ''fs_x86_64'', ''r0_arm'', ''r1_arm'', ''r2_arm'', ''r3_arm'',
      ''r4_arm'', ''r5_arm'', ''r6_arm'', ''r7_arm'', ''r8_arm'', ''r9_arm'', ''r10_arm'', ''r11_arm'',
      ''r12_arm'', ''r13_arm'', ''r14_arm'', ''r15_arm'', ''q0_arm'', ''q1_arm'', ''q2_arm'', ''q3_arm'',
      ''q4_arm'', ''q5_arm'', ''q6_arm'', ''q7_arm'', ''x0_aarch64'', ''x1_aarch64'', ''x2_aarch64'',
      ''x3_aarch64'', ''x4_aarch64'', ''x5_aarch64'', ''x6_aarch64'', ''x7_aarch64'', ''x8_aarch64'',
      ''x9_aarch64'', ''x10_aarch64'', ''x11_aarch64'', ''x12_aarch64'', ''x13_aarch64'', ''x14_aarch64'',
      ''x15_aarch64'', ''x16_aarch64'', ''x17_aarch64'', ''x18_aarch64'', ''x19_aarch64'', ''x20_aarch64'',
      ''x21_aarch64'', ''x22_aarch64'', ''x23_aarch64'', ''x24_aarch64'', ''x25_aarch64'', ''x26_aarch64'',
      ''x27_aarch64'', ''x28_aarch64'', ''x29_aarch64'', ''lr_aarch64'', ''sp_aarch64'', ''v0_aarch64'',
      ''v1_aarch64'', ''v2_aarch64'', ''v3_aarch64'', ''v4_aarch64'', ''v5_aarch64'', ''v6_aarch64'',
      ''v7_aarch64'', ''v8_aarch64'', ''v9_aarch64'', ''v10_aarch64'', ''v11_aarch64'', ''v12_aarch64'',
      ''v13_aarch64'', ''v14_aarch64'', ''v15_aarch64'', ''v16_aarch64'', ''v17_aarch64'', ''v18_aarch64'',
      ''v19_aarch64'', ''v20_aarch64'', ''v21_aarch64'', ''v22_aarch64'', ''v23_aarch64'', ''v24_aarch64'',
      ''v25_aarch64'', ''v26_aarch64'', ''v27_aarch64'', ''v28_aarch64'', ''v29_aarch64'', ''v30_aarch64'',
      ''v31_aarch64'', ''v0_mips'', ''v1_mips'', ''a0_mips'', ''a1_mips'', ''a2_mips'', ''a3_mips'',
      ''s0_mips'', ''s1_mips'', ''s2_mips'', ''s3_mips'', ''s4_mips'', ''s5_mips'', ''s6_mips'', ''s7_mips'',
      ''t0_mips'', ''t1_mips'', ''t2_mips'', ''t3_mips'', ''t4_mips'', ''t5_mips'', ''t6_mips'', ''t7_mips'',
      ''t8_mips'', ''t9_mips'', ''gp_mips'', ''sp_mips'', ''fp_mips'', ''ra_mips'', ''f0_mips'', ''f1_mips'',
      ''f2_mips'', ''f3_mips'', ''f4_mips'', ''f5_mips'', ''f6_mips'', ''f7_mips'', ''f8_mips'', ''f9_mips'',
      ''f10_mips'', ''f11_mips'', ''f12_mips'', ''f13_mips'', ''f14_mips'', ''f15_mips'', ''f16_mips'',
      ''f17_mips'', ''f18_mips'', ''f19_mips'', ''f20_mips'', ''f21_mips'', ''f22_mips'', ''f23_mips'',
      ''f24_mips'', ''f25_mips'', ''f26_mips'', ''f27_mips'', ''f28_mips'', ''f29_mips'', ''f30_mips'',
      ''f31_mips'', ''r0_systemz'', ''r1_systemz'', ''r2_systemz'', ''r3_systemz'', ''r4_systemz'',
      ''r5_systemz'', ''r6_systemz'', ''r7_systemz'', ''r8_systemz'', ''r9_systemz'', ''r10_systemz'',
      ''r11_systemz'', ''r12_systemz'', ''r13_systemz'', ''r14_systemz'', ''r15_systemz'', ''f0_systemz'',
      ''f1_systemz'', ''f2_systemz'', ''f3_systemz'', ''f4_systemz'', ''f5_systemz'', ''f6_systemz'',
      ''f7_systemz'', ''f8_systemz'', ''f9_systemz'', ''f10_systemz'', ''f11_systemz'', ''f12_systemz'',
      ''f13_systemz'', ''f14_systemz'', ''f15_systemz'']"

text \<open>\<^verbatim>\<open>getName\<close> and \<^verbatim>\<open>fromName\<close> as src/scripts/tuple_tree_generator/templates/enum.h.tpl generates them.\<close>

definition Register_getName :: "Register \<Rightarrow> string checked" where
  "Register_getName V =
     (if V = Register_Invalid then Some ''Invalid''
      else if V < Register_Count then Some (Register_members ! (V - 1))
      else revng_abort)"

fun fromName_from :: "Register \<Rightarrow> string list \<Rightarrow> string \<Rightarrow> Register" where
  "fromName_from V [] Name = Register_Invalid"
| "fromName_from V (Member # Members) Name = (if Name = Member then V else fromName_from (Suc V) Members Name)"

definition Register_fromName :: "string \<Rightarrow> Register" where
  "Register_fromName Name = fromName_from 1 Register_members Name"

fun Architecture_getName :: "Architecture \<Rightarrow> string checked" where
  "Architecture_getName Architecture_Invalid = Some ''Invalid''"
| "Architecture_getName x86 = Some ''x86''"
| "Architecture_getName x86_64 = Some ''x86_64''"
| "Architecture_getName arm = Some ''arm''"
| "Architecture_getName aarch64 = Some ''aarch64''"
| "Architecture_getName mips = Some ''mips''"
| "Architecture_getName mipsel = Some ''mipsel''"
| "Architecture_getName systemz = Some ''systemz''"
| "Architecture_getName Architecture_Count = revng_abort"

section \<open>Tables\<close>

datatype PrimitiveKind =
    PrimitiveKind_Invalid | Void | Generic | PointerOrNumber | Number | Unsigned | Signed | Float
  | PrimitiveKind_Count

definition getReferenceArchitecture :: "Register \<Rightarrow> Architecture checked" where
  "getReferenceArchitecture V =
     (if V \<in> set
       [eax_x86, ebx_x86, ecx_x86, edx_x86, esi_x86, edi_x86, ebp_x86, esp_x86, st0_x86, zmm0_x86, zmm1_x86,
        zmm2_x86, zmm3_x86, zmm4_x86, zmm5_x86, zmm6_x86, zmm7_x86]
     then Some x86
     else if V \<in> set
       [rax_x86_64, rbx_x86_64, rcx_x86_64, rdx_x86_64, rbp_x86_64, rsp_x86_64, rsi_x86_64, rdi_x86_64,
        r8_x86_64, r9_x86_64, r10_x86_64, r11_x86_64, r12_x86_64, r13_x86_64, r14_x86_64, r15_x86_64,
        zmm0_x86_64, zmm1_x86_64, zmm2_x86_64, zmm3_x86_64, zmm4_x86_64, zmm5_x86_64, zmm6_x86_64,
        zmm7_x86_64, fs_x86_64]
     then Some x86_64
     else if V \<in> set
       [r0_arm, r1_arm, r2_arm, r3_arm, r4_arm, r5_arm, r6_arm, r7_arm, r8_arm, r9_arm, r10_arm, r11_arm,
        r12_arm, r13_arm, r14_arm, r15_arm, q0_arm, q1_arm, q2_arm, q3_arm, q4_arm, q5_arm, q6_arm, q7_arm]
     then Some arm
     else if V \<in> set
       [x0_aarch64, x1_aarch64, x2_aarch64, x3_aarch64, x4_aarch64, x5_aarch64, x6_aarch64, x7_aarch64,
        x8_aarch64, x9_aarch64, x10_aarch64, x11_aarch64, x12_aarch64, x13_aarch64, x14_aarch64, x15_aarch64,
        x16_aarch64, x17_aarch64, x18_aarch64, x19_aarch64, x20_aarch64, x21_aarch64, x22_aarch64,
        x23_aarch64, x24_aarch64, x25_aarch64, x26_aarch64, x27_aarch64, x28_aarch64, x29_aarch64, lr_aarch64,
        sp_aarch64, v0_aarch64, v1_aarch64, v2_aarch64, v3_aarch64, v4_aarch64, v5_aarch64, v6_aarch64,
        v7_aarch64, v8_aarch64, v9_aarch64, v10_aarch64, v11_aarch64, v12_aarch64, v13_aarch64, v14_aarch64,
        v15_aarch64, v16_aarch64, v17_aarch64, v18_aarch64, v19_aarch64, v20_aarch64, v21_aarch64,
        v22_aarch64, v23_aarch64, v24_aarch64, v25_aarch64, v26_aarch64, v27_aarch64, v28_aarch64,
        v29_aarch64, v30_aarch64, v31_aarch64]
     then Some aarch64
     else if V \<in> set
       [v0_mips, v1_mips, a0_mips, a1_mips, a2_mips, a3_mips, s0_mips, s1_mips, s2_mips, s3_mips, s4_mips,
        s5_mips, s6_mips, s7_mips, t0_mips, t1_mips, t2_mips, t3_mips, t4_mips, t5_mips, t6_mips, t7_mips,
        t8_mips, t9_mips, gp_mips, sp_mips, fp_mips, ra_mips, f0_mips, f1_mips, f2_mips, f3_mips, f4_mips,
        f5_mips, f6_mips, f7_mips, f8_mips, f9_mips, f10_mips, f11_mips, f12_mips, f13_mips, f14_mips,
        f15_mips, f16_mips, f17_mips, f18_mips, f19_mips, f20_mips, f21_mips, f22_mips, f23_mips, f24_mips,
        f25_mips, f26_mips, f27_mips, f28_mips, f29_mips, f30_mips, f31_mips]
     then Some mips
     else if V \<in> set
       [r0_systemz, r1_systemz, r2_systemz, r3_systemz, r4_systemz, r5_systemz, r6_systemz, r7_systemz,
        r8_systemz, r9_systemz, r10_systemz, r11_systemz, r12_systemz, r13_systemz, r14_systemz, r15_systemz,
        f0_systemz, f1_systemz, f2_systemz, f3_systemz, f4_systemz, f5_systemz, f6_systemz, f7_systemz,
        f8_systemz, f9_systemz, f10_systemz, f11_systemz, f12_systemz, f13_systemz, f14_systemz, f15_systemz]
     then Some systemz
     else revng_abort)"

definition isUsedInArchitecture :: "Register \<Rightarrow> Architecture \<Rightarrow> bool checked" where
  "isUsedInArchitecture Register Architecture = do {
     ReferenceArchitecture \<leftarrow> getReferenceArchitecture Register;
     revng_assert (Architecture \<noteq> Architecture_Invalid);
     Some (Architecture = ReferenceArchitecture \<or> Architecture = mipsel \<and> ReferenceArchitecture = mips) }"

definition getRegisterName :: "Register \<Rightarrow> string checked" where
  "getRegisterName V = do {
     FullName \<leftarrow> Register_getName V;
     Architecture \<leftarrow> getReferenceArchitecture V;
     revng_assert (Architecture \<noteq> Architecture_Invalid);
     Name \<leftarrow> Architecture_getName Architecture;
     revng_assert (drop (length FullName - length Name) FullName = Name);
     Some (take (length FullName - length Name - 1) FullName) }"

definition Register_getSize :: "Register \<Rightarrow> nat checked" where
  "Register_getSize V =
     (if V \<in> set
       [eax_x86, ebx_x86, ecx_x86, edx_x86, esi_x86, edi_x86, ebp_x86, esp_x86]
     then Some 4
     else if V \<in> set
       [st0_x86]
     then Some 10
     else if V \<in> set
       [zmm0_x86, zmm1_x86, zmm2_x86, zmm3_x86, zmm4_x86, zmm5_x86, zmm6_x86, zmm7_x86]
     then Some 8
     else if V \<in> set
       [rax_x86_64, rbx_x86_64, rcx_x86_64, rdx_x86_64, rbp_x86_64, rsp_x86_64, rsi_x86_64, rdi_x86_64,
        r8_x86_64, r9_x86_64, r10_x86_64, r11_x86_64, r12_x86_64, r13_x86_64, r14_x86_64, r15_x86_64]
     then Some 8
     else if V \<in> set
       [zmm0_x86_64, zmm1_x86_64, zmm2_x86_64, zmm3_x86_64, zmm4_x86_64, zmm5_x86_64, zmm6_x86_64, zmm7_x86_64]
     then Some 64
     else if V \<in> set
       [fs_x86_64]
     then Some 2
     else if V \<in> set
       [r0_arm, r1_arm, r2_arm, r3_arm, r4_arm, r5_arm, r6_arm, r7_arm, r8_arm, r9_arm, r10_arm, r11_arm,
        r12_arm, r13_arm, r14_arm, r15_arm]
     then Some 4
     else if V \<in> set
       [q0_arm, q1_arm, q2_arm, q3_arm, q4_arm, q5_arm, q6_arm, q7_arm]
     then Some 16
     else if V \<in> set
       [x0_aarch64, x1_aarch64, x2_aarch64, x3_aarch64, x4_aarch64, x5_aarch64, x6_aarch64, x7_aarch64,
        x8_aarch64, x9_aarch64, x10_aarch64, x11_aarch64, x12_aarch64, x13_aarch64, x14_aarch64, x15_aarch64,
        x16_aarch64, x17_aarch64, x18_aarch64, x19_aarch64, x20_aarch64, x21_aarch64, x22_aarch64,
        x23_aarch64, x24_aarch64, x25_aarch64, x26_aarch64, x27_aarch64, x28_aarch64, x29_aarch64, lr_aarch64,
        sp_aarch64]
     then Some 8
     else if V \<in> set
       [v0_aarch64, v1_aarch64, v2_aarch64, v3_aarch64, v4_aarch64, v5_aarch64, v6_aarch64, v7_aarch64,
        v8_aarch64, v9_aarch64, v10_aarch64, v11_aarch64, v12_aarch64, v13_aarch64, v14_aarch64, v15_aarch64,
        v16_aarch64, v17_aarch64, v18_aarch64, v19_aarch64, v20_aarch64, v21_aarch64, v22_aarch64,
        v23_aarch64, v24_aarch64, v25_aarch64, v26_aarch64, v27_aarch64, v28_aarch64, v29_aarch64,
        v30_aarch64, v31_aarch64]
     then Some 16
     else if V \<in> set
       [v0_mips, v1_mips, a0_mips, a1_mips, a2_mips, a3_mips, s0_mips, s1_mips, s2_mips, s3_mips, s4_mips,
        s5_mips, s6_mips, s7_mips, t0_mips, t1_mips, t2_mips, t3_mips, t4_mips, t5_mips, t6_mips, t7_mips,
        t8_mips, t9_mips, gp_mips, sp_mips, fp_mips, ra_mips]
     then Some 4
     else if V \<in> set
       [f0_mips, f1_mips, f2_mips, f3_mips, f4_mips, f5_mips, f6_mips, f7_mips, f8_mips, f9_mips, f10_mips,
        f11_mips, f12_mips, f13_mips, f14_mips, f15_mips, f16_mips, f17_mips, f18_mips, f19_mips, f20_mips,
        f21_mips, f22_mips, f23_mips, f24_mips, f25_mips, f26_mips, f27_mips, f28_mips, f29_mips, f30_mips,
        f31_mips]
     then Some 8
     else if V \<in> set
       [r0_systemz, r1_systemz, r2_systemz, r3_systemz, r4_systemz, r5_systemz, r6_systemz, r7_systemz,
        r8_systemz, r9_systemz, r10_systemz, r11_systemz, r12_systemz, r13_systemz, r14_systemz, r15_systemz]
     then Some 8
     else if V \<in> set
       [f0_systemz, f1_systemz, f2_systemz, f3_systemz, f4_systemz, f5_systemz, f6_systemz, f7_systemz,
        f8_systemz, f9_systemz, f10_systemz, f11_systemz, f12_systemz, f13_systemz, f14_systemz, f15_systemz]
     then Some 16
     else revng_abort)"

fun getFirst :: "Architecture \<Rightarrow> Register checked" where
  "getFirst x86 = Some eax_x86"
| "getFirst arm = Some r0_arm"
| "getFirst mips = Some v0_mips"
| "getFirst mipsel = Some v0_mips"
| "getFirst x86_64 = Some rax_x86_64"
| "getFirst aarch64 = Some x0_aarch64"
| "getFirst systemz = Some r0_systemz"
| "getFirst _ = revng_abort"

fun getLast :: "Architecture \<Rightarrow> Register checked" where
  "getLast x86 = Some zmm7_x86"
| "getLast arm = Some q7_arm"
| "getLast mips = Some f31_mips"
| "getLast mipsel = Some f31_mips"
| "getLast x86_64 = Some fs_x86_64"
| "getLast aarch64 = Some v31_aarch64"
| "getLast systemz = Some f15_systemz"
| "getLast _ = revng_abort"

definition getCount :: "Architecture \<Rightarrow> nat checked" where
  "getCount A = do { Last \<leftarrow> getLast A; First \<leftarrow> getFirst A; Some (Last - First + 1) }"

definition canonicalArchitecture :: "Architecture \<Rightarrow> Architecture" where
  "canonicalArchitecture Architecture = (if Architecture = mipsel then mips else Architecture)"

definition fromRegisterName :: "string \<Rightarrow> Architecture \<Rightarrow> Register checked" where
  "fromRegisterName Name Architecture = do {
     Arch \<leftarrow> Architecture_getName (canonicalArchitecture Architecture);
     Some (Register_fromName (Name @ ''_'' @ Arch)) }"

definition getMContextIndex :: "Register \<Rightarrow> nat option checked" where
  "getMContextIndex V =
     (if V = rax_x86_64 then Some (Some 0xD)
     else if V = rbx_x86_64 then Some (Some 0xB)
     else if V = rcx_x86_64 then Some (Some 0xE)
     else if V = rdx_x86_64 then Some (Some 0xC)
     else if V = rbp_x86_64 then Some (Some 0xA)
     else if V = rsp_x86_64 then Some (Some 0xF)
     else if V = rsi_x86_64 then Some (Some 0x9)
     else if V = rdi_x86_64 then Some (Some 0x8)
     else if V = r8_x86_64 then Some (Some 0x0)
     else if V = r9_x86_64 then Some (Some 0x1)
     else if V = r10_x86_64 then Some (Some 0x2)
     else if V = r11_x86_64 then Some (Some 0x3)
     else if V = r12_x86_64 then Some (Some 0x4)
     else if V = r13_x86_64 then Some (Some 0x5)
     else if V = r14_x86_64 then Some (Some 0x6)
     else if V = r15_x86_64 then Some (Some 0x7)
     else do {
       A \<leftarrow> getReferenceArchitecture V;
       if A = x86_64 then Some None else revng_abort })"

definition getPrimitiveKind :: "Register \<Rightarrow> PrimitiveKind checked" where
  "getPrimitiveKind V =
     (if V \<in> set
       [eax_x86, ebx_x86, ecx_x86, edx_x86, esi_x86, edi_x86, ebp_x86, esp_x86, rax_x86_64, rbx_x86_64,
        rcx_x86_64, rdx_x86_64, rbp_x86_64, rsp_x86_64, rsi_x86_64, rdi_x86_64, r8_x86_64, r9_x86_64,
        r10_x86_64, r11_x86_64, r12_x86_64, r13_x86_64, r14_x86_64, r15_x86_64, r0_arm, r1_arm, r2_arm,
        r3_arm, r4_arm, r5_arm, r6_arm, r7_arm, r8_arm, r9_arm, r10_arm, r11_arm, r12_arm, r13_arm, r14_arm,
        r15_arm, x0_aarch64, x1_aarch64, x2_aarch64, x3_aarch64, x4_aarch64, x5_aarch64, x6_aarch64,
        x7_aarch64, x8_aarch64, x9_aarch64, x10_aarch64, x11_aarch64, x12_aarch64, x13_aarch64, x14_aarch64,
        x15_aarch64, x16_aarch64, x17_aarch64, x18_aarch64, x19_aarch64, x20_aarch64, x21_aarch64,
        x22_aarch64, x23_aarch64, x24_aarch64, x25_aarch64, x26_aarch64, x27_aarch64, x28_aarch64,
        x29_aarch64, lr_aarch64, sp_aarch64, v0_mips, v1_mips, a0_mips, a1_mips, a2_mips, a3_mips, s0_mips,
        s1_mips, s2_mips, s3_mips, s4_mips, s5_mips, s6_mips, s7_mips, t0_mips, t1_mips, t2_mips, t3_mips,
        t4_mips, t5_mips, t6_mips, t7_mips, t8_mips, t9_mips, gp_mips, sp_mips, fp_mips, ra_mips, r0_systemz,
        r1_systemz, r2_systemz, r3_systemz, r4_systemz, r5_systemz, r6_systemz, r7_systemz, r8_systemz,
        r9_systemz, r10_systemz, r11_systemz, r12_systemz, r13_systemz, r14_systemz, r15_systemz]
     then Some PointerOrNumber
     else if V \<in> set
       [st0_x86, zmm0_x86, zmm1_x86, zmm2_x86, zmm3_x86, zmm4_x86, zmm5_x86, zmm6_x86, zmm7_x86, zmm0_x86_64,
        zmm1_x86_64, zmm2_x86_64, zmm3_x86_64, zmm4_x86_64, zmm5_x86_64, zmm6_x86_64, zmm7_x86_64, q0_arm,
        q1_arm, q2_arm, q3_arm, q4_arm, q5_arm, q6_arm, q7_arm, v0_aarch64, v1_aarch64, v2_aarch64,
        v3_aarch64, v4_aarch64, v5_aarch64, v6_aarch64, v7_aarch64, v8_aarch64, v9_aarch64, v10_aarch64,
        v11_aarch64, v12_aarch64, v13_aarch64, v14_aarch64, v15_aarch64, v16_aarch64, v17_aarch64,
        v18_aarch64, v19_aarch64, v20_aarch64, v21_aarch64, v22_aarch64, v23_aarch64, v24_aarch64,
        v25_aarch64, v26_aarch64, v27_aarch64, v28_aarch64, v29_aarch64, v30_aarch64, v31_aarch64, f0_mips,
        f1_mips, f2_mips, f3_mips, f4_mips, f5_mips, f6_mips, f7_mips, f8_mips, f9_mips, f10_mips, f11_mips,
        f12_mips, f13_mips, f14_mips, f15_mips, f16_mips, f17_mips, f18_mips, f19_mips, f20_mips, f21_mips,
        f22_mips, f23_mips, f24_mips, f25_mips, f26_mips, f27_mips, f28_mips, f29_mips, f30_mips, f31_mips,
        f0_systemz, f1_systemz, f2_systemz, f3_systemz, f4_systemz, f5_systemz, f6_systemz, f7_systemz,
        f8_systemz, f9_systemz, f10_systemz, f11_systemz, f12_systemz, f13_systemz, f14_systemz, f15_systemz]
     then Some Float
     else if V \<in> set
       [fs_x86_64]
     then Some Generic
     else revng_abort)"

fun getStackPointer :: "Architecture \<Rightarrow> Register checked" where
  "getStackPointer x86 = Some esp_x86"
| "getStackPointer x86_64 = Some rsp_x86_64"
| "getStackPointer arm = Some r13_arm"
| "getStackPointer mips = Some sp_mips"
| "getStackPointer mipsel = Some sp_mips"
| "getStackPointer aarch64 = Some sp_aarch64"
| "getStackPointer systemz = Some r15_systemz"
| "getStackPointer _ = revng_abort"

fun getSyscallNumberRegister :: "Architecture \<Rightarrow> Register checked" where
  "getSyscallNumberRegister x86 = Some eax_x86"
| "getSyscallNumberRegister x86_64 = Some rax_x86_64"
| "getSyscallNumberRegister arm = Some r7_arm"
| "getSyscallNumberRegister mips = Some v0_mips"
| "getSyscallNumberRegister mipsel = Some v0_mips"
| "getSyscallNumberRegister aarch64 = Some x8_aarch64"
| "getSyscallNumberRegister systemz = Some r1_systemz"
| "getSyscallNumberRegister _ = revng_abort"

fun getReturnAddressRegister :: "Architecture \<Rightarrow> Register checked" where
  "getReturnAddressRegister x86 = Some Register_Invalid"
| "getReturnAddressRegister x86_64 = Some Register_Invalid"
| "getReturnAddressRegister arm = Some r14_arm"
| "getReturnAddressRegister mips = Some ra_mips"
| "getReturnAddressRegister mipsel = Some ra_mips"
| "getReturnAddressRegister aarch64 = Some lr_aarch64"
| "getReturnAddressRegister systemz = Some r14_systemz"
| "getReturnAddressRegister _ = revng_abort"

fun getPCMContextIndex :: "Architecture \<Rightarrow> nat option" where
  "getPCMContextIndex x86_64 = Some 0x10"
| "getPCMContextIndex arm = Some 0x12"
| "getPCMContextIndex _ = None"

text \<open>The generators yield the elements of the lists; \<^verbatim>\<open>Next\<close> does not wrap, as no last register is 255.\<close>

definition registers :: "Architecture \<Rightarrow> Register list checked" where
  "registers V = do { First \<leftarrow> getFirst V; Last \<leftarrow> getLast V; Some [First..<Suc Last] }"

definition allRegisters :: "Register list checked" where
  "allRegisters = do {
     Rx86 \<leftarrow> registers x86;
     Rx86_64 \<leftarrow> registers x86_64;
     Rarm \<leftarrow> registers arm;
     Raarch64 \<leftarrow> registers aarch64;
     Rmips \<leftarrow> registers mips;
     Rmipsel \<leftarrow> registers mipsel;
     Rsystemz \<leftarrow> registers systemz;
     Some (Rx86 @ Rx86_64 @ Rarm @ Raarch64 @ Rmips @ Rmipsel @ Rsystemz) }"

section \<open>CSVs\<close>

text \<open>
  The numbers are below \<open>2 ^ 64\<close>: the offsets of the table are small, and the offset read from a name
  is only compared and subtracted.
\<close>

record LLVM_hex =
  utohexstr_lower :: "nat \<Rightarrow> string"
  getAsInteger_16 :: "string \<Rightarrow> nat option"

record RegisterCSVComposition =
  Composition_Register :: Register
  BaseOffset :: nat
  CSVCount :: nat
  CSVSize :: nat

definition RegisterCSVComposition_new :: "Register \<Rightarrow> nat \<Rightarrow> nat \<Rightarrow> RegisterCSVComposition checked" where
  "RegisterCSVComposition_new Register Base Pieces = do {
     Size \<leftarrow> Register_getSize Register;
     revng_assert (Pieces \<noteq> 0);
     revng_assert (Size mod Pieces = 0);
     revng_assert (1 < Pieces \<longrightarrow> Base \<noteq> 0);
     Some \<lparr>Composition_Register = Register, BaseOffset = Base, CSVCount = Pieces, CSVSize = Size div Pieces\<rparr> }"

definition SpecialRegisters :: "RegisterCSVComposition list checked" where
  "SpecialRegisters = do {
     Zmm0 \<leftarrow> RegisterCSVComposition_new zmm0_x86_64 0x2b10 8;
     Zmm1 \<leftarrow> RegisterCSVComposition_new zmm1_x86_64 0x2b50 8;
     Zmm2 \<leftarrow> RegisterCSVComposition_new zmm2_x86_64 0x2b90 8;
     Zmm3 \<leftarrow> RegisterCSVComposition_new zmm3_x86_64 0x2bd0 8;
     Zmm4 \<leftarrow> RegisterCSVComposition_new zmm4_x86_64 0x2c10 8;
     Zmm5 \<leftarrow> RegisterCSVComposition_new zmm5_x86_64 0x2c50 8;
     Zmm6 \<leftarrow> RegisterCSVComposition_new zmm6_x86_64 0x2c90 8;
     Zmm7 \<leftarrow> RegisterCSVComposition_new zmm7_x86_64 0x2cd0 8;
     St0 \<leftarrow> RegisterCSVComposition_new st0_x86 0x2960 1;
     Some [Zmm0, Zmm1, Zmm2, Zmm3, Zmm4, Zmm5, Zmm6, Zmm7, St0] }"

definition lookupRegister :: "Register \<Rightarrow> RegisterCSVComposition checked" where
  "lookupRegister V = do {
     revng_assert (V \<noteq> Register_Invalid);
     Special \<leftarrow> SpecialRegisters;
     case List.find (\<lambda>Entry. Composition_Register Entry = V) Special of
       Some Entry \<Rightarrow> Some Entry
     | None \<Rightarrow> RegisterCSVComposition_new V 0 1 }"

fun find_offset ::
  "Architecture \<Rightarrow> nat \<Rightarrow> RegisterCSVComposition list \<Rightarrow> RegisterCSVComposition option checked" where
  "find_offset Arch Offset [] = Some None"
| "find_offset Arch Offset (Entry # Entries) = do {
     A \<leftarrow> getReferenceArchitecture (Composition_Register Entry);
     if Arch = A \<and> BaseOffset Entry \<le> Offset \<and> Offset < BaseOffset Entry + CSVCount Entry * CSVSize Entry
     then Some (Some Entry)
     else find_offset Arch Offset Entries }"

definition lookupRegister_at :: "Architecture \<Rightarrow> nat \<Rightarrow> RegisterCSVComposition option checked" where
  "lookupRegister_at Arch Offset = do {
     revng_assert (Offset \<noteq> 0);
     Special \<leftarrow> SpecialRegisters;
     find_offset Arch Offset Special }"

definition UnknownCSVPrefix :: string where
  "UnknownCSVPrefix = ''state_0x''"

definition getCSVName :: "LLVM_hex \<Rightarrow> Register \<Rightarrow> nat \<Rightarrow> string checked" where
  "getCSVName L V Offset = do {
     Composition \<leftarrow> lookupRegister V;
     if BaseOffset Composition = 0
     then do {
       revng_assert (CSVCount Composition = 1);
       Name \<leftarrow> getRegisterName V;
       Some (''_'' @ Name) }
     else Some (''_'' @ UnknownCSVPrefix @ utohexstr_lower L (BaseOffset Composition + Offset)) }"

definition consume_front :: "string \<Rightarrow> string \<Rightarrow> string option" where
  "consume_front Prefix Name = (if prefix Prefix Name then Some (drop (length Prefix) Name) else None)"

definition fromCSVName_offset ::
  "LLVM_hex \<Rightarrow> string \<Rightarrow> Architecture \<Rightarrow> (RegisterCSVComposition option \<times> nat) checked" where
  "fromCSVName_offset L Name Architecture =
     (case consume_front ''_'' Name of
        None \<Rightarrow> Some (None, 0)
      | Some Rest \<Rightarrow> (case consume_front UnknownCSVPrefix Rest of
          None \<Rightarrow> do {
            Deserialized \<leftarrow> fromRegisterName Rest Architecture;
            if Deserialized \<noteq> Register_Invalid
            then map_option (\<lambda>Composition. (Some Composition, 0)) (lookupRegister Deserialized)
            else Some (None, 0) }
        | Some Digits \<Rightarrow> (case getAsInteger_16 L Digits of
            None \<Rightarrow> Some (None, 0)
          | Some FullOffset \<Rightarrow> do {
              Result \<leftarrow> lookupRegister_at Architecture FullOffset;
              case Result of
                None \<Rightarrow> Some (None, 0)
              | Some Entry \<Rightarrow> do {
                  revng_assert (BaseOffset Entry \<le> FullOffset);
                  Some (Some Entry, FullOffset - BaseOffset Entry) } })))"

definition getCSVCount :: "Register \<Rightarrow> nat checked" where
  "getCSVCount V = map_option CSVCount (lookupRegister V)"

definition singleCSVName :: "LLVM_hex \<Rightarrow> Register \<Rightarrow> string checked" where
  "singleCSVName L V = do {
     Pieces \<leftarrow> getCSVCount V;
     revng_assert (Pieces = 1);
     getCSVName L V 0 }"

definition fromCSVName :: "LLVM_hex \<Rightarrow> string \<Rightarrow> Architecture \<Rightarrow> Register checked" where
  "fromCSVName L Name Architecture = do {
     (Result, _) \<leftarrow> fromCSVName_offset L Name Architecture;
     Some (case Result of Some Entry \<Rightarrow> Composition_Register Entry | None \<Rightarrow> Register_Invalid) }"

record CSV =
  CSV_Name :: string
  CSV_StartOffset :: nat
  CSV_Size :: nat

fun getCSVs_from :: "LLVM_hex \<Rightarrow> Register \<Rightarrow> RegisterCSVComposition \<Rightarrow> nat list \<Rightarrow> CSV list checked" where
  "getCSVs_from L V Composition [] = Some []"
| "getCSVs_from L V Composition (Index # Indices) = do {
     Name \<leftarrow> getCSVName L V (Index * CSVSize Composition);
     Rest \<leftarrow> getCSVs_from L V Composition Indices;
     Some (\<lparr>CSV_Name = Name, CSV_StartOffset = Index * CSVSize Composition, CSV_Size = CSVSize Composition\<rparr> # Rest) }"

definition getCSVs :: "LLVM_hex \<Rightarrow> Register \<Rightarrow> CSV list checked" where
  "getCSVs L V = do {
     revng_assert (V \<noteq> Register_Invalid);
     Composition \<leftarrow> lookupRegister V;
     getCSVs_from L V Composition [0..<CSVCount Composition] }"

record Portion =
  Portion_Register :: Register
  StartOffset :: nat
  Portion_Size :: nat

definition Portion_new :: "Register \<Rightarrow> nat \<Rightarrow> Portion checked" where
  "Portion_new Register Size = do {
     Whole \<leftarrow> Register_getSize Register;
     revng_assert (Size \<le> Whole);
     Some \<lparr>Portion_Register = Register, StartOffset = 0, Portion_Size = Size\<rparr> }"

definition Portion_of_CSV :: "LLVM_hex \<Rightarrow> string \<Rightarrow> Architecture \<Rightarrow> Portion checked" where
  "Portion_of_CSV L Name Architecture = do {
     (Composition, Offset) \<leftarrow> fromCSVName_offset L Name Architecture;
     case Composition of
       None \<Rightarrow> Some \<lparr>Portion_Register = Register_Invalid, StartOffset = 0, Portion_Size = 0\<rparr>
     | Some Entry \<Rightarrow> do {
         Whole \<leftarrow> Register_getSize (Composition_Register Entry);
         revng_assert (0 < CSVSize Entry);
         revng_assert (Offset + CSVSize Entry \<le> Whole);
         Some \<lparr>Portion_Register = Composition_Register Entry, StartOffset = Offset, Portion_Size = CSVSize Entry\<rparr> } }"

section \<open>The tables\<close>

lemma upt_1: "[1..<n] = (if 1 < n then 1 # [2..<n] else [])"
  by (simp add: upt_conv_Cons numeral_2_eq_2)

lemma getReferenceArchitecture_eq:
  "getReferenceArchitecture V =
     (if 1 \<le> V \<and> V < 18 then Some x86 else if 18 \<le> V \<and> V < 43 then Some x86_64
      else if 43 \<le> V \<and> V < 67 then Some arm else if 67 \<le> V \<and> V < 131 then Some aarch64
      else if 131 \<le> V \<and> V < 191 then Some mips else if 191 \<le> V \<and> V < 223 then Some systemz else None)"
proof -
  have "getReferenceArchitecture V =
     (if V \<in> set [1..<18] then Some x86 else if V \<in> set [18..<43] then Some x86_64
      else if V \<in> set [43..<67] then Some arm else if V \<in> set [67..<131] then Some aarch64
      else if V \<in> set [131..<191] then Some mips else if V \<in> set [191..<223] then Some systemz else None)"
    unfolding getReferenceArchitecture_def upt_1 by (simp del: set_simps set_upt)
  then show ?thesis unfolding set_upt by simp
qed

lemma Register_getSize_eq:
  "Register_getSize V =
     (if 1 \<le> V \<and> V < 9 then Some 4 else if V = 9 then Some 10 else if 10 \<le> V \<and> V < 34 then Some 8
      else if 34 \<le> V \<and> V < 42 then Some 64 else if V = 42 then Some 2 else if 43 \<le> V \<and> V < 59 then Some 4
      else if 59 \<le> V \<and> V < 67 then Some 16 else if 67 \<le> V \<and> V < 99 then Some 8 else if 99 \<le> V \<and> V < 131 then Some 16
      else if 131 \<le> V \<and> V < 159 then Some 4 else if 159 \<le> V \<and> V < 207 then Some 8
      else if 207 \<le> V \<and> V < 223 then Some 16 else None)"
proof -
  have "Register_getSize V =
     (if V \<in> set [1..<9] then Some 4 else if V \<in> set [9] then Some 10 else if V \<in> set [10..<18] then Some 8
      else if V \<in> set [18..<34] then Some 8
      else if V \<in> set [34..<42] then Some 64 else if V \<in> set [42] then Some 2 else if V \<in> set [43..<59] then Some 4
      else if V \<in> set [59..<67] then Some 16 else if V \<in> set [67..<99] then Some 8 else if V \<in> set [99..<131] then Some 16
      else if V \<in> set [131..<159] then Some 4 else if V \<in> set [159..<191] then Some 8 else if V \<in> set [191..<207] then Some 8
      else if V \<in> set [207..<223] then Some 16 else None)"
    unfolding Register_getSize_def upt_1 by (simp del: set_simps set_upt)
  then show ?thesis unfolding set_upt by simp
qed

lemma getPrimitiveKind_total: "getPrimitiveKind V = None \<longleftrightarrow> \<not> (1 \<le> V \<and> V < 223)"
proof -
  have "getPrimitiveKind V =
     (if V \<in> set ([1..<9] @ [18..<34] @ [43..<59] @ [67..<99] @ [131..<159] @ [191..<207]) then Some PointerOrNumber
      else if V \<in> set ([9..<18] @ [34..<42] @ [59..<67] @ [99..<131] @ [159..<191] @ [207..<223]) then Some Float
      else if V \<in> set [42] then Some Generic else None)"
    unfolding getPrimitiveKind_def upt_1 by (simp del: set_simps set_upt set_append)
  then show ?thesis unfolding set_append set_upt by (simp, arith)
qed

lemma distinct_split:
  assumes "distinct (take n xs)" "distinct (drop n xs)" "list_all P (take n xs)" "list_all (\<lambda>x. \<not> P x) (drop n xs)"
  shows "distinct xs"
proof -
  have "distinct (take n xs @ drop n xs)" unfolding distinct_append using assms by (auto simp: list_all_iff)
  then show ?thesis by simp
qed

definition in_arch :: "string \<Rightarrow> string \<Rightarrow> bool" where
  "in_arch a n \<longleftrightarrow> drop (length n - length a) n = a \<and> \<not> prefix UnknownCSVPrefix n \<and> length a < length n"

lemma member_names:
  "list_all (in_arch ''_x86'') (take 17 Register_members)"
  "list_all (in_arch ''_x86_64'') (take 25 (drop 17 Register_members))"
  "list_all (in_arch ''_arm'') (take 24 (drop 42 Register_members))"
  "list_all (in_arch ''_aarch64'') (take 64 (drop 66 Register_members))"
  "list_all (in_arch ''_mips'') (take 60 (drop 130 Register_members))"
  "list_all (in_arch ''_systemz'') (drop 190 Register_members)"
  unfolding Register_members_def by (simp_all add: in_arch_def UnknownCSVPrefix_def)

lemma member_suffix:
  "list_all (\<lambda>n. \<not> in_arch ''_x86'' n) (drop 17 Register_members)"
  "list_all (\<lambda>n. \<not> in_arch ''_x86_64'' n) (drop 42 Register_members)"
  "list_all (\<lambda>n. \<not> in_arch ''_arm'' n) (drop 66 Register_members)"
  "list_all (\<lambda>n. \<not> in_arch ''_aarch64'' n) (drop 130 Register_members)"
  "list_all (\<lambda>n. \<not> in_arch ''_mips'' n) (drop 190 Register_members)"
  unfolding Register_members_def by (simp_all add: in_arch_def UnknownCSVPrefix_def)

lemma member_parts:
  "distinct (take 17 Register_members)" "distinct (take 25 (drop 17 Register_members))"
  "distinct (take 24 (drop 42 Register_members))" "distinct (take 64 (drop 66 Register_members))"
  "distinct (take 60 (drop 130 Register_members))" "distinct (drop 190 Register_members)"
  unfolding Register_members_def by simp_all

lemma members: "length Register_members = 222"
  unfolding Register_members_def by simp

lemma distinct_members: "distinct Register_members"
proof -
  have "distinct (drop 130 Register_members)"
    by (rule distinct_split [of 60, OF _ _ member_names(5)]) (use member_parts member_suffix in simp_all)
  then have "distinct (drop 66 Register_members)"
    by (intro distinct_split [of 64, OF _ _ member_names(4)]) (use member_parts member_suffix in simp_all)
  then have "distinct (drop 42 Register_members)"
    by (intro distinct_split [of 24, OF _ _ member_names(3)]) (use member_parts member_suffix in simp_all)
  then have "distinct (drop 17 Register_members)"
    by (intro distinct_split [of 25, OF _ _ member_names(2)]) (use member_parts member_suffix in simp_all)
  then show ?thesis
    by (intro distinct_split [of 17, OF _ _ member_names(1)]) (use member_parts member_suffix in simp_all)
qed

lemma special: "SpecialRegisters = Some
  (map (\<lambda>i. \<lparr>Composition_Register = 34 + i, BaseOffset = 0x2b10 + 0x40 * i, CSVCount = 8, CSVSize = 8\<rparr>) [0..<8]
   @ [\<lparr>Composition_Register = 9, BaseOffset = 0x2960, CSVCount = 1, CSVSize = 10\<rparr>])"
  by (simp add: SpecialRegisters_def RegisterCSVComposition_new_def Register_getSize_eq upt_conv_Cons)

section \<open>Names\<close>

lemma member_in_arch:
  assumes "getReferenceArchitecture V = Some A" "Architecture_getName A = Some a"
  shows "in_arch (''_'' @ a) (Register_members ! (V - 1))"
proof -
  have nth: "in_arch b (Register_members ! (V - 1))"
    if "list_all (in_arch b) (take n (drop m Register_members))" "m < V" "V \<le> m + n" "V \<le> 222" for b m n
  proof -
    have "in_arch b (take n (drop m Register_members) ! (V - 1 - m))"
      using that by (intro list_all_length [THEN iffD1, rule_format, OF that(1)]) (simp add: members, arith)
    then show ?thesis using that by (simp add: members)
  qed
  note parts = nth [of "''_x86''" 17 0] nth [of "''_x86_64''" 25 17] nth [of "''_arm''" 24 42] nth [of "''_aarch64''" 64 66]
    nth [of "''_mips''" 60 130] nth [of "''_systemz''" 32 190]
  have last: "take 32 (drop 190 Register_members) = drop 190 Register_members" by (simp add: members)
  show ?thesis using assms parts member_names unfolding last getReferenceArchitecture_eq by (auto split: if_splits)
qed

lemma register_range: "getReferenceArchitecture V = Some A \<Longrightarrow> 1 \<le> V \<and> V < 223"
  by (auto simp: getReferenceArchitecture_eq split: if_splits)

lemma reference_named: "getReferenceArchitecture V = Some A \<Longrightarrow> \<exists>a. Architecture_getName A = Some a \<and> A \<notin> {Architecture_Invalid, mipsel, Architecture_Count}"
  by (auto simp: getReferenceArchitecture_eq split: if_splits)

lemma register_name:
  assumes "getReferenceArchitecture V = Some A" "Architecture_getName A = Some a"
  obtains b where "getRegisterName V = Some b" "Register_getName V = Some (b @ ''_'' @ a)" "\<not> prefix UnknownCSVPrefix b"
proof -
  define n where "n = Register_members ! (V - 1)"
  define b where "b = take (length n - length a - 1) n"
  have i: "drop (length n - Suc (length a)) n = CHR ''_'' # a" "\<not> prefix UnknownCSVPrefix n" "Suc (length a) < length n"
    using member_in_arch [OF assms] by (simp_all add: in_arch_def n_def)
  have n: "n = b @ ''_'' @ a"
    using i(1) append_take_drop_id [of "length n - Suc (length a)" n] by (simp add: b_def)
  have V: "Register_getName V = Some n" using register_range [OF assms(1)] by (simp add: Register_getName_def n_def)
  have "A \<noteq> Architecture_Invalid" using reference_named [OF assms(1)] by auto
  then have "getRegisterName V = Some b"
    using V assms n by (simp add: getRegisterName_def)
  moreover have "\<not> prefix UnknownCSVPrefix b" using i(2) unfolding n by (simp add: prefix_append)
  ultimately show ?thesis using that V n by blast
qed

lemma fromName_member: "distinct Ms \<Longrightarrow> i < length Ms \<Longrightarrow> fromName_from V Ms (Ms ! i) = V + i"
  by (induction V Ms "Ms ! i" arbitrary: i rule: fromName_from.induct) (auto simp: nth_Cons split: nat.splits)

lemma fromName_member_only: "fromName_from V Ms n = R \<Longrightarrow> R \<noteq> Register_Invalid \<Longrightarrow> \<exists>i < length Ms. R = V + i \<and> Ms ! i = n"
proof (induction V Ms n rule: fromName_from.induct)
  case (2 V M Ms n)
  show ?case
  proof (cases "n = M")
    case True
    then show ?thesis using 2 by (intro exI [of _ 0]) simp
  next
    case False
    then obtain i where "i < length Ms" "R = Suc V + i" "Ms ! i = n" using 2 by auto
    then show ?thesis by (intro exI [of _ "Suc i"]) simp
  qed
qed simp

lemma Register_fromName_iff:
  "Register_fromName n = V \<and> V \<noteq> Register_Invalid \<longleftrightarrow> 1 \<le> V \<and> V < Register_Count \<and> Register_members ! (V - 1) = n"
  (is "?l \<longleftrightarrow> ?r")
proof
  assume ?l
  then show ?r using fromName_member_only [of 1 Register_members n V] members by (auto simp: Register_fromName_def)
next
  assume ?r
  then show ?l using fromName_member [OF distinct_members, of "V - 1" 1] members by (auto simp: Register_fromName_def)
qed

section \<open>The properties of names\<close>

lemma used_iff:
  "isUsedInArchitecture R A = Some True \<longleftrightarrow>
    (\<exists>Ref. getReferenceArchitecture R = Some Ref \<and> A \<noteq> Architecture_Invalid \<and> canonicalArchitecture A = Ref)"
proof (cases "getReferenceArchitecture R")
  case (Some Ref)
  then have "Ref \<noteq> mipsel" using reference_named by auto
  then show ?thesis using Some by (auto simp: isUsedInArchitecture_def canonicalArchitecture_def checked_simps)
qed (simp add: isUsedInArchitecture_def)

lemma member_reference:
  assumes "1 \<le> V" "V < Register_Count"
  obtains A a where "getReferenceArchitecture V = Some A" "Architecture_getName A = Some a" "in_arch (''_'' @ a) (Register_members ! (V - 1))"
proof -
  have "getReferenceArchitecture V \<noteq> None" using assms by (auto simp: getReferenceArchitecture_eq)
  then obtain A where A: "getReferenceArchitecture V = Some A" by auto
  then show ?thesis using reference_named [OF A] member_in_arch [OF A] that by blast
qed

lemma arch_suffix:
  assumes "in_arch (''_'' @ a) (b @ ''_'' @ c)" "Architecture_getName A = Some a" "Architecture_getName C = Some c"
  shows "A = C"
proof -
  have "suffix (''_'' @ a) (b @ ''_'' @ c)"
    using assms(1) append_take_drop_id [of "length (b @ ''_'' @ c) - length (''_'' @ a)" "b @ ''_'' @ c"]
    unfolding in_arch_def suffix_def by metis
  moreover have "suffix (''_'' @ c) (b @ ''_'' @ c)" by (simp add: suffix_def)
  ultimately have "suffix (''_'' @ a) (''_'' @ c) \<or> suffix (''_'' @ c) (''_'' @ a)" by (rule suffix_same_cases)
  then show ?thesis using assms(2,3) by (cases A; cases C) (auto simp: suffix_to_prefix)
qed

lemma fromRegisterName_iff:
  "fromRegisterName Name A = Some R \<and> R \<noteq> Register_Invalid
    \<longleftrightarrow> isUsedInArchitecture R A = Some True \<and> getRegisterName R = Some Name" (is "?l \<longleftrightarrow> ?r")
proof
  assume ?l
  then obtain c where c: "Architecture_getName (canonicalArchitecture A) = Some c" and
      R: "Register_fromName (Name @ ''_'' @ c) = R \<and> R \<noteq> Register_Invalid"
    by (auto simp: fromRegisterName_def checked_simps)
  have r: "1 \<le> R" "R < Register_Count" "Register_members ! (R - 1) = Name @ ''_'' @ c"
    using R unfolding Register_fromName_iff by simp_all
  obtain B a where B: "getReferenceArchitecture R = Some B" "Architecture_getName B = Some a"
      "in_arch (''_'' @ a) (Register_members ! (R - 1))"
    using member_reference [OF r(1,2)] .
  have eq: "B = canonicalArchitecture A" by (rule arch_suffix [OF B(3) [unfolded r(3)] B(2) c])
  obtain b where b: "getRegisterName R = Some b" "Register_getName R = Some (b @ ''_'' @ a)" using register_name [OF B(1,2)] .
  have "b = Name" using b(2) r c B(2) unfolding eq by (simp add: Register_getName_def)
  moreover have "A \<noteq> Architecture_Invalid" using reference_named [OF B(1)] eq by (auto simp: canonicalArchitecture_def)
  ultimately show ?r using B(1) b(1) eq unfolding used_iff by simp
next
  assume r: ?r
  then obtain B where B: "getReferenceArchitecture R = Some B" "canonicalArchitecture A = B" unfolding used_iff by blast
  then obtain a where a: "Architecture_getName B = Some a" using reference_named by blast
  obtain b where b: "getRegisterName R = Some b" "Register_getName R = Some (b @ ''_'' @ a)" using register_name [OF B(1) a] .
  have V: "1 \<le> R \<and> R < Register_Count \<and> Register_members ! (R - 1) = Name @ ''_'' @ a"
    using register_range [OF B(1)] b r by (simp add: Register_getName_def)
  then show ?l using a B(2) unfolding Register_fromName_iff [symmetric] by (simp add: fromRegisterName_def)
qed

text \<open>
  \<^bold>\<open>Fact\<close>. Names and registers correspond: on an architecture, the name of a register is looked up to the
  register exactly when the architecture uses the register (\<^verbatim>\<open>mipsel\<close> uses those of \<^verbatim>\<open>mips\<close>) and the name
  is the one \<^verbatim>\<open>getRegisterName\<close> gives it.
\<close>

theorem register_name_roundtrip:
  "fromRegisterName Name A = Some R \<and> R \<noteq> Register_Invalid
    \<longleftrightarrow> isUsedInArchitecture R A = Some True \<and> getRegisterName R = Some Name"
  by (rule fromRegisterName_iff)

lemma used_range:
  "isUsedInArchitecture R A = Some True \<longleftrightarrow>
    (case getFirst A of Some l \<Rightarrow> (case getLast A of Some u \<Rightarrow> l \<le> R \<and> R \<le> u | None \<Rightarrow> False) | None \<Rightarrow> False)"
  unfolding used_iff getReferenceArchitecture_eq canonicalArchitecture_def
  by (cases A) (auto split: if_splits)


section \<open>The CSVs\<close>

lemma find_special:
  "List.find (\<lambda>E. Composition_Register E = V)
     (map (\<lambda>i. \<lparr>Composition_Register = 34 + i, BaseOffset = 0x2b10 + 0x40 * i, CSVCount = 8, CSVSize = 8\<rparr>) [k..<8])
   = (if 34 + k \<le> V \<and> V < 42 then Some \<lparr>Composition_Register = V, BaseOffset = 0x2b10 + 0x40 * (V - 34), CSVCount = 8, CSVSize = 8\<rparr> else None)"
proof (induction "8 - k" arbitrary: k)
  case (Suc d)
  then have "k < 8" by simp
  then show ?case using Suc(1) [of "Suc k"] Suc(2) by (auto simp: upt_conv_Cons)
qed auto

lemma find_append: "List.find P (xs @ ys) = (case List.find P xs of Some x \<Rightarrow> Some x | None \<Rightarrow> List.find P ys)"
  by (induction xs) auto

lemma lookupRegister_eq:
  assumes "Register_getSize V = Some s"
  shows "lookupRegister V = Some
    (if 34 \<le> V \<and> V < 42 then \<lparr>Composition_Register = V, BaseOffset = 0x2b10 + 0x40 * (V - 34), CSVCount = 8, CSVSize = 8\<rparr>
     else if V = 9 then \<lparr>Composition_Register = V, BaseOffset = 0x2960, CSVCount = 1, CSVSize = 10\<rparr>
     else \<lparr>Composition_Register = V, BaseOffset = 0, CSVCount = 1, CSVSize = s\<rparr>)"
proof -
  have "Register_getSize 0 = None" by (simp add: Register_getSize_eq)
  then have "V \<noteq> 0" using assms by (cases "V = 0") simp_all
  then show ?thesis using assms
    by (auto simp: lookupRegister_def special find_append find_special [of V 0, simplified] RegisterCSVComposition_new_def)
qed

lemma find_offset_append:
  "find_offset A v (xs @ ys) = find_offset A v xs \<bind> (\<lambda>r. case r of Some E \<Rightarrow> Some (Some E) | None \<Rightarrow> find_offset A v ys)"
  by (induction xs) (simp_all add: Let_def split: bind_splits)

lemma find_offset_special:
  "find_offset A v
     (map (\<lambda>i. \<lparr>Composition_Register = 34 + i, BaseOffset = 0x2b10 + 0x40 * i, CSVCount = 8, CSVSize = 8\<rparr>) [k..<8])
   = Some (if A = x86_64 \<and> 0x2b10 + 0x40 * k \<le> v \<and> v < 0x2d10
           then Some \<lparr>Composition_Register = 34 + (v - 0x2b10) div 0x40, BaseOffset = 0x2b10 + 0x40 * ((v - 0x2b10) div 0x40), CSVCount = 8, CSVSize = 8\<rparr>
           else None)"
proof (induction "8 - k" arbitrary: k)
  case (Suc d)
  then have k: "k < 8" by simp
  have "(v - 0x2b10) div 0x40 = k" if "0x2b10 + 0x40 * k \<le> v" "v < 0x2b10 + 0x40 * k + 0x40"
  proof -
    have "v - 0x2b10 = 0x40 * k + (v - (0x2b10 + 0x40 * k))" using that by simp
    then show ?thesis using that by (simp add: div_eq_dividend_iff)
  qed
  then show ?case using Suc(1) [of "Suc k"] Suc(2) k by (auto simp: upt_conv_Cons getReferenceArchitecture_eq)
qed auto

lemma lookupRegister_at_eq:
  "lookupRegister_at A v = (if v = 0 then None else Some
     (if A = x86_64 \<and> 0x2b10 \<le> v \<and> v < 0x2d10
      then Some \<lparr>Composition_Register = 34 + (v - 0x2b10) div 0x40, BaseOffset = 0x2b10 + 0x40 * ((v - 0x2b10) div 0x40), CSVCount = 8, CSVSize = 8\<rparr>
      else if A = x86 \<and> 0x2960 \<le> v \<and> v < 0x296a
      then Some \<lparr>Composition_Register = 9, BaseOffset = 0x2960, CSVCount = 1, CSVSize = 10\<rparr>
      else None))"
  unfolding lookupRegister_at_def special
  by (simp add: find_offset_append find_offset_special [of A v 0, simplified] getReferenceArchitecture_eq)

text \<open>What LLVM promises of hexadecimal numbers.\<close>

locale llvm_hex =
  fixes L :: LLVM_hex
  assumes hex_roundtrip: "v < 2 ^ 64 \<Longrightarrow> getAsInteger_16 L (utohexstr_lower L v) = Some v"

definition to_lower :: "char \<Rightarrow> char" where
  "to_lower c = (case map_of (zip ''ABCDEF'' ''abcdef'') c of Some d \<Rightarrow> d | None \<Rightarrow> c)"

definition to_upper :: "char \<Rightarrow> char" where
  "to_upper c = (case map_of (zip ''abcdef'' ''ABCDEF'') c of Some d \<Rightarrow> d | None \<Rightarrow> c)"

definition list_hex :: LLVM_hex where
  "list_hex = \<lparr>utohexstr_lower = (\<lambda>v. map to_lower (in_base 16 v)),
     getAsInteger_16 = (\<lambda>s. if s = [] then None else bounded 64 (parse_digits 16 0 (map to_upper s)))\<rparr>"

interpretation list_hex: llvm_hex list_hex
proof
  fix v :: nat
  assume v: "v < 2 ^ 64"
  have "\<forall>c \<in> set ''0123456789ABCDEF''. to_upper (to_lower c) = c" by (simp add: to_upper_def to_lower_def)
  then have "map to_upper (map to_lower (in_base 16 v)) = in_base 16 v"
    using set_digits [of 16 v] unfolding digit_chars map_map by (intro map_idI) (auto simp del: set_simps)
  then show "getAsInteger_16 list_hex (utohexstr_lower list_hex v) = Some v"
    using v digits_nonempty [of 16 v] by (simp add: list_hex_def bounded_def parse_digits)
qed

context llvm_hex
begin

lemma offset_of_hex:
  assumes "v < 2 ^ 64" "lookupRegister_at A v = Some (Some E)" "BaseOffset E \<le> v"
  shows "fromCSVName_offset L (''_'' @ UnknownCSVPrefix @ utohexstr_lower L v) A = Some (Some E, v - BaseOffset E)"
  using assms hex_roundtrip [OF assms(1)] by (simp add: fromCSVName_offset_def consume_front_def)

end

lemma offset_of_name:
  assumes "isUsedInArchitecture R A = Some True" "getRegisterName R = Some b" "\<not> prefix UnknownCSVPrefix b" "lookupRegister R = Some E"
  shows "fromCSVName_offset L (''_'' @ b) A = Some (Some E, 0)"
proof -
  have "fromRegisterName b A = Some R \<and> R \<noteq> Register_Invalid" unfolding fromRegisterName_iff using assms(1,2) by simp
  then show ?thesis using assms(3,4) by (simp add: fromCSVName_offset_def consume_front_def)
qed

lemma getCSVs_from_eq:
  "\<forall>i \<in> set Is. getCSVName L V (i * CSVSize E) = Some (N i) \<Longrightarrow>
    getCSVs_from L V E Is = Some (map (\<lambda>i. \<lparr>CSV_Name = N i, CSV_StartOffset = i * CSVSize E, CSV_Size = CSVSize E\<rparr>) Is)"
  by (induction Is) simp_all

text \<open>
  What is to be shown of the CSVs of a register, from the names that a composition gives them.
\<close>

lemma csvs_of_composition:
  assumes E: "lookupRegister R = Some E" "Composition_Register E = R" "R \<noteq> Register_Invalid"
    and size: "Register_getSize R = Some (CSVCount E * CSVSize E)" "0 < CSVSize E"
    and names: "\<And>i. i < CSVCount E \<Longrightarrow> getCSVName L R (i * CSVSize E) = Some (N i)"
      "\<And>i. i < CSVCount E \<Longrightarrow> fromCSVName_offset L (N i) A = Some (Some E, i * CSVSize E)"
  shows "\<exists>Cs. getCSVs L R = Some Cs \<and> Register_getSize R = Some (sum_list (map CSV_Size Cs))
    \<and> (\<forall>i < length Cs. CSV_StartOffset (Cs ! i) = sum_list (map CSV_Size (take i Cs))
        \<and> fromCSVName L (CSV_Name (Cs ! i)) A = Some R
        \<and> Portion_of_CSV L (CSV_Name (Cs ! i)) A =
            Some \<lparr>Portion_Register = R, StartOffset = CSV_StartOffset (Cs ! i), Portion_Size = CSV_Size (Cs ! i)\<rparr>)"
proof -
  let ?Cs = "map (\<lambda>i. \<lparr>CSV_Name = N i, CSV_StartOffset = i * CSVSize E, CSV_Size = CSVSize E\<rparr>) [0..<CSVCount E]"
  have "getCSVs L R = Some ?Cs" using E(1,3) names(1) by (simp add: getCSVs_def getCSVs_from_eq)
  moreover have "sum_list (map CSV_Size ?Cs) = CSVCount E * CSVSize E" by (simp add: comp_def sum_list_triv)
  moreover have "sum_list (map CSV_Size (take i ?Cs)) = i * CSVSize E" if "i < CSVCount E" for i
    using that by (simp add: take_map comp_def sum_list_triv)
  moreover have "Portion_of_CSV L (N i) A = Some \<lparr>Portion_Register = R, StartOffset = i * CSVSize E, Portion_Size = CSVSize E\<rparr>"
    if "i < CSVCount E" for i
  proof -
    have "i * CSVSize E + CSVSize E \<le> CSVCount E * CSVSize E" using that mult_le_mono1 [of "Suc i" "CSVCount E" "CSVSize E"] by simp
    then show ?thesis using names(2) [OF that] E(2) size by (simp add: Portion_of_CSV_def)
  qed
  moreover have "fromCSVName L (N i) A = Some R" if "i < CSVCount E" for i
    using names(2) [OF that] E(2) by (simp add: fromCSVName_def)
  ultimately show ?thesis using size(1) by (intro exI [of _ ?Cs]) simp
qed

lemma used_size:
  assumes "isUsedInArchitecture R A = Some True"
  obtains s b where "Register_getSize R = Some s" "0 < s" "getRegisterName R = Some b" "\<not> prefix UnknownCSVPrefix b"
    "34 \<le> R \<and> R < 42 \<Longrightarrow> s = 64 \<and> A = x86_64" "R = 9 \<Longrightarrow> s = 10 \<and> A = x86" "R \<noteq> Register_Invalid"
proof -
  obtain B where B: "getReferenceArchitecture R = Some B" "canonicalArchitecture A = B" using assms unfolding used_iff by blast
  obtain a where "Architecture_getName B = Some a" using reference_named [OF B(1)] by blast
  then obtain b where b: "getRegisterName R = Some b" "\<not> prefix UnknownCSVPrefix b" using register_name [OF B(1)] by blast
  note r = register_range [OF B(1)]
  have "Register_getSize R \<noteq> None" "Register_getSize R \<noteq> Some 0" using r by (simp_all add: Register_getSize_eq)
  then obtain s where s: "Register_getSize R = Some s" "0 < s" by (cases "Register_getSize R") auto
  have "s = 64 \<and> A = x86_64" if "34 \<le> R \<and> R < 42"
    using that s(1) B by (simp add: Register_getSize_eq getReferenceArchitecture_eq canonicalArchitecture_def split: if_splits)
  moreover have "s = 10 \<and> A = x86" if "R = 9"
    using that s(1) B by (simp add: Register_getSize_eq getReferenceArchitecture_eq canonicalArchitecture_def split: if_splits)
  ultimately show ?thesis using that s b r by simp
qed

section \<open>The properties of CSVs\<close>





text \<open>
  \<^bold>\<open>Fact\<close>. \<^verbatim>\<open>allRegisters\<close> yields every register, but those of MIPS twice, as it enumerates both
  architectures that use them.
\<close>

theorem allRegisters_repeats_mips:
  "\<exists>Rs. allRegisters = Some Rs \<and> set Rs = {R. getReferenceArchitecture R \<noteq> None}
    \<and> (\<forall>R. count (mset Rs) R =
        (if getReferenceArchitecture R = None then 0 else if getReferenceArchitecture R = Some mips then 2 else 1))"
proof -
  let ?Rs = "[1..<18] @ [18..<43] @ [43..<67] @ [67..<131] @ [131..<191] @ [131..<191] @ [191..<223]"
  have rs: "registers x86 = Some [1..<18]" "registers x86_64 = Some [18..<43]" "registers arm = Some [43..<67]"
    "registers aarch64 = Some [67..<131]" "registers mips = Some [131..<191]" "registers mipsel = Some [131..<191]"
    "registers systemz = Some [191..<223]"
    by (simp_all add: registers_def del: upt_Suc upt_rec_numeral)
  have "allRegisters = Some ?Rs" unfolding allRegisters_def rs by (simp del: upt_rec_numeral)
  moreover have "set ?Rs = {R. getReferenceArchitecture R \<noteq> None}"
    by (auto simp: getReferenceArchitecture_eq simp del: upt_rec_numeral split: if_splits)
  moreover have count: "count (mset [l..<u]) R = (if l \<le> R \<and> R < u then 1 else 0)" for l u R :: nat
    using distinct_count_atmost_1 [of "[l..<u]"] by simp
  have "count (mset ?Rs) R =
        (if getReferenceArchitecture R = None then 0 else if getReferenceArchitecture R = Some mips then 2 else 1)" for R
    unfolding mset_append count_union count getReferenceArchitecture_eq by auto
  ultimately show ?thesis by blast
qed


end
