(* ===== verification/Rua_Build.thy ===== *)
theory Rua_Build
  imports Register_Usage Rua_Simplify Register_Model
begin

text \<open>
  \<^verbatim>\<open>fromLLVMFunction\<close> (src/lib/EarlyFunctionAnalysis/AnalyzeRegisterUsage.cpp): the graph of register
  operations of an LLVM function. What the code asks of LLVM, and of the model of registers, is a
  parameter. The graph is shown to fit the analyses: it is well formed, its call sites are nodes
  and every node reaches the sink.
\<close>

section \<open>What the code sees of LLVM\<close>

text \<open>
  \<open>'v\<close> are values (instructions among them), \<open>'f\<close> functions, \<open>'b\<close> basic blocks and \<open>'c\<close> global
  variables. \<open>LoadInst\<close>, \<open>StoreInst\<close>, \<open>CallInst\<close> and \<open>GlobalVariable\<close> are the \<^verbatim>\<open>dyn_cast\<close>s with the
  operands the code reads: the pointer; the value and the pointer; the called operand and the
  arguments; \<open>LLVM_hex_of\<close> are LLVM's hexadecimal numbers. \<open>inverse_depth_first\<close> is the set
  \<^verbatim>\<open>Visited\<close> after the traversal from a node against the edges.
\<close>

record ('b, 'v, 'f, 'c) LLVM_ops =
  depth_first :: "'b list"
  F_blocks :: "'b list"
  getEntryBlock :: 'b
  BB_getName :: "'b \<Rightarrow> string"
  BB_instructions :: "'b \<Rightarrow> 'v list"
  BB_successors :: "'b \<Rightarrow> 'b list"
  hasIgnoreMetadata :: "'v \<Rightarrow> bool"
  LoadInst :: "'v \<Rightarrow> 'v option"
  StoreInst :: "'v \<Rightarrow> ('v \<times> 'v) option"
  CallInst :: "'v \<Rightarrow> ('v \<times> 'v list) option"
  asFunction :: "'v \<Rightarrow> 'f option"
  cast_operand :: "'v \<Rightarrow> 'v option"
  GlobalVariable :: "'v \<Rightarrow> 'c option"
  isClobbererFunction :: "'f \<Rightarrow> bool"
  isWriterFunction :: "'f \<Rightarrow> bool"
  constantString :: "'v \<Rightarrow> string"
  GV_getName :: "'c \<Rightarrow> string"
  LLVM_hex_of :: LLVM_hex
  inverse_depth_first :: "(ptr \<Rightarrow> ptr list) \<Rightarrow> ptr \<Rightarrow> ptr set"

section \<open>Translating the blocks\<close>

text \<open>
  \<open>cast_operand\<close> is the operand of a cast, instruction or constant expression. A chain of casts that
  does not end, which LLVM has none of, has no function at its end.
\<close>

definition getCalledFunction :: "('b, 'v, 'f, 'c) LLVM_ops \<Rightarrow> 'v \<Rightarrow> 'f option" where
  "getCalledFunction M CalledOperand = asFunction M CalledOperand"

partial_function (option) skipCasts :: "('b, 'v, 'f, 'c) LLVM_ops \<Rightarrow> 'v \<Rightarrow> 'v option" where
  "skipCasts M V = (case cast_operand M V of Some Operand \<Rightarrow> skipCasts M Operand | None \<Rightarrow> Some V)"

definition getCallee :: "('b, 'v, 'f, 'c) LLVM_ops \<Rightarrow> 'v \<Rightarrow> 'f option" where
  "getCallee M I = do { (CalledOperand, _) \<leftarrow> CallInst M I; V \<leftarrow> skipCasts M CalledOperand; asFunction M V }"

definition isCallTo :: "('b, 'v, 'f, 'c) LLVM_ops \<Rightarrow> 'v \<Rightarrow> 'f \<Rightarrow> bool" where
  "isCallTo M I F = (case getCallee M I of Some Called \<Rightarrow> Called = F | None \<Rightarrow> False)"

definition storeType :: "('b, 'v, 'f, 'c) LLVM_ops \<Rightarrow> 'v \<Rightarrow> OperationType" where
  "storeType M V =
     (let Called = (case CallInst M V of Some (CalledOperand, _) \<Rightarrow> getCalledFunction M CalledOperand | None \<Rightarrow> None)
      in case Called of
           Some CalledF \<Rightarrow> if isClobbererFunction M CalledF \<or> isWriterFunction M CalledF then Clobber else Write
         | None \<Rightarrow> Write)"

text \<open>The state of the construction; a new node gets an address that no node has.\<close>

record ('b, 'c) BuildState =
  bs_Result :: "'c FunctionToAnalyze"
  Preserve :: "ptr set"
  BlocksMap :: "'b \<rightharpoonup> ptr"

definition new_block :: "string \<Rightarrow> 'c Function \<Rightarrow> ptr \<times> 'c Function" where
  "new_block L F =
     (let n = fresh_ptr (Graph F) in (n, F\<lparr>Graph := addNode n \<lparr>Label = L, Operations = []\<rparr> (Graph F)\<rparr>))"

definition update_heap :: "((unit, Block) heap \<Rightarrow> (unit, Block) heap) \<Rightarrow> 'c Function \<Rightarrow> 'c Function" where
  "update_heap f F = F\<lparr>Graph := (Graph F)\<lparr>Heap := f (Heap (Graph F))\<rparr>\<rparr>"

definition CreateOperation ::
  "('b, 'v, 'f, 'c) LLVM_ops \<Rightarrow> Architecture \<Rightarrow> Register \<Rightarrow> ptr \<Rightarrow> OperationType \<Rightarrow> 'v \<Rightarrow> 'c Function
    \<Rightarrow> 'c Function checked" where
  "CreateOperation M Arch StackPointer NewNode T Pointer F =
     (case GlobalVariable M Pointer of
        None \<Rightarrow> Some F
      | Some CSV \<Rightarrow> do {
          R \<leftarrow> fromCSVName (LLVM_hex_of M) (GV_getName M CSV) Arch;
          if R \<noteq> Register_Invalid \<and> R \<noteq> StackPointer
          then do {
            (Index, F') \<leftarrow> csvIndex CSV F;
            Some (update_heap (push_operations NewNode [\<lparr>Operation.Type = T, Target = Index\<rparr>]) F') }
          else Some F })"

text \<open>The markers. \<open>It\<close> is the position of the instruction in its block.\<close>

definition translate_marker ::
  "LLVM_strings \<Rightarrow> ('b, 'v, 'f, 'c) LLVM_ops \<Rightarrow> 'f \<Rightarrow> 'f \<Rightarrow> 'f \<Rightarrow> 'v list \<Rightarrow> ptr \<Rightarrow> nat \<Rightarrow> 'v \<Rightarrow> 'v list
    \<Rightarrow> ('b, 'c) BuildState \<Rightarrow> ('b, 'c) BuildState checked" where
  "translate_marker L M PreCallSiteHook PostCallSiteHook RetHook Is NewNode It I Args S = do {
     Arg0 \<leftarrow> at Args 0;
     PC \<leftarrow> bbid_fromString L (constantString M Arg0);
     revng_assert (bbid_isValid PC);
     let A = bs_Result S;
     (if isCallTo M I PreCallSiteHook
      then do {
        let Site = sm_at CallSite_default (fta_CallSites A) PC;
        revng_assert (It = 0);
        revng_assert (2 \<le> length Is \<and> isCallTo M (Is ! (length Is - 2)) PostCallSiteHook);
        Arg1 \<leftarrow> at Args 1;
        C \<leftarrow> ma_fromString L (constantString M Arg1);
        Site' \<leftarrow> setCallee C (Site\<lparr>CallSite_Block := NewNode\<rparr>);
        Some (S\<lparr>bs_Result := A\<lparr>fta_CallSites := sm_update PC Site' (fta_CallSites A)\<rparr>,
                Preserve := insert NewNode (Preserve S)\<rparr>) }
      else if isCallTo M I PostCallSiteHook
      then do {
        revng_assert (2 \<le> length Is \<and> It = length Is - 2);
        Site \<leftarrow> map_of (fta_CallSites A) PC;
        revng_assert (CallSite_Block Site = NewNode);
        Some S }
      else Some (S\<lparr>bs_Result := A\<lparr>fta_Function := update_heap (addSuccessor NewNode (ReturnNode A) ()) (fta_Function A)\<rparr>\<rparr>)) }"

definition with_function :: "('b, 'c) BuildState \<Rightarrow> 'c Function checked \<Rightarrow> ('b, 'c) BuildState checked" where
  "with_function S F = map_option (\<lambda>F'. S\<lparr>bs_Result := (bs_Result S)\<lparr>fta_Function := F'\<rparr>\<rparr>) F"

definition translate_instruction ::
  "LLVM_strings \<Rightarrow> ('b, 'v, 'f, 'c) LLVM_ops \<Rightarrow> Architecture \<Rightarrow> Register \<Rightarrow> 'f \<Rightarrow> 'f \<Rightarrow> 'f \<Rightarrow> 'v list \<Rightarrow> ptr \<Rightarrow> nat \<Rightarrow> 'v
    \<Rightarrow> ('b, 'c) BuildState \<Rightarrow> ('b, 'c) BuildState checked" where
  "translate_instruction L M Arch SP PreCallSiteHook PostCallSiteHook RetHook Is NewNode It I S =
     (let F = fta_Function (bs_Result S) in
      if hasIgnoreMetadata M I then Some S
      else case LoadInst M I of
        Some Pointer \<Rightarrow> with_function S (CreateOperation M Arch SP NewNode Read Pointer F)
      | None \<Rightarrow> (case StoreInst M I of
          Some (Val, Pointer) \<Rightarrow> with_function S (CreateOperation M Arch SP NewNode (storeType M Val) Pointer F)
        | None \<Rightarrow> (case CallInst M I of
            Some (_, Args) \<Rightarrow>
              if isCallTo M I PreCallSiteHook \<or> isCallTo M I PostCallSiteHook \<or> isCallTo M I RetHook
              then translate_marker L M PreCallSiteHook PostCallSiteHook RetHook Is NewNode It I Args S
              else Some S
          | None \<Rightarrow> Some S)))"

fun translate_instructions ::
  "LLVM_strings \<Rightarrow> ('b, 'v, 'f, 'c) LLVM_ops \<Rightarrow> Architecture \<Rightarrow> Register \<Rightarrow> 'f \<Rightarrow> 'f \<Rightarrow> 'f \<Rightarrow> 'v list \<Rightarrow> ptr \<Rightarrow> nat \<Rightarrow> 'v list
    \<Rightarrow> ('b, 'c) BuildState \<Rightarrow> ('b, 'c) BuildState checked" where
  "translate_instructions L M Arch SP Pre Post Ret Is NewNode It [] S = Some S"
| "translate_instructions L M Arch SP Pre Post Ret Is NewNode It (I # Rest) S = do {
     S' \<leftarrow> translate_instruction L M Arch SP Pre Post Ret Is NewNode It I S;
     translate_instructions L M Arch SP Pre Post Ret Is NewNode (Suc It) Rest S' }"

fun translate_blocks ::
  "LLVM_strings \<Rightarrow> ('b, 'v, 'f, 'c) LLVM_ops \<Rightarrow> Architecture \<Rightarrow> Register \<Rightarrow> 'f \<Rightarrow> 'f \<Rightarrow> 'f \<Rightarrow> 'b list
    \<Rightarrow> ('b, 'c) BuildState \<Rightarrow> ('b, 'c) BuildState checked" where
  "translate_blocks L M Arch SP Pre Post Ret [] S = Some S"
| "translate_blocks L M Arch SP Pre Post Ret (BB # BBs) S = do {
     let (NewNode, F) = new_block (BB_getName M BB) (fta_Function (bs_Result S));
     let S1 = S\<lparr>bs_Result := (bs_Result S)\<lparr>fta_Function := F\<rparr>, BlocksMap := (BlocksMap S)(BB \<mapsto> NewNode)\<rparr>;
     S2 \<leftarrow> translate_instructions L M Arch SP Pre Post Ret (BB_instructions M BB) NewNode 0 (BB_instructions M BB) S1;
     translate_blocks L M Arch SP Pre Post Ret BBs S2 }"

section \<open>Edges\<close>

fun create_block_edges ::
  "('b \<rightharpoonup> ptr) \<Rightarrow> ptr \<Rightarrow> 'b list \<Rightarrow> 'c Function \<Rightarrow> 'c Function checked" where
  "create_block_edges Blocks Node [] F = Some F"
| "create_block_edges Blocks Node (Successor # Rest) F = do {
     SuccessorNode \<leftarrow> Blocks Successor;
     create_block_edges Blocks Node Rest (update_heap (addSuccessor Node SuccessorNode ()) F) }"

fun create_edges ::
  "('b, 'v, 'f, 'c) LLVM_ops \<Rightarrow> ('b \<rightharpoonup> ptr) \<Rightarrow> 'b list \<Rightarrow> 'c Function \<Rightarrow> 'c Function checked" where
  "create_edges M Blocks [] F = Some F"
| "create_edges M Blocks (BB # BBs) F =
     (case Blocks BB of
        None \<Rightarrow> create_edges M Blocks BBs F
      | Some Node \<Rightarrow> do {
          F' \<leftarrow> create_block_edges Blocks Node (BB_successors M BB) F;
          create_edges M Blocks BBs F' })"

definition findUnrechableNode :: "('b, 'v, 'f, 'c) LLVM_ops \<Rightarrow> ptr \<Rightarrow> 'c Function \<Rightarrow> ptr option" where
  "findUnrechableNode M From F =
     (let Visited = inverse_depth_first M (predecessors_of (Heap (Graph F))) From
      in List.find (\<lambda>Node. Node \<notin> Visited) (Nodes (Graph F)))"

text \<open>The loop that connects the nodes to the sink; \<^term>\<open>None\<close> when it does not end.\<close>

partial_function (option) connect_sink ::
  "('b, 'v, 'f, 'c) LLVM_ops \<Rightarrow> ptr \<Rightarrow> 'c Function \<Rightarrow> 'c Function option" where
  "connect_sink M Sink F =
     (case findUnrechableNode M Sink F of
        None \<Rightarrow> Some F
      | Some Node \<Rightarrow> connect_sink M Sink (update_heap (addPredecessor Sink Node ()) F))"

section \<open>The construction\<close>

definition empty_function :: "'c Function" where
  "empty_function = \<lparr>IndexToCSV = Map.empty, CSVToIndex = Map.empty,
     Graph = \<lparr>EntryNode = nullptr, Nodes = [],
       Heap = (\<lambda>_. \<lparr>Successors = [], Predecessors = [], NodeData = \<lparr>Label = [], Operations = []\<rparr>\<rparr>)\<rparr>\<rparr>"

definition build_start :: "('b, 'c) BuildState" where
  "build_start =
     (let (Return, F1) = new_block ''ReturnNode'' empty_function;
          (Sink, F2) = new_block ''SinkNode'' F1;
          F3 = update_heap (addSuccessor Return Sink ()) F2
      in \<lparr>bs_Result = \<lparr>fta_Function = F3, fta_CallSites = [], ReturnNode = Return, SinkNode = Sink\<rparr>,
          Preserve = {Return, Sink}, BlocksMap = Map.empty\<rparr>)"

definition translate_function ::
  "LLVM_strings \<Rightarrow> ('b, 'v, 'f, 'c) LLVM_ops \<Rightarrow> Architecture \<Rightarrow> 'f \<Rightarrow> 'f \<Rightarrow> 'f \<Rightarrow> ('b, 'c) BuildState checked" where
  "translate_function L M Arch Pre Post Ret = do {
     SP \<leftarrow> getStackPointer Arch;
     S \<leftarrow> translate_blocks L M Arch SP Pre Post Ret (depth_first M) build_start;
     let Entry = (case BlocksMap S (getEntryBlock M) of Some n \<Rightarrow> n | None \<Rightarrow> nullptr);
     let F = fta_Function (bs_Result S);
     F' \<leftarrow> create_edges M (BlocksMap S) (F_blocks M) (F\<lparr>Graph := setEntryNode Entry (Graph F)\<rparr>);
     Some (S\<lparr>bs_Result := (bs_Result S)\<lparr>fta_Function := F'\<rparr>\<rparr>) }"

definition fromLLVMFunction ::
  "LLVM_strings \<Rightarrow> ('b, 'v, 'f, 'c) LLVM_ops \<Rightarrow> Architecture \<Rightarrow> 'f \<Rightarrow> 'f \<Rightarrow> 'f \<Rightarrow> 'c FunctionToAnalyze checked" where
  "fromLLVMFunction L M Arch Pre Post Ret = do {
     S \<leftarrow> translate_function L M Arch Pre Post Ret;
     F1 \<leftarrow> connect_sink M (SinkNode (bs_Result S)) (fta_Function (bs_Result S));
     F2 \<leftarrow> simplify (Preserve S) F1;
     Some ((bs_Result S)\<lparr>fta_Function := F2\<rparr>) }"

section \<open>The functions under construction\<close>

definition func_inv :: "'c Function \<Rightarrow> bool" where
  "func_inv F \<longleftrightarrow> graph_wf (Graph F) \<and> csv_wf F
     \<and> (\<forall>n. \<forall>Op \<in> set (block_ops F n). Operation.Type Op \<noteq> OperationType.Invalid \<and> unat (Target Op) < card (dom (IndexToCSV F)))"

lemma csvIndex_correct:
  assumes "csv_wf F" "csvIndex c F = Some (i, F')"
  shows "csv_wf F'" "Graph F' = Graph F" "unat i < card (dom (IndexToCSV F'))"
    "card (dom (IndexToCSV F)) \<le> card (dom (IndexToCSV F'))"
proof -
  have "csv_wf F' \<and> Graph F' = Graph F \<and> unat i < card (dom (IndexToCSV F'))
      \<and> card (dom (IndexToCSV F)) \<le> card (dom (IndexToCSV F'))"
  proof (cases "CSVToIndex F c")
    case (Some k)
    then have k: "i = k" "F' = F" using assms(2) by (simp_all add: csvIndex_def)
    have "IndexToCSV F k = Some c" using assms(1) Some by (simp add: csv_wf_def)
    then have "k \<in> dom (IndexToCSV F)" by blast
    moreover have d: "dom (IndexToCSV F) = word_of_nat ` {..<card (dom (IndexToCSV F))}" using assms(1) by (simp only: csv_wf_def)
    ultimately obtain m where m: "k = word_of_nat m" "m < card (dom (IndexToCSV F))" by auto
    have "unat k \<le> m" unfolding m(1) by (simp add: unat_of_nat)
    then show ?thesis using k m(2) assms(1) by simp
  next
    case None
    have n: "card (dom (CSVToIndex F)) = card (dom (IndexToCSV F))" by (rule card_csv_maps [OF assms(1)])
    have "card (dom (IndexToCSV F)) \<le> 255"
    proof (rule ccontr)
      assume "\<not> card (dom (IndexToCSV F)) \<le> 255"
      then have "csvIndex c F = None" using None n by (simp add: csvIndex_def Let_def)
      then show False using assms(2) by simp
    qed
    note new = csvIndex_new [OF assms(1) None refl this refl]
    then have "i = word_of_nat (card (dom (IndexToCSV F)))" "csv_wf F'" "card (dom (IndexToCSV F')) = Suc (card (dom (IndexToCSV F)))"
        "Graph F' = Graph F"
      using assms(2) by auto
    moreover have "unat (word_of_nat (card (dom (IndexToCSV F))) :: u8) \<le> card (dom (IndexToCSV F))" by (simp add: unat_of_nat)
    ultimately show ?thesis by simp
  qed
  then show "csv_wf F'" "Graph F' = Graph F" "unat i < card (dom (IndexToCSV F'))"
    "card (dom (IndexToCSV F)) \<le> card (dom (IndexToCSV F'))" by simp_all
qed

lemma update_heap_simps [simp]:
  "Nodes (Graph (update_heap f F)) = Nodes (Graph F)" "EntryNode (Graph (update_heap f F)) = EntryNode (Graph F)"
  "Heap (Graph (update_heap f F)) = f (Heap (Graph F))" "IndexToCSV (update_heap f F) = IndexToCSV F"
  "CSVToIndex (update_heap f F) = CSVToIndex F"
  by (simp_all add: update_heap_def)

lemma csv_wf_cong: "IndexToCSV F' = IndexToCSV F \<Longrightarrow> CSVToIndex F' = CSVToIndex F \<Longrightarrow> csv_wf F' \<longleftrightarrow> csv_wf F"
  by (simp add: csv_wf_def)

lemma func_inv_addSuccessor:
  assumes "func_inv F" "a \<in> set (Nodes (Graph F))" "b \<in> set (Nodes (Graph F))"
  shows "func_inv (update_heap (addSuccessor a b ()) F)"
proof -
  have "graph_wf (Graph (update_heap (addSuccessor a b ()) F))"
    using graph_wf_addSuccessor [OF _ assms(2,3), of "()"] assms(1) by (simp add: func_inv_def update_heap_def)
  then show ?thesis using assms(1) csv_wf_cong [of "update_heap (addSuccessor a b ()) F" F] by (simp add: func_inv_def block_ops_def)
qed

lemma func_inv_push:
  assumes "func_inv F" "Operation.Type Op \<noteq> OperationType.Invalid" "unat (Target Op) < card (dom (IndexToCSV F))" "a \<in> set (Nodes (Graph F))"
  shows "func_inv (update_heap (push_operations a [Op]) F)"
proof -
  let ?F = "update_heap (push_operations a [Op]) F"
  have links: "Successors (push_operations a [Op] h n) = Successors (h n)" "Predecessors (push_operations a [Op] h n) = Predecessors (h n)" for h n
    by (simp_all add: push_operations_def)
  have "graph_wf (Graph ?F)" using assms(1) by (simp add: func_inv_def graph_wf_def edges_match_def links)
  moreover have "set (block_ops ?F n) \<subseteq> insert Op (set (block_ops F n))" for n
    by (auto simp: block_ops_def push_operations_def)
  ultimately show ?thesis using assms csv_wf_cong [of ?F F] by (fastforce simp: func_inv_def)
qed

lemma new_block_correct:
  assumes "func_inv F" "new_block L F = (n, F')"
  shows "func_inv F'" "n \<notin> set (Nodes (Graph F))" "Nodes (Graph F') = Nodes (Graph F) @ [n]"
    "EntryNode (Graph F') = EntryNode (Graph F)" "IndexToCSV F' = IndexToCSV F"
    "Predecessors (Heap (Graph F') m) = Predecessors (Heap (Graph F) m)"
proof -
  have n: "n = fresh_ptr (Graph F)" and F': "F' = F\<lparr>Graph := addNode n \<lparr>Label = L, Operations = []\<rparr> (Graph F)\<rparr>"
    using assms(2) by (auto simp: new_block_def Let_def)
  show fresh: "n \<notin> set (Nodes (Graph F))" unfolding n by (rule fresh_ptr)
  show "Nodes (Graph F') = Nodes (Graph F) @ [n]" "EntryNode (Graph F') = EntryNode (Graph F)" "IndexToCSV F' = IndexToCSV F"
    by (simp_all add: F' addNode_def)
  show "Predecessors (Heap (Graph F') m) = Predecessors (Heap (Graph F) m)"
    using fresh assms(1) by (simp add: F' addNode_def func_inv_def graph_wf_def)
  have "graph_wf (Graph F')" using graph_wf_addNode(1) [of "Graph F" n] fresh fresh_ptr(2) [of "Graph F"] assms(1)
    by (simp add: F' n func_inv_def)
  then show "func_inv F'" using assms(1) csv_wf_cong [of F' F] by (simp add: func_inv_def F' block_ops_def addNode_def)
qed

text \<open>Changes that keep the nodes, and the predecessors of every node outside \<open>X\<close>.\<close>

definition func_step :: "ptr set \<Rightarrow> 'c Function \<Rightarrow> 'c Function \<Rightarrow> bool" where
  "func_step X F F' \<longleftrightarrow> func_inv F' \<and> Nodes (Graph F') = Nodes (Graph F) \<and> EntryNode (Graph F') = EntryNode (Graph F)
     \<and> (\<forall>n. n \<notin> X \<longrightarrow> Predecessors (Heap (Graph F') n) = Predecessors (Heap (Graph F) n))"

lemma func_step_refl: "func_inv F \<Longrightarrow> func_step X F F"
  by (simp add: func_step_def)

lemma func_step_trans: "func_step X F G \<Longrightarrow> func_step X G H \<Longrightarrow> func_step X F H"
  by (simp add: func_step_def)

lemma func_step_addSuccessor:
  assumes "func_inv F" "a \<in> set (Nodes (Graph F))" "b \<in> set (Nodes (Graph F))" "b \<in> X"
  shows "func_step X F (update_heap (addSuccessor a b ()) F)"
proof -
  have "Predecessors (addSuccessor a b () h n) = Predecessors (h n)" if "n \<noteq> b" for h n using that by simp
  then show ?thesis using func_inv_addSuccessor [OF assms(1-3)] assms(4) by (auto simp: func_step_def)
qed

lemma CreateOperation_step:
  assumes "func_inv F" "a \<in> set (Nodes (Graph F))" "T \<noteq> OperationType.Invalid" "CreateOperation M Arch SP a T p F = Some F'"
  shows "func_step X F F'"
proof (cases "F' = F")
  case False
  then obtain CSV Index F1 where 1: "csvIndex CSV F = Some (Index, F1)"
      "F' = update_heap (push_operations a [\<lparr>Operation.Type = T, Target = Index\<rparr>]) F1"
    using assms(4) by (auto simp: CreateOperation_def Let_def split: option.splits if_splits Option.bind_splits)
  have csv: "csv_wf F" using assms(1) by (simp add: func_inv_def)
  note c = csvIndex_correct [OF csv 1(1)]
  have ops: "block_ops F1 n = block_ops F n" for n by (simp add: block_ops_def c(2))
  have "func_inv F1" using assms(1) c(1,4) unfolding func_inv_def ops c(2) by (meson less_le_trans)
  then have "func_inv F'" unfolding 1(2) by (rule func_inv_push) (use assms(2,3) c(2,3) in simp_all)
  then show ?thesis by (simp add: func_step_def 1(2) c(2))
qed (use assms(1) in \<open>simp add: func_step_refl\<close>)

lemma storeType_valid: "storeType M V \<noteq> OperationType.Invalid"
  by (auto simp: storeType_def Let_def split: option.splits)

section \<open>The invariant of the construction\<close>

definition build_inv :: "('b, 'c) BuildState \<Rightarrow> bool" where
  "build_inv S \<longleftrightarrow> (let A = bs_Result S; F = fta_Function A; N = set (Nodes (Graph F)) in
     func_inv F \<and> {ReturnNode A, SinkNode A} \<subseteq> Preserve S \<and> Preserve S \<subseteq> N
     \<and> (\<forall>CS \<in> snd ` set (fta_CallSites A). CallSite_Block CS \<in> Preserve S)
     \<and> sorted_wrt (<) (map fst (fta_CallSites A))
     \<and> ran (BlocksMap S) \<subseteq> N - {ReturnNode A, SinkNode A} \<and> inj_on (BlocksMap S) (dom (BlocksMap S))
     \<and> (\<forall>n. n \<notin> {ReturnNode A, SinkNode A} \<longrightarrow> Predecessors (Heap (Graph F) n) = []))"

lemma build_inv_step:
  assumes "build_inv S" "func_step {ReturnNode (bs_Result S), SinkNode (bs_Result S)} (fta_Function (bs_Result S)) F'"
  shows "build_inv (S\<lparr>bs_Result := (bs_Result S)\<lparr>fta_Function := F'\<rparr>\<rparr>)"
  using assms by (auto simp: build_inv_def func_step_def Let_def)

lemma with_function_inv:
  assumes "build_inv S" "with_function S F = Some S'"
    "\<And>F'. F = Some F' \<Longrightarrow> func_step {ReturnNode (bs_Result S), SinkNode (bs_Result S)} (fta_Function (bs_Result S)) F'"
  shows "build_inv S' \<and> BlocksMap S' = BlocksMap S \<and> ReturnNode (bs_Result S') = ReturnNode (bs_Result S)
    \<and> Nodes (Graph (fta_Function (bs_Result S'))) = Nodes (Graph (fta_Function (bs_Result S)))"
proof -
  obtain F' where F': "F = Some F'" "S' = S\<lparr>bs_Result := (bs_Result S)\<lparr>fta_Function := F'\<rparr>\<rparr>"
    using assms(2) by (auto simp: with_function_def)
  then show ?thesis using build_inv_step [OF assms(1) assms(3) [OF F'(1)]] assms(3) [OF F'(1)] by (simp add: func_step_def)
qed

lemma snd_sm_update: "snd ` set (sm_update k v m) \<subseteq> insert v (snd ` set m)"
  by (induction k v m rule: sm_update.induct) auto

lemma setCallee_Block: "setCallee C S = Some S' \<Longrightarrow> CallSite_Block S' = CallSite_Block S"
  by (auto simp: setCallee_def checked_simps split: if_splits)

lemma translate_marker_inv:
  assumes S: "build_inv S" and a: "a \<in> set (Nodes (Graph (fta_Function (bs_Result S))))"
    and run: "translate_marker L M Pre Post Ret Is a It I Args S = Some S'"
  shows "build_inv S' \<and> BlocksMap S' = BlocksMap S \<and> ReturnNode (bs_Result S') = ReturnNode (bs_Result S)
    \<and> Nodes (Graph (fta_Function (bs_Result S'))) = Nodes (Graph (fta_Function (bs_Result S)))"
proof -
  let ?A = "bs_Result S"
  consider (pre) PC C Site' where "setCallee C ((sm_at CallSite_default (fta_CallSites ?A) PC)\<lparr>CallSite_Block := a\<rparr>) = Some Site'"
      "S' = S\<lparr>bs_Result := ?A\<lparr>fta_CallSites := sm_update PC Site' (fta_CallSites ?A)\<rparr>, Preserve := insert a (Preserve S)\<rparr>"
    | (post) "S' = S"
    | (ret) "S' = S\<lparr>bs_Result := ?A\<lparr>fta_Function := update_heap (addSuccessor a (ReturnNode ?A) ()) (fta_Function ?A)\<rparr>\<rparr>"
    using run by (auto simp: translate_marker_def Let_def checked_simps split: if_splits)
  then show ?thesis
  proof cases
    case pre
    have "CallSite_Block Site' = a" using setCallee_Block [OF pre(1)] by simp
    then have "CallSite_Block CS \<in> insert a (Preserve S)" if "CS \<in> snd ` set (sm_update PC Site' (fta_CallSites ?A))" for CS
    proof -
      have "CS = Site' \<or> CS \<in> snd ` set (fta_CallSites ?A)" using subsetD [OF snd_sm_update that] by blast
      moreover have "\<forall>CS \<in> snd ` set (fta_CallSites ?A). CallSite_Block CS \<in> Preserve S" using S by (simp add: build_inv_def Let_def)
      ultimately show ?thesis using \<open>CallSite_Block Site' = a\<close> by blast
    qed
    moreover have "sorted_wrt (<) (map fst (sm_update PC Site' (fta_CallSites ?A)))"
      by (rule sm_update_sorted) (use S in \<open>simp add: build_inv_def Let_def\<close>)
    ultimately show ?thesis using S a unfolding pre(2) by (auto simp: build_inv_def Let_def)
  next
    case post
    then show ?thesis using S by simp
  next
    case ret
    have "func_step {ReturnNode ?A, SinkNode ?A} (fta_Function ?A) (update_heap (addSuccessor a (ReturnNode ?A) ()) (fta_Function ?A))"
      by (rule func_step_addSuccessor) (use S a in \<open>auto simp: build_inv_def Let_def\<close>)
    then show ?thesis using build_inv_step [OF S] unfolding ret by simp
  qed
qed

lemma translate_instruction_inv:
  assumes S: "build_inv S" and a: "a \<in> set (Nodes (Graph (fta_Function (bs_Result S))))"
    and run: "translate_instruction L M Arch SP Pre Post Ret Is a It I S = Some S'"
  shows "build_inv S' \<and> BlocksMap S' = BlocksMap S \<and> ReturnNode (bs_Result S') = ReturnNode (bs_Result S)
    \<and> Nodes (Graph (fta_Function (bs_Result S'))) = Nodes (Graph (fta_Function (bs_Result S)))"
proof -
  let ?F = "fta_Function (bs_Result S)"
  have F: "func_inv ?F" using S by (simp add: build_inv_def Let_def)
  have op: ?thesis if "T \<noteq> OperationType.Invalid" "with_function S (CreateOperation M Arch SP a T p ?F) = Some S'" for T p
    by (rule with_function_inv [OF S that(2)]) (rule CreateOperation_step [OF F a that(1)])
  have self: ?thesis if "S' = S" using that S by simp
  show ?thesis
  proof (cases "hasIgnoreMetadata M I")
    case True
    then show ?thesis using run self by (simp add: translate_instruction_def Let_def)
  next
    case go: False
    show ?thesis
    proof (cases "LoadInst M I")
      case (Some p)
      then show ?thesis using run go op [of Read p] by (simp add: translate_instruction_def Let_def)
    next
      case load: None
      show ?thesis
      proof (cases "StoreInst M I")
        case (Some vp)
        then show ?thesis using run go load op [OF storeType_valid, of M "fst vp" "snd vp"]
          by (cases vp) (simp add: translate_instruction_def Let_def)
      next
        case store: None
        show ?thesis
        proof (cases "CallInst M I")
          case None
          then show ?thesis using run go load store self by (simp add: translate_instruction_def Let_def)
        next
          case (Some c)
          then show ?thesis using run go load store self translate_marker_inv [OF S a, of L M Pre Post Ret Is It I "snd c" S']
            by (cases c) (simp add: translate_instruction_def Let_def split: if_splits)
        qed
      qed
    qed
  qed
qed

lemma translate_instructions_inv:
  "translate_instructions L M Arch SP Pre Post Ret Is a It Rest S = Some S' \<Longrightarrow> build_inv S \<Longrightarrow>
    a \<in> set (Nodes (Graph (fta_Function (bs_Result S)))) \<Longrightarrow>
    build_inv S' \<and> BlocksMap S' = BlocksMap S \<and> ReturnNode (bs_Result S') = ReturnNode (bs_Result S)
    \<and> Nodes (Graph (fta_Function (bs_Result S'))) = Nodes (Graph (fta_Function (bs_Result S)))"
proof (induction Rest arbitrary: It S)
  case (Cons I Rest)
  obtain S1 where 1: "translate_instruction L M Arch SP Pre Post Ret Is a It I S = Some S1"
      "translate_instructions L M Arch SP Pre Post Ret Is a (Suc It) Rest S1 = Some S'"
    using Cons.prems(1) by (auto simp: checked_simps)
  show ?case using translate_instruction_inv [OF Cons.prems(2,3) 1(1)] Cons.IH [OF 1(2)] Cons.prems(3) by simp
qed simp

lemma translate_blocks_inv:
  "translate_blocks L M Arch SP Pre Post Ret BBs S = Some S' \<Longrightarrow> build_inv S \<Longrightarrow> distinct BBs \<Longrightarrow> dom (BlocksMap S) \<inter> set BBs = {} \<Longrightarrow>
    build_inv S' \<and> dom (BlocksMap S') = dom (BlocksMap S) \<union> set BBs"
proof (induction BBs arbitrary: S)
  case (Cons BB BBs)
  let ?F = "fta_Function (bs_Result S)"
  obtain n F where nF: "new_block (BB_getName M BB) ?F = (n, F)" by fastforce
  let ?S1 = "S\<lparr>bs_Result := (bs_Result S)\<lparr>fta_Function := F\<rparr>, BlocksMap := (BlocksMap S)(BB \<mapsto> n)\<rparr>"
  obtain S2 where 2: "translate_instructions L M Arch SP Pre Post Ret (BB_instructions M BB) n 0 (BB_instructions M BB) ?S1 = Some S2"
      "translate_blocks L M Arch SP Pre Post Ret BBs S2 = Some S'"
    using Cons.prems(1) nF by (auto simp: checked_simps Let_def)
  have "func_inv ?F" using Cons.prems(2) by (simp add: build_inv_def Let_def)
  note new = new_block_correct [OF this nF]
  have BB: "BB \<notin> dom (BlocksMap S)" using Cons.prems(4) by auto
  have N: "Preserve S \<subseteq> set (Nodes (Graph ?F))" "{ReturnNode (bs_Result S), SinkNode (bs_Result S)} \<subseteq> Preserve S"
    "ran (BlocksMap S) \<subseteq> set (Nodes (Graph ?F)) - {ReturnNode (bs_Result S), SinkNode (bs_Result S)}"
    using Cons.prems(2) by (simp_all add: build_inv_def Let_def)
  have "n \<notin> ran (BlocksMap S)" "n \<notin> {ReturnNode (bs_Result S), SinkNode (bs_Result S)}" using new(2) N by auto
  moreover have "inj_on (BlocksMap S) (dom (BlocksMap S))" using Cons.prems(2) by (simp add: build_inv_def Let_def)
  then have "inj_on ((BlocksMap S)(BB \<mapsto> n)) (insert BB (dom (BlocksMap S)))"
    using \<open>n \<notin> ran (BlocksMap S)\<close> BB by (auto simp: inj_on_def ran_def)
  moreover have "ran ((BlocksMap S)(BB \<mapsto> n)) = insert n (ran (BlocksMap S))" using BB by (simp add: domIff)
  ultimately have "build_inv ?S1" using Cons.prems(2) new N by (auto simp: build_inv_def Let_def)
  from translate_instructions_inv [OF 2(1) this] new(3)
  have S2: "build_inv S2" "BlocksMap S2 = (BlocksMap S)(BB \<mapsto> n)" by simp_all
  have d: "dom (BlocksMap S2) = insert BB (dom (BlocksMap S))" by (simp add: S2(2))
  have "dom (BlocksMap S2) \<inter> set BBs = {}" using Cons.prems(3,4) unfolding d by auto
  from Cons.IH [OF 2(2) S2(1) _ this] Cons.prems(3) show ?case unfolding d by simp
qed simp

lemma build_start_inv: "build_inv (build_start :: ('b, 'c) BuildState)" "BlocksMap (build_start :: ('b, 'c) BuildState) = Map.empty"
proof -
  have "func_inv (empty_function :: 'c Function)"
    by (simp add: func_inv_def empty_function_def graph_wf_def edges_match_def csv_wf_def block_ops_def)
  obtain r F1 where 1: "new_block ''ReturnNode'' (empty_function :: 'c Function) = (r, F1)" by fastforce
  note n1 = new_block_correct [OF \<open>func_inv empty_function\<close> 1]
  obtain s F2 where 2: "new_block ''SinkNode'' F1 = (s, F2)" by fastforce
  note n2 = new_block_correct [OF n1(1) 2]
  have nodes: "Nodes (Graph F2) = [r, s]" using n1(3) n2(3) by (simp add: empty_function_def)
  have step: "func_step {r, s} F2 (update_heap (addSuccessor r s ()) F2)"
    by (rule func_step_addSuccessor [OF n2(1)]) (simp_all add: nodes)
  have S: "(build_start :: ('b, 'c) BuildState) = \<lparr>bs_Result = \<lparr>fta_Function = update_heap (addSuccessor r s ()) F2, fta_CallSites = [],
      ReturnNode = r, SinkNode = s\<rparr>, Preserve = {r, s}, BlocksMap = Map.empty\<rparr>"
    using 1 2 by (simp add: build_start_def Let_def)
  show "BlocksMap (build_start :: ('b, 'c) BuildState) = Map.empty" by (simp add: S)
  show "build_inv (build_start :: ('b, 'c) BuildState)"
    using step nodes n1(6) n2(6) by (simp add: S build_inv_def func_step_def empty_function_def)
qed

section \<open>The edges and the sink\<close>

lemma create_block_edges_step:
  "create_block_edges Blocks a Ss F = Some F' \<Longrightarrow> func_inv F \<Longrightarrow> a \<in> set (Nodes (Graph F)) \<Longrightarrow>
    ran Blocks \<subseteq> set (Nodes (Graph F)) \<Longrightarrow> \<forall>s \<in> set Ss. \<forall>m. Blocks s = Some m \<longrightarrow> m \<in> X \<Longrightarrow> func_step X F F'"
proof (induction Ss arbitrary: F)
  case Nil
  then show ?case by (simp add: func_step_refl)
next
  case (Cons s Ss)
  obtain m where m: "Blocks s = Some m" "create_block_edges Blocks a Ss (update_heap (addSuccessor a m ()) F) = Some F'"
    using Cons.prems(1) by (auto simp: checked_simps)
  have "m \<in> set (Nodes (Graph F))" "m \<in> X" using m(1) Cons.prems(4,5) by (auto simp: ran_def)
  from func_step_addSuccessor [OF Cons.prems(2,3) this] have step: "func_step X F (update_heap (addSuccessor a m ()) F)" .
  have "func_step X (update_heap (addSuccessor a m ()) F) F'"
    by (rule Cons.IH [OF m(2)]) (use step Cons.prems(3-5) in \<open>simp_all add: func_step_def\<close>)
  then show ?case using step func_step_trans by blast
qed

lemma create_edges_step:
  "create_edges M Blocks BBs F = Some F' \<Longrightarrow> func_inv F \<Longrightarrow> ran Blocks \<subseteq> set (Nodes (Graph F)) \<Longrightarrow>
    \<forall>b s m. s \<in> set (BB_successors M b) \<and> Blocks s = Some m \<longrightarrow> m \<in> X \<Longrightarrow> func_step X F F'"
proof (induction BBs arbitrary: F)
  case Nil
  then show ?case by (simp add: func_step_refl)
next
  case (Cons b BBs)
  show ?case
  proof (cases "Blocks b")
    case None
    then show ?thesis using Cons by simp
  next
    case (Some a)
    obtain F1 where 1: "create_block_edges Blocks a (BB_successors M b) F = Some F1" "create_edges M Blocks BBs F1 = Some F'"
      using Cons.prems(1) Some by (auto simp: checked_simps)
    have "a \<in> set (Nodes (Graph F))" using Some Cons.prems(3) by (auto simp: ran_def)
    moreover have "\<forall>s \<in> set (BB_successors M b). \<forall>m. Blocks s = Some m \<longrightarrow> m \<in> X" using Cons.prems(4) by blast
    ultimately have step: "func_step X F F1" by (rule create_block_edges_step [OF 1(1) Cons.prems(2) _ Cons.prems(3)])
    have "func_step X F1 F'"
      by (rule Cons.IH [OF 1(2) _ _ Cons.prems(4)]) (use step Cons.prems(3) in \<open>simp_all add: func_step_def\<close>)
    then show ?thesis using step func_step_trans by blast
  qed
qed

text \<open>What the traversal promises: it visits the nodes that are reachable from the start.\<close>

definition visits_reachable :: "('b, 'v, 'f, 'c) LLVM_ops \<Rightarrow> bool" where
  "visits_reachable M \<longleftrightarrow> (\<forall>next From. inverse_depth_first M next From = {n. (From, n) \<in> {(a, b). b \<in> set (next a)}\<^sup>*})"

lemma reaches_iff_visited:
  assumes "edges_match h"
  shows "(s, n) \<in> {(a, b). b \<in> set (predecessors_of h a)}\<^sup>* \<longleftrightarrow> (n, s) \<in> (heap_edges h)\<^sup>*"
proof -
  have "{(a, b). b \<in> set (predecessors_of h a)} = (heap_edges h)\<inverse>"
    using edges_match_neighbors [OF assms] by (auto simp: heap_edges_def)
  then show ?thesis by (simp add: rtrancl_converse)
qed

lemma findUnrechableNode_correct:
  assumes "visits_reachable M" "func_inv F"
  shows "case findUnrechableNode M Sink F of
      None \<Rightarrow> \<forall>n \<in> set (Nodes (Graph F)). (n, Sink) \<in> (heap_edges (Heap (Graph F)))\<^sup>*
    | Some n \<Rightarrow> n \<in> set (Nodes (Graph F)) \<and> (n, Sink) \<notin> (heap_edges (Heap (Graph F)))\<^sup>*"
proof -
  have "edges_match (Heap (Graph F))" using assms(2) by (simp add: func_inv_def graph_wf_def)
  note reach = reaches_iff_visited [OF this]
  have "findUnrechableNode M Sink F = List.find (\<lambda>n. (n, Sink) \<notin> (heap_edges (Heap (Graph F)))\<^sup>*) (Nodes (Graph F))"
    using assms(1) by (simp add: findUnrechableNode_def visits_reachable_def Let_def reach)
  then show ?thesis by (auto simp: find_None_iff find_Some_iff split: option.split)
qed

lemma addSuccessor_edges: "heap_edges (addSuccessor a b () h) = insert (a, b) (heap_edges h)"
  by (auto simp: heap_edges_def successors_of_def)

lemma connect_sink_correct:
  assumes "visits_reachable M"
  shows "func_inv F \<Longrightarrow> Sink \<in> set (Nodes (Graph F)) \<Longrightarrow>
    \<exists>F'. connect_sink M Sink F = Some F' \<and> func_step {Sink} F F' \<and> IndexToCSV F' = IndexToCSV F \<and> all_operations F' = all_operations F
      \<and> (\<forall>n \<in> set (Nodes (Graph F')). (n, Sink) \<in> (heap_edges (Heap (Graph F')))\<^sup>*)"
proof (induction "card {n \<in> set (Nodes (Graph F)). (n, Sink) \<notin> (heap_edges (Heap (Graph F)))\<^sup>*}" arbitrary: F rule: less_induct)
  case less
  note found = findUnrechableNode_correct [OF assms less.prems(1), of Sink]
  show ?case
  proof (cases "findUnrechableNode M Sink F")
    case None
    then show ?thesis using found less.prems(1) by (subst connect_sink.simps) (simp add: func_step_refl)
  next
    case (Some n)
    let ?F = "update_heap (addPredecessor Sink n ()) F" and ?E = "heap_edges (Heap (Graph F))"
    have n: "n \<in> set (Nodes (Graph F))" "(n, Sink) \<notin> ?E\<^sup>*" using found Some by simp_all
    have step: "func_step {Sink} F ?F" unfolding addPredecessor_eq by (rule func_step_addSuccessor) (use less.prems n in simp_all)
    have E: "heap_edges (Heap (Graph ?F)) = insert (n, Sink) ?E" by (simp add: addPredecessor_eq addSuccessor_edges)
    have "{m \<in> set (Nodes (Graph ?F)). (m, Sink) \<notin> (insert (n, Sink) ?E)\<^sup>*} \<subset> {m \<in> set (Nodes (Graph F)). (m, Sink) \<notin> ?E\<^sup>*}"
    proof (rule psubsetI)
      have "?E\<^sup>* \<subseteq> (insert (n, Sink) ?E)\<^sup>*" by (rule rtrancl_mono) blast
      then show "{m \<in> set (Nodes (Graph ?F)). (m, Sink) \<notin> (insert (n, Sink) ?E)\<^sup>*} \<subseteq> {m \<in> set (Nodes (Graph F)). (m, Sink) \<notin> ?E\<^sup>*}" by auto
      have "(n, Sink) \<in> (insert (n, Sink) ?E)\<^sup>*" by (rule r_into_rtrancl) simp
      then show "{m \<in> set (Nodes (Graph ?F)). (m, Sink) \<notin> (insert (n, Sink) ?E)\<^sup>*} \<noteq> {m \<in> set (Nodes (Graph F)). (m, Sink) \<notin> ?E\<^sup>*}"
        using n by auto
    qed
    then have "card {m \<in> set (Nodes (Graph ?F)). (m, Sink) \<notin> (heap_edges (Heap (Graph ?F)))\<^sup>*}
        < card {m \<in> set (Nodes (Graph F)). (m, Sink) \<notin> ?E\<^sup>*}" unfolding E by (intro psubset_card_mono) simp_all
    from less.hyps [OF this] step less.prems(2) obtain F' where F': "connect_sink M Sink ?F = Some F'" "func_step {Sink} ?F F'"
        "IndexToCSV F' = IndexToCSV ?F" "all_operations F' = all_operations ?F" "\<forall>n \<in> set (Nodes (Graph F')). (n, Sink) \<in> (heap_edges (Heap (Graph F')))\<^sup>*"
      by (auto simp: func_step_def)
    have "connect_sink M Sink F = Some F'" using F'(1) Some by (subst connect_sink.simps) simp
    moreover have "all_operations ?F = all_operations F"
      by (simp add: all_operations_def block_ops_def addPredecessor_eq cong: map_cong)
    ultimately show ?thesis using F'(3-5) func_step_trans [OF step F'(2)] by (intro exI [of _ F']) simp
  qed
qed

section \<open>The graph is ready for the analyses\<close>

text \<open>
  What LLVM promises: the depth-first traversal visits each block once, the entry block among them,
  the entry block has no predecessors, and the traversal against the edges visits what it reaches.
\<close>

definition llvm_wf :: "('b, 'v, 'f, 'c) LLVM_ops \<Rightarrow> bool" where
  "llvm_wf M \<longleftrightarrow> distinct (depth_first M) \<and> getEntryBlock M \<in> set (depth_first M)
     \<and> (\<forall>b. getEntryBlock M \<notin> set (BB_successors M b)) \<and> visits_reachable M"

lemma translate_function_correct:
  assumes "llvm_wf M" "translate_function L M Arch Pre Post Ret = Some S"
  shows "\<exists>e. func_inv (fta_Function (bs_Result S)) \<and> EntryNode (Graph (fta_Function (bs_Result S))) = e
       \<and> e \<in> set (Nodes (Graph (fta_Function (bs_Result S)))) \<and> e \<noteq> SinkNode (bs_Result S)
       \<and> Predecessors (Heap (Graph (fta_Function (bs_Result S))) e) = []
       \<and> {ReturnNode (bs_Result S), SinkNode (bs_Result S)} \<subseteq> Preserve S
       \<and> Preserve S \<subseteq> set (Nodes (Graph (fta_Function (bs_Result S))))
       \<and> (\<forall>CS \<in> snd ` set (fta_CallSites (bs_Result S)). CallSite_Block CS \<in> Preserve S)
       \<and> distinct (map fst (fta_CallSites (bs_Result S)))"
proof -
  obtain SP S0 F where S0: "translate_blocks L M Arch SP Pre Post Ret (depth_first M) build_start = Some S0"
    and F: "create_edges M (BlocksMap S0) (F_blocks M)
        ((fta_Function (bs_Result S0))\<lparr>Graph := setEntryNode (case BlocksMap S0 (getEntryBlock M) of Some n \<Rightarrow> n | None \<Rightarrow> nullptr)
           (Graph (fta_Function (bs_Result S0)))\<rparr>) = Some F"
    and S: "S = S0\<lparr>bs_Result := (bs_Result S0)\<lparr>fta_Function := F\<rparr>\<rparr>"
    using assms(2) by (auto simp: translate_function_def checked_simps Let_def)
  have M: "distinct (depth_first M)" "getEntryBlock M \<in> set (depth_first M)" "\<And>b. getEntryBlock M \<notin> set (BB_successors M b)"
    using assms(1) by (simp_all add: llvm_wf_def)
  have inv: "build_inv S0" and dom: "dom (BlocksMap S0) = set (depth_first M)"
    using translate_blocks_inv [OF S0 build_start_inv(1) M(1)] by (simp_all add: build_start_inv(2))
  let ?A = "bs_Result S0" and ?F0 = "fta_Function (bs_Result S0)"
  have b: "func_inv ?F0" "{ReturnNode ?A, SinkNode ?A} \<subseteq> Preserve S0" "Preserve S0 \<subseteq> set (Nodes (Graph ?F0))"
      "\<forall>CS \<in> snd ` set (fta_CallSites ?A). CallSite_Block CS \<in> Preserve S0" "sorted_wrt (<) (map fst (fta_CallSites ?A))"
      "ran (BlocksMap S0) \<subseteq> set (Nodes (Graph ?F0)) - {ReturnNode ?A, SinkNode ?A}" "inj_on (BlocksMap S0) (dom (BlocksMap S0))"
      "\<And>n. n \<notin> {ReturnNode ?A, SinkNode ?A} \<Longrightarrow> Predecessors (Heap (Graph ?F0) n) = []"
    using inv by (simp_all add: build_inv_def Let_def)
  obtain e where e: "BlocksMap S0 (getEntryBlock M) = Some e" using M(2) dom by (metis domD)
  then have eN: "e \<in> set (Nodes (Graph ?F0))" "e \<notin> {ReturnNode ?A, SinkNode ?A}" using b(6) by (auto simp: ran_def)
  let ?F1 = "?F0\<lparr>Graph := setEntryNode e (Graph ?F0)\<rparr>"
  have F1: "func_inv ?F1" "Nodes (Graph ?F1) = Nodes (Graph ?F0)" "Heap (Graph ?F1) = Heap (Graph ?F0)" "EntryNode (Graph ?F1) = e"
    using b(1) csv_wf_cong [of ?F1 ?F0] by (simp_all add: func_inv_def setEntryNode_def graph_wf_def block_ops_def)
  have "m \<noteq> e" if "s \<in> set (BB_successors M x)" "BlocksMap S0 s = Some m" for x s m
  proof
    assume "m = e"
    then have "s = getEntryBlock M" using inj_onD [OF b(7), of s "getEntryBlock M"] that(2) e by (auto simp: dom_def)
    then show False using M(3) [of x] that(1) by simp
  qed
  then have X: "\<forall>x s m. s \<in> set (BB_successors M x) \<and> BlocksMap S0 s = Some m \<longrightarrow> m \<in> {m. m \<noteq> e}" by blast
  have "func_step {m. m \<noteq> e} ?F1 F"
    by (rule create_edges_step [OF _ F1(1) _ X]) (use F e b(6) F1(2) in auto)
  then show "\<exists>e. func_inv (fta_Function (bs_Result S)) \<and> EntryNode (Graph (fta_Function (bs_Result S))) = e
       \<and> e \<in> set (Nodes (Graph (fta_Function (bs_Result S)))) \<and> e \<noteq> SinkNode (bs_Result S)
       \<and> Predecessors (Heap (Graph (fta_Function (bs_Result S))) e) = []
       \<and> {ReturnNode (bs_Result S), SinkNode (bs_Result S)} \<subseteq> Preserve S
       \<and> Preserve S \<subseteq> set (Nodes (Graph (fta_Function (bs_Result S))))
       \<and> (\<forall>CS \<in> snd ` set (fta_CallSites (bs_Result S)). CallSite_Block CS \<in> Preserve S)
       \<and> distinct (map fst (fta_CallSites (bs_Result S)))"
    using eN b(2-5,8) F1(2-4)
    unfolding S func_step_def by (intro exI [of _ e]) (simp add: strict_sorted_iff)
qed

lemma fromLLVMFunction_correct:
  assumes M: "llvm_wf M" and S: "translate_function L M Arch Pre Post Ret = Some S"
    and few: "card (dom (IndexToCSV (fta_Function (bs_Result S)))) \<le> 255"
  shows "\<exists>A. fromLLVMFunction L M Arch Pre Post Ret = Some A \<and> fta_wf A
    \<and> mset (all_operations (fta_Function A)) = mset (all_operations (fta_Function (bs_Result S)))
    \<and> (\<forall>n \<in> set (Nodes (Graph (fta_Function A))). (n, SinkNode A) \<in> (heap_edges (Heap (Graph (fta_Function A))))\<^sup>*)"
proof -
  let ?A = "bs_Result S" and ?F = "fta_Function (bs_Result S)"
  obtain e where e: "EntryNode (Graph ?F) = e" "e \<in> set (Nodes (Graph ?F))" "e \<noteq> SinkNode ?A" "Predecessors (Heap (Graph ?F) e) = []"
    and F: "func_inv ?F" and P: "{ReturnNode ?A, SinkNode ?A} \<subseteq> Preserve S" "Preserve S \<subseteq> set (Nodes (Graph ?F))"
      "\<forall>CS \<in> snd ` set (fta_CallSites ?A). CallSite_Block CS \<in> Preserve S" "distinct (map fst (fta_CallSites ?A))"
    using translate_function_correct [OF M S] by (elim exE conjE)
  have sink: "SinkNode ?A \<in> set (Nodes (Graph ?F))" using P(1,2) by auto
  have "visits_reachable M" using M by (simp add: llvm_wf_def)
  from connect_sink_correct [OF this F sink] obtain F1 where F1: "connect_sink M (SinkNode ?A) ?F = Some F1"
      "func_step {SinkNode ?A} ?F F1" "IndexToCSV F1 = IndexToCSV ?F" "all_operations F1 = all_operations ?F"
      "\<forall>n \<in> set (Nodes (Graph F1)). (n, SinkNode ?A) \<in> (heap_edges (Heap (Graph F1)))\<^sup>*"
    by (elim exE conjE)
  have i1: "func_inv F1" "Nodes (Graph F1) = Nodes (Graph ?F)" "EntryNode (Graph F1) = e" "predecessors_of (Heap (Graph F1)) e = []"
    using F1(2) e by (simp_all add: func_step_def predecessors_of_def)
  have ops: "Operation.Type Op \<noteq> OperationType.Invalid" "unat (Target Op) < card (dom (IndexToCSV F1))" if "Op \<in> set (all_operations F1)" for Op
    using i1(1) that by (auto simp: func_inv_def all_operations_def)
  have wf1: "function_wf F1" using i1(1) ops(1) by (simp add: function_wf_def func_inv_def)
  obtain F2 where F2: "simplify (Preserve S) F1 = Some F2" "function_wf F2" "IndexToCSV F2 = IndexToCSV F1" "CSVToIndex F2 = CSVToIndex F1"
      "EntryNode (Graph F2) = EntryNode (Graph F1)" "mset (all_operations F2) = mset (all_operations F1)"
      "subseq (Nodes (Graph F2)) (Nodes (Graph F1))"
      "\<forall>n \<in> set (Nodes (Graph F1)). n \<in> Preserve S \<or> predecessors_of (Heap (Graph F1)) n = [] \<longrightarrow> n \<in> set (Nodes (Graph F2))"
      "\<forall>b \<in> set (Nodes (Graph F2)). \<forall>T \<in> Preserve S.
         (b, T) \<in> (heap_edges (Heap (Graph F1)))\<^sup>* \<longrightarrow> (b, T) \<in> (heap_edges (Heap (Graph F2)))\<^sup>*"
    using simplify_correct [OF wf1, of "Preserve S"] by blast
  have keep: "Preserve S \<subseteq> set (Nodes (Graph F2))" "e \<in> set (Nodes (Graph F2))"
    using F2(8) P(2) i1(2,4) e(2) by auto
  have "unat (csvCount F2) = card (dom (IndexToCSV F1))"
    using few by (simp add: csvCount_def unat_of_nat F2(3) F1(3))
  then have counted: "targets_counted F2" using ops(2) mset_eq_setD [OF F2(6)] by (auto simp: targets_counted_def)
  have csv: "csv_wf F2" using i1(1) csv_wf_cong [OF F2(3,4)] by (simp add: func_inv_def)
  let ?R = "?A\<lparr>fta_Function := F2\<rparr>"
  have "CallSite_Block CS \<in> set (Nodes (Graph F2))" if "(PC, CS) \<in> set (fta_CallSites ?A)" for PC CS
    using that P(3) keep(1) by force
  then have "fta_wf ?R" using F2(2,5) csv counted keep P(1,4) i1(3) by (auto simp: fta_wf_def Let_def)
  moreover have "(n, SinkNode ?A) \<in> (heap_edges (Heap (Graph F2)))\<^sup>*" if "n \<in> set (Nodes (Graph F2))" for n
    using that F2(9) F1(5) P(1) subseq_set [OF F2(7)] by blast
  moreover have "fromLLVMFunction L M Arch Pre Post Ret = Some ?R" using S F1(1) F2(1) by (simp add: fromLLVMFunction_def)
  ultimately show ?thesis using F2(6) F1(4) by (intro exI [of _ ?R]) simp
qed

section \<open>The whole analysis\<close>

definition analyzeRegisterUsage ::
  "'t BitVector_ops \<Rightarrow> ((unit, Block) GenericGraph \<Rightarrow> ptr \<Rightarrow> ptr set \<Rightarrow> ptr list \<times> ptr set)
    \<Rightarrow> ((unit, Block) GenericGraph \<Rightarrow> ptr \<Rightarrow> ptr set \<Rightarrow> ptr list \<times> ptr set)
    \<Rightarrow> LLVM_strings \<Rightarrow> ('b, 'v, 'f, 'c) LLVM_ops \<Rightarrow> Architecture \<Rightarrow> 'f \<Rightarrow> 'f \<Rightarrow> 'f \<Rightarrow> 'c RUAResults checked" where
  "analyzeRegisterUsage B po_inverse po L M Arch PreCallSiteHook PostCallSiteHook RetHook = do {
     A \<leftarrow> fromLLVMFunction L M Arch PreCallSiteHook PostCallSiteHook RetHook;
     analyzeFunction B (po_inverse (Graph (fta_Function A))) (po (Graph (fta_Function A))) A }"

lemma write_count_mset: "mset xs = mset ys \<Longrightarrow> write_count r xs = write_count r ys"
  by (metis write_count_def mset_filter size_mset)

section \<open>The properties\<close>


text \<open>
  \<^bold>\<open>C2\<close>. The register usage analysis of such a function returns, when no register has more than 256
  writes, and its results are exact on the graph of the function: the argument registers are those
  that some path from the entry reads before it changes them; the return value registers are those
  with a write that reaches the end of the return node and that no path to the sink reads; a call
  site has its callee, as return values the registers that are live after its block, and as
  arguments those with such an unread write that reaches its block.
\<close>

theorem register_usage_exact:
  assumes "bit_vector B"
    "\<And>G. graph_wf G \<Longrightarrow> post_order_graph (GraphTraits_Inverse (po_inverse G) G)"
    "\<And>G. graph_wf G \<Longrightarrow> post_order_graph (GraphTraits (po G) G)"
    "llvm_wf M" "translate_function L M Arch Pre Post Ret = Some S"
    "card (dom (IndexToCSV (fta_Function (bs_Result S)))) \<le> 255"
    "\<And>r. write_count r (all_operations (fta_Function (bs_Result S))) \<le> 256"
  shows "\<exists>A Res. fromLLVMFunction L M Arch Pre Post Ret = Some A
    \<and> analyzeRegisterUsage B po_inverse po L M Arch Pre Post Ret = Some Res
    \<and> ArgumentsRegisters Res = live_csvs (fta_Function A) (EntryNode (Graph (fta_Function A)))
    \<and> ReturnValuesRegisters Res = unread_csvs (fta_Function A) (SinkNode A)
        (\<lambda>a j r. write_path True (fta_Function A) a j r (ReturnNode A))
    \<and> (\<forall>PC. map_of (CallSites Res) PC = map_option (\<lambda>CS.
        \<lparr>CalleeAddress = Callee CS,
         cs_ArgumentsRegisters = unread_csvs (fta_Function A) (SinkNode A) (\<lambda>a j r.
           \<exists>k. CallSite_Block CS \<in> set (successors_of (Heap (Graph (fta_Function A))) k) \<and> write_path True (fta_Function A) a j r k),
         cs_ReturnValuesRegisters =
           (\<Union>s \<in> set (successors_of (Heap (Graph (fta_Function A))) (CallSite_Block CS)). live_csvs (fta_Function A) s)\<rparr>)
        (map_of (fta_CallSites A) PC))"
proof -
  obtain A where A: "fromLLVMFunction L M Arch Pre Post Ret = Some A" "fta_wf A"
      "mset (all_operations (fta_Function A)) = mset (all_operations (fta_Function (bs_Result S)))"
    using fromLLVMFunction_correct [OF assms(4-6)] by (elim exE conjE)
  have wf: "graph_wf (Graph (fta_Function A))" using A(2) by (simp add: fta_wf_def Let_def function_wf_def)
  have "write_count r (all_operations (fta_Function A)) \<le> 256" for r
    using assms(7) [of r] write_count_mset [OF A(3)] by simp
  from analyzeFunction_exact [OF assms(1) assms(2) [OF wf] assms(3) [OF wf] A(2) this]
  show ?thesis using A(1) by (auto simp: analyzeRegisterUsage_def)
qed

text \<open>
  For the witnesses: a function of one block, with the instructions "load 100", "store 101", "return
  hook" and a terminator, numbered from 10; the values 1 and 2 are the CSVs 100 and 101, the value 3
  is the address argument of the hook, the text \<open>Text\<close>.
\<close>

definition one_block_function :: "string \<Rightarrow> (nat, nat, nat, nat) LLVM_ops" where
  "one_block_function Text =
     \<lparr>depth_first = [7], F_blocks = [7], getEntryBlock = 7, BB_getName = (\<lambda>_. ''entry''),
      BB_instructions = (\<lambda>_. [10, 11, 12, 13]), BB_successors = (\<lambda>_. []), hasIgnoreMetadata = (\<lambda>_. False),
      LoadInst = [10 \<mapsto> 1], StoreInst = [11 \<mapsto> (4, 2)], CallInst = [12 \<mapsto> (5, [3])],
      asFunction = [5 \<mapsto> 23], cast_operand = Map.empty,
      GlobalVariable = [1 \<mapsto> 100, 2 \<mapsto> 101], isClobbererFunction = (\<lambda>_. False), isWriterFunction = (\<lambda>_. False),
      constantString = (\<lambda>_. Text), GV_getName = (\<lambda>c. if c = 100 then ''_rdi'' else ''_rax''),
      LLVM_hex_of = list_hex,
      inverse_depth_first = (\<lambda>next From. {n. (From, n) \<in> {(a, b). b \<in> set (next a)}\<^sup>*})\<rparr>"

lemma one_block_function_wf: "llvm_wf (one_block_function Text)"
  by (simp add: llvm_wf_def one_block_function_def visits_reachable_def)

lemma parsed_pc: "\<exists>Text PC. bbid_fromString list_strings Text = Some PC \<and> bbid_isValid PC"
proof -
  define M where "M = \<lparr>Epoch = 0, AddressSpace = 0, Type = raw Code_x86_64, Address = 0x1000\<rparr>"
  have M: "ma_inv M" "Epoch M \<noteq> 0 \<or> AddressSpace M = 0" and valid: "ma_isValid M" by (simp_all add: M_def ma_eval)
  obtain s where s: "CHR ''-'' \<notin> set s" "ma_fromString list_strings s = Some M"
    using list_strings.text_of_address [OF M] by blast
  moreover have "StringRef_split list_strings s ''-'' = [s]" using list_strings.split_join [of "[s]" "CHR ''-''"] s(1) by simp
  ultimately have "bbid_fromString list_strings s = Some \<lparr>Start = M, InliningIndex = 0\<rparr>"
    using valid by (simp add: bbid_fromString_def bbid_new_def bbid_verify_def Let_def)
  then show ?thesis using valid by (intro exI [of _ s]) (simp add: bbid_isValid_def)
qed

lemma one_block_registers:
  "fromCSVName list_hex ''_rdi'' x86_64 = Some rdi_x86_64" "fromCSVName list_hex ''_rax'' x86_64 = Some rax_x86_64"
  by (simp_all add: fromCSVName_def fromCSVName_offset_def consume_front_def fromRegisterName_def canonicalArchitecture_def
      Register_fromName_def Register_members_def UnknownCSVPrefix_def lookupRegister_eq Register_getSize_eq)

lemma one_block_translated:
  assumes "bbid_fromString list_strings Text = Some PC" "bbid_isValid PC"
  shows "\<exists>S. translate_function list_strings (one_block_function Text) x86_64 21 22 23 = Some S
    \<and> dom (IndexToCSV (fta_Function (bs_Result S))) = {1, 0}
    \<and> all_operations (fta_Function (bs_Result S)) = [\<lparr>Operation.Type = Read, Target = 0\<rparr>, \<lparr>Operation.Type = Write, Target = 1\<rparr>]"
  using assms
  by (simp add: translate_function_def one_block_function_def build_start_def new_block_def empty_function_def fresh_ptr_def
      addNode_def update_heap_def Let_def translate_instruction_def CreateOperation_def with_function_def isCallTo_def getCallee_def skipCasts.simps storeType_def
      csvIndex_def csvCount_def translate_marker_def at_def all_operations_def block_ops_def push_operations_def setEntryNode_def one_block_registers)


theorem register_usage_exact_witness:
  "\<exists>Text A Res. fromLLVMFunction list_strings (one_block_function Text) x86_64 21 22 23 = Some A
    \<and> analyzeRegisterUsage list_bits
        (\<lambda>G. dfs_po (Nodes G) (predecessors_of (Heap G))) (\<lambda>G. dfs_po (Nodes G) (successors_of (Heap G)))
        list_strings (one_block_function Text) x86_64 21 22 23 = Some Res
    \<and> ArgumentsRegisters Res = live_csvs (fta_Function A) (EntryNode (Graph (fta_Function A)))"
proof -
  obtain Text PC where "bbid_fromString list_strings Text = Some PC" "bbid_isValid PC" using parsed_pc by blast
  from one_block_translated [OF this]
  obtain S where tr: "translate_function list_strings (one_block_function Text) x86_64 21 22 23 = Some S"
    and S: "dom (IndexToCSV (fta_Function (bs_Result S))) = {1, 0}"
      "all_operations (fta_Function (bs_Result S)) = [\<lparr>Operation.Type = Read, Target = 0\<rparr>, \<lparr>Operation.Type = Write, Target = 1\<rparr>]"
    by (elim exE conjE)
  have c: "card (dom (IndexToCSV (fta_Function (bs_Result S)))) \<le> 255" unfolding S by simp
  have w: "write_count r (all_operations (fta_Function (bs_Result S))) \<le> 256" for r unfolding S by (simp add: write_count_def)
  from register_usage_exact [OF list_bits.bit_vector_axioms dfs_po_inverse dfs_po_forward one_block_function_wf tr c w]
  show ?thesis by blast
qed

end
