(* ===== verification/Small_Map.thy ===== *)
theory Small_Map
  imports Revng_Prelude
begin

text \<open>
  \<^verbatim>\<open>SmallMap\<close> (src/include/revng/ADT/SmallMap.h): a map that keeps up to \<open>N\<close> pairs in an array and the
  elements of a larger one in a \<^verbatim>\<open>std::map\<close>. It is compared with the map it stands for.
\<close>

section \<open>The container\<close>

text \<open>
  The array always has \<open>N\<close> elements; \<open>Size\<close> of them are in use. A \<^verbatim>\<open>std::map\<close> is a finite map. An iterator
  is an index of the array or, for the \<^verbatim>\<open>std::map\<close>, the key it points to.
\<close>

record ('k, 'v) SmallMap =
  Vector :: "('k \<times> 'v) list"
  IsSorted :: bool
  Size :: nat
  Map :: "'k \<rightharpoonup> 'v"

datatype 'k iterator = VIterator nat | MapIterator "'k option"

definition smap_new :: "('k \<times> 'v) list \<Rightarrow> ('k, 'v) SmallMap" where
  "smap_new Defaults = \<lparr>Vector = Defaults, IsSorted = True, Size = 0, Map = Map.empty\<rparr>"

definition isSmall :: "('k, 'v) SmallMap \<Rightarrow> bool" where
  "isSmall M \<longleftrightarrow> Map M = Map.empty"

definition smap_sort :: "('k::linorder, 'v) SmallMap \<Rightarrow> ('k, 'v) SmallMap" where
  "smap_sort M =
     (if IsSorted M \<or> \<not> isSmall M \<or> Size M \<le> 1 then M
      else M\<lparr>Vector := sort_key fst (take (Size M) (Vector M)) @ drop (Size M) (Vector M), IsSorted := True\<rparr>)"

definition smap_empty :: "('k, 'v) SmallMap \<Rightarrow> bool" where
  "smap_empty M \<longleftrightarrow> Size M = 0 \<and> Map M = Map.empty"

definition smap_size :: "('k, 'v) SmallMap \<Rightarrow> nat" where
  "smap_size M = (if isSmall M then Size M else card (dom (Map M)))"

definition smap_end :: "('k, 'v) SmallMap \<Rightarrow> 'k iterator" where
  "smap_end M = (if isSmall M then VIterator (Size M) else MapIterator None)"

text \<open>The elements from \<^verbatim>\<open>begin()\<close> to \<^verbatim>\<open>end()\<close>.\<close>

definition smap_elements :: "('k::linorder, 'v) SmallMap \<Rightarrow> ('k \<times> 'v) list" where
  "smap_elements M =
     (if isSmall M then take (Size M) (Vector M)
      else map (\<lambda>k. (k, the (Map M k))) (sorted_list_of_set (dom (Map M))))"

fun vfind_from :: "'k \<Rightarrow> nat \<Rightarrow> ('k \<times> 'v) list \<Rightarrow> nat" where
  "vfind_from Key I [] = I"
| "vfind_from Key I (P # Ps) = (if fst P = Key then I else vfind_from Key (Suc I) Ps)"

definition vfind :: "'k \<Rightarrow> ('k, 'v) SmallMap \<Rightarrow> nat" where
  "vfind Key M = vfind_from Key 0 (take (Size M) (Vector M))"

fun vlower_bound_from :: "'k::linorder \<Rightarrow> nat \<Rightarrow> ('k \<times> 'v) list \<Rightarrow> nat" where
  "vlower_bound_from Key I [] = I"
| "vlower_bound_from Key I (P # Ps) = (if \<not> fst P < Key then I else vlower_bound_from Key (Suc I) Ps)"

definition vlower_bound :: "'k::linorder \<Rightarrow> ('k, 'v) SmallMap \<Rightarrow> nat \<times> ('k, 'v) SmallMap" where
  "vlower_bound Key M = (let M' = smap_sort M in (vlower_bound_from Key 0 (take (Size M') (Vector M')), M'))"

definition smap_count :: "'k \<Rightarrow> ('k, 'v) SmallMap \<Rightarrow> nat" where
  "smap_count Key M =
     (if isSmall M then (if vfind Key M = Size M then 0 else 1)
      else (if Key \<in> dom (Map M) then 1 else 0))"

text \<open>\<open>std::map::insert\<close>: an element whose key is present stays.\<close>

definition map_insert :: "'k \<times> 'v \<Rightarrow> ('k \<rightharpoonup> 'v) \<Rightarrow> bool \<times> ('k \<rightharpoonup> 'v)" where
  "map_insert P m = (if fst P \<in> dom m then (False, m) else (True, m(fst P \<mapsto> snd P)))"

fun insert_all :: "('k \<times> 'v) list \<Rightarrow> ('k \<rightharpoonup> 'v) \<Rightarrow> ('k \<rightharpoonup> 'v)" where
  "insert_all [] m = m"
| "insert_all (P # Ps) m = insert_all Ps (snd (map_insert P m))"

definition smap_insert ::
  "nat \<Rightarrow> 'k::linorder \<times> 'v \<Rightarrow> ('k, 'v) SmallMap \<Rightarrow> (('k iterator \<times> bool) \<times> ('k, 'v) SmallMap) checked" where
  "smap_insert N P M =
     (if \<not> isSmall M
      then (let (Inserted, m) = map_insert P (Map M) in Some ((MapIterator (Some (fst P)), Inserted), M\<lparr>Map := m\<rparr>))
      else
        let I = vfind (fst P) M in
        if I \<noteq> Size M then Some ((VIterator I, False), M)
        else if Size M < N
        then
          let M1 = M\<lparr>Vector := (Vector M)[Size M := P], Size := Size M + 1\<rparr>;
              M2 = (if 1 < Size M1 \<and> IsSorted M1 then M1\<lparr>IsSorted := \<not> fst P < fst (Vector M1 ! (Size M1 - 2))\<rparr> else M1)
          in Some ((VIterator (Size M2 - 1), True), M2)
        else do {
          revng_assert (Map M = Map.empty);
          let (Inserted, m) = map_insert P (insert_all (take (Size M) (Vector M)) (Map M));
          Some ((MapIterator (Some (fst P)), Inserted), M\<lparr>Map := m\<rparr>) })"

definition smap_erase :: "'k \<Rightarrow> ('k, 'v) SmallMap \<Rightarrow> ('k, 'v) SmallMap" where
  "smap_erase Key M =
     (if isSmall M
      then
        let I = vfind Key M in
        if I = Size M then M
        else M\<lparr>Size := Size M - 1,
               Vector := take I (Vector M) @ drop (Suc I) (take (Size M) (Vector M)) @ drop (Size M - 1) (Vector M)\<rparr>
      else M\<lparr>Map := (Map M)(Key := None)\<rparr>)"

definition smap_find :: "'k \<Rightarrow> ('k, 'v) SmallMap \<Rightarrow> 'k iterator" where
  "smap_find Key M =
     (if isSmall M then VIterator (vfind Key M)
      else MapIterator (if Key \<in> dom (Map M) then Some Key else None))"

definition smap_lower_bound :: "'k::linorder \<Rightarrow> ('k, 'v) SmallMap \<Rightarrow> 'k iterator \<times> ('k, 'v) SmallMap" where
  "smap_lower_bound Key M =
     (if isSmall M then (let (I, M') = vlower_bound Key M in (VIterator I, M'))
      else
        let Ks = {k \<in> dom (Map M). Key \<le> k}
        in (MapIterator (if Ks = {} then None else Some (Min Ks)), M))"

text \<open>Comparing iterators of the two kinds is an abort; dereferencing an end iterator has no meaning.\<close>

fun iterator_equal :: "'k iterator \<Rightarrow> 'k iterator \<Rightarrow> bool checked" where
  "iterator_equal (VIterator I) (VIterator J) = Some (I = J)"
| "iterator_equal (MapIterator I) (MapIterator J) = Some (I = J)"
| "iterator_equal _ _ = revng_abort"

fun dereference :: "('k, 'v) SmallMap \<Rightarrow> 'k iterator \<Rightarrow> ('k \<times> 'v) checked" where
  "dereference M (VIterator I) = (if I < Size M then at (Vector M) I else None)"
| "dereference M (MapIterator (Some Key)) = map_option (Pair Key) (Map M Key)"
| "dereference M (MapIterator None) = None"

definition smap_contains :: "'k \<Rightarrow> ('k, 'v) SmallMap \<Rightarrow> bool checked" where
  "smap_contains Key M = map_option Not (iterator_equal (smap_find Key M) (smap_end M))"

definition smap_clear :: "('k, 'v) SmallMap \<Rightarrow> ('k, 'v) SmallMap" where
  "smap_clear M = M\<lparr>Size := 0, Map := Map.empty\<rparr>"

text \<open>\<open>operator[]\<close> yields the element, inserted with the default value \<open>D\<close> when it is missing.\<close>

definition smap_subscript ::
  "nat \<Rightarrow> 'v \<Rightarrow> 'k::linorder \<Rightarrow> ('k, 'v) SmallMap \<Rightarrow> ('v \<times> ('k, 'v) SmallMap) checked" where
  "smap_subscript N D Key M = do {
     ((It, _), M') \<leftarrow> smap_insert N (Key, D) M;
     P \<leftarrow> dereference M' It;
     Some (snd P, M') }"

definition smap_at :: "'k \<Rightarrow> ('k, 'v) SmallMap \<Rightarrow> 'v checked" where
  "smap_at Key M = do {
     End \<leftarrow> iterator_equal (smap_find Key M) (smap_end M);
     revng_assert (\<not> End);
     map_option snd (dereference M (smap_find Key M)) }"

section \<open>The map it stands for\<close>

definition smap_abs :: "('k, 'v) SmallMap \<Rightarrow> ('k \<rightharpoonup> 'v)" where
  "smap_abs M = (if isSmall M then map_of (take (Size M) (Vector M)) else Map M)"

definition smap_inv :: "nat \<Rightarrow> ('k::linorder, 'v) SmallMap \<Rightarrow> bool" where
  "smap_inv N M \<longleftrightarrow> length (Vector M) = N \<and> Size M \<le> N \<and> finite (dom (Map M))
     \<and> distinct (map fst (take (Size M) (Vector M)))
     \<and> (IsSorted M \<longrightarrow> sorted (map fst (take (Size M) (Vector M))))
     \<and> (\<not> isSmall M \<longrightarrow> Size M = N)"

section \<open>Searching the array\<close>

lemma vfind_from_eq: "vfind_from k i Ps = i + length (takeWhile (\<lambda>p. fst p \<noteq> k) Ps)"
  by (induction Ps arbitrary: i) auto

lemma takeWhile_key:
  "length (takeWhile (\<lambda>p. fst p \<noteq> k) Ps) < length Ps \<longleftrightarrow> k \<in> fst ` set Ps"
  "k \<in> fst ` set Ps \<Longrightarrow> map_of Ps k = Some (snd (Ps ! length (takeWhile (\<lambda>p. fst p \<noteq> k) Ps)))
     \<and> fst (Ps ! length (takeWhile (\<lambda>p. fst p \<noteq> k) Ps)) = k"
  by (induction Ps) auto

definition used :: "('k, 'v) SmallMap \<Rightarrow> ('k \<times> 'v) list" where
  "used M = take (Size M) (Vector M)"

lemma smap_invD:
  assumes "smap_inv N M"
  shows "length (Vector M) = N" "Size M \<le> N" "finite (dom (Map M))" "distinct (map fst (used M))"
    "IsSorted M \<Longrightarrow> sorted (map fst (used M))" "\<not> isSmall M \<Longrightarrow> Size M = N"
  using assms by (auto simp: smap_inv_def used_def)

lemma length_used: "smap_inv N M \<Longrightarrow> length (used M) = Size M"
  by (simp add: used_def smap_inv_def)

lemma used_nth: "smap_inv N M \<Longrightarrow> i < Size M \<Longrightarrow> Vector M ! i = used M ! i"
  by (simp add: used_def)

lemma vfind_cases:
  assumes "smap_inv N M"
  obtains (missing) "vfind k M = Size M" "k \<notin> fst ` set (used M)"
    | (present) "vfind k M < Size M" "k \<in> fst ` set (used M)" "map_of (used M) k = Some (snd (Vector M ! vfind k M))"
        "fst (Vector M ! vfind k M) = k"
proof (cases "k \<in> fst ` set (used M)")
  case True
  have "vfind k M = length (takeWhile (\<lambda>p. fst p \<noteq> k) (used M))" by (simp add: vfind_def vfind_from_eq used_def)
  moreover have "\<dots> < Size M" using takeWhile_key(1) [of k "used M"] True length_used [OF assms] by simp
  ultimately show ?thesis using present takeWhile_key(2) [OF True] True used_nth [OF assms] by simp
next
  case False
  have "vfind k M = length (takeWhile (\<lambda>p. fst p \<noteq> k) (used M))" by (simp add: vfind_def vfind_from_eq used_def)
  also have "takeWhile (\<lambda>p. fst p \<noteq> k) (used M) = used M" using False by (auto simp: takeWhile_eq_all_conv)
  finally show ?thesis using missing False length_used [OF assms] by simp
qed

lemma abs_small: "isSmall M \<Longrightarrow> smap_abs M = map_of (used M)" and abs_big: "\<not> isSmall M \<Longrightarrow> smap_abs M = Map M"
  by (simp_all add: smap_abs_def used_def)

lemma dom_used: "dom (map_of (used M)) = fst ` set (used M)"
  by (rule dom_map_of_conv_image_fst)

section \<open>Lookups\<close>

lemma smap_lookups:
  assumes inv: "smap_inv N M"
  shows "smap_size M = card (dom (smap_abs M))" "smap_empty M \<longleftrightarrow> smap_abs M = Map.empty"
    "smap_contains k M = Some (k \<in> dom (smap_abs M))" "smap_count k M = (if k \<in> dom (smap_abs M) then 1 else 0)"
    "smap_at k M = smap_abs M k"
proof -
  note len = length_used [OF inv]
  have small: "card (fst ` set (used M)) = Size M"
    using inv distinct_card [of "map fst (used M)"] len by (simp add: smap_inv_def used_def)
  show "smap_size M = card (dom (smap_abs M))"
    using small by (cases "isSmall M") (simp_all add: smap_size_def abs_small abs_big dom_used)
  show "smap_empty M \<longleftrightarrow> smap_abs M = Map.empty"
  proof (cases "isSmall M")
    case True
    have "map_of (used M) = Map.empty \<longleftrightarrow> Size M = 0" using len by (cases "used M") auto
    then show ?thesis using True by (simp add: smap_empty_def abs_small isSmall_def)
  next
    case False
    then show ?thesis by (simp add: smap_empty_def abs_big isSmall_def)
  qed
  show "smap_contains k M = Some (k \<in> dom (smap_abs M))" "smap_count k M = (if k \<in> dom (smap_abs M) then 1 else 0)"
    by (cases rule: vfind_cases [OF inv, of k]; cases "isSmall M";
        auto simp: smap_contains_def smap_count_def smap_find_def smap_end_def abs_small abs_big dom_used)+
  show "smap_at k M = smap_abs M k"
  proof (cases "isSmall M")
    case True
    have "length (Vector M) = N" "Size M \<le> N" using inv by (simp_all add: smap_inv_def)
    then show ?thesis using True map_of_eq_None_iff [of "used M" k]
      by (cases rule: vfind_cases [OF inv, of k])
        (auto simp: smap_at_def smap_find_def smap_end_def abs_small at_def)
  next
    case False
    then show ?thesis by (auto simp: smap_at_def smap_find_def smap_end_def abs_big dom_def split: option.splits)
  qed
qed

section \<open>Insertion\<close>

lemma insert_all_eq: "distinct (map fst Ps) \<Longrightarrow> fst ` set Ps \<inter> dom m = {} \<Longrightarrow> insert_all Ps m = m ++ map_of Ps"
proof (induction Ps arbitrary: m)
  case (Cons P Ps)
  have "fst P \<notin> dom m" using Cons.prems(2) by auto
  then have i: "snd (map_insert P m) = m(fst P \<mapsto> snd P)" by (simp add: map_insert_def)
  have d: "fst ` set Ps \<inter> dom (m(fst P \<mapsto> snd P)) = {}" using Cons.prems unfolding dom_fun_upd by auto
  have "distinct (map fst Ps)" using Cons.prems(1) by simp
  then have "insert_all Ps (m(fst P \<mapsto> snd P)) = m(fst P \<mapsto> snd P) ++ map_of Ps"
    by (rule Cons.IH [OF _ d])
  moreover have "fst P \<notin> dom (map_of Ps)" using Cons.prems(1) by (simp add: dom_map_of_conv_image_fst)
  ultimately show ?case unfolding insert_all.simps i
    by (cases P) (auto simp: fun_eq_iff map_add_def split: option.splits)
qed simp

definition inserted :: "'k \<times> 'v \<Rightarrow> ('k \<rightharpoonup> 'v) \<Rightarrow> ('k \<rightharpoonup> 'v)" where
  "inserted P m = (if fst P \<in> dom m then m else m(fst P \<mapsto> snd P))"

lemma map_insert_eq: "map_insert P m = (fst P \<notin> dom m, inserted P m)"
  by (simp add: map_insert_def inserted_def)

lemma snoc_used:
  assumes "smap_inv N M" "Size M < N"
  shows "take (Size M + 1) ((Vector M)[Size M := P]) = used M @ [P]"
  using assms by (simp add: smap_inv_def used_def take_Suc_conv_app_nth)

lemma smap_insert_append:
  assumes inv: "smap_inv N M" and 3: "isSmall M" "vfind (fst P) M = Size M" "Size M < N"
  shows "\<exists>M'. smap_insert N P M = Some ((VIterator (Size M), True), M') \<and> smap_inv N M' \<and> fst P \<notin> dom (smap_abs M)
    \<and> smap_abs M' = inserted P (smap_abs M) \<and> dereference M' (VIterator (Size M)) = Some P"
proof -
  note i = smap_invD [OF inv]
  have new: "fst P \<notin> fst ` set (used M)" using 3(2) by (cases rule: vfind_cases [OF inv, of "fst P"]) simp_all
  define b where "b = (if 1 < Size M + 1 \<and> IsSorted M then \<not> fst P < fst ((Vector M)[Size M := P] ! (Size M + 1 - 2)) else IsSorted M)"
  define M' where "M' = \<lparr>Vector = (Vector M)[Size M := P], IsSorted = b, Size = Size M + 1, Map = Map M\<rparr>"
  have run: "smap_insert N P M = Some ((VIterator (Size M), True), M')"
    using 3 by (cases M) (simp add: smap_insert_def M'_def b_def Let_def)
  have used': "used M' = used M @ [P]" using snoc_used [OF inv 3(3)] by (simp add: used_def M'_def)
  have "sorted (map fst (used M @ [P]))" if b
  proof (cases "Size M = 0")
    case True
    then show ?thesis by (simp add: used_def)
  next
    case False
    then have "IsSorted M" "\<not> fst P < fst (used M ! (Size M - 1))"
      using that 3(3) i(1) used_nth [OF inv, of "Size M - 1"] by (auto simp: b_def split: if_splits)
    then have sorted: "sorted (map fst (used M))" "fst (used M ! (Size M - 1)) \<le> fst P" using i(5) by simp_all
    have "fst q \<le> fst P" if q: "q \<in> set (used M)" for q
    proof -
      obtain j where "j < Size M" "q = used M ! j" using q length_used [OF inv] in_set_conv_nth [of q "used M"] by metis
      then have "fst q \<le> fst (used M ! (Size M - 1))"
        using sorted_nth_mono [OF sorted(1), of j "Size M - 1"] length_used [OF inv] by simp
      then show ?thesis using sorted(2) by (rule order_trans)
    qed
    then show ?thesis using sorted(1) by (simp add: sorted_append)
  qed
  then have "smap_inv N M'" using i(1-4) 3 new used' unfolding smap_inv_def used_def [symmetric] by (auto simp: M'_def isSmall_def)
  moreover have "smap_abs M' = inserted P (smap_abs M)"
  proof -
    have "isSmall M'" using 3(1) by (simp add: M'_def isSmall_def)
    moreover have "map_of (used M @ [P]) = (map_of (used M))(fst P \<mapsto> snd P)"
      using new by (cases P) (simp add: map_add_upd_left dom_map_of_conv_image_fst)
    ultimately show ?thesis using 3(1) new by (simp add: abs_small used' inserted_def dom_used)
  qed
  moreover have "dereference M' (VIterator (Size M)) = Some P" using 3(3) i(1) by (simp add: M'_def at_def)
  ultimately show ?thesis using run new 3(1) by (intro exI [of _ M']) (simp add: abs_small dom_used)
qed

lemma smap_insert_correct:
  assumes inv: "smap_inv N M"
  shows "\<exists>It M'. smap_insert N P M = Some ((It, fst P \<notin> dom (smap_abs M)), M') \<and> smap_inv N M'
    \<and> smap_abs M' = inserted P (smap_abs M) \<and> dereference M' It = Some (fst P, the (inserted P (smap_abs M) (fst P)))"
proof -
  note i = smap_invD [OF inv]
  consider "\<not> isSmall M" | "isSmall M" "vfind (fst P) M \<noteq> Size M" | "isSmall M" "vfind (fst P) M = Size M" "Size M < N"
    | "isSmall M" "vfind (fst P) M = Size M" "Size M = N" using i(2) by linarith
  then show ?thesis
  proof cases
    case 1
    let ?M = "M\<lparr>Map := inserted P (Map M)\<rparr>"
    have "\<not> isSmall ?M" using 1 by (auto simp: isSmall_def inserted_def fun_eq_iff)
    moreover have "smap_inv N ?M" using inv 1 by (auto simp: smap_inv_def inserted_def isSmall_def)
    ultimately show ?thesis using 1
      by (intro exI [of _ "MapIterator (Some (fst P))"] exI [of _ ?M])
        (auto simp: smap_insert_def map_insert_eq abs_big inserted_def)
  next
    case 2
    then have v: "vfind (fst P) M < Size M" "fst P \<in> fst ` set (used M)" "map_of (used M) (fst P) = Some (snd (Vector M ! vfind (fst P) M))"
        "fst (Vector M ! vfind (fst P) M) = fst P"
      by (cases rule: vfind_cases [OF inv, of "fst P"]; simp)+
    then have "fst P \<in> dom (smap_abs M)" using 2 by (simp add: abs_small dom_used)
    then show ?thesis using 2 inv v i(1,2)
      by (intro exI [of _ "VIterator (vfind (fst P) M)"] exI [of _ M])
        (auto simp: smap_insert_def inserted_def abs_small at_def prod_eq_iff)
  next
    case 3
    then show ?thesis using smap_insert_append [OF inv 3] domIff [of "fst P" "smap_abs M"] by (fastforce simp: inserted_def)
  next
    case 4
    have new: "fst P \<notin> fst ` set (used M)" using 4(2) by (cases rule: vfind_cases [OF inv, of "fst P"]) simp_all
    have all: "insert_all (used M) (Map M) = map_of (used M)" using 4(1) i(4) insert_all_eq [of "used M" "Map M"] by (simp add: isSmall_def)
    let ?M = "M\<lparr>Map := inserted P (map_of (used M))\<rparr>"
    have big: "\<not> isSmall ?M" by (auto simp: isSmall_def inserted_def fun_eq_iff dom_def)
    moreover have "smap_inv N ?M" using inv 4 by (auto simp: smap_inv_def inserted_def finite_dom_map_of)
    moreover have "smap_insert N P M = Some ((MapIterator (Some (fst P)), fst P \<notin> dom (map_of (used M))), ?M)"
      using 4 all by (simp add: smap_insert_def Let_def map_insert_eq used_def isSmall_def)
    ultimately show ?thesis using 4(1) new
      by (intro exI [of _ "MapIterator (Some (fst P))"] exI [of _ ?M]) (auto simp: abs_small abs_big inserted_def dom_used)
  qed
qed

section \<open>Erasure, sorting and ordered search\<close>

lemma map_of_remove_nth:
  assumes "distinct (map fst Ps)" "i < length Ps"
  shows "map_of (take i Ps @ drop (Suc i) Ps) = (map_of Ps)(fst (Ps ! i) := None)"
  using assms
proof (induction Ps arbitrary: i)
  case (Cons P Ps)
  show ?case
  proof (cases i)
    case 0
    have "map_of Ps (fst P) = None" using Cons.prems(1) by (simp add: map_of_eq_None_iff)
    then show ?thesis using 0 by (auto simp: fun_eq_iff)
  next
    case (Suc j)
    have "map_of (take j Ps @ drop (Suc j) Ps) = (map_of Ps)(fst (Ps ! j) := None)"
      using Cons Suc by auto
    moreover have "fst P \<noteq> fst (Ps ! j)" using Cons.prems Suc by (auto simp: image_iff)
    ultimately show ?thesis using Suc by (cases P) (auto simp del: map_of_append)
  qed
qed simp

lemma remove_nth_keys:
  assumes "distinct (map fst Ps)" "i < length Ps"
  shows "distinct (map fst (take i Ps @ drop (Suc i) Ps))"
    "sorted (map fst Ps) \<Longrightarrow> sorted (map fst (take i Ps @ drop (Suc i) Ps))"
proof -
  have split: "map fst Ps = map fst (take i Ps) @ fst (Ps ! i) # map fst (drop (Suc i) Ps)"
    using id_take_nth_drop [OF assms(2)] by (metis list.simps(9) map_append)
  show "distinct (map fst (take i Ps @ drop (Suc i) Ps))" using assms(1) unfolding split by simp
  show "sorted (map fst (take i Ps @ drop (Suc i) Ps))" if "sorted (map fst Ps)"
    using that unfolding split by (simp add: sorted_append)
qed

lemma smap_erase_correct:
  assumes inv: "smap_inv N M"
  shows "smap_inv N (smap_erase k M)"
    "isSmall M \<or> \<not> dom (smap_abs M) \<subseteq> {k} \<Longrightarrow> smap_abs (smap_erase k M) = (smap_abs M)(k := None)"
    "\<not> isSmall M \<Longrightarrow> dom (smap_abs M) \<subseteq> {k} \<Longrightarrow> smap_abs (smap_erase k M) = map_of (Vector M) \<and> isSmall (smap_erase k M)"
proof -
  note i = smap_invD [OF inv]
  note len = length_used [OF inv]
  let ?i = "vfind k M"
  have small: "smap_inv N (smap_erase k M) \<and> smap_abs (smap_erase k M) = (smap_abs M)(k := None)" if s: "isSmall M"
    using inv
  proof (cases rule: vfind_cases [where k = k, case_names missing present])
    case missing
    then have "smap_erase k M = M" using s by (simp add: smap_erase_def)
    moreover have "map_of (used M) k = None" using missing by (simp add: map_of_eq_None_iff)
    ultimately show ?thesis using inv s by (auto simp: abs_small)
  next
    case present
    define W where "W = take ?i (used M) @ drop (Suc ?i) (used M)"
    have e: "smap_erase k M = M\<lparr>Size := Size M - 1, Vector := W @ drop (Size M - 1) (Vector M)\<rparr>"
      using s present(1) by (simp add: smap_erase_def W_def used_def Let_def min_absorb1)
    have W: "length W = Size M - 1" using present(1) len by (simp add: W_def)
    have u: "used (smap_erase k M) = W" unfolding e by (simp add: used_def W)
    have key: "fst (used M ! ?i) = k" using present used_nth [OF inv] by simp
    have keys: "distinct (map fst W)" "sorted (map fst (used M)) \<Longrightarrow> sorted (map fst W)" "map_of W = (map_of (used M))(k := None)"
      using remove_nth_keys [OF i(4), of ?i] map_of_remove_nth [OF i(4), of ?i] present(1) len key by (simp_all add: W_def)
    have s': "isSmall (smap_erase k M)" using s by (simp add: e isSmall_def)
    have "smap_inv N (smap_erase k M)"
      unfolding smap_inv_def used_def [symmetric] u using keys i s' W present(1) by (simp add: e)
    then show ?thesis using s s' by (simp add: abs_small u keys)
  qed
  have big: "smap_inv N (smap_erase k M)" if "\<not> isSmall M"
    using inv that by (auto simp: smap_inv_def smap_erase_def isSmall_def)
  show "smap_inv N (smap_erase k M)" using small big by blast
  show "smap_abs (smap_erase k M) = (smap_abs M)(k := None)" if cond: "isSmall M \<or> \<not> dom (smap_abs M) \<subseteq> {k}"
  proof (cases "isSmall M")
    case False
    then obtain q where "q \<in> dom (Map M)" "q \<noteq> k" using cond by (auto simp: abs_big)
    then have "(Map M)(k := None) \<noteq> Map.empty" by (auto simp: fun_eq_iff dom_def intro: exI [of _ q])
    then show ?thesis using False by (simp add: smap_abs_def smap_erase_def isSmall_def)
  qed (use small in blast)
  show "smap_abs (smap_erase k M) = map_of (Vector M) \<and> isSmall (smap_erase k M)" if "\<not> isSmall M" "dom (smap_abs M) \<subseteq> {k}"
  proof -
    have "(Map M)(k := None) = Map.empty" using that by (auto simp: abs_big fun_eq_iff dom_def)
    then show ?thesis using that(1) i(1) i(6) by (simp add: smap_abs_def smap_erase_def isSmall_def)
  qed
qed

lemma smap_sort_correct:
  assumes inv: "smap_inv N M"
  shows "smap_inv N (smap_sort M)" "smap_abs (smap_sort M) = smap_abs M" "isSmall (smap_sort M) \<longleftrightarrow> isSmall M"
    "sorted (map fst (smap_elements (smap_sort M)))" "Size (smap_sort M) = Size M"
proof -
  note i = smap_invD [OF inv]
  note len = length_used [OF inv]
  define W where "W = sort_key fst (used M)"
  have W: "length W = Size M" "distinct (map fst W)" "sorted (map fst W)"
    using i(4) len by (auto simp: W_def distinct_map inj_on_def)
  have m: "map_of W = map_of (used M)"
    using W i(4) by (intro map_of_inject_set [THEN iffD2]) (auto simp: W_def)
  show s: "isSmall (smap_sort M) \<longleftrightarrow> isSmall M" by (simp add: smap_sort_def isSmall_def)
  show "Size (smap_sort M) = Size M" by (simp add: smap_sort_def)
  have u: "used (smap_sort M) = W" if "\<not> (IsSorted M \<or> \<not> isSmall M \<or> Size M \<le> 1)"
    using that W(1) by (simp add: smap_sort_def used_def W_def)
  show "smap_inv N (smap_sort M)"
  proof (cases "IsSorted M \<or> \<not> isSmall M \<or> Size M \<le> 1")
    case False
    then show ?thesis unfolding smap_inv_def used_def [symmetric] u [OF False] using W i by (simp add: smap_sort_def used_def W_def isSmall_def)
  qed (use inv in \<open>auto simp: smap_sort_def\<close>)
  show "smap_abs (smap_sort M) = smap_abs M"
  proof (cases "IsSorted M \<or> \<not> isSmall M \<or> Size M \<le> 1")
    case False
    then show ?thesis using u [OF False] m s by (simp add: abs_small)
  qed (auto simp: smap_sort_def)
  show "sorted (map fst (smap_elements (smap_sort M)))"
  proof (cases "isSmall M")
    case True
    then have "smap_elements (smap_sort M) = used (smap_sort M)" using s by (simp add: smap_elements_def used_def)
    moreover have "sorted (map fst (used (smap_sort M)))"
    proof (cases "IsSorted M \<or> \<not> isSmall M \<or> Size M \<le> 1")
      case True
      have "sorted (map fst (used M))" if "Size M \<le> 1" using that len by (intro sorted01) simp
      then show ?thesis using True i(5) \<open>isSmall M\<close> by (auto simp: smap_sort_def)
    qed (use u W in simp)
    ultimately show ?thesis by simp
  qed (simp add: smap_elements_def s o_def)
qed

lemma vlower_bound_from_eq: "vlower_bound_from k i Ps = i + length (takeWhile (\<lambda>p. fst p < k) Ps)"
  by (induction Ps arbitrary: i) auto

text \<open>The key at the position \<open>lower_bound\<close> yields, if any.\<close>

definition key_at :: "('k, 'v) SmallMap \<Rightarrow> 'k iterator \<Rightarrow> 'k option" where
  "key_at M It = map_option fst (dereference M It)"

lemma sorted_takeWhile_less:
  fixes Ps :: "('k::linorder \<times> 'v) list" and k :: 'k
  assumes "sorted (map fst Ps)"
  defines "i \<equiv> length (takeWhile (\<lambda>p. fst p < k) Ps)"
  shows "i \<le> length Ps" "\<forall>j<i. fst (Ps ! j) < k" "\<forall>j. i \<le> j \<and> j < length Ps \<longrightarrow> k \<le> fst (Ps ! j)"
proof -
  show "i \<le> length Ps" by (simp add: i_def length_takeWhile_le)
  show "\<forall>j<i. fst (Ps ! j) < k"
    unfolding i_def by (metis nth_mem set_takeWhileD takeWhile_nth)
  show "\<forall>j. i \<le> j \<and> j < length Ps \<longrightarrow> k \<le> fst (Ps ! j)"
  proof (intro allI impI)
    fix j assume j: "i \<le> j \<and> j < length Ps"
    then have "\<not> fst (Ps ! i) < k" unfolding i_def using nth_length_takeWhile [of "\<lambda>p. fst p < k" Ps] by auto
    moreover have "fst (Ps ! i) \<le> fst (Ps ! j)"
      using assms(1) j sorted_nth_mono [of "map fst Ps" i j] by simp
    ultimately show "k \<le> fst (Ps ! j)" by simp
  qed
qed

lemma dereference_abs:
  assumes "smap_inv N M" "dereference M It = Some (q, v)" "case It of VIterator _ \<Rightarrow> isSmall M | MapIterator _ \<Rightarrow> \<not> isSmall M"
  shows "smap_abs M q = Some v"
proof (cases It)
  case (VIterator i)
  then have "(q, v) \<in> set (used M)" using assms(2) length_used [OF assms(1)] nth_mem [of i "used M"]
    by (auto simp: at_def used_def split: if_splits)
  then show ?thesis using VIterator assms(1,3) by (auto simp: abs_small smap_inv_def used_def intro!: map_of_is_SomeI)
next
  case (MapIterator k)
  then show ?thesis using assms(2,3) by (cases k) (auto simp: abs_big)
qed

text \<open>\<open>q\<close> is the least key of \<open>K\<close> that is not smaller than \<open>k\<close>.\<close>

definition least_from :: "'k::linorder \<Rightarrow> 'k set \<Rightarrow> 'k option \<Rightarrow> bool" where
  "least_from k K q = (case q of None \<Rightarrow> \<forall>r\<in>K. r < k | Some q \<Rightarrow> q \<in> K \<and> k \<le> q \<and> (\<forall>r\<in>K. k \<le> r \<longrightarrow> q \<le> r))"

lemma small_lower_bound:
  fixes M :: "('k::linorder, 'v) SmallMap" and k :: 'k
  assumes inv: "smap_inv N M" and s: "isSmall M" and sorted: "sorted (map fst (used M))"
  defines "i \<equiv> length (takeWhile (\<lambda>p. fst p < k) (used M))"
  shows "least_from k (dom (smap_abs M)) (key_at M (VIterator i)) \<and> (i = Size M \<longleftrightarrow> key_at M (VIterator i) = None)"
proof -
  note len = length_used [OF inv] and tw = sorted_takeWhile_less [OF sorted, of k, folded i_def]
  have key: "key_at M (VIterator i) = (if i < Size M then Some (fst (used M ! i)) else None)"
    using smap_invD(1,2) [OF inv] by (simp add: key_at_def at_def used_def)
  have mem: "q \<in> dom (smap_abs M) \<longleftrightarrow> (\<exists>j<Size M. q = fst (used M ! j))" for q
    unfolding abs_small [OF s] dom_used set_conv_nth using len by auto
  show ?thesis
  proof (cases "i < Size M")
    case True
    have "fst (used M ! i) \<le> r" if r: "r \<in> dom (smap_abs M)" "k \<le> r" for r
    proof -
      obtain j where j: "j < Size M" "r = fst (used M ! j)" using r mem by blast
      then have "i \<le> j" using tw(2) r(2) by (meson linorder_not_less)
      then show ?thesis using sorted_nth_mono [OF sorted, of i j] j len by simp
    qed
    then show ?thesis using True key tw(3) len mem by (auto simp: least_from_def)
  next
    case False
    then have i: "i = Size M" using tw(1) len by simp
    then have "\<forall>q\<in>dom (smap_abs M). q < k" using tw(2) mem by metis
    then show ?thesis using i key by (simp add: least_from_def)
  qed
qed

lemma least_from_Min:
  assumes "finite K"
  shows "least_from k K (if {q \<in> K. k \<le> q} = {} then None else Some (Min {q \<in> K. k \<le> q}))"
proof (cases "{q \<in> K. k \<le> q} = {}")
  case True
  have "q < k" if "q \<in> K" for q
  proof (rule ccontr)
    assume "\<not> q < k"
    then have "q \<in> {q \<in> K. k \<le> q}" using that by simp
    then show False using True by blast
  qed
  then show ?thesis using True by (simp add: least_from_def)
next
  case False
  have "Min {q \<in> K. k \<le> q} \<in> {q \<in> K. k \<le> q}" using assms False by (intro Min_in) simp_all
  moreover have "\<forall>r\<in>{q \<in> K. k \<le> q}. Min {q \<in> K. k \<le> q} \<le> r" using assms by simp
  ultimately show ?thesis unfolding if_not_P [OF False] least_from_def by simp
qed

lemma smap_lower_bound_correct:
  assumes inv: "smap_inv N M" and run: "smap_lower_bound k M = (It, M')"
  shows "smap_inv N M'" "smap_abs M' = smap_abs M" "least_from k (dom (smap_abs M)) (key_at M' It)"
    "iterator_equal It (smap_end M') = Some (key_at M' It = None)"
    "case It of VIterator _ \<Rightarrow> isSmall M' | MapIterator _ \<Rightarrow> \<not> isSmall M'"
proof -
  note sort = smap_sort_correct [OF inv]
  have M': "M' = (if isSmall M then smap_sort M else M)" using run by (auto simp: smap_lower_bound_def vlower_bound_def Let_def)
  show "case It of VIterator _ \<Rightarrow> isSmall M' | MapIterator _ \<Rightarrow> \<not> isSmall M'"
    using run sort(3) by (auto simp: smap_lower_bound_def vlower_bound_def Let_def split: if_splits)
  show inv': "smap_inv N M'" "smap_abs M' = smap_abs M" using sort(1,2) inv by (simp_all add: M')
  have "least_from k (dom (smap_abs M)) (key_at M' It) \<and> iterator_equal It (smap_end M') = Some (key_at M' It = None)"
  proof (cases "isSmall M")
    case True
    have s': "isSmall M'" using True sort(3) by (simp add: M')
    have "It = VIterator (length (takeWhile (\<lambda>p. fst p < k) (used M')))"
      using run True by (auto simp: smap_lower_bound_def vlower_bound_def Let_def vlower_bound_from_eq used_def M')
    moreover have "sorted (map fst (used M'))" using sort(4) s' True by (simp add: M' smap_elements_def used_def)
    ultimately show ?thesis using small_lower_bound [OF inv'(1) s', of k] s' inv'(2) by (simp add: smap_end_def)
  next
    case False
    let ?q = "if {q \<in> dom (Map M). k \<le> q} = {} then None else Some (Min {q \<in> dom (Map M). k \<le> q})"
    have It: "It = MapIterator ?q" "M' = M"
      using run False unfolding smap_lower_bound_def Let_def if_not_P [OF False] prod.inject by blast+
    have l: "least_from k (dom (Map M)) ?q" using inv by (intro least_from_Min) (simp add: smap_inv_def)
    then have "key_at M (MapIterator ?q) = ?q"
      by (cases ?q) (auto simp: key_at_def least_from_def simp del: not_None_eq)
    then show ?thesis using l False by (simp only: It) (simp add: abs_big smap_end_def)
  qed
  then show "least_from k (dom (smap_abs M)) (key_at M' It)" "iterator_equal It (smap_end M') = Some (key_at M' It = None)"
    by simp_all
qed

section \<open>Sequences of operations\<close>

lemma smap_new_correct: "length Ps = N \<Longrightarrow> smap_inv N (smap_new Ps) \<and> smap_abs (smap_new Ps) = Map.empty"
  by (simp add: smap_inv_def smap_new_def smap_abs_def isSmall_def)

lemma smap_clear_correct: "smap_inv N M \<Longrightarrow> smap_inv N (smap_clear M) \<and> smap_abs (smap_clear M) = Map.empty"
  by (simp add: smap_inv_def smap_clear_def smap_abs_def isSmall_def)

lemma smap_subscript_correct:
  assumes "smap_inv N M"
  shows "\<exists>M'. smap_subscript N D k M = Some (the (inserted (k, D) (smap_abs M) k), M') \<and> smap_inv N M'
    \<and> smap_abs M' = inserted (k, D) (smap_abs M)"
  using smap_insert_correct [OF assms, of "(k, D)"] by (auto simp: smap_subscript_def)

datatype ('k, 'v) smap_op = Insert "'k \<times> 'v" | Erase 'k | Subscript 'k | LowerBound 'k | Sort | Clear

fun smap_step :: "nat \<Rightarrow> 'v \<Rightarrow> ('k::linorder, 'v) smap_op \<Rightarrow> ('k, 'v) SmallMap \<Rightarrow> ('k, 'v) SmallMap checked" where
  "smap_step N D (Insert P) M = map_option snd (smap_insert N P M)"
| "smap_step N D (Erase k) M = Some (smap_erase k M)"
| "smap_step N D (Subscript k) M = map_option snd (smap_subscript N D k M)"
| "smap_step N D (LowerBound k) M = Some (snd (smap_lower_bound k M))"
| "smap_step N D Sort M = Some (smap_sort M)"
| "smap_step N D Clear M = Some (smap_clear M)"

fun map_step :: "'v \<Rightarrow> ('k, 'v) smap_op \<Rightarrow> ('k \<rightharpoonup> 'v) \<Rightarrow> ('k \<rightharpoonup> 'v)" where
  "map_step D (Insert P) m = inserted P m"
| "map_step D (Erase k) m = m(k := None)"
| "map_step D (Subscript k) m = inserted (k, D) m"
| "map_step D Clear m = Map.empty"
| "map_step D _ m = m"

text \<open>The one operation that does not do what a map does: erasing the last element of a map that has grown.\<close>

fun step_safe :: "('k, 'v) smap_op \<Rightarrow> ('k, 'v) SmallMap \<Rightarrow> bool" where
  "step_safe (Erase k) M \<longleftrightarrow> isSmall M \<or> \<not> dom (Map M) \<subseteq> {k}"
| "step_safe _ M \<longleftrightarrow> True"

fun smap_run :: "nat \<Rightarrow> 'v \<Rightarrow> ('k::linorder, 'v) smap_op list \<Rightarrow> ('k, 'v) SmallMap \<Rightarrow> ('k, 'v) SmallMap checked" where
  "smap_run N D [] M = Some M"
| "smap_run N D (Op # Ops) M = do { M' \<leftarrow> smap_step N D Op M; smap_run N D Ops M' }"

fun run_safe :: "nat \<Rightarrow> 'v \<Rightarrow> ('k::linorder, 'v) smap_op list \<Rightarrow> ('k, 'v) SmallMap \<Rightarrow> bool" where
  "run_safe N D [] M \<longleftrightarrow> True"
| "run_safe N D (Op # Ops) M \<longleftrightarrow> step_safe Op M \<and> (case smap_step N D Op M of None \<Rightarrow> True | Some M' \<Rightarrow> run_safe N D Ops M')"

lemma smap_step_correct:
  assumes inv: "smap_inv N M"
  shows "\<exists>M'. smap_step N D Op M = Some M' \<and> smap_inv N M' \<and> (step_safe Op M \<longrightarrow> smap_abs M' = map_step D Op (smap_abs M))"
proof (cases Op)
  case (Insert P)
  then show ?thesis using smap_insert_correct [OF inv, of P] by auto
next
  case (Erase k)
  then show ?thesis using smap_erase_correct [OF inv, of k] by (cases "isSmall M") (simp_all add: abs_big)
next
  case (Subscript k)
  then show ?thesis using smap_subscript_correct [OF inv, of D k] by auto
next
  case (LowerBound k)
  then show ?thesis using smap_lower_bound_correct(1,2) [OF inv prod.collapse [symmetric], of k] by simp
next
  case Sort
  then show ?thesis using smap_sort_correct [OF inv] by simp
next
  case Clear
  then show ?thesis using smap_clear_correct [OF inv] by simp
qed

lemma smap_run_correct:
  "smap_inv N M \<Longrightarrow> \<exists>M'. smap_run N D Ops M = Some M' \<and> smap_inv N M'
     \<and> (run_safe N D Ops M \<longrightarrow> smap_abs M' = fold (map_step D) Ops (smap_abs M))"
proof (induction Ops arbitrary: M)
  case (Cons Op Ops)
  obtain M1 where "smap_step N D Op M = Some M1" "smap_inv N M1" "step_safe Op M \<longrightarrow> smap_abs M1 = map_step D Op (smap_abs M)"
    using smap_step_correct [OF Cons.prems, of D Op] by blast
  then show ?case using Cons.IH [of M1] by auto
qed simp

lemmas smap_test = smap_new_def smap_insert_def smap_erase_def smap_subscript_def vfind_def isSmall_def map_insert_def
  smap_lower_bound_def Let_def

text \<open>
  \<^bold>\<open>C22\<close>. A sequence of operations on a small map never stops at an assertion, and keeps the invariant; when
  it does not erase the last element of a map that has outgrown its array, the final object behaves as
  the map that the operations describe: size, emptiness, lookups and their failure.
\<close>

theorem smap_refines_map:
  assumes "length Defaults = N"
  shows "\<exists>M. smap_run N D Ops (smap_new Defaults) = Some M \<and> smap_inv N M
    \<and> (run_safe N D Ops (smap_new Defaults) \<longrightarrow>
        (let m = fold (map_step D) Ops Map.empty in
           smap_abs M = m \<and> smap_size M = card (dom m) \<and> (smap_empty M \<longleftrightarrow> m = Map.empty)
           \<and> (\<forall>k. smap_at k M = m k \<and> smap_contains k M = Some (k \<in> dom m) \<and> smap_count k M = (if k \<in> dom m then 1 else 0))))"
proof -
  obtain M where "smap_run N D Ops (smap_new Defaults) = Some M" "smap_inv N M"
      "run_safe N D Ops (smap_new Defaults) \<longrightarrow> smap_abs M = fold (map_step D) Ops Map.empty"
    using smap_run_correct [of N "smap_new Defaults" D Ops] smap_new_correct [OF assms] by metis
  then show ?thesis using smap_lookups [of N M] by (auto simp: Let_def)
qed

theorem smap_refines_map_witness:
  "let Ops = [Insert (2, 7), Insert (1, 5), Erase 2, Subscript 3, LowerBound 2 :: (nat, nat) smap_op] in
     run_safe 1 0 Ops (smap_new [(0, 0)]) \<and> (\<exists>M. smap_run 1 0 Ops (smap_new [(0, 0)]) = Some M
       \<and> smap_size M = 2 \<and> smap_at 1 M = Some 5 \<and> smap_at 2 M = None \<and> smap_at 3 M = Some 0)"
proof -
  let ?Ops = "[Insert (2, 7), Insert (1, 5), Erase 2, Subscript 3, LowerBound 2 :: (nat, nat) smap_op]"
  have safe: "run_safe 1 0 ?Ops (smap_new [(0, 0)])" by (simp add: smap_test)
  have m: "fold (map_step 0) ?Ops Map.empty = [1 \<mapsto> 5, 3 \<mapsto> 0]" by (auto simp: inserted_def fun_eq_iff)
  have "card (dom [1 :: nat \<mapsto> 5, 3 \<mapsto> 0 :: nat]) = 2" by simp
  then show ?thesis using smap_refines_map [of "[(0, 0)]" 1 0 ?Ops] safe unfolding m by (auto simp: Let_def)
qed

text \<open>
  \<^bold>\<open>Fact\<close>. \<open>lower_bound\<close> yields an element with the least key that is not smaller than the given one, and the end
  iterator exactly when there is none; as a map the object does not change.
\<close>

theorem smap_lower_bound_least:
  assumes "smap_inv N M" "smap_lower_bound k M = (It, M')"
  shows "smap_abs M' = smap_abs M \<and> iterator_equal It (smap_end M') = Some (dereference M' It = None)
    \<and> (case dereference M' It of None \<Rightarrow> \<forall>q\<in>dom (smap_abs M). q < k
      | Some (q, v) \<Rightarrow> smap_abs M q = Some v \<and> k \<le> q \<and> (\<forall>r\<in>dom (smap_abs M). k \<le> r \<longrightarrow> q \<le> r))"
  using smap_lower_bound_correct [OF assms] dereference_abs [of N M' It]
  by (auto simp: key_at_def least_from_def split: option.splits)

theorem smap_lower_bound_least_witness:
  "let M = \<lparr>Vector = [(5, ''a''), (3, ''b''), (9, ''c'')], IsSorted = False, Size = 2, Map = Map.empty :: nat \<rightharpoonup> string\<rparr> in
     smap_inv 3 M \<and> dereference (snd (smap_lower_bound 4 M)) (fst (smap_lower_bound 4 M)) = Some (5, ''a'')"
proof -
  let ?M = "\<lparr>Vector = [(5, ''a''), (3, ''b''), (9, ''c'')], IsSorted = False, Size = 2, Map = Map.empty :: nat \<rightharpoonup> string\<rparr>"
  have inv: "smap_inv 3 ?M" by (simp add: smap_inv_def isSmall_def)
  have "smap_abs ?M = [3 \<mapsto> ''b'', 5 \<mapsto> ''a'']" by (simp add: smap_abs_def isSmall_def)
  then show ?thesis
    using smap_lower_bound_least [OF inv, of 4 "fst (smap_lower_bound 4 ?M)" "snd (smap_lower_bound 4 ?M)"] inv
    by (auto simp: Let_def split: option.splits if_splits)
qed

text \<open>
  \<^bold>\<open>Fact\<close>. Erasing the only element of a map that has outgrown its array brings back the elements the array had
  when the map grew: the object is not empty and has \<open>N\<close> elements.
\<close>

theorem smap_erase_resurrects:
  assumes "smap_inv N M" "\<not> isSmall M" "dom (smap_abs M) = {k}" "0 < N"
  shows "\<not> smap_empty (smap_erase k M) \<and> smap_size (smap_erase k M) = N
    \<and> smap_abs (smap_erase k M) = map_of (Vector M)"
proof -
  have "Size (smap_erase k M) = N" using assms(1,2) by (simp add: smap_erase_def smap_inv_def)
  then show ?thesis using smap_erase_correct(3) [OF assms(1,2), of k] assms(3,4)
    by (simp add: smap_size_def smap_empty_def)
qed

theorem smap_erase_resurrects_witness:
  "\<exists>M. smap_run 1 0 [Insert (2, 7), Insert (1, 5), Erase 2 :: (nat, nat) smap_op] (smap_new [(0, 0)]) = Some M
     \<and> dom (smap_abs M) = {1} \<and> \<not> smap_empty (smap_erase 1 M) \<and> smap_at 2 (smap_erase 1 M) = Some 7"
proof -
  let ?M = "\<lparr>Vector = [(2, 7)], IsSorted = True, Size = 1, Map = [1 \<mapsto> 5]\<rparr> :: (nat, nat) SmallMap"
  have run: "smap_run 1 0 [Insert (2, 7), Insert (1, 5), Erase 2] (smap_new [(0, 0)]) = Some ?M" by (simp add: smap_test)
  have inv: "smap_inv 1 ?M" "\<not> isSmall ?M" "dom (smap_abs ?M) = {1}" by (simp_all add: smap_inv_def isSmall_def smap_abs_def)
  have "smap_inv 1 (smap_erase 1 ?M)" by (rule smap_erase_correct(1) [OF inv(1)])
  from smap_lookups(5) [OF this, of 2] smap_erase_resurrects [OF inv] inv(3) run show ?thesis
    by (intro exI [of _ ?M]) simp
qed

end
