(* ===== verification/Unicode.thy ===== *)
theory Unicode
  imports Revng_Prelude "HOL-Library.Sublist"
begin

text \<open>
  \<^verbatim>\<open>UnicodeCStringView\<close> (src/include/revng/Support/Unicode.h, src/lib/Support/Unicode.cpp): decoding of
  NUL-terminated UTF-8 and UTF-16 strings at the start of a buffer. The decoders are compared with
  the encodings themselves.
\<close>

section \<open>Views\<close>

datatype Encoding = Encoding_Invalid | UTF8 | UTF16LE | UTF16BE

text \<open>The data of a view is \<^term>\<open>None\<close> for a null pointer. A \<^verbatim>\<open>find\<close> without a result is \<^term>\<open>None\<close>, its value \<^verbatim>\<open>npos\<close>.\<close>

record UnicodeCStringView =
  View_Data :: "u8 list option"
  TheEncoding :: Encoding
  CodePointCount :: nat

type_synonym StringRef_find = "u8 list \<Rightarrow> u8 list \<Rightarrow> nat \<Rightarrow> nat option"
type_synonym CodePointProcessor = "nat \<Rightarrow> nat \<Rightarrow> u32 \<Rightarrow> bool"

definition ends_with :: "u8 list \<Rightarrow> u8 list \<Rightarrow> bool" where
  "ends_with Data Suffix \<longleftrightarrow> suffix Suffix Data"

text \<open>
  The loop over the occurrences of two zero bytes. For \<^verbatim>\<open>npos\<close>, which is odd, the sum \<^verbatim>\<open>Index + 3\<close> is 2 and
  the next search starts at 0.
\<close>

partial_function (option) check_aligned_null :: "StringRef_find \<Rightarrow> u8 list \<Rightarrow> nat option \<Rightarrow> unit option" where
  "check_aligned_null SF S Index =
     (case Index of
        None \<Rightarrow> if length S < 2 then check_aligned_null SF S (SF S [0, 0] 0) else Some ()
      | Some I \<Rightarrow> if I mod 2 = 1 then check_aligned_null SF S (SF S [0, 0] (I + 1)) else None)"

definition view_new :: "StringRef_find \<Rightarrow> u8 list option \<Rightarrow> Encoding \<Rightarrow> nat \<Rightarrow> UnicodeCStringView checked" where
  "view_new SF Data E Points =
     (case E of
        Encoding_Invalid \<Rightarrow> do {
          revng_assert (Data = None);
          revng_assert (Points = 0);
          Some \<lparr>View_Data = Data, TheEncoding = E, CodePointCount = Points\<rparr> }
      | UTF8 \<Rightarrow> do {
          Bytes \<leftarrow> Data;
          revng_assert (0 < Points);
          revng_assert (Points \<le> length Bytes);
          revng_assert (ends_with Bytes [0]);
          revng_assert (0 \<notin> set (butlast Bytes));
          Some \<lparr>View_Data = Data, TheEncoding = E, CodePointCount = Points\<rparr> }
      | _ \<Rightarrow> do {
          Bytes \<leftarrow> Data;
          revng_assert (length Bytes mod 2 = 0);
          revng_assert (0 < Points);
          revng_assert (2 * Points \<le> length Bytes);
          revng_assert (ends_with Bytes [0, 0]);
          let StringWithoutNUL = take (length Bytes - 2) Bytes;
          check_aligned_null SF StringWithoutNUL (SF StringWithoutNUL [0, 0] 0);
          Some \<lparr>View_Data = Data, TheEncoding = E, CodePointCount = Points\<rparr> })"

definition view_default :: UnicodeCStringView where
  "view_default = \<lparr>View_Data = None, TheEncoding = Encoding_Invalid, CodePointCount = 0\<rparr>"

definition view_isValid :: "UnicodeCStringView \<Rightarrow> bool" where
  "view_isValid V \<longleftrightarrow> TheEncoding V \<noteq> Encoding_Invalid"

definition charSize :: "UnicodeCStringView \<Rightarrow> nat checked" where
  "charSize V = do {
     revng_assert (TheEncoding V \<noteq> Encoding_Invalid);
     Some (if TheEncoding V = UTF8 then 1 else 2) }"

section \<open>UTF-16\<close>

definition code_unit :: "bool \<Rightarrow> u16 \<Rightarrow> u16 \<Rightarrow> u16" where
  "code_unit IsLittleEndian FirstByte SecondByte =
     (if IsLittleEndian then FirstByte OR push_bit 8 SecondByte else SecondByte OR push_bit 8 FirstByte)"

text \<open>The second unit of a surrogate pair is built from the bytes of the first one.\<close>

function fromUTF16_loop ::
  "StringRef_find \<Rightarrow> bool \<Rightarrow> u8 list \<Rightarrow> CodePointProcessor \<Rightarrow> nat \<Rightarrow> nat \<Rightarrow> UnicodeCStringView checked" where
  "fromUTF16_loop SF LE Data ProcessCodePoint Current CodePointIndex =
     (if Current + 1 < length Data
      then
        let FirstByte = ucast (Data ! Current); SecondByte = ucast (Data ! (Current + 1));
            Unit = code_unit LE FirstByte SecondByte; Next = Current + 2 in
        if Unit = 0
        then (if Next - 2 = 0 then Some view_default
              else view_new SF (Some (take Next Data)) (if LE then UTF16LE else UTF16BE) CodePointIndex)
        else if Unit < 0xD800 \<or> 0xDFFF < Unit
        then (if 0x10FFFF < (ucast Unit :: u32) then Some view_default
              else if \<not> ProcessCodePoint Next CodePointIndex (ucast Unit) then Some view_default
              else fromUTF16_loop SF LE Data ProcessCodePoint Next (CodePointIndex + 1))
        else if Unit AND 0xFC00 = 0xD800
        then (if length Data \<le> Next + 1 then Some view_default
              else
                let LowUnit = code_unit LE FirstByte SecondByte; Next2 = Next + 2 in
                if LowUnit AND 0xFC00 \<noteq> 0xDC00 then Some view_default
                else
                  let CodePoint = 0x10000 + (push_bit 10 (ucast (Unit AND 0x3FF)) OR ucast (LowUnit AND 0x3FF)) in
                  if 0x10FFFF < CodePoint then Some view_default
                  else if \<not> ProcessCodePoint Next2 CodePointIndex CodePoint then Some view_default
                  else fromUTF16_loop SF LE Data ProcessCodePoint Next2 (CodePointIndex + 1))
        else Some view_default
      else Some view_default)"
  by pat_completeness auto

termination
  by (relation "measure (\<lambda>(_, _, Data, _, Current, _). length Data - Current)") auto

declare fromUTF16_loop.simps [simp del]

definition fromUTF16 :: "StringRef_find \<Rightarrow> bool \<Rightarrow> u8 list \<Rightarrow> CodePointProcessor \<Rightarrow> UnicodeCStringView checked" where
  "fromUTF16 SF LE Data ProcessCodePoint = fromUTF16_loop SF LE Data ProcessCodePoint 0 0"

section \<open>UTF-8\<close>

definition utf8_lead :: "u8 \<Rightarrow> (u32 \<times> nat) option" where
  "utf8_lead Byte =
     (if Byte AND 0x80 = 0 then Some (ucast Byte, 0)
      else if Byte AND 0xE0 = 0xC0 then Some (ucast (Byte AND 0x1F), 1)
      else if Byte AND 0xF0 = 0xE0 then Some (ucast (Byte AND 0x0F), 2)
      else if Byte AND 0xF8 = 0xF0 then Some (ucast (Byte AND 0x07), 3)
      else None)"

text \<open>The extra bytes; reading beyond the buffer has no meaning.\<close>

fun utf8_extra :: "u8 list \<Rightarrow> nat \<Rightarrow> nat \<Rightarrow> u32 \<Rightarrow> u32 option checked" where
  "utf8_extra Data Pos 0 CodePoint = Some (Some CodePoint)"
| "utf8_extra Data Pos (Suc ExtraBytes) CodePoint = do {
     Byte \<leftarrow> at Data Pos;
     if Byte AND 0xC0 \<noteq> 0x80 then Some None
     else utf8_extra Data (Suc Pos) ExtraBytes (push_bit 6 CodePoint OR ucast (Byte AND 0x3F)) }"

definition utf8_rejected :: "u32 \<Rightarrow> nat \<Rightarrow> bool" where
  "utf8_rejected CodePoint ExtraBytes \<longleftrightarrow>
     CodePoint < 0x80 \<and> 0 < ExtraBytes \<or> CodePoint < 0x800 \<and> 1 < ExtraBytes \<or> CodePoint < 0x10000 \<and> 2 < ExtraBytes
     \<or> 0xD800 \<le> CodePoint \<and> CodePoint \<le> 0xDFFF \<or> 0x10FFFF < CodePoint"

function fromUTF8_loop ::
  "StringRef_find \<Rightarrow> u8 list \<Rightarrow> CodePointProcessor \<Rightarrow> nat \<Rightarrow> nat \<Rightarrow> UnicodeCStringView checked" where
  "fromUTF8_loop SF Data ProcessCodePoint Current CodePointIndex =
     (if Current < length Data
      then
        if Data ! Current = 0
        then (if Current = 0 then Some view_default
              else view_new SF (Some (take (Current + 1) Data)) UTF8 CodePointIndex)
        else case utf8_lead (Data ! Current) of
          None \<Rightarrow> Some view_default
        | Some (Lead, ExtraBytes) \<Rightarrow>
            if length Data < Current + ExtraBytes then Some view_default
            else case utf8_extra Data (Current + 1) ExtraBytes Lead of
              None \<Rightarrow> None
            | Some None \<Rightarrow> Some view_default
            | Some (Some CodePoint) \<Rightarrow>
                if utf8_rejected CodePoint ExtraBytes then Some view_default
                else if \<not> ProcessCodePoint Current CodePointIndex CodePoint then Some view_default
                else fromUTF8_loop SF Data ProcessCodePoint (Current + 1 + ExtraBytes) (CodePointIndex + 1)
      else Some view_default)"
  by pat_completeness auto

termination
  by (relation "measure (\<lambda>(_, Data, _, Current, _). length Data - Current)") auto

declare fromUTF8_loop.simps [simp del]

definition fromUTF8 :: "StringRef_find \<Rightarrow> u8 list \<Rightarrow> CodePointProcessor \<Rightarrow> UnicodeCStringView checked" where
  "fromUTF8 SF Data ProcessCodePoint = fromUTF8_loop SF Data ProcessCodePoint 0 0"

section \<open>Candidates\<close>

fun collect_valid :: "UnicodeCStringView checked list \<Rightarrow> UnicodeCStringView list checked" where
  "collect_valid [] = Some []"
| "collect_valid (Decoded # Rest) = do {
     String \<leftarrow> Decoded;
     Strings \<leftarrow> collect_valid Rest;
     Some (if view_isValid String then String # Strings else Strings) }"

definition unicode_get :: "StringRef_find \<Rightarrow> u8 list \<Rightarrow> CodePointProcessor \<Rightarrow> UnicodeCStringView list checked" where
  "unicode_get SF Data ProcessCodePoint =
     collect_valid [fromUTF8 SF Data ProcessCodePoint,
       fromUTF16 SF True Data ProcessCodePoint, fromUTF16 SF False Data ProcessCodePoint]"

definition getPrintable ::
  "StringRef_find \<Rightarrow> (u32 \<Rightarrow> bool) \<Rightarrow> u8 list \<Rightarrow> UnicodeCStringView list checked" where
  "getPrintable SF isPrintable Data =
     unicode_get SF Data (\<lambda>Offset CodePointIndex CodePoint. isPrintable CodePoint \<or> CodePoint \<in> {7, 8, 9, 10, 11, 12, 13})"

section \<open>The encodings\<close>

definition scalar :: "nat \<Rightarrow> bool" where
  "scalar c \<longleftrightarrow> 0 < c \<and> c \<le> 0x10FFFF \<and> \<not> (0xD800 \<le> c \<and> c \<le> 0xDFFF)"

definition utf8 :: "nat \<Rightarrow> u8 list" where
  "utf8 c =
     (if c < 0x80 then [word_of_nat c]
      else if c < 0x800 then [word_of_nat (0xC0 + c div 64), word_of_nat (0x80 + c mod 64)]
      else if c < 0x10000
      then [word_of_nat (0xE0 + c div 4096), word_of_nat (0x80 + c div 64 mod 64), word_of_nat (0x80 + c mod 64)]
      else [word_of_nat (0xF0 + c div 262144), word_of_nat (0x80 + c div 4096 mod 64),
            word_of_nat (0x80 + c div 64 mod 64), word_of_nat (0x80 + c mod 64)])"

section \<open>Bytes\<close>

lemma byte_less: "unat (b :: u8) < 256"
  using unsigned_less [of b, where 'a = nat] by simp

lemma high_bits:
  fixes b :: u8
  shows "b AND 0x80 = 0 \<longleftrightarrow> unat b < 128" "b AND 0xE0 = 0xC0 \<longleftrightarrow> unat b div 32 = 6"
    "b AND 0xF0 = 0xE0 \<longleftrightarrow> unat b div 16 = 14" "b AND 0xF8 = 0xF0 \<longleftrightarrow> unat b div 8 = 30"
    "b AND 0xC0 = 0x80 \<longleftrightarrow> unat b div 64 = 2"
proof -
  have m: "(0x80 :: u8) = NOT (mask 7)" "(0xE0 :: u8) = NOT (mask 5)" "(0xF0 :: u8) = NOT (mask 4)"
      "(0xF8 :: u8) = NOT (mask 3)" "(0xC0 :: u8) = NOT (mask 6)"
    by (simp_all add: mask_eq_exp_minus_1)
  have eq: "b AND NOT (mask n) = c \<longleftrightarrow> 2 ^ n * (unat b div 2 ^ n) = unat c" for n and c :: u8
    by (simp only: word_unat_eq_iff unat_and_not_mask)
  show "b AND 0xE0 = 0xC0 \<longleftrightarrow> unat b div 32 = 6" unfolding m(2) eq by simp
  show "b AND 0xF0 = 0xE0 \<longleftrightarrow> unat b div 16 = 14" unfolding m(3) eq by simp
  show "b AND 0xF8 = 0xF0 \<longleftrightarrow> unat b div 8 = 30" unfolding m(4) eq by simp
  show "b AND 0xC0 = 0x80 \<longleftrightarrow> unat b div 64 = 2" unfolding m(5) eq by simp
  show "b AND 0x80 = 0 \<longleftrightarrow> unat b < 128" unfolding m(1) eq by (simp add: div_eq_0_iff)
qed

lemma low_bits:
  fixes b :: u8
  shows "unat (b AND 0x1F) = unat b mod 32" "unat (b AND 0x0F) = unat b mod 16" "unat (b AND 0x07) = unat b mod 8"
    "unat (b AND 0x3F) = unat b mod 64"
proof -
  have m: "(0x1F :: u8) = mask 5" "(0x0F :: u8) = mask 4" "(0x07 :: u8) = mask 3" "(0x3F :: u8) = mask 6"
    by (simp_all add: mask_eq_exp_minus_1)
  show "unat (b AND 0x1F) = unat b mod 32" "unat (b AND 0x0F) = unat b mod 16" "unat (b AND 0x07) = unat b mod 8"
    "unat (b AND 0x3F) = unat b mod 64"
    unfolding m unat_and_mask by simp_all
qed

lemma unat_widen: "unat (ucast (b :: u8) :: u32) = unat b"
  using byte_less [of b] by (simp add: unsigned_ucast_eq take_bit_nat_eq_self)

lemma utf8_lead_eq:
  "utf8_lead b =
     (if unat b < 128 then Some (word_of_nat (unat b), 0) else if unat b div 32 = 6 then Some (word_of_nat (unat b mod 32), 1)
      else if unat b div 16 = 14 then Some (word_of_nat (unat b mod 16), 2)
      else if unat b div 8 = 30 then Some (word_of_nat (unat b mod 8), 3) else None)"
proof -
  have u: "(ucast x :: u32) = word_of_nat (unat x)" for x :: u8 by simp
  show ?thesis unfolding utf8_lead_def high_bits u low_bits ..
qed

definition cont :: "u8 \<Rightarrow> bool" where
  "cont b \<longleftrightarrow> unat b div 64 = 2"

definition extra_value :: "nat \<Rightarrow> u8 list \<Rightarrow> nat" where
  "extra_value c bs = foldl (\<lambda>v b. v * 64 + unat b mod 64) c bs"

lemma extra_value_simps [simp]:
  "extra_value c [] = c" "extra_value c (b # bs) = extra_value (c * 64 + unat b mod 64) bs"
  by (simp_all add: extra_value_def)

lemma utf8_extra_eq:
  "(unat c + 1) * 64 ^ n \<le> 2 ^ 32 \<Longrightarrow>
    utf8_extra Data p n c =
      (if list_all cont (take n (drop p Data))
       then (if n \<le> length (drop p Data) then Some (Some (word_of_nat (extra_value (unat c) (take n (drop p Data))))) else None)
       else Some None)"
proof (induction n arbitrary: p c)
  case (Suc n)
  show ?case
  proof (cases "p < length Data")
    case True
    let ?b = "Data ! p" and ?c = "push_bit 6 c OR ucast (Data ! p AND 0x3F) :: u32"
    have "(ucast (?b AND 0x3F) :: u32) = ucast ?b AND mask 6"
      unfolding word_unat_eq_iff unat_widen low_bits unat_and_mask by simp
    moreover have "(unat c + 1) * 64 ^ 1 \<le> (unat c + 1) * 64 ^ Suc n" by (intro mult_left_mono power_increasing) simp_all
    then have "unat c < 2 ^ 26" using Suc.prems by simp
    ultimately have c: "unat ?c = unat c * 64 + unat ?b mod 64"
      using unat_push_or_mask [of c 26 6 "ucast ?b"] by (simp add: unat_widen)
    have "(unat ?c + 1) * 64 ^ n \<le> (unat c + 1) * 64 * 64 ^ n" unfolding c by (intro mult_right_mono) simp_all
    also have "\<dots> = (unat c + 1) * 64 ^ Suc n" by (simp only: power_Suc mult.assoc)
    also note Suc.prems
    finally have "(unat ?c + 1) * 64 ^ n \<le> 2 ^ 32" .
    note IH = Suc.IH [OF this, of "Suc p"]
    have d: "drop p Data = ?b # drop (Suc p) Data" using True by (simp add: Cons_nth_drop_Suc)
    show ?thesis using True IH unfolding d
      by (simp add: at_def high_bits cont_def c)
  next
    case False
    then show ?thesis by (simp add: at_def)
  qed
qed simp

section \<open>One code point\<close>

text \<open>The step of the UTF-8 loop on the rest of the buffer; \<^term>\<open>None\<close> when it reads beyond it.\<close>

definition utf8_next :: "u8 list \<Rightarrow> (nat \<times> nat) option checked" where
  "utf8_next xs =
     (case utf8_lead (hd xs) of
        None \<Rightarrow> Some None
      | Some (l, n) \<Rightarrow>
          let c = extra_value (unat l) (take n (tl xs)) in
          if length xs < n \<or> \<not> list_all cont (take n (tl xs)) then Some None
          else if length (tl xs) < n then None
          else if utf8_rejected (word_of_nat c) n then Some None
          else Some (Some (c, n)))"

lemma unat_small_byte: "n < 256 \<Longrightarrow> unat (word_of_nat n :: u8) = n"
  by (simp add: unat_of_nat)

lemma unat_small_point: "n < 2 ^ 32 \<Longrightarrow> unat (word_of_nat n :: u32) = n"
  by (simp add: unat_of_nat)

lemma rejected_iff:
  assumes "c < 2 ^ 32"
  shows "utf8_rejected (word_of_nat c) n \<longleftrightarrow>
    c < 0x80 \<and> 0 < n \<or> c < 0x800 \<and> 1 < n \<or> c < 0x10000 \<and> 2 < n \<or> 0xD800 \<le> c \<and> c \<le> 0xDFFF \<or> 0x10FFFF < c"
  unfolding utf8_rejected_def word_less_nat_alt word_le_nat_alt using unat_small_point [OF assms] by simp

lemma byte_of: "unat b = n \<Longrightarrow> b = word_of_nat n" for b :: u8
  by auto

lemma lead_cases:
  assumes "utf8_lead b = Some (l, n)"
  obtains "n = 0" "unat b < 128" "unat l = unat b" | "n = 1" "unat b div 32 = 6" "unat l = unat b mod 32"
    | "n = 2" "unat b div 16 = 14" "unat l = unat b mod 16" | "n = 3" "unat b div 8 = 30" "unat l = unat b mod 8"
  using assms that byte_less [of b] unfolding utf8_lead_eq
  by (auto simp: unat_of_nat unat_widen split: if_splits)

lemma split_div: "q < m \<Longrightarrow> (k * m + q) div m = k" "q < m \<Longrightarrow> (k * m + q) mod m = q" for k q m :: nat
  by simp_all

lemma split64: "q < 64 \<Longrightarrow> (k * 64 + q) div 64 = k" "q < 64 \<Longrightarrow> (k * 64 + q) mod 64 = q" for k q :: nat
  by simp_all

lemma byte_parts:
  assumes "unat (b :: u8) div m = k" "0 < m"
  shows "unat b = k * m + unat b mod m" "unat b mod m < m"
  using assms div_mult_mod_eq [of "unat b" m] by simp_all

lemma utf8_next_sound:
  assumes "utf8_next xs = Some (Some (c, n))" "xs \<noteq> []" "hd xs \<noteq> 0"
  shows "scalar c \<and> prefix (utf8 c) xs \<and> length (utf8 c) = Suc n"
proof -
  obtain b ys where xs: "xs = b # ys" using assms(2) by (cases xs) auto
  obtain l where l: "utf8_lead b = Some (l, n)" and c: "c = extra_value (unat l) (take n ys)"
    and bs: "list_all cont (take n ys)" "n \<le> length ys" and r: "\<not> utf8_rejected (word_of_nat c) n"
    using assms(1) unfolding xs utf8_next_def by (auto simp: Let_def split: option.splits if_splits)
  have "unat b \<noteq> 0" using assms(3) xs by (simp add: unat_eq_zero)
  from l show ?thesis
  proof (cases rule: lead_cases)
    case 1
    then have "c = unat b" using c by simp
    then show ?thesis using 1 r \<open>unat b \<noteq> 0\<close> by (simp add: rejected_iff xs utf8_def scalar_def)
  next
    case 2
    then obtain x zs where ys: "ys = x # zs" using bs(2) by (cases ys) auto
    have x: "unat x div 64 = 2" using bs(1) 2 by (simp add: ys cont_def)
    define p q where "p = unat b mod 32" and "q = unat x mod 64"
    have b: "unat b = 192 + p" "p < 32" and x: "unat x = 128 + q" "q < 64"
      using byte_parts [OF 2(2)] byte_parts [OF x] by (simp_all add: p_def q_def)
    have c: "c = p * 64 + q" using c 2 by (simp add: ys p_def q_def)
    have cd: "c div 64 = p" "c mod 64 = q" unfolding c using x(2) by simp_all
    have "c < 0x800" unfolding c using b(2) x(2) by simp
    moreover from this have "\<not> c < 0x80" using r 2 by (simp add: rejected_iff)
    moreover have "b = word_of_nat (0xC0 + c div 64)" "x = word_of_nat (0x80 + c mod 64)"
      unfolding cd using b x by (auto intro: byte_of simp del: of_nat_add)
    ultimately show ?thesis using 2 by (simp add: utf8_def scalar_def xs ys)
  next
    case 3
    then obtain x y zs where ys: "ys = x # y # zs" using bs(2) by (cases ys; cases "tl ys") auto
    have x: "unat x div 64 = 2" and y: "unat y div 64 = 2" using bs(1) 3 by (simp_all add: ys cont_def numeral_2_eq_2)
    define p q t where "p = unat b mod 16" and "q = unat x mod 64" and "t = unat y mod 64"
    have b: "unat b = 224 + p" "p < 16" and x: "unat x = 128 + q" "q < 64" and y: "unat y = 128 + t" "t < 64"
      using byte_parts [OF 3(2)] byte_parts [OF x] byte_parts [OF y] by (simp_all add: p_def q_def t_def)
    have c: "c = (p * 64 + q) * 64 + t" using c 3 by (simp add: ys p_def q_def t_def numeral_2_eq_2)
    have d: "c div 64 = p * 64 + q" "c mod 64 = t" unfolding c using split64 [OF y(2)] by blast+
    then have cd: "c div 4096 = p" "c div 64 mod 64 = q" "c mod 64 = t"
      using div_mult2_eq [of c 64 64] x(2) by simp_all
    have "c < 0x10000" unfolding c using b(2) x(2) y(2) by simp
    moreover from this have "\<not> c < 0x800" "\<not> (0xD800 \<le> c \<and> c \<le> 0xDFFF)" using r 3 by (simp_all add: rejected_iff)
    moreover have "b = word_of_nat (0xE0 + c div 4096)" "x = word_of_nat (0x80 + c div 64 mod 64)" "y = word_of_nat (0x80 + c mod 64)"
      unfolding cd using b x y by (auto intro: byte_of simp del: of_nat_add)
    ultimately show ?thesis using 3 by (simp add: utf8_def scalar_def xs ys)
  next
    case 4
    then obtain x y z zs where ys: "ys = x # y # z # zs" using bs(2) by (cases ys; cases "tl ys"; cases "tl (tl ys)") auto
    have x: "unat x div 64 = 2" and y: "unat y div 64 = 2" and z: "unat z div 64 = 2"
      using bs(1) 4 by (simp_all add: ys cont_def numeral_3_eq_3)
    define p q t u where "p = unat b mod 8" and "q = unat x mod 64" and "t = unat y mod 64" and "u = unat z mod 64"
    have b: "unat b = 240 + p" "p < 8" and x: "unat x = 128 + q" "q < 64" and y: "unat y = 128 + t" "t < 64" and z: "unat z = 128 + u" "u < 64"
      using byte_parts [OF 4(2)] byte_parts [OF x] byte_parts [OF y] byte_parts [OF z] by (simp_all add: p_def q_def t_def u_def)
    have c: "c = ((p * 64 + q) * 64 + t) * 64 + u" using c 4 by (simp add: ys p_def q_def t_def u_def numeral_3_eq_3)
    have d: "c div 64 = (p * 64 + q) * 64 + t" "c mod 64 = u" unfolding c using split64 [OF z(2)] by blast+
    have d2: "c div 4096 = p * 64 + q" using div_mult2_eq [of c 64 64] split64 [OF y(2), of "p * 64 + q"] unfolding d by simp
    have d3: "c div 262144 = p" using div_mult2_eq [of c 4096 64] x(2) unfolding d2 by simp
    have "c div 4096 mod 64 = q" unfolding d2 by (rule split64(2) [OF x(2)])
    moreover have "c div 64 mod 64 = t" unfolding d by (rule split64(2) [OF y(2)])
    ultimately have cd: "c div 262144 = p" "c div 4096 mod 64 = q" "c div 64 mod 64 = t" "c mod 64 = u"
      using d(2) d3 by simp_all
    have "c < 0x200000" unfolding c using b(2) x(2) y(2) z(2) by simp
    then have "\<not> c < 0x10000" "c \<le> 0x10FFFF" using r 4 by (simp_all add: rejected_iff)
    moreover have "b = word_of_nat (0xF0 + c div 262144)" "x = word_of_nat (0x80 + c div 4096 mod 64)"
        "y = word_of_nat (0x80 + c div 64 mod 64)" "z = word_of_nat (0x80 + c mod 64)"
      unfolding cd using b x y z by (auto intro: byte_of simp del: of_nat_add)
    ultimately show ?thesis using 4 by (simp add: utf8_def scalar_def xs ys)
  qed
qed

lemma lead_of:
  "p < 32 \<Longrightarrow> utf8_lead (word_of_nat (0xC0 + p)) = Some (word_of_nat p, 1)"
  "p < 16 \<Longrightarrow> utf8_lead (word_of_nat (0xE0 + p)) = Some (word_of_nat p, 2)"
  "p < 8 \<Longrightarrow> utf8_lead (word_of_nat (0xF0 + p)) = Some (word_of_nat p, 3)"
proof -
  have "(192 + p) div 32 = 6 \<and> (192 + p) mod 32 = p" if "p < 32"
    using split_div [OF that, of 6] by simp
  then show "p < 32 \<Longrightarrow> utf8_lead (word_of_nat (0xC0 + p)) = Some (word_of_nat p, 1)"
    using unat_small_byte [of "0xC0 + p"] unfolding utf8_lead_eq by simp
  have "(224 + p) div 32 = 7 \<and> (224 + p) div 16 = 14 \<and> (224 + p) mod 16 = p" if "p < 16"
    using split_div [of p 32 7] split_div [OF that, of 14] that by simp
  then show "p < 16 \<Longrightarrow> utf8_lead (word_of_nat (0xE0 + p)) = Some (word_of_nat p, 2)"
    using unat_small_byte [of "0xE0 + p"] unfolding utf8_lead_eq by simp
  have "(240 + p) div 32 = 7 \<and> (240 + p) div 16 = 15 \<and> (240 + p) div 8 = 30 \<and> (240 + p) mod 8 = p" if "p < 8"
    using split_div [of "16 + p" 32 7] split_div [of p 16 15] split_div [OF that, of 30] that by simp
  then show "p < 8 \<Longrightarrow> utf8_lead (word_of_nat (0xF0 + p)) = Some (word_of_nat p, 3)"
    using unat_small_byte [of "0xF0 + p"] unfolding utf8_lead_eq by simp
qed

lemma utf8_next_complete:
  assumes "scalar c" "xs = utf8 c @ ys"
  shows "utf8_next xs = Some (Some (c, length (utf8 c) - 1)) \<and> hd xs \<noteq> 0"
proof -
  have small: "unat (word_of_nat n :: u8) = n" if "n < 256" for n using unat_small_byte [OF that] .
  have point: "unat (word_of_nat n :: u32) = n" if "n < 256" for n using unat_small_point [of n] that by simp
  have nz: "word_of_nat n \<noteq> (0 :: u8)" if "n < 256" "0 < n" for n using small [OF that(1)] that(2) by auto
  have c: "0 < c" "c \<le> 0x10FFFF" "\<not> (0xD800 \<le> c \<and> c \<le> 0xDFFF)" using assms(1) by (auto simp: scalar_def)
  have m: "c mod 64 < 64" "c div 64 mod 64 < 64" "c div 4096 mod 64 < 64" by simp_all
  have tail: "cont (word_of_nat (0x80 + q))" "unat (word_of_nat (0x80 + q) :: u8) mod 64 = q" if "q < 64" for q
    using that small [of "0x80 + q"] split64 [of q 2] by (simp_all add: cont_def)
  consider "c < 0x80" | "0x80 \<le> c" "c < 0x800" | "0x800 \<le> c" "c < 0x10000" | "0x10000 \<le> c" by linarith
  then show ?thesis
  proof cases
    case 1
    then show ?thesis using c assms(2) small [of c] point [of c] nz [of c] rejected_iff [of c 0]
      by (simp add: utf8_def utf8_next_def utf8_lead_eq)
  next
    case 2
    let ?p = "c div 64"
    have p: "?p < 32" "unat (word_of_nat (0xC0 + ?p) :: u8) = 0xC0 + ?p" using 2 small [of "0xC0 + ?p"] by simp_all
    note lead = lead_of(1) [OF p(1)]
    have rej: "\<not> utf8_rejected (word_of_nat c) 1" using 2 c by (simp add: rejected_iff)
    have "extra_value ?p [word_of_nat (0x80 + c mod 64)] = c"
      using div_mult_mod_eq [of c 64] by (simp only: extra_value_simps tail(2) [OF m(1)])
    then show ?thesis using lead 2 c nz [of "0xC0 + ?p"] p tail(1) [OF m(1)] point [of ?p] rej assms(2)
      by (simp add: utf8_def utf8_next_def del: of_nat_add)
  next
    case 3
    let ?p = "c div 4096"
    have p: "?p < 16" "unat (word_of_nat (0xE0 + ?p) :: u8) = 0xE0 + ?p" using 3 small [of "0xE0 + ?p"] by simp_all
    note lead = lead_of(2) [OF p(1)]
    have rej: "\<not> utf8_rejected (word_of_nat c) 2" using 3 c by (simp add: rejected_iff)
    have "?p * 64 + c div 64 mod 64 = c div 64" using div_mult2_eq [of c 64 64] div_mult_mod_eq [of "c div 64" 64] by simp
    then have "extra_value ?p [word_of_nat (0x80 + c div 64 mod 64), word_of_nat (0x80 + c mod 64)] = c"
      using div_mult_mod_eq [of c 64] by (simp only: extra_value_simps tail(2) [OF m(1)] tail(2) [OF m(2)])
    then show ?thesis using lead 3 c nz [of "0xE0 + ?p"] p tail(1) [OF m(1)] tail(1) [OF m(2)] point [of ?p] rej assms(2)
      by (simp add: utf8_def utf8_next_def numeral_2_eq_2 del: of_nat_add)
  next
    case 4
    let ?p = "c div 262144"
    have p: "?p < 8" "unat (word_of_nat (0xF0 + ?p) :: u8) = 0xF0 + ?p" using c small [of "0xF0 + ?p"] by simp_all
    note lead = lead_of(3) [OF p(1)]
    have rej: "\<not> utf8_rejected (word_of_nat c) 3" using 4 c by (simp add: rejected_iff)
    have "c div 4096 * 64 + c div 64 mod 64 = c div 64" using div_mult2_eq [of c 64 64] div_mult_mod_eq [of "c div 64" 64] by simp
    moreover have "?p * 64 + c div 4096 mod 64 = c div 4096" using div_mult2_eq [of c 4096 64] div_mult_mod_eq [of "c div 4096" 64] by simp
    ultimately have "extra_value ?p [word_of_nat (0x80 + c div 4096 mod 64), word_of_nat (0x80 + c div 64 mod 64), word_of_nat (0x80 + c mod 64)] = c"
      using div_mult_mod_eq [of c 64] by (simp only: extra_value_simps tail(2) [OF m(1)] tail(2) [OF m(2)] tail(2) [OF m(3)])
    then show ?thesis using lead 4 c nz [of "0xF0 + ?p"] p tail(1) [OF m(1)] tail(1) [OF m(2)] tail(1) [OF m(3)] point [of ?p] rej assms(2)
      by (simp add: utf8_def utf8_next_def numeral_3_eq_3 del: of_nat_add)
  qed
qed

section \<open>The UTF-8 loop\<close>

abbreviation utf8s :: "nat list \<Rightarrow> u8 list" where
  "utf8s cs \<equiv> concat (map utf8 cs)"

fun utf8_accepted :: "CodePointProcessor \<Rightarrow> nat \<Rightarrow> nat \<Rightarrow> nat list \<Rightarrow> bool" where
  "utf8_accepted P Offset i [] \<longleftrightarrow> True"
| "utf8_accepted P Offset i (c # cs) \<longleftrightarrow> P Offset i (word_of_nat c) \<and> utf8_accepted P (Offset + length (utf8 c)) (i + 1) cs"

lemma loop_next:
  assumes "cur < length Data" "Data ! cur \<noteq> 0"
  shows "fromUTF8_loop SF Data P cur i =
    (case utf8_next (drop cur Data) of
       None \<Rightarrow> None
     | Some None \<Rightarrow> Some view_default
     | Some (Some (c, n)) \<Rightarrow>
         if \<not> P cur i (word_of_nat c) then Some view_default else fromUTF8_loop SF Data P (cur + 1 + n) (i + 1))"
proof (cases "utf8_lead (Data ! cur)")
  case None
  then show ?thesis using assms by (subst fromUTF8_loop.simps) (simp add: utf8_next_def hd_drop_conv_nth)
next
  case (Some ln)
  obtain l n where ln: "ln = (l, n)" by (cases ln)
  have "(unat l + 1) * 64 ^ n \<le> 2 ^ 32"
    using Some [unfolded ln] by (cases rule: lead_cases) (use byte_less [of "Data ! cur"] in \<open>simp_all add: le_trans\<close>)
  note extra = utf8_extra_eq [OF this, of Data "cur + 1"]
  have tl: "tl (drop cur Data) = drop (cur + 1) Data" by (simp add: tl_drop drop_Suc)
  show ?thesis unfolding utf8_next_def hd_drop_conv_nth [OF assms(1)] tl
    using assms Some extra ln by (subst fromUTF8_loop.simps) (auto simp: Let_def not_le not_less)
qed

lemma utf8_nonzero: "scalar c \<Longrightarrow> 0 \<notin> set (utf8 c)" "utf8 c \<noteq> []"
proof -
  have nz: "word_of_nat n \<noteq> (0 :: u8)" if "n < 256" "0 < n" for n using unat_small_byte [OF that(1)] that(2) by auto
  have m: "c mod 64 < 64" "c div 64 mod 64 < 64" "c div 4096 mod 64 < 64" by simp_all
  assume "scalar c"
  then have c: "0 < c" "c < 0x110000" by (auto simp: scalar_def)
  have "\<forall>b \<in> set (utf8 c). \<exists>n. b = word_of_nat n \<and> n < 256 \<and> 0 < n"
    unfolding utf8_def using c m by (auto simp: less_mult_imp_div_less simp del: of_nat_add intro!: exI)
  then show "0 \<notin> set (utf8 c)" using nz by metis
qed (simp add: utf8_def)

lemma utf8s_nonzero: "list_all scalar cs \<Longrightarrow> 0 \<notin> set (utf8s cs)"
  using utf8_nonzero(1) by (induction cs) auto

lemma utf8s_length: "length cs \<le> length (utf8s cs)"
proof (induction cs)
  case (Cons c cs)
  then show ?case using utf8_nonzero(2) [of c] by (cases "utf8 c") auto
qed simp

lemma view_new_utf8:
  assumes "list_all scalar cs" "cs \<noteq> []"
  shows "view_new SF (Some (utf8s cs @ [0])) UTF8 (length cs) =
    Some \<lparr>View_Data = Some (utf8s cs @ [0]), TheEncoding = UTF8, CodePointCount = length cs\<rparr>"
  using assms utf8s_nonzero [OF assms(1)] utf8s_length [of cs] by (simp add: view_new_def ends_with_def suffix_def)

text \<open>Where the loop reads beyond the buffer: the last byte of a sequence is missing.\<close>

definition cut_sequence :: "u8 list \<Rightarrow> bool" where
  "cut_sequence t \<longleftrightarrow> t \<noteq> [] \<and> (\<exists>l. utf8_lead (hd t) = Some (l, length t)) \<and> list_all cont (tl t)"

lemma next_cut: "t \<noteq> [] \<Longrightarrow> utf8_next t = None \<longleftrightarrow> cut_sequence t"
  by (cases t) (auto simp: utf8_next_def cut_sequence_def Let_def le_Suc_eq not_less split: option.splits)

lemma next_utf8s: "list_all scalar (c # cs) \<Longrightarrow> utf8_next (utf8s (c # cs) @ r) = Some (Some (c, length (utf8 c) - 1))"
  using utf8_next_complete [of c "utf8s (c # cs) @ r" "utf8s cs @ r"] by simp

lemma utf8s_head: "list_all scalar cs \<Longrightarrow> utf8s cs @ r = 0 # ys \<Longrightarrow> cs = []"
proof (cases cs)
  case (Cons c ds)
  assume *: "list_all scalar cs" "utf8s cs @ r = 0 # ys"
  have "0 \<in> set (utf8 c)" using * utf8_nonzero(2) [of c] Cons by (cases "utf8 c") auto
  then show ?thesis using * Cons utf8_nonzero(1) [of c] by simp
qed simp

text \<open>
  What the loop does after it has decoded the code points \<open>ps\<close>, with the bytes \<open>ys\<close> left: the views it
  returns and when it reads beyond the buffer. A parse of \<open>ys\<close> is a sequence of accepted code points
  and what follows it.
\<close>

definition utf8_parse :: "CodePointProcessor \<Rightarrow> nat list \<Rightarrow> nat list \<Rightarrow> u8 list \<Rightarrow> u8 list \<Rightarrow> bool" where
  "utf8_parse P ps cs r ys \<longleftrightarrow>
     list_all scalar cs \<and> ys = utf8s cs @ r \<and> utf8_accepted P (length (utf8s ps)) (length ps) cs"

definition utf8_view :: "nat list \<Rightarrow> UnicodeCStringView" where
  "utf8_view cs = \<lparr>View_Data = Some (utf8s cs @ [0]), TheEncoding = UTF8, CodePointCount = length cs\<rparr>"

definition utf8_result :: "CodePointProcessor \<Rightarrow> nat list \<Rightarrow> u8 list \<Rightarrow> UnicodeCStringView checked \<Rightarrow> bool" where
  "utf8_result P ps ys r \<longleftrightarrow>
     (\<forall>V. r = Some V \<and> view_isValid V \<longleftrightarrow>
        (\<exists>cs rest. utf8_parse P ps cs (0 # rest) ys \<and> ps @ cs \<noteq> [] \<and> V = utf8_view (ps @ cs)))
     \<and> (r = None \<longleftrightarrow> (\<exists>cs t. utf8_parse P ps cs t ys \<and> cut_sequence t))"

lemma default_invalid [simp]: "\<not> view_isValid view_default"
  by (simp add: view_isValid_def view_default_def)

lemma utf8_view_valid [simp]: "view_isValid (utf8_view cs)"
  by (simp add: utf8_view_def view_isValid_def)

lemma parse_Nil [simp]: "utf8_parse P ps [] r ys \<longleftrightarrow> ys = r"
  by (auto simp: utf8_parse_def)

lemma parse_Cons:
  "utf8_parse P ps (c # cs) r ys \<longleftrightarrow>
    scalar c \<and> P (length (utf8s ps)) (length ps) (word_of_nat c) \<and> (\<exists>us. ys = utf8 c @ us \<and> utf8_parse P (ps @ [c]) cs r us)"
  by (auto simp: utf8_parse_def)

lemma parse_next: "utf8_parse P ps (c # cs) r ys \<Longrightarrow> utf8_next ys = Some (Some (c, length (utf8 c) - 1))"
  using next_utf8s [of c cs r] by (auto simp: utf8_parse_def)

lemma result_nul:
  "utf8_result P ps (0 # zs) (if ps = [] then Some view_default else Some (utf8_view ps))"
proof -
  have parse: "utf8_parse P ps cs r (0 # zs) \<longleftrightarrow> cs = [] \<and> r = 0 # zs" for cs r
    using utf8s_head [of cs r zs] by (auto simp: utf8_parse_def)
  have "\<not> cut_sequence (0 # zs)" by (auto simp: cut_sequence_def utf8_lead_eq)
  then show ?thesis by (auto simp: utf8_result_def parse)
qed

lemma result_stop:
  assumes "ys \<noteq> [] \<longrightarrow> hd ys \<noteq> 0" "\<And>cs r. utf8_parse P ps cs r ys \<Longrightarrow> cs = []"
  shows "utf8_result P ps ys (if cut_sequence ys then None else Some view_default)"
proof -
  have parse: "utf8_parse P ps cs r ys \<longleftrightarrow> cs = [] \<and> r = ys" for cs r using assms(2) [of cs r] by (cases cs) auto
  show ?thesis using assms(1) by (auto simp: utf8_result_def parse)
qed

lemma result_step:
  assumes c: "scalar c" "P (length (utf8s ps)) (length ps) (word_of_nat c)" and ys: "ys = utf8 c @ us"
    and rec: "utf8_result P (ps @ [c]) us r"
  shows "utf8_result P ps ys r"
proof -
  have "next": "utf8_next ys = Some (Some (c, length (utf8 c) - 1))" "ys \<noteq> []" "hd ys \<noteq> 0"
    using utf8_next_complete [OF c(1) ys] utf8_nonzero(2) [of c] ys by auto
  then have no_cut: "\<not> cut_sequence ys" using next_cut [of ys] by simp
  have parse: "utf8_parse P ps (d # ds) r ys \<longleftrightarrow> d = c \<and> utf8_parse P (ps @ [c]) ds r us" for d ds r
    using parse_next [of P ps d ds r ys] "next"(1) c ys by (auto simp: parse_Cons)
  have ex: "(\<exists>cs. utf8_parse P ps cs r ys \<and> Q cs) \<longleftrightarrow> (\<exists>ds. utf8_parse P (ps @ [c]) ds r us \<and> Q (c # ds))"
    if "r \<noteq> ys" for r Q
  proof
    assume "\<exists>cs. utf8_parse P ps cs r ys \<and> Q cs"
    then obtain cs where "utf8_parse P ps cs r ys" "Q cs" by blast
    then show "\<exists>ds. utf8_parse P (ps @ [c]) ds r us \<and> Q (c # ds)" using that parse by (cases cs) auto
  qed (use parse in blast)
  have "(\<exists>cs rest. utf8_parse P ps cs (0 # rest) ys \<and> ps @ cs \<noteq> [] \<and> V = utf8_view (ps @ cs)) \<longleftrightarrow>
      (\<exists>rest ds. utf8_parse P (ps @ [c]) ds (0 # rest) us \<and> V = utf8_view (ps @ c # ds))" for V
    using ex [of "0 # _" "\<lambda>cs. ps @ cs \<noteq> [] \<and> V = utf8_view (ps @ cs)"] "next"(3) by fastforce
  moreover have "(\<exists>cs t. utf8_parse P ps cs t ys \<and> cut_sequence t) \<longleftrightarrow> (\<exists>t ds. utf8_parse P (ps @ [c]) ds t us \<and> cut_sequence t)"
    using ex [of _ "\<lambda>_. True"] no_cut by (metis (no_types, lifting))
  ultimately show ?thesis using rec unfolding utf8_result_def by (simp only: append_assoc append_Cons append_Nil) blast
qed

lemma fromUTF8_loop_result:
  assumes "list_all scalar ps" "Data = utf8s ps @ ys"
  shows "utf8_result P ps ys (fromUTF8_loop SF Data P (length (utf8s ps)) (length ps))"
  using assms
proof (induction ys arbitrary: ps rule: measure_induct_rule [of length])
  case (less ys)
  let ?cur = "length (utf8s ps)"
  consider "ys = []" | zs where "ys = 0 # zs" | b zs where "ys = b # zs" "b \<noteq> 0" by (cases ys) auto
  then show ?case
  proof cases
    case 1
    then have "utf8_result P ps ys (if cut_sequence ys then None else Some view_default)"
      using utf8_nonzero(2) by (intro result_stop) (auto simp: utf8_parse_def)
    then show ?thesis using less.prems 1 by (subst fromUTF8_loop.simps) (simp add: cut_sequence_def)
  next
    case 2
    have "fromUTF8_loop SF Data P ?cur (length ps) = (if ps = [] then Some view_default else Some (utf8_view ps))"
      using less.prems 2 utf8_nonzero(2) view_new_utf8 [OF less.prems(1)]
      by (subst fromUTF8_loop.simps) (auto simp: nth_append utf8_view_def)
    then show ?thesis using result_nul [of P ps zs] 2 by simp
  next
    case 3
    have at: "?cur < length Data" "Data ! ?cur \<noteq> 0" "drop ?cur Data = ys" and ne: "ys \<noteq> []" "hd ys \<noteq> 0"
      using less.prems 3 by (simp_all add: nth_append)
    note run = loop_next [OF at(1,2), of SF P "length ps", unfolded at(3)] and cut = next_cut [OF ne(1)]
    show ?thesis
    proof (cases "\<exists>c n. utf8_next ys = Some (Some (c, n)) \<and> P ?cur (length ps) (word_of_nat c)")
      case False
      have "cs = []" if "utf8_parse P ps cs r ys" for cs r
        using that False parse_next [of P ps "hd cs" "tl cs" r ys] by (cases cs) (auto simp: parse_Cons)
      then have "utf8_result P ps ys (if cut_sequence ys then None else Some view_default)" using ne by (intro result_stop) auto
      moreover have "fromUTF8_loop SF Data P ?cur (length ps) = (if cut_sequence ys then None else Some view_default)"
        unfolding run using False cut by (auto split: option.splits)
      ultimately show ?thesis by simp
    next
      case True
      then obtain c n where c: "utf8_next ys = Some (Some (c, n))" "P ?cur (length ps) (word_of_nat c)" by blast
      have s: "scalar c" "prefix (utf8 c) ys" "length (utf8 c) = Suc n" using utf8_next_sound [OF c(1) ne] by simp_all
      obtain us where us: "ys = utf8 c @ us" using s(2) by (auto simp: prefix_def)
      have "utf8_result P (ps @ [c]) us (fromUTF8_loop SF Data P (length (utf8s (ps @ [c]))) (length (ps @ [c])))"
        by (rule less.IH) (use less.prems s(1) us utf8_nonzero(2) [of c] in simp_all)
      from result_step [where P = P and ps = ps, OF s(1) c(2) us this] show ?thesis unfolding run using c s(3) by simp
    qed
  qed
qed

text \<open>
  \<^bold>\<open>C23\<close>. The UTF-8 decoder returns a valid view exactly for a buffer that starts with the UTF-8
  encoding of a non-empty sequence of Unicode scalar values other than zero, all of them accepted by
  the callback, followed by a NUL byte; the view holds these bytes with the NUL and the number of code
  points.
\<close>

theorem utf8_decodes_exactly:
  "fromUTF8 SF Data P = Some V \<and> view_isValid V \<longleftrightarrow>
    (\<exists>cs rest. cs \<noteq> [] \<and> list_all scalar cs \<and> Data = utf8s cs @ [0] @ rest \<and> utf8_accepted P 0 0 cs
      \<and> V = \<lparr>View_Data = Some (utf8s cs @ [0]), TheEncoding = UTF8, CodePointCount = length cs\<rparr>)"
  using fromUTF8_loop_result [of "[]" Data Data P SF]
  by (auto simp: fromUTF8_def utf8_result_def utf8_parse_def utf8_view_def)

text \<open>
  \<^bold>\<open>Fact\<close>. The UTF-8 decoder reads beyond the end of its buffer exactly when, after accepted code points,
  the buffer ends with a sequence that lacks its last byte only: the check of the length lets it pass.
\<close>

theorem utf8_reads_beyond_buffer:
  "fromUTF8 SF Data P = None \<longleftrightarrow>
    (\<exists>cs t. list_all scalar cs \<and> Data = utf8s cs @ t \<and> utf8_accepted P 0 0 cs
      \<and> t \<noteq> [] \<and> (\<exists>l. utf8_lead (hd t) = Some (l, length t)) \<and> list_all cont (tl t))"
  using fromUTF8_loop_result [of "[]" Data Data P SF]
  by (auto simp: fromUTF8_def utf8_result_def utf8_parse_def cut_sequence_def)

section \<open>UTF-16\<close>

text \<open>What LLVM promises of \<^verbatim>\<open>StringRef::find\<close>: an occurrence that is not before the start of the search.\<close>

locale string_find =
  fixes SF :: StringRef_find
  assumes found: "SF S p i = Some j \<Longrightarrow> i \<le> j \<and> j + length p \<le> length S \<and> take (length p) (drop j S) = p"
    and not_found: "SF S p i = None \<Longrightarrow> i \<le> j \<Longrightarrow> j + length p \<le> length S \<Longrightarrow> take (length p) (drop j S) \<noteq> p"

definition list_find :: StringRef_find where
  "list_find S p i = List.find (\<lambda>j. take (length p) (drop j S) = p \<and> j + length p \<le> length S) [i..<Suc (length S)]"

interpretation list_find: string_find list_find
proof
  fix S p :: "u8 list" and i j
  show "i \<le> j \<and> j + length p \<le> length S \<and> take (length p) (drop j S) = p" if f: "list_find S p i = Some j"
  proof -
    obtain k where "k < length [i..<Suc (length S)]" "j = [i..<Suc (length S)] ! k"
        "take (length p) (drop j S) = p \<and> j + length p \<le> length S"
      using f unfolding list_find_def find_Some_iff by blast
    then show ?thesis using nth_upt [of i k "Suc (length S)"] by (auto simp del: upt_Suc)
  qed
  show "take (length p) (drop j S) \<noteq> p" if "list_find S p i = None" "i \<le> j" "j + length p \<le> length S"
    using that by (auto simp: list_find_def find_None_iff simp del: upt_Suc)
qed

context string_find
begin

lemma check_aligned_null_ok:
  assumes "2 \<le> length S" "\<And>i. even i \<Longrightarrow> take 2 (drop i S) \<noteq> [0, 0]"
  shows "(\<forall>I. Index = Some I \<longrightarrow> odd I) \<Longrightarrow> check_aligned_null SF S Index = Some ()"
proof (induction "case Index of None \<Rightarrow> 0 | Some I \<Rightarrow> Suc (length S - I)" arbitrary: Index rule: less_induct)
  case less
  show ?case
  proof (cases Index)
    case None
    then show ?thesis using assms(1) by (subst check_aligned_null.simps) simp
  next
    case (Some I)
    have "check_aligned_null SF S (SF S [0, 0] (I + 1)) = Some ()"
    proof (rule less.hyps)
      show "(case SF S [0, 0] (I + 1) of None \<Rightarrow> 0 | Some I \<Rightarrow> Suc (length S - I)) < (case Index of None \<Rightarrow> 0 | Some I \<Rightarrow> Suc (length S - I))"
        using found [of S "[0, 0]" "I + 1"] Some by (auto split: option.splits)
      show "\<forall>J. SF S [0, 0] (I + 1) = Some J \<longrightarrow> odd J"
        using found [of S "[0, 0]" "I + 1"] assms(2) by (fastforce simp: numeral_2_eq_2)
    qed
    then show ?thesis using Some less.prems by (subst check_aligned_null.simps) (simp add: odd_iff_mod_2_eq_one)
  qed
qed

end

section \<open>The encoding\<close>

definition bmp :: "nat \<Rightarrow> bool" where
  "bmp u \<longleftrightarrow> scalar u \<and> u < 0x10000"

definition utf16_unit :: "bool \<Rightarrow> nat \<Rightarrow> u8 list" where
  "utf16_unit LE u =
     (if LE then [word_of_nat (u mod 256), word_of_nat (u div 256)] else [word_of_nat (u div 256), word_of_nat (u mod 256)])"

definition utf16 :: "bool \<Rightarrow> nat \<Rightarrow> u8 list" where
  "utf16 LE c =
     (if c < 0x10000 then utf16_unit LE c
      else utf16_unit LE (0xD800 + (c - 0x10000) div 1024) @ utf16_unit LE (0xDC00 + (c - 0x10000) mod 1024))"

abbreviation utf16s :: "bool \<Rightarrow> nat list \<Rightarrow> u8 list" where
  "utf16s LE cs \<equiv> concat (map (utf16 LE) cs)"

fun utf16_accepted :: "CodePointProcessor \<Rightarrow> nat \<Rightarrow> nat \<Rightarrow> nat list \<Rightarrow> bool" where
  "utf16_accepted P Offset i [] \<longleftrightarrow> True"
| "utf16_accepted P Offset i (c # cs) \<longleftrightarrow> P (Offset + 2) i (word_of_nat c) \<and> utf16_accepted P (Offset + 2) (i + 1) cs"

definition unit_of :: "bool \<Rightarrow> u8 \<Rightarrow> u8 \<Rightarrow> nat" where
  "unit_of LE a b = (if LE then unat a + 256 * unat b else unat b + 256 * unat a)"

lemma unat_code_unit: "unat (code_unit LE (ucast (a :: u8)) (ucast b)) = unit_of LE a b"
proof -
  have "unat (x OR push_bit 8 y) = unat x + 256 * unat y" if "unat x < 256" "unat y < 256" for x y :: u16
  proof -
    have "x = x AND mask 8" using that(1) and_mask_eq_self_iff [of x 8] by simp
    then show ?thesis using unat_push_or_mask [of y 8 8 x] that by (simp add: or.commute)
  qed
  moreover have "unat (ucast c :: u16) = unat c" for c :: u8
    using byte_less [of c] by (simp add: unsigned_ucast_eq take_bit_nat_eq_self)
  ultimately show ?thesis using byte_less [of a] byte_less [of b] by (auto simp: code_unit_def unit_of_def)
qed

lemma unit_of_less: "unit_of LE a b < 0x10000"
  using byte_less [of a] byte_less [of b] by (auto simp: unit_of_def)

lemma unit_bytes: "utf16_unit LE (unit_of LE a b) = [a, b]"
proof -
  have "(unat x + 256 * unat y) mod 256 = unat x" "(unat x + 256 * unat y) div 256 = unat y" for x y :: u8
    using byte_less [of x] by simp_all
  then show ?thesis by (simp add: utf16_unit_def unit_of_def)
qed

lemma bytes_unit: "u < 0x10000 \<Longrightarrow> \<exists>a b. utf16_unit LE u = [a, b] \<and> unit_of LE a b = u"
  using div_mult_mod_eq [of u 256] unat_small_byte [of "u mod 256"] unat_small_byte [of "u div 256"]
  by (auto simp: utf16_unit_def unit_of_def)

text \<open>The step of the loop: a unit of a surrogate pair ends it.\<close>

lemma fromUTF16_loop_eq:
  "fromUTF16_loop SF LE Data P cur i =
    (if cur + 1 < length Data
     then
       let u = unit_of LE (Data ! cur) (Data ! (cur + 1)) in
       if u = 0
       then (if cur = 0 then Some view_default
             else view_new SF (Some (take (cur + 2) Data)) (if LE then UTF16LE else UTF16BE) i)
       else if bmp u \<and> P (cur + 2) i (word_of_nat u) then fromUTF16_loop SF LE Data P (cur + 2) (i + 1)
       else Some view_default
     else Some view_default)"
proof (cases "cur + 1 < length Data")
  case True
  define U where "U = code_unit LE (ucast (Data ! cur)) (ucast (Data ! (cur + 1)))"
  define u where "u = unit_of LE (Data ! cur) (Data ! (cur + 1))"
  have u: "unat U = u" "u < 0x10000" unfolding U_def u_def by (rule unat_code_unit, rule unit_of_less)
  then have wide: "(ucast U :: u32) = word_of_nat u" by auto
  have point: "unat (word_of_nat u :: u32) = u" using u(2) unat_small_point [of u] by simp
  have eqs: "U = 0 \<longleftrightarrow> u = 0" "U < 0xD800 \<or> 0xDFFF < U \<longleftrightarrow> \<not> (0xD800 \<le> u \<and> u \<le> 0xDFFF)" "\<not> 0x10FFFF < (ucast U :: u32)"
    using u unfolding wide by (auto simp: unat_eq_zero [symmetric] word_less_nat_alt point)
  have "bmp u \<longleftrightarrow> \<not> (0xD800 \<le> u \<and> u \<le> 0xDFFF)" if "u \<noteq> 0" using that u(2) by (auto simp: bmp_def scalar_def)
  then show ?thesis using True eqs
    unfolding fromUTF16_loop.simps [of SF LE Data P cur i] Let_def U_def [symmetric] u_def [symmetric] wide by auto
next
  case False
  then show ?thesis by (subst fromUTF16_loop.simps) simp
qed

definition utf16_view :: "bool \<Rightarrow> nat list \<Rightarrow> UnicodeCStringView" where
  "utf16_view LE cs =
     \<lparr>View_Data = Some (utf16s LE cs @ [0, 0]), TheEncoding = (if LE then UTF16LE else UTF16BE), CodePointCount = length cs\<rparr>"

lemma bmp_unit: "bmp u \<Longrightarrow> \<exists>a b. utf16 LE u = [a, b] \<and> unit_of LE a b = u"
  using bytes_unit [of u LE] by (simp add: bmp_def utf16_def)

lemma length_utf16s: "list_all bmp us \<Longrightarrow> length (utf16s LE us) = 2 * length us"
proof (induction us)
  case (Cons u us)
  then show ?case using bmp_unit [of u LE] by auto
qed simp

lemma unit_of_zero: "unit_of LE a b = 0 \<longleftrightarrow> [a, b] = [0, 0]"
  by (auto simp: unit_of_def unat_eq_zero)

lemma no_aligned_null: "list_all bmp us \<Longrightarrow> even i \<Longrightarrow> take 2 (drop i (utf16s LE us)) \<noteq> [0, 0]"
proof (induction us arbitrary: i)
  case (Cons u us)
  obtain a b where ab: "utf16 LE u = [a, b]" "unit_of LE a b = u" using bmp_unit [of u LE] Cons.prems by auto
  have "u \<noteq> 0" using Cons.prems by (simp add: bmp_def scalar_def)
  then have "[a, b] \<noteq> [0, 0]" using ab unit_of_zero [of LE a b] by auto
  show ?case
  proof (cases "i = 0")
    case True
    then show ?thesis using \<open>[a, b] \<noteq> [0, 0]\<close> ab by simp
  next
    case False
    then obtain j where "i = Suc (Suc j)" using Cons.prems(2) by (cases i; cases "i - 1") auto
    then show ?thesis using Cons.IH [of j] Cons.prems ab by simp
  qed
qed simp

lemma view_new_utf16:
  assumes "string_find SF" "list_all bmp us" "us \<noteq> []"
  shows "view_new SF (Some (utf16s LE us @ [0, 0])) (if LE then UTF16LE else UTF16BE) (length us) = Some (utf16_view LE us)"
proof -
  have len: "length (utf16s LE us) = 2 * length us" "2 \<le> 2 * length us" using length_utf16s [OF assms(2)] assms(3) by (cases us; simp)+
  have "odd I" if "SF (utf16s LE us) [0, 0] 0 = Some I" for I
    using string_find.found [OF assms(1) that] no_aligned_null [OF assms(2), of I LE] by (auto simp: numeral_2_eq_2)
  then have "check_aligned_null SF (utf16s LE us) (SF (utf16s LE us) [0, 0] 0) = Some ()"
    using len no_aligned_null [OF assms(2)] by (intro string_find.check_aligned_null_ok [OF assms(1)]) auto
  then show ?thesis using assms(3) len by (cases LE) (simp_all add: view_new_def ends_with_def suffix_def utf16_view_def)
qed

definition utf16_parse :: "bool \<Rightarrow> CodePointProcessor \<Rightarrow> nat list \<Rightarrow> nat list \<Rightarrow> u8 list \<Rightarrow> u8 list \<Rightarrow> bool" where
  "utf16_parse LE P ps us rest ys \<longleftrightarrow>
     list_all bmp us \<and> ys = utf16s LE us @ 0 # 0 # rest \<and> utf16_accepted P (2 * length ps) (length ps) us"

definition utf16_result :: "bool \<Rightarrow> CodePointProcessor \<Rightarrow> nat list \<Rightarrow> u8 list \<Rightarrow> UnicodeCStringView checked \<Rightarrow> bool" where
  "utf16_result LE P ps ys r \<longleftrightarrow>
     r \<noteq> None \<and> (\<forall>V. r = Some V \<and> view_isValid V \<longleftrightarrow>
        (\<exists>us rest. utf16_parse LE P ps us rest ys \<and> ps @ us \<noteq> [] \<and> V = utf16_view LE (ps @ us)))"

lemma parse16_unit:
  "utf16_parse LE P ps us rest (a # b # zs) \<longleftrightarrow>
    us = [] \<and> [a, b] = [0, 0] \<and> zs = rest
    \<or> (\<exists>v. us = unit_of LE a b # v \<and> bmp (unit_of LE a b) \<and> P (2 * length ps + 2) (length ps) (word_of_nat (unit_of LE a b))
         \<and> utf16_parse LE P (ps @ [unit_of LE a b]) v rest zs)"
proof (cases us)
  case Nil
  then show ?thesis by (auto simp: utf16_parse_def)
next
  case (Cons u v)
  show ?thesis
  proof (cases "bmp u")
    case True
    obtain x y where xy: "utf16 LE u = [x, y]" "unit_of LE x y = u" using bmp_unit [OF True] by blast
    have "utf16 LE u = [a, b]" if "u = unit_of LE a b"
      using True unit_bytes [of LE a b] unfolding that by (simp add: bmp_def utf16_def)
    then have eq: "a = x \<and> b = y \<longleftrightarrow> u = unit_of LE a b" using xy(1) xy(2) [symmetric] by (intro iffI) simp_all
    have "utf16_parse LE P ps us rest (a # b # zs) \<longleftrightarrow> (a = x \<and> b = y) \<and> P (2 * length ps + 2) (length ps) (word_of_nat u)
        \<and> utf16_parse LE P (ps @ [u]) v rest zs"
      using Cons True xy(1) by (auto simp: utf16_parse_def)
    then show ?thesis unfolding eq using Cons True by simp blast
  next
    case False
    then have "\<not> utf16_parse LE P ps us rest (a # b # zs)" using Cons by (simp add: utf16_parse_def)
    then show ?thesis using Cons False by auto
  qed
qed

lemma result16_default:
  "(\<And>us rest. \<not> (utf16_parse LE P ps us rest ys \<and> ps @ us \<noteq> [])) \<Longrightarrow> utf16_result LE P ps ys (Some view_default)"
  by (auto simp: utf16_result_def)

lemma result16_view: "ps \<noteq> [] \<Longrightarrow> utf16_result LE P ps (0 # 0 # zs) (Some (utf16_view LE ps))"
  by (auto simp: utf16_result_def parse16_unit unit_of_def bmp_def scalar_def utf16_view_def view_isValid_def)

lemma result16_step:
  assumes "u = unit_of LE a b" "bmp u" "P (2 * length ps + 2) (length ps) (word_of_nat u)" "utf16_result LE P (ps @ [u]) zs r"
  shows "utf16_result LE P ps (a # b # zs) r"
proof -
  have "u \<noteq> 0" using assms(2) by (simp add: bmp_def scalar_def)
  then have "utf16_parse LE P ps us rest (a # b # zs) \<longleftrightarrow> (\<exists>v. us = u # v \<and> utf16_parse LE P (ps @ [u]) v rest zs)" for us rest
    using assms(1-3) unit_of_zero [of LE a b] unfolding parse16_unit by auto
  then show ?thesis using assms(4) by (auto simp: utf16_result_def)
qed

lemma fromUTF16_loop_result:
  assumes "string_find SF" "list_all bmp ps" "Data = utf16s LE ps @ ys"
  shows "utf16_result LE P ps ys (fromUTF16_loop SF LE Data P (2 * length ps) (length ps))"
  using assms(2,3)
proof (induction ys arbitrary: ps rule: measure_induct_rule [of length])
  case (less ys)
  note len = length_utf16s [OF less.prems(1), of LE]
  consider "length ys < 2" | a b zs where "ys = a # b # zs" by (cases ys; cases "tl ys") auto
  then show ?case
  proof cases
    case 1
    then have "fromUTF16_loop SF LE Data P (2 * length ps) (length ps) = Some view_default"
      using less.prems(2) len by (subst fromUTF16_loop_eq) simp
    moreover have "\<not> utf16_parse LE P ps us rest ys" for us rest using 1 by (auto simp: utf16_parse_def)
    ultimately show ?thesis using result16_default by simp
  next
    case 2
    let ?u = "unit_of LE a b" and ?cur = "2 * length ps"
    have at: "?cur + 1 < length Data" "Data ! ?cur = a" "Data ! (?cur + 1) = b" using less.prems(2) len 2 by (simp_all add: nth_append)
    note run = fromUTF16_loop_eq [of SF LE Data P ?cur "length ps", unfolded at(2,3) Let_def]
    consider "?u = 0" "ps = []" | "?u = 0" "ps \<noteq> []" | "?u \<noteq> 0" "\<not> (bmp ?u \<and> P (?cur + 2) (length ps) (word_of_nat ?u))"
      | "?u \<noteq> 0" "bmp ?u" "P (?cur + 2) (length ps) (word_of_nat ?u)" by blast
    then show ?thesis
    proof cases
      case u: 1
      then show ?thesis unfolding run using at(1) 2 by (auto intro!: result16_default simp: parse16_unit bmp_def scalar_def)
    next
      case u: 2
      have "fromUTF16_loop SF LE Data P ?cur (length ps) = Some (utf16_view LE ps)"
        unfolding run using at(1) u less.prems len 2 unit_of_zero [of LE a b] view_new_utf16 [OF assms(1) less.prems(1) u(2), of LE] by simp
      then show ?thesis using result16_view [OF u(2)] u(1) unit_of_zero [of LE a b] 2 by simp
    next
      case u: 3
      then show ?thesis unfolding run using at(1) 2 unit_of_zero [of LE a b] by (auto intro!: result16_default simp: parse16_unit)
    next
      case u: 4
      have "utf16 LE ?u = [a, b]" using u(2) unit_bytes [of LE a b] by (simp add: bmp_def utf16_def)
      then have "utf16_result LE P (ps @ [?u]) zs (fromUTF16_loop SF LE Data P (2 * length (ps @ [?u])) (length (ps @ [?u])))"
        using less.prems u(2) 2 by (intro less.IH) simp_all
      then show ?thesis unfolding run using at(1) u 2 by (auto intro: result16_step [OF refl])
    qed
  qed
qed

text \<open>
  \<^bold>\<open>C24\<close>. The UTF-16 decoders never violate an assertion, and return a valid view exactly for a buffer
  that starts with the encoding of a non-empty sequence of accepted scalar values of the basic
  multilingual plane, other than zero, followed by a NUL unit.
\<close>

theorem utf16_decodes_bmp:
  assumes "string_find SF"
  shows "fromUTF16 SF LE Data P \<noteq> None \<and>
    (fromUTF16 SF LE Data P = Some V \<and> view_isValid V \<longleftrightarrow>
      (\<exists>us rest. us \<noteq> [] \<and> list_all bmp us \<and> Data = utf16s LE us @ [0, 0] @ rest \<and> utf16_accepted P 0 0 us
        \<and> V = \<lparr>View_Data = Some (utf16s LE us @ [0, 0]), TheEncoding = (if LE then UTF16LE else UTF16BE),
               CodePointCount = length us\<rparr>))"
  using fromUTF16_loop_result [OF assms, of "[]" Data LE Data P]
  by (auto simp: fromUTF16_def utf16_result_def utf16_parse_def utf16_view_def)

theorem utf16_decodes_bmp_witness:
  "fromUTF16 list_find True [0x61, 0, 0, 0] (\<lambda>_ _ _. True) =
    Some \<lparr>View_Data = Some [0x61, 0, 0, 0], TheEncoding = UTF16LE, CodePointCount = 1\<rparr>"
proof -
  have "\<exists>us rest. us \<noteq> [] \<and> list_all bmp us \<and> [0x61, 0, 0, 0] = utf16s True us @ [0, 0] @ rest \<and> utf16_accepted (\<lambda>_ _ _. True) 0 0 us
      \<and> \<lparr>View_Data = Some [0x61, 0, 0, 0], TheEncoding = UTF16LE, CodePointCount = 1\<rparr> =
        \<lparr>View_Data = Some (utf16s True us @ [0, 0]), TheEncoding = (if True then UTF16LE else UTF16BE), CodePointCount = length us\<rparr>"
    by (intro exI [of _ "[0x61]"] exI [of _ "[]"]) (simp add: bmp_def scalar_def utf16_def utf16_unit_def)
  then show ?thesis using utf16_decodes_bmp [OF list_find.string_find_axioms] by blast
qed

lemma fromUTF16_loop_stops:
  assumes "list_all bmp ps" "Data = utf16s LE (qs @ ps) @ utf16 LE c @ r" "list_all bmp qs" "scalar c" "0x10000 \<le> c"
  shows "fromUTF16_loop SF LE Data P (2 * length qs) (length qs) = Some view_default"
  using assms
proof (induction ps arbitrary: qs)
  case (Cons p ps)
  obtain a b where ab: "utf16 LE p = [a, b]" "unit_of LE a b = p" using bmp_unit [of p LE] Cons.prems(1) by auto
  have "fromUTF16_loop SF LE Data P (2 * length (qs @ [p])) (length (qs @ [p])) = Some view_default"
    by (rule Cons.IH) (use Cons.prems in simp_all)
  moreover have "2 * length qs + 1 < length Data" "Data ! (2 * length qs) = a" "Data ! (2 * length qs + 1) = b" "p \<noteq> 0"
    using Cons.prems length_utf16s [OF Cons.prems(3), of LE] ab by (simp_all add: nth_append bmp_def scalar_def)
  ultimately show ?case using ab(2) by (subst fromUTF16_loop_eq) (simp add: Let_def)
next
  case Nil
  let ?h = "0xD800 + (c - 0x10000) div 1024"
  have h: "?h \<le> 0xDBFF" "?h < 0x10000" "\<not> bmp ?h" using Nil.prems by (auto simp: scalar_def bmp_def)
  obtain a b where ab: "utf16_unit LE ?h = [a, b]" "unit_of LE a b = ?h" using bytes_unit [OF h(2), of LE] by blast
  then obtain low where low: "utf16 LE c = a # b # low" using Nil.prems by (simp add: utf16_def)
  have "2 * length qs + 1 < length Data" "Data ! (2 * length qs) = a" "Data ! (2 * length qs + 1) = b"
    using Nil.prems length_utf16s [OF Nil.prems(3), of LE] low by (simp_all add: nth_append)
  then show ?case using ab(2) h(3) by (subst fromUTF16_loop_eq) (simp add: Let_def)
qed

text \<open>
  \<^bold>\<open>Fact\<close>. A correct UTF-16 string with a scalar value beyond the basic multilingual plane is rejected, as
  the second unit of a surrogate pair is read from the bytes of the first.
\<close>

theorem utf16_rejects_surrogate_pairs:
  assumes "list_all bmp ps" "scalar c" "0x10000 \<le> c"
  shows "fromUTF16 SF LE (utf16s LE (ps @ c # cs) @ [0, 0]) P = Some view_default"
proof -
  have "fromUTF16_loop SF LE (utf16s LE (ps @ c # cs) @ [0, 0]) P (2 * length ([] :: nat list)) (length ([] :: nat list)) = Some view_default"
    by (rule fromUTF16_loop_stops [OF assms(1) _ _ assms(2,3), where r = "utf16s LE cs @ [0, 0]"]) simp_all
  then show ?thesis by (simp add: fromUTF16_def)
qed

theorem utf16_rejects_surrogate_pairs_witness:
  "fromUTF16 list_find True (utf16s True [0x1F600] @ [0, 0]) (\<lambda>_ _ _. True) = Some view_default"
  using utf16_rejects_surrogate_pairs [of "[]" "0x1F600" list_find True "[]" "\<lambda>_ _ _. True"] by (simp add: scalar_def)

lemma utf16_total: "string_find SF \<Longrightarrow> \<exists>V. fromUTF16 SF LE Data P = Some V"
  using fromUTF16_loop_result [of SF "[]" Data LE Data P] by (auto simp: fromUTF16_def utf16_result_def)

lemma utf16_encoding:
  "string_find SF \<Longrightarrow> fromUTF16 SF LE Data P = Some V \<Longrightarrow> view_isValid V \<Longrightarrow> TheEncoding V = (if LE then UTF16LE else UTF16BE)"
proof -
  assume *: "string_find SF" "fromUTF16 SF LE Data P = Some V" "view_isValid V"
  then have "utf16_result LE P [] Data (Some V)" using fromUTF16_loop_result [of SF "[]" Data LE Data P] by (simp add: fromUTF16_def)
  then have "\<exists>us. V = utf16_view LE us" using *(3) unfolding utf16_result_def by blast
  then show "TheEncoding V = (if LE then UTF16LE else UTF16BE)" by (auto simp: utf16_view_def)
qed

lemma utf8_encoding: "fromUTF8 SF Data P = Some V \<Longrightarrow> view_isValid V \<Longrightarrow> TheEncoding V = UTF8"
proof -
  assume *: "fromUTF8 SF Data P = Some V" "view_isValid V"
  then have "utf8_result P [] Data (Some V)" using fromUTF8_loop_result [of "[]" Data Data P SF] by (simp add: fromUTF8_def)
  then have "\<exists>cs. V = utf8_view cs" using *(2) unfolding utf8_result_def by blast
  then show "TheEncoding V = UTF8" by (auto simp: utf8_view_def)
qed

text \<open>
  \<^bold>\<open>Fact\<close>. The candidates for a buffer are valid, at most one for each encoding, in the order of
  preference; the call fails only when the UTF-8 decoder reads beyond the buffer.
\<close>

theorem unicode_candidates:
  assumes "string_find SF"
  shows "case unicode_get SF Data P of
      None \<Rightarrow> fromUTF8 SF Data P = None
    | Some Vs \<Rightarrow> subseq (map TheEncoding Vs) [UTF8, UTF16LE, UTF16BE]
        \<and> (\<forall>V. V \<in> set Vs \<longleftrightarrow> view_isValid V \<and>
             (fromUTF8 SF Data P = Some V \<or> fromUTF16 SF True Data P = Some V \<or> fromUTF16 SF False Data P = Some V))"
proof -
  obtain A B where AB: "fromUTF16 SF True Data P = Some A" "fromUTF16 SF False Data P = Some B"
    using utf16_total [OF assms] by blast
  have a: "TheEncoding A = UTF16LE" if "view_isValid A" using utf16_encoding [OF assms AB(1)] that by simp
  have b: "TheEncoding B = UTF16BE" if "view_isValid B" using utf16_encoding [OF assms AB(2)] that by simp
  have c: "TheEncoding V = UTF8" if "fromUTF8 SF Data P = Some V" "view_isValid V" for V
    using utf8_encoding that by blast
  show ?thesis
  proof (cases "fromUTF8 SF Data P")
    case None
    then show ?thesis by (simp add: unicode_get_def)
  next
    case (Some V)
    then show ?thesis using AB a b c [OF Some] by (auto simp: unicode_get_def)
  qed
qed

theorem unicode_candidates_witness:
  "\<exists>Vs. unicode_get list_find [0x61, 0, 0, 0] (\<lambda>_ _ _. True) = Some Vs \<and> subseq (map TheEncoding Vs) [UTF8, UTF16LE, UTF16BE]"
proof -
  have "fromUTF8 list_find [0x61, 0, 0, 0] (\<lambda>_ _ _. True) =
      Some \<lparr>View_Data = Some [0x61, 0], TheEncoding = UTF8, CodePointCount = 1\<rparr>"
    by (simp add: fromUTF8_def fromUTF8_loop.simps utf8_lead_eq utf8_rejected_def word_less_nat_alt word_le_nat_alt
        view_new_def ends_with_def suffix_def)
  then show ?thesis
    using unicode_candidates [OF list_find.string_find_axioms, of "[0x61, 0, 0, 0]" "\<lambda>_ _ _. True"] by (auto split: option.splits)
qed

end
