(* ===== verification/Llvm_Values.thy ===== *)
theory Llvm_Values
  imports Revng_Prelude
begin

text \<open>
  What the analyses of LLVM code in src/lib/TypeShrinking see of LLVM: instructions with an opcode, a
  type and operands, and the users of an instruction. LLVM is not part of the sources. What an
  instruction computes is a parameter \<open>eval\<close>; the locale \<open>llvm_semantics\<close> states what the LLVM language
  reference says of the integer instructions the analyses know, and nothing of the others. The theory also
  has executions, with which the analyses are judged.
\<close>

section \<open>Instructions\<close>

datatype Ty = IntegerTy nat | OtherTy nat

datatype Predicate = EQ | NE | UGT | UGE | ULT | ULE | SGT | SGE | SLT | SLE

datatype Opcode = And | Xor | Or | Add | Sub | Mul | PHI | Select | Shl | LShr | AShr | Trunc | ZExt | SExt
  | ICmp Predicate | Call | CallBr | Ret | Store | Br | IndirectBr | OtherOpcode nat

text \<open>
  A constant integer with its width, the result of an instruction, or anything else (an argument, another
  constant, a basic block), with its type.
\<close>

datatype Value = ConstantInt nat int | InstructionValue nat | OtherValue Ty nat

record Instruction =
  getOpcode :: Opcode
  mayHaveSideEffects :: bool
  getType :: Ty
  operands :: "Value list"

text \<open>
  \<open>instructions\<close> lists the instructions of a function, by their addresses; \<open>uses\<close> lists the users of an
  instruction, one for each use.
\<close>

record LLVM_Function =
  instructions :: "nat list"
  instruction :: "nat \<Rightarrow> Instruction"
  uses :: "nat \<Rightarrow> nat list"

fun isIntegerTy :: "Ty \<Rightarrow> bool" where
  "isIntegerTy (IntegerTy w) = True"
| "isIntegerTy (OtherTy t) = False"

fun getIntegerBitWidth :: "Ty \<Rightarrow> nat checked" where
  "getIntegerBitWidth (IntegerTy w) = Some w"
| "getIntegerBitWidth (OtherTy t) = None"

fun value_type :: "LLVM_Function \<Rightarrow> Value \<Rightarrow> Ty" where
  "value_type F (ConstantInt w v) = IntegerTy w"
| "value_type F (InstructionValue i) = getType (instruction F i)"
| "value_type F (OtherValue t k) = t"

section \<open>Well-formed functions\<close>

text \<open>
  What LLVM's verifier checks of the instructions the analyses know. A width is at most \<open>2 ^ 23\<close>. LLVM also
  has vectors; a truncation of a vector is the one instruction on them that the analysis cannot handle.
\<close>

definition width_ok :: "Ty \<Rightarrow> bool" where
  "width_ok t \<longleftrightarrow> (case t of IntegerTy w \<Rightarrow> 0 < w \<and> w \<le> 2 ^ 23 | OtherTy _ \<Rightarrow> True)"

fun value_ok :: "Value \<Rightarrow> bool" where
  "value_ok (ConstantInt w v) \<longleftrightarrow> take_bit w v = v"
| "value_ok _ \<longleftrightarrow> True"

definition is_binary :: "Opcode \<Rightarrow> bool" where
  "is_binary Op \<longleftrightarrow> Op \<in> {And, Xor, Or, Add, Sub, Mul, Shl, LShr, AShr}"

definition is_shift :: "Opcode \<Rightarrow> bool" where
  "is_shift Op \<longleftrightarrow> Op \<in> {Shl, LShr, AShr}"

text \<open>The opcodes with a transfer function of their own; all others are opaque.\<close>

definition opaque :: "Opcode \<Rightarrow> bool" where
  "opaque Op \<longleftrightarrow> \<not> is_binary Op \<and> Op \<notin> {PHI, Select, Trunc, ZExt}"

definition typed :: "Opcode \<Rightarrow> Ty \<Rightarrow> Ty list \<Rightarrow> bool" where
  "typed Op t ts \<longleftrightarrow>
     (is_binary Op \<longrightarrow> ts = [t, t])
     \<and> (Op = PHI \<longrightarrow> ts \<noteq> [] \<and> (\<forall>s\<in>set ts. s = t))
     \<and> (Op = Select \<longrightarrow> (\<exists>c. ts = [c, t, t] \<and> (c = IntegerTy 1 \<or> \<not> isIntegerTy c \<and> \<not> isIntegerTy t)))
     \<and> (Op = Trunc \<longrightarrow> (\<exists>w v. t = IntegerTy w \<and> ts = [IntegerTy v] \<and> w < v))
     \<and> (Op = ZExt \<longrightarrow> (\<exists>w v. t = IntegerTy w \<and> ts = [IntegerTy v] \<and> v < w) \<or> (\<exists>s. ts = [s] \<and> \<not> isIntegerTy s \<and> \<not> isIntegerTy t))"

text \<open>The amount of a shift by a constant is smaller than the width; LLVM gives other shifts no meaning.\<close>

definition shift_ok :: "Instruction \<Rightarrow> bool" where
  "shift_ok I \<longleftrightarrow> (is_shift (getOpcode I) \<longrightarrow>
     (case operands I of [_, ConstantInt w v] \<Rightarrow> v < int w | _ \<Rightarrow> True))"

definition instruction_ok :: "LLVM_Function \<Rightarrow> Instruction \<Rightarrow> bool" where
  "instruction_ok F I \<longleftrightarrow> width_ok (getType I)
     \<and> (\<forall>v\<in>set (operands I). value_ok v \<and> width_ok (value_type F v)
          \<and> (case v of InstructionValue j \<Rightarrow> j \<in> set (instructions F) | _ \<Rightarrow> True))
     \<and> typed (getOpcode I) (getType I) (map (value_type F) (operands I)) \<and> shift_ok I
     \<and> (mayHaveSideEffects I \<longrightarrow> opaque (getOpcode I))"

definition function_ok :: "LLVM_Function \<Rightarrow> bool" where
  "function_ok F \<longleftrightarrow> distinct (instructions F)
     \<and> (\<forall>i\<in>set (instructions F). instruction_ok F (instruction F i)
          \<and> (\<forall>u. u \<in> set (uses F i) \<longleftrightarrow> u \<in> set (instructions F) \<and> InstructionValue i \<in> set (operands (instruction F u))))"

section \<open>What instructions compute\<close>

text \<open>Values of an integer type are the numbers below \<open>2 ^ w\<close>.\<close>

fun icmp :: "Predicate \<Rightarrow> nat \<Rightarrow> int \<Rightarrow> int \<Rightarrow> bool" where
  "icmp EQ w a b \<longleftrightarrow> take_bit w a = take_bit w b"
| "icmp NE w a b \<longleftrightarrow> take_bit w a \<noteq> take_bit w b"
| "icmp UGT w a b \<longleftrightarrow> take_bit w a > take_bit w b"
| "icmp UGE w a b \<longleftrightarrow> take_bit w a \<ge> take_bit w b"
| "icmp ULT w a b \<longleftrightarrow> take_bit w a < take_bit w b"
| "icmp ULE w a b \<longleftrightarrow> take_bit w a \<le> take_bit w b"
| "icmp SGT w a b \<longleftrightarrow> signed_take_bit (w - 1) a > signed_take_bit (w - 1) b"
| "icmp SGE w a b \<longleftrightarrow> signed_take_bit (w - 1) a \<ge> signed_take_bit (w - 1) b"
| "icmp SLT w a b \<longleftrightarrow> signed_take_bit (w - 1) a < signed_take_bit (w - 1) b"
| "icmp SLE w a b \<longleftrightarrow> signed_take_bit (w - 1) a \<le> signed_take_bit (w - 1) b"

locale llvm_semantics =
  fixes eval :: "'e \<Rightarrow> Opcode \<Rightarrow> Ty \<Rightarrow> (Ty \<times> int) list \<Rightarrow> int"
  assumes eval_and: "eval e And (IntegerTy w) [(s, a), (t, b)] = take_bit w (a AND b)"
    and eval_xor: "eval e Xor (IntegerTy w) [(s, a), (t, b)] = take_bit w (a XOR b)"
    and eval_or: "eval e Or (IntegerTy w) [(s, a), (t, b)] = take_bit w (a OR b)"
    and eval_add: "eval e Add (IntegerTy w) [(s, a), (t, b)] = take_bit w (a + b)"
    and eval_sub: "eval e Sub (IntegerTy w) [(s, a), (t, b)] = take_bit w (a - b)"
    and eval_mul: "eval e Mul (IntegerTy w) [(s, a), (t, b)] = take_bit w (a * b)"
    and eval_shl: "0 \<le> b \<Longrightarrow> b < int w \<Longrightarrow> eval e Shl (IntegerTy w) [(s, a), (t, b)] = take_bit w (push_bit (nat b) a)"
    and eval_lshr: "0 \<le> b \<Longrightarrow> b < int w \<Longrightarrow>
        eval e LShr (IntegerTy w) [(s, a), (t, b)] = drop_bit (nat b) (take_bit w a)"
    and eval_ashr: "0 \<le> b \<Longrightarrow> b < int w \<Longrightarrow>
        eval e AShr (IntegerTy w) [(s, a), (t, b)] = take_bit w (drop_bit (nat b) (signed_take_bit (w - 1) a))"
    and eval_trunc: "eval e Trunc (IntegerTy w) [(s, a)] = take_bit w a"
    and eval_zext: "eval e ZExt (IntegerTy w) [(IntegerTy v, a)] = take_bit w (take_bit v a)"
    and eval_sext: "eval e SExt (IntegerTy w) [(IntegerTy v, a)] = take_bit w (signed_take_bit (v - 1) a)"
    and eval_icmp: "eval e (ICmp p) (IntegerTy u) [(IntegerTy w, a), (t, b)] = of_bool (icmp p w a b)"
    and eval_select: "eval e Select t [(IntegerTy 1, c), (s, a), (s', b)] = (if c = 1 then a else b)"
    and eval_phi: "0 < n \<Longrightarrow> \<exists>k<n. \<forall>t vs. length vs = n \<longrightarrow> eval e PHI t vs = snd (vs ! k)"

text \<open>A concrete semantics: the environment is the number of the incoming edge; other instructions yield 0.\<close>

fun type_width :: "Ty \<Rightarrow> nat" where
  "type_width (IntegerTy w) = w"
| "type_width (OtherTy t) = 0"

definition int_cast :: "Opcode \<Rightarrow> nat \<Rightarrow> nat \<Rightarrow> int \<Rightarrow> int" where
  "int_cast Op w v a = (case Op of
     Trunc \<Rightarrow> take_bit w a
   | ZExt \<Rightarrow> take_bit w (take_bit v a)
   | SExt \<Rightarrow> take_bit w (signed_take_bit (v - 1) a)
   | _ \<Rightarrow> 0)"

definition int_binary :: "Opcode \<Rightarrow> nat \<Rightarrow> nat \<Rightarrow> int \<Rightarrow> int \<Rightarrow> int" where
  "int_binary Op w v a b = (case Op of
     And \<Rightarrow> take_bit w (a AND b)
   | Xor \<Rightarrow> take_bit w (a XOR b)
   | Or \<Rightarrow> take_bit w (a OR b)
   | Add \<Rightarrow> take_bit w (a + b)
   | Sub \<Rightarrow> take_bit w (a - b)
   | Mul \<Rightarrow> take_bit w (a * b)
   | Shl \<Rightarrow> take_bit w (push_bit (nat b) a)
   | LShr \<Rightarrow> drop_bit (nat b) (take_bit w a)
   | AShr \<Rightarrow> take_bit w (drop_bit (nat b) (signed_take_bit (w - 1) a))
   | ICmp p \<Rightarrow> of_bool (icmp p v a b)
   | _ \<Rightarrow> 0)"

definition int_eval :: "nat \<Rightarrow> Opcode \<Rightarrow> Ty \<Rightarrow> (Ty \<times> int) list \<Rightarrow> int" where
  "int_eval e Op t vs =
     (if Op = PHI then (if vs = [] then 0 else snd (vs ! (e mod length vs)))
      else case vs of
        [(s, a)] \<Rightarrow> int_cast Op (type_width t) (type_width s) a
      | [(s, a), (_, b)] \<Rightarrow> int_binary Op (type_width t) (type_width s) a b
      | [(_, c), (_, a), (_, b)] \<Rightarrow> if c = 1 then a else b
      | _ \<Rightarrow> 0)"

interpretation int_semantics: llvm_semantics int_eval
proof
  show "\<exists>k<n. \<forall>t vs. length vs = n \<longrightarrow> int_eval e PHI t vs = snd (vs ! k)" if "0 < n" for n e
    using that by (intro exI [of _ "e mod n"]) (auto simp: int_eval_def)
qed (simp_all add: int_eval_def int_cast_def int_binary_def)

section \<open>Executions\<close>

text \<open>
  The results of the instructions are a map \<open>\<sigma>\<close>, other values are given by \<open>\<rho>\<close>. A step executes a set of
  instructions at once, each in its environment: one instruction, or the PHIs of a block. What an
  opaque instruction is given can be observed; which step comes next, and its environments (the
  memory, the edge taken), are a function of what has been observed.
\<close>

fun value_of :: "(nat \<Rightarrow> int) \<Rightarrow> (nat \<Rightarrow> int) \<Rightarrow> Value \<Rightarrow> int" where
  "value_of \<rho> \<sigma> (ConstantInt w v) = v"
| "value_of \<rho> \<sigma> (InstructionValue i) = \<sigma> i"
| "value_of \<rho> \<sigma> (OtherValue t k) = \<rho> k"

definition arguments :: "LLVM_Function \<Rightarrow> (nat \<Rightarrow> int) \<Rightarrow> (nat \<Rightarrow> int) \<Rightarrow> nat \<Rightarrow> (Ty \<times> int) list" where
  "arguments F \<rho> \<sigma> i = map (\<lambda>v. (value_type F v, value_of \<rho> \<sigma> v)) (operands (instruction F i))"

type_synonym 'e event = "nat \<rightharpoonup> 'e"
type_synonym observation = "nat \<Rightarrow> (Ty \<times> int) list option"

definition execute ::
  "(nat \<Rightarrow> 'e \<Rightarrow> (Ty \<times> int) list \<Rightarrow> int) \<Rightarrow> LLVM_Function \<Rightarrow> (nat \<Rightarrow> int) \<Rightarrow> 'e event \<Rightarrow> (nat \<Rightarrow> int) \<Rightarrow> (nat \<Rightarrow> int)" where
  "execute compute F \<rho> ev \<sigma> = (\<lambda>i. case ev i of None \<Rightarrow> \<sigma> i | Some e \<Rightarrow> compute i e (arguments F \<rho> \<sigma> i))"

definition observe :: "LLVM_Function \<Rightarrow> (nat \<Rightarrow> int) \<Rightarrow> 'e event \<Rightarrow> (nat \<Rightarrow> int) \<Rightarrow> observation" where
  "observe F \<rho> ev \<sigma> = (\<lambda>i. case ev i of
     None \<Rightarrow> None
   | Some _ \<Rightarrow> if opaque (getOpcode (instruction F i)) then Some (arguments F \<rho> \<sigma> i) else None)"

fun run ::
  "(nat \<Rightarrow> 'e \<Rightarrow> (Ty \<times> int) list \<Rightarrow> int) \<Rightarrow> LLVM_Function \<Rightarrow> (observation list \<Rightarrow> 'e event) \<Rightarrow> (nat \<Rightarrow> int) \<Rightarrow> (nat \<Rightarrow> int)
    \<Rightarrow> nat \<Rightarrow> (nat \<Rightarrow> int) \<times> observation list" where
  "run compute F schedule \<rho> \<sigma> 0 = (\<sigma>, [])"
| "run compute F schedule \<rho> \<sigma> (Suc n) =
     (let (\<sigma>', history) = run compute F schedule \<rho> \<sigma> n; ev = schedule history
      in (execute compute F \<rho> ev \<sigma>', history @ [observe F \<rho> ev \<sigma>']))"

text \<open>What the instructions of a function compute.\<close>

definition original ::
  "('e \<Rightarrow> Opcode \<Rightarrow> Ty \<Rightarrow> (Ty \<times> int) list \<Rightarrow> int) \<Rightarrow> LLVM_Function \<Rightarrow> nat \<Rightarrow> 'e \<Rightarrow> (Ty \<times> int) list \<Rightarrow> int" where
  "original eval F i e vs = eval e (getOpcode (instruction F i)) (getType (instruction F i)) vs"

end
