(* ===== verification/Bit_Liveness.thy ===== *)
theory Bit_Liveness
  imports Llvm_Values
begin

text \<open>
  The transfer functions of the bit liveness analysis (src/lib/TypeShrinking/BitLiveness.cpp): given how many
  low bits of the result of an instruction are live, how many low bits of its operands are. They are
  shown to be sound: the live bits of the result depend on the live bits of the operands only.
\<close>

section \<open>Transfer functions\<close>

definition Top :: u32 where
  "Top = 0xFFFFFFFF"

definition isDataFlowSink :: "Instruction \<Rightarrow> bool" where
  "isDataFlowSink Ins =
     (if mayHaveSideEffects Ins then True
      else case getOpcode Ins of
        Call \<Rightarrow> True | CallBr \<Rightarrow> True | Ret \<Rightarrow> True | Store \<Rightarrow> True | Br \<Rightarrow> True | IndirectBr \<Rightarrow> True | _ \<Rightarrow> False)"

fun max_operand_size :: "LLVM_Function \<Rightarrow> Value list \<Rightarrow> u32 \<Rightarrow> u32" where
  "max_operand_size F [] MaxSize = MaxSize"
| "max_operand_size F (Operand # Operands) MaxSize =
     (case value_type F Operand of
        IntegerTy w \<Rightarrow> max_operand_size F Operands (max MaxSize (word_of_nat w))
      | OtherTy _ \<Rightarrow> Top)"

definition getMaxOperandSize :: "LLVM_Function \<Rightarrow> Instruction \<Rightarrow> u32" where
  "getMaxOperandSize F Ins = max_operand_size F (operands Ins) 0"

definition transferMask :: "u32 \<Rightarrow> u32 \<Rightarrow> u32" where
  "transferMask Element MaskIndex = min Element MaskIndex"

text \<open>\<^verbatim>\<open>APInt::countLeadingZeros\<close> and \<^verbatim>\<open>getZExtValue\<close>, which LLVM limits to 64 bits.\<close>

fun countLeadingZeros :: "nat \<Rightarrow> int \<Rightarrow> nat" where
  "countLeadingZeros 0 v = 0"
| "countLeadingZeros (Suc n) v = (if bit v n then 0 else Suc (countLeadingZeros n v))"

definition getZExtValue :: "int \<Rightarrow> u64 checked" where
  "getZExtValue v = (if v < 2 ^ 64 then Some (word_of_int v) else None)"

fun transferAnd_loop :: "Value list \<Rightarrow> u32 \<Rightarrow> u32 \<Rightarrow> u32" where
  "transferAnd_loop [] Element Result = Result"
| "transferAnd_loop (Operand # Operands) Element Result =
     transferAnd_loop Operands Element
       (case Operand of
          ConstantInt BitWidth OperandValue \<Rightarrow>
            let MostSignificantBit = word_of_nat (BitWidth - countLeadingZeros BitWidth OperandValue)
            in min Result (transferMask Element MostSignificantBit)
        | _ \<Rightarrow> Result)"

definition transferAnd :: "Instruction \<Rightarrow> u32 \<Rightarrow> u32 checked" where
  "transferAnd Ins Element = do {
     revng_assert (getOpcode Ins = And);
     Some (transferAnd_loop (operands Ins) Element Element) }"

definition transferShiftLeft :: "LLVM_Function \<Rightarrow> Instruction \<Rightarrow> u32 \<Rightarrow> u32 checked" where
  "transferShiftLeft F Ins Element = do {
     let OperandSize = getMaxOperandSize F Ins;
     Operand \<leftarrow> at (operands Ins) 1;
     case Operand of
       ConstantInt _ v \<Rightarrow> do {
         OpVal \<leftarrow> getZExtValue v;
         Some (if ucast Element < OpVal then 0 else ucast (ucast Element - OpVal)) }
     | _ \<Rightarrow> Some OperandSize }"

definition transferLogicalShiftRight :: "LLVM_Function \<Rightarrow> Instruction \<Rightarrow> u32 \<Rightarrow> u32 checked" where
  "transferLogicalShiftRight F Ins Element = do {
     let OperandSize = getMaxOperandSize F Ins;
     Operand \<leftarrow> at (operands Ins) 1;
     case Operand of
       ConstantInt _ v \<Rightarrow> do {
         OpVal \<leftarrow> getZExtValue v;
         revng_assert (OpVal < ucast Top);
         Some (if ucast Top - OpVal < ucast Element then Top else min OperandSize (Element + ucast OpVal)) }
     | _ \<Rightarrow> Some OperandSize }"

definition transferArithmeticalShiftRight :: "LLVM_Function \<Rightarrow> Instruction \<Rightarrow> u32 \<Rightarrow> u32 checked" where
  "transferArithmeticalShiftRight F Ins Element = do {
     let OperandSize = getMaxOperandSize F Ins;
     Operand \<leftarrow> at (operands Ins) 1;
     case Operand of
       ConstantInt _ v \<Rightarrow> do {
         OpVal \<leftarrow> getZExtValue v;
         revng_assert (OpVal < ucast Top);
         Some (if ucast Top - OpVal < ucast Element then Top else min OperandSize (Element + ucast OpVal)) }
     | _ \<Rightarrow> Some OperandSize }"

definition transferTrunc :: "Instruction \<Rightarrow> u32 \<Rightarrow> u32 checked" where
  "transferTrunc Ins Element = do {
     Width \<leftarrow> getIntegerBitWidth (getType Ins);
     Some (min Element (word_of_nat Width)) }"

definition transferZExt :: "LLVM_Function \<Rightarrow> Instruction \<Rightarrow> u32 \<Rightarrow> u32" where
  "transferZExt F Ins Element = min Element (getMaxOperandSize F Ins)"

definition bl_transfer :: "LLVM_Function \<Rightarrow> Instruction \<Rightarrow> u32 \<Rightarrow> u32 checked" where
  "bl_transfer F Ins E = (case getOpcode Ins of
     And \<Rightarrow> transferAnd Ins E
   | Xor \<Rightarrow> Some (min E (getMaxOperandSize F Ins))
   | Or \<Rightarrow> Some (min E (getMaxOperandSize F Ins))
   | Add \<Rightarrow> Some (min E (getMaxOperandSize F Ins))
   | Sub \<Rightarrow> Some (min E (getMaxOperandSize F Ins))
   | Mul \<Rightarrow> Some (min E (getMaxOperandSize F Ins))
   | PHI \<Rightarrow> Some (min E (getMaxOperandSize F Ins))
   | Select \<Rightarrow> Some (min E (getMaxOperandSize F Ins))
   | Shl \<Rightarrow> transferShiftLeft F Ins E
   | LShr \<Rightarrow> transferLogicalShiftRight F Ins E
   | AShr \<Rightarrow> transferArithmeticalShiftRight F Ins E
   | Trunc \<Rightarrow> transferTrunc Ins E
   | ZExt \<Rightarrow> Some (transferZExt F Ins E)
   | _ \<Rightarrow> Some Top)"

section \<open>Agreement on low bits\<close>

fun agree :: "Ty \<Rightarrow> nat \<Rightarrow> int \<Rightarrow> int \<Rightarrow> bool" where
  "agree (IntegerTy w) E a b \<longleftrightarrow> take_bit E a = take_bit E b \<and> (w \<le> E \<longrightarrow> a = b)"
| "agree (OtherTy t) E a b \<longleftrightarrow> E = 0 \<or> a = b"

lemma agree_refl [simp]: "agree t E a a"
  by (cases t) simp_all

lemma take_bit_eq_bits: "take_bit n a = take_bit n b \<longleftrightarrow> (\<forall>i<n. bit a i \<longleftrightarrow> bit b i)" for a b :: int
  by (auto simp: bit_eq_iff bit_take_bit_iff)

lemma agree_mono: "agree t E a b \<Longrightarrow> E' \<le> E \<Longrightarrow> agree t E' a b"
  by (cases t) (auto simp: take_bit_eq_bits)

lemma agree_take_bit:
  assumes "take_bit (min E w) a = take_bit (min E w) b"
  shows "agree (IntegerTy w) E (take_bit w a) (take_bit w b)"
  using assms by (auto simp: take_bit_eq_bits bit_take_bit_iff min_def)

lemma agree_all: "agree t E a b \<Longrightarrow> width_ok t \<Longrightarrow> 2 ^ 23 \<le> E \<Longrightarrow> a = b"
  by (cases t) (auto simp: width_ok_def)

lemma clz_bits: "i < w \<Longrightarrow> w - countLeadingZeros w v \<le> i \<Longrightarrow> \<not> bit v i"
proof (induction w)
  case (Suc n)
  then show ?case by (cases "i = n") (auto split: if_splits)
qed simp

lemma clz_le: "countLeadingZeros w v \<le> w"
  by (induction w) auto

section \<open>The transfer functions are sound\<close>

definition fits :: "Ty \<Rightarrow> nat \<Rightarrow> bool" where
  "fits t S \<longleftrightarrow> (case t of IntegerTy w \<Rightarrow> w \<le> S | OtherTy _ \<Rightarrow> 0 < S)"

lemma agree_min: "agree t (min E S) a b \<Longrightarrow> fits t S \<Longrightarrow> agree t E a b"
  by (cases t) (auto simp: fits_def min_def split: if_splits)

lemma unat_Top [simp]: "unat Top = 2 ^ 32 - 1"
  by (simp add: Top_def)

lemma unat_width: "w \<le> 2 ^ 23 \<Longrightarrow> unat (word_of_nat w :: u32) = w"
  by (simp add: unat_of_nat)

lemma unat_min: "unat (min a b) = min (unat a) (unat b)" and unat_max: "unat (max a b) = max (unat a) (unat b)"
  for a b :: "'a::len word"
  by (simp_all add: min_def max_def word_le_nat_alt)

lemma max_operand_size_ge: "unat M \<le> unat (max_operand_size F ops M)"
proof (induction ops arbitrary: M)
  case (Cons v ops)
  have "unat M \<le> 2 ^ 32 - 1" using unsigned_less [of M, where ?'a = nat] by simp
  then show ?case using Cons [of "max M (word_of_nat (type_width (value_type F v)))"]
    by (auto simp: unat_max split: Ty.splits)
qed simp

lemma max_operand_size_fits:
  assumes "v \<in> set ops" "\<forall>v\<in>set ops. width_ok (value_type F v)"
  shows "fits (value_type F v) (unat (max_operand_size F ops M))"
  using assms
proof (induction ops arbitrary: M)
  case (Cons u ops)
  have ok: "width_ok (value_type F v)" using Cons.prems by blast
  show ?case
  proof (cases "value_type F u")
    case (IntegerTy w)
    show ?thesis
    proof (cases "v = u")
      case True
      have "w \<le> unat (max M (word_of_nat w))" using ok True IntegerTy unat_width [of w] by (simp add: unat_max width_ok_def)
      then show ?thesis using True IntegerTy max_operand_size_ge [of "max M (word_of_nat w)" F ops] by (simp add: fits_def)
    next
      case False
      then show ?thesis using Cons IntegerTy by simp
    qed
  next
    case (OtherTy t)
    then show ?thesis using ok by (auto simp: fits_def width_ok_def split: Ty.splits)
  qed
qed simp

fun args_agree :: "LLVM_Function \<Rightarrow> nat \<Rightarrow> Value list \<Rightarrow> (Ty \<times> int) list \<Rightarrow> (Ty \<times> int) list \<Rightarrow> bool" where
  "args_agree F R [] as bs \<longleftrightarrow> as = [] \<and> bs = []"
| "args_agree F R (v # vs) as bs \<longleftrightarrow> (\<exists>a as' b bs'. as = (value_type F v, a) # as' \<and> bs = (value_type F v, b) # bs'
     \<and> agree (value_type F v) R a b \<and> (\<forall>w c. v = ConstantInt w c \<longrightarrow> a = c \<and> b = c) \<and> args_agree F R vs as' bs')"

lemma args_agree_min:
  "args_agree F (min E S) vs as bs \<Longrightarrow> \<forall>v\<in>set vs. fits (value_type F v) S \<Longrightarrow> args_agree F E vs as bs"
  by (induction vs arbitrary: as bs) (auto intro: agree_min)

lemma args_agree_all:
  "args_agree F E vs as bs \<Longrightarrow> \<forall>v\<in>set vs. width_ok (value_type F v) \<Longrightarrow> 2 ^ 23 \<le> E \<Longrightarrow> as = bs"
proof (induction vs arbitrary: as bs)
  case (Cons v vs)
  then obtain a as' b bs' where *: "as = (value_type F v, a) # as'" "bs = (value_type F v, b) # bs'"
      "agree (value_type F v) E a b" "args_agree F E vs as' bs'" by auto
  then show ?case using Cons.IH [OF *(4)] Cons.prems agree_all [OF *(3)] by simp
qed simp

lemma args_agree_mono: "args_agree F E vs as bs \<Longrightarrow> E' \<le> E \<Longrightarrow> args_agree F E' vs as bs"
  by (induction vs arbitrary: as bs) (auto intro: agree_mono)

lemma args_agree_nth:
  "args_agree F E vs as bs \<Longrightarrow> length as = length vs \<and> length bs = length vs
     \<and> (\<forall>k<length vs. agree (value_type F (vs ! k)) E (snd (as ! k)) (snd (bs ! k)))"
proof (induction vs arbitrary: as bs)
  case (Cons v vs)
  then show ?case by (auto simp: less_Suc_eq_0_disj)
qed simp

text \<open>The operations whose low bits depend on the same low bits of the operands.\<close>

lemma low_bits_eq:
  fixes a b :: int
  assumes "take_bit n a = take_bit n a'" "take_bit n b = take_bit n b'"
  shows "take_bit n (a + b) = take_bit n (a' + b')" "take_bit n (a - b) = take_bit n (a' - b')"
    "take_bit n (a * b) = take_bit n (a' * b')" "take_bit n (a AND b) = take_bit n (a' AND b')"
    "take_bit n (a OR b) = take_bit n (a' OR b')" "take_bit n (a XOR b) = take_bit n (a' XOR b')"
proof -
  show "take_bit n (a + b) = take_bit n (a' + b')" by (metis assms take_bit_add)
  show "take_bit n (a - b) = take_bit n (a' - b')" by (metis assms take_bit_diff)
  show "take_bit n (a * b) = take_bit n (a' * b')" by (metis assms take_bit_mult)
qed (use assms in simp_all)

lemma agree_low: "agree (IntegerTy w) E a b \<Longrightarrow> take_bit (min E w) a = take_bit (min E w) b"
  by (auto simp: take_bit_eq_bits)

context llvm_semantics
begin

lemma binary_sound:
  assumes "Op \<in> {Xor, Or, Add, Sub, Mul}" "agree t E a a'" "agree t E b b'"
  shows "agree t E (eval e Op t [(t, a), (t, b)]) (eval e Op t [(t, a'), (t, b')])"
proof (cases t)
  case (IntegerTy w)
  note low = low_bits_eq [OF agree_low [OF assms(2) [unfolded IntegerTy]] agree_low [OF assms(3) [unfolded IntegerTy]]]
  show ?thesis using assms(1) low unfolding IntegerTy
    by (auto simp only: insert_iff empty_iff eval_xor eval_or eval_add eval_sub eval_mul intro!: agree_take_bit)
next
  case (OtherTy k)
  then show ?thesis using assms(2,3) by auto
qed

end

lemma agree_0: "width_ok t \<Longrightarrow> agree t 0 a b"
  by (cases t) (auto simp: width_ok_def)

lemma args_agree_fits:
  "args_agree F S vs as bs \<Longrightarrow> \<forall>v\<in>set vs. fits (value_type F v) S \<Longrightarrow> as = bs"
proof (induction vs arbitrary: as bs)
  case (Cons v vs)
  then obtain a as' b bs' where *: "as = (value_type F v, a) # as'" "bs = (value_type F v, b) # bs'"
      "agree (value_type F v) S a b" "args_agree F S vs as' bs'" by auto
  moreover have "a = b" using *(3) Cons.prems(2) by (cases "value_type F v") (auto simp: fits_def)
  ultimately show ?case using Cons.IH [OF *(4)] Cons.prems by simp
qed simp

lemma transferAnd_loop_le: "unat (transferAnd_loop ops E Res) \<le> unat Res"
proof (induction ops arbitrary: Res)
  case (Cons v ops)
  have "unat (min Res x) \<le> unat Res" for x by (simp add: unat_min)
  then show ?case using Cons by (auto simp: Let_def split: Value.splits intro: le_trans)
qed simp

lemma transferAnd_loop_cases:
  "unat (transferAnd_loop ops E Res) \<le> i \<Longrightarrow> unat Res \<le> i \<or> unat E \<le> i
     \<or> (\<exists>w c. ConstantInt w c \<in> set ops \<and> unat (word_of_nat (w - countLeadingZeros w c) :: u32) \<le> i)"
proof (induction ops arbitrary: Res)
  case (Cons v ops)
  show ?case
  proof (cases v)
    case (ConstantInt w c)
    let ?m = "word_of_nat (w - countLeadingZeros w c) :: u32"
    have "unat (min Res (transferMask E ?m)) \<le> i \<or> unat E \<le> i
       \<or> (\<exists>w c. ConstantInt w c \<in> set ops \<and> unat (word_of_nat (w - countLeadingZeros w c) :: u32) \<le> i)"
      using Cons ConstantInt by (simp add: Let_def)
    then show ?thesis using ConstantInt by (auto simp: unat_min transferMask_def min_le_iff_disj)
  qed (use Cons in auto)
qed simp

lemma transferAnd_loop_no_const: "\<forall>w c. ConstantInt w c \<notin> set ops \<Longrightarrow> transferAnd_loop ops E Res = Res"
  by (induction ops arbitrary: Res) (auto split: Value.splits)

lemma getZExtValue_small: "0 \<le> v \<Longrightarrow> v < 2 ^ 23 \<Longrightarrow> getZExtValue v = Some (word_of_int v) \<and> unat (word_of_int v :: u64) = nat v"
  by (simp add: getZExtValue_def unat_eq_nat_uint uint_word_of_int)

lemma unat_ucast_u64 [simp]: "unat (ucast E :: u64) = unat E" for E :: u32
  using unsigned_less [of E, where ?'a = nat] by (simp add: unsigned_ucast_eq take_bit_nat_eq_self)

lemma unat_ucast_u32: "unat k < 2 ^ 32 \<Longrightarrow> unat (ucast k :: u32) = unat k" for k :: u64
  by (simp add: unsigned_ucast_eq take_bit_nat_eq_self)

lemma unat_shl:
  fixes E :: u32 and k :: u64
  shows "unat (if ucast E < k then 0 else ucast (ucast E - k) :: u32) = unat E - unat k"
proof (cases "ucast E < k")
  case True
  then show ?thesis by (simp add: word_less_nat_alt)
next
  case False
  then have "unat (ucast E - k) = unat E - unat k" using unat_sub [of k "ucast E"] by (simp add: not_less)
  moreover have "unat E < 2 ^ 32" using unsigned_less [of E, where ?'a = nat] by simp
  ultimately show ?thesis using False by (simp add: unat_ucast_u32)
qed

lemma unat_shr:
  fixes E S :: u32 and k :: u64
  assumes "k < ucast Top" 
  shows "unat (if ucast Top - k < ucast E then Top else min S (E + ucast k)) =
    (if unat E + unat k < 2 ^ 32 then min (unat S) (unat E + unat k) else 2 ^ 32 - 1)"
proof -
  have k: "unat k < 2 ^ 32 - 1" using assms by (simp add: word_less_nat_alt Top_def)
  have "unat (ucast Top - k) = 2 ^ 32 - 1 - unat k"
    using assms by (simp add: unat_sub order_less_imp_le Top_def)
  then have c: "ucast Top - k < ucast E \<longleftrightarrow> \<not> unat E + unat k < 2 ^ 32"
    using k by (simp add: word_less_nat_alt) linarith
  have "unat (ucast k :: u32) = unat k" using k by (simp add: unat_ucast_u32)
  then have "unat E + unat k < 2 ^ 32 \<Longrightarrow> unat (E + ucast k) = unat E + unat k" by (simp add: unat_word_ariths)
  then show ?thesis unfolding c by (simp add: unat_min)
qed

context llvm_semantics
begin

lemma and_sound:
  assumes ok: "value_ok x" "value_ok y" "width_ok t" and types: "value_type F x = t" "value_type F y = t"
    and args: "args_agree F (unat (transferAnd_loop [x, y] E E)) [x, y] vs vs'"
  shows "agree t (unat E) (eval e And t vs) (eval e And t vs')"
proof (cases t)
  case (IntegerTy w)
  let ?R = "unat (transferAnd_loop [x, y] E E)"
  obtain a b a' b' where v: "vs = [(t, a), (t, b)]" "vs' = [(t, a'), (t, b')]" "agree t ?R a a'" "agree t ?R b b'"
      "\<forall>w c. x = ConstantInt w c \<longrightarrow> a = c \<and> a' = c" "\<forall>w c. y = ConstantInt w c \<longrightarrow> b = c \<and> b' = c"
    using args types by auto
  have "bit (a AND b) i \<longleftrightarrow> bit (a' AND b') i" if i: "i < min (unat E) w" for i
  proof (cases "i < ?R")
    case True
    then show ?thesis using v(3,4) IntegerTy by (simp add: take_bit_eq_bits bit_and_iff)
  next
    case False
    then obtain u c where c: "ConstantInt u c = x \<or> ConstantInt u c = y" "unat (word_of_nat (u - countLeadingZeros u c) :: u32) \<le> i"
      using transferAnd_loop_cases [of "[x, y]" E E i] i by auto
    have u: "u = w" using c(1) types IntegerTy by auto
    have "w - countLeadingZeros w c \<le> 2 ^ 23" using ok(3) IntegerTy by (auto simp: width_ok_def)
    then have "w - countLeadingZeros w c \<le> i" using c(2) unat_width [of "w - countLeadingZeros w c"] u by simp
    then have "\<not> bit c i" using clz_bits [of i w c] i by simp
    then show ?thesis using c(1) v(5,6) by (auto simp: bit_and_iff)
  qed
  then have "take_bit (min (unat E) w) (a AND b) = take_bit (min (unat E) w) (a' AND b')"
    unfolding take_bit_eq_bits by blast
  then show ?thesis unfolding v(1,2) unfolding IntegerTy eval_and by (rule agree_take_bit)
next
  case (OtherTy k)
  have "\<forall>w c. ConstantInt w c \<notin> set [x, y]" using types OtherTy by auto
  then have "transferAnd_loop [x, y] E E = E" by (rule transferAnd_loop_no_const)
  then show ?thesis using args types OtherTy by auto
qed

lemma shl_sound:
  assumes "0 \<le> c" "c < int w" "agree (IntegerTy w) (E - nat c) a a'"
  shows "agree (IntegerTy w) E (eval e Shl (IntegerTy w) [(s, a), (t, c)]) (eval e Shl (IntegerTy w) [(s, a'), (t, c)])"
proof -
  have "bit a (i - nat c) \<longleftrightarrow> bit a' (i - nat c)" if "i < E" "nat c \<le> i" for i
    using assms(3) that by (simp add: take_bit_eq_bits)
  then show ?thesis unfolding eval_shl [OF assms(1,2)]
    by (intro agree_take_bit) (auto simp: take_bit_eq_bits bit_push_bit_iff)
qed

lemma lshr_sound:
  assumes "0 \<le> c" "c < int w" "agree (IntegerTy w) (E + nat c) a a'"
  shows "agree (IntegerTy w) E (eval e LShr (IntegerTy w) [(s, a), (t, c)]) (eval e LShr (IntegerTy w) [(s, a'), (t, c)])"
  using assms(3) unfolding eval_lshr [OF assms(1,2)]
  by (auto simp: take_bit_eq_bits bit_drop_bit_eq bit_take_bit_iff)

lemma ashr_sound:
  assumes "0 \<le> c" "c < int w" "agree (IntegerTy w) (E + nat c) a a'"
  shows "agree (IntegerTy w) E (eval e AShr (IntegerTy w) [(s, a), (t, c)]) (eval e AShr (IntegerTy w) [(s, a'), (t, c)])"
  using assms(3) unfolding eval_ashr [OF assms(1,2)]
  by (intro agree_take_bit) (auto simp: take_bit_eq_bits bit_drop_bit_eq bit_signed_take_bit_iff)

lemma shift_right_sound:
  assumes "Op \<in> {LShr, AShr}" "0 \<le> c" "c < int w" "agree (IntegerTy w) (E + nat c) a a'"
  shows "agree (IntegerTy w) E (eval e Op (IntegerTy w) [(s, a), (t, c)]) (eval e Op (IntegerTy w) [(s, a'), (t, c)])"
  using assms lshr_sound ashr_sound by blast

lemma trunc_sound:
  assumes "agree (IntegerTy v) (min E w) a a'"
  shows "agree (IntegerTy w) E (eval e Trunc (IntegerTy w) [(s, a)]) (eval e Trunc (IntegerTy w) [(s, a')])"
  using assms unfolding eval_trunc by (intro agree_take_bit) simp

lemma zext_sound:
  assumes "agree (IntegerTy v) E a a'"
  shows "agree (IntegerTy w) E (eval e ZExt (IntegerTy w) [(IntegerTy v, a)]) (eval e ZExt (IntegerTy w) [(IntegerTy v, a')])"
  using assms unfolding eval_zext by (intro agree_take_bit) (auto simp: take_bit_eq_bits bit_take_bit_iff)

lemma phi_sound:
  assumes "vs \<noteq> []" "\<forall>v\<in>set vs. value_type F v = t" "args_agree F E vs as bs"
  shows "agree t E (eval e PHI t as) (eval e PHI t bs)"
proof -
  obtain k where "k < length vs" "\<forall>t xs. length xs = length vs \<longrightarrow> eval e PHI t xs = snd (xs ! k)"
    using eval_phi [of "length vs" e] assms(1) by auto
  then show ?thesis using args_agree_nth [OF assms(3)] assms(2) by simp
qed

lemma select_sound:
  assumes "width_ok t" "c = IntegerTy 1 \<or> \<not> isIntegerTy c \<and> \<not> isIntegerTy t" "agree c E x x'" "agree t E a a'" "agree t E b b'"
  shows "agree t E (eval e Select t [(c, x), (t, a), (t, b)]) (eval e Select t [(c, x'), (t, a'), (t, b')])"
proof (cases "E = 0")
  case True
  then show ?thesis using agree_0 assms(1) by simp
next
  case E: False
  show ?thesis
  proof (cases "c = IntegerTy 1")
    case True
    then have "x = x'" using E assms(3) by simp
    then show ?thesis unfolding True eval_select using assms(4,5) by simp
  next
    case False
    then have "\<not> isIntegerTy c" "\<not> isIntegerTy t" using assms(2) by simp_all
    then obtain k l where "c = OtherTy k" "t = OtherTy l" by (cases c; cases t) simp_all
    then show ?thesis using E assms(3-5) by simp
  qed
qed

end

lemma instruction_okD:
  assumes "instruction_ok F I"
  shows "width_ok (getType I)" "\<forall>v\<in>set (operands I). value_ok v \<and> width_ok (value_type F v)"
    "typed (getOpcode I) (getType I) (map (value_type F) (operands I))"
  using assms by (auto simp: instruction_ok_def)

lemma instruction_ok_fits:
  "instruction_ok F I \<Longrightarrow> \<forall>v\<in>set (operands I). fits (value_type F v) (unat (getMaxOperandSize F I))"
  using instruction_okD(2) [of F I] max_operand_size_fits [of _ "operands I" F] by (auto simp: getMaxOperandSize_def)

lemma binary_operands:
  assumes "instruction_ok F I" "is_binary (getOpcode I)"
  obtains x y where "operands I = [x, y]" "value_type F x = getType I" "value_type F y = getType I" "value_ok x" "value_ok y"
proof -
  have "map (value_type F) (operands I) = [getType I, getType I]"
    using instruction_okD(3) [OF assms(1)] assms(2) by (simp add: typed_def)
  then obtain x y where "operands I = [x, y]" "value_type F x = getType I" "value_type F y = getType I" by auto
  then show ?thesis using instruction_okD(2) [OF assms(1)] that by simp
qed

text \<open>A shift by a constant, or one whose transfer function keeps all bits.\<close>

lemma shift_operands:
  assumes ok: "instruction_ok F I" and op: "is_shift (getOpcode I)"
  obtains (var) x y where "operands I = [x, y]" "\<forall>w c. y \<noteq> ConstantInt w c"
    | (const) x w c where "operands I = [x, ConstantInt w c]" "getType I = IntegerTy w" "value_type F x = IntegerTy w"
        "0 \<le> c" "c < int w" "w \<le> 2 ^ 23" "getZExtValue c = Some (word_of_int c)" "unat (word_of_int c :: u64) = nat c"
        "(word_of_int c :: u64) < ucast Top"
proof -
  have "is_binary (getOpcode I)" using op by (auto simp: is_binary_def is_shift_def)
  from binary_operands [OF ok this] obtain x y where xy: "operands I = [x, y]" "value_type F x = getType I"
      "value_type F y = getType I" "value_ok x" "value_ok y" by blast
  show ?thesis
  proof (cases "\<exists>w c. y = ConstantInt w c")
    case False
    then show ?thesis using var xy(1) by blast
  next
    case True
    then obtain w c where y: "y = ConstantInt w c" by blast
    have w: "getType I = IntegerTy w" "w \<le> 2 ^ 23" using xy(3) y instruction_okD(1) [OF ok] by (auto simp: width_ok_def split: Ty.splits)
    have "c = take_bit w c" using xy(5) y by simp
    then have "0 \<le> c" by (metis take_bit_nonnegative)
    moreover have c: "c < int w" using ok op xy(1) y by (simp add: instruction_ok_def shift_ok_def)
    moreover have "c < 2 ^ 23" using c w(2) by simp
    note z = getZExtValue_small [OF \<open>0 \<le> c\<close> this]
    moreover have "(word_of_int c :: u64) < ucast Top" using z \<open>c < 2 ^ 23\<close> \<open>0 \<le> c\<close> by (simp add: word_less_nat_alt Top_def)
    ultimately show ?thesis using const xy(1,2) y w by simp
  qed
qed

context llvm_semantics
begin

lemma transfer_shift:
  assumes ok: "instruction_ok F I" and op: "is_shift (getOpcode I)" and T: "bl_transfer F I E = Some R"
    and args: "args_agree F (unat R) (operands I) vs vs'"
  shows "agree (getType I) (unat E) (eval e (getOpcode I) (getType I) vs) (eval e (getOpcode I) (getType I) vs')"
proof (cases rule: shift_operands [OF ok op, case_names var const])
  case (var x y)
  then have "R = getMaxOperandSize F I" using T op
    by (auto simp: bl_transfer_def is_shift_def transferShiftLeft_def transferLogicalShiftRight_def
        transferArithmeticalShiftRight_def at_def Let_def split: Value.splits)
  then have "vs = vs'" using args_agree_fits [OF args] instruction_ok_fits [OF ok] by simp
  then show ?thesis by simp
next
  case (const x w c)
  note 2 = const
  obtain a a' where v: "vs = [(IntegerTy w, a), (IntegerTy w, c)]" "vs' = [(IntegerTy w, a'), (IntegerTy w, c)]"
      "agree (IntegerTy w) (unat R) a a'"
    using args 2 by auto
  show ?thesis
  proof (cases "getOpcode I = Shl")
    case True
    then have "R = (if ucast E < (word_of_int c :: u64) then 0 else ucast (ucast E - (word_of_int c :: u64)))"
      using T 2 by (simp add: bl_transfer_def transferShiftLeft_def at_def)
    then have "unat R = unat E - nat c" using unat_shl [of E "word_of_int c"] 2 by simp
    then show ?thesis using shl_sound [of c w "unat E" a a'] 2 v True by simp
  next
    case False
    then have op': "getOpcode I \<in> {LShr, AShr}" using op by (auto simp: is_shift_def)
    then have "R = (if ucast Top - (word_of_int c :: u64) < ucast E then Top else min (getMaxOperandSize F I) (E + ucast (word_of_int c :: u64)))"
      using T 2 by (auto simp: bl_transfer_def transferLogicalShiftRight_def transferArithmeticalShiftRight_def at_def Let_def)
    then have R: "unat R = (if unat E + nat c < 2 ^ 32 then min (unat (getMaxOperandSize F I)) (unat E + nat c) else 2 ^ 32 - 1)"
      using unat_shr [of "word_of_int c" E "getMaxOperandSize F I"] 2 by simp
    have "fits (IntegerTy w) (unat (getMaxOperandSize F I))" using instruction_ok_fits [OF ok] 2 by simp
    then have low: "agree (IntegerTy w) (unat E + nat c) a a'"
    proof (cases "unat E + nat c < 2 ^ 32")
      case True
      then have "agree (IntegerTy w) (min (unat E + nat c) (unat (getMaxOperandSize F I))) a a'" using R v(3) by (simp add: min.commute)
      then show ?thesis using \<open>fits _ _\<close> by (rule agree_min)
    next
      case False
      then have "a = a'" using R v(3) 2 by simp
      then show ?thesis by simp
    qed
    show ?thesis using shift_right_sound [OF op' _ _ low] 2 v by simp
  qed
qed

lemma transfer_sound:
  assumes ok: "instruction_ok F I" and T: "bl_transfer F I E = Some R"
    and args: "args_agree F (unat R) (operands I) vs vs'"
  shows "agree (getType I) (unat E) (eval e (getOpcode I) (getType I) vs) (eval e (getOpcode I) (getType I) vs')"
proof -
  note D = instruction_okD [OF ok] and fits = instruction_ok_fits [OF ok]
  have min: "args_agree F (unat E) (operands I) vs vs'" if "R = min E (getMaxOperandSize F I)"
    using args_agree_min [of F "unat E" "unat (getMaxOperandSize F I)"] args fits that by (simp add: unat_min)
  consider "getOpcode I = And" | "getOpcode I \<in> {Xor, Or, Add, Sub, Mul}" | "is_shift (getOpcode I)" | "getOpcode I = PHI"
    | "getOpcode I = Select" | "getOpcode I = Trunc" | "getOpcode I = ZExt" | "opaque (getOpcode I)"
    by (auto simp: opaque_def is_binary_def is_shift_def)
  then show ?thesis
  proof cases
    case 1
    then have "is_binary (getOpcode I)" by (simp add: is_binary_def)
    from binary_operands [OF ok this] obtain x y where xy: "operands I = [x, y]" "value_type F x = getType I"
      "value_type F y = getType I" "value_ok x" "value_ok y" by blast
    have "R = transferAnd_loop [x, y] E E" using T 1 xy by (simp add: bl_transfer_def transferAnd_def)
    then show ?thesis using and_sound [OF xy(4,5) D(1) xy(2,3)] args 1 xy(1) by simp
  next
    case 2
    then have "is_binary (getOpcode I)" by (auto simp: is_binary_def)
    from binary_operands [OF ok this] obtain x y where xy: "operands I = [x, y]" "value_type F x = getType I"
      "value_type F y = getType I" by blast
    have "R = min E (getMaxOperandSize F I)" using T 2 by (auto simp: bl_transfer_def)
    then show ?thesis using min binary_sound [OF 2, of "getType I"] xy by auto
  next
    case 3
    then show ?thesis using transfer_shift [OF ok _ T args] by simp
  next
    case 4
    have "R = min E (getMaxOperandSize F I)" using T 4 by (simp add: bl_transfer_def)
    then show ?thesis using phi_sound [OF _ _ min] D(3) 4 by (simp add: typed_def)
  next
    case 5
    have "R = min E (getMaxOperandSize F I)" using T 5 by (simp add: bl_transfer_def)
    note args' = min [OF this]
    obtain c where c: "map (value_type F) (operands I) = [c, getType I, getType I]" "c = IntegerTy 1 \<or> \<not> isIntegerTy c \<and> \<not> isIntegerTy (getType I)"
      using D(3) 5 by (auto simp: typed_def)
    from c(1) obtain x y z where "operands I = [x, y, z]" "value_type F x = c" "value_type F y = getType I" "value_type F z = getType I"
      by auto
    then show ?thesis using select_sound [OF D(1) c(2)] args' 5 by auto
  next
    case 6
    obtain w v where t: "getType I = IntegerTy w" "map (value_type F) (operands I) = [IntegerTy v]" using D(3) 6 by (auto simp: typed_def)
    then obtain x where x: "operands I = [x]" "value_type F x = IntegerTy v" by auto
    have "unat (word_of_nat w :: u32) = w" using D(1) t(1) by (intro unat_width) (simp add: width_ok_def)
    then have "unat R = min (unat E) w" using T 6 t(1) by (auto simp: bl_transfer_def transferTrunc_def unat_min)
    then show ?thesis using args x t(1) 6 trunc_sound [of v "unat E" w] by auto
  next
    case 7
    have "R = min E (getMaxOperandSize F I)" using T 7 by (simp add: bl_transfer_def transferZExt_def)
    note args' = min [OF this]
    show ?thesis
    proof (cases "getType I")
      case (IntegerTy w)
      then obtain v x where "operands I = [x]" "value_type F x = IntegerTy v" using D(3) 7 by (auto simp: typed_def)
      then show ?thesis using args' zext_sound [of v "unat E"] IntegerTy 7 by auto
    next
      case (OtherTy k)
      then obtain x l where "operands I = [x]" "value_type F x = OtherTy l"
        using D(3) 7 by (auto simp: typed_def) (metis isIntegerTy.elims(3))
      then show ?thesis using args' OtherTy by auto
    qed
  next
    case 8
    have "R = Top" using T 8 by (auto simp: bl_transfer_def opaque_def is_binary_def split: Opcode.splits)
    then have "vs = vs'" using args_agree_all [OF args] D(2) by simp
    then show ?thesis by simp
  qed
qed

end

end
