(* ===== verification/Bit_Liveness_Analysis.thy ===== *)
theory Bit_Liveness_Analysis
  imports Bit_Liveness Graph_Traits
begin

text \<open>
  The bit liveness analysis (src/lib/TypeShrinking/BitLiveness.cpp) on the data-flow graph of a function
  (src/lib/TypeShrinking/DataFlowGraph.cpp), an instance of the solver on 32-bit numbers: for each
  instruction, how many low bits of its result, and of its operands, can reach a sink. It returns the least
  solution, and the bits it finds dead do not matter in any execution.
\<close>

section \<open>Dead bits do not reach the sinks\<close>

text \<open>An assignment of live bits to instructions that respects the transfer functions.\<close>

definition live_bits :: "LLVM_Function \<Rightarrow> (nat \<Rightarrow> u32) \<Rightarrow> bool" where
  "live_bits F L \<longleftrightarrow> (\<forall>u\<in>set (instructions F). \<exists>R. bl_transfer F (instruction F u) (L u) = Some R
     \<and> (\<forall>j. InstructionValue j \<in> set (operands (instruction F u)) \<longrightarrow> R \<le> L j))"

text \<open>
  \<open>compute\<close> may change the dead bits of the results of the instructions, and nothing else.
\<close>

definition keeps_live_bits ::
  "('e \<Rightarrow> Opcode \<Rightarrow> Ty \<Rightarrow> (Ty \<times> int) list \<Rightarrow> int) \<Rightarrow> LLVM_Function \<Rightarrow> (nat \<Rightarrow> int) \<Rightarrow> (nat \<Rightarrow> u32)
    \<Rightarrow> (nat \<Rightarrow> 'e \<Rightarrow> (Ty \<times> int) list \<Rightarrow> int) \<Rightarrow> bool" where
  "keeps_live_bits eval F \<rho> L compute \<longleftrightarrow> (\<forall>i\<in>set (instructions F). \<forall>e \<sigma>.
     agree (getType (instruction F i)) (unat (L i)) (original eval F i e (arguments F \<rho> \<sigma> i)) (compute i e (arguments F \<rho> \<sigma> i)))"

definition states_agree :: "LLVM_Function \<Rightarrow> (nat \<Rightarrow> u32) \<Rightarrow> (nat \<Rightarrow> int) \<Rightarrow> (nat \<Rightarrow> int) \<Rightarrow> bool" where
  "states_agree F L \<sigma> \<sigma>' \<longleftrightarrow> (\<forall>i\<in>set (instructions F). agree (getType (instruction F i)) (unat (L i)) (\<sigma> i) (\<sigma>' i))"

lemma agree_trans: "agree t E a b \<Longrightarrow> agree t E b c \<Longrightarrow> agree t E a c"
  by (cases t) auto

lemma arguments_agree:
  assumes "instruction_ok F I" "states_agree F L \<sigma> \<sigma>'" "\<forall>j. InstructionValue j \<in> set (operands I) \<longrightarrow> R \<le> L j"
  shows "args_agree F (unat R) (operands I) (map (\<lambda>v. (value_type F v, value_of \<rho> \<sigma> v)) (operands I))
    (map (\<lambda>v. (value_type F v, value_of \<rho> \<sigma>' v)) (operands I))"
proof -
  have "agree (value_type F v) (unat R) (value_of \<rho> \<sigma> v) (value_of \<rho> \<sigma>' v)" if "v \<in> set (operands I)" for v
  proof (cases v)
    case (InstructionValue j)
    then have "j \<in> set (instructions F)" "R \<le> L j" using assms(1,3) that by (auto simp: instruction_ok_def)
    then show ?thesis using assms(2) InstructionValue agree_mono [of _ "unat (L j)" _ _ "unat R"]
      by (simp add: states_agree_def word_le_nat_alt)
  qed simp_all
  moreover have "args_agree F E vs (map (\<lambda>v. (value_type F v, value_of \<rho> \<sigma> v)) vs) (map (\<lambda>v. (value_type F v, value_of \<rho> \<sigma>' v)) vs)"
    if "\<forall>v\<in>set vs. agree (value_type F v) E (value_of \<rho> \<sigma> v) (value_of \<rho> \<sigma>' v)" for vs E
    using that by (induction vs) auto
  ultimately show ?thesis by blast
qed

lemma arguments_agree_F:
  assumes "function_ok F" "states_agree F L \<sigma> \<sigma>'" "live_bits F L" "u \<in> set (instructions F)"
  obtains R where "bl_transfer F (instruction F u) (L u) = Some R"
    "args_agree F (unat R) (operands (instruction F u)) (arguments F \<rho> \<sigma> u) (arguments F \<rho> \<sigma>' u)"
proof -
  have "instruction_ok F (instruction F u)" using assms(1,4) by (simp add: function_ok_def)
  moreover obtain R where "bl_transfer F (instruction F u) (L u) = Some R" "\<forall>j. InstructionValue j \<in> set (operands (instruction F u)) \<longrightarrow> R \<le> L j"
    using assms(3,4) by (auto simp: live_bits_def)
  ultimately show ?thesis using that arguments_agree [OF _ assms(2)] unfolding arguments_def by blast
qed

lemma bl_transfer_opaque: "opaque (getOpcode I) \<Longrightarrow> bl_transfer F I E = Some Top"
  by (auto simp: bl_transfer_def opaque_def is_binary_def split: Opcode.splits)

lemma observe_agree:
  assumes "function_ok F" "states_agree F L \<sigma> \<sigma>'" "live_bits F L" "dom ev \<subseteq> set (instructions F)"
  shows "observe F \<rho> ev \<sigma> = observe F \<rho> ev \<sigma>'"
proof
  fix u
  show "observe F \<rho> ev \<sigma> u = observe F \<rho> ev \<sigma>' u"
  proof (cases "u \<in> dom ev \<and> opaque (getOpcode (instruction F u))")
    case True
    then have u: "u \<in> set (instructions F)" using assms(4) by blast
    obtain R where R: "bl_transfer F (instruction F u) (L u) = Some R"
        "args_agree F (unat R) (operands (instruction F u)) (arguments F \<rho> \<sigma> u) (arguments F \<rho> \<sigma>' u)"
      using arguments_agree_F [OF assms(1-3) u] .
    then have "R = Top" using bl_transfer_opaque True by simp
    moreover have "\<forall>v\<in>set (operands (instruction F u)). width_ok (value_type F v)"
      using assms(1) u by (auto simp: function_ok_def instruction_ok_def)
    ultimately have "arguments F \<rho> \<sigma> u = arguments F \<rho> \<sigma>' u" using args_agree_all [OF R(2)] by simp
    then show ?thesis by (simp add: observe_def split: option.splits)
  qed (auto simp: observe_def split: option.splits)
qed

context llvm_semantics
begin

lemma execute_agree:
  assumes "function_ok F" "states_agree F L \<sigma> \<sigma>'" "live_bits F L" "keeps_live_bits eval F \<rho> L compute"
  shows "states_agree F L (execute (original eval F) F \<rho> ev \<sigma>) (execute compute F \<rho> ev \<sigma>')"
  unfolding states_agree_def
proof
  fix u
  assume u: "u \<in> set (instructions F)"
  let ?I = "instruction F u"
  show "agree (getType ?I) (unat (L u)) (execute (original eval F) F \<rho> ev \<sigma> u) (execute compute F \<rho> ev \<sigma>' u)"
  proof (cases "ev u")
    case None
    then show ?thesis using assms(2) u by (simp add: execute_def states_agree_def)
  next
    case (Some e)
    have ok: "instruction_ok F ?I" using assms(1) u by (simp add: function_ok_def)
    obtain R where R: "bl_transfer F ?I (L u) = Some R" "args_agree F (unat R) (operands ?I) (arguments F \<rho> \<sigma> u) (arguments F \<rho> \<sigma>' u)"
      using arguments_agree_F [OF assms(1-3) u] .
    have "agree (getType ?I) (unat (L u)) (original eval F u e (arguments F \<rho> \<sigma> u)) (original eval F u e (arguments F \<rho> \<sigma>' u))"
      unfolding original_def by (rule transfer_sound [OF ok R])
    moreover have "agree (getType ?I) (unat (L u)) (original eval F u e (arguments F \<rho> \<sigma>' u)) (compute u e (arguments F \<rho> \<sigma>' u))"
      using assms(4) u by (simp add: keeps_live_bits_def)
    ultimately show ?thesis using Some by (auto simp: execute_def intro: agree_trans)
  qed
qed

lemma run_agree:
  assumes "function_ok F" "live_bits F L" "keeps_live_bits eval F \<rho> L compute" "\<forall>h. dom (schedule h) \<subseteq> set (instructions F)"
  shows "states_agree F L (fst (run (original eval F) F schedule \<rho> \<sigma> n)) (fst (run compute F schedule \<rho> \<sigma> n))
    \<and> snd (run (original eval F) F schedule \<rho> \<sigma> n) = snd (run compute F schedule \<rho> \<sigma> n)"
proof (induction n)
  case (Suc n)
  obtain \<sigma>1 h1 \<sigma>2 h2 where r: "run (original eval F) F schedule \<rho> \<sigma> n = (\<sigma>1, h1)" "run compute F schedule \<rho> \<sigma> n = (\<sigma>2, h2)" by fastforce
  then have agree: "states_agree F L \<sigma>1 \<sigma>2" "h1 = h2" using Suc by simp_all
  then show ?case using r execute_agree [OF assms(1) agree(1) assms(2,3)] observe_agree [OF assms(1) agree(1) assms(2), of "schedule h2" \<rho>] assms(4) by (simp add: Let_def)
qed (simp add: states_agree_def)

end

section \<open>The data-flow graph\<close>

text \<open>
  \<^verbatim>\<open>buildDataFlowGraph\<close>: a node for each instruction, then, for each definition, an edge from each use to it.
  \<open>InstructionNodeMap.at\<close> throws when the key is missing.
\<close>

fun add_nodes ::
  "nat list \<Rightarrow> (unit, nat) GenericGraph \<Rightarrow> (nat \<rightharpoonup> ptr) \<Rightarrow> (unit, nat) GenericGraph \<times> (nat \<rightharpoonup> ptr)" where
  "add_nodes [] DataFlowGraph InstructionNodeMap = (DataFlowGraph, InstructionNodeMap)"
| "add_nodes (I # Is) DataFlowGraph InstructionNodeMap =
     (let GraphNode = fresh_ptr DataFlowGraph
      in add_nodes Is (addNode GraphNode I DataFlowGraph) (InstructionNodeMap(I \<mapsto> GraphNode)))"

fun add_uses :: "(nat \<rightharpoonup> ptr) \<Rightarrow> ptr \<Rightarrow> nat list \<Rightarrow> (unit, nat) GenericGraph \<Rightarrow> (unit, nat) GenericGraph checked" where
  "add_uses InstructionNodeMap DefNode [] G = Some G"
| "add_uses InstructionNodeMap DefNode (User # Users) G = do {
     UseNode \<leftarrow> InstructionNodeMap User;
     add_uses InstructionNodeMap DefNode Users (G\<lparr>Heap := addSuccessor UseNode DefNode () (Heap G)\<rparr>) }"

fun add_all_uses ::
  "LLVM_Function \<Rightarrow> (nat \<rightharpoonup> ptr) \<Rightarrow> ptr list \<Rightarrow> (unit, nat) GenericGraph \<Rightarrow> (unit, nat) GenericGraph checked" where
  "add_all_uses F InstructionNodeMap [] G = Some G"
| "add_all_uses F InstructionNodeMap (DefNode # DefNodes) G = do {
     G' \<leftarrow> add_uses InstructionNodeMap DefNode (uses F (NodeData (Heap G DefNode))) G;
     add_all_uses F InstructionNodeMap DefNodes G' }"

definition empty_graph :: "(unit, nat) GenericGraph" where
  "empty_graph = \<lparr>EntryNode = nullptr, Nodes = [], Heap = (\<lambda>_. \<lparr>Successors = [], Predecessors = [], NodeData = 0\<rparr>)\<rparr>"

definition buildDataFlowGraph :: "LLVM_Function \<Rightarrow> (unit, nat) GenericGraph checked" where
  "buildDataFlowGraph F =
     (let (G, InstructionNodeMap) = add_nodes (instructions F) empty_graph Map.empty
      in add_all_uses F InstructionNodeMap (Nodes G) G)"

text \<open>The graph in construction: \<open>node\<close> numbers the instructions \<open>Is\<close>; \<open>E\<close> are the edges, user first.\<close>

definition dfg_inv :: "nat list \<Rightarrow> (nat \<rightharpoonup> ptr) \<Rightarrow> (nat \<times> nat) set \<Rightarrow> (unit, nat) GenericGraph \<Rightarrow> bool" where
  "dfg_inv Is node E G \<longleftrightarrow> graph_wf G \<and> distinct Is \<and> dom node = set Is \<and> Nodes G = map (\<lambda>i. the (node i)) Is
     \<and> (\<forall>i\<in>set Is. NodeData (Heap G (the (node i))) = i)
     \<and> (\<forall>u\<in>set Is. set (successors_of (Heap G) (the (node u))) = {the (node d) | d. (u, d) \<in> E})"

lemma dfg_inv_node_inj: "dfg_inv Is node E G \<Longrightarrow> i \<in> set Is \<Longrightarrow> j \<in> set Is \<Longrightarrow> the (node i) = the (node j) \<longleftrightarrow> i = j"
  by (metis dfg_inv_def)

lemma add_nodes_correct:
  assumes "dfg_inv Is node {} G" "distinct (Is @ Js)" "add_nodes Js G node = (G', node')"
  shows "dfg_inv (Is @ Js) node' {} G'"
  using assms
proof (induction Js arbitrary: Is node G)
  case (Cons J Js)
  let ?n = "fresh_ptr G"
  have inv: "graph_wf G" "dom node = set Is" "Nodes G = map (\<lambda>i. the (node i)) Is" "\<forall>i\<in>set Is. NodeData (Heap G (the (node i))) = i"
      "\<forall>u\<in>set Is. set (successors_of (Heap G) (the (node u))) = {}"
    using Cons.prems(1) by (simp_all add: dfg_inv_def)
  have wf: "graph_wf (addNode ?n J G)" using graph_wf_addNode(1) [OF inv(1) fresh_ptr] .
  have old: "the (node i) \<noteq> ?n" if "i \<in> set Is" for i using fresh_ptr(1) [of G] inv(3) that by (auto simp: image_iff)
  have new: "J \<notin> set Is" using Cons.prems(2) by simp
  have "dfg_inv (Is @ [J]) (node(J \<mapsto> ?n)) {} (addNode ?n J G)"
    using wf inv old new Cons.prems(2) by (auto simp: dfg_inv_def addNode_def successors_of_def)
  moreover have "distinct ((Is @ [J]) @ Js)" "add_nodes Js (addNode ?n J G) (node(J \<mapsto> ?n)) = (G', node')"
    using Cons.prems(2,3) by (simp_all add: Let_def)
  ultimately have "dfg_inv ((Is @ [J]) @ Js) node' {} G'" by (rule Cons.IH)
  then show ?case by simp
qed simp

lemma add_uses_correct:
  assumes "dfg_inv Is node E G" "d \<in> set Is" "set us \<subseteq> set Is"
  shows "\<exists>G'. add_uses node (the (node d)) us G = Some G' \<and> dfg_inv Is node (E \<union> set us \<times> {d}) G'"
  using assms
proof (induction us arbitrary: E G)
  case (Cons u us)
  have "u \<in> dom node" using Cons.prems by (simp add: dfg_inv_def)
  then have u: "u \<in> set Is" "node u = Some (the (node u))" using Cons.prems by (simp_all add: domIff)
  have nodes: "the (node u) \<in> set (Nodes G)" "the (node d) \<in> set (Nodes G)" using Cons.prems u by (auto simp: dfg_inv_def)
  let ?G = "G\<lparr>Heap := addSuccessor (the (node u)) (the (node d)) () (Heap G)\<rparr>"
  have "graph_wf G" using Cons.prems(1) by (simp add: dfg_inv_def)
  from graph_wf_addSuccessor [OF this nodes] have wf: "graph_wf ?G" .
  have succ: "set (successors_of (Heap ?G) (the (node v))) =
      (if v = u then insert (the (node d)) (set (successors_of (Heap G) (the (node v)))) else set (successors_of (Heap G) (the (node v))))"
    if "v \<in> set Is" for v using dfg_inv_node_inj [OF Cons.prems(1) that u(1)] by (auto simp: successors_of_def)
  have "dfg_inv Is node (insert (u, d) E) ?G"
    using Cons.prems(1) wf succ unfolding dfg_inv_def by auto
  from Cons.IH [OF this] Cons.prems(2,3) obtain G' where
    "add_uses node (the (node d)) us ?G = Some G'" "dfg_inv Is node (insert (u, d) E \<union> set us \<times> {d}) G'" by auto
  moreover have "insert (u, d) E \<union> set us \<times> {d} = E \<union> set (u # us) \<times> {d}" by auto
  ultimately show ?case using u(2) by (metis add_uses.simps(2) bind.bind_lunit)
qed simp

lemma add_all_uses_correct:
  assumes "dfg_inv Is node E G" "set ds \<subseteq> set Is" "\<forall>d\<in>set ds. set (uses F d) \<subseteq> set Is"
  shows "\<exists>G'. add_all_uses F node (map (\<lambda>i. the (node i)) ds) G = Some G'
    \<and> dfg_inv Is node (E \<union> {(u, d). d \<in> set ds \<and> u \<in> set (uses F d)}) G'"
  using assms
proof (induction ds arbitrary: E G)
  case (Cons d ds)
  have data: "NodeData (Heap G (the (node d))) = d" using Cons.prems by (simp add: dfg_inv_def)
  obtain G1 where G1: "add_uses node (the (node d)) (uses F d) G = Some G1" "dfg_inv Is node (E \<union> set (uses F d) \<times> {d}) G1"
    using add_uses_correct [OF Cons.prems(1), of d "uses F d"] Cons.prems(2,3) by auto
  obtain G' where G': "add_all_uses F node (map (\<lambda>i. the (node i)) ds) G1 = Some G'"
      "dfg_inv Is node (E \<union> set (uses F d) \<times> {d} \<union> {(u, d). d \<in> set ds \<and> u \<in> set (uses F d)}) G'"
    using Cons.IH [OF G1(2)] Cons.prems(2,3) by auto
  moreover have "E \<union> set (uses F d) \<times> {d} \<union> {(u, d). d \<in> set ds \<and> u \<in> set (uses F d)}
      = E \<union> {(u, e). e \<in> set (d # ds) \<and> u \<in> set (uses F e)}" by auto
  ultimately show ?case using G1(1) data by simp
qed simp

lemma buildDataFlowGraph_correct:
  assumes "function_ok F"
  shows "\<exists>G node. buildDataFlowGraph F = Some G
    \<and> dfg_inv (instructions F) node {(u, d). d \<in> set (instructions F) \<and> u \<in> set (uses F d)} G"
proof -
  obtain G node where gn: "add_nodes (instructions F) empty_graph Map.empty = (G, node)" by fastforce
  have "dfg_inv [] Map.empty {} empty_graph" by (simp add: dfg_inv_def empty_graph_def graph_wf_def edges_match_def)
  then have inv: "dfg_inv (instructions F) node {} G"
    using add_nodes_correct [of "[]" Map.empty empty_graph "instructions F"] gn assms by (simp add: function_ok_def)
  then have "Nodes G = map (\<lambda>i. the (node i)) (instructions F)" by (simp add: dfg_inv_def)
  moreover have "\<forall>d\<in>set (instructions F). set (uses F d) \<subseteq> set (instructions F)" using assms by (auto simp: function_ok_def)
  ultimately show ?thesis using add_all_uses_correct [OF inv subset_refl, of F] gn by (auto simp: buildDataFlowGraph_def)
qed

section \<open>The analysis\<close>

record InstructionResults =
  Operands :: u32
  Result :: u32

definition BitLivenessAnalysis :: "LLVM_Function \<Rightarrow> (unit, nat) GenericGraph \<Rightarrow> (ptr, u32, unit) MonotoneFrameworkInstance" where
  "BitLivenessAnalysis F G =
     \<lparr>combineValues = (\<lambda>LHS RHS. max LHS RHS), isLessOrEqual = (\<lambda>LHS RHS. LHS \<le> RHS),
      applyTransferFunction = (\<lambda>L E X. map_option (\<lambda>v. (v, X)) (bl_transfer F (instruction F (NodeData (Heap G L))) E))\<rparr>"

text \<open>The results of the solver have an entry for every node.\<close>

fun collect_results ::
  "(unit, nat) GenericGraph \<Rightarrow> (ptr \<rightharpoonup> u32 MFPResult) \<Rightarrow> ptr list \<Rightarrow> (nat \<rightharpoonup> InstructionResults) \<Rightarrow> (nat \<rightharpoonup> InstructionResults)" where
  "collect_results G Results [] Res = Res"
| "collect_results G Results (L # Ls) Res =
     (case Results L of
        None \<Rightarrow> collect_results G Results Ls Res
      | Some R \<Rightarrow> collect_results G Results Ls
          (Res(NodeData (Heap G L) \<mapsto> \<lparr>Operands = OutValue R, Result = InValue R\<rparr>)))"

definition BitLivenessPass_run ::
  "((unit, nat) GenericGraph \<Rightarrow> ptr \<Rightarrow> ptr set \<Rightarrow> ptr list \<times> ptr set) \<Rightarrow> LLVM_Function \<Rightarrow> (nat \<rightharpoonup> InstructionResults) checked" where
  "BitLivenessPass_run po F = do {
     G \<leftarrow> buildDataFlowGraph F;
     let Sinks = filter (\<lambda>Node. isDataFlowSink (instruction F (NodeData (Heap G Node)))) (Nodes G);
     (Results, _) \<leftarrow> getMaximalFixedPoint (Some (BitLivenessAnalysis F G)) 0 ()
       \<lparr>Instance = None, Flow = GraphTraits (po G) G, Bottom = None, ExtremalValue = Some Top,
        ExtremalLabels = Some Sinks, EntryLabels = All, cfg_ExtraState = None\<rparr>;
     let Result = collect_results G Results (Nodes G) Map.empty;
     (case verify G of Inl _ \<Rightarrow> revng_abort | Inr _ \<Rightarrow> Some Result) }"

lemma transferAnd_loop_mono:
  "E \<le> E' \<Longrightarrow> Res \<le> Res' \<Longrightarrow> transferAnd_loop ops E Res \<le> transferAnd_loop ops E' Res'"
proof (induction ops arbitrary: Res Res')
  case (Cons v ops)
  have "min Res (transferMask E m) \<le> min Res' (transferMask E' m)" for m
    using Cons.prems unfolding transferMask_def by (intro min.mono) simp_all
  then show ?case using Cons by (auto simp: Let_def split: Value.splits)
qed simp

lemma shift_transfer:
  assumes "instruction_ok F I" "is_shift (getOpcode I)"
  shows "\<exists>f. (\<forall>E. bl_transfer F I E = Some (f E)) \<and> mono f"
proof (cases rule: shift_operands [OF assms, case_names var const])
  case (var x y)
  then have "bl_transfer F I E = Some (getMaxOperandSize F I)" for E using assms(2)
    by (auto simp: bl_transfer_def is_shift_def transferShiftLeft_def transferLogicalShiftRight_def
        transferArithmeticalShiftRight_def at_def Let_def split: Value.splits)
  then show ?thesis by (intro exI [of _ "\<lambda>_. getMaxOperandSize F I"]) (simp add: monoI)
next
  case (const x w c)
  let ?k = "word_of_int c :: u64"
  show ?thesis
  proof (cases "getOpcode I = Shl")
    case True
    then have "bl_transfer F I E = Some (if ucast E < ?k then 0 else ucast (ucast E - ?k))" for E
      using const by (simp add: bl_transfer_def transferShiftLeft_def at_def)
    moreover have "mono (\<lambda>E :: u32. if ucast E < ?k then 0 else ucast (ucast E - ?k) :: u32)"
      by (rule monoI) (simp only: word_le_nat_alt unat_shl diff_le_mono)
    ultimately show ?thesis by (intro exI conjI allI) (assumption, assumption)
  next
    case False
    let ?f = "\<lambda>E. if ucast Top - ?k < ucast E then Top else min (getMaxOperandSize F I) (E + ucast ?k)"
    have "getOpcode I \<in> {LShr, AShr}" using False assms(2) by (auto simp: is_shift_def)
    then have "bl_transfer F I E = Some (?f E)" for E
      using const by (auto simp: bl_transfer_def transferLogicalShiftRight_def transferArithmeticalShiftRight_def at_def Let_def)
    moreover have "mono ?f"
    proof (rule monoI)
      fix E E' :: u32
      assume "E \<le> E'"
      then have le: "unat E \<le> unat E'" by (simp add: word_le_nat_alt)
      have "unat (getMaxOperandSize F I) \<le> 2 ^ 32 - 1" using unsigned_less [of "getMaxOperandSize F I", where ?'a = nat] by simp
      then have "unat (?f E) \<le> unat (?f E')" using le unfolding unat_shr [OF const(9)] by auto
      then show "?f E \<le> ?f E'" by (simp add: word_le_nat_alt)
    qed
    ultimately show ?thesis by (intro exI [of _ ?f] conjI allI)
  qed
qed

lemma bl_transfer_total_mono:
  assumes ok: "instruction_ok F I"
  shows "\<exists>f. (\<forall>E. bl_transfer F I E = Some (f E)) \<and> mono f"
proof -
  note D = instruction_okD [OF ok]
  have min: "mono (\<lambda>E :: u32. min E s)" for s by (rule monoI) (rule min.mono, simp_all)
  consider "getOpcode I = And" | "getOpcode I \<in> {Xor, Or, Add, Sub, Mul, PHI, Select, ZExt}" | "is_shift (getOpcode I)"
    | "getOpcode I = Trunc" | "opaque (getOpcode I)"
    by (auto simp: opaque_def is_binary_def is_shift_def)
  then show ?thesis
  proof cases
    case 1
    have "mono (\<lambda>E. transferAnd_loop (operands I) E E)" by (rule monoI) (simp add: transferAnd_loop_mono)
    then show ?thesis using 1 by (intro exI [of _ "\<lambda>E. transferAnd_loop (operands I) E E"]) (simp add: bl_transfer_def transferAnd_def)
  next
    case 2
    then have "bl_transfer F I E = Some (min E (getMaxOperandSize F I))" for E
      by (auto simp: bl_transfer_def transferZExt_def)
    then show ?thesis using min by (intro exI [of _ "\<lambda>E. min E (getMaxOperandSize F I)"]) simp
  next
    case 3
    then show ?thesis using shift_transfer [OF ok] by simp
  next
    case 4
    then obtain w where "getType I = IntegerTy w" using D(3) by (auto simp: typed_def)
    then show ?thesis using 4 min by (intro exI [of _ "\<lambda>E. min E (word_of_nat w)"]) (simp add: bl_transfer_def transferTrunc_def)
  next
    case 5
    then show ?thesis using bl_transfer_opaque by (intro exI [of _ "\<lambda>_. Top"]) (simp add: monoI)
  qed
qed

text \<open>What the solver needs of the lattice of 32-bit numbers.\<close>

interpretation u32_lattice: mfp_lattice "\<lambda>LHS RHS. max LHS RHS" "\<lambda>LHS RHS :: u32. LHS \<le> RHS" "\<lambda>_. True" "\<lambda>v. 2 ^ 32 - unat v"
proof
  fix a b :: u32
  assume "\<not> b \<le> a"
  then have "unat a < unat (max a b)" by (simp add: unat_max word_le_nat_alt)
  then show "2 ^ 32 - unat (max a b) < 2 ^ 32 - unat a" using unsigned_less [of "max a b", where ?'a = nat] by simp
qed auto

definition bl_tf :: "LLVM_Function \<Rightarrow> (unit, nat) GenericGraph \<Rightarrow> ptr \<Rightarrow> u32 \<Rightarrow> u32" where
  "bl_tf F G n E = the (bl_transfer F (instruction F (NodeData (Heap G n))) E)"

lemma bl_tf:
  assumes "function_ok F" "dfg_inv (instructions F) node E G" "n \<in> set (Nodes G)"
  shows "bl_transfer F (instruction F (NodeData (Heap G n))) e = Some (bl_tf F G n e)" "mono (bl_tf F G n)"
proof -
  obtain i where "i \<in> set (instructions F)" "n = the (node i)" "NodeData (Heap G n) = i" using assms(2,3) by (auto simp: dfg_inv_def)
  then have "instruction_ok F (instruction F (NodeData (Heap G n)))" using assms(1) by (simp add: function_ok_def)
  from bl_transfer_total_mono [OF this] obtain f where "\<forall>E. bl_transfer F (instruction F (NodeData (Heap G n))) E = Some (f E)" "mono f" by blast
  moreover from this have "bl_tf F G n = f" by (simp add: bl_tf_def fun_eq_iff)
  ultimately show "bl_transfer F (instruction F (NodeData (Heap G n))) e = Some (bl_tf F G n e)" "mono (bl_tf F G n)" by simp_all
qed

lemma bit_liveness_framework:
  assumes "function_ok F" "dfg_inv (instructions F) node E G"
  shows "monotone_framework (BitLivenessAnalysis F G) (\<lambda>_. True) (\<lambda>v. 2 ^ 32 - unat v) (GraphTraits po G) (set (Nodes G)) (bl_tf F G)"
proof (intro monotone_framework.intro monotone_framework_axioms.intro)
  show "mfp_lattice (combineValues (BitLivenessAnalysis F G)) (isLessOrEqual (BitLivenessAnalysis F G)) (\<lambda>_. True) (\<lambda>v. 2 ^ 32 - unat v)"
    unfolding BitLivenessAnalysis_def using u32_lattice.mfp_lattice_axioms by simp
  fix l assume l: "l \<in> set (Nodes G)"
  have "graph_wf G" using assms(2) by (simp add: dfg_inv_def)
  then show "set (successors (GraphTraits po G) l) \<subseteq> set (Nodes G)" using graph_wf_links(1) by (simp add: GraphTraits_def)
  show "\<exists>x'. applyTransferFunction (BitLivenessAnalysis F G) l e x = Some (bl_tf F G l e, x')" for e x
    using bl_tf(1) [OF assms l] by (simp add: BitLivenessAnalysis_def)
  show "isLessOrEqual (BitLivenessAnalysis F G) (bl_tf F G l a) (bl_tf F G l b)" if "isLessOrEqual (BitLivenessAnalysis F G) a b" for a b
    using bl_tf(2) [OF assms l] that by (simp add: BitLivenessAnalysis_def monoD)
qed simp

lemma collect_results_other:
  "i \<notin> (\<lambda>n. NodeData (Heap G n)) ` set ns \<Longrightarrow> collect_results G Results ns Res i = Res i"
  by (induction ns arbitrary: Res) (auto split: option.splits)

lemma collect_results_correct:
  assumes "\<forall>n\<in>set ns. Results n = Some \<lparr>InValue = v n, OutValue = w n\<rparr>" "inj_on (\<lambda>n. NodeData (Heap G n)) (set ns)" "distinct ns"
    "n \<in> set ns"
  shows "collect_results G Results ns Res (NodeData (Heap G n)) = Some \<lparr>Operands = w n, Result = v n\<rparr>"
  using assms
proof (induction ns arbitrary: Res)
  case (Cons m ns)
  show ?case
  proof (cases "n = m")
    case True
    have "NodeData (Heap G m) \<notin> (\<lambda>n. NodeData (Heap G n)) ` set ns" using Cons.prems(2,3) by (auto simp: inj_on_def)
    then show ?thesis using collect_results_other True Cons.prems by simp
  next
    case False
    then show ?thesis using Cons by simp
  qed
qed simp

definition sinks_live :: "LLVM_Function \<Rightarrow> (nat \<Rightarrow> u32) \<Rightarrow> bool" where
  "sinks_live F L \<longleftrightarrow> (\<forall>i\<in>set (instructions F). isDataFlowSink (instruction F i) \<longrightarrow> L i = Top)"

lemma Top_max: "Top \<le> v \<longleftrightarrow> v = Top"
  using unsigned_less [of v, where ?'a = nat] by (auto simp: word_le_nat_alt intro!: unsigned_word_eqI [where ?'a = nat])

lemma operand_defined:
  assumes "function_ok F" "u \<in> set (instructions F)" "InstructionValue d \<in> set (operands (instruction F u))"
  shows "d \<in> set (instructions F)"
proof -
  have "instruction_ok F (instruction F u)" using assms(1,2) by (simp add: function_ok_def)
  then have "case InstructionValue d of InstructionValue j \<Rightarrow> j \<in> set (instructions F) | _ \<Rightarrow> True"
    using assms(3) unfolding instruction_ok_def by blast
  then show ?thesis by simp
qed

lemma live_bits_cong:
  assumes "function_ok F" "\<forall>i\<in>set (instructions F). L i = L' i"
  shows "live_bits F L \<longleftrightarrow> live_bits F L'" "sinks_live F L \<longleftrightarrow> sinks_live F L'"
proof -
  show "live_bits F L \<longleftrightarrow> live_bits F L'"
    using assms(2) operand_defined [OF assms(1)] unfolding live_bits_def by (intro ball_cong) auto
  show "sinks_live F L \<longleftrightarrow> sinks_live F L'" using assms(2) by (simp add: sinks_live_def)
qed

definition sink_nodes :: "LLVM_Function \<Rightarrow> (unit, nat) GenericGraph \<Rightarrow> ptr list" where
  "sink_nodes F G = filter (\<lambda>Node. isDataFlowSink (instruction F (NodeData (Heap G Node)))) (Nodes G)"

text \<open>A solution of the data-flow equations on the graph is an assignment of live bits.\<close>

lemma solution_live_bits:
  assumes ok: "function_ok F" and inv: "dfg_inv (instructions F) node {(u, d). d \<in> set (instructions F) \<and> u \<in> set (uses F d)} G"
  shows "mfp_solution (BitLivenessAnalysis F G) (GraphTraits po G) (set (Nodes G)) (\<lambda>_. True) (bl_tf F G) (mfp_init_value 0 Top (sink_nodes F G)) v
    \<longleftrightarrow> live_bits F (\<lambda>i. v (the (node i))) \<and> sinks_live F (\<lambda>i. v (the (node i)))"
proof -
  let ?Is = "set (instructions F)" and ?n = "\<lambda>i. the (node i)"
  have nodes: "set (Nodes G) = ?n ` ?Is" and data: "\<And>i. i \<in> ?Is \<Longrightarrow> NodeData (Heap G (?n i)) = i"
    and succ: "\<And>u. u \<in> ?Is \<Longrightarrow> set (successors_of (Heap G) (?n u)) = {?n d | d. d \<in> ?Is \<and> u \<in> set (uses F d)}"
    using inv by (auto simp: dfg_inv_def)
  have use: "d \<in> ?Is \<and> u \<in> set (uses F d) \<longleftrightarrow> InstructionValue d \<in> set (operands (instruction F u))" if "u \<in> ?Is" for u d
    using ok that operand_defined [OF ok that] by (auto simp: function_ok_def)
  have tf: "bl_transfer F (instruction F i) E = Some (bl_tf F G (?n i) E)" if "i \<in> ?Is" for i E
    using bl_tf(1) [OF ok inv, of "?n i" E] that data [OF that] by (simp add: nodes)
  have init: "mfp_init_value 0 Top (sink_nodes F G) (?n i) \<le> v (?n i) \<longleftrightarrow> (isDataFlowSink (instruction F i) \<longrightarrow> v (?n i) = Top)"
    if "i \<in> ?Is" for i
    using that data [OF that] by (simp add: mfp_init_value_def sink_nodes_def nodes Top_max)
  have "mfp_solution (BitLivenessAnalysis F G) (GraphTraits po G) (set (Nodes G)) (\<lambda>_. True) (bl_tf F G) (mfp_init_value 0 Top (sink_nodes F G)) v
      \<longleftrightarrow> (\<forall>u\<in>?Is. (isDataFlowSink (instruction F u) \<longrightarrow> v (?n u) = Top)
        \<and> (\<forall>d. InstructionValue d \<in> set (operands (instruction F u)) \<longrightarrow> bl_tf F G (?n u) (v (?n u)) \<le> v (?n d)))"
  proof -
    have "(\<forall>s\<in>set (successors_of (Heap G) (?n u)). bl_tf F G (?n u) (v (?n u)) \<le> v s)
        \<longleftrightarrow> (\<forall>d. InstructionValue d \<in> set (operands (instruction F u)) \<longrightarrow> bl_tf F G (?n u) (v (?n u)) \<le> v (?n d))"
      if "u \<in> ?Is" for u unfolding succ [OF that] use [OF that] by auto
    then show ?thesis unfolding mfp_solution_def nodes using init by (simp add: BitLivenessAnalysis_def GraphTraits_def)
  qed
  then show ?thesis using tf by (auto simp: live_bits_def sinks_live_def)
qed

lemma bit_liveness_solved:
  assumes ok: "function_ok F" and inv: "dfg_inv (instructions F) node {(u, d). d \<in> set (instructions F) \<and> u \<in> set (uses F d)} G"
    and po: "post_order_graph (GraphTraits po G)"
  shows "\<exists>R X' val. getMaximalFixedPoint (Some (BitLivenessAnalysis F G)) 0 ()
       \<lparr>Instance = None, Flow = GraphTraits po G, Bottom = None, ExtremalValue = Some Top,
        ExtremalLabels = Some (sink_nodes F G), EntryLabels = All, cfg_ExtraState = None\<rparr> = Some (R, X')
      \<and> (\<forall>l \<in> set (Nodes G). R l = Some \<lparr>InValue = val l, OutValue = bl_tf F G l (val l)\<rparr>)
      \<and> mfp_solution (BitLivenessAnalysis F G) (GraphTraits po G) (set (Nodes G)) (\<lambda>_. True) (bl_tf F G) (mfp_init_value 0 Top (sink_nodes F G)) val
      \<and> (\<forall>val'. mfp_solution (BitLivenessAnalysis F G) (GraphTraits po G) (set (Nodes G)) (\<lambda>_. True) (bl_tf F G) (mfp_init_value 0 Top (sink_nodes F G)) val'
           \<longrightarrow> (\<forall>l \<in> set (Nodes G). val l \<le> val' l))"
proof -
  have wf: "graph_wf G" using inv by (simp add: dfg_inv_def)
  have N: "set (Nodes G) = (edges (GraphTraits po G))\<^sup>* `` set (Nodes G)"
    using graph_wf_links(1) [OF wf] by (intro reachable_eq [symmetric]) (simp add: GraphTraits_def)
  let ?C = "\<lparr>Instance = Some (BitLivenessAnalysis F G), Flow = GraphTraits po G, Bottom = Some 0, ExtremalValue = Some Top,
      ExtremalLabels = Some (sink_nodes F G), EntryLabels = All, cfg_ExtraState = Some ()\<rparr>"
  have leq: "isLessOrEqual (BitLivenessAnalysis F G) = (\<lambda>LHS RHS. LHS \<le> RHS)" by (simp add: BitLivenessAnalysis_def)
  have solver: "mfp_solver (BitLivenessAnalysis F G) (\<lambda>_. True) (\<lambda>v. 2 ^ 32 - unat v) (GraphTraits po G) (set (Nodes G)) (bl_tf F G)"
    by (rule mfp_solver.intro [OF po bit_liveness_framework [OF ok inv]])
  have "\<exists>R X' val. getMaximalFixedPointImpl 0 ?C = Some (R, X')
      \<and> (\<forall>l \<in> set (Nodes G). R l = Some \<lparr>InValue = val l, OutValue = bl_tf F G l (val l)\<rparr>)
      \<and> mfp_solution (BitLivenessAnalysis F G) (GraphTraits po G) (set (Nodes G)) (\<lambda>_. True) (bl_tf F G) (mfp_init_value 0 Top (sink_nodes F G)) val
      \<and> (\<forall>val'. mfp_solution (BitLivenessAnalysis F G) (GraphTraits po G) (set (Nodes G)) (\<lambda>_. True) (bl_tf F G) (mfp_init_value 0 Top (sink_nodes F G)) val'
           \<longrightarrow> (\<forall>l \<in> set (Nodes G). isLessOrEqual (BitLivenessAnalysis F G) (val l) (val' l)))"
    by (rule mfp_solver.impl_least_solution [OF solver, where Es = "Nodes G" and X = "()", OF _ _ _ _ _ _ _ N])
      (simp_all add: ResolveEntryLabels_def GraphTraits_def)
  then show ?thesis unfolding leq by (simp add: getMaximalFixedPoint_def)
qed

lemma bit_liveness_run:
  assumes ok: "function_ok F" and po: "\<And>G. graph_wf G \<Longrightarrow> post_order_graph (GraphTraits (po G) G)"
  shows "\<exists>Res L. BitLivenessPass_run po F = Some Res \<and> live_bits F L \<and> sinks_live F L
    \<and> (\<forall>i\<in>set (instructions F). \<exists>R. Res i = Some \<lparr>Operands = R, Result = L i\<rparr> \<and> bl_transfer F (instruction F i) (L i) = Some R)
    \<and> (\<forall>L'. live_bits F L' \<and> sinks_live F L' \<longrightarrow> (\<forall>i\<in>set (instructions F). L i \<le> L' i))"
proof -
  obtain G node where G: "buildDataFlowGraph F = Some G"
    and inv: "dfg_inv (instructions F) node {(u, d). d \<in> set (instructions F) \<and> u \<in> set (uses F d)} G"
    using buildDataFlowGraph_correct [OF ok] by blast
  let ?Is = "set (instructions F)" and ?n = "\<lambda>i. the (node i)"
  have wf: "graph_wf G" and nodes: "set (Nodes G) = ?n ` ?Is" and data: "\<And>i. i \<in> ?Is \<Longrightarrow> NodeData (Heap G (?n i)) = i"
    using inv by (auto simp: dfg_inv_def)
  note sol = solution_live_bits [OF ok inv, of "po G"]
  obtain R X' val where R: "getMaximalFixedPoint (Some (BitLivenessAnalysis F G)) 0 ()
       \<lparr>Instance = None, Flow = GraphTraits (po G) G, Bottom = None, ExtremalValue = Some Top,
        ExtremalLabels = Some (sink_nodes F G), EntryLabels = All, cfg_ExtraState = None\<rparr> = Some (R, X')"
      "\<forall>l \<in> set (Nodes G). R l = Some \<lparr>InValue = val l, OutValue = bl_tf F G l (val l)\<rparr>"
      "live_bits F (\<lambda>i. val (?n i)) \<and> sinks_live F (\<lambda>i. val (?n i))"
      "\<And>val' l. live_bits F (\<lambda>i. val' (?n i)) \<and> sinks_live F (\<lambda>i. val' (?n i)) \<Longrightarrow> l \<in> set (Nodes G) \<Longrightarrow> val l \<le> val' l"
    using bit_liveness_solved [OF ok inv po [OF wf]] unfolding sol by blast
  define Res where "Res = collect_results G R (Nodes G) Map.empty"
  have "inj_on (\<lambda>n. NodeData (Heap G n)) (set (Nodes G))" using data by (auto simp: nodes inj_on_def)
  then have res: "Res i = Some \<lparr>Operands = bl_tf F G (?n i) (val (?n i)), Result = val (?n i)\<rparr>" if "i \<in> ?Is" for i
    using collect_results_correct [OF R(2), of G "?n i" Map.empty] that wf data [OF that] by (simp add: Res_def nodes graph_wf_def)
  have run: "BitLivenessPass_run po F = Some Res"
    using G R(1) graph_wf_verify [OF wf] by (simp add: BitLivenessPass_run_def Res_def sink_nodes_def)
  have tf: "bl_transfer F (instruction F i) E = Some (bl_tf F G (?n i) E)" if "i \<in> ?Is" for i E
    using bl_tf(1) [OF ok inv, of "?n i" E] that data [OF that] by (simp add: nodes)
  have least: "val (?n i) \<le> L' i" if L': "live_bits F L' \<and> sinks_live F L'" "i \<in> ?Is" for L' i
  proof -
    have "live_bits F (\<lambda>i. L' (NodeData (Heap G (?n i)))) \<and> sinks_live F (\<lambda>i. L' (NodeData (Heap G (?n i))))"
      using live_bits_cong [OF ok, of "\<lambda>i. L' (NodeData (Heap G (?n i)))" L'] L'(1) data by simp
    from R(4) [of "\<lambda>n. L' (NodeData (Heap G n))", OF this, of "?n i"] show ?thesis using L'(2) data by (simp add: nodes)
  qed
  show ?thesis using run R(3) res tf least by (intro exI [of _ Res] exI [of _ "\<lambda>i. val (?n i)"]) auto
qed

section \<open>The properties\<close>

text \<open>
  \<^bold>\<open>C9\<close>. On a well-formed function the analysis returns. Its result on each instruction is consistent:
  the live bits of the operands are those the transfer function gives for the live bits of the result,
  an operand that is an instruction has at least these bits live, all bits are live in the result of a
  sink; and it is the least assignment with these properties.
\<close>

theorem bit_liveness_least:
  assumes "function_ok F" "\<And>G. graph_wf G \<Longrightarrow> post_order_graph (GraphTraits (po G) G)"
  shows "\<exists>Res. BitLivenessPass_run po F = Some Res
    \<and> (\<forall>i\<in>set (instructions F). \<exists>E R. Res i = Some \<lparr>Operands = R, Result = E\<rparr> \<and> bl_transfer F (instruction F i) E = Some R)
    \<and> live_bits F (\<lambda>i. Result (the (Res i))) \<and> sinks_live F (\<lambda>i. Result (the (Res i)))
    \<and> (\<forall>L. live_bits F L \<and> sinks_live F L \<longrightarrow> (\<forall>i\<in>set (instructions F). Result (the (Res i)) \<le> L i))"
proof -
  obtain Res L where R: "BitLivenessPass_run po F = Some Res" "live_bits F L" "sinks_live F L"
    "\<forall>i\<in>set (instructions F). \<exists>R. Res i = Some \<lparr>Operands = R, Result = L i\<rparr> \<and> bl_transfer F (instruction F i) (L i) = Some R"
    "\<forall>L'. live_bits F L' \<and> sinks_live F L' \<longrightarrow> (\<forall>i\<in>set (instructions F). L i \<le> L' i)"
    using bit_liveness_run [where po = po, OF assms] by blast
  have "\<forall>i\<in>set (instructions F). Result (the (Res i)) = L i" using R(4) by force
  then show ?thesis using R live_bits_cong [OF assms(1), of "\<lambda>i. Result (the (Res i))" L] by (intro exI [of _ Res]) auto
qed


text \<open>For the witnesses: the sum of two 32-bit arguments, truncated to a byte, is returned.\<close>

definition add_trunc :: LLVM_Function where
  "add_trunc = \<lparr>instructions = [0, 1, 2],
     instruction = (\<lambda>i. if i = 0 then \<lparr>getOpcode = Add, mayHaveSideEffects = False, getType = IntegerTy 32,
                               operands = [OtherValue (IntegerTy 32) 0, OtherValue (IntegerTy 32) 1]\<rparr>
                        else if i = 1 then \<lparr>getOpcode = Trunc, mayHaveSideEffects = False, getType = IntegerTy 8,
                               operands = [InstructionValue 0]\<rparr>
                        else \<lparr>getOpcode = Ret, mayHaveSideEffects = False, getType = OtherTy 0, operands = [InstructionValue 1]\<rparr>),
     uses = (\<lambda>i. if i = 0 then [1] else if i = 1 then [2] else [])\<rparr>"

abbreviation dfs_iterator :: "(unit, nat) GenericGraph \<Rightarrow> ptr \<Rightarrow> ptr set \<Rightarrow> ptr list \<times> ptr set" where
  "dfs_iterator G \<equiv> dfs_po (Nodes G) (successors_of (Heap G))"

lemma add_trunc_simps [simp]:
  "instruction add_trunc 0 = \<lparr>getOpcode = Add, mayHaveSideEffects = False, getType = IntegerTy 32,
     operands = [OtherValue (IntegerTy 32) 0, OtherValue (IntegerTy 32) 1]\<rparr>"
  "instruction add_trunc (Suc 0) = \<lparr>getOpcode = Trunc, mayHaveSideEffects = False, getType = IntegerTy 8, operands = [InstructionValue 0]\<rparr>"
  "instruction add_trunc (Suc (Suc n)) = \<lparr>getOpcode = Ret, mayHaveSideEffects = False, getType = OtherTy 0, operands = [InstructionValue 1]\<rparr>"
  by (simp_all add: add_trunc_def)

lemma add_trunc_ok: "function_ok add_trunc"
  by (auto simp: function_ok_def instruction_ok_def add_trunc_def width_ok_def typed_def is_binary_def is_shift_def shift_ok_def opaque_def)

definition add_trunc_bits :: "nat \<Rightarrow> u32" where
  "add_trunc_bits i = (if i = 0 then 8 else Top)"

lemma add_trunc_bits: "live_bits add_trunc add_trunc_bits" "sinks_live add_trunc add_trunc_bits"
  by (auto simp: live_bits_def sinks_live_def add_trunc_def add_trunc_bits_def bl_transfer_def transferTrunc_def isDataFlowSink_def Top_def)

lemma at_most_8_bits: "v \<le> 8 \<Longrightarrow> unat v \<le> 8" for v :: u32
  by (simp add: word_le_nat_alt)

theorem bit_liveness_least_witness:
  "\<exists>Res r. BitLivenessPass_run dfs_iterator add_trunc = Some Res \<and> Res 0 = Some r \<and> Result r \<le> 8"
proof -
  from bit_liveness_least [where po = dfs_iterator, OF add_trunc_ok dfs_po_forward] obtain Res where
    "BitLivenessPass_run dfs_iterator add_trunc = Some Res" "\<forall>i\<in>set (instructions add_trunc). \<exists>E R. Res i = Some \<lparr>Operands = R, Result = E\<rparr>"
    "\<forall>L. live_bits add_trunc L \<and> sinks_live add_trunc L \<longrightarrow> (\<forall>i\<in>set (instructions add_trunc). Result (the (Res i)) \<le> L i)" by blast
  moreover from this(2) obtain E R where "Res 0 = Some \<lparr>Operands = R, Result = E\<rparr>" by (auto simp: add_trunc_def)
  moreover from calculation(3) have "Result (the (Res 0)) \<le> add_trunc_bits 0" using add_trunc_bits by (simp add: add_trunc_def)
  ultimately show ?thesis by (simp add: add_trunc_bits_def)
qed

text \<open>The execution computes the sum, truncates it and returns; the changed one drops the upper bits of the sum.\<close>

definition add_trunc_next :: "observation list \<Rightarrow> nat event" where
  "add_trunc_next h = (if length h < 3 then [length h \<mapsto> 0] else Map.empty)"

definition add_8_bits :: "nat \<Rightarrow> nat \<Rightarrow> (Ty \<times> int) list \<Rightarrow> int" where
  "add_8_bits i e vs = (if i = 0 then take_bit 8 (original int_eval add_trunc i e vs) else original int_eval add_trunc i e vs)"


end
