(* ===== verification/Type_Shrinking.thy ===== *)
theory Type_Shrinking
  imports Bit_Liveness_Analysis
begin

text \<open>
  The type shrinking pass (src/lib/TypeShrinking/TypeShrinking.cpp): instructions of which only few bits are
  live are computed at a smaller width. The pass rewrites LLVM IR; the value it builds in place of an
  instruction is an expression over the instruction's operands, which is evaluated with the parameter
  \<open>eval\<close>. Shown: executions do not change.
\<close>

section \<open>The values the pass builds\<close>

text \<open>
  \<^verbatim>\<open>IRBuilder\<close>: \<open>Operand k\<close> is an operand of the instruction that is replaced. \<open>ir_width\<close> is the width of the value;
  it is \<^term>\<open>None\<close> when an assertion of LLVM fires (a truncation to a wider type, an extension to a
  narrower one, operands of different types).
\<close>

datatype ir = Operand nat | CreateTrunc ir nat | CreateZExt ir nat | CreateBinOp Opcode ir ir
  | CreateSelect ir ir ir | CreatePHI "ir list"

fun ir_width :: "Ty list \<Rightarrow> ir \<Rightarrow> nat checked" and ir_widths :: "Ty list \<Rightarrow> ir list \<Rightarrow> nat list checked" where
  "ir_width ts (Operand k) = at ts k \<bind> getIntegerBitWidth"
| "ir_width ts (CreateTrunc V n) = do { w \<leftarrow> ir_width ts V; revng_assert (n \<le> w); Some n }"
| "ir_width ts (CreateZExt V n) = do { w \<leftarrow> ir_width ts V; revng_assert (w \<le> n); Some n }"
| "ir_width ts (CreateBinOp Op A B) = do {
     a \<leftarrow> ir_width ts A; b \<leftarrow> ir_width ts B; revng_assert (a = b); Some a }"
| "ir_width ts (CreateSelect C A B) = do {
     c \<leftarrow> ir_width ts C; a \<leftarrow> ir_width ts A; b \<leftarrow> ir_width ts B; revng_assert (c = 1 \<and> a = b); Some a }"
| "ir_width ts (CreatePHI Vs) = do {
     ws \<leftarrow> ir_widths ts Vs;
     case ws of [] \<Rightarrow> None | w # _ \<Rightarrow> do { revng_assert (\<forall>v\<in>set ws. v = w); Some w } }"
| "ir_widths ts [] = Some []"
| "ir_widths ts (V # Vs) = do { w \<leftarrow> ir_width ts V; ws \<leftarrow> ir_widths ts Vs; Some (w # ws) }"

text \<open>The builder returns the value itself when a cast does not change its type.\<close>

fun eval_ir :: "('e \<Rightarrow> Opcode \<Rightarrow> Ty \<Rightarrow> (Ty \<times> int) list \<Rightarrow> int) \<Rightarrow> 'e \<Rightarrow> (Ty \<times> int) list \<Rightarrow> ir \<Rightarrow> int" where
  "eval_ir eval e vs (Operand k) = snd (vs ! k)"
| "eval_ir eval e vs (CreateTrunc V n) =
     (let w = the (ir_width (map fst vs) V)
      in if n = w then eval_ir eval e vs V else eval e Trunc (IntegerTy n) [(IntegerTy w, eval_ir eval e vs V)])"
| "eval_ir eval e vs (CreateZExt V n) =
     (let w = the (ir_width (map fst vs) V)
      in if n = w then eval_ir eval e vs V else eval e ZExt (IntegerTy n) [(IntegerTy w, eval_ir eval e vs V)])"
| "eval_ir eval e vs (CreateBinOp Op A B) =
     (let w = the (ir_width (map fst vs) A)
      in eval e Op (IntegerTy w) [(IntegerTy w, eval_ir eval e vs A), (IntegerTy w, eval_ir eval e vs B)])"
| "eval_ir eval e vs (CreateSelect C A B) =
     (let w = the (ir_width (map fst vs) A)
      in eval e Select (IntegerTy w)
           [(IntegerTy 1, eval_ir eval e vs C), (IntegerTy w, eval_ir eval e vs A), (IntegerTy w, eval_ir eval e vs B)])"
| "eval_ir eval e vs (CreatePHI Vs) =
     (let w = the (ir_width (map fst vs) (CreatePHI Vs))
      in eval e PHI (IntegerTy w) (map (\<lambda>V. (IntegerTy w, eval_ir eval e vs V)) Vs))"

section \<open>Shrinking an instruction\<close>

definition isBitwise :: "Instruction \<Rightarrow> bool" where
  "isBitwise Ins = (case getOpcode Ins of And \<Rightarrow> True | Xor \<Rightarrow> True | Or \<Rightarrow> True | _ \<Rightarrow> False)"

definition isAddLike :: "Instruction \<Rightarrow> bool" where
  "isAddLike Ins = (case getOpcode Ins of
     Add \<Rightarrow> True | Sub \<Rightarrow> True | Mul \<Rightarrow> True | Shl \<Rightarrow> True | Select \<Rightarrow> True | PHI \<Rightarrow> True | _ \<Rightarrow> False)"

text \<open>\<^verbatim>\<open>llvm::lower_bound(Ranks, Size)\<close>, or the old size.\<close>

definition closest_rank :: "u32 \<Rightarrow> u32 \<Rightarrow> u32" where
  "closest_rank Size OldSize =
     (case List.find (\<lambda>Rank. \<not> Rank < Size) [8, 16, 32, 64] of None \<Rightarrow> OldSize | Some Rank \<Rightarrow> Rank)"

definition Shrink :: "u32 \<Rightarrow> u32 \<Rightarrow> nat \<Rightarrow> ir" where
  "Shrink NewOperandsSize NewResultSize k = CreateZExt (CreateTrunc (Operand k) (unat NewOperandsSize)) (unat NewResultSize)"

text \<open>
  The value built for an instruction. In a PHI the incoming value of a block that is listed twice is
  built once; LLVM has the same value on both edges.
\<close>

definition shrunk_value :: "Instruction \<Rightarrow> u32 \<Rightarrow> u32 \<Rightarrow> ir" where
  "shrunk_value I NewOperandsSize NewResultSize =
     (let S = Shrink NewOperandsSize NewResultSize in
      if getOpcode I = PHI then CreatePHI (map S [0..<length (operands I)])
      else if getOpcode I = Select then CreateSelect (Operand 0) (S 1) (S 2)
      else CreateBinOp (getOpcode I) (S 0) (S 1))"

text \<open>
  The body of the loop of \<^verbatim>\<open>runTypeShrinking\<close>: what the uses of \<open>I\<close> are given instead of it, the late
  extension of the new value to the old type; \<^term>\<open>None\<close> when \<open>I\<close> is left alone.
\<close>

definition shrink_instruction :: "u32 \<Rightarrow> Instruction \<Rightarrow> InstructionResults \<Rightarrow> ir option" where
  "shrink_instruction MinimumWidth I R =
     (case getType I of
        OtherTy _ \<Rightarrow> None
      | IntegerTy w \<Rightarrow>
          if \<not> (isBitwise I \<or> isAddLike I) then None
          else
            let OldSize = word_of_nat w;
                NewOperandsSize = closest_rank (max MinimumWidth (Operands R)) OldSize;
                NewResultSize = (if isBitwise I then NewOperandsSize else closest_rank (max MinimumWidth (Result R)) OldSize)
            in if \<not> NewOperandsSize < OldSize then None
               else if getOpcode I = Shl \<and>
                 (case at (operands I) 1 of Some (ConstantInt _ Amount) \<Rightarrow> int (unat NewResultSize) \<le> Amount | _ \<Rightarrow> True)
               then None
               else Some (CreateZExt (shrunk_value I NewOperandsSize NewResultSize) w))"

text \<open>
  The first loop of the pass, over the results of the analysis. A use of a replaced instruction sees a
  value of the same type, so the iterations do not depend on each other. The second loop applies
  \<open>shrinkCompare\<close>, below, to the comparisons of the function the first loop leaves.
\<close>

definition runTypeShrinking :: "u32 \<Rightarrow> LLVM_Function \<Rightarrow> (nat \<rightharpoonup> InstructionResults) \<Rightarrow> (nat \<rightharpoonup> ir)" where
  "runTypeShrinking MinimumWidth F FixedPoints =
     (\<lambda>i. case FixedPoints i of None \<Rightarrow> None | Some R \<Rightarrow> shrink_instruction MinimumWidth (instruction F i) R)"

text \<open>What the instructions of the function compute after the pass, and that LLVM accepts the new values.\<close>

definition shrunk ::
  "('e \<Rightarrow> Opcode \<Rightarrow> Ty \<Rightarrow> (Ty \<times> int) list \<Rightarrow> int) \<Rightarrow> LLVM_Function \<Rightarrow> (nat \<rightharpoonup> ir) \<Rightarrow> nat \<Rightarrow> 'e \<Rightarrow> (Ty \<times> int) list \<Rightarrow> int" where
  "shrunk eval F Changes i e vs =
     (case Changes i of None \<Rightarrow> original eval F i e vs | Some V \<Rightarrow> eval_ir eval e vs V)"

definition builder_accepts :: "LLVM_Function \<Rightarrow> (nat \<rightharpoonup> ir) \<Rightarrow> bool" where
  "builder_accepts F Changes \<longleftrightarrow> (\<forall>i\<in>set (instructions F). \<forall>V. Changes i = Some V \<longrightarrow>
     ir_width (map (value_type F) (operands (instruction F i))) V \<noteq> None)"

section \<open>The new value keeps the live bits\<close>

lemma closest_rank_cases:
  "closest_rank s w = w \<or> s \<le> closest_rank s w \<and> closest_rank s w \<in> {8, 16, 32, 64}"
  by (cases "s \<le> 8"; cases "s \<le> 16"; cases "s \<le> 32"; cases "s \<le> 64") (simp_all add: closest_rank_def not_less)

lemma Shrink_width:
  assumes "at ts k = Some (IntegerTy w)" "unat N \<le> w" "unat N \<le> unat R"
  shows "ir_width ts (Shrink N R k) = Some (unat R)"
  using assms by (simp add: Shrink_def)

lemma Shrink_width_None: "\<not> unat N \<le> unat R \<Longrightarrow> ir_width ts (Shrink N R k) = None"
  by (cases "at ts k \<bind> getIntegerBitWidth") (simp_all add: Shrink_def revng_assert_bind)

lemma agree_shrunk:
  assumes "r \<le> w" "\<And>i. i < E \<Longrightarrow> i < w \<Longrightarrow> bit x i \<longleftrightarrow> i < r \<and> bit y i"
  shows "agree (IntegerTy w) E (take_bit w x) (take_bit r y)"
proof -
  have "bit (take_bit w x) i \<longleftrightarrow> bit (take_bit r y) i" if "i < E" for i
    using assms that by (cases "i < w") (auto simp: bit_take_bit_iff)
  moreover have "bit (take_bit w x) i \<longleftrightarrow> bit (take_bit r y) i" if "w \<le> E" for i
    using assms that by (cases "i < w") (auto simp: bit_take_bit_iff)
  ultimately show ?thesis unfolding agree.simps take_bit_eq_bits by (auto intro: bit_eqI)
qed

context llvm_semantics
begin

lemma eval_Shrink:
  assumes "k < length vs" "fst (vs ! k) = IntegerTy w" "unat N < w" "unat N \<le> unat R"
  shows "eval_ir eval e vs (Shrink N R k) = take_bit (unat N) (snd (vs ! k))"
proof -
  have "ir_width (map fst vs) (Operand k) = Some w" using assms by (simp add: at_def)
  then have "eval_ir eval e vs (CreateTrunc (Operand k) (unat N)) = take_bit (unat N) (snd (vs ! k))"
    "ir_width (map fst vs) (CreateTrunc (Operand k) (unat N)) = Some (unat N)"
    using assms by (simp_all add: eval_trunc)
  then show ?thesis using assms(4) unfolding Shrink_def eval_ir.simps(3) Let_def
    by (simp del: eval_ir.simps ir_width.simps add: eval_zext min_def)
qed

lemma eval_late_zext:
  assumes "ir_width (map fst vs) V = Some r" "r \<le> w" "take_bit r (eval_ir eval e vs V) = eval_ir eval e vs V"
  shows "eval_ir eval e vs (CreateZExt V w) = eval_ir eval e vs V"
  using assms by (simp add: eval_zext) (metis min.absorb2 take_bit_take_bit)

lemma shrunk_binary:
  assumes types: "vs = [(IntegerTy w, a), (IntegerTy w, b)]" and N: "unat N < w"
    and ok: "ir_width (map fst vs) (CreateZExt (CreateBinOp Op (Shrink N R 0) (Shrink N R 1)) w) \<noteq> None"
  shows "unat N \<le> unat R" "unat R \<le> w"
    "take_bit (unat R) (eval e Op (IntegerTy (unat R)) [(IntegerTy (unat R), take_bit (unat N) a), (IntegerTy (unat R), take_bit (unat N) b)])
       = eval e Op (IntegerTy (unat R)) [(IntegerTy (unat R), take_bit (unat N) a), (IntegerTy (unat R), take_bit (unat N) b)] \<Longrightarrow>
     eval_ir eval e vs (CreateZExt (CreateBinOp Op (Shrink N R 0) (Shrink N R 1)) w)
       = eval e Op (IntegerTy (unat R)) [(IntegerTy (unat R), take_bit (unat N) a), (IntegerTy (unat R), take_bit (unat N) b)]"
proof -
  show le: "unat N \<le> unat R"
    using ok Shrink_width_None [of N R "map fst vs" 0] by (cases "unat N \<le> unat R") auto
  have width: "ir_width (map fst vs) (Shrink N R k) = Some (unat R)" if "k < 2" for k
    by (rule Shrink_width [of _ _ w]) (use types N le that in \<open>auto simp: at_def less_2_cases_iff\<close>)
  then have bin: "ir_width (map fst vs) (CreateBinOp Op (Shrink N R 0) (Shrink N R 1)) = Some (unat R)" by simp
  then show w: "unat R \<le> w" using ok by (auto simp: revng_assert_bind split: if_splits)
  have "eval_ir eval e vs (Shrink N R 0) = take_bit (unat N) a" "eval_ir eval e vs (Shrink N R 1) = take_bit (unat N) b"
    using eval_Shrink [of 0 vs w N R] eval_Shrink [of 1 vs w N R] types N le by simp_all
  then have v: "eval_ir eval e vs (CreateBinOp Op (Shrink N R 0) (Shrink N R 1))
      = eval e Op (IntegerTy (unat R)) [(IntegerTy (unat R), take_bit (unat N) a), (IntegerTy (unat R), take_bit (unat N) b)]"
    using width [of 0] by (simp add: Let_def)
  assume "take_bit (unat R) (eval e Op (IntegerTy (unat R)) [(IntegerTy (unat R), take_bit (unat N) a), (IntegerTy (unat R), take_bit (unat N) b)])
       = eval e Op (IntegerTy (unat R)) [(IntegerTy (unat R), take_bit (unat N) a), (IntegerTy (unat R), take_bit (unat N) b)]"
  then show "eval_ir eval e vs (CreateZExt (CreateBinOp Op (Shrink N R 0) (Shrink N R 1)) w)
       = eval e Op (IntegerTy (unat R)) [(IntegerTy (unat R), take_bit (unat N) a), (IntegerTy (unat R), take_bit (unat N) b)]"
    using eval_late_zext [OF bin w, of e] v by simp
qed

end

lemma shrink_instruction_Some:
  assumes S: "shrink_instruction MinimumWidth I \<lparr>Operands = R, Result = E\<rparr> = Some V" and w: "width_ok (getType I)"
  obtains w N M where "getType I = IntegerTy w" "isBitwise I \<or> isAddLike I" "V = CreateZExt (shrunk_value I N M) w"
    "unat N < w" "unat R \<le> unat N" "8 \<le> unat N" "isBitwise I \<Longrightarrow> M = N" "\<not> isBitwise I \<Longrightarrow> unat M = w \<or> unat E \<le> unat M"
    "getOpcode I = Shl \<Longrightarrow> \<exists>u c. at (operands I) 1 = Some (ConstantInt u c) \<and> c < int (unat M)"
proof -
  obtain w where t: "getType I = IntegerTy w" using S by (cases "getType I") (simp_all add: shrink_instruction_def)
  have u: "unat (word_of_nat w :: u32) = w" using w t by (intro unat_width) (simp add: width_ok_def)
  define N where "N = closest_rank (max MinimumWidth R) (word_of_nat w)"
  define M where "M = (if isBitwise I then N else closest_rank (max MinimumWidth E) (word_of_nat w))"
  have b: "isBitwise I \<or> isAddLike I" using S t by (simp add: shrink_instruction_def split: if_splits)
  have s: "N < word_of_nat w" "V = CreateZExt (shrunk_value I N M) w"
      "\<not> (getOpcode I = Shl \<and> (case at (operands I) 1 of Some (ConstantInt _ Amount) \<Rightarrow> int (unat M) \<le> Amount | _ \<Rightarrow> True))"
    using S t b unfolding shrink_instruction_def
    by (simp_all only: Let_def Ty.case InstructionResults.simps N_def [symmetric] M_def [symmetric] split: if_splits) simp_all
  have "max MinimumWidth R \<le> N" "N \<in> {8, 16, 32, 64}"
    using closest_rank_cases [of "max MinimumWidth R" "word_of_nat w"] s(1) by (auto simp: N_def)
  then have N: "unat R \<le> unat N" "8 \<le> unat N" by (auto simp: word_le_nat_alt unat_max)
  have M: "unat M = w \<or> unat E \<le> unat M" if "\<not> isBitwise I"
    using closest_rank_cases [of "max MinimumWidth E" "word_of_nat w"] that u by (auto simp: M_def word_le_nat_alt unat_max)
  show ?thesis
  proof (rule that [OF t b s(2) _ N])
    show "unat N < w" using s(1) u by (simp add: word_less_nat_alt)
    show "M = N" if "isBitwise I" using that by (simp add: M_def)
    show "unat M = w \<or> unat E \<le> unat M" if "\<not> isBitwise I" using M that .
    show "\<exists>u c. at (operands I) 1 = Some (ConstantInt u c) \<and> c < int (unat M)" if "getOpcode I = Shl"
      using s(3) that by (auto split: option.splits Value.splits)
  qed
qed

lemma min_size_cases:
  assumes "instruction_ok F I" "v \<in> set (operands I)" "value_type F v = IntegerTy w" "unat (min E (getMaxOperandSize F I)) < w"
  shows "unat (min E (getMaxOperandSize F I)) = unat E"
  using assms instruction_ok_fits [OF assms(1)] by (auto simp: fits_def unat_min min_def split: if_splits)

context llvm_semantics
begin

text \<open>The sum, difference and product, the exclusive and the inclusive or.\<close>

lemma shrunk_low_bits:
  assumes op: "Op \<in> {Xor, Or, Add, Sub, Mul}" and vs: "vs = [(IntegerTy w, a), (IntegerTy w, b)]"
    and E: "unat E \<le> unat N" "unat N < w"
    and ok: "ir_width (map fst vs) (CreateZExt (CreateBinOp Op (Shrink N M 0) (Shrink N M 1)) w) \<noteq> None"
  shows "agree (IntegerTy w) (unat E) (eval e Op (IntegerTy w) vs) (eval_ir eval e vs (CreateZExt (CreateBinOp Op (Shrink N M 0) (Shrink N M 1)) w))"
proof -
  note sb = shrunk_binary [OF vs E(2) ok]
  define f :: "int \<Rightarrow> int \<Rightarrow> int" where
    "f = (if Op = Xor then (XOR) else if Op = Or then (OR) else if Op = Add then (+) else if Op = Sub then (-) else (*))"
  have ev: "eval e Op (IntegerTy m) [(s, x), (t, y)] = take_bit m (f x y)" for m s t x y
    using op by (auto simp: f_def eval_xor eval_or eval_add eval_sub eval_mul)
  have low: "take_bit n (f x y) = take_bit n (f x' y')" if "take_bit n x = take_bit n x'" "take_bit n y = take_bit n y'" for n x y x' y'
    using low_bits_eq [OF that] by (simp add: f_def)
  have "take_bit (unat N) (f a b) = take_bit (unat N) (f (take_bit (unat N) a) (take_bit (unat N) b))" by (rule low) simp_all
  then have bits: "bit (f a b) i \<longleftrightarrow> bit (f (take_bit (unat N) a) (take_bit (unat N) b)) i" if "i < unat N" for i
    using that unfolding take_bit_eq_bits by blast
  have "eval_ir eval e vs (CreateZExt (CreateBinOp Op (Shrink N M 0) (Shrink N M 1)) w)
      = take_bit (unat M) (f (take_bit (unat N) a) (take_bit (unat N) b))"
    using sb(3) [of e, unfolded ev] by (simp del: eval_ir.simps)
  then show ?thesis unfolding vs ev using sb(1,2) E bits by (simp only:) (intro agree_shrunk, simp_all)
qed

lemma shrunk_and:
  assumes vs: "vs = [(IntegerTy w, a), (IntegerTy w, b)]" and N: "unat N < w"
    and zero: "\<And>i. unat N \<le> i \<Longrightarrow> i < unat E \<Longrightarrow> i < w \<Longrightarrow> \<not> bit a i \<or> \<not> bit b i"
    and ok: "ir_width (map fst vs) (CreateZExt (CreateBinOp And (Shrink N N 0) (Shrink N N 1)) w) \<noteq> None"
  shows "agree (IntegerTy w) (unat E) (eval e And (IntegerTy w) vs) (eval_ir eval e vs (CreateZExt (CreateBinOp And (Shrink N N 0) (Shrink N N 1)) w))"
proof -
  note sb = shrunk_binary [OF vs N ok]
  have "eval_ir eval e vs (CreateZExt (CreateBinOp And (Shrink N N 0) (Shrink N N 1)) w)
      = take_bit (unat N) (take_bit (unat N) a AND take_bit (unat N) b)"
    using sb(3) unfolding eval_and by simp
  moreover have "agree (IntegerTy w) (unat E) (take_bit w (a AND b)) (take_bit (unat N) (take_bit (unat N) a AND take_bit (unat N) b))"
  proof (rule agree_shrunk)
    show "bit (a AND b) i \<longleftrightarrow> i < unat N \<and> bit (take_bit (unat N) a AND take_bit (unat N) b) i" if "i < unat E" "i < w" for i
      using zero [of i] that by (cases "i < unat N") (auto simp: bit_and_iff bit_take_bit_iff)
  qed (use N in simp)
  ultimately show ?thesis unfolding vs eval_and by simp
qed

lemma shrunk_shl:
  assumes vs: "vs = [(IntegerTy w, a), (IntegerTy w, c)]" and c: "0 \<le> c" "c < int (unat M)" "c < int w" "take_bit (unat N) c = c"
    and N: "unat N < w" "unat E - nat c \<le> unat N" "unat M = w \<or> unat E \<le> unat M"
    and ok: "ir_width (map fst vs) (CreateZExt (CreateBinOp Shl (Shrink N M 0) (Shrink N M 1)) w) \<noteq> None"
  shows "agree (IntegerTy w) (unat E) (eval e Shl (IntegerTy w) vs) (eval_ir eval e vs (CreateZExt (CreateBinOp Shl (Shrink N M 0) (Shrink N M 1)) w))"
proof -
  note sb = shrunk_binary [OF vs N(1) ok]
  have "eval_ir eval e vs (CreateZExt (CreateBinOp Shl (Shrink N M 0) (Shrink N M 1)) w)
      = take_bit (unat M) (push_bit (nat c) (take_bit (unat N) a))"
    using sb(3) unfolding c(4) eval_shl [OF c(1,2)] by simp
  moreover have "agree (IntegerTy w) (unat E) (take_bit w (push_bit (nat c) a)) (take_bit (unat M) (push_bit (nat c) (take_bit (unat N) a)))"
  proof (rule agree_shrunk)
    show "bit (push_bit (nat c) a) i \<longleftrightarrow> i < unat M \<and> bit (push_bit (nat c) (take_bit (unat N) a)) i" if "i < unat E" "i < w" for i
      using N(2,3) that by (auto simp: bit_push_bit_iff bit_take_bit_iff)
  qed (use sb in simp)
  ultimately show ?thesis unfolding vs eval_shl [OF c(1,3)] by simp
qed

end

lemma agree_take_bit_low: "E \<le> n \<Longrightarrow> n < w \<Longrightarrow> agree (IntegerTy w) E a (take_bit n a)"
  by (simp add: min_def)

lemma ir_widths_Shrink:
  assumes "\<forall>k\<in>set ks. at ts k = Some (IntegerTy w)" "unat N \<le> w" "unat N \<le> unat M"
  shows "ir_widths ts (map (Shrink N M) ks) = Some (replicate (length ks) (unat M))"
  using assms(1)
proof (induction ks)
  case (Cons k ks)
  then show ?case using Shrink_width [of ts k w N M] assms(2,3) by simp
qed simp

context llvm_semantics
begin

lemma shrunk_phi:
  assumes vs: "vs \<noteq> []" "\<forall>v\<in>set vs. fst v = IntegerTy w" and E: "unat E \<le> unat N" "unat N < w"
    and ok: "ir_width (map fst vs) (CreateZExt (CreatePHI (map (Shrink N M) [0..<length vs])) w) \<noteq> None"
  shows "agree (IntegerTy w) (unat E) (eval e PHI (IntegerTy w) vs)
    (eval_ir eval e vs (CreateZExt (CreatePHI (map (Shrink N M) [0..<length vs])) w))"
proof -
  let ?V = "CreatePHI (map (Shrink N M) [0..<length vs])"
  have le: "unat N \<le> unat M"
    using ok Shrink_width_None [of N M "map fst vs" 0] vs(1) by (cases "unat N \<le> unat M"; cases "length vs") (auto simp: upt_conv_Cons simp del: upt_Suc)
  have "ir_widths (map fst vs) (map (Shrink N M) [0..<length vs]) = Some (replicate (length [0..<length vs]) (unat M))"
    by (rule ir_widths_Shrink [of _ _ w]) (use vs E(2) le in \<open>auto simp: at_def\<close>)
  moreover obtain n where "length vs = Suc n" using vs(1) by (cases vs) simp_all
  ultimately have width: "ir_width (map fst vs) ?V = Some (unat M)" by (simp del: upt_Suc)
  then have M: "unat M \<le> w" using ok by (auto simp: revng_assert_bind split: if_splits)
  obtain k where k: "k < length vs" "\<And>t xs. length xs = length vs \<Longrightarrow> eval e PHI t xs = snd (xs ! k)"
    using eval_phi [of "length vs" e] vs(1) by auto
  have "eval_ir eval e vs ?V = eval e PHI (IntegerTy (unat M)) (map (\<lambda>V. (IntegerTy (unat M), eval_ir eval e vs V)) (map (Shrink N M) [0..<length vs]))"
    unfolding eval_ir.simps(6) width Let_def by simp
  also have "\<dots> = eval_ir eval e vs (Shrink N M k)" using k by simp
  also have "\<dots> = take_bit (unat N) (snd (vs ! k))" using eval_Shrink [of k vs w N M] k(1) vs(2) E(2) le by simp
  finally have v: "eval_ir eval e vs ?V = take_bit (unat N) (snd (vs ! k))" .
  have "eval_ir eval e vs (CreateZExt ?V w) = eval_ir eval e vs ?V"
    by (rule eval_late_zext [OF width M]) (use v le in \<open>simp add: min_def\<close>)
  then show ?thesis unfolding v k(2) [OF refl] using agree_take_bit_low [OF E] by simp
qed

lemma shrunk_select:
  assumes vs: "vs = [(IntegerTy 1, c), (IntegerTy w, a), (IntegerTy w, b)]" and E: "unat E \<le> unat N" "unat N < w"
    and ok: "ir_width (map fst vs) (CreateZExt (CreateSelect (Operand 0) (Shrink N M 1) (Shrink N M 2)) w) \<noteq> None"
  shows "agree (IntegerTy w) (unat E) (eval e Select (IntegerTy w) vs)
    (eval_ir eval e vs (CreateZExt (CreateSelect (Operand 0) (Shrink N M 1) (Shrink N M 2)) w))"
proof -
  let ?V = "CreateSelect (Operand 0) (Shrink N M 1) (Shrink N M 2)"
  have le: "unat N \<le> unat M"
    using ok Shrink_width_None [of N M "map fst vs" 1] vs by (cases "unat N \<le> unat M") (auto simp: at_def)
  have "ir_width (map fst vs) (Shrink N M k) = Some (unat M)" if "k = 1 \<or> k = 2" for k
    by (rule Shrink_width [of _ _ w]) (use vs E(2) le that in \<open>auto simp: at_def\<close>)
  note w12 = this [of 1] this [of 2]
  then have width: "ir_width (map fst vs) ?V = Some (unat M)" using vs by (simp add: at_def)
  then have M: "unat M \<le> w" using ok by (auto simp: revng_assert_bind split: if_splits)
  have "eval_ir eval e vs (Shrink N M 1) = take_bit (unat N) a" "eval_ir eval e vs (Shrink N M 2) = take_bit (unat N) b"
    using eval_Shrink [of 1 vs w N M] eval_Shrink [of 2 vs w N M] vs E(2) le by simp_all
  then have v: "eval_ir eval e vs ?V = (if c = 1 then take_bit (unat N) a else take_bit (unat N) b)"
    unfolding eval_ir.simps(5) Let_def using w12 vs by (simp add: eval_select [unfolded One_nat_def])
  have z: "eval_ir eval e vs (CreateZExt ?V w) = eval_ir eval e vs ?V"
    by (rule eval_late_zext [OF width M]) (use v le in \<open>simp add: min_def\<close>)
  have "eval e Select (IntegerTy w) vs = (if c = 1 then a else b)" unfolding vs by (rule eval_select)
  then show ?thesis unfolding z v using agree_take_bit_low [OF E] by (simp del: agree.simps)
qed

end

lemma and_dead_bits:
  assumes ok: "value_ok x" "value_ok y" "width_ok (IntegerTy w)" and types: "value_type F x = IntegerTy w" "value_type F y = IntegerTy w"
    and known: "\<forall>u c. x = ConstantInt u c \<longrightarrow> a = c" "\<forall>u c. y = ConstantInt u c \<longrightarrow> b = c"
    and i: "unat (transferAnd_loop [x, y] E E) \<le> i" "i < unat E" "i < w"
  shows "\<not> bit a i \<or> \<not> bit b i"
proof -
  obtain u c where c: "ConstantInt u c = x \<or> ConstantInt u c = y" "unat (word_of_nat (u - countLeadingZeros u c) :: u32) \<le> i"
    using transferAnd_loop_cases [of "[x, y]" E E i] i(1,2) by auto
  have u: "u = w" using c(1) types by auto
  have "w - countLeadingZeros w c \<le> 2 ^ 23" using ok(3) by (auto simp: width_ok_def)
  then have "w - countLeadingZeros w c \<le> i" using c(2) unat_width [of "w - countLeadingZeros w c"] u by simp
  then have "\<not> bit c i" using clz_bits [of i w c] i by simp
  then show ?thesis using c(1) known by auto
qed

lemma args_types: "args_agree F E ops vs vs' \<Longrightarrow> map fst vs = map (value_type F) ops"
  by (induction ops arbitrary: vs vs') auto

context llvm_semantics
begin

text \<open>One lemma per kind of instruction; \<open>N\<close> and \<open>M\<close> are the new sizes of the operands and of the result.\<close>

lemma shrink_and:
  assumes ok: "instruction_ok F I" and T: "bl_transfer F I E = Some R" and args: "args_agree F 0 (operands I) vs vs"
    and op: "getOpcode I = And" and t: "getType I = IntegerTy w" and N: "unat N < w" "unat R \<le> unat N"
    and W: "ir_width (map fst vs) (CreateZExt (shrunk_value I N N) w) \<noteq> None"
  shows "agree (IntegerTy w) (unat E) (eval e And (IntegerTy w) vs) (eval_ir eval e vs (CreateZExt (shrunk_value I N N) w))"
proof -
  have bin: "is_binary (getOpcode I)" using op by (simp add: is_binary_def)
  from binary_operands [OF ok bin] obtain x y where xy: "operands I = [x, y]" "value_type F x = getType I"
    "value_type F y = getType I" "value_ok x" "value_ok y" by blast
  obtain a c where v: "vs = [(IntegerTy w, a), (IntegerTy w, c)]" "\<forall>u k. x = ConstantInt u k \<longrightarrow> a = k" "\<forall>u k. y = ConstantInt u k \<longrightarrow> c = k"
    using args xy t by auto
  have R: "R = transferAnd_loop [x, y] E E" using T op xy by (simp add: bl_transfer_def transferAnd_def)
  have V: "shrunk_value I N N = CreateBinOp And (Shrink N N 0) (Shrink N N 1)" using op by (simp add: shrunk_value_def Let_def)
  have "\<not> bit a i \<or> \<not> bit c i" if "unat N \<le> i" "i < unat E" "i < w" for i
    using and_dead_bits [OF xy(4,5) instruction_okD(1) [OF ok, unfolded t] xy(2,3) [unfolded t] v(2,3), of E i] R N(2) that by simp
  then show ?thesis unfolding V using W [unfolded V] by (intro shrunk_and [OF v(1) N(1)]) simp_all
qed

lemma shrink_add_like:
  assumes ok: "instruction_ok F I" and args: "args_agree F 0 (operands I) vs vs"
    and op: "getOpcode I \<in> {Xor, Or, Add, Sub, Mul}" and t: "getType I = IntegerTy w" and N: "unat N < w"
    and E: "\<And>v. v \<in> set (operands I) \<Longrightarrow> value_type F v = IntegerTy w \<Longrightarrow> unat E \<le> unat N"
    and W: "ir_width (map fst vs) (CreateZExt (shrunk_value I N M) w) \<noteq> None"
  shows "agree (IntegerTy w) (unat E) (eval e (getOpcode I) (IntegerTy w) vs) (eval_ir eval e vs (CreateZExt (shrunk_value I N M) w))"
proof -
  have bin: "is_binary (getOpcode I)" using op by (auto simp: is_binary_def)
  from binary_operands [OF ok bin] obtain x y where xy: "operands I = [x, y]" "value_type F x = getType I" "value_type F y = getType I"
    by blast
  obtain a c where v: "vs = [(IntegerTy w, a), (IntegerTy w, c)]" using args xy t by auto
  have V: "shrunk_value I N M = CreateBinOp (getOpcode I) (Shrink N M 0) (Shrink N M 1)" using op by (auto simp: shrunk_value_def Let_def)
  show ?thesis unfolding V by (rule shrunk_low_bits [OF op v E [of x] N W [unfolded V]]) (use xy t in simp_all)
qed

lemma shrink_shl:
  assumes ok: "instruction_ok F I" and T: "bl_transfer F I E = Some R" and args: "args_agree F 0 (operands I) vs vs"
    and op: "getOpcode I = Shl" and t: "getType I = IntegerTy w" and N: "unat N < w" "unat R \<le> unat N" "8 \<le> unat N"
    and M: "unat M = w \<or> unat E \<le> unat M" and c: "at (operands I) 1 = Some (ConstantInt u c)" "c < int (unat M)" and narrow: "w \<le> 256"
    and W: "ir_width (map fst vs) (CreateZExt (shrunk_value I N M) w) \<noteq> None"
  shows "agree (IntegerTy w) (unat E) (eval e Shl (IntegerTy w) vs) (eval_ir eval e vs (CreateZExt (shrunk_value I N M) w))"
proof -
  have sh: "is_shift (getOpcode I)" using op by (simp add: is_shift_def)
  show ?thesis
  proof (cases rule: shift_operands [OF ok sh, case_names var const])
    case (var x y)
    then show ?thesis using c(1) by (simp add: at_def)
  next
    case (const x w' c')
    then have eq: "w' = w" "c' = c" using t c(1) by (simp_all add: at_def)
    obtain a where v: "vs = [(IntegerTy w, a), (IntegerTy w, c)]" using args const eq by auto
    have "R = (if ucast E < (word_of_int c :: u64) then 0 else ucast (ucast E - (word_of_int c :: u64)))"
      using T op const eq by (simp add: bl_transfer_def transferShiftLeft_def at_def)
    then have R: "unat R = unat E - nat c" using unat_shl [of E "word_of_int c"] const(8) eq by simp
    have "c < 256" using const(5) eq narrow by simp
    also have "(256 :: int) \<le> 2 ^ unat N" using power_increasing [OF N(3), of "2 :: int"] by simp
    finally have small: "take_bit (unat N) c = c" using const(4) eq by (simp add: take_bit_int_eq_self)
    have V: "shrunk_value I N M = CreateBinOp Shl (Shrink N M 0) (Shrink N M 1)" using op by (simp add: shrunk_value_def Let_def)
    show ?thesis unfolding V
      by (rule shrunk_shl [OF v _ c(2) _ small N(1) _ M W [unfolded V]]) (use const eq R N(2) in simp_all)
  qed
qed

lemma shrink_phi:
  assumes ok: "instruction_ok F I" and args: "args_agree F 0 (operands I) vs vs"
    and op: "getOpcode I = PHI" and t: "getType I = IntegerTy w" and N: "unat N < w"
    and E: "\<And>v. v \<in> set (operands I) \<Longrightarrow> value_type F v = IntegerTy w \<Longrightarrow> unat E \<le> unat N"
    and W: "ir_width (map fst vs) (CreateZExt (shrunk_value I N M) w) \<noteq> None"
  shows "agree (IntegerTy w) (unat E) (eval e PHI (IntegerTy w) vs) (eval_ir eval e vs (CreateZExt (shrunk_value I N M) w))"
proof -
  have ops: "operands I \<noteq> []" "\<forall>v\<in>set (operands I). value_type F v = IntegerTy w"
    using instruction_okD(3) [OF ok] op t by (auto simp: typed_def)
  have len: "length vs = length (operands I)" using args_agree_nth [OF args] by simp
  have V: "shrunk_value I N M = CreatePHI (map (Shrink N M) [0..<length vs])" using op len by (simp add: shrunk_value_def Let_def)
  have "\<forall>t\<in>set (map fst vs). t = IntegerTy w" unfolding args_types [OF args] using ops(2) by simp
  then have "vs \<noteq> []" "\<forall>v\<in>set vs. fst v = IntegerTy w" using ops(1) len by auto
  then show ?thesis unfolding V using E [of "hd (operands I)"] ops N W [unfolded V] by (intro shrunk_phi) simp_all
qed

lemma shrink_select:
  assumes ok: "instruction_ok F I" and args: "args_agree F 0 (operands I) vs vs"
    and op: "getOpcode I = Select" and t: "getType I = IntegerTy w" and N: "unat N < w"
    and E: "\<And>v. v \<in> set (operands I) \<Longrightarrow> value_type F v = IntegerTy w \<Longrightarrow> unat E \<le> unat N"
    and W: "ir_width (map fst vs) (CreateZExt (shrunk_value I N M) w) \<noteq> None"
  shows "agree (IntegerTy w) (unat E) (eval e Select (IntegerTy w) vs) (eval_ir eval e vs (CreateZExt (shrunk_value I N M) w))"
proof -
  have "map (value_type F) (operands I) = [IntegerTy 1, IntegerTy w, IntegerTy w]"
    using instruction_okD(3) [OF ok] op t by (auto simp: typed_def)
  then obtain x y z where ops: "operands I = [x, y, z]" "value_type F x = IntegerTy 1" "value_type F y = IntegerTy w" "value_type F z = IntegerTy w"
    by auto
  obtain k a d where v: "vs = [(IntegerTy 1, k), (IntegerTy w, a), (IntegerTy w, d)]" using args ops by auto
  have V: "shrunk_value I N M = CreateSelect (Operand 0) (Shrink N M 1) (Shrink N M 2)" using op by (simp add: shrunk_value_def Let_def)
  show ?thesis unfolding V by (rule shrunk_select [OF v E [of y] N W [unfolded V]]) (use ops in simp_all)
qed

lemma shrink_keeps_live_bits:
  assumes ok: "instruction_ok F I" and T: "bl_transfer F I E = Some R"
    and S: "shrink_instruction MinimumWidth I \<lparr>Operands = R, Result = E\<rparr> = Some V"
    and W: "ir_width (map (value_type F) (operands I)) V \<noteq> None"
    and args: "args_agree F 0 (operands I) vs vs"
    and narrow: "\<And>v. getOpcode I = Shl \<Longrightarrow> getType I = IntegerTy v \<Longrightarrow> v \<le> 256"
  shows "agree (getType I) (unat E) (eval e (getOpcode I) (getType I) vs) (eval_ir eval e vs V)"
proof -
  obtain w N M where t: "getType I = IntegerTy w" and b: "isBitwise I \<or> isAddLike I" and V: "V = CreateZExt (shrunk_value I N M) w"
    and N: "unat N < w" "unat R \<le> unat N" "8 \<le> unat N" and MN: "isBitwise I \<Longrightarrow> M = N" and M: "\<not> isBitwise I \<Longrightarrow> unat M = w \<or> unat E \<le> unat M"
    and shl: "getOpcode I = Shl \<Longrightarrow> \<exists>u c. at (operands I) 1 = Some (ConstantInt u c) \<and> c < int (unat M)"
    using shrink_instruction_Some [OF S instruction_okD(1) [OF ok]] by metis
  have W': "ir_width (map fst vs) (CreateZExt (shrunk_value I N M) w) \<noteq> None" using W args_types [OF args] V by simp
  have E: "unat E \<le> unat N" if "R = min E (getMaxOperandSize F I)" "v \<in> set (operands I)" "value_type F v = IntegerTy w" for v
    using min_size_cases [OF ok that(2,3), of E] N that(1) by simp
  consider "getOpcode I = And" | "getOpcode I \<in> {Xor, Or, Add, Sub, Mul}" | "getOpcode I = Shl" | "getOpcode I = PHI" | "getOpcode I = Select"
    using b by (cases "getOpcode I") (simp_all add: isBitwise_def isAddLike_def)
  then have "agree (IntegerTy w) (unat E) (eval e (getOpcode I) (IntegerTy w) vs) (eval_ir eval e vs (CreateZExt (shrunk_value I N M) w))"
  proof cases
    case 1
    then have "M = N" using MN by (simp add: isBitwise_def)
    then show ?thesis
      using shrink_and [OF ok T args 1 t N(1,2)] W' 1 by simp
  next
    case 2
    then have "R = min E (getMaxOperandSize F I)" using T by (auto simp: bl_transfer_def)
    then show ?thesis
      by (intro shrink_add_like [OF ok args 2 t N(1) E W'])
  next
    case 3
    obtain u c where c: "at (operands I) 1 = Some (ConstantInt u c)" "c < int (unat M)" using shl 3 by blast
    have "unat M = w \<or> unat E \<le> unat M" using M 3 by (simp add: isBitwise_def)
    from shrink_shl [OF ok T args 3 t N this c narrow [OF 3 t] W']
    show ?thesis
      unfolding 3 .
  next
    case 4
    then have R: "R = min E (getMaxOperandSize F I)" using T by (simp add: bl_transfer_def)
    show ?thesis
      unfolding 4 by (rule shrink_phi [OF ok args 4 t N(1) E [OF R] W'])
  next
    case 5
    then have R: "R = min E (getMaxOperandSize F I)" using T by (simp add: bl_transfer_def)
    show ?thesis
      unfolding 5 by (rule shrink_select [OF ok args 5 t N(1) E [OF R] W'])
  qed
  then show ?thesis unfolding t V .
qed

end

section \<open>Comparisons\<close>

text \<open>
  \<^verbatim>\<open>shrinkCompare\<close>: the comparison that replaces the one of two extended values. \<open>CreateIntCast\<close> extends
  its operand to the new width, with or without sign.
\<close>

record NewCompare =
  cmp_Predicate :: Predicate
  cmp_Width :: nat
  cmp_IsSigned :: bool
  cmp_LHS :: Value
  cmp_RHS :: Value

definition getIntegerExtension :: "LLVM_Function \<Rightarrow> Value \<Rightarrow> nat option" where
  "getIntegerExtension F V = (case V of
     InstructionValue i \<Rightarrow> (if getOpcode (instruction F i) = ZExt \<or> getOpcode (instruction F i) = SExt then Some i else None)
   | _ \<Rightarrow> None)"

fun getUnsignedPredicate :: "Predicate \<Rightarrow> Predicate" where
  "getUnsignedPredicate SGT = UGT"
| "getUnsignedPredicate SGE = UGE"
| "getUnsignedPredicate SLT = ULT"
| "getUnsignedPredicate SLE = ULE"
| "getUnsignedPredicate P = P"

text \<open>The other operand: its new value and the new width.\<close>

definition shrink_other :: "LLVM_Function \<Rightarrow> nat \<Rightarrow> nat \<Rightarrow> Value \<Rightarrow> (Value \<times> nat) option" where
  "shrink_other F Extension NarrowWidth Other =
     (case getIntegerExtension F Other of
        Some OtherExtension \<Rightarrow>
          if getOpcode (instruction F OtherExtension) \<noteq> getOpcode (instruction F Extension) then None
          else do {
            V \<leftarrow> at (operands (instruction F OtherExtension)) 0;
            OtherWidth \<leftarrow> getIntegerBitWidth (value_type F V);
            Some (V, if OtherWidth > NarrowWidth then OtherWidth else NarrowWidth) }
      | None \<Rightarrow> (case Other of
          ConstantInt BitWidth Wide \<Rightarrow>
            let Narrow = take_bit NarrowWidth Wide;
                Extended = (if getOpcode (instruction F Extension) = SExt
                            then take_bit BitWidth (signed_take_bit (NarrowWidth - 1) Narrow) else Narrow)
            in if Extended \<noteq> Wide then None else Some (ConstantInt NarrowWidth Narrow, NarrowWidth)
        | _ \<Rightarrow> None))"

definition shrinkCompare :: "LLVM_Function \<Rightarrow> Instruction \<Rightarrow> NewCompare option" where
  "shrinkCompare F Compare =
     (case (getOpcode Compare, operands Compare) of
        (ICmp P, [Op0, Op1]) \<Rightarrow>
          if \<not> isIntegerTy (value_type F Op0) then None
          else do {
            (Index, Extension) \<leftarrow> (case getIntegerExtension F Op0 of
               Some Extension \<Rightarrow> Some (0, Extension)
             | None \<Rightarrow> (case getIntegerExtension F Op1 of Some Extension \<Rightarrow> Some (1 :: nat, Extension) | None \<Rightarrow> None));
            let IsSigned = (getOpcode (instruction F Extension) = SExt);
            V \<leftarrow> at (operands (instruction F Extension)) 0;
            NarrowWidth \<leftarrow> getIntegerBitWidth (value_type F V);
            (W, Width) \<leftarrow> shrink_other F Extension NarrowWidth (if Index = 0 then Op1 else Op0);
            Some \<lparr>cmp_Predicate = (if IsSigned then P else getUnsignedPredicate P), cmp_Width = Width, cmp_IsSigned = IsSigned,
                  cmp_LHS = (if Index = 0 then V else W), cmp_RHS = (if Index = 0 then W else V)\<rparr> }
      | _ \<Rightarrow> None)"

text \<open>The value of the new comparison.\<close>

definition CreateIntCast ::
  "('e \<Rightarrow> Opcode \<Rightarrow> Ty \<Rightarrow> (Ty \<times> int) list \<Rightarrow> int) \<Rightarrow> 'e \<Rightarrow> bool \<Rightarrow> Ty \<Rightarrow> nat \<Rightarrow> int \<Rightarrow> int" where
  "CreateIntCast eval e IsSigned t w a =
     (if t = IntegerTy w then a else eval e (if IsSigned then SExt else ZExt) (IntegerTy w) [(t, a)])"

definition new_compare ::
  "('e \<Rightarrow> Opcode \<Rightarrow> Ty \<Rightarrow> (Ty \<times> int) list \<Rightarrow> int) \<Rightarrow> 'e \<Rightarrow> LLVM_Function \<Rightarrow> (Value \<Rightarrow> int) \<Rightarrow> NewCompare \<Rightarrow> int" where
  "new_compare eval e F val C =
     (let cast = (\<lambda>V. CreateIntCast eval e (cmp_IsSigned C) (value_type F V) (cmp_Width C) (val V))
      in eval e (ICmp (cmp_Predicate C)) (IntegerTy 1)
           [(IntegerTy (cmp_Width C), cast (cmp_LHS C)), (IntegerTy (cmp_Width C), cast (cmp_RHS C))])"

definition int_extend :: "bool \<Rightarrow> nat \<Rightarrow> nat \<Rightarrow> int \<Rightarrow> int" where
  "int_extend IsSigned v w a = take_bit w (if IsSigned then signed_take_bit (v - 1) a else take_bit v a)"

lemma icmp_zext:
  assumes "v \<le> m" "v' \<le> m" "m < w"
  shows "icmp (getUnsignedPredicate P) m (int_extend False v m a) (int_extend False v' m b)
    \<longleftrightarrow> icmp P w (int_extend False v w a) (int_extend False v' w b)"
proof -
  have v: "int_extend False u n x = take_bit u x" if "u \<le> n" for u n x using that by (simp add: int_extend_def min_def)
  have s: "signed_take_bit (w - 1) (take_bit u x) = take_bit u x" if "u \<le> m" for u and x :: int
    using that assms(3) by (intro bit_eqI) (auto simp: bit_signed_take_bit_iff bit_take_bit_iff min_def)
  have t: "take_bit n (take_bit u x) = take_bit u x" if "u \<le> n" for n u and x :: int using that by (simp add: min_def)
  show ?thesis using assms by (cases P) (simp_all add: v s [unfolded One_nat_def] t)
qed

lemma signed_range: "0 < v \<Longrightarrow> v \<le> m \<Longrightarrow> - (2 ^ (m - 1)) \<le> signed_take_bit (v - 1) a \<and> signed_take_bit (v - 1) a < (2 ^ (m - 1) :: int)"
proof -
  assume "0 < v" "v \<le> m"
  then have "(2 :: int) ^ (v - 1) \<le> 2 ^ (m - 1)" by (intro power_increasing) simp_all
  moreover have "- (2 ^ (v - 1)) \<le> signed_take_bit (v - 1) a" "signed_take_bit (v - 1) a < 2 ^ (v - 1)" by simp_all
  ultimately show ?thesis by linarith
qed

lemma take_bit_signed: "0 < n \<Longrightarrow> - (2 ^ (n - 1)) \<le> s \<Longrightarrow> s < 2 ^ (n - 1) \<Longrightarrow> take_bit n s = (if 0 \<le> s then s else s + 2 ^ n)" for s :: int
proof -
  assume n: "0 < n" and s: "- (2 ^ (n - 1)) \<le> s" "s < 2 ^ (n - 1)"
  have p: "(2 :: int) ^ n = 2 * 2 ^ (n - 1)" using n by (cases n) simp_all
  show ?thesis
  proof (cases "0 \<le> s")
    case True
    then show ?thesis using s p by (simp add: take_bit_int_eq_self)
  next
    case False
    have "take_bit n s = take_bit n (s + 2 ^ n)" by (simp add: take_bit_eq_mod)
    also have "\<dots> = s + 2 ^ n" using False s p by (intro take_bit_int_eq_self) linarith+
    finally show ?thesis using False by simp
  qed
qed

text \<open>The unsigned order of numbers in two's complement does not depend on the width.\<close>

definition wrap_at :: "int \<Rightarrow> int \<Rightarrow> int" where
  "wrap_at p s = (if 0 \<le> s then s else s + 2 * p)"

lemma wrap_order:
  assumes "- p \<le> s" "s < p" "- p \<le> s'" "s' < p" "p \<le> q"
  shows "wrap_at p s < wrap_at p s' \<longleftrightarrow> wrap_at q s < wrap_at q s'"
  using assms by (auto simp: wrap_at_def)

lemma icmp_sext:
  assumes "0 < v" "0 < v'" "v \<le> m" "v' \<le> m" "m < w"
  shows "icmp P m (int_extend True v m a) (int_extend True v' m b) \<longleftrightarrow> icmp P w (int_extend True v w a) (int_extend True v' w b)"
proof -
  define s s' where "s = signed_take_bit (v - 1) a" and "s' = signed_take_bit (v' - 1) b"
  have r: "- (2 ^ (m - 1)) \<le> s" "s < 2 ^ (m - 1)" "- (2 ^ (m - 1)) \<le> s'" "s' < 2 ^ (m - 1)"
    using signed_range [of v m a] signed_range [of v' m b] assms by (simp_all add: s_def s'_def)
  have big: "(2 :: int) ^ (m - 1) \<le> 2 ^ (w - 1)" using assms by (intro power_increasing) simp_all
  have pm: "(2 :: int) ^ m = 2 * 2 ^ (m - 1)" "(2 :: int) ^ w = 2 * 2 ^ (w - 1)" using assms by (cases m; cases w; simp)+
  have rw: "- (2 ^ (w - 1)) \<le> s" "s < 2 ^ (w - 1)" "- (2 ^ (w - 1)) \<le> s'" "s' < 2 ^ (w - 1)" using r big by linarith+
  have pos: "0 < m" "0 < w" using assms by simp_all
  have signed: "signed_take_bit (n - 1) (take_bit n x) = x" if "0 < n" "- (2 ^ (n - 1)) \<le> x" "x < 2 ^ (n - 1)" for n and x :: int
    using that by (cases n) (simp_all add: signed_take_bit_take_bit signed_take_bit_int_eq_self)
  have sm: "signed_take_bit (m - 1) (take_bit m s) = s" "signed_take_bit (m - 1) (take_bit m s') = s'"
    "signed_take_bit (w - 1) (take_bit w s) = s" "signed_take_bit (w - 1) (take_bit w s') = s'"
    using signed [OF pos(1) r(1,2)] signed [OF pos(1) r(3,4)] signed [OF pos(2) rw(1,2)] signed [OF pos(2) rw(3,4)] .
  have tm: "take_bit m s = wrap_at (2 ^ (m - 1)) s" "take_bit m s' = wrap_at (2 ^ (m - 1)) s'"
    "take_bit w s = wrap_at (2 ^ (w - 1)) s" "take_bit w s' = wrap_at (2 ^ (w - 1)) s'"
    using take_bit_signed [OF pos(1) r(1,2)] take_bit_signed [OF pos(1) r(3,4)] take_bit_signed [OF pos(2) rw(1,2)]
      take_bit_signed [OF pos(2) rw(3,4)] unfolding wrap_at_def pm .
  have order: "take_bit m s < take_bit m s' \<longleftrightarrow> take_bit w s < take_bit w s'" "take_bit m s' < take_bit m s \<longleftrightarrow> take_bit w s' < take_bit w s"
    unfolding tm using wrap_order [OF r big] wrap_order [OF r(3,4,1,2) big] .
  then have order': "take_bit m s \<le> take_bit m s' \<longleftrightarrow> take_bit w s \<le> take_bit w s'" "take_bit m s' \<le> take_bit m s \<longleftrightarrow> take_bit w s' \<le> take_bit w s"
    "take_bit m s = take_bit m s' \<longleftrightarrow> take_bit w s = take_bit w s'"
    by (metis not_less, metis not_less, metis not_less order_antisym order_refl)
  have ext: "int_extend True v n a = take_bit n s" "int_extend True v' n b = take_bit n s'" for n
    by (simp_all add: int_extend_def s_def s'_def)
  show ?thesis unfolding ext using order order' sm by (cases P) simp_all
qed

text \<open>
  A comparison is executed after the extensions it compares, with no execution of their operands in
  between: the value of an extension is that of its operand, extended. This is what dominance gives in SSA.
\<close>

definition extension_ok :: "LLVM_Function \<Rightarrow> nat \<Rightarrow> bool" where
  "extension_ok F i \<longleftrightarrow> (\<exists>w v x. operands (instruction F i) = [x] \<and> value_type F x = IntegerTy v
     \<and> getType (instruction F i) = IntegerTy w \<and> 0 < v \<and> v < w)"

definition compare_ok :: "LLVM_Function \<Rightarrow> Instruction \<Rightarrow> bool" where
  "compare_ok F I \<longleftrightarrow> (\<exists>P x y. getOpcode I = ICmp P \<and> operands I = [x, y] \<and> value_type F x = value_type F y
     \<and> value_ok x \<and> value_ok y
     \<and> (\<forall>i\<in>{j. InstructionValue j \<in> {x, y}}. getOpcode (instruction F i) \<in> {ZExt, SExt} \<and> isIntegerTy (getType (instruction F i)) \<longrightarrow> extension_ok F i))"

definition extensions_current ::
  "('e \<Rightarrow> Opcode \<Rightarrow> Ty \<Rightarrow> (Ty \<times> int) list \<Rightarrow> int) \<Rightarrow> LLVM_Function \<Rightarrow> (Value \<Rightarrow> int) \<Rightarrow> Instruction \<Rightarrow> bool" where
  "extensions_current eval F val I \<longleftrightarrow> (\<forall>i x. InstructionValue i \<in> set (operands I) \<and> operands (instruction F i) = [x]
     \<and> getOpcode (instruction F i) \<in> {ZExt, SExt} \<longrightarrow>
     (\<exists>e. val (InstructionValue i) = eval e (getOpcode (instruction F i)) (getType (instruction F i)) [(value_type F x, val x)]))"

lemma icmp_take_bit: "0 < w \<Longrightarrow> icmp P w (take_bit w a) (take_bit w b) \<longleftrightarrow> icmp P w a b"
  by (cases w; cases P) (simp_all add: signed_take_bit_take_bit)

lemma int_extend_same: "0 < w \<Longrightarrow> int_extend s w w a = take_bit w a"
  by (cases w) (auto simp: int_extend_def take_bit_signed_take_bit)

lemma icmp_extend:
  assumes "0 < v" "0 < v'" "v \<le> m" "v' \<le> m" "m < w"
  shows "icmp (if s then P else getUnsignedPredicate P) m (int_extend s v m a) (int_extend s v' m b)
    \<longleftrightarrow> icmp P w (int_extend s v w a) (int_extend s v' w b)"
  using icmp_zext icmp_sext assms by (cases s) auto

text \<open>One operand is an extension from the width \<open>v\<close>; what \<open>shrink_other\<close> makes of the other.\<close>

lemma shrink_other_correct:
  assumes other: "shrink_other F i v y = Some (W, m)" and y: "value_type F y = IntegerTy w" "value_ok y"
    and ext: "getOpcode (instruction F i) \<in> {ZExt, SExt}" "0 < v" "v < w"
    and ok: "\<And>j. y = InstructionValue j \<Longrightarrow> getOpcode (instruction F j) \<in> {ZExt, SExt} \<Longrightarrow> extension_ok F j
        \<and> (\<forall>x. operands (instruction F j) = [x] \<longrightarrow>
             val y = int_extend (getOpcode (instruction F j) = SExt) (type_width (value_type F x)) w (val x))"
    and const: "\<And>u c. val (ConstantInt u c) = c"
  shows "\<exists>u. value_type F W = IntegerTy u \<and> 0 < u \<and> u \<le> m \<and> v \<le> m \<and> m < w
    \<and> val y = int_extend (getOpcode (instruction F i) = SExt) u w (val W)"
proof (cases "getIntegerExtension F y")
  case None
  then obtain c where c: "y = ConstantInt w c" using other y(1) by (cases y) (auto simp: shrink_other_def)
  have W: "W = ConstantInt v (take_bit v c)" "m = v"
      "(if getOpcode (instruction F i) = SExt then take_bit w (signed_take_bit (v - 1) (take_bit v c)) else take_bit v c) = c"
    using other None c by (auto simp: shrink_other_def Let_def split: if_splits)
  then show ?thesis using ext c const by (auto simp: int_extend_def split: if_splits)
next
  case (Some j)
  then have j: "y = InstructionValue j" "getOpcode (instruction F j) \<in> {ZExt, SExt}"
    by (cases y; simp add: getIntegerExtension_def split: if_splits)+
  then obtain u x where x: "operands (instruction F j) = [x]" "value_type F x = IntegerTy u" "0 < u" "u < w"
    using ok y(1) by (auto simp: extension_ok_def)
  have o: "getOpcode (instruction F j) = getOpcode (instruction F i)" "W = x" "m = (if u > v then u else v)"
    using other Some x by (auto simp: shrink_other_def at_def split: if_splits)
  then show ?thesis using ok [OF j] x ext by auto
qed

context llvm_semantics
begin

lemma eval_extension: "eval e (if s then SExt else ZExt) (IntegerTy w) [(IntegerTy v, a)] = int_extend s v w a"
  by (simp add: int_extend_def eval_sext eval_zext)

lemma CreateIntCast_extend:
  "0 < w \<Longrightarrow> take_bit w (CreateIntCast eval e s (IntegerTy v) w a) = int_extend s v w a"
  by (cases "v = w") (simp_all add: CreateIntCast_def eval_extension int_extend_same, simp add: int_extend_def)

lemma new_compare_eq:
  assumes "0 < cmp_Width C" "value_type F (cmp_LHS C) = IntegerTy v" "value_type F (cmp_RHS C) = IntegerTy v'"
  shows "new_compare eval e F val C = of_bool (icmp (cmp_Predicate C) (cmp_Width C)
     (int_extend (cmp_IsSigned C) v (cmp_Width C) (val (cmp_LHS C))) (int_extend (cmp_IsSigned C) v' (cmp_Width C) (val (cmp_RHS C))))"
proof -
  let ?w = "cmp_Width C"
  let ?l = "CreateIntCast eval e (cmp_IsSigned C) (IntegerTy v) ?w (val (cmp_LHS C))"
  let ?r = "CreateIntCast eval e (cmp_IsSigned C) (IntegerTy v') ?w (val (cmp_RHS C))"
  have "icmp (cmp_Predicate C) ?w ?l ?r \<longleftrightarrow> icmp (cmp_Predicate C) ?w (take_bit ?w ?l) (take_bit ?w ?r)"
    by (rule icmp_take_bit [OF assms(1), symmetric])
  then show ?thesis unfolding CreateIntCast_extend [OF assms(1)] using assms(2,3) by (simp add: new_compare_def Let_def eval_icmp)
qed

lemma shrink_compare_sound:
  assumes ok: "compare_ok F I" and C: "shrinkCompare F I = Some C" and cur: "extensions_current eval F val I"
    and const: "\<And>u c. val (ConstantInt u c) = c"
  shows "eval e (getOpcode I) (IntegerTy 1) (map (\<lambda>v. (value_type F v, val v)) (operands I)) = new_compare eval e F val C"
proof -
  obtain P x y where I: "getOpcode I = ICmp P" "operands I = [x, y]" "value_type F x = value_type F y" "value_ok x" "value_ok y"
    and exts: "\<And>i. InstructionValue i = x \<or> InstructionValue i = y \<Longrightarrow> getOpcode (instruction F i) \<in> {ZExt, SExt} \<Longrightarrow>
      isIntegerTy (getType (instruction F i)) \<Longrightarrow> extension_ok F i"
    using ok by (auto simp: compare_ok_def)
  have "isIntegerTy (value_type F x)" using C I(1,2) by (simp add: shrinkCompare_def split: if_splits)
  then obtain w where w: "value_type F x = IntegerTy w" by (cases "value_type F x") simp_all
  have ext: "extension_ok F j \<and> (\<forall>u. operands (instruction F j) = [u] \<longrightarrow>
      val z = int_extend (getOpcode (instruction F j) = SExt) (type_width (value_type F u)) w (val u))"
    if "z = x \<or> z = y" "z = InstructionValue j" "getOpcode (instruction F j) \<in> {ZExt, SExt}" for z j
  proof -
    have t: "getType (instruction F j) = IntegerTy w" using that w I(3) by auto
    then have e: "extension_ok F j" using exts [of j] that by auto
    moreover have "val z = int_extend (getOpcode (instruction F j) = SExt) (type_width (value_type F u)) w (val u)"
      if u: "operands (instruction F j) = [u]" for u
    proof -
      obtain v where "value_type F u = IntegerTy v" using e u by (auto simp: extension_ok_def)
      moreover obtain e where "val z = eval e (getOpcode (instruction F j)) (IntegerTy w) [(value_type F u, val u)]"
        using cur \<open>z = x \<or> z = y\<close> \<open>z = InstructionValue j\<close> \<open>getOpcode (instruction F j) \<in> {ZExt, SExt}\<close> u I(2) t
        unfolding extensions_current_def by (metis list.set_intros(1,2))
      ultimately show ?thesis using \<open>getOpcode (instruction F j) \<in> {ZExt, SExt}\<close> eval_zext [of e w v] eval_sext [of e w v]
        by (auto simp: int_extend_def)
    qed
    ultimately show ?thesis by blast
  qed
  have orig: "eval e (getOpcode I) (IntegerTy 1) (map (\<lambda>v. (value_type F v, val v)) (operands I)) = of_bool (icmp P w (val x) (val y))"
    unfolding I(1,2) list.map I(3) [symmetric] w by (rule eval_icmp)
  have main: "\<exists>u v. value_type F V = IntegerTy v \<and> value_type F W = IntegerTy u \<and> 0 < v \<and> 0 < u \<and> v \<le> m \<and> u \<le> m \<and> m < w
      \<and> val z = int_extend (getOpcode (instruction F i) = SExt) v w (val V) \<and> val z' = int_extend (getOpcode (instruction F i) = SExt) u w (val W)"
    if z: "z = x \<and> z' = y \<or> z = y \<and> z' = x" and i: "getIntegerExtension F z = Some i" and V: "at (operands (instruction F i)) 0 = Some V"
      and v: "getIntegerBitWidth (value_type F V) = Some v" and W: "shrink_other F i v z' = Some (W, m)" for z z' i V v W m
  proof -
    have i': "z = InstructionValue i" "getOpcode (instruction F i) \<in> {ZExt, SExt}"
      using i by (cases z; simp add: getIntegerExtension_def split: if_splits)+
    note e = ext [of z i, OF _ i']
    have t: "getType (instruction F i) = IntegerTy w" using z i'(1) w I(3) by auto
    obtain v' where V': "operands (instruction F i) = [V]" "value_type F V = IntegerTy v'" "0 < v'" "v' < w"
      using e z t V by (auto simp: extension_ok_def at_def)
    then have eq: "v' = v" using v by simp
    have z': "value_type F z' = IntegerTy w" "value_ok z'" "z' = x \<or> z' = y" using z w I(3-5) by auto
    obtain u where "value_type F W = IntegerTy u" "0 < u" "u \<le> m" "v \<le> m" "m < w"
        "val z' = int_extend (getOpcode (instruction F i) = SExt) u w (val W)"
      using shrink_other_correct [OF W z'(1,2) i'(2), of val] V' eq ext [OF z'(3)] const by auto
    moreover have "val z = int_extend (getOpcode (instruction F i) = SExt) v w (val V)" using e z V' eq by auto
    ultimately show ?thesis using V' eq by blast
  qed
  show ?thesis
  proof (cases "getIntegerExtension F x")
    case (Some i)
    then obtain V v W m where d: "at (operands (instruction F i)) 0 = Some V" "getIntegerBitWidth (value_type F V) = Some v"
        "shrink_other F i v y = Some (W, m)" "C = \<lparr>cmp_Predicate = (if getOpcode (instruction F i) = SExt then P else getUnsignedPredicate P),
          cmp_Width = m, cmp_IsSigned = (getOpcode (instruction F i) = SExt), cmp_LHS = V, cmp_RHS = W\<rparr>"
      using C I(1,2) w Some by (auto simp: shrinkCompare_def bind_Some_iff Let_def)
    from main [OF _ Some d(1-3)] obtain u v where m: "value_type F V = IntegerTy v" "value_type F W = IntegerTy u" "0 < v" "0 < u" "v \<le> m" "u \<le> m" "m < w"
      "val x = int_extend (getOpcode (instruction F i) = SExt) v w (val V)" "val y = int_extend (getOpcode (instruction F i) = SExt) u w (val W)" by blast
    show ?thesis unfolding orig using new_compare_eq [of C F v u e val] icmp_extend [OF m(3-7), of _ P] m d(4) by simp
  next
    case None
    then obtain i where i: "getIntegerExtension F y = Some i" using C I(1,2) w by (auto simp: shrinkCompare_def split: option.splits)
    then obtain V v W m where d: "at (operands (instruction F i)) 0 = Some V" "getIntegerBitWidth (value_type F V) = Some v"
        "shrink_other F i v x = Some (W, m)" "C = \<lparr>cmp_Predicate = (if getOpcode (instruction F i) = SExt then P else getUnsignedPredicate P),
          cmp_Width = m, cmp_IsSigned = (getOpcode (instruction F i) = SExt), cmp_LHS = W, cmp_RHS = V\<rparr>"
      using C I(1,2) w None by (auto simp: shrinkCompare_def bind_Some_iff Let_def)
    from main [OF _ i d(1-3)] obtain u v where m: "value_type F V = IntegerTy v" "value_type F W = IntegerTy u" "0 < v" "0 < u" "v \<le> m" "u \<le> m" "m < w"
      "val y = int_extend (getOpcode (instruction F i) = SExt) v w (val V)" "val x = int_extend (getOpcode (instruction F i) = SExt) u w (val W)" by blast
    show ?thesis unfolding orig using new_compare_eq [of C F u v e val] icmp_extend [OF m(4,3,6,5,7), of _ P] m d(4) by simp
  qed
qed

end

section \<open>The builder accepts the new values\<close>

text \<open>
  The late extension to the old type needs a new result that is not wider. Only of a left shift the
  result can be live further than the operands; there it is a condition, \<open>shl_fits\<close>.
\<close>

definition shl_fits :: "u32 \<Rightarrow> LLVM_Function \<Rightarrow> (nat \<rightharpoonup> InstructionResults) \<Rightarrow> bool" where
  "shl_fits MinimumWidth F Res \<longleftrightarrow> (\<forall>i\<in>set (instructions F). getOpcode (instruction F i) = Shl \<longrightarrow>
     (case (getType (instruction F i), Res i) of
        (IntegerTy w, Some R) \<Rightarrow> closest_rank (max MinimumWidth (Result R)) (word_of_nat w) \<le> word_of_nat w \<and> w \<le> 256
      | _ \<Rightarrow> True))"

lemma shrink_instruction_sizes:
  assumes S: "shrink_instruction MinimumWidth I \<lparr>Operands = R, Result = E\<rparr> = Some V" and w: "width_ok (getType I)"
  obtains w where "getType I = IntegerTy w" "isBitwise I \<or> isAddLike I" "closest_rank (max MinimumWidth R) (word_of_nat w) < word_of_nat w"
    "V = CreateZExt (shrunk_value I (closest_rank (max MinimumWidth R) (word_of_nat w))
       (if isBitwise I then closest_rank (max MinimumWidth R) (word_of_nat w) else closest_rank (max MinimumWidth E) (word_of_nat w))) w"
proof -
  obtain w where t: "getType I = IntegerTy w" using S by (cases "getType I") (simp_all add: shrink_instruction_def)
  define N where "N = closest_rank (max MinimumWidth R) (word_of_nat w)"
  have b: "isBitwise I \<or> isAddLike I" using S t by (simp add: shrink_instruction_def split: if_splits)
  have "N < word_of_nat w"
      "V = CreateZExt (shrunk_value I N (if isBitwise I then N else closest_rank (max MinimumWidth E) (word_of_nat w))) w"
    using S t b unfolding shrink_instruction_def
    by (simp_all only: Let_def Ty.case InstructionResults.simps N_def [symmetric] split: if_splits) simp_all
  then show ?thesis using that t b by (simp add: N_def)
qed

lemma closest_rank_mono:
  "s \<le> s' \<Longrightarrow> closest_rank s w < w \<Longrightarrow> closest_rank s w \<le> closest_rank s' w"
  by (cases "s \<le> 8"; cases "s \<le> 16"; cases "s \<le> 32"; cases "s \<le> 64"; cases "s' \<le> 8"; cases "s' \<le> 16"; cases "s' \<le> 32"; cases "s' \<le> 64")
    (simp_all add: closest_rank_def not_less)

lemma shrunk_value_width:
  assumes ops: "if getOpcode I = PHI then operands I \<noteq> [] \<and> (\<forall>v\<in>set (operands I). value_type F v = IntegerTy w)
      else if getOpcode I = Select then map (value_type F) (operands I) = [IntegerTy 1, IntegerTy w, IntegerTy w]
      else map (value_type F) (operands I) = [IntegerTy w, IntegerTy w]"
    and N: "unat N \<le> w" "unat N \<le> unat M"
  shows "ir_width (map (value_type F) (operands I)) (shrunk_value I N M) = Some (unat M)"
proof -
  consider "getOpcode I = PHI" | "getOpcode I = Select" | "getOpcode I \<noteq> PHI" "getOpcode I \<noteq> Select" by blast
  then show ?thesis
  proof cases
    case 1
    then have "\<forall>k\<in>set [0..<length (operands I)]. at (map (value_type F) (operands I)) k = Some (IntegerTy w)" "operands I \<noteq> []"
      using ops by (simp_all add: at_def)
    then show ?thesis using ir_widths_Shrink [of "[0..<length (operands I)]" _ w N M] N 1
      by (cases "operands I") (simp_all add: shrunk_value_def Let_def del: upt_Suc)
  next
    case 2
    then have "map (value_type F) (operands I) = [IntegerTy 1, IntegerTy w, IntegerTy w]" using ops by simp
    then show ?thesis using 2 Shrink_width [of _ _ w N M] N by (simp add: shrunk_value_def Let_def at_def)
  next
    case 3
    then have "map (value_type F) (operands I) = [IntegerTy w, IntegerTy w]" using ops by simp
    then show ?thesis using 3 Shrink_width [of _ _ w N M] N by (simp add: shrunk_value_def Let_def at_def)
  qed
qed

lemma shl_transfer_le:
  assumes ok: "instruction_ok F I" and Shl: "getOpcode I = Shl" and T: "bl_transfer F I E = Some R"
    and S: "shrink_instruction MinimumWidth I \<lparr>Operands = R, Result = E\<rparr> = Some V"
  shows "R \<le> E"
proof -
  obtain u c where c: "at (operands I) 1 = Some (ConstantInt u c)"
    using shrink_instruction_Some [OF S instruction_okD(1) [OF ok]] Shl by metis
  have sh: "is_shift (getOpcode I)" using Shl by (simp add: is_shift_def)
  show ?thesis
  proof (cases rule: shift_operands [OF ok sh, case_names var const])
    case (var x y)
    then show ?thesis using c by (simp add: at_def)
  next
    case (const x w c)
    then have "R = (if ucast E < (word_of_int c :: u64) then 0 else ucast (ucast E - (word_of_int c :: u64)))"
      using T Shl by (simp add: bl_transfer_def transferShiftLeft_def at_def)
    then have "unat R = unat E - unat (word_of_int c :: u64)" using unat_shl [of E "word_of_int c"] by simp
    then show ?thesis by (simp add: word_le_nat_alt)
  qed
qed

lemma shrink_accepted:
  assumes ok: "instruction_ok F I" and T: "bl_transfer F I E = Some R"
    and S: "shrink_instruction MinimumWidth I \<lparr>Operands = R, Result = E\<rparr> = Some V"
    and fits: "\<And>v. getOpcode I = Shl \<Longrightarrow> getType I = IntegerTy v \<Longrightarrow> closest_rank (max MinimumWidth E) (word_of_nat v) \<le> word_of_nat v"
  shows "ir_width (map (value_type F) (operands I)) V \<noteq> None"
proof -
  note D = instruction_okD [OF ok]
  obtain w where t: "getType I = IntegerTy w" and b: "isBitwise I \<or> isAddLike I" and N: "closest_rank (max MinimumWidth R) (word_of_nat w) < word_of_nat w"
    and V: "V = CreateZExt (shrunk_value I (closest_rank (max MinimumWidth R) (word_of_nat w))
       (if isBitwise I then closest_rank (max MinimumWidth R) (word_of_nat w) else closest_rank (max MinimumWidth E) (word_of_nat w))) w"
    using shrink_instruction_sizes [OF S D(1)] .
  define N M where "N = closest_rank (max MinimumWidth R) (word_of_nat w)"
    and "M = (if isBitwise I then N else closest_rank (max MinimumWidth E) (word_of_nat w))"
  have u: "unat (word_of_nat w :: u32) = w" using D(1) t by (intro unat_width) (simp add: width_ok_def)
  have Nw: "unat N < w" using N u by (simp add: N_def word_less_nat_alt)
  have RE: "unat R \<le> unat N" using closest_rank_cases [of "max MinimumWidth R" "word_of_nat w"] N by (auto simp: N_def word_le_nat_alt unat_max)
  have ops: "if getOpcode I = PHI then operands I \<noteq> [] \<and> (\<forall>v\<in>set (operands I). value_type F v = IntegerTy w)
      else if getOpcode I = Select then map (value_type F) (operands I) = [IntegerTy 1, IntegerTy w, IntegerTy w]
      else map (value_type F) (operands I) = [IntegerTy w, IntegerTy w]"
    using D(3) b t by (cases "getOpcode I") (auto simp: typed_def isBitwise_def isAddLike_def is_binary_def is_shift_def)
  have "N \<le> M \<and> M \<le> word_of_nat w"
  proof (cases "isBitwise I \<or> getOpcode I = Shl")
    case True
    moreover have "R \<le> E" if "getOpcode I = Shl"
      by (rule shl_transfer_le [OF ok that T S])
    ultimately show ?thesis using fits [OF _ t] N closest_rank_mono [of "max MinimumWidth R" "max MinimumWidth E" "word_of_nat w"]
      by (auto simp: M_def N_def isBitwise_def max.coboundedI2)
  next
    case False
    then have R: "R = min E (getMaxOperandSize F I)" using T b by (cases "getOpcode I") (simp_all add: bl_transfer_def isBitwise_def isAddLike_def)
    have "\<exists>v\<in>set (operands I). value_type F v = IntegerTy w" using ops by (auto split: if_splits simp: map_eq_Cons_conv neq_Nil_conv)
    then have "unat R = unat E" using min_size_cases [OF ok, of _ w E] R RE Nw by auto
    then have "M = N" using False by (metis M_def N_def word_unat_eq_iff)
    then show ?thesis using N by (simp add: N_def)
  qed
  then have "unat N \<le> unat M" "unat M \<le> w" using u by (simp_all add: word_le_nat_alt)
  moreover have "V = CreateZExt (shrunk_value I N M) w" using V by (simp add: N_def M_def)
  ultimately show ?thesis using shrunk_value_width [OF ops, of N M] Nw by (simp add: revng_assert_bind)
qed

section \<open>The pass\<close>

lemma arguments_self:
  assumes "function_ok F" "i \<in> set (instructions F)"
  shows "args_agree F 0 (operands (instruction F i)) (arguments F \<rho> \<sigma> i) (arguments F \<rho> \<sigma> i)"
proof -
  have "args_agree F 0 vs (map (\<lambda>v. (value_type F v, value_of \<rho> \<sigma> v)) vs) (map (\<lambda>v. (value_type F v, value_of \<rho> \<sigma> v)) vs)" for vs
    by (induction vs) (auto simp: agree_refl)
  then show ?thesis by (simp add: arguments_def)
qed

lemma shl_fitsD:
  assumes "shl_fits MinimumWidth F Res" "i \<in> set (instructions F)" "Res i = Some \<lparr>Operands = R, Result = E\<rparr>"
    "getOpcode (instruction F i) = Shl" "getType (instruction F i) = IntegerTy w"
  shows "closest_rank (max MinimumWidth E) (word_of_nat w) \<le> word_of_nat w" "w \<le> 256"
  using assms unfolding shl_fits_def by fastforce+

lemma shrunk_function:
  assumes sem: "llvm_semantics eval" and ok: "function_ok F" and fits: "shl_fits MinimumWidth F Res"
    and Res: "\<forall>i\<in>set (instructions F). \<exists>R. Res i = Some \<lparr>Operands = R, Result = L i\<rparr> \<and> bl_transfer F (instruction F i) (L i) = Some R"
  shows "builder_accepts F (runTypeShrinking MinimumWidth F Res)"
    "keeps_live_bits eval F \<rho> L (shrunk eval F (runTypeShrinking MinimumWidth F Res))"
proof -
  let ?C = "runTypeShrinking MinimumWidth F Res"
  have change: "instruction_ok F (instruction F i)" "bl_transfer F (instruction F i) (L i) = Some R"
      "shrink_instruction MinimumWidth (instruction F i) \<lparr>Operands = R, Result = L i\<rparr> = Some V"
      "ir_width (map (value_type F) (operands (instruction F i))) V \<noteq> None"
    if "i \<in> set (instructions F)" "?C i = Some V" "Res i = Some \<lparr>Operands = R, Result = L i\<rparr>" for i V R
  proof -
    show i: "instruction_ok F (instruction F i)" using ok that by (simp add: function_ok_def)
    show t: "bl_transfer F (instruction F i) (L i) = Some R" using Res that by force
    show s: "shrink_instruction MinimumWidth (instruction F i) \<lparr>Operands = R, Result = L i\<rparr> = Some V"
      using that by (simp add: runTypeShrinking_def)
    show "ir_width (map (value_type F) (operands (instruction F i))) V \<noteq> None"
      by (rule shrink_accepted [OF i t s]) (rule shl_fitsD(1) [OF fits that(1,3)])
  qed
  show "builder_accepts F ?C" unfolding builder_accepts_def using change(4) Res by blast
  show "keeps_live_bits eval F \<rho> L (shrunk eval F ?C)" unfolding keeps_live_bits_def
  proof (intro ballI allI)
    fix i e \<sigma>
    assume i: "i \<in> set (instructions F)"
    show "agree (getType (instruction F i)) (unat (L i)) (original eval F i e (arguments F \<rho> \<sigma> i)) (shrunk eval F ?C i e (arguments F \<rho> \<sigma> i))"
    proof (cases "?C i")
      case (Some V)
      obtain R where R: "Res i = Some \<lparr>Operands = R, Result = L i\<rparr>" using Res i by blast
      note c = change [OF i Some R]
      show ?thesis using llvm_semantics.shrink_keeps_live_bits [OF sem c arguments_self [OF ok i]] shl_fitsD(2) [OF fits i R] Some
        by (simp add: shrunk_def original_def)
    qed (simp add: shrunk_def agree_refl)
  qed
qed


text \<open>
  \<^bold>\<open>C10\<close>. A narrowed comparison has the result of the original one: the values it compares are those the
  original operands extend, at the width of the wider of the two, with the unsigned predicate when they
  were zero-extended.
\<close>

theorem shrink_compare_correct:
  assumes "llvm_semantics eval" "compare_ok F I" "shrinkCompare F I = Some C"
    "extensions_current eval F (value_of \<rho> \<sigma>) I"
  shows "eval e (getOpcode I) (IntegerTy 1) (map (\<lambda>v. (value_type F v, value_of \<rho> \<sigma> v)) (operands I))
    = new_compare eval e F (value_of \<rho> \<sigma>) C"
  by (rule llvm_semantics.shrink_compare_sound [OF assms]) simp

definition shrunk_add :: ir where
  "shrunk_add = CreateZExt (CreateBinOp Add (Shrink 8 8 0) (Shrink 8 8 1)) 32"

lemma small_sizes: "r \<le> 8 \<Longrightarrow> closest_rank (max 8 r) w = 8" for r :: u32
  by (simp add: closest_rank_def max_def)


text \<open>
  \<open>icmp slt i64 (zext i32 x), (zext i16 y)\<close> becomes \<open>icmp ult i32 x, (zext i16 y)\<close>.
\<close>

definition compare_zext :: LLVM_Function where
  "compare_zext = \<lparr>instructions = [0, 1, 2],
     instruction = (\<lambda>i. if i = 0 then \<lparr>getOpcode = ZExt, mayHaveSideEffects = False, getType = IntegerTy 64, operands = [OtherValue (IntegerTy 32) 0]\<rparr>
                        else if i = 1 then \<lparr>getOpcode = ZExt, mayHaveSideEffects = False, getType = IntegerTy 64, operands = [OtherValue (IntegerTy 16) 1]\<rparr>
                        else \<lparr>getOpcode = ICmp SLT, mayHaveSideEffects = False, getType = IntegerTy 1, operands = [InstructionValue 0, InstructionValue 1]\<rparr>),
     uses = (\<lambda>i. if i < 2 then [2] else [])\<rparr>"

definition narrow_compare :: NewCompare where
  "narrow_compare = \<lparr>cmp_Predicate = ULT, cmp_Width = 32, cmp_IsSigned = False, cmp_LHS = OtherValue (IntegerTy 32) 0, cmp_RHS = OtherValue (IntegerTy 16) 1\<rparr>"

theorem shrink_compare_correct_witness:
  "shrinkCompare compare_zext (instruction compare_zext 2) = Some narrow_compare
    \<and> new_compare int_eval 0 compare_zext (value_of (\<lambda>k. if k = 0 then 0x80000000 else 7) (\<lambda>i. if i = 0 then 0x80000000 else 7)) narrow_compare = 0"
proof -
  let ?v = "value_of (\<lambda>k. if k = 0 then 0x80000000 else 7) (\<lambda>i. if i = 0 then 0x80000000 else 7)"
  have C: "shrinkCompare compare_zext (instruction compare_zext 2) = Some narrow_compare"
    by (simp add: shrinkCompare_def shrink_other_def getIntegerExtension_def compare_zext_def narrow_compare_def at_def)
  have ok: "compare_ok compare_zext (instruction compare_zext 2)"
    by (auto simp: compare_ok_def extension_ok_def compare_zext_def)
  have cur: "extensions_current int_eval compare_zext ?v (instruction compare_zext 2)"
    by (auto simp: extensions_current_def compare_zext_def int_eval_def int_cast_def)
  show ?thesis using C shrink_compare_correct [OF int_semantics.llvm_semantics_axioms ok C cur, of 0]
    by (simp add: compare_zext_def int_eval_def int_binary_def)
qed

section \<open>Where the pass breaks\<close>

text \<open>
  The new result of a left shift can be wider than the old type, since the ranks do not stop at it. Of a
  12-bit shift by 8 of which all 12 bits are live, 4 bits of the operands are: the operands are truncated
  to 8 bits, the shift is done at 16, and the late extension to 12 bits trips LLVM's assertion.
\<close>

definition shl_i12 :: Instruction where
  "shl_i12 = \<lparr>getOpcode = Shl, mayHaveSideEffects = False, getType = IntegerTy 12, operands = [OtherValue (IntegerTy 12) 0, ConstantInt 12 8]\<rparr>"

lemma shl_odd_width:
  "bl_transfer F shl_i12 12 = Some 4"
  "shrink_instruction 8 shl_i12 \<lparr>Operands = 4, Result = 12\<rparr> = Some (CreateZExt (CreateBinOp Shl (Shrink 8 16 0) (Shrink 8 16 1)) 12)"
  "ir_width (map (value_type F) (operands shl_i12)) (CreateZExt (CreateBinOp Shl (Shrink 8 16 0) (Shrink 8 16 1)) 12) = None"
  by (simp_all add: shl_i12_def bl_transfer_def transferShiftLeft_def getZExtValue_def at_def shrink_instruction_def isBitwise_def isAddLike_def
      closest_rank_def shrunk_value_def Shrink_def revng_assert_def Let_def max_def)

text \<open>
  The amount is truncated with the other operand. A shift of 512 bits by 300 becomes one by 44: bit 300
  of the result, which is live, is lost.
\<close>

definition shl_i512 :: Instruction where
  "shl_i512 = \<lparr>getOpcode = Shl, mayHaveSideEffects = False, getType = IntegerTy 512, operands = [OtherValue (IntegerTy 512) 0, ConstantInt 512 300]\<rparr>"

definition shrunk_i512 :: ir where
  "shrunk_i512 = CreateZExt (CreateBinOp Shl (Shrink 8 512 0) (Shrink 8 512 1)) 512"

lemma shl_amount_truncated:
  "bl_transfer F shl_i512 304 = Some 4"
  "shrink_instruction 8 shl_i512 \<lparr>Operands = 4, Result = 304\<rparr> = Some shrunk_i512"
  "ir_width (map (value_type F) (operands shl_i512)) shrunk_i512 = Some 512"
  "\<not> agree (IntegerTy 512) 304 (int_eval e Shl (IntegerTy 512) [(IntegerTy 512, 1), (IntegerTy 512, 300)])
     (eval_ir int_eval e [(IntegerTy 512, 1), (IntegerTy 512, 300)] shrunk_i512)"
proof -
  show "bl_transfer F shl_i512 304 = Some 4"
    by (simp add: shl_i512_def bl_transfer_def transferShiftLeft_def getZExtValue_def at_def)
  show "shrink_instruction 8 shl_i512 \<lparr>Operands = 4, Result = 304\<rparr> = Some shrunk_i512"
    by (simp add: shl_i512_def shrunk_i512_def at_def shrink_instruction_def isBitwise_def isAddLike_def closest_rank_def shrunk_value_def Let_def max_def)
  show "ir_width (map (value_type F) (operands shl_i512)) shrunk_i512 = Some 512"
    by (simp add: shl_i512_def shrunk_i512_def Shrink_def at_def revng_assert_def)
  have "eval_ir int_eval e [(IntegerTy 512, 1), (IntegerTy 512, 300)] shrunk_i512 = 2 ^ 44"
    by (simp add: shrunk_i512_def Shrink_def at_def revng_assert_def Let_def int_eval_def int_cast_def int_binary_def)
  moreover have "int_eval e Shl (IntegerTy 512) [(IntegerTy 512, 1), (IntegerTy 512, 300)] = 2 ^ 300"
    by (simp add: int_eval_def int_binary_def)
  ultimately show "\<not> agree (IntegerTy 512) 304 (int_eval e Shl (IntegerTy 512) [(IntegerTy 512, 1), (IntegerTy 512, 300)])
     (eval_ir int_eval e [(IntegerTy 512, 1), (IntegerTy 512, 300)] shrunk_i512)"
    by simp
qed

end
