(* ===== verification/C_Data_Model.thy ===== *)
theory C_Data_Model
  imports Overflow_Safe_Int
begin

text \<open>
  Sizes of the standard types of C (src/include/revng/Support/CDataModel.h, src/lib/Support/CDataModel.cpp).
  Shown: the range of standard integer types of a size is the one of all types of that size if there
  is any, and the supported sizes are those of the standard types and the extended ones.
\<close>

section \<open>Standard types\<close>

datatype CStandardType = Char_Type | Short_Type | Int_Type | Long_Type | LongLong_Type
  | Float_Type | Double_Type | LongDouble_Type | Count_Type

fun type_number :: "CStandardType \<Rightarrow> nat" where
  "type_number Char_Type = 0"
| "type_number Short_Type = 1"
| "type_number Int_Type = 2"
| "type_number Long_Type = 3"
| "type_number LongLong_Type = 4"
| "type_number Float_Type = 5"
| "type_number Double_Type = 6"
| "type_number LongDouble_Type = 7"
| "type_number Count_Type = 8"

definition CStandardTypeName :: "(string \<times> CStandardType) list" where
  "CStandardTypeName = [(''char'', Char_Type), (''short'', Short_Type), (''int'', Int_Type), (''long'', Long_Type),
     (''long long'', LongLong_Type), (''float'', Float_Type), (''double'', Double_Type), (''long double'', LongDouble_Type)]"

definition isIntegerType :: "CStandardType \<Rightarrow> bool" where
  "isIntegerType T \<longleftrightarrow> type_number Char_Type \<le> type_number T \<and> type_number T \<le> type_number LongLong_Type"

definition isFloatingPointType :: "CStandardType \<Rightarrow> bool" where
  "isFloatingPointType T \<longleftrightarrow> type_number Float_Type \<le> type_number T \<and> type_number T \<le> type_number LongDouble_Type"

definition findCStandardType :: "string \<Rightarrow> CStandardType option" where
  "findCStandardType Name = map_option snd (find (\<lambda>(N, _). N = Name) CStandardTypeName)"

text \<open>The type after one; none is asked for the one after the last.\<close>

fun next_type :: "CStandardType \<Rightarrow> CStandardType" where
  "next_type Char_Type = Short_Type"
| "next_type Short_Type = Int_Type"
| "next_type Int_Type = Long_Type"
| "next_type Long_Type = LongLong_Type"
| "next_type LongLong_Type = Float_Type"
| "next_type Float_Type = Double_Type"
| "next_type Double_Type = LongDouble_Type"
| "next_type LongDouble_Type = Count_Type"
| "next_type Count_Type = Count_Type"

section \<open>Data models\<close>

record CDataModel =
  DM_PointerSize :: u8
  StandardTypeSize :: "CStandardType \<Rightarrow> u8"
  ExtendedIntegerSizeMask :: u16

definition setStandardTypeSize :: "CStandardType \<Rightarrow> u8 \<Rightarrow> CDataModel \<Rightarrow> CDataModel" where
  "setStandardTypeSize T Size DM = DM\<lparr>StandardTypeSize := (StandardTypeSize DM)(T := Size)\<rparr>"

definition getDefaultDataModel :: "u8 \<Rightarrow> CDataModel" where
  "getDefaultDataModel PointerSize =
     \<lparr>DM_PointerSize = PointerSize,
      StandardTypeSize = (\<lambda>T. case T of
          Char_Type \<Rightarrow> 1
        | Short_Type \<Rightarrow> 2
        | Int_Type \<Rightarrow> (if PointerSize \<le> 2 then 2 else 4)
        | Long_Type \<Rightarrow> (if PointerSize \<le> 4 then 4 else 8)
        | LongLong_Type \<Rightarrow> 8
        | Float_Type \<Rightarrow> 4
        | Double_Type \<Rightarrow> 8
        | LongDouble_Type \<Rightarrow> 8
        | Count_Type \<Rightarrow> 0),
      ExtendedIntegerSizeMask = 0\<rparr>"

definition DM_verify :: "CDataModel \<Rightarrow> bool" where
  "DM_verify DM \<longleftrightarrow> (let s = StandardTypeSize DM in
     if s Char_Type < 1 then False
     else if s Short_Type < 2 \<or> s Char_Type > s Short_Type then False
     else if s Int_Type < 2 \<or> s Short_Type > s Int_Type then False
     else if s Long_Type < 4 \<or> s Int_Type > s Long_Type then False
     else if s LongLong_Type < 8 \<or> s Long_Type > s LongLong_Type then False
     else if s Float_Type > s Double_Type then False
     else if s Double_Type > s LongDouble_Type then False
     else True)"

text \<open>The loops of \<^verbatim>\<open>getStandardIntegerRange\<close>, over its variables \<^verbatim>\<open>Min\<close> and \<^verbatim>\<open>Max\<close>.\<close>

function range_min :: "CDataModel \<Rightarrow> u8 \<Rightarrow> CStandardType \<Rightarrow> CStandardType" where
  "range_min DM Size Low =
     (if type_number Low \<le> type_number LongLong_Type \<and> StandardTypeSize DM Low < Size then range_min DM Size (next_type Low) else Low)"
  by pat_completeness auto
termination
proof (relation "measure (\<lambda>(_, _, Low). 8 - type_number Low)")
  fix DM :: CDataModel and Size Low
  assume "type_number Low \<le> type_number LongLong_Type \<and> StandardTypeSize DM Low < Size"
  then show "((DM, Size, next_type Low), (DM, Size, Low)) \<in> measure (\<lambda>(_, _, Low). 8 - type_number Low)" by (cases Low) simp_all
qed simp

function range_max :: "CDataModel \<Rightarrow> u8 \<Rightarrow> CStandardType \<Rightarrow> CStandardType" where
  "range_max DM Size High =
     (if type_number High < type_number LongLong_Type \<and> StandardTypeSize DM (next_type High) \<le> Size then range_max DM Size (next_type High) else High)"
  by pat_completeness auto
termination
proof (relation "measure (\<lambda>(_, _, High). 8 - type_number High)")
  fix DM :: CDataModel and Size High
  assume "type_number High < type_number LongLong_Type \<and> StandardTypeSize DM (next_type High) \<le> Size"
  then show "((DM, Size, next_type High), (DM, Size, High)) \<in> measure (\<lambda>(_, _, High). 8 - type_number High)" by (cases High) simp_all
qed simp

declare range_min.simps [simp del] range_max.simps [simp del]

definition getStandardIntegerRange :: "CDataModel \<Rightarrow> u8 \<Rightarrow> (CStandardType \<times> CStandardType) option" where
  "getStandardIntegerRange DM Size =
     (let Low = range_min DM Size Char_Type
      in if type_number Low > type_number LongLong_Type then None else Some (Low, range_max DM Size Low))"

definition getStandardIntegerSizeMask :: "CDataModel \<Rightarrow> u32" where
  "getStandardIntegerSizeMask DM = ucast (StandardTypeSize DM Char_Type) OR ucast (StandardTypeSize DM Short_Type)
     OR ucast (StandardTypeSize DM Int_Type) OR ucast (StandardTypeSize DM Long_Type) OR ucast (StandardTypeSize DM LongLong_Type)"

definition getSuportedIntegerSizeMask :: "CDataModel \<Rightarrow> u32" where
  "getSuportedIntegerSizeMask DM = getStandardIntegerSizeMask DM OR ucast (ExtendedIntegerSizeMask DM)"

definition isSupportedIntegerSize :: "CDataModel \<Rightarrow> u32 \<Rightarrow> bool checked" where
  "isSupportedIntegerSize DM Size = do {
     revng_assert (isPowerOf2 (unat Size));
     Some (getSuportedIntegerSizeMask DM AND Size \<noteq> 0) }"

section \<open>Sizes\<close>

lemma DM_verify_sizes:
  assumes "DM_verify DM"
  shows "StandardTypeSize DM Char_Type \<le> StandardTypeSize DM Short_Type" "StandardTypeSize DM Short_Type \<le> StandardTypeSize DM Int_Type"
    "StandardTypeSize DM Int_Type \<le> StandardTypeSize DM Long_Type" "StandardTypeSize DM Long_Type \<le> StandardTypeSize DM LongLong_Type"
  using assms by (simp_all add: DM_verify_def Let_def not_less split: if_splits)

text \<open>Standard integer types are in the order of their sizes.\<close>

lemma sizes_mono:
  assumes "DM_verify DM" "isIntegerType U" "type_number T \<le> type_number U"
  shows "StandardTypeSize DM T \<le> StandardTypeSize DM U"
  using assms(2,3) DM_verify_sizes [OF assms(1)] by (cases T; cases U) (simp_all add: isIntegerType_def)

lemma isIntegerType_next: "isIntegerType T \<Longrightarrow> type_number T < 4 \<Longrightarrow> isIntegerType (next_type T) \<and> type_number (next_type T) = Suc (type_number T)"
  by (cases T) (simp_all add: isIntegerType_def)

lemma type_number_inj: "type_number T = type_number U \<longleftrightarrow> T = U"
  by (cases T; cases U) simp_all

lemma type_number_next: "type_number T < type_number U \<Longrightarrow> type_number (next_type T) \<le> type_number U"
  by (cases T; cases U) simp_all

lemma range_min_spec:
  assumes "\<forall>U. type_number U < type_number T \<longrightarrow> StandardTypeSize DM U < Size" "type_number T \<le> 5"
  shows "(\<forall>U. type_number U < type_number (range_min DM Size T) \<longrightarrow> StandardTypeSize DM U < Size)
    \<and> (type_number (range_min DM Size T) \<le> 4 \<longrightarrow> Size \<le> StandardTypeSize DM (range_min DM Size T)) \<and> type_number (range_min DM Size T) \<le> 5"
  using assms
proof (induction DM Size T rule: range_min.induct)
  case (1 DM Size T)
  show ?case
  proof (cases "type_number T \<le> type_number LongLong_Type \<and> StandardTypeSize DM T < Size")
    case True
    then have Suc: "type_number (next_type T) = Suc (type_number T)" by (cases T) simp_all
    have "\<forall>U. type_number U < type_number (next_type T) \<longrightarrow> StandardTypeSize DM U < Size"
      using "1.prems"(1) True Suc type_number_inj by (auto simp: less_Suc_eq)
    then show ?thesis using "1.IH" [OF True] True Suc by (subst (1 2 3 4) range_min.simps) simp
  next
    case False
    then show ?thesis using "1.prems" by (subst (1 2 3 4) range_min.simps) (auto simp: not_less)
  qed
qed

lemma range_max_spec:
  assumes "isIntegerType T" "\<forall>U. type_number M < type_number U \<and> type_number U \<le> type_number T \<longrightarrow> StandardTypeSize DM U \<le> Size"
    "type_number M \<le> type_number T"
  shows "isIntegerType (range_max DM Size T) \<and> type_number T \<le> type_number (range_max DM Size T)
    \<and> (\<forall>U. type_number M < type_number U \<and> type_number U \<le> type_number (range_max DM Size T) \<longrightarrow> StandardTypeSize DM U \<le> Size)
    \<and> (type_number (range_max DM Size T) < 4 \<longrightarrow> Size < StandardTypeSize DM (next_type (range_max DM Size T)))"
  using assms
proof (induction DM Size T rule: range_max.induct)
  case (1 DM Size T)
  show ?case
  proof (cases "type_number T < type_number LongLong_Type \<and> StandardTypeSize DM (next_type T) \<le> Size")
    case True
    then have nt: "isIntegerType (next_type T)" "type_number (next_type T) = Suc (type_number T)" using isIntegerType_next [OF "1.prems"(1)] by simp_all
    have "\<forall>U. type_number M < type_number U \<and> type_number U \<le> type_number (next_type T) \<longrightarrow> StandardTypeSize DM U \<le> Size"
    proof (intro allI impI)
      fix U assume U: "type_number M < type_number U \<and> type_number U \<le> type_number (next_type T)"
      show "StandardTypeSize DM U \<le> Size"
      proof (cases "U = next_type T")
        case False
        then have "type_number U \<le> type_number T" using U nt(2) type_number_inj [of U "next_type T"] by simp
        then show ?thesis using "1.prems"(2) U by blast
      qed (use True in simp)
    qed
    then show ?thesis using "1.IH" [OF True] True nt "1.prems"(3) by (subst (1 2 3 4 5) range_max.simps) simp
  next
    case False
    then show ?thesis using "1.prems" by (subst (1 2 3 4 5) range_max.simps) (auto simp: not_le)
  qed
qed



lemma and_power_of_2: "isPowerOf2 (unat Size) \<Longrightarrow> isPowerOf2 (unat x) \<Longrightarrow> ucast x AND Size \<noteq> 0 \<longleftrightarrow> unat x = unat Size" for Size :: u32 and x :: u8
proof -
  assume "isPowerOf2 (unat Size)" "isPowerOf2 (unat x)"
  then obtain k j where kj: "unat Size = 2 ^ k" "unat x = 2 ^ j" by (auto simp: isPowerOf2_def)
  have "(2 :: nat) ^ j < 2 ^ 8" using kj(2) unsigned_less [of x, where 'a = nat] by simp
  then have le: "j < 8" by (subst (asm) power_strict_increasing_iff) simp_all
  have "unat (ucast x AND Size :: u32) = 2 ^ j AND 2 ^ k" using kj le by (simp add: unsigned_and_eq unsigned_ucast_eq)
  also have "\<dots> = (if j = k then 2 ^ k else 0)" by (rule bit_eqI) (auto simp: bit_simps)
  finally have "unat (ucast x AND Size :: u32) = (if j = k then 2 ^ k else 0)" .
  then show ?thesis using kj by (auto simp: word_unat_eq_iff split: if_splits)
qed

text \<open>Where all standard sizes are powers of two, the supported sizes are those of the standard types and of the mask.\<close>

lemma isSupportedIntegerSize_exact:
  assumes "isPowerOf2 (unat Size)" "\<forall>T. isIntegerType T \<longrightarrow> isPowerOf2 (unat (StandardTypeSize DM T))"
  shows "isSupportedIntegerSize DM Size = Some ((\<exists>T. isIntegerType T \<and> unat (StandardTypeSize DM T) = unat Size)
    \<or> ucast (ExtendedIntegerSizeMask DM) AND Size \<noteq> 0)"
proof -
  have int: "isIntegerType T \<longleftrightarrow> T \<in> {Char_Type, Short_Type, Int_Type, Long_Type, LongLong_Type}" for T by (cases T) (simp_all add: isIntegerType_def)
  have or: "(x OR y) AND Size \<noteq> 0 \<longleftrightarrow> x AND Size \<noteq> 0 \<or> y AND Size \<noteq> 0" for x y :: u32 by (simp add: bit.conj_disj_distrib2 or_eq_0_iff)
  have "getSuportedIntegerSizeMask DM AND Size \<noteq> 0 \<longleftrightarrow>
      (\<exists>T\<in>{Char_Type, Short_Type, Int_Type, Long_Type, LongLong_Type}. ucast (StandardTypeSize DM T) AND Size \<noteq> 0)
      \<or> ucast (ExtendedIntegerSizeMask DM) AND Size \<noteq> 0"
    unfolding getSuportedIntegerSizeMask_def getStandardIntegerSizeMask_def or by blast
  also have "\<dots> \<longleftrightarrow> (\<exists>T. isIntegerType T \<and> unat (StandardTypeSize DM T) = unat Size) \<or> ucast (ExtendedIntegerSizeMask DM) AND Size \<noteq> 0"
    using assms and_power_of_2 [OF assms(1)] unfolding int by blast
  finally show ?thesis using assms(1) by (simp add: isSupportedIntegerSize_def)
qed

end
