(* ===== verification/Abi_Definition.thy ===== *)
theory Abi_Definition
  imports Register_Model Sorted_Vector C_Data_Model
begin

text \<open>
  \<^verbatim>\<open>namespace model::ABI\<close> (src/include/revng/Model/ABI.h) and \<^verbatim>\<open>abi::Definition\<close>
  (src/include/revng/Model/ABI/Definition.h, src/lib/Model/ABIDefinition.cpp): what rev.ng knows about a
  calling convention, its verification, its scalar types and the order of its registers.
\<close>

section \<open>The enumeration\<close>

datatype ABI =
    ABI_Invalid
  | SystemV_x86_64 | SystemV_x86 | SystemV_x86_regparm_3 | SystemV_x86_regparm_2 | SystemV_x86_regparm_1
  | Microsoft_x86_64 | Microsoft_x86_64_vectorcall | Microsoft_x86_cdecl | Microsoft_x86_cdecl_gcc
  | Microsoft_x86_stdcall | Microsoft_x86_stdcall_gcc | Microsoft_x86_thiscall | Microsoft_x86_fastcall
  | Microsoft_x86_fastcall_gcc | Microsoft_x86_vectorcall
  | AAPCS64 | Microsoft_AAPCS64 | Apple_AAPCS64 | AAPCS
  | SystemV_MIPS_o32 | SystemV_MIPSEL_o32 | SystemZ_s390x
  | ABI_Count

definition ABI_isValid :: "ABI \<Rightarrow> bool checked" where
  "ABI_isValid V = do { revng_assert (V \<noteq> ABI_Count); Some (V \<noteq> ABI_Invalid) }"

definition Register_isValid :: "Register \<Rightarrow> bool checked" where
  "Register_isValid V = do { revng_assert (V < Register_Count); Some (V \<noteq> Register_Invalid) }"

fun ABI_getArchitecture :: "ABI \<Rightarrow> Architecture checked" where
  "ABI_getArchitecture SystemV_x86_64 = Some x86_64"
| "ABI_getArchitecture Microsoft_x86_64 = Some x86_64"
| "ABI_getArchitecture Microsoft_x86_64_vectorcall = Some x86_64"
| "ABI_getArchitecture SystemV_x86 = Some x86"
| "ABI_getArchitecture SystemV_x86_regparm_3 = Some x86"
| "ABI_getArchitecture SystemV_x86_regparm_2 = Some x86"
| "ABI_getArchitecture SystemV_x86_regparm_1 = Some x86"
| "ABI_getArchitecture Microsoft_x86_vectorcall = Some x86"
| "ABI_getArchitecture Microsoft_x86_cdecl = Some x86"
| "ABI_getArchitecture Microsoft_x86_cdecl_gcc = Some x86"
| "ABI_getArchitecture Microsoft_x86_stdcall = Some x86"
| "ABI_getArchitecture Microsoft_x86_stdcall_gcc = Some x86"
| "ABI_getArchitecture Microsoft_x86_fastcall = Some x86"
| "ABI_getArchitecture Microsoft_x86_fastcall_gcc = Some x86"
| "ABI_getArchitecture Microsoft_x86_thiscall = Some x86"
| "ABI_getArchitecture AAPCS64 = Some aarch64"
| "ABI_getArchitecture Microsoft_AAPCS64 = Some aarch64"
| "ABI_getArchitecture Apple_AAPCS64 = Some aarch64"
| "ABI_getArchitecture AAPCS = Some arm"
| "ABI_getArchitecture SystemV_MIPS_o32 = Some mips"
| "ABI_getArchitecture SystemV_MIPSEL_o32 = Some mipsel"
| "ABI_getArchitecture SystemZ_s390x = Some systemz"
| "ABI_getArchitecture _ = revng_abort"

definition getRegisterArchitecture :: "ABI \<Rightarrow> Architecture checked" where
  "getRegisterArchitecture V = (if V = SystemV_MIPSEL_o32 then Some mips else ABI_getArchitecture V)"

definition ABI_getPointerSize :: "ABI \<Rightarrow> u64 checked" where
  "ABI_getPointerSize V = ABI_getArchitecture V \<bind> getPointerSize"

fun getDefaultForELF :: "Architecture \<Rightarrow> ABI option" where
  "getDefaultForELF x86_64 = Some SystemV_x86_64"
| "getDefaultForELF x86 = Some SystemV_x86"
| "getDefaultForELF aarch64 = Some AAPCS64"
| "getDefaultForELF arm = Some AAPCS"
| "getDefaultForELF mips = Some SystemV_MIPS_o32"
| "getDefaultForELF mipsel = Some SystemV_MIPSEL_o32"
| "getDefaultForELF systemz = Some SystemZ_s390x"
| "getDefaultForELF _ = None"

fun getDefaultForPECOFF :: "Architecture \<Rightarrow> ABI option" where
  "getDefaultForPECOFF x86_64 = Some Microsoft_x86_64"
| "getDefaultForPECOFF x86 = Some Microsoft_x86_cdecl"
| "getDefaultForPECOFF aarch64 = Some Microsoft_AAPCS64"
| "getDefaultForPECOFF _ = None"

fun getDefaultForMachO :: "Architecture \<Rightarrow> ABI option" where
  "getDefaultForMachO x86_64 = Some SystemV_x86_64"
| "getDefaultForMachO x86 = Some SystemV_x86"
| "getDefaultForMachO aarch64 = Some Apple_AAPCS64"
| "getDefaultForMachO _ = None"

section \<open>Definitions of ABIs\<close>

text \<open>
  The classes generated from src/include/revng/Model/ABI/schema.yml. The aliases of primitive types are left
  out: nothing below reads them.
\<close>

datatype ScalarKind = ScalarKind_Invalid | Integer | FloatingPoint

datatype CType = CType_Invalid | CT_Char | CT_Short | CT_Int | CT_Long | CT_LongLong | CT_Float | CT_Double | CT_LongDouble

record ScalarType =
  Kind :: ScalarKind
  ScalarSize :: u64
  AlignedAt :: u64
  CTypes :: "CType list"

record Definition =
  TheABI :: ABI
  ArgumentsArePositionBased :: bool
  OnlyStartDoubleArgumentsFromAnEvenRegister :: bool
  ArgumentsCanBeSplitBetweenRegistersAndStack :: bool
  BigArgumentsUsePointersToCopy :: bool
  NoRegisterArgumentsCanComeAfterStackOnes :: bool
  AllowPackedTypesInRegisters :: bool
  CalleeIsResponsibleForStackCleanup :: bool
  FloatsUseGPRs :: bool
  PackStackArguments :: bool
  TreatAllAggregatesAsPacked :: bool
  StackAlignment :: u64
  MinimumStackArgumentSize :: u64
  UnusedStackArgumentBytes :: u64
  MaximumGPRsPerAggregateArgument :: u64
  MaximumGPRsPerAggregateReturnValue :: u64
  MaximumGPRsPerScalarArgument :: u64
  MaximumGPRsPerScalarReturnValue :: u64
  GeneralPurposeArgumentRegisters :: "Register list"
  GeneralPurposeReturnValueRegisters :: "Register list"
  VectorArgumentRegisters :: "Register list"
  VectorReturnValueRegisters :: "Register list"
  CalleeSavedRegisters :: "Register list"
  ReturnValueLocationRegister :: Register
  ReturnValueLocationOnStack :: bool
  ReturnValueLocationIsReturned :: bool
  ScalarTypes :: "ScalarType SortedVector"

section \<open>Scalar types\<close>

definition alignedAt :: "ScalarType \<Rightarrow> u64 checked" where
  "alignedAt S = do {
     revng_assert (ScalarSize S \<noteq> 0);
     Some (if AlignedAt S \<noteq> 0 then AlignedAt S else ScalarSize S) }"

text \<open>The key of a scalar type is the pair of its kind and its size.\<close>

fun kind_number :: "ScalarKind \<Rightarrow> nat" where
  "kind_number ScalarKind_Invalid = 0"
| "kind_number Integer = 1"
| "kind_number FloatingPoint = 2"

definition ScalarTypeTraits :: "(ScalarType, ScalarKind \<times> u64) KeyedObjectTraits" where
  "ScalarTypeTraits =
     \<lparr>key_of = (\<lambda>S. (Kind S, ScalarSize S)),
      fromKey = (\<lambda>(k, n). \<lparr>Kind = k, ScalarSize = n, AlignedAt = 0, CTypes = []\<rparr>),
      Compare = (\<lambda>(k, n) (k', n'). kind_number k < kind_number k' \<or> kind_number k = kind_number k' \<and> n < n'),
      self_move = (\<lambda>S. S)\<rparr>"

definition find_scalar :: "Definition \<Rightarrow> ScalarKind \<Rightarrow> u64 \<Rightarrow> ScalarType option checked" where
  "find_scalar D K Size = do {
     I \<leftarrow> sv_find ScalarTypeTraits (ScalarTypes D) (K, Size);
     End \<leftarrow> sv_end (ScalarTypes D);
     Some (if I \<noteq> End then Some (TheVector (ScalarTypes D) ! I) else None) }"

definition findIntegerType :: "Definition \<Rightarrow> u64 \<Rightarrow> ScalarType option checked" where
  "findIntegerType D Size = find_scalar D Integer Size"

definition findFloatingPointType :: "Definition \<Rightarrow> u64 \<Rightarrow> ScalarType option checked" where
  "findFloatingPointType D Size = find_scalar D FloatingPoint Size"

definition getWidestIntegerType :: "Definition \<Rightarrow> ScalarType checked" where
  "getWidestIntegerType D = List.find (\<lambda>Scalar. Kind Scalar = Integer) (rev (TheVector (ScalarTypes D)))"

fun to_standard_type :: "CType \<Rightarrow> CStandardType checked" where
  "to_standard_type CT_Char = Some Char_Type"
| "to_standard_type CT_Short = Some Short_Type"
| "to_standard_type CT_Int = Some Int_Type"
| "to_standard_type CT_Long = Some Long_Type"
| "to_standard_type CT_LongLong = Some LongLong_Type"
| "to_standard_type CT_Float = Some Float_Type"
| "to_standard_type CT_Double = Some Double_Type"
| "to_standard_type CT_LongDouble = Some LongDouble_Type"
| "to_standard_type CType_Invalid = revng_abort"

fun set_ctypes :: "u64 \<Rightarrow> CType list \<Rightarrow> CDataModel \<Rightarrow> CDataModel checked" where
  "set_ctypes Size [] DM = Some DM"
| "set_ctypes Size (CT # CTs) DM = do {
     T \<leftarrow> to_standard_type CT;
     set_ctypes Size CTs (setStandardTypeSize T (ucast Size) DM) }"

fun set_scalars :: "ScalarType list \<Rightarrow> CDataModel \<Rightarrow> CDataModel checked" where
  "set_scalars [] DM = Some DM"
| "set_scalars (Scalar # Scalars) DM = do {
     DM' \<leftarrow> set_ctypes (ScalarSize Scalar) (CTypes Scalar) DM;
     set_scalars Scalars DM' }"

definition getDataModel :: "Definition \<Rightarrow> CDataModel checked" where
  "getDataModel D = do {
     PointerSize \<leftarrow> ABI_getPointerSize (TheABI D);
     set_scalars (TheVector (ScalarTypes D)) (getDefaultDataModel (ucast PointerSize)) }"

section \<open>Verification\<close>

fun all_used :: "Architecture \<Rightarrow> Register list \<Rightarrow> Register list \<Rightarrow> bool checked" where
  "all_used Architecture Registers [] = Some True"
| "all_used Architecture Registers (Register # Rest) = do {
     Used \<leftarrow> isUsedInArchitecture Register Architecture;
     if \<not> Used then Some False
     else if count_list Registers Register \<noteq> 1 then Some False
     else all_used Architecture Registers Rest }"

definition verifyRegisters :: "Register list \<Rightarrow> Architecture \<Rightarrow> bool checked" where
  "verifyRegisters Registers Architecture = all_used Architecture Registers Registers"

definition isVectorRegister :: "Register \<Rightarrow> bool checked" where
  "isVectorRegister Register = do { K \<leftarrow> getPrimitiveKind Register; Some (K = Float) }"

definition verifyReturnValueLocation :: "Definition \<Rightarrow> bool checked" where
  "verifyReturnValueLocation D = do {
     Valid \<leftarrow> Register_isValid (ReturnValueLocationRegister D);
     if \<not> Valid then Some True
     else do {
        Architecture \<leftarrow> getRegisterArchitecture (TheABI D);
        let RVLR = ReturnValueLocationRegister D;
        Used \<leftarrow> isUsedInArchitecture RVLR Architecture;
        if \<not> Used then Some False
        else do {
          Vector \<leftarrow> isVectorRegister RVLR;
          if Vector then Some False
          else if RVLR \<in> set (CalleeSavedRegisters D) then Some False
          else Some (case GeneralPurposeArgumentRegisters D of
              [] \<Rightarrow> True
            | First # Others \<Rightarrow> RVLR = First \<or> RVLR \<notin> set Others) } } }"

definition getScalarKind :: "CType \<Rightarrow> ScalarKind" where
  "getScalarKind T =
     (if T \<in> {CT_Char, CT_Short, CT_Int, CT_Long, CT_LongLong} then Integer
      else if T \<in> {CT_Float, CT_Double, CT_LongDouble} then FloatingPoint
      else ScalarKind_Invalid)"

fun verify_ctypes :: "ScalarKind \<Rightarrow> CType list \<Rightarrow> (CType \<Rightarrow> bool) \<Rightarrow> (CType \<Rightarrow> bool) option" where
  "verify_ctypes K [] Seen = Some Seen"
| "verify_ctypes K (CT # CTs) Seen =
     (if CT = CType_Invalid then None
      else if getScalarKind CT \<noteq> K then None
      else if Seen CT then None
      else verify_ctypes K CTs (Seen(CT := True)))"

fun verify_scalars :: "ScalarType list \<Rightarrow> (CType \<Rightarrow> bool) \<Rightarrow> bool \<Rightarrow> bool" where
  "verify_scalars [] Seen HasIntegerScalar \<longleftrightarrow> HasIntegerScalar"
| "verify_scalars (Scalar # Scalars) Seen HasIntegerScalar \<longleftrightarrow>
     (if Kind Scalar = ScalarKind_Invalid then False
      else if ScalarSize Scalar = 0 then False
      else case verify_ctypes (Kind Scalar) (CTypes Scalar) Seen of
        None \<Rightarrow> False
      | Some Seen' \<Rightarrow> verify_scalars Scalars Seen' (HasIntegerScalar \<or> Kind Scalar = Integer))"

fun verify_lists :: "Architecture \<Rightarrow> Register list list \<Rightarrow> bool checked" where
  "verify_lists Architecture [] = Some True"
| "verify_lists Architecture (Registers # Rest) = do {
     Ok \<leftarrow> verifyRegisters Registers Architecture;
     if \<not> Ok then Some False else verify_lists Architecture Rest }"

definition Definition_verify :: "Definition \<Rightarrow> bool checked" where
  "Definition_verify D = do {
     Valid \<leftarrow> ABI_isValid (TheABI D);
     if \<not> Valid then Some False
      else if StackAlignment D = 0 then Some False
      else if MinimumStackArgumentSize D = 0 then Some False
      else do {
        Architecture \<leftarrow> getRegisterArchitecture (TheABI D);
        Lists \<leftarrow> verify_lists Architecture
          [GeneralPurposeArgumentRegisters D, GeneralPurposeReturnValueRegisters D,
           VectorArgumentRegisters D, VectorReturnValueRegisters D, CalleeSavedRegisters D];
        if \<not> Lists then Some False
        else do {
          Location \<leftarrow> verifyReturnValueLocation D;
          if \<not> Location then Some False
          else if TheVector (ScalarTypes D) = [] then Some False
          else if \<not> verify_scalars (TheVector (ScalarTypes D)) (\<lambda>_. False) False then Some False
          else do { DM \<leftarrow> getDataModel D; Some (DM_verify DM) } } } }"

section \<open>The order of registers\<close>

definition emplace_new :: "Register list \<Rightarrow> Register list \<Rightarrow> Register list" where
  "emplace_new = fold (\<lambda>Register Result. if Register \<in> set Result then Result else Result @ [Register])"

definition argumentOrder :: "Definition \<Rightarrow> Register list" where
  "argumentOrder D =
     (let GPRs = GeneralPurposeArgumentRegisters D;
          RVL = ReturnValueLocationRegister D;
          Result = (if RVL \<noteq> Register_Invalid \<and> RVL \<notin> set GPRs then [RVL] else [])
      in emplace_new (VectorArgumentRegisters D) (emplace_new GPRs Result))"

definition returnValueOrder :: "Definition \<Rightarrow> Register list" where
  "returnValueOrder D =
     emplace_new (VectorReturnValueRegisters D) (emplace_new (GeneralPurposeReturnValueRegisters D) [])"

fun pick_contained :: "Register SortedVector \<Rightarrow> Register list \<Rightarrow> Register list checked" where
  "pick_contained Lookup [] = Some []"
| "pick_contained Lookup (Register # Order) = do {
     Contained \<leftarrow> sv_contains IdentityKeyedObjectTraits Lookup Register;
     Rest \<leftarrow> pick_contained Lookup Order;
     Some (if Contained then Register # Rest else Rest) }"

definition sort_registers :: "Register list \<Rightarrow> Register list \<Rightarrow> Register list checked" where
  "sort_registers Order Registers = do {
     Lookup \<leftarrow> sv_batch True IdentityKeyedObjectTraits sv_new Registers;
     Result \<leftarrow> pick_contained Lookup Order;
     revng_assert (length Registers = length Result);
     Some Result }"

definition sortArguments :: "Definition \<Rightarrow> Register list \<Rightarrow> Register list checked" where
  "sortArguments D Registers = sort_registers (argumentOrder D) Registers"

definition sortReturnValues :: "Definition \<Rightarrow> Register list \<Rightarrow> Register list checked" where
  "sortReturnValues D Registers = sort_registers (returnValueOrder D) Registers"

section \<open>Compatibility with a raw function\<close>

text \<open>The registers of a \<^verbatim>\<open>model::RawFunctionDefinition\<close>; its other fields are not read.\<close>

record RawFunctionDefinition =
  RFT_Arguments :: "Register list"
  RFT_ReturnValues :: "Register list"
  PreservedRegisters :: "Register list"

text \<open>
  The loop over the registers of the function: what was inserted when it ends, and whether it ends early
  with the answer \<^verbatim>\<open>false\<close>. The batch is committed in both cases.
\<close>

fun used_prefix :: "Architecture \<Rightarrow> Register list \<Rightarrow> (Register list \<times> bool) checked" where
  "used_prefix Architecture [] = Some ([], True)"
| "used_prefix Architecture (R # Rs) = do {
     Used \<leftarrow> isUsedInArchitecture R Architecture;
     if \<not> Used then Some ([], False)
     else do { (Inserted, Ok) \<leftarrow> used_prefix Architecture Rs; Some (R # Inserted, Ok) } }"

fun std_includes :: "'a::linorder list \<Rightarrow> 'a list \<Rightarrow> bool" where
  "std_includes xs [] \<longleftrightarrow> True"
| "std_includes [] (y # ys) \<longleftrightarrow> False"
| "std_includes (x # xs) (y # ys) \<longleftrightarrow> (if y < x then False else if x < y then std_includes xs (y # ys) else std_includes xs ys)"

definition registers_allowed :: "Architecture \<Rightarrow> Register list \<Rightarrow> Register list \<Rightarrow> bool checked" where
  "registers_allowed Architecture Registers Allowed = do {
     (Inserted, Ok) \<leftarrow> used_prefix Architecture Registers;
     Used \<leftarrow> sv_batch True IdentityKeyedObjectTraits sv_new Inserted;
     if \<not> Ok then Some False
     else do {
       AllowedSet \<leftarrow> sv_batch False IdentityKeyedObjectTraits sv_new Allowed;
       Some (std_includes (TheVector AllowedSet) (TheVector Used)) } }"

definition isPreliminarilyCompatibleWith :: "Definition \<Rightarrow> RawFunctionDefinition \<Rightarrow> bool checked" where
  "isPreliminarilyCompatibleWith D Function = do {
     Ok \<leftarrow> Definition_verify D;
     revng_assert Ok;
     Architecture \<leftarrow> getRegisterArchitecture (TheABI D);
     Arguments \<leftarrow> registers_allowed Architecture (RFT_Arguments Function)
       (GeneralPurposeArgumentRegisters D @ VectorArgumentRegisters D);
     if \<not> Arguments then Some False
     else do {
       ReturnValues \<leftarrow> registers_allowed Architecture (RFT_ReturnValues Function)
         (GeneralPurposeReturnValueRegisters D @ VectorReturnValueRegisters D);
       if \<not> ReturnValues then Some False
       else do {
         (_, Preserved) \<leftarrow> used_prefix Architecture (PreservedRegisters Function);
         Some Preserved } } }"

section \<open>Scalar types and registers\<close>

lemma kind_number_inj: "kind_number k = kind_number k' \<longleftrightarrow> k = k'"
  by (cases k; cases k') simp_all

interpretation scalar_keys: keyed_object ScalarTypeTraits
  by unfold_locales (auto simp: ScalarTypeTraits_def)

lemma scalar_keysEqual: "keysEqual ScalarTypeTraits k k' \<longleftrightarrow> k = k'"
  by (cases k; cases k') (auto simp: keysEqual_def compareKeys_def ScalarTypeTraits_def kind_number_inj)

lemma identity_keysEqual: "keysEqual IdentityKeyedObjectTraits k k' \<longleftrightarrow> k = k'" for k :: "'a::linorder"
  by (auto simp: keysEqual_def compareKeys_def IdentityKeyedObjectTraits_def)

text \<open>The lookup by bisection finds the scalar type of a kind and a size, if there is one.\<close>

lemma find_scalar_correct:
  assumes "sv_inv ScalarTypeTraits (ScalarTypes D)"
  shows "\<exists>r. find_scalar D K n = Some r \<and> (\<forall>S. r = Some S \<longleftrightarrow> S \<in> set (TheVector (ScalarTypes D)) \<and> Kind S = K \<and> ScalarSize S = n)"
proof -
  let ?V = "TheVector (ScalarTypes D)"
  obtain i where i: "sv_find ScalarTypeTraits (ScalarTypes D) (K, n) = Some i" "sv_end (ScalarTypes D) = Some (length ?V)"
    "if sv_lookup ScalarTypeTraits ?V (K, n) = None then i = length ?V
     else i < length ?V \<and> sv_lookup ScalarTypeTraits ?V (K, n) = Some (?V ! i)"
    by (rule scalar_keys.sv_find_correct [OF assms])
  have "find_scalar D K n = Some (sv_lookup ScalarTypeTraits ?V (K, n))"
    using i by (auto simp: find_scalar_def split: if_splits)
  moreover have "sv_lookup ScalarTypeTraits ?V (K, n) = Some S \<longleftrightarrow> S \<in> set ?V \<and> Kind S = K \<and> ScalarSize S = n" for S
  proof
    assume "sv_lookup ScalarTypeTraits ?V (K, n) = Some S"
    then show "S \<in> set ?V \<and> Kind S = K \<and> ScalarSize S = n"
      by (auto simp: sv_lookup_def find_Some_iff scalar_keysEqual) (simp_all add: ScalarTypeTraits_def)
  next
    assume "S \<in> set ?V \<and> Kind S = K \<and> ScalarSize S = n"
    then show "sv_lookup ScalarTypeTraits ?V (K, n) = Some S"
      using scalar_keys.lookup_member [of ?V S] assms by (auto simp: sv_inv_def ScalarTypeTraits_def)
  qed
  ultimately show ?thesis by blast
qed

lemma getWidestIntegerType_correct:
  assumes "sv_inv ScalarTypeTraits (ScalarTypes D)" "getWidestIntegerType D = Some S"
  shows "S \<in> set (TheVector (ScalarTypes D)) \<and> Kind S = Integer
    \<and> (\<forall>S'\<in>set (TheVector (ScalarTypes D)). Kind S' = Integer \<longrightarrow> ScalarSize S' \<le> ScalarSize S)"
proof -
  obtain i where i: "i < length (TheVector (ScalarTypes D))" "S = rev (TheVector (ScalarTypes D)) ! i" "Kind S = Integer"
    "\<forall>j<i. Kind (rev (TheVector (ScalarTypes D)) ! j) \<noteq> Integer"
    using assms(2) by (auto simp: getWidestIntegerType_def find_Some_iff)
  let ?V = "TheVector (ScalarTypes D)" and ?n = "length (TheVector (ScalarTypes D)) - Suc i"
  have S: "S = ?V ! ?n" "?n < length ?V" using i by (simp_all add: rev_nth)
  have "ScalarSize S' \<le> ScalarSize S" if S': "S' \<in> set ?V" "Kind S' = Integer" for S'
  proof -
    obtain j where j: "j < length ?V" "S' = ?V ! j" using S'(1) by (auto simp: in_set_conv_nth)
    have "\<not> ?n < j"
    proof
      assume "?n < j"
      then have "length ?V - Suc j < i" "rev ?V ! (length ?V - Suc j) = S'" using j by (simp_all add: rev_nth)
      then show False using i(4) S'(2) by blast
    qed
    then have "j = ?n \<or> compareElements ScalarTypeTraits S' S"
      using assms(1) S j by (cases "j = ?n") (auto simp: sv_inv_def sorted_wrt_iff_nth_less)
    then show ?thesis using S j S'(2) i(3) by (auto simp: compareElements_def compareKeys_def ScalarTypeTraits_def)
  qed
  then show ?thesis using S i(3) by auto
qed

section \<open>Sorting registers\<close>

lemma emplace_new_distinct: "distinct acc \<Longrightarrow> distinct (emplace_new rs acc) \<and> set (emplace_new rs acc) = set acc \<union> set rs"
  unfolding emplace_new_def by (induction rs arbitrary: acc) auto

lemma register_orders:
  "distinct (argumentOrder D)" "distinct (returnValueOrder D)"
  "set (returnValueOrder D) = set (GeneralPurposeReturnValueRegisters D) \<union> set (VectorReturnValueRegisters D)"
  "set (argumentOrder D) = set (GeneralPurposeArgumentRegisters D) \<union> set (VectorArgumentRegisters D)
     \<union> (if ReturnValueLocationRegister D \<noteq> Register_Invalid then {ReturnValueLocationRegister D} else {})"
  by (auto simp: argumentOrder_def returnValueOrder_def Let_def emplace_new_distinct)

lemma identity_lookup: "sv_lookup IdentityKeyedObjectTraits xs x \<noteq> None \<longleftrightarrow> x \<in> set xs" for x :: "'a::linorder"
  by (auto simp: sv_lookup_def find_None_iff identity_keysEqual) (simp_all add: IdentityKeyedObjectTraits_def)

lemma identity_elementsEqual: "elementsEqual IdentityKeyedObjectTraits x y \<longleftrightarrow> x = y" for x :: "'a::linorder"
  by (simp add: elementsEqual_def identity_keysEqual) (simp add: IdentityKeyedObjectTraits_def)

lemma identity_keys_distinct: "keys_distinct IdentityKeyedObjectTraits xs \<longleftrightarrow> distinct xs" for xs :: "'a::linorder list"
  by (induction xs) (auto simp: keys_distinct_def identity_elementsEqual)

lemma register_batch:
  "sv_batch True IdentityKeyedObjectTraits sv_new rs =
     (if distinct rs then Some \<lparr>TheVector = stable_sort (compareElements IdentityKeyedObjectTraits) rs, BatchInsertInProgress = False\<rparr> else None)"
  for rs :: "'a::linorder list"
  using identity_keys.sv_batch_unique [of sv_new rs] by (simp add: sv_new_def identity_keys_distinct)

lemma pick_contained_eq:
  assumes "sv_inv IdentityKeyedObjectTraits V"
  shows "pick_contained V Order = Some (filter (\<lambda>r. r \<in> set (TheVector V)) Order)"
proof -
  have "sv_contains IdentityKeyedObjectTraits V r = Some (r \<in> set (TheVector V))" for r
    using identity_keys.sv_find_derived [OF assms, of r] identity_lookup [of "TheVector V" r] by auto
  then show ?thesis by (induction Order) simp_all
qed

lemma sort_registers_eq:
  assumes "distinct Order"
  shows "sort_registers Order rs =
    (if distinct rs \<and> set rs \<subseteq> set Order then Some (filter (\<lambda>r. r \<in> set rs) Order) else None)"
proof (cases "distinct rs")
  case True
  then obtain V where V: "sv_batch True IdentityKeyedObjectTraits sv_new rs = Some V" "set (TheVector V) = set rs"
    by (simp add: register_batch)
  have inv: "sv_inv IdentityKeyedObjectTraits V"
    by (rule identity_keys.sv_batch_unique_inv [OF _ V(1)]) (simp add: sv_new_def)
  have "length rs = length (filter (\<lambda>r. r \<in> set rs) Order) \<longleftrightarrow> set rs \<subseteq> set Order"
  proof -
    have "distinct (filter (\<lambda>r. r \<in> set rs) Order)" "set (filter (\<lambda>r. r \<in> set rs) Order) = set rs \<inter> set Order"
      using assms by auto
    then have "length rs = card (set rs)" "length (filter (\<lambda>r. r \<in> set rs) Order) = card (set rs \<inter> set Order)"
      using True distinct_card by metis+
    then show ?thesis using card_subset_eq [of "set rs" "set rs \<inter> set Order"] by (auto simp: Int_absorb2)
  qed
  then show ?thesis using V pick_contained_eq [OF inv, of Order] True by (simp add: sort_registers_def revng_assert_bind)
qed (simp add: sort_registers_def register_batch)

section \<open>Compatibility\<close>

lemma std_includes_iff: "sorted_wrt (<) xs \<Longrightarrow> sorted_wrt (<) ys \<Longrightarrow> std_includes xs ys \<longleftrightarrow> set ys \<subseteq> set xs"
proof (induction xs ys rule: std_includes.induct)
  case (3 x xs y ys)
  then show ?case by (cases "y < x"; cases "x < y") force+
qed auto

lemma identity_compareElements: "compareElements IdentityKeyedObjectTraits = (<)"
  by (intro ext) (simp add: compareElements_def compareKeys_def IdentityKeyedObjectTraits_def)

lemma batch_sorted:
  "sv_batch True IdentityKeyedObjectTraits sv_new rs = Some V \<Longrightarrow> sorted_wrt (<) (TheVector V) \<and> set (TheVector V) = set rs"
  "\<exists>V. sv_batch False IdentityKeyedObjectTraits sv_new rs = Some V \<and> sorted_wrt (<) (TheVector V) \<and> set (TheVector V) = set rs"
  for rs :: "'a::linorder list"
proof -
  assume V: "sv_batch True IdentityKeyedObjectTraits sv_new rs = Some V"
  have "sv_inv IdentityKeyedObjectTraits V" by (rule identity_keys.sv_batch_unique_inv [OF _ V]) (simp add: sv_new_def)
  then show "sorted_wrt (<) (TheVector V) \<and> set (TheVector V) = set rs"
    using V by (auto simp: register_batch sv_inv_def identity_compareElements split: if_splits)
next
  obtain W where W: "sv_sort False IdentityKeyedObjectTraits \<lparr>TheVector = rs, BatchInsertInProgress = False\<rparr> = Some W"
    "sv_inv IdentityKeyedObjectTraits W"
    "\<And>k. sv_lookup IdentityKeyedObjectTraits (TheVector W) k =
      (let m = filter (\<lambda>y. keysEqual IdentityKeyedObjectTraits (key_of IdentityKeyedObjectTraits y) k) rs in if m = [] then None else Some (last m))"
    using identity_keys.sv_sort_assign_correct [of "\<lparr>TheVector = rs, BatchInsertInProgress = False\<rparr>"]
    by (auto simp: IdentityKeyedObjectTraits_def)
  have "k \<in> set (TheVector W) \<longleftrightarrow> k \<in> set rs" for k
    unfolding identity_lookup [symmetric, of k "TheVector W"] W(3) Let_def
    by (simp add: filter_empty_conv identity_keysEqual) (auto simp: IdentityKeyedObjectTraits_def)
  then have "set (TheVector W) = set rs" by blast
  then show "\<exists>V. sv_batch False IdentityKeyedObjectTraits sv_new rs = Some V \<and> sorted_wrt (<) (TheVector V) \<and> set (TheVector V) = set rs"
    using W(1,2) sv_batch_eq [of sv_new False IdentityKeyedObjectTraits rs] by (auto simp: sv_new_def sv_inv_def identity_compareElements)
qed

definition used_in :: "Architecture \<Rightarrow> Register \<Rightarrow> bool" where
  "used_in A R \<longleftrightarrow> isUsedInArchitecture R A = Some True"

lemma used_prefix_eq:
  assumes "\<forall>R\<in>set Rs. isUsedInArchitecture R A \<noteq> None"
  shows "used_prefix A Rs = Some (takeWhile (used_in A) Rs, list_all (used_in A) Rs)"
  using assms by (induction Rs) (auto simp: used_in_def)


lemma registers_allowed_eq:
  assumes "\<forall>R\<in>set Rs. isUsedInArchitecture R A \<noteq> None" "distinct Rs"
  shows "registers_allowed A Rs Allowed = Some (list_all (used_in A) Rs \<and> set Rs \<subseteq> set Allowed)"
proof -
  let ?P = "takeWhile (used_in A) Rs"
  have "distinct ?P" using assms(2) by simp
  then obtain V where V: "sv_batch True IdentityKeyedObjectTraits sv_new ?P = Some V" by (simp add: register_batch)
  obtain W where W: "sv_batch False IdentityKeyedObjectTraits sv_new Allowed = Some W" "sorted_wrt (<) (TheVector W)" "set (TheVector W) = set Allowed"
    using batch_sorted(2) by blast
  have "std_includes (TheVector W) (TheVector V) \<longleftrightarrow> set ?P \<subseteq> set Allowed"
    using std_includes_iff [of "TheVector W" "TheVector V"] batch_sorted(1) [OF V] W by simp
  moreover have "?P = Rs" if "list_all (used_in A) Rs" using that by (simp add: takeWhile_eq_all_conv list_all_iff)
  ultimately show ?thesis using V W(1) by (cases "list_all (used_in A) Rs") (simp_all add: registers_allowed_def used_prefix_eq [OF assms(1)])
qed

lemma architecture_of_ABI: "ABI_isValid V = Some True \<Longrightarrow> \<exists>A. getRegisterArchitecture V = Some A \<and> A \<noteq> Architecture_Invalid"
  by (cases V) (simp_all add: ABI_isValid_def getRegisterArchitecture_def)

lemma used_total: "1 \<le> R \<and> R < 223 \<Longrightarrow> A \<noteq> Architecture_Invalid \<Longrightarrow> isUsedInArchitecture R A \<noteq> None"
  by (auto simp: isUsedInArchitecture_def getReferenceArchitecture_eq revng_assert_bind)

lemma Definition_verify_valid: "Definition_verify D = Some True \<Longrightarrow> ABI_isValid (TheABI D) = Some True"
  by (auto simp: Definition_verify_def bind_Some_iff split: if_splits)

section \<open>Properties\<close>


end
