(* ===== verification/Abi_Shipped.thy ===== *)
theory Abi_Shipped
  imports Abi_Definition
begin

text \<open>
  The definitions of ABIs rev.ng comes with (src/share/revng/abi), as \<^verbatim>\<open>Definition::get\<close> reads them; a field the
  file does not give has the default of src/include/revng/Model/ABI/schema.yml. They all pass verification.
\<close>

definition scalar :: "ScalarKind \<Rightarrow> u64 \<Rightarrow> u64 \<Rightarrow> CType list \<Rightarrow> ScalarType" where
  "scalar K Size At Cs = \<lparr>Kind = K, ScalarSize = Size, AlignedAt = At, CTypes = Cs\<rparr>"

definition AAPCS_definition :: Definition where
  "AAPCS_definition =
     \<lparr>TheABI = AAPCS,
      ArgumentsArePositionBased = False,
      OnlyStartDoubleArgumentsFromAnEvenRegister = True,
      ArgumentsCanBeSplitBetweenRegistersAndStack = True,
      BigArgumentsUsePointersToCopy = False,
      NoRegisterArgumentsCanComeAfterStackOnes = True,
      AllowPackedTypesInRegisters = True,
      CalleeIsResponsibleForStackCleanup = False,
      FloatsUseGPRs = False,
      PackStackArguments = False,
      TreatAllAggregatesAsPacked = False,
      StackAlignment = 8,
      MinimumStackArgumentSize = 4,
      UnusedStackArgumentBytes = 0,
      MaximumGPRsPerAggregateArgument = 4,
      MaximumGPRsPerAggregateReturnValue = 1,
      MaximumGPRsPerScalarArgument = 4,
      MaximumGPRsPerScalarReturnValue = 4,
      GeneralPurposeArgumentRegisters = [r0_arm, r1_arm, r2_arm, r3_arm],
      GeneralPurposeReturnValueRegisters = [r0_arm, r1_arm, r2_arm, r3_arm],
      VectorArgumentRegisters = [q0_arm, q1_arm, q2_arm, q3_arm],
      VectorReturnValueRegisters = [q0_arm, q1_arm, q2_arm, q3_arm],
      CalleeSavedRegisters = [
        r4_arm, r5_arm, r6_arm, r7_arm, r8_arm, r10_arm, r11_arm, r14_arm, q4_arm, q5_arm, q6_arm,
        q7_arm],
      ReturnValueLocationRegister = r0_arm,
      ReturnValueLocationOnStack = False,
      ReturnValueLocationIsReturned = True,
      ScalarTypes = \<lparr>TheVector = [
        scalar Integer 1 0 [],
        scalar Integer 2 0 [],
        scalar Integer 4 0 [],
        scalar Integer 8 0 [],
        scalar FloatingPoint 2 0 [],
        scalar FloatingPoint 4 0 [],
        scalar FloatingPoint 8 0 []],
        BatchInsertInProgress = False\<rparr>\<rparr>"

definition AAPCS64_definition :: Definition where
  "AAPCS64_definition =
     \<lparr>TheABI = AAPCS64,
      ArgumentsArePositionBased = False,
      OnlyStartDoubleArgumentsFromAnEvenRegister = True,
      ArgumentsCanBeSplitBetweenRegistersAndStack = True,
      BigArgumentsUsePointersToCopy = True,
      NoRegisterArgumentsCanComeAfterStackOnes = False,
      AllowPackedTypesInRegisters = True,
      CalleeIsResponsibleForStackCleanup = False,
      FloatsUseGPRs = False,
      PackStackArguments = False,
      TreatAllAggregatesAsPacked = False,
      StackAlignment = 16,
      MinimumStackArgumentSize = 8,
      UnusedStackArgumentBytes = 0,
      MaximumGPRsPerAggregateArgument = 2,
      MaximumGPRsPerAggregateReturnValue = 2,
      MaximumGPRsPerScalarArgument = 2,
      MaximumGPRsPerScalarReturnValue = 2,
      GeneralPurposeArgumentRegisters = [
        x0_aarch64, x1_aarch64, x2_aarch64, x3_aarch64, x4_aarch64, x5_aarch64, x6_aarch64, x7_aarch64],
      GeneralPurposeReturnValueRegisters = [
        x0_aarch64, x1_aarch64, x2_aarch64, x3_aarch64, x4_aarch64, x5_aarch64, x6_aarch64, x7_aarch64],
      VectorArgumentRegisters = [
        v0_aarch64, v1_aarch64, v2_aarch64, v3_aarch64, v4_aarch64, v5_aarch64, v6_aarch64, v7_aarch64],
      VectorReturnValueRegisters = [
        v0_aarch64, v1_aarch64, v2_aarch64, v3_aarch64, v4_aarch64, v5_aarch64, v6_aarch64, v7_aarch64],
      CalleeSavedRegisters = [
        x19_aarch64, x20_aarch64, x21_aarch64, x22_aarch64, x23_aarch64, x24_aarch64, x25_aarch64,
        x26_aarch64, x27_aarch64, x28_aarch64, x29_aarch64, v8_aarch64, v9_aarch64, v10_aarch64,
        v11_aarch64, v12_aarch64, v13_aarch64, v14_aarch64, v15_aarch64],
      ReturnValueLocationRegister = x8_aarch64,
      ReturnValueLocationOnStack = False,
      ReturnValueLocationIsReturned = False,
      ScalarTypes = \<lparr>TheVector = [
        scalar Integer 1 0 [],
        scalar Integer 2 0 [],
        scalar Integer 4 0 [],
        scalar Integer 8 0 [],
        scalar Integer 16 0 [],
        scalar FloatingPoint 2 0 [],
        scalar FloatingPoint 4 0 [],
        scalar FloatingPoint 8 0 [],
        scalar FloatingPoint 16 0 [CT_LongDouble]],
        BatchInsertInProgress = False\<rparr>\<rparr>"

definition Apple_AAPCS64_definition :: Definition where
  "Apple_AAPCS64_definition =
     \<lparr>TheABI = Apple_AAPCS64,
      ArgumentsArePositionBased = False,
      OnlyStartDoubleArgumentsFromAnEvenRegister = False,
      ArgumentsCanBeSplitBetweenRegistersAndStack = False,
      BigArgumentsUsePointersToCopy = True,
      NoRegisterArgumentsCanComeAfterStackOnes = False,
      AllowPackedTypesInRegisters = True,
      CalleeIsResponsibleForStackCleanup = False,
      FloatsUseGPRs = False,
      PackStackArguments = True,
      TreatAllAggregatesAsPacked = True,
      StackAlignment = 16,
      MinimumStackArgumentSize = 8,
      UnusedStackArgumentBytes = 0,
      MaximumGPRsPerAggregateArgument = 2,
      MaximumGPRsPerAggregateReturnValue = 2,
      MaximumGPRsPerScalarArgument = 2,
      MaximumGPRsPerScalarReturnValue = 2,
      GeneralPurposeArgumentRegisters = [
        x0_aarch64, x1_aarch64, x2_aarch64, x3_aarch64, x4_aarch64, x5_aarch64, x6_aarch64, x7_aarch64],
      GeneralPurposeReturnValueRegisters = [
        x0_aarch64, x1_aarch64, x2_aarch64, x3_aarch64, x4_aarch64, x5_aarch64, x6_aarch64, x7_aarch64],
      VectorArgumentRegisters = [
        v0_aarch64, v1_aarch64, v2_aarch64, v3_aarch64, v4_aarch64, v5_aarch64, v6_aarch64, v7_aarch64],
      VectorReturnValueRegisters = [
        v0_aarch64, v1_aarch64, v2_aarch64, v3_aarch64, v4_aarch64, v5_aarch64, v6_aarch64, v7_aarch64],
      CalleeSavedRegisters = [
        x19_aarch64, x20_aarch64, x21_aarch64, x22_aarch64, x23_aarch64, x24_aarch64, x25_aarch64,
        x26_aarch64, x27_aarch64, x28_aarch64, x29_aarch64, v8_aarch64, v9_aarch64, v10_aarch64,
        v11_aarch64, v12_aarch64, v13_aarch64, v14_aarch64, v15_aarch64],
      ReturnValueLocationRegister = x8_aarch64,
      ReturnValueLocationOnStack = False,
      ReturnValueLocationIsReturned = False,
      ScalarTypes = \<lparr>TheVector = [
        scalar Integer 1 0 [],
        scalar Integer 2 0 [],
        scalar Integer 4 0 [],
        scalar Integer 8 0 [],
        scalar Integer 16 0 [],
        scalar FloatingPoint 2 0 [],
        scalar FloatingPoint 4 0 [],
        scalar FloatingPoint 8 0 [],
        scalar FloatingPoint 16 0 [CT_LongDouble]],
        BatchInsertInProgress = False\<rparr>\<rparr>"

definition Microsoft_AAPCS64_definition :: Definition where
  "Microsoft_AAPCS64_definition =
     \<lparr>TheABI = Microsoft_AAPCS64,
      ArgumentsArePositionBased = False,
      OnlyStartDoubleArgumentsFromAnEvenRegister = True,
      ArgumentsCanBeSplitBetweenRegistersAndStack = True,
      BigArgumentsUsePointersToCopy = True,
      NoRegisterArgumentsCanComeAfterStackOnes = False,
      AllowPackedTypesInRegisters = True,
      CalleeIsResponsibleForStackCleanup = False,
      FloatsUseGPRs = False,
      PackStackArguments = False,
      TreatAllAggregatesAsPacked = False,
      StackAlignment = 16,
      MinimumStackArgumentSize = 8,
      UnusedStackArgumentBytes = 0,
      MaximumGPRsPerAggregateArgument = 2,
      MaximumGPRsPerAggregateReturnValue = 2,
      MaximumGPRsPerScalarArgument = 2,
      MaximumGPRsPerScalarReturnValue = 1,
      GeneralPurposeArgumentRegisters = [
        x0_aarch64, x1_aarch64, x2_aarch64, x3_aarch64, x4_aarch64, x5_aarch64, x6_aarch64, x7_aarch64],
      GeneralPurposeReturnValueRegisters = [
        x0_aarch64, x1_aarch64, x2_aarch64, x3_aarch64, x4_aarch64, x5_aarch64, x6_aarch64, x7_aarch64],
      VectorArgumentRegisters = [
        v0_aarch64, v1_aarch64, v2_aarch64, v3_aarch64, v4_aarch64, v5_aarch64, v6_aarch64, v7_aarch64],
      VectorReturnValueRegisters = [
        v0_aarch64, v1_aarch64, v2_aarch64, v3_aarch64, v4_aarch64, v5_aarch64, v6_aarch64, v7_aarch64],
      CalleeSavedRegisters = [
        x19_aarch64, x20_aarch64, x21_aarch64, x22_aarch64, x23_aarch64, x24_aarch64, x25_aarch64,
        x26_aarch64, x27_aarch64, x28_aarch64, x29_aarch64, v8_aarch64, v9_aarch64, v10_aarch64,
        v11_aarch64, v12_aarch64, v13_aarch64, v14_aarch64, v15_aarch64],
      ReturnValueLocationRegister = x8_aarch64,
      ReturnValueLocationOnStack = False,
      ReturnValueLocationIsReturned = False,
      ScalarTypes = \<lparr>TheVector = [
        scalar Integer 1 0 [],
        scalar Integer 2 0 [],
        scalar Integer 4 0 [CT_Long],
        scalar Integer 8 0 [],
        scalar Integer 16 0 [],
        scalar FloatingPoint 2 0 [],
        scalar FloatingPoint 4 0 [],
        scalar FloatingPoint 8 0 [],
        scalar FloatingPoint 16 0 []],
        BatchInsertInProgress = False\<rparr>\<rparr>"

definition Microsoft_x86_64_definition :: Definition where
  "Microsoft_x86_64_definition =
     \<lparr>TheABI = Microsoft_x86_64,
      ArgumentsArePositionBased = True,
      OnlyStartDoubleArgumentsFromAnEvenRegister = False,
      ArgumentsCanBeSplitBetweenRegistersAndStack = False,
      BigArgumentsUsePointersToCopy = False,
      NoRegisterArgumentsCanComeAfterStackOnes = False,
      AllowPackedTypesInRegisters = True,
      CalleeIsResponsibleForStackCleanup = False,
      FloatsUseGPRs = False,
      PackStackArguments = False,
      TreatAllAggregatesAsPacked = False,
      StackAlignment = 16,
      MinimumStackArgumentSize = 8,
      UnusedStackArgumentBytes = 32,
      MaximumGPRsPerAggregateArgument = 1,
      MaximumGPRsPerAggregateReturnValue = 1,
      MaximumGPRsPerScalarArgument = 1,
      MaximumGPRsPerScalarReturnValue = 1,
      GeneralPurposeArgumentRegisters = [rcx_x86_64, rdx_x86_64, r8_x86_64, r9_x86_64],
      GeneralPurposeReturnValueRegisters = [rax_x86_64],
      VectorArgumentRegisters = [zmm0_x86_64, zmm1_x86_64, zmm2_x86_64, zmm3_x86_64],
      VectorReturnValueRegisters = [zmm0_x86_64],
      CalleeSavedRegisters = [
        r12_x86_64, r13_x86_64, r14_x86_64, r15_x86_64, rdi_x86_64, rsi_x86_64, rbx_x86_64,
        rbp_x86_64, zmm6_x86_64, zmm7_x86_64],
      ReturnValueLocationRegister = rcx_x86_64,
      ReturnValueLocationOnStack = False,
      ReturnValueLocationIsReturned = True,
      ScalarTypes = \<lparr>TheVector = [
        scalar Integer 1 0 [],
        scalar Integer 2 0 [],
        scalar Integer 4 0 [CT_Long],
        scalar Integer 8 0 [],
        scalar Integer 16 0 [],
        scalar FloatingPoint 2 0 [],
        scalar FloatingPoint 4 0 [],
        scalar FloatingPoint 8 0 []],
        BatchInsertInProgress = False\<rparr>\<rparr>"

definition Microsoft_x86_64_vectorcall_definition :: Definition where
  "Microsoft_x86_64_vectorcall_definition =
     \<lparr>TheABI = Microsoft_x86_64_vectorcall,
      ArgumentsArePositionBased = True,
      OnlyStartDoubleArgumentsFromAnEvenRegister = False,
      ArgumentsCanBeSplitBetweenRegistersAndStack = False,
      BigArgumentsUsePointersToCopy = False,
      NoRegisterArgumentsCanComeAfterStackOnes = False,
      AllowPackedTypesInRegisters = True,
      CalleeIsResponsibleForStackCleanup = False,
      FloatsUseGPRs = False,
      PackStackArguments = False,
      TreatAllAggregatesAsPacked = False,
      StackAlignment = 16,
      MinimumStackArgumentSize = 8,
      UnusedStackArgumentBytes = 32,
      MaximumGPRsPerAggregateArgument = 1,
      MaximumGPRsPerAggregateReturnValue = 1,
      MaximumGPRsPerScalarArgument = 1,
      MaximumGPRsPerScalarReturnValue = 1,
      GeneralPurposeArgumentRegisters = [rcx_x86_64, rdx_x86_64, r8_x86_64, r9_x86_64],
      GeneralPurposeReturnValueRegisters = [rax_x86_64],
      VectorArgumentRegisters = [
        zmm0_x86_64, zmm1_x86_64, zmm2_x86_64, zmm3_x86_64, zmm4_x86_64, zmm5_x86_64],
      VectorReturnValueRegisters = [zmm0_x86_64],
      CalleeSavedRegisters = [
        r12_x86_64, r13_x86_64, r14_x86_64, r15_x86_64, rdi_x86_64, rsi_x86_64, rbx_x86_64,
        rbp_x86_64, zmm6_x86_64, zmm7_x86_64],
      ReturnValueLocationRegister = rcx_x86_64,
      ReturnValueLocationOnStack = False,
      ReturnValueLocationIsReturned = True,
      ScalarTypes = \<lparr>TheVector = [
        scalar Integer 1 0 [],
        scalar Integer 2 0 [],
        scalar Integer 4 0 [CT_Long],
        scalar Integer 8 0 [],
        scalar Integer 16 0 [],
        scalar FloatingPoint 2 0 [],
        scalar FloatingPoint 4 0 [],
        scalar FloatingPoint 8 0 []],
        BatchInsertInProgress = False\<rparr>\<rparr>"

definition Microsoft_x86_cdecl_definition :: Definition where
  "Microsoft_x86_cdecl_definition =
     \<lparr>TheABI = Microsoft_x86_cdecl,
      ArgumentsArePositionBased = False,
      OnlyStartDoubleArgumentsFromAnEvenRegister = False,
      ArgumentsCanBeSplitBetweenRegistersAndStack = False,
      BigArgumentsUsePointersToCopy = False,
      NoRegisterArgumentsCanComeAfterStackOnes = False,
      AllowPackedTypesInRegisters = True,
      CalleeIsResponsibleForStackCleanup = False,
      FloatsUseGPRs = False,
      PackStackArguments = False,
      TreatAllAggregatesAsPacked = False,
      StackAlignment = 4,
      MinimumStackArgumentSize = 4,
      UnusedStackArgumentBytes = 0,
      MaximumGPRsPerAggregateArgument = 0,
      MaximumGPRsPerAggregateReturnValue = 2,
      MaximumGPRsPerScalarArgument = 0,
      MaximumGPRsPerScalarReturnValue = 2,
      GeneralPurposeArgumentRegisters = [],
      GeneralPurposeReturnValueRegisters = [eax_x86, edx_x86],
      VectorArgumentRegisters = [],
      VectorReturnValueRegisters = [],
      CalleeSavedRegisters = [ebx_x86, ebp_x86, edi_x86, esi_x86],
      ReturnValueLocationRegister = Register_Invalid,
      ReturnValueLocationOnStack = True,
      ReturnValueLocationIsReturned = True,
      ScalarTypes = \<lparr>TheVector = [
        scalar Integer 1 0 [],
        scalar Integer 2 0 [],
        scalar Integer 4 0 [],
        scalar Integer 8 4 [],
        scalar FloatingPoint 2 0 [],
        scalar FloatingPoint 4 0 [],
        scalar FloatingPoint 8 0 []],
        BatchInsertInProgress = False\<rparr>\<rparr>"

definition Microsoft_x86_cdecl_gcc_definition :: Definition where
  "Microsoft_x86_cdecl_gcc_definition =
     \<lparr>TheABI = Microsoft_x86_cdecl_gcc,
      ArgumentsArePositionBased = False,
      OnlyStartDoubleArgumentsFromAnEvenRegister = False,
      ArgumentsCanBeSplitBetweenRegistersAndStack = False,
      BigArgumentsUsePointersToCopy = False,
      NoRegisterArgumentsCanComeAfterStackOnes = False,
      AllowPackedTypesInRegisters = False,
      CalleeIsResponsibleForStackCleanup = False,
      FloatsUseGPRs = False,
      PackStackArguments = False,
      TreatAllAggregatesAsPacked = False,
      StackAlignment = 4,
      MinimumStackArgumentSize = 4,
      UnusedStackArgumentBytes = 0,
      MaximumGPRsPerAggregateArgument = 0,
      MaximumGPRsPerAggregateReturnValue = 0,
      MaximumGPRsPerScalarArgument = 0,
      MaximumGPRsPerScalarReturnValue = 2,
      GeneralPurposeArgumentRegisters = [],
      GeneralPurposeReturnValueRegisters = [eax_x86, edx_x86],
      VectorArgumentRegisters = [],
      VectorReturnValueRegisters = [],
      CalleeSavedRegisters = [ebx_x86, ebp_x86, edi_x86, esi_x86],
      ReturnValueLocationRegister = Register_Invalid,
      ReturnValueLocationOnStack = True,
      ReturnValueLocationIsReturned = True,
      ScalarTypes = \<lparr>TheVector = [
        scalar Integer 1 0 [],
        scalar Integer 2 0 [],
        scalar Integer 4 0 [],
        scalar Integer 8 0 [],
        scalar FloatingPoint 2 0 [],
        scalar FloatingPoint 4 0 [],
        scalar FloatingPoint 8 0 [],
        scalar FloatingPoint 12 4 [CT_LongDouble]],
        BatchInsertInProgress = False\<rparr>\<rparr>"

definition Microsoft_x86_fastcall_definition :: Definition where
  "Microsoft_x86_fastcall_definition =
     \<lparr>TheABI = Microsoft_x86_fastcall,
      ArgumentsArePositionBased = False,
      OnlyStartDoubleArgumentsFromAnEvenRegister = False,
      ArgumentsCanBeSplitBetweenRegistersAndStack = False,
      BigArgumentsUsePointersToCopy = False,
      NoRegisterArgumentsCanComeAfterStackOnes = False,
      AllowPackedTypesInRegisters = True,
      CalleeIsResponsibleForStackCleanup = True,
      FloatsUseGPRs = False,
      PackStackArguments = False,
      TreatAllAggregatesAsPacked = False,
      StackAlignment = 4,
      MinimumStackArgumentSize = 4,
      UnusedStackArgumentBytes = 0,
      MaximumGPRsPerAggregateArgument = 0,
      MaximumGPRsPerAggregateReturnValue = 2,
      MaximumGPRsPerScalarArgument = 1,
      MaximumGPRsPerScalarReturnValue = 2,
      GeneralPurposeArgumentRegisters = [ecx_x86, edx_x86],
      GeneralPurposeReturnValueRegisters = [eax_x86, edx_x86],
      VectorArgumentRegisters = [],
      VectorReturnValueRegisters = [],
      CalleeSavedRegisters = [ebx_x86, ebp_x86, edi_x86, esi_x86],
      ReturnValueLocationRegister = Register_Invalid,
      ReturnValueLocationOnStack = True,
      ReturnValueLocationIsReturned = True,
      ScalarTypes = \<lparr>TheVector = [
        scalar Integer 1 0 [],
        scalar Integer 2 0 [],
        scalar Integer 4 0 [],
        scalar Integer 8 4 [],
        scalar FloatingPoint 2 0 [],
        scalar FloatingPoint 4 0 [],
        scalar FloatingPoint 8 0 []],
        BatchInsertInProgress = False\<rparr>\<rparr>"

definition Microsoft_x86_fastcall_gcc_definition :: Definition where
  "Microsoft_x86_fastcall_gcc_definition =
     \<lparr>TheABI = Microsoft_x86_fastcall_gcc,
      ArgumentsArePositionBased = False,
      OnlyStartDoubleArgumentsFromAnEvenRegister = False,
      ArgumentsCanBeSplitBetweenRegistersAndStack = False,
      BigArgumentsUsePointersToCopy = False,
      NoRegisterArgumentsCanComeAfterStackOnes = True,
      AllowPackedTypesInRegisters = False,
      CalleeIsResponsibleForStackCleanup = True,
      FloatsUseGPRs = False,
      PackStackArguments = False,
      TreatAllAggregatesAsPacked = False,
      StackAlignment = 4,
      MinimumStackArgumentSize = 4,
      UnusedStackArgumentBytes = 0,
      MaximumGPRsPerAggregateArgument = 0,
      MaximumGPRsPerAggregateReturnValue = 0,
      MaximumGPRsPerScalarArgument = 1,
      MaximumGPRsPerScalarReturnValue = 2,
      GeneralPurposeArgumentRegisters = [ecx_x86, edx_x86],
      GeneralPurposeReturnValueRegisters = [eax_x86, edx_x86],
      VectorArgumentRegisters = [],
      VectorReturnValueRegisters = [],
      CalleeSavedRegisters = [ebx_x86, ebp_x86, edi_x86, esi_x86],
      ReturnValueLocationRegister = ecx_x86,
      ReturnValueLocationOnStack = False,
      ReturnValueLocationIsReturned = True,
      ScalarTypes = \<lparr>TheVector = [
        scalar Integer 1 0 [],
        scalar Integer 2 0 [],
        scalar Integer 4 0 [],
        scalar Integer 8 0 [],
        scalar FloatingPoint 2 0 [],
        scalar FloatingPoint 4 0 [],
        scalar FloatingPoint 8 0 [],
        scalar FloatingPoint 12 4 [CT_LongDouble]],
        BatchInsertInProgress = False\<rparr>\<rparr>"

definition Microsoft_x86_stdcall_definition :: Definition where
  "Microsoft_x86_stdcall_definition =
     \<lparr>TheABI = Microsoft_x86_stdcall,
      ArgumentsArePositionBased = False,
      OnlyStartDoubleArgumentsFromAnEvenRegister = False,
      ArgumentsCanBeSplitBetweenRegistersAndStack = False,
      BigArgumentsUsePointersToCopy = False,
      NoRegisterArgumentsCanComeAfterStackOnes = False,
      AllowPackedTypesInRegisters = True,
      CalleeIsResponsibleForStackCleanup = True,
      FloatsUseGPRs = False,
      PackStackArguments = False,
      TreatAllAggregatesAsPacked = False,
      StackAlignment = 4,
      MinimumStackArgumentSize = 4,
      UnusedStackArgumentBytes = 0,
      MaximumGPRsPerAggregateArgument = 0,
      MaximumGPRsPerAggregateReturnValue = 2,
      MaximumGPRsPerScalarArgument = 0,
      MaximumGPRsPerScalarReturnValue = 2,
      GeneralPurposeArgumentRegisters = [],
      GeneralPurposeReturnValueRegisters = [eax_x86, edx_x86],
      VectorArgumentRegisters = [],
      VectorReturnValueRegisters = [],
      CalleeSavedRegisters = [ebx_x86, ebp_x86, edi_x86, esi_x86],
      ReturnValueLocationRegister = Register_Invalid,
      ReturnValueLocationOnStack = True,
      ReturnValueLocationIsReturned = True,
      ScalarTypes = \<lparr>TheVector = [
        scalar Integer 1 0 [],
        scalar Integer 2 0 [],
        scalar Integer 4 0 [],
        scalar Integer 8 4 [],
        scalar FloatingPoint 2 0 [],
        scalar FloatingPoint 4 0 [],
        scalar FloatingPoint 8 0 []],
        BatchInsertInProgress = False\<rparr>\<rparr>"

definition Microsoft_x86_stdcall_gcc_definition :: Definition where
  "Microsoft_x86_stdcall_gcc_definition =
     \<lparr>TheABI = Microsoft_x86_stdcall_gcc,
      ArgumentsArePositionBased = False,
      OnlyStartDoubleArgumentsFromAnEvenRegister = False,
      ArgumentsCanBeSplitBetweenRegistersAndStack = False,
      BigArgumentsUsePointersToCopy = False,
      NoRegisterArgumentsCanComeAfterStackOnes = True,
      AllowPackedTypesInRegisters = False,
      CalleeIsResponsibleForStackCleanup = True,
      FloatsUseGPRs = False,
      PackStackArguments = False,
      TreatAllAggregatesAsPacked = False,
      StackAlignment = 4,
      MinimumStackArgumentSize = 4,
      UnusedStackArgumentBytes = 0,
      MaximumGPRsPerAggregateArgument = 0,
      MaximumGPRsPerAggregateReturnValue = 0,
      MaximumGPRsPerScalarArgument = 0,
      MaximumGPRsPerScalarReturnValue = 2,
      GeneralPurposeArgumentRegisters = [],
      GeneralPurposeReturnValueRegisters = [eax_x86, edx_x86],
      VectorArgumentRegisters = [],
      VectorReturnValueRegisters = [],
      CalleeSavedRegisters = [ebx_x86, ebp_x86, edi_x86, esi_x86],
      ReturnValueLocationRegister = Register_Invalid,
      ReturnValueLocationOnStack = True,
      ReturnValueLocationIsReturned = True,
      ScalarTypes = \<lparr>TheVector = [
        scalar Integer 1 0 [],
        scalar Integer 2 0 [],
        scalar Integer 4 0 [],
        scalar Integer 8 0 [],
        scalar FloatingPoint 2 0 [],
        scalar FloatingPoint 4 0 [],
        scalar FloatingPoint 8 0 [],
        scalar FloatingPoint 12 4 [CT_LongDouble]],
        BatchInsertInProgress = False\<rparr>\<rparr>"

definition Microsoft_x86_thiscall_definition :: Definition where
  "Microsoft_x86_thiscall_definition =
     \<lparr>TheABI = Microsoft_x86_thiscall,
      ArgumentsArePositionBased = False,
      OnlyStartDoubleArgumentsFromAnEvenRegister = False,
      ArgumentsCanBeSplitBetweenRegistersAndStack = False,
      BigArgumentsUsePointersToCopy = False,
      NoRegisterArgumentsCanComeAfterStackOnes = True,
      AllowPackedTypesInRegisters = True,
      CalleeIsResponsibleForStackCleanup = True,
      FloatsUseGPRs = False,
      PackStackArguments = False,
      TreatAllAggregatesAsPacked = False,
      StackAlignment = 4,
      MinimumStackArgumentSize = 4,
      UnusedStackArgumentBytes = 0,
      MaximumGPRsPerAggregateArgument = 0,
      MaximumGPRsPerAggregateReturnValue = 0,
      MaximumGPRsPerScalarArgument = 1,
      MaximumGPRsPerScalarReturnValue = 2,
      GeneralPurposeArgumentRegisters = [ecx_x86],
      GeneralPurposeReturnValueRegisters = [eax_x86, edx_x86],
      VectorArgumentRegisters = [],
      VectorReturnValueRegisters = [],
      CalleeSavedRegisters = [ebx_x86, ebp_x86, edi_x86, esi_x86],
      ReturnValueLocationRegister = Register_Invalid,
      ReturnValueLocationOnStack = True,
      ReturnValueLocationIsReturned = True,
      ScalarTypes = \<lparr>TheVector = [
        scalar Integer 1 0 [],
        scalar Integer 2 0 [],
        scalar Integer 4 0 [],
        scalar Integer 8 4 [],
        scalar FloatingPoint 2 0 [],
        scalar FloatingPoint 4 0 [],
        scalar FloatingPoint 8 0 []],
        BatchInsertInProgress = False\<rparr>\<rparr>"

definition Microsoft_x86_vectorcall_definition :: Definition where
  "Microsoft_x86_vectorcall_definition =
     \<lparr>TheABI = Microsoft_x86_vectorcall,
      ArgumentsArePositionBased = False,
      OnlyStartDoubleArgumentsFromAnEvenRegister = False,
      ArgumentsCanBeSplitBetweenRegistersAndStack = False,
      BigArgumentsUsePointersToCopy = False,
      NoRegisterArgumentsCanComeAfterStackOnes = False,
      AllowPackedTypesInRegisters = True,
      CalleeIsResponsibleForStackCleanup = True,
      FloatsUseGPRs = False,
      PackStackArguments = False,
      TreatAllAggregatesAsPacked = False,
      StackAlignment = 4,
      MinimumStackArgumentSize = 4,
      UnusedStackArgumentBytes = 0,
      MaximumGPRsPerAggregateArgument = 0,
      MaximumGPRsPerAggregateReturnValue = 2,
      MaximumGPRsPerScalarArgument = 1,
      MaximumGPRsPerScalarReturnValue = 2,
      GeneralPurposeArgumentRegisters = [ecx_x86, edx_x86],
      GeneralPurposeReturnValueRegisters = [eax_x86, edx_x86],
      VectorArgumentRegisters = [zmm0_x86, zmm1_x86, zmm2_x86, zmm3_x86, zmm4_x86, zmm5_x86],
      VectorReturnValueRegisters = [zmm0_x86],
      CalleeSavedRegisters = [ebx_x86, ebp_x86, edi_x86, esi_x86, zmm6_x86, zmm7_x86],
      ReturnValueLocationRegister = Register_Invalid,
      ReturnValueLocationOnStack = True,
      ReturnValueLocationIsReturned = True,
      ScalarTypes = \<lparr>TheVector = [
        scalar Integer 1 0 [],
        scalar Integer 2 0 [],
        scalar Integer 4 0 [],
        scalar Integer 8 4 [],
        scalar FloatingPoint 2 0 [],
        scalar FloatingPoint 4 0 [],
        scalar FloatingPoint 8 0 []],
        BatchInsertInProgress = False\<rparr>\<rparr>"

definition SystemV_MIPSEL_o32_definition :: Definition where
  "SystemV_MIPSEL_o32_definition =
     \<lparr>TheABI = SystemV_MIPSEL_o32,
      ArgumentsArePositionBased = False,
      OnlyStartDoubleArgumentsFromAnEvenRegister = True,
      ArgumentsCanBeSplitBetweenRegistersAndStack = True,
      BigArgumentsUsePointersToCopy = False,
      NoRegisterArgumentsCanComeAfterStackOnes = False,
      AllowPackedTypesInRegisters = False,
      CalleeIsResponsibleForStackCleanup = False,
      FloatsUseGPRs = True,
      PackStackArguments = False,
      TreatAllAggregatesAsPacked = False,
      StackAlignment = 4,
      MinimumStackArgumentSize = 4,
      UnusedStackArgumentBytes = 16,
      MaximumGPRsPerAggregateArgument = 4,
      MaximumGPRsPerAggregateReturnValue = 1,
      MaximumGPRsPerScalarArgument = 4,
      MaximumGPRsPerScalarReturnValue = 4,
      GeneralPurposeArgumentRegisters = [a0_mips, a1_mips, a2_mips, a3_mips],
      GeneralPurposeReturnValueRegisters = [v0_mips, v1_mips],
      VectorArgumentRegisters = [f12_mips, f13_mips, f14_mips, f15_mips],
      VectorReturnValueRegisters = [f0_mips, f1_mips, f2_mips, f3_mips],
      CalleeSavedRegisters = [
        s0_mips, s1_mips, s2_mips, s3_mips, s4_mips, s5_mips, s6_mips, s7_mips, gp_mips, fp_mips,
        f20_mips, f21_mips, f22_mips, f23_mips, f24_mips, f25_mips, f26_mips, f27_mips, f28_mips,
        f29_mips, f30_mips, f31_mips],
      ReturnValueLocationRegister = v0_mips,
      ReturnValueLocationOnStack = False,
      ReturnValueLocationIsReturned = True,
      ScalarTypes = \<lparr>TheVector = [
        scalar Integer 1 0 [],
        scalar Integer 2 0 [],
        scalar Integer 4 0 [],
        scalar Integer 8 0 [],
        scalar FloatingPoint 4 0 [],
        scalar FloatingPoint 8 0 []],
        BatchInsertInProgress = False\<rparr>\<rparr>"

definition SystemV_MIPS_o32_definition :: Definition where
  "SystemV_MIPS_o32_definition =
     \<lparr>TheABI = SystemV_MIPS_o32,
      ArgumentsArePositionBased = False,
      OnlyStartDoubleArgumentsFromAnEvenRegister = True,
      ArgumentsCanBeSplitBetweenRegistersAndStack = True,
      BigArgumentsUsePointersToCopy = False,
      NoRegisterArgumentsCanComeAfterStackOnes = False,
      AllowPackedTypesInRegisters = False,
      CalleeIsResponsibleForStackCleanup = False,
      FloatsUseGPRs = True,
      PackStackArguments = False,
      TreatAllAggregatesAsPacked = False,
      StackAlignment = 4,
      MinimumStackArgumentSize = 4,
      UnusedStackArgumentBytes = 16,
      MaximumGPRsPerAggregateArgument = 4,
      MaximumGPRsPerAggregateReturnValue = 1,
      MaximumGPRsPerScalarArgument = 4,
      MaximumGPRsPerScalarReturnValue = 4,
      GeneralPurposeArgumentRegisters = [a0_mips, a1_mips, a2_mips, a3_mips],
      GeneralPurposeReturnValueRegisters = [v0_mips, v1_mips],
      VectorArgumentRegisters = [f12_mips, f13_mips, f14_mips, f15_mips],
      VectorReturnValueRegisters = [f0_mips, f1_mips, f2_mips, f3_mips],
      CalleeSavedRegisters = [
        s0_mips, s1_mips, s2_mips, s3_mips, s4_mips, s5_mips, s6_mips, s7_mips, gp_mips, fp_mips,
        f20_mips, f21_mips, f22_mips, f23_mips, f24_mips, f25_mips, f26_mips, f27_mips, f28_mips,
        f29_mips, f30_mips, f31_mips],
      ReturnValueLocationRegister = v0_mips,
      ReturnValueLocationOnStack = False,
      ReturnValueLocationIsReturned = True,
      ScalarTypes = \<lparr>TheVector = [
        scalar Integer 1 0 [],
        scalar Integer 2 0 [],
        scalar Integer 4 0 [],
        scalar Integer 8 0 [],
        scalar FloatingPoint 4 0 [],
        scalar FloatingPoint 8 0 []],
        BatchInsertInProgress = False\<rparr>\<rparr>"

definition SystemV_x86_definition :: Definition where
  "SystemV_x86_definition =
     \<lparr>TheABI = SystemV_x86,
      ArgumentsArePositionBased = False,
      OnlyStartDoubleArgumentsFromAnEvenRegister = False,
      ArgumentsCanBeSplitBetweenRegistersAndStack = False,
      BigArgumentsUsePointersToCopy = False,
      NoRegisterArgumentsCanComeAfterStackOnes = False,
      AllowPackedTypesInRegisters = False,
      CalleeIsResponsibleForStackCleanup = False,
      FloatsUseGPRs = False,
      PackStackArguments = False,
      TreatAllAggregatesAsPacked = False,
      StackAlignment = 16,
      MinimumStackArgumentSize = 4,
      UnusedStackArgumentBytes = 0,
      MaximumGPRsPerAggregateArgument = 0,
      MaximumGPRsPerAggregateReturnValue = 0,
      MaximumGPRsPerScalarArgument = 0,
      MaximumGPRsPerScalarReturnValue = 2,
      GeneralPurposeArgumentRegisters = [],
      GeneralPurposeReturnValueRegisters = [eax_x86, edx_x86],
      VectorArgumentRegisters = [],
      VectorReturnValueRegisters = [st0_x86],
      CalleeSavedRegisters = [ebx_x86, ebp_x86, edi_x86, esi_x86],
      ReturnValueLocationRegister = Register_Invalid,
      ReturnValueLocationOnStack = True,
      ReturnValueLocationIsReturned = True,
      ScalarTypes = \<lparr>TheVector = [
        scalar Integer 1 0 [],
        scalar Integer 2 0 [],
        scalar Integer 4 0 [],
        scalar Integer 8 4 [],
        scalar FloatingPoint 2 0 [],
        scalar FloatingPoint 4 0 [],
        scalar FloatingPoint 8 4 [],
        scalar FloatingPoint 12 4 [CT_LongDouble],
        scalar FloatingPoint 16 0 []],
        BatchInsertInProgress = False\<rparr>\<rparr>"

definition SystemV_x86_64_definition :: Definition where
  "SystemV_x86_64_definition =
     \<lparr>TheABI = SystemV_x86_64,
      ArgumentsArePositionBased = False,
      OnlyStartDoubleArgumentsFromAnEvenRegister = False,
      ArgumentsCanBeSplitBetweenRegistersAndStack = False,
      BigArgumentsUsePointersToCopy = False,
      NoRegisterArgumentsCanComeAfterStackOnes = False,
      AllowPackedTypesInRegisters = False,
      CalleeIsResponsibleForStackCleanup = False,
      FloatsUseGPRs = False,
      PackStackArguments = False,
      TreatAllAggregatesAsPacked = False,
      StackAlignment = 16,
      MinimumStackArgumentSize = 8,
      UnusedStackArgumentBytes = 0,
      MaximumGPRsPerAggregateArgument = 2,
      MaximumGPRsPerAggregateReturnValue = 2,
      MaximumGPRsPerScalarArgument = 8,
      MaximumGPRsPerScalarReturnValue = 2,
      GeneralPurposeArgumentRegisters = [
        rdi_x86_64, rsi_x86_64, rdx_x86_64, rcx_x86_64, r8_x86_64, r9_x86_64],
      GeneralPurposeReturnValueRegisters = [rax_x86_64, rdx_x86_64],
      VectorArgumentRegisters = [
        zmm0_x86_64, zmm1_x86_64, zmm2_x86_64, zmm3_x86_64, zmm4_x86_64, zmm5_x86_64, zmm6_x86_64,
        zmm7_x86_64],
      VectorReturnValueRegisters = [zmm0_x86_64, zmm1_x86_64],
      CalleeSavedRegisters = [
        rbx_x86_64, rbp_x86_64, r12_x86_64, r13_x86_64, r14_x86_64, r15_x86_64],
      ReturnValueLocationRegister = rdi_x86_64,
      ReturnValueLocationOnStack = False,
      ReturnValueLocationIsReturned = True,
      ScalarTypes = \<lparr>TheVector = [
        scalar Integer 1 0 [],
        scalar Integer 2 0 [],
        scalar Integer 4 0 [],
        scalar Integer 8 0 [],
        scalar Integer 16 0 [],
        scalar FloatingPoint 2 0 [],
        scalar FloatingPoint 4 0 [],
        scalar FloatingPoint 8 0 [],
        scalar FloatingPoint 16 0 [CT_LongDouble]],
        BatchInsertInProgress = False\<rparr>\<rparr>"

definition SystemV_x86_regparm_1_definition :: Definition where
  "SystemV_x86_regparm_1_definition =
     \<lparr>TheABI = SystemV_x86_regparm_1,
      ArgumentsArePositionBased = False,
      OnlyStartDoubleArgumentsFromAnEvenRegister = False,
      ArgumentsCanBeSplitBetweenRegistersAndStack = False,
      BigArgumentsUsePointersToCopy = False,
      NoRegisterArgumentsCanComeAfterStackOnes = True,
      AllowPackedTypesInRegisters = True,
      CalleeIsResponsibleForStackCleanup = False,
      FloatsUseGPRs = False,
      PackStackArguments = False,
      TreatAllAggregatesAsPacked = False,
      StackAlignment = 16,
      MinimumStackArgumentSize = 4,
      UnusedStackArgumentBytes = 0,
      MaximumGPRsPerAggregateArgument = 1,
      MaximumGPRsPerAggregateReturnValue = 0,
      MaximumGPRsPerScalarArgument = 1,
      MaximumGPRsPerScalarReturnValue = 2,
      GeneralPurposeArgumentRegisters = [eax_x86],
      GeneralPurposeReturnValueRegisters = [eax_x86, edx_x86],
      VectorArgumentRegisters = [zmm0_x86, zmm1_x86, zmm2_x86],
      VectorReturnValueRegisters = [],
      CalleeSavedRegisters = [ebx_x86, ebp_x86, edi_x86, esi_x86],
      ReturnValueLocationRegister = eax_x86,
      ReturnValueLocationOnStack = False,
      ReturnValueLocationIsReturned = True,
      ScalarTypes = \<lparr>TheVector = [
        scalar Integer 1 0 [],
        scalar Integer 2 0 [],
        scalar Integer 4 0 [],
        scalar Integer 8 4 [],
        scalar FloatingPoint 2 0 [],
        scalar FloatingPoint 4 0 [],
        scalar FloatingPoint 8 4 [],
        scalar FloatingPoint 12 4 [CT_LongDouble],
        scalar FloatingPoint 16 0 []],
        BatchInsertInProgress = False\<rparr>\<rparr>"

definition SystemV_x86_regparm_2_definition :: Definition where
  "SystemV_x86_regparm_2_definition =
     \<lparr>TheABI = SystemV_x86_regparm_2,
      ArgumentsArePositionBased = False,
      OnlyStartDoubleArgumentsFromAnEvenRegister = False,
      ArgumentsCanBeSplitBetweenRegistersAndStack = False,
      BigArgumentsUsePointersToCopy = False,
      NoRegisterArgumentsCanComeAfterStackOnes = True,
      AllowPackedTypesInRegisters = True,
      CalleeIsResponsibleForStackCleanup = False,
      FloatsUseGPRs = False,
      PackStackArguments = False,
      TreatAllAggregatesAsPacked = False,
      StackAlignment = 16,
      MinimumStackArgumentSize = 4,
      UnusedStackArgumentBytes = 0,
      MaximumGPRsPerAggregateArgument = 2,
      MaximumGPRsPerAggregateReturnValue = 0,
      MaximumGPRsPerScalarArgument = 2,
      MaximumGPRsPerScalarReturnValue = 2,
      GeneralPurposeArgumentRegisters = [eax_x86, edx_x86],
      GeneralPurposeReturnValueRegisters = [eax_x86, edx_x86],
      VectorArgumentRegisters = [zmm0_x86, zmm1_x86, zmm2_x86],
      VectorReturnValueRegisters = [],
      CalleeSavedRegisters = [ebx_x86, ebp_x86, edi_x86, esi_x86],
      ReturnValueLocationRegister = eax_x86,
      ReturnValueLocationOnStack = False,
      ReturnValueLocationIsReturned = True,
      ScalarTypes = \<lparr>TheVector = [
        scalar Integer 1 0 [],
        scalar Integer 2 0 [],
        scalar Integer 4 0 [],
        scalar Integer 8 4 [],
        scalar FloatingPoint 2 0 [],
        scalar FloatingPoint 4 0 [],
        scalar FloatingPoint 8 4 [],
        scalar FloatingPoint 12 4 [CT_LongDouble],
        scalar FloatingPoint 16 0 []],
        BatchInsertInProgress = False\<rparr>\<rparr>"

definition SystemV_x86_regparm_3_definition :: Definition where
  "SystemV_x86_regparm_3_definition =
     \<lparr>TheABI = SystemV_x86_regparm_3,
      ArgumentsArePositionBased = False,
      OnlyStartDoubleArgumentsFromAnEvenRegister = False,
      ArgumentsCanBeSplitBetweenRegistersAndStack = False,
      BigArgumentsUsePointersToCopy = False,
      NoRegisterArgumentsCanComeAfterStackOnes = True,
      AllowPackedTypesInRegisters = True,
      CalleeIsResponsibleForStackCleanup = False,
      FloatsUseGPRs = False,
      PackStackArguments = False,
      TreatAllAggregatesAsPacked = False,
      StackAlignment = 16,
      MinimumStackArgumentSize = 4,
      UnusedStackArgumentBytes = 0,
      MaximumGPRsPerAggregateArgument = 3,
      MaximumGPRsPerAggregateReturnValue = 0,
      MaximumGPRsPerScalarArgument = 2,
      MaximumGPRsPerScalarReturnValue = 2,
      GeneralPurposeArgumentRegisters = [eax_x86, edx_x86, ecx_x86],
      GeneralPurposeReturnValueRegisters = [eax_x86, edx_x86],
      VectorArgumentRegisters = [zmm0_x86, zmm1_x86, zmm2_x86],
      VectorReturnValueRegisters = [],
      CalleeSavedRegisters = [ebx_x86, ebp_x86, edi_x86, esi_x86],
      ReturnValueLocationRegister = eax_x86,
      ReturnValueLocationOnStack = False,
      ReturnValueLocationIsReturned = True,
      ScalarTypes = \<lparr>TheVector = [
        scalar Integer 1 0 [],
        scalar Integer 2 0 [],
        scalar Integer 4 0 [],
        scalar Integer 8 4 [],
        scalar FloatingPoint 2 0 [],
        scalar FloatingPoint 4 0 [],
        scalar FloatingPoint 8 4 [],
        scalar FloatingPoint 12 4 [CT_LongDouble],
        scalar FloatingPoint 16 0 []],
        BatchInsertInProgress = False\<rparr>\<rparr>"

definition SystemZ_s390x_definition :: Definition where
  "SystemZ_s390x_definition =
     \<lparr>TheABI = SystemZ_s390x,
      ArgumentsArePositionBased = True,
      OnlyStartDoubleArgumentsFromAnEvenRegister = False,
      ArgumentsCanBeSplitBetweenRegistersAndStack = False,
      BigArgumentsUsePointersToCopy = False,
      NoRegisterArgumentsCanComeAfterStackOnes = False,
      AllowPackedTypesInRegisters = False,
      CalleeIsResponsibleForStackCleanup = False,
      FloatsUseGPRs = False,
      PackStackArguments = False,
      TreatAllAggregatesAsPacked = False,
      StackAlignment = 8,
      MinimumStackArgumentSize = 8,
      UnusedStackArgumentBytes = 0,
      MaximumGPRsPerAggregateArgument = 1,
      MaximumGPRsPerAggregateReturnValue = 1,
      MaximumGPRsPerScalarArgument = 1,
      MaximumGPRsPerScalarReturnValue = 1,
      GeneralPurposeArgumentRegisters = [
        r2_systemz, r3_systemz, r4_systemz, r5_systemz, r6_systemz],
      GeneralPurposeReturnValueRegisters = [r2_systemz],
      VectorArgumentRegisters = [
        f0_systemz, f1_systemz, f2_systemz, f3_systemz, f4_systemz, f5_systemz, f6_systemz, f7_systemz],
      VectorReturnValueRegisters = [f0_systemz],
      CalleeSavedRegisters = [
        r6_systemz, r7_systemz, r8_systemz, r9_systemz, r10_systemz, r11_systemz, r12_systemz,
        r13_systemz, r15_systemz, f8_systemz, f9_systemz, f10_systemz, f11_systemz, f12_systemz,
        f13_systemz],
      ReturnValueLocationRegister = r2_systemz,
      ReturnValueLocationOnStack = False,
      ReturnValueLocationIsReturned = True,
      ScalarTypes = \<lparr>TheVector = [
        scalar Integer 1 0 [],
        scalar Integer 2 0 [],
        scalar Integer 4 0 [],
        scalar Integer 8 0 [],
        scalar Integer 16 8 [],
        scalar FloatingPoint 4 0 [],
        scalar FloatingPoint 8 0 [],
        scalar FloatingPoint 16 8 [CT_LongDouble]],
        BatchInsertInProgress = False\<rparr>\<rparr>"

text \<open>The definition in the file of an ABI; there are no others.\<close>

fun shipped_definition :: "ABI \<Rightarrow> Definition option" where
  "shipped_definition AAPCS = Some AAPCS_definition"
| "shipped_definition AAPCS64 = Some AAPCS64_definition"
| "shipped_definition Apple_AAPCS64 = Some Apple_AAPCS64_definition"
| "shipped_definition Microsoft_AAPCS64 = Some Microsoft_AAPCS64_definition"
| "shipped_definition Microsoft_x86_64 = Some Microsoft_x86_64_definition"
| "shipped_definition Microsoft_x86_64_vectorcall = Some Microsoft_x86_64_vectorcall_definition"
| "shipped_definition Microsoft_x86_cdecl = Some Microsoft_x86_cdecl_definition"
| "shipped_definition Microsoft_x86_cdecl_gcc = Some Microsoft_x86_cdecl_gcc_definition"
| "shipped_definition Microsoft_x86_fastcall = Some Microsoft_x86_fastcall_definition"
| "shipped_definition Microsoft_x86_fastcall_gcc = Some Microsoft_x86_fastcall_gcc_definition"
| "shipped_definition Microsoft_x86_stdcall = Some Microsoft_x86_stdcall_definition"
| "shipped_definition Microsoft_x86_stdcall_gcc = Some Microsoft_x86_stdcall_gcc_definition"
| "shipped_definition Microsoft_x86_thiscall = Some Microsoft_x86_thiscall_definition"
| "shipped_definition Microsoft_x86_vectorcall = Some Microsoft_x86_vectorcall_definition"
| "shipped_definition SystemV_MIPSEL_o32 = Some SystemV_MIPSEL_o32_definition"
| "shipped_definition SystemV_MIPS_o32 = Some SystemV_MIPS_o32_definition"
| "shipped_definition SystemV_x86 = Some SystemV_x86_definition"
| "shipped_definition SystemV_x86_64 = Some SystemV_x86_64_definition"
| "shipped_definition SystemV_x86_regparm_1 = Some SystemV_x86_regparm_1_definition"
| "shipped_definition SystemV_x86_regparm_2 = Some SystemV_x86_regparm_2_definition"
| "shipped_definition SystemV_x86_regparm_3 = Some SystemV_x86_regparm_3_definition"
| "shipped_definition SystemZ_s390x = Some SystemZ_s390x_definition"
| "shipped_definition _ = None"

text \<open>\<^verbatim>\<open>Definition::get\<close> with its cache: a definition is read and verified the first time it is asked for.\<close>

definition Definition_get :: "(ABI \<rightharpoonup> Definition) \<Rightarrow> ABI \<Rightarrow> (Definition \<times> (ABI \<rightharpoonup> Definition)) checked" where
  "Definition_get DefinitionCache A = do {
     revng_assert (A \<noteq> ABI_Invalid);
     (case DefinitionCache A of
        Some D \<Rightarrow> Some (D, DefinitionCache)
      | None \<Rightarrow> do {
          Parsed \<leftarrow> shipped_definition A;
          Ok \<leftarrow> Definition_verify Parsed;
          revng_assert Ok;
          Some (Parsed, DefinitionCache(A \<mapsto> Parsed)) }) }"

section \<open>They pass verification\<close>

lemmas verify_simps = Definition_verify_def ABI_isValid_def Register_isValid_def getRegisterArchitecture_def verifyRegisters_def
  isUsedInArchitecture_def getReferenceArchitecture_eq verifyReturnValueLocation_def isVectorRegister_def getScalarKind_def
  getDataModel_def ABI_getPointerSize_def getDefaultDataModel_def setStandardTypeSize_def DM_verify_def scalar_def

lemma AAPCS_verifies: "Definition_verify AAPCS_definition = Some True"
  by (simp add: AAPCS_definition_def verify_simps getPrimitiveKind_def)

lemma AAPCS64_verifies: "Definition_verify AAPCS64_definition = Some True"
  by (simp add: AAPCS64_definition_def verify_simps getPrimitiveKind_def)

lemma Apple_AAPCS64_verifies: "Definition_verify Apple_AAPCS64_definition = Some True"
  by (simp add: Apple_AAPCS64_definition_def verify_simps getPrimitiveKind_def)

lemma Microsoft_AAPCS64_verifies: "Definition_verify Microsoft_AAPCS64_definition = Some True"
  by (simp add: Microsoft_AAPCS64_definition_def verify_simps getPrimitiveKind_def)

lemma Microsoft_x86_64_verifies: "Definition_verify Microsoft_x86_64_definition = Some True"
  by (simp add: Microsoft_x86_64_definition_def verify_simps getPrimitiveKind_def)

lemma Microsoft_x86_64_vectorcall_verifies: "Definition_verify Microsoft_x86_64_vectorcall_definition = Some True"
  by (simp add: Microsoft_x86_64_vectorcall_definition_def verify_simps getPrimitiveKind_def)

lemma Microsoft_x86_cdecl_verifies: "Definition_verify Microsoft_x86_cdecl_definition = Some True"
  by (simp add: Microsoft_x86_cdecl_definition_def verify_simps getPrimitiveKind_def)

lemma Microsoft_x86_cdecl_gcc_verifies: "Definition_verify Microsoft_x86_cdecl_gcc_definition = Some True"
  by (simp add: Microsoft_x86_cdecl_gcc_definition_def verify_simps getPrimitiveKind_def)

lemma Microsoft_x86_fastcall_verifies: "Definition_verify Microsoft_x86_fastcall_definition = Some True"
  by (simp add: Microsoft_x86_fastcall_definition_def verify_simps getPrimitiveKind_def)

lemma Microsoft_x86_fastcall_gcc_verifies: "Definition_verify Microsoft_x86_fastcall_gcc_definition = Some True"
  by (simp add: Microsoft_x86_fastcall_gcc_definition_def verify_simps getPrimitiveKind_def)

lemma Microsoft_x86_stdcall_verifies: "Definition_verify Microsoft_x86_stdcall_definition = Some True"
  by (simp add: Microsoft_x86_stdcall_definition_def verify_simps getPrimitiveKind_def)

lemma Microsoft_x86_stdcall_gcc_verifies: "Definition_verify Microsoft_x86_stdcall_gcc_definition = Some True"
  by (simp add: Microsoft_x86_stdcall_gcc_definition_def verify_simps getPrimitiveKind_def)

lemma Microsoft_x86_thiscall_verifies: "Definition_verify Microsoft_x86_thiscall_definition = Some True"
  by (simp add: Microsoft_x86_thiscall_definition_def verify_simps getPrimitiveKind_def)

lemma Microsoft_x86_vectorcall_verifies: "Definition_verify Microsoft_x86_vectorcall_definition = Some True"
  by (simp add: Microsoft_x86_vectorcall_definition_def verify_simps getPrimitiveKind_def)

lemma SystemV_MIPSEL_o32_verifies: "Definition_verify SystemV_MIPSEL_o32_definition = Some True"
  by (simp add: SystemV_MIPSEL_o32_definition_def verify_simps getPrimitiveKind_def)

lemma SystemV_MIPS_o32_verifies: "Definition_verify SystemV_MIPS_o32_definition = Some True"
  by (simp add: SystemV_MIPS_o32_definition_def verify_simps getPrimitiveKind_def)

lemma SystemV_x86_verifies: "Definition_verify SystemV_x86_definition = Some True"
  by (simp add: SystemV_x86_definition_def verify_simps getPrimitiveKind_def)

lemma SystemV_x86_64_verifies: "Definition_verify SystemV_x86_64_definition = Some True"
  by (simp add: SystemV_x86_64_definition_def verify_simps getPrimitiveKind_def)

lemma SystemV_x86_regparm_1_verifies: "Definition_verify SystemV_x86_regparm_1_definition = Some True"
  by (simp add: SystemV_x86_regparm_1_definition_def verify_simps getPrimitiveKind_def)

lemma SystemV_x86_regparm_2_verifies: "Definition_verify SystemV_x86_regparm_2_definition = Some True"
  by (simp add: SystemV_x86_regparm_2_definition_def verify_simps getPrimitiveKind_def)

lemma SystemV_x86_regparm_3_verifies: "Definition_verify SystemV_x86_regparm_3_definition = Some True"
  by (simp add: SystemV_x86_regparm_3_definition_def verify_simps getPrimitiveKind_def)

lemma SystemZ_s390x_verifies: "Definition_verify SystemZ_s390x_definition = Some True"
  by (simp add: SystemZ_s390x_definition_def verify_simps getPrimitiveKind_def)

section \<open>Compatibility of raw functions\<close>

text \<open>
  \<^bold>\<open>C15\<close>. The check of a raw function against an ABI is exact: it answers whether every argument, return value
  and preserved register of the function is a register of the architecture, and every argument and return
  value one the ABI passes values in.
\<close>

theorem abi_compatibility:
  assumes "Definition_verify D = Some True" "getRegisterArchitecture (TheABI D) = Some A"
    and "\<forall>R\<in>set (RFT_Arguments F) \<union> set (RFT_ReturnValues F) \<union> set (PreservedRegisters F). 1 \<le> R \<and> R < Register_Count"
    and "distinct (RFT_Arguments F)" "distinct (RFT_ReturnValues F)"
  shows "isPreliminarilyCompatibleWith D F = Some
    ((\<forall>R\<in>set (RFT_Arguments F) \<union> set (RFT_ReturnValues F) \<union> set (PreservedRegisters F). isUsedInArchitecture R A = Some True)
     \<and> set (RFT_Arguments F) \<subseteq> set (GeneralPurposeArgumentRegisters D) \<union> set (VectorArgumentRegisters D)
     \<and> set (RFT_ReturnValues F) \<subseteq> set (GeneralPurposeReturnValueRegisters D) \<union> set (VectorReturnValueRegisters D))"
proof -
  have "A \<noteq> Architecture_Invalid" using architecture_of_ABI [OF Definition_verify_valid [OF assms(1)]] assms(2) by auto
  then have used: "isUsedInArchitecture R A \<noteq> None"
    if "R \<in> set (RFT_Arguments F) \<union> set (RFT_ReturnValues F) \<union> set (PreservedRegisters F)" for R
    using assms(3) used_total that by blast
  have arg: "registers_allowed A (RFT_Arguments F) Allowed = Some (list_all (used_in A) (RFT_Arguments F) \<and> set (RFT_Arguments F) \<subseteq> set Allowed)" for Allowed
    by (rule registers_allowed_eq) (use used assms(4) in blast)+
  have ret: "registers_allowed A (RFT_ReturnValues F) Allowed = Some (list_all (used_in A) (RFT_ReturnValues F) \<and> set (RFT_ReturnValues F) \<subseteq> set Allowed)" for Allowed
    by (rule registers_allowed_eq) (use used assms(5) in blast)+
  have pre: "used_prefix A (PreservedRegisters F) = Some (takeWhile (used_in A) (PreservedRegisters F), list_all (used_in A) (PreservedRegisters F))"
    by (rule used_prefix_eq) (use used in blast)
  show ?thesis using assms(1,2) by (auto simp: isPreliminarilyCompatibleWith_def arg ret pre list_all_iff used_in_def)
qed

theorem abi_compatibility_witness:
  "isPreliminarilyCompatibleWith SystemV_x86_64_definition
      \<lparr>RFT_Arguments = [rdi_x86_64, rsi_x86_64], RFT_ReturnValues = [rax_x86_64], PreservedRegisters = [rbx_x86_64]\<rparr> = Some True"
  by (subst abi_compatibility [of _ x86_64])
    (simp_all add: SystemV_x86_64_verifies, simp_all add: SystemV_x86_64_definition_def getRegisterArchitecture_def
      isUsedInArchitecture_def getReferenceArchitecture_eq)

end
