(* ===== verification/Value_Distributor.thy ===== *)
theory Value_Distributor
  imports Abi_Shipped
begin

text \<open>
  The distribution of the arguments and the return value of a function over registers and the stack, as an
  ABI prescribes it (src/lib/ABI/FunctionType/ValueDistributor.h, ValueDistributor.cpp). Shown: the
  distribution of a list of arguments always succeeds, no register and no part of the stack is given to
  two arguments, and what an argument is given holds it.
\<close>

section \<open>The distributor\<close>

record DistributedValue =
  DV_Registers :: "Register list"
  DV_Size :: u64
  PrePaddingSize :: u64
  PostPaddingSize :: u64
  SizeOnStack :: u64
  OffsetOnStack :: u64
  UsesPointerToCopy :: bool
  RepresentsPadding :: bool

definition default_value :: DistributedValue where
  "default_value = \<lparr>DV_Registers = [], DV_Size = 0, PrePaddingSize = 0, PostPaddingSize = 0, SizeOnStack = 0,
     OffsetOnStack = 0, UsesPointerToCopy = False, RepresentsPadding = False\<rparr>"

definition voidReturnValue :: DistributedValue where
  "voidReturnValue = default_value"

record ValueDistributor =
  UsedGeneralPurposeRegisterCount :: u64
  UsedVectorRegisterCount :: u64
  UsedStackOffset :: u64
  CurrentStackAlignment :: u64
  LastAddedStackPadding :: u64
  ArgumentIndex :: u64

definition distributor_new :: "Definition \<Rightarrow> ValueDistributor checked" where
  "distributor_new D = do {
     Ok \<leftarrow> Definition_verify D;
     revng_assert Ok;
     Some \<lparr>UsedGeneralPurposeRegisterCount = 0, UsedVectorRegisterCount = 0,
           UsedStackOffset = UnusedStackArgumentBytes D, CurrentStackAlignment = 0,
           LastAddedStackPadding = 0, ArgumentIndex = 0\<rparr> }"

text \<open>What the distributor asks of the type of a value.\<close>

record TypeTraits =
  isScalar :: bool
  isFloatPrimitive :: bool
  type_size :: u64
  type_alignment :: u64
  naturally_aligned :: bool

section \<open>Padding\<close>

definition paddedSizeOnStack :: "u64 \<Rightarrow> u64 \<Rightarrow> u64 checked" where
  "paddedSizeOnStack RealSize RegisterSize = do {
     revng_assert (isPowerOf2 (unat RegisterSize));
     revng_assert (RealSize \<noteq> 0);
     Some (if RealSize \<le> RegisterSize then RegisterSize
           else (RealSize + (RegisterSize - 1)) AND NOT (RegisterSize - 1)) }"

text \<open>
  \<^verbatim>\<open>llvm::alignToPowerOf2\<close> is the parameter \<open>al\<close>: the next multiple of the alignment, which LLVM asserts to
  be a power of two.
\<close>

locale power_of_2_alignment =
  fixes al :: "u64 \<Rightarrow> u64 \<Rightarrow> u64 checked"
  assumes al_next: "isPowerOf2 (unat a) \<Longrightarrow> unat v + unat a \<le> 2 ^ 64 \<Longrightarrow>
    \<exists>r. al v a = Some r \<and> unat v \<le> unat r \<and> unat r < unat v + unat a \<and> unat a dvd unat r"

definition align_up :: "u64 \<Rightarrow> u64 \<Rightarrow> u64 checked" where
  "align_up v a = do {
     revng_assert (a \<noteq> 0);
     Some (word_of_nat ((unat v + unat a - 1) div unat a * unat a)) }"

lemma unat_u64: "n < 2 ^ 64 \<Longrightarrow> unat (word_of_nat n :: u64) = n"
  by (simp add: unat_of_nat)

lemma unat_u64_add: "unat a + unat b < 2 ^ 64 \<Longrightarrow> unat (a + b) = unat a + unat b" for a b :: u64
  by (simp add: unat_word_ariths)

lemma unat_u64_less: "unat a < 2 ^ 64" for a :: u64
  using unsigned_less [of a, where 'a = nat] by simp

lemma unat_u64_Suc: "a < b \<Longrightarrow> unat (a + 1) = Suc (unat a)" for a b :: u64
  using unat_u64_add [of a 1] unat_u64_less [of b] by (simp add: word_less_nat_alt)

interpretation align_up: power_of_2_alignment align_up
proof
  fix a v :: u64
  assume a: "isPowerOf2 (unat a)" "unat v + unat a \<le> 2 ^ 64"
  then have pos: "0 < unat a" by (auto simp: isPowerOf2_def)
  let ?r = "(unat v + unat a - 1) div unat a * unat a"
  have "?r + (unat v + unat a - 1) mod unat a = unat v + unat a - 1" "(unat v + unat a - 1) mod unat a < unat a"
    using pos by simp_all
  then have r: "?r \<le> unat v + unat a - 1" "unat v \<le> ?r" using pos by linarith+
  then have "?r < 2 ^ 64" using a(2) pos by linarith
  then have u: "unat (word_of_nat ?r :: u64) = ?r" by (rule unat_u64)
  have A: "align_up v a = Some (word_of_nat ?r)" using pos unat_eq_0 [of a] by (simp add: align_up_def revng_assert_bind)
  have lt: "?r < unat v + unat a" using r(1) pos by linarith
  show "\<exists>r. align_up v a = Some r \<and> unat v \<le> unat r \<and> unat r < unat v + unat a \<and> unat a dvd unat r"
    by (rule exI [of _ "word_of_nat ?r"]) (simp only: A u r(2) lt dvd_triv_right simp_thms)
qed

section \<open>Distribution of a value\<close>

text \<open>Registers are added until they hold the value or none is left that it may use.\<close>

function consider_registers :: "Register list \<Rightarrow> u64 \<Rightarrow> u64 \<Rightarrow> u64 \<Rightarrow> u64 \<Rightarrow> (u64 \<times> u64) checked" where
  "consider_registers Registers Size LastRegister ConsideredRegisterCounter SizeCounter =
     (if SizeCounter < Size \<and> ConsideredRegisterCounter < word_of_nat (length Registers) \<and> ConsideredRegisterCounter < LastRegister
      then do {
        CurrentRegister \<leftarrow> at Registers (unat ConsideredRegisterCounter);
        RegisterSize \<leftarrow> Register_getSize CurrentRegister;
        consider_registers Registers Size LastRegister (ConsideredRegisterCounter + 1) (SizeCounter + word_of_nat RegisterSize) }
      else Some (ConsideredRegisterCounter, SizeCounter))"
  by pat_completeness auto
termination
proof (relation "measure (\<lambda>(_, _, _, Considered, _). 2 ^ 64 - unat Considered)")
  fix Registers and Size Last Considered Counter :: u64 and R RegisterSize
  assume "Counter < Size \<and> Considered < word_of_nat (length Registers) \<and> Considered < Last"
  then have "unat (Considered + 1) = Suc (unat Considered)" using unat_u64_Suc by blast
  then show "((Registers, Size, Last, Considered + 1, Counter + word_of_nat RegisterSize), (Registers, Size, Last, Considered, Counter))
    \<in> measure (\<lambda>(_, _, _, Considered, _). 2 ^ 64 - unat Considered)" using unat_u64_less [of Considered] by simp
qed simp

declare consider_registers.simps [simp del]

text \<open>
  A value that has to start at an even register: the padding that takes the odd register, and the new values of
  \<^verbatim>\<open>OccupiedRegisterCount\<close>, \<^verbatim>\<open>ConsideredRegisterCounter\<close> and \<^verbatim>\<open>SizeCounter\<close>.
\<close>

definition pad_registers ::
  "Definition \<Rightarrow> u64 \<Rightarrow> u64 \<Rightarrow> Register list \<Rightarrow> u64 \<Rightarrow> u64 \<Rightarrow> u64 \<Rightarrow> u64 \<Rightarrow> (DistributedValue list \<times> u64 \<times> u64 \<times> u64) checked" where
  "pad_registers D Size Alignment Registers LastRegister OccupiedRegisterCount ConsideredRegisterCounter SizeCounter =
     (if OnlyStartDoubleArgumentsFromAnEvenRegister D
      then do {
        PointerSize \<leftarrow> ABI_getPointerSize (TheABI D);
        let MultiAligned = (Size \<ge> PointerSize \<and> Alignment > PointerSize \<or> Size > PointerSize \<and> BigArgumentsUsePointersToCopy D);
        let LastRegisterUsed = (ConsideredRegisterCounter = OccupiedRegisterCount);
        let FirstRegisterOdd = (OccupiedRegisterCount AND 1 \<noteq> 0);
        if MultiAligned \<and> \<not> LastRegisterUsed \<and> FirstRegisterOdd
        then do {
          (Padding, Occupied) \<leftarrow> (if OccupiedRegisterCount + 1 = word_of_nat (length Registers) then Some ([], OccupiedRegisterCount)
            else do {
              R \<leftarrow> at Registers (unat OccupiedRegisterCount);
              Some ([default_value\<lparr>DV_Registers := [R], DV_Size := PointerSize, RepresentsPadding := True\<rparr>], OccupiedRegisterCount + 1) });
          revng_assert (SizeCounter \<ge> PointerSize);
          Some (Padding, Occupied, if ConsideredRegisterCounter < LastRegister then ConsideredRegisterCounter + 1 else ConsideredRegisterCounter,
                SizeCounter - PointerSize) }
        else Some ([], OccupiedRegisterCount, ConsideredRegisterCounter, SizeCounter) }
      else Some ([], OccupiedRegisterCount, ConsideredRegisterCounter, SizeCounter))"

definition register_slice :: "Register list \<Rightarrow> u64 \<Rightarrow> u64 \<Rightarrow> Register list checked" where
  "register_slice Registers From To =
     (if To \<le> From then Some []
      else do {
        revng_assert (unat To \<le> length Registers);
        Some (take (unat To - unat From) (drop (unat From) Registers)) })"

text \<open>
  A value on the stack. Here and in \<open>place_value\<close> the results are the value, with the registers that count as
  used in \<open>place_value\<close>, the new \<^verbatim>\<open>UsedStackOffset\<close> without the value, and the new \<^verbatim>\<open>CurrentStackAlignment\<close>.
\<close>

definition place_on_stack ::
  "(u64 \<Rightarrow> u64 \<Rightarrow> u64 checked) \<Rightarrow> Definition \<Rightarrow> ValueDistributor \<Rightarrow> u64 \<Rightarrow> u64 \<Rightarrow> bool \<Rightarrow> (DistributedValue \<times> u64 \<times> u64) checked" where
  "place_on_stack al D V Size Alignment HasNaturalAlignment = do {
     let Alignment = (if \<not> HasNaturalAlignment then MinimumStackArgumentSize D else Alignment);
     let Offset = (if PackStackArguments D \<and> HasNaturalAlignment
                   then UsedStackOffset V - min (UsedStackOffset V) (LastAddedStackPadding V) else UsedStackOffset V);
     let AdjustedAlignment = max (CurrentStackAlignment V) Alignment;
     PrePaddedOffset \<leftarrow> al Offset AdjustedAlignment;
     revng_assert (PrePaddedOffset \<ge> Offset);
     Padded \<leftarrow> paddedSizeOnStack Size (MinimumStackArgumentSize D);
     Some (default_value\<lparr>DV_Size := Size, PrePaddingSize := PrePaddedOffset - Offset, OffsetOnStack := PrePaddedOffset,
                          SizeOnStack := Padded, PostPaddingSize := Padded - Size\<rparr>, PrePaddedOffset, Alignment) }"

text \<open>The three outcomes: only registers, registers and stack, only stack.\<close>

definition place_value ::
  "(u64 \<Rightarrow> u64 \<Rightarrow> u64 checked) \<Rightarrow> Definition \<Rightarrow> ValueDistributor \<Rightarrow> u64 \<Rightarrow> u64 \<Rightarrow> bool \<Rightarrow> Register list \<Rightarrow> bool
    \<Rightarrow> u64 \<Rightarrow> u64 \<Rightarrow> u64 \<Rightarrow> u64 \<Rightarrow> (DistributedValue \<times> u64 \<times> u64 \<times> u64) checked" where
  "place_value al D V Size Alignment HasNaturalAlignment Registers ForbidSplitting LastRegister OccupiedRegisterCount ConsideredRegisterCounter SizeCounter =
     (let CanUseRegisters = (HasNaturalAlignment \<or> AllowPackedTypesInRegisters D);
          AllowSplitting = (CanUseRegisters \<and> \<not> ForbidSplitting \<and> ArgumentsCanBeSplitBetweenRegistersAndStack D);
          AllTheRegistersAreInUse = (ConsideredRegisterCounter = LastRegister)
      in if SizeCounter \<ge> Size \<and> CanUseRegisters
         then do {
           Rs \<leftarrow> register_slice Registers OccupiedRegisterCount ConsideredRegisterCounter;
           Some (default_value\<lparr>DV_Size := Size, DV_Registers := Rs\<rparr>, ConsideredRegisterCounter, UsedStackOffset V, Alignment) }
         else if AllowSplitting \<and> AllTheRegistersAreInUse \<and> SizeCounter > 0
         then do {
           Rs \<leftarrow> register_slice Registers OccupiedRegisterCount ConsideredRegisterCounter;
           Padded \<leftarrow> paddedSizeOnStack (Size - SizeCounter) (MinimumStackArgumentSize D);
           Some (default_value\<lparr>DV_Size := Size, DV_Registers := Rs, SizeOnStack := Padded,
                  PostPaddingSize := Padded - Size + SizeCounter, OffsetOnStack := UsedStackOffset V\<rparr>,
                 ConsideredRegisterCounter, UsedStackOffset V, Alignment) }
         else do {
           (DA, Offset, NewAlignment) \<leftarrow> place_on_stack al D V Size Alignment HasNaturalAlignment;
           Some (DA, if NoRegisterArgumentsCanComeAfterStackOnes D then word_of_nat (length Registers) else OccupiedRegisterCount,
                 Offset, NewAlignment) })"

definition distribute ::
  "(u64 \<Rightarrow> u64 \<Rightarrow> u64 checked) \<Rightarrow> Definition \<Rightarrow> ValueDistributor \<Rightarrow> u64 \<Rightarrow> u64 \<Rightarrow> bool \<Rightarrow> Register list \<Rightarrow> u64 \<Rightarrow> u64 \<Rightarrow> bool
    \<Rightarrow> ((DistributedValue list \<times> u64) \<times> ValueDistributor) checked" where
  "distribute al D V Size Alignment HasNaturalAlignment Registers OccupiedRegisterCount AllowedRegisterLimit ForbidSplitting = do {
     let LastRegister = (let L = OccupiedRegisterCount + AllowedRegisterLimit
                         in if L > word_of_nat (length Registers) then word_of_nat (length Registers) else L);
     (Considered0, SizeCounter0) \<leftarrow> (if Registers \<noteq> [] then consider_registers Registers Size LastRegister OccupiedRegisterCount 0
                                     else Some (OccupiedRegisterCount, 0));
     (Padding, Occupied, Considered, SizeCounter) \<leftarrow>
       pad_registers D Size Alignment Registers LastRegister OccupiedRegisterCount Considered0 SizeCounter0;
     (DA, Next, Offset, NewAlignment) \<leftarrow>
       place_value al D V Size Alignment HasNaturalAlignment Registers ForbidSplitting LastRegister Occupied Considered SizeCounter;
     Some ((Padding @ [DA], Next),
       V\<lparr>UsedStackOffset := Offset + SizeOnStack DA, CurrentStackAlignment := NewAlignment, LastAddedStackPadding := PostPaddingSize DA\<rparr>) }"

section \<open>Arguments and return values\<close>

text \<open>The distributor of arguments.\<close>

definition addShadowPointerReturnValueLocationArgument :: "Definition \<Rightarrow> ValueDistributor \<Rightarrow> ValueDistributor checked" where
  "addShadowPointerReturnValueLocationArgument D V = do {
     revng_assert (ArgumentIndex V = 0);
     let V = V\<lparr>ArgumentIndex := 1\<rparr>;
     if ReturnValueLocationRegister D \<noteq> Register_Invalid
     then (case GeneralPurposeArgumentRegisters D of
         [] \<Rightarrow> Some V
       | R # _ \<Rightarrow> if ReturnValueLocationRegister D = R
                 then do {
                   revng_assert (UsedGeneralPurposeRegisterCount V = 0);
                   Some (V\<lparr>UsedGeneralPurposeRegisterCount := 1\<rparr>) }
                 else Some V)
     else if ReturnValueLocationOnStack D
     then do {
       PointerSize \<leftarrow> ABI_getPointerSize (TheABI D);
       revng_assert (UsedStackOffset V mod PointerSize = 0);
       Some (V\<lparr>UsedStackOffset := UsedStackOffset V + PointerSize\<rparr>) }
     else Some V }"

definition verify_next_register :: "Definition \<Rightarrow> Register list \<Rightarrow> u64 \<Rightarrow> u64 \<Rightarrow> u64 \<Rightarrow> bool" where
  "verify_next_register D RegisterList RegisterLimit Current Next \<longleftrightarrow>
     (if Current = Next then True
      else if Next \<ge> Current \<and> Next \<le> Current + RegisterLimit then True
      else if Next = word_of_nat (length RegisterList) then NoRegisterArgumentsCanComeAfterStackOnes D
      else False)"

definition nonPositionBased ::
  "(u64 \<Rightarrow> u64 \<Rightarrow> u64 checked) \<Rightarrow> Definition \<Rightarrow> ValueDistributor \<Rightarrow> bool \<Rightarrow> bool \<Rightarrow> u64 \<Rightarrow> u64 \<Rightarrow> bool
    \<Rightarrow> (DistributedValue list \<times> ValueDistributor) checked" where
  "nonPositionBased al D V IsScalar IsFloat Size Alignment HasNaturalAlignment = do {
     let Vector = (IsFloat \<and> \<not> FloatsUseGPRs D);
     let RegisterList = (if Vector then VectorArgumentRegisters D else GeneralPurposeArgumentRegisters D);
     let RegisterCounter = (if Vector then UsedVectorRegisterCount V else UsedGeneralPurposeRegisterCount V);
     if Vector \<and> word_of_nat (length RegisterList) > RegisterCounter
     then do {
       R \<leftarrow> at RegisterList (unat RegisterCounter);
       Some ([default_value\<lparr>DV_Registers := [R]\<rparr>], V\<lparr>UsedVectorRegisterCount := RegisterCounter + 1\<rparr>) }
     else do {
       PointerSize \<leftarrow> ABI_getPointerSize (TheABI D);
       let RegisterLimit = (if Vector then 0
                            else if IsScalar then MaximumGPRsPerScalarArgument D else MaximumGPRsPerAggregateArgument D);
       let ByPointer = (\<not> Vector \<and> BigArgumentsUsePointersToCopy D \<and> Size > PointerSize * RegisterLimit);
       let Size = (if ByPointer then PointerSize else Size);
       let Alignment = (if ByPointer then PointerSize else Alignment);
       let HasNaturalAlignment = (if TreatAllAggregatesAsPacked D \<and> \<not> IsScalar then False
                                  else if ByPointer then True else HasNaturalAlignment);
       ((Result, NextRegisterIndex), V) \<leftarrow>
         distribute al D V Size Alignment HasNaturalAlignment RegisterList RegisterCounter RegisterLimit Vector;
       Result \<leftarrow> (if ByPointer
         then (case Result of [DA] \<Rightarrow> Some [DA\<lparr>UsesPointerToCopy := True\<rparr>] | _ \<Rightarrow> revng_abort)
         else Some Result);
       revng_assert (verify_next_register D RegisterList RegisterLimit RegisterCounter NextRegisterIndex);
       let V = (if Vector then V\<lparr>UsedVectorRegisterCount := NextRegisterIndex\<rparr>
                else V\<lparr>UsedGeneralPurposeRegisterCount := NextRegisterIndex\<rparr>);
       Some (Result, V\<lparr>ArgumentIndex := ArgumentIndex V + 1\<rparr>) } }"

definition nextPositionBasedIndex :: "ValueDistributor \<Rightarrow> u64" where
  "nextPositionBasedIndex V =
     max (max (UsedGeneralPurposeRegisterCount V) (UsedVectorRegisterCount V)) (ArgumentIndex V)"

definition positionBased ::
  "Definition \<Rightarrow> ValueDistributor \<Rightarrow> bool \<Rightarrow> u64 \<Rightarrow> (DistributedValue list \<times> ValueDistributor) checked" where
  "positionBased D V IsFloat Size = do {
     PointerSize \<leftarrow> ABI_getPointerSize (TheABI D);
     let Big = (Size > PointerSize);
     let Result = default_value\<lparr>DV_Size := if Big then PointerSize else Size, UsesPointerToCopy := Big\<rparr>;
     let UseVR = (if FloatsUseGPRs D then False else \<not> Big \<and> IsFloat);
     let UsedRegisters = (if UseVR then VectorArgumentRegisters D else GeneralPurposeArgumentRegisters D);
     let UsedRegisterCount = (if UseVR then UsedVectorRegisterCount V else UsedGeneralPurposeRegisterCount V);
     let CurrentArgumentIndex = nextPositionBasedIndex V;
     (Result, V) \<leftarrow>
       (if CurrentArgumentIndex < word_of_nat (length UsedRegisters)
        then do {
          R \<leftarrow> at UsedRegisters (unat CurrentArgumentIndex);
          revng_assert (UsedRegisterCount \<le> CurrentArgumentIndex);
          Some (Result\<lparr>DV_Registers := [R]\<rparr>,
            if UseVR then V\<lparr>UsedVectorRegisterCount := CurrentArgumentIndex + 1\<rparr>
            else V\<lparr>UsedGeneralPurposeRegisterCount := CurrentArgumentIndex + 1\<rparr>) }
        else do {
          _ \<leftarrow> (if UsedStackOffset V \<noteq> 0
                then do {
                  Padded \<leftarrow> paddedSizeOnStack (UsedStackOffset V) (MinimumStackArgumentSize D);
                  revng_assert (Padded = UsedStackOffset V) }
                else Some ());
          Some (Result\<lparr>OffsetOnStack := UsedStackOffset V, SizeOnStack := PointerSize\<rparr>,
            V\<lparr>UsedStackOffset := UsedStackOffset V + PointerSize\<rparr>) });
     Some ([Result], V\<lparr>ArgumentIndex := ArgumentIndex V + 1\<rparr>) }"

definition nextArgument ::
  "(u64 \<Rightarrow> u64 \<Rightarrow> u64 checked) \<Rightarrow> Definition \<Rightarrow> ValueDistributor \<Rightarrow> TypeTraits \<Rightarrow> (DistributedValue list \<times> ValueDistributor) checked" where
  "nextArgument al D V T =
     (if ArgumentsArePositionBased D then positionBased D V (isFloatPrimitive T) (type_size T)
      else nonPositionBased al D V (isScalar T) (isFloatPrimitive T) (type_size T) (type_alignment T) (naturally_aligned T))"

definition canNextArgumentUseRegisters :: "Definition \<Rightarrow> ValueDistributor \<Rightarrow> bool" where
  "canNextArgumentUseRegisters D V =
     (let GPRCount = word_of_nat (length (GeneralPurposeArgumentRegisters D));
          VectorCount = word_of_nat (length (VectorArgumentRegisters D))
      in if ArgumentsArePositionBased D then nextPositionBasedIndex V < max GPRCount VectorCount
         else if UsedGeneralPurposeRegisterCount V = GPRCount \<and> UsedVectorRegisterCount V = VectorCount then False
         else if NoRegisterArgumentsCanComeAfterStackOnes D \<and> UsedStackOffset V \<noteq> 0 then False
         else True)"

definition returnValue ::
  "(u64 \<Rightarrow> u64 \<Rightarrow> u64 checked) \<Rightarrow> Definition \<Rightarrow> ValueDistributor \<Rightarrow> TypeTraits \<Rightarrow> DistributedValue checked" where
  "returnValue al D V T =
     (let Vector = (isFloatPrimitive T \<and> \<not> FloatsUseGPRs D);
          RegisterList = (if Vector then VectorReturnValueRegisters D else GeneralPurposeReturnValueRegisters D);
          Limit = (if Vector then 1
                   else if isScalar T then MaximumGPRsPerScalarReturnValue D else MaximumGPRsPerAggregateReturnValue D)
      in if Vector \<and> RegisterList = [] then Some voidReturnValue
         else do {
           ((Result, _), _) \<leftarrow>
             distribute al D V (type_size T) (type_alignment T) (naturally_aligned T) RegisterList 0 Limit True;
           revng_assert (length Result = 1);
           at Result 0 })"

text \<open>A whole list of arguments.\<close>

fun distribute_arguments ::
  "(u64 \<Rightarrow> u64 \<Rightarrow> u64 checked) \<Rightarrow> Definition \<Rightarrow> ValueDistributor \<Rightarrow> TypeTraits list \<Rightarrow> (DistributedValue list list \<times> ValueDistributor) checked" where
  "distribute_arguments al D V [] = Some ([], V)"
| "distribute_arguments al D V (T # Ts) = do {
     (vs, V) \<leftarrow> nextArgument al D V T;
     (vss, V) \<leftarrow> distribute_arguments al D V Ts;
     Some (vs # vss, V) }"

section \<open>Helpers\<close>

definition size_of :: "Register list \<Rightarrow> nat" where
  "size_of Rs = sum_list (map (\<lambda>R. the (Register_getSize R)) Rs)"

definition slice :: "'a list \<Rightarrow> nat \<Rightarrow> nat \<Rightarrow> 'a list" where
  "slice xs i j = take (j - i) (drop i xs)"

lemma slice_simps [simp]: "slice xs i i = []" "size_of [] = 0" "size_of (R # Rs) = the (Register_getSize R) + size_of Rs"
  by (simp_all add: slice_def size_of_def)

lemma size_of_append [simp]: "size_of (xs @ ys) = size_of xs + size_of ys"
  by (simp add: size_of_def)

lemma slice_Cons: "i < j \<Longrightarrow> j \<le> length xs \<Longrightarrow> slice xs i j = xs ! i # slice xs (Suc i) j"
  by (simp add: slice_def Cons_nth_drop_Suc [symmetric] take_Cons' Suc_diff_Suc)

lemma slice_snoc: "i \<le> j \<Longrightarrow> j < length xs \<Longrightarrow> slice xs i (Suc j) = slice xs i j @ [xs ! j]"
  by (simp add: slice_def Suc_diff_le take_Suc_conv_app_nth)

lemma slice_append: "i \<le> j \<Longrightarrow> j \<le> k \<Longrightarrow> k \<le> length xs \<Longrightarrow> slice xs i j @ slice xs j k = slice xs i k"
  using take_add [of "j - i" "k - j" "drop i xs"] by (simp add: slice_def add.commute)

lemma slice_props: "distinct xs \<Longrightarrow> distinct (slice xs i j)" "set (slice xs i j) \<subseteq> set (drop i xs)"
  "distinct xs \<Longrightarrow> i \<le> j \<Longrightarrow> set (slice xs i j) \<inter> set (drop j xs) = {}"
proof -
  show "distinct xs \<Longrightarrow> distinct (slice xs i j)" by (simp add: slice_def)
  show "set (slice xs i j) \<subseteq> set (drop i xs)" using set_take_subset by (simp add: slice_def)
  assume "distinct xs" "i \<le> j"
  then show "set (slice xs i j) \<inter> set (drop j xs) = {}"
    using set_take_disj_set_drop_if_distinct [of "drop i xs" "j - i" "j - i"] by (simp add: slice_def)
qed

lemma register_slice_eq: "unat b \<le> length xs \<Longrightarrow> register_slice xs a b = Some (slice xs (unat a) (unat b))"
  by (auto simp: register_slice_def slice_def word_le_nat_alt)

lemma unat_u64_sub: "b \<le> a \<Longrightarrow> unat (a - b) = unat a - unat b" for a b :: u64
  by (rule unat_sub)

section \<open>Registers\<close>

definition sizes_ok :: "Register list \<Rightarrow> bool" where
  "sizes_ok Rs \<longleftrightarrow> length Rs < 256 \<and> list_all (\<lambda>R. case Register_getSize R of None \<Rightarrow> False | Some n \<Rightarrow> n \<le> 64) Rs"

lemma sizes_ok_nth: "sizes_ok Rs \<Longrightarrow> i < length Rs \<Longrightarrow> \<exists>n. Register_getSize (Rs ! i) = Some n \<and> n \<le> 64"
  by (auto simp: sizes_ok_def list_all_length split: option.splits)

lemma consider_registers_correct:
  assumes "sizes_ok Rs" "unat Last \<le> length Rs" "unat c \<le> unat Last" "unat s + 64 * (unat Last - unat c) < 2 ^ 64"
  shows "\<exists>c' s'. consider_registers Rs Size Last c s = Some (c', s') \<and> unat c \<le> unat c' \<and> unat c' \<le> unat Last
    \<and> unat s' = unat s + size_of (slice Rs (unat c) (unat c')) \<and> (Size \<le> s' \<or> c' = Last) \<and> (c' = c \<longrightarrow> s' = s)"
  using assms
proof (induction Rs Size Last c s rule: consider_registers.induct)
  case (1 Rs Size Last c s)
  show ?case
  proof (cases "s < Size \<and> c < Last")
    case True
    then have cl: "unat c < unat Last" by (simp add: word_less_nat_alt)
    then have len: "unat c < length Rs" using "1.prems" by simp
    have "length Rs < 2 ^ 64" using "1.prems"(1) by (simp add: sizes_ok_def)
    then have "c < word_of_nat (length Rs)" using len by (simp add: word_less_nat_alt unat_u64)
    then have cond: "s < Size \<and> c < word_of_nat (length Rs) \<and> c < Last" using True by simp
    obtain n where n: "Register_getSize (Rs ! unat c) = Some n" "n \<le> 64" using sizes_ok_nth [OF "1.prems"(1) len] by blast
    have Suc: "unat (c + 1) = Suc (unat c)" using True unat_u64_Suc by blast
    have un: "unat (word_of_nat n :: u64) = n" using n(2) by (intro unat_u64) simp
    have sn: "unat (s + word_of_nat n) = unat s + n" using "1.prems"(4) cl n(2) un by (subst unat_u64_add) simp_all
    have "\<exists>c' s'. consider_registers Rs Size Last (c + 1) (s + word_of_nat n) = Some (c', s') \<and> unat (c + 1) \<le> unat c' \<and> unat c' \<le> unat Last
      \<and> unat s' = unat (s + word_of_nat n) + size_of (slice Rs (unat (c + 1)) (unat c')) \<and> (Size \<le> s' \<or> c' = Last)
      \<and> (c' = c + 1 \<longrightarrow> s' = s + word_of_nat n)"
      by (rule "1.IH" [OF cond, of "Rs ! unat c" n]) (use "1.prems" n cl Suc sn len in \<open>simp_all add: at_def\<close>)
    then obtain c' s' where r: "consider_registers Rs Size Last (c + 1) (s + word_of_nat n) = Some (c', s')" "Suc (unat c) \<le> unat c'"
      "unat c' \<le> unat Last" "unat s' = unat s + n + size_of (slice Rs (Suc (unat c)) (unat c'))" "Size \<le> s' \<or> c' = Last"
      unfolding Suc sn by blast
    have "size_of (slice Rs (unat c) (unat c')) = n + size_of (slice Rs (Suc (unat c)) (unat c'))"
      using slice_Cons [of "unat c" "unat c'" Rs] r(2,3) "1.prems"(2) n(1) by simp
    moreover have "consider_registers Rs Size Last c s = Some (c', s')"
      using cond n(1) len r(1) by (subst consider_registers.simps) (simp add: at_def)
    ultimately show ?thesis using r by (intro exI [of _ c'] exI [of _ s']) auto
  next
    case False
    then have "consider_registers Rs Size Last c s = Some (c, s)" by (subst consider_registers.simps) auto
    moreover have "Size \<le> s \<or> c = Last"
      using False "1.prems"(3) by (auto simp: not_less word_le_nat_alt word_less_nat_alt word_unat_eq_iff)
    ultimately show ?thesis using "1.prems"(3) by simp
  qed
qed

text \<open>
  What \<^verbatim>\<open>distribute\<close> makes of the registers before the value is placed: the padding takes the registers up to
  \<open>Occupied\<close>, those from there to \<open>Considered\<close> hold \<open>SizeCounter\<close> bytes at least.
\<close>

definition pointer_sized :: "Definition \<Rightarrow> Register list \<Rightarrow> bool" where
  "pointer_sized D Rs \<longleftrightarrow> list_all (\<lambda>R. map_option word_of_nat (Register_getSize R) = ABI_getPointerSize (TheABI D)) Rs"

lemma pad_registers_correct:
  assumes P: "ABI_getPointerSize (TheABI D) = Some P" and Rs: "sizes_ok Rs" "even (unat Occ) \<or> pointer_sized D Rs \<or> c = Occ"
    and Last: "unat Last \<le> length Rs" and c: "unat Occ \<le> unat c" "unat c \<le> unat Last"
    and s: "unat s = size_of (slice Rs (unat Occ) (unat c))"
  shows "\<exists>Padding Occ' c' s'. pad_registers D Size Alignment Rs Last Occ c s = Some (Padding, Occ', c', s')
    \<and> concat (map DV_Registers Padding) = slice Rs (unat Occ) (unat Occ') \<and> (\<forall>v\<in>set Padding. SizeOnStack v = 0)
    \<and> unat Occ \<le> unat Occ' \<and> unat Occ' \<le> unat c' \<and> unat c' \<le> unat Last
    \<and> unat s' \<le> size_of (slice Rs (unat Occ') (unat c')) \<and> (even (unat Occ) \<or> Size \<le> P \<and> Alignment \<le> P \<longrightarrow> Padding = [] \<and> s' = s \<and> Occ' = Occ \<and> c' = c)"
proof (cases "OnlyStartDoubleArgumentsFromAnEvenRegister D \<and> (Size \<ge> P \<and> Alignment > P \<or> Size > P \<and> BigArgumentsUsePointersToCopy D)
    \<and> c \<noteq> Occ \<and> Occ AND 1 \<noteq> 0")
  case False
  then have "pad_registers D Size Alignment Rs Last Occ c s = Some ([], Occ, c, s)"
    using P by (auto simp: pad_registers_def Let_def)
  then show ?thesis using c s by simp
next
  case True
  have odd: "odd (unat Occ)" using True and_one_zero_iff by blast
  have lt: "unat Occ < unat c" using True c(1) by (simp add: word_unat_eq_iff)
  then have len: "unat Occ < length Rs" using c(2) Last by simp
  obtain n where n: "Register_getSize (Rs ! unat Occ) = Some n" "n \<le> 64" using sizes_ok_nth [OF Rs(1) len] by blast
  have "map_option word_of_nat (Register_getSize (Rs ! unat Occ)) = Some P"
    using Rs(2) odd True len P by (simp add: pointer_sized_def list_all_length)
  then have nP: "unat P = n" using n unat_u64 [of n] by auto
  have split: "size_of (slice Rs (unat Occ) (unat c)) = n + size_of (slice Rs (Suc (unat Occ)) (unat c))"
    using slice_Cons [of "unat Occ" "unat c" Rs] lt c(2) Last n(1) by simp
  then have sP: "P \<le> s" "unat (s - P) = size_of (slice Rs (Suc (unat Occ)) (unat c))"
    using s nP unat_u64_sub [of P s] by (simp_all add: word_le_nat_alt)
  have Suc: "unat (Occ + 1) = Suc (unat Occ)" using lt unat_u64_Suc [of Occ c] by (simp add: word_less_nat_alt)
  define c' where "c' = (if c < Last then c + 1 else c)"
  have c': "unat c \<le> unat c'" "unat c' \<le> unat Last" using c(2) unat_u64_Suc [of c Last] by (auto simp: c'_def word_less_nat_alt)
  have "size_of (slice Rs i (unat c)) \<le> size_of (slice Rs i (unat c'))" if "i \<le> unat c" for i
    using slice_append [of i "unat c" "unat c'" Rs] that c' Last by (metis le_add1 le_trans size_of_append)
  then have grow: "size_of (slice Rs (Suc (unat Occ)) (unat c)) \<le> size_of (slice Rs (Suc (unat Occ)) (unat c'))"
    "size_of (slice Rs (unat Occ) (unat c)) \<le> size_of (slice Rs (unat Occ) (unat c'))" using lt by simp_all
  have one: "slice Rs (unat Occ) (Suc (unat Occ)) = [Rs ! unat Occ]" using slice_snoc [of "unat Occ" "unat Occ" Rs] len by simp
  show ?thesis
  proof (cases "Occ + 1 = word_of_nat (length Rs)")
    case last: True
    have "pad_registers D Size Alignment Rs Last Occ c s = Some ([], Occ, c', s - P)"
      using P True last sP(1) by (simp add: pad_registers_def Let_def c'_def)
    then show ?thesis using sP(2) grow(2) split c' lt True odd by (intro exI [of _ "[]"] exI [of _ Occ] exI [of _ c'] exI [of _ "s - P"]) auto
  next
    case False
    let ?v = "default_value\<lparr>DV_Registers := [Rs ! unat Occ], DV_Size := P, RepresentsPadding := True\<rparr>"
    have "pad_registers D Size Alignment Rs Last Occ c s = Some ([?v], Occ + 1, c', s - P)"
      using P True False sP(1) len by (simp add: pad_registers_def Let_def c'_def at_def)
    then show ?thesis using sP(2) grow(1) c' lt True odd one Suc
      by (intro exI [of _ "[?v]"] exI [of _ "Occ + 1"] exI [of _ c'] exI [of _ "s - P"]) (auto simp: default_value_def)
  qed
qed

section \<open>The stack\<close>

definition small :: "u64 \<Rightarrow> bool" where
  "small a \<longleftrightarrow> isPowerOf2 (unat a) \<and> unat a \<le> 2 ^ 32"

lemma small_mask:
  assumes "small m"
  obtains k where "k \<le> 32" "unat m = 2 ^ k" "m - 1 = mask k"
proof -
  obtain k where k: "unat m = 2 ^ k" using assms by (auto simp: small_def isPowerOf2_def)
  have "(2 :: nat) ^ k \<le> 2 ^ 32" using assms k by (simp add: small_def)
  then have le: "k \<le> 32" by (subst (asm) power_increasing_iff) simp_all
  have "(2 :: nat) ^ k < 2 ^ 64" using le by (subst power_strict_increasing_iff) simp_all
  then have "m = 2 ^ k" using k unat_u64 [of "2 ^ k"] by (simp add: word_unat_eq_iff)
  then show ?thesis using that [OF le k] by (simp add: mask_eq_exp_minus_1)
qed

lemma padded_size:
  assumes m: "small m" and s: "s \<noteq> 0" "unat s \<le> 2 ^ 32"
  shows "\<exists>p. paddedSizeOnStack s m = Some p \<and> unat s \<le> unat p \<and> unat p < unat s + unat m \<and> unat m dvd unat p"
proof -
  have pos: "0 < unat s" using s(1) unat_eq_0 [of s] by simp
  show ?thesis
  proof (cases "s \<le> m")
    case True
    then show ?thesis using m s(1) pos by (simp add: paddedSizeOnStack_def small_def word_le_nat_alt)
  next
    case False
    obtain k where k: "k \<le> 32" "unat m = 2 ^ k" "m - 1 = mask k" using small_mask [OF m] .
    have m1: "unat (m - 1) = unat m - 1" using k(2) by (subst unat_u64_sub) (simp_all add: word_le_nat_alt)
    have "unat (m - 1) \<le> 2 ^ 32" using m m1 diff_le_self [of "unat m" 1] unfolding small_def by linarith
    then have "unat s + unat (m - 1) < 2 ^ 64" using s(2) by simp
    then have add: "unat (s + (m - 1)) = unat s + (unat m - 1)" using unat_u64_add m1 by simp
    let ?n = "unat s + (unat m - 1)"
    have p: "unat ((s + (m - 1)) AND NOT (m - 1)) = unat m * (?n div unat m)"
      unfolding k(3) unat_and_not_mask k(2) using add k(2,3) by simp
    have "?n mod unat m < unat m" "unat m * (?n div unat m) + ?n mod unat m = ?n" using k(2) by simp_all
    then have "unat s \<le> unat m * (?n div unat m)" "unat m * (?n div unat m) < unat s + unat m" using k(2) by linarith+
    moreover have "paddedSizeOnStack s m = Some ((s + (m - 1)) AND NOT (m - 1))" using False m s(1) by (simp add: paddedSizeOnStack_def small_def)
    ultimately show ?thesis using p dvd_triv_left [of "unat m" "?n div unat m"] by (intro exI [of _ "(s + (m - 1)) AND NOT (m - 1)"]) (simp only: simp_thms)
  qed
qed
text \<open>The state of the distributor between two arguments: \<open>n\<close> of them may have been distributed.\<close>

definition stack_ok :: "nat \<Rightarrow> ValueDistributor \<Rightarrow> bool" where
  "stack_ok n V \<longleftrightarrow> unat (UsedStackOffset V) \<le> (n + 1) * 2 ^ 34 \<and> LastAddedStackPadding V \<le> UsedStackOffset V
     \<and> (CurrentStackAlignment V = 0 \<or> small (CurrentStackAlignment V))"

text \<open>
  The end of what is in use on the stack, and what a value uses of it: when arguments are packed, the padding of
  the last one may be used again.
\<close>

definition stack_top :: "Definition \<Rightarrow> ValueDistributor \<Rightarrow> nat" where
  "stack_top D V = unat (UsedStackOffset V) - (if PackStackArguments D then unat (LastAddedStackPadding V) else 0)"

definition stack_use :: "Definition \<Rightarrow> DistributedValue \<Rightarrow> nat" where
  "stack_use D v = unat (SizeOnStack v) - (if PackStackArguments D then unat (PostPaddingSize v) else 0)"

text \<open>A value occupies the stack from the old end to the new one, or not at all.\<close>

definition stack_step :: "Definition \<Rightarrow> ValueDistributor \<Rightarrow> DistributedValue \<Rightarrow> ValueDistributor \<Rightarrow> bool" where
  "stack_step D V v V' \<longleftrightarrow> stack_top D V \<le> stack_top D V'
     \<and> (SizeOnStack v \<noteq> 0 \<longrightarrow> stack_top D V \<le> unat (OffsetOnStack v) \<and> unat (OffsetOnStack v) + stack_use D v \<le> stack_top D V')"

lemma stack_stepI:
  assumes "stack_ok n V" "n \<le> 2 ^ 24"
    and "UsedStackOffset V' = OffsetOnStack v + SizeOnStack v" "LastAddedStackPadding V' = PostPaddingSize v" "CurrentStackAlignment V' = a" "small a"
    and "stack_top D V \<le> unat (OffsetOnStack v)" "unat (OffsetOnStack v) \<le> unat (UsedStackOffset V) + 2 ^ 32" "unat (SizeOnStack v) \<le> 2 ^ 33"
      "PostPaddingSize v \<le> SizeOnStack v"
  shows "stack_ok (Suc n) V' \<and> stack_step D V v V'"
proof -
  have "(n + 1) * 2 ^ 34 \<le> (2 ^ 24 + 1) * 2 ^ (34 :: nat)" using assms(2) by (intro mult_right_mono) simp_all
  then have "unat (OffsetOnStack v) + unat (SizeOnStack v) < 2 ^ 64" using assms(1,8,9) by (simp add: stack_ok_def)
  then have u: "unat (UsedStackOffset V') = unat (OffsetOnStack v) + unat (SizeOnStack v)" using assms(3) unat_u64_add by simp
  have "unat (UsedStackOffset V') \<le> (Suc n + 1) * 2 ^ 34" using u assms(1,8,9) by (simp add: stack_ok_def)
  then show ?thesis using u assms by (auto simp: stack_ok_def stack_step_def stack_top_def stack_use_def word_le_nat_alt)
qed

lemma place_on_stack_correct:
  assumes al: "power_of_2_alignment al" and V: "stack_ok n V" "n \<le> 2 ^ 24" and min: "small (MinimumStackArgumentSize D)"
    and s: "Size \<noteq> 0" "unat Size \<le> 2 ^ 32" and a: "small Alignment"
  shows "\<exists>v off al'. place_on_stack al D V Size Alignment Natural = Some (v, off, al') \<and> small al' \<and> DV_Registers v = [] \<and> \<not> UsesPointerToCopy v \<and> DV_Size v = Size
    \<and> off = OffsetOnStack v \<and> stack_top D V \<le> unat off \<and> unat off \<le> unat (UsedStackOffset V) + 2 ^ 32
    \<and> Size \<le> SizeOnStack v \<and> unat (SizeOnStack v) \<le> 2 ^ 33 \<and> PostPaddingSize v \<le> SizeOnStack v"
proof -
  define a' where "a' = (if \<not> Natural then MinimumStackArgumentSize D else Alignment)"
  define off where "off = (if PackStackArguments D \<and> Natural then UsedStackOffset V - min (UsedStackOffset V) (LastAddedStackPadding V) else UsedStackOffset V)"
  have pad: "LastAddedStackPadding V \<le> UsedStackOffset V" using V(1) by (simp add: stack_ok_def)
  then have off: "stack_top D V \<le> unat off" "unat off \<le> unat (UsedStackOffset V)"
    using unat_u64_sub [OF pad] by (auto simp: off_def stack_top_def min_def word_le_nat_alt)
  have a': "small a'" using a min by (simp add: a'_def)
  then have max: "small (max (CurrentStackAlignment V) a')" using V(1) by (auto simp: stack_ok_def max_def)
  have "(n + 1) * 2 ^ 34 \<le> (2 ^ 24 + 1) * 2 ^ (34 :: nat)" using V(2) by (intro mult_right_mono) simp_all
  then have "unat off + unat (max (CurrentStackAlignment V) a') \<le> 2 ^ 64" using V(1) off(2) max by (simp add: stack_ok_def small_def)
  then obtain r where r: "al off (max (CurrentStackAlignment V) a') = Some r" "unat off \<le> unat r" "unat r < unat off + unat (max (CurrentStackAlignment V) a')"
    using power_of_2_alignment.al_next [OF al] max unfolding small_def by blast
  obtain p where p: "paddedSizeOnStack Size (MinimumStackArgumentSize D) = Some p" "unat Size \<le> unat p" "unat p < unat Size + unat (MinimumStackArgumentSize D)"
    using padded_size [OF min s] by blast
  let ?v = "default_value\<lparr>DV_Size := Size, PrePaddingSize := r - off, OffsetOnStack := r, SizeOnStack := p, PostPaddingSize := p - Size\<rparr>"
  have "place_on_stack al D V Size Alignment Natural = Some (?v, r, a')"
    using r(1,2) p(1) by (simp add: place_on_stack_def Let_def a'_def [symmetric] off_def [symmetric] word_le_nat_alt)
  moreover have "unat r \<le> unat (UsedStackOffset V) + 2 ^ 32" using r(3) off(2) max by (simp add: small_def)
  moreover have "unat p \<le> 2 ^ 33" using p(3) s(2) min by (simp add: small_def)
  moreover have "p - Size \<le> p" using unat_u64_sub [of Size p] p(2) by (simp add: word_le_nat_alt)
  ultimately show ?thesis using a' off(1) r(2) p(2)
    by (intro exI [of _ ?v] exI [of _ r] exI [of _ a']) (simp add: default_value_def word_le_nat_alt)
qed

section \<open>Distribution of a value\<close>

text \<open>What \<^verbatim>\<open>distribute\<close> is given, and what it returns.\<close>

definition can_distribute :: "Definition \<Rightarrow> nat \<Rightarrow> ValueDistributor \<Rightarrow> u64 \<Rightarrow> u64 \<Rightarrow> Register list \<Rightarrow> u64 \<Rightarrow> u64 \<Rightarrow> bool" where
  "can_distribute D n V Size Alignment Rs Occ Limit \<longleftrightarrow> stack_ok n V \<and> n \<le> 2 ^ 24 \<and> small (MinimumStackArgumentSize D)
     \<and> Size \<noteq> 0 \<and> unat Size \<le> 2 ^ 32 \<and> small Alignment \<and> sizes_ok Rs \<and> (even (unat Occ) \<or> pointer_sized D Rs \<or> unat Occ = length Rs)
     \<and> unat Occ \<le> length Rs \<and> unat Limit \<le> 2 ^ 32"

definition distributed ::
  "Definition \<Rightarrow> nat \<Rightarrow> ValueDistributor \<Rightarrow> u64 \<Rightarrow> Register list \<Rightarrow> u64 \<Rightarrow> u64 \<Rightarrow> DistributedValue list \<Rightarrow> DistributedValue \<Rightarrow> u64 \<Rightarrow> ValueDistributor \<Rightarrow> bool" where
  "distributed D n V Size Rs Occ Limit vs v Next V' \<longleftrightarrow> stack_ok (Suc n) V' \<and> stack_step D V v V' \<and> (\<forall>u\<in>set vs. SizeOnStack u = 0)
     \<and> (\<exists>m. concat (map DV_Registers (vs @ [v])) = slice Rs (unat Occ) m \<and> unat Occ \<le> m \<and> m \<le> unat Next) \<and> unat Next \<le> length Rs
     \<and> \<not> UsesPointerToCopy v \<and> DV_Size v = Size \<and> unat Size \<le> size_of (DV_Registers v) + unat (SizeOnStack v) \<and> verify_next_register D Rs Limit Occ Next
     \<and> UsedGeneralPurposeRegisterCount V' = UsedGeneralPurposeRegisterCount V \<and> UsedVectorRegisterCount V' = UsedVectorRegisterCount V
     \<and> ArgumentIndex V' = ArgumentIndex V"

lemma in_registers_step:
  assumes "stack_ok n V" "small a" "SizeOnStack v = 0" "PostPaddingSize v = 0"
    "V' = V\<lparr>UsedStackOffset := UsedStackOffset V + SizeOnStack v, CurrentStackAlignment := a, LastAddedStackPadding := PostPaddingSize v\<rparr>"
  shows "stack_ok (Suc n) V' \<and> stack_step D V v V'"
  using assms by (auto simp: stack_ok_def stack_step_def stack_top_def)

lemma verify_next_within: "unat Occ \<le> unat Next \<Longrightarrow> unat Next \<le> unat Occ + unat Limit \<Longrightarrow> unat Occ + unat Limit < 2 ^ 64 \<Longrightarrow> verify_next_register D Rs Limit Occ Next"
  by (simp add: verify_next_register_def word_le_nat_alt unat_u64_add)

text \<open>The registers from \<open>Occ\<close> to \<open>c\<close> hold \<open>s\<close> bytes; the value is placed in them or on the stack.\<close>

definition placed :: "Definition \<Rightarrow> nat \<Rightarrow> ValueDistributor \<Rightarrow> u64 \<Rightarrow> Register list \<Rightarrow> u64 \<Rightarrow> u64 \<Rightarrow> DistributedValue \<Rightarrow> u64 \<Rightarrow> ValueDistributor \<Rightarrow> bool" where
  "placed D n V Size Rs Occ c v Next V' \<longleftrightarrow> stack_ok (Suc n) V' \<and> stack_step D V v V'
     \<and> (DV_Registers v = slice Rs (unat Occ) (unat c) \<and> Next = c \<or> DV_Registers v = []
          \<and> Next = (if NoRegisterArgumentsCanComeAfterStackOnes D then word_of_nat (length Rs) else Occ))
     \<and> \<not> UsesPointerToCopy v \<and> DV_Size v = Size \<and> unat Size \<le> size_of (DV_Registers v) + unat (SizeOnStack v)"

lemma place_value_correct:
  assumes al: "power_of_2_alignment al" and V: "stack_ok n V" "n \<le> 2 ^ 24" and min: "small (MinimumStackArgumentSize D)"
    and size: "Size \<noteq> 0" "unat Size \<le> 2 ^ 32" and a: "small Alignment"
    and c: "unat c \<le> length Rs" and s: "unat s \<le> size_of (slice Rs (unat Occ) (unat c))"
  shows "\<exists>v Next off a'. place_value al D V Size Alignment Natural Rs Forbid Last Occ c s = Some (v, Next, off, a')
    \<and> placed D n V Size Rs Occ c v Next (V\<lparr>UsedStackOffset := off + SizeOnStack v, CurrentStackAlignment := a', LastAddedStackPadding := PostPaddingSize v\<rparr>)"
proof -
  note rs = register_slice_eq [OF c, of Occ]
  define use where "use \<longleftrightarrow> Natural \<or> AllowPackedTypesInRegisters D"
  define split where "split \<longleftrightarrow> (use \<and> \<not> Forbid \<and> ArgumentsCanBeSplitBetweenRegistersAndStack D) \<and> c = Last \<and> s > 0"
  consider "Size \<le> s \<and> use" | "\<not> (Size \<le> s \<and> use)" split | "\<not> (Size \<le> s \<and> use)" "\<not> split" by blast
  then show ?thesis
  proof cases
    case 1
    let ?v = "default_value\<lparr>DV_Size := Size, DV_Registers := slice Rs (unat Occ) (unat c)\<rparr>"
    let ?V = "V\<lparr>UsedStackOffset := UsedStackOffset V + SizeOnStack ?v, CurrentStackAlignment := Alignment, LastAddedStackPadding := PostPaddingSize ?v\<rparr>"
    have d: "place_value al D V Size Alignment Natural Rs Forbid Last Occ c s = Some (?v, c, UsedStackOffset V, Alignment)"
      using 1 rs by (simp add: place_value_def use_def)
    have "stack_ok (Suc n) ?V \<and> stack_step D V ?v ?V" by (rule in_registers_step [of n V Alignment]) (use V a in \<open>simp_all add: default_value_def\<close>)
    moreover have "unat Size \<le> size_of (slice Rs (unat Occ) (unat c))" using 1 s by (simp add: word_le_nat_alt)
    ultimately have "placed D n V Size Rs Occ c ?v c ?V" by (simp add: placed_def default_value_def)
    then show ?thesis using d by blast
  next
    case 2
    have ss: "s \<le> Size" "s \<noteq> Size" using 2 by (auto simp: split_def)
    have sub: "unat (Size - s) = unat Size - unat s" using unat_u64_sub [OF ss(1)] .
    have "Size - s \<noteq> 0" "unat (Size - s) \<le> 2 ^ 32" using ss sub size by simp_all
    then obtain p where p: "paddedSizeOnStack (Size - s) (MinimumStackArgumentSize D) = Some p" "unat (Size - s) \<le> unat p"
        "unat p < unat (Size - s) + unat (MinimumStackArgumentSize D)"
      using padded_size [OF min] by blast
    let ?v = "default_value\<lparr>DV_Size := Size, DV_Registers := slice Rs (unat Occ) (unat c), SizeOnStack := p,
                 PostPaddingSize := p - Size + s, OffsetOnStack := UsedStackOffset V\<rparr>"
    let ?V = "V\<lparr>UsedStackOffset := UsedStackOffset V + SizeOnStack ?v, CurrentStackAlignment := Alignment, LastAddedStackPadding := PostPaddingSize ?v\<rparr>"
    have d: "place_value al D V Size Alignment Natural Rs Forbid Last Occ c s = Some (?v, c, UsedStackOffset V, Alignment)"
      using 2 p(1) rs by (auto simp: place_value_def split_def use_def)
    have eq: "p - Size + s = p - (Size - s)" by simp
    have post: "p - Size + s \<le> p" unfolding eq using p(2) unat_u64_sub [of "Size - s" p] by (simp add: word_le_nat_alt)
    have "unat (Size - s) \<le> unat Size" using sub by simp
    then have "unat p \<le> 2 ^ 33" using p(3) min size by (simp add: small_def)
    then have "stack_ok (Suc n) ?V \<and> stack_step D V ?v ?V"
      using V a post by (intro stack_stepI [of n V ?V ?v Alignment]) (simp_all add: stack_top_def)
    moreover have "unat Size \<le> size_of (slice Rs (unat Occ) (unat c)) + unat p" using p(2) sub s by simp
    ultimately have "placed D n V Size Rs Occ c ?v c ?V" by (simp add: placed_def default_value_def)
    then show ?thesis using d by blast
  next
    case 3
    obtain v off a' where v: "place_on_stack al D V Size Alignment Natural = Some (v, off, a')" "small a'" "DV_Registers v = [] \<and> \<not> UsesPointerToCopy v" "DV_Size v = Size"
        "off = OffsetOnStack v" "stack_top D V \<le> unat off" "unat off \<le> unat (UsedStackOffset V) + 2 ^ 32"
        "Size \<le> SizeOnStack v" "unat (SizeOnStack v) \<le> 2 ^ 33" "PostPaddingSize v \<le> SizeOnStack v"
      using place_on_stack_correct [OF al V min size a, of Natural] by blast
    define Next where "Next = (if NoRegisterArgumentsCanComeAfterStackOnes D then word_of_nat (length Rs) else Occ)"
    let ?V = "V\<lparr>UsedStackOffset := off + SizeOnStack v, CurrentStackAlignment := a', LastAddedStackPadding := PostPaddingSize v\<rparr>"
    have d: "place_value al D V Size Alignment Natural Rs Forbid Last Occ c s = Some (v, Next, off, a')"
      using 3 v(1) by (auto simp: place_value_def split_def use_def Next_def)
    have "stack_ok (Suc n) ?V \<and> stack_step D V v ?V" using V v by (intro stack_stepI [of n V ?V v a']) simp_all
    then have "placed D n V Size Rs Occ c v Next ?V" using v by (simp add: placed_def Next_def word_le_nat_alt)
    then show ?thesis using d by blast
  qed
qed

lemma distribute_correct:
  assumes al: "power_of_2_alignment al" and P: "ABI_getPointerSize (TheABI D) = Some P" and can: "can_distribute D n V Size Alignment Rs Occ Limit"
  shows "\<exists>vs v Next V'. distribute al D V Size Alignment Natural Rs Occ Limit Forbid = Some ((vs @ [v], Next), V')
    \<and> distributed D n V Size Rs Occ Limit vs v Next V' \<and> (even (unat Occ) \<or> Size \<le> P \<and> Alignment \<le> P \<longrightarrow> vs = [])"
proof -
  note can = can [unfolded can_distribute_def]
  have len: "length Rs < 256" using can by (simp add: sizes_ok_def)
  then have ulen: "unat (word_of_nat (length Rs) :: u64) = length Rs" by (intro unat_u64) simp
  have ol: "unat Occ + unat Limit < 2 ^ 64" using can len by simp
  define Last where "Last = (if Occ + Limit > word_of_nat (length Rs) then word_of_nat (length Rs) else Occ + Limit)"
  have Last: "unat Last \<le> length Rs" "unat Occ \<le> unat Last" "unat Last \<le> unat Occ + unat Limit"
    using unat_u64_add [OF ol] ulen can by (auto simp: Last_def word_less_nat_alt)
  obtain c s where c: "(if Rs \<noteq> [] then consider_registers Rs Size Last Occ 0 else Some (Occ, 0)) = Some (c, s)" "unat Occ \<le> unat c"
      "unat c \<le> unat Last" "unat s = size_of (slice Rs (unat Occ) (unat c))"
  proof (cases "Rs = []")
    case False
    have "unat (0 :: u64) + 64 * (unat Last - unat Occ) < 2 ^ 64" using Last(1) len by simp
    then obtain c s where "consider_registers Rs Size Last Occ 0 = Some (c, s)" "unat Occ \<le> unat c" "unat c \<le> unat Last"
        "unat s = unat (0 :: u64) + size_of (slice Rs (unat Occ) (unat c))"
      using consider_registers_correct [of Rs Last Occ 0 Size] can Last by blast
    then show ?thesis using that [of c s] False by simp
  qed (use that [of Occ 0] Last in simp)
  have "c = Occ" if "unat Occ = length Rs" using that c(2,3) Last(1) by (simp add: word_unat_eq_iff)
  then have hyp: "even (unat Occ) \<or> pointer_sized D Rs \<or> c = Occ" using can by blast
  have sizes: "sizes_ok Rs" using can by blast
  obtain Padding O' c' s' where pad: "pad_registers D Size Alignment Rs Last Occ c s = Some (Padding, O', c', s')"
      "concat (map DV_Registers Padding) = slice Rs (unat Occ) (unat O')" "\<forall>v\<in>set Padding. SizeOnStack v = 0"
      "unat Occ \<le> unat O'" "unat O' \<le> unat c'" "unat c' \<le> unat Last" "unat s' \<le> size_of (slice Rs (unat O') (unat c'))"
      "even (unat Occ) \<or> Size \<le> P \<and> Alignment \<le> P \<longrightarrow> Padding = []"
    using pad_registers_correct [OF P sizes hyp Last(1) c(2,3,4), of Size Alignment] by blast
  have c': "unat c' \<le> length Rs" using pad(6) Last(1) by simp
  obtain v Next off a where v: "place_value al D V Size Alignment Natural Rs Forbid Last O' c' s' = Some (v, Next, off, a)"
      "placed D n V Size Rs O' c' v Next (V\<lparr>UsedStackOffset := off + SizeOnStack v, CurrentStackAlignment := a, LastAddedStackPadding := PostPaddingSize v\<rparr>)"
    using place_value_correct [OF al, of n V D Size Alignment c' Rs s' O' Natural Forbid Last] can c' pad(7) by blast
  let ?V = "V\<lparr>UsedStackOffset := off + SizeOnStack v, CurrentStackAlignment := a, LastAddedStackPadding := PostPaddingSize v\<rparr>"
  have d: "distribute al D V Size Alignment Natural Rs Occ Limit Forbid = Some ((Padding @ [v], Next), ?V)"
    by (simp add: distribute_def Let_def Last_def [symmetric] c(1) pad(1) v(1))
  have vn: "verify_next_register D Rs Limit Occ c'" "verify_next_register D Rs Limit Occ O'"
    using verify_next_within [of Occ _ Limit D Rs] pad(4-6) Last(3) ol by simp_all
  from v(2) have Next: "verify_next_register D Rs Limit Occ Next" "unat O' \<le> unat Next" "unat Next \<le> length Rs"
    using vn pad(5) c' ulen by (auto simp: placed_def verify_next_register_def split: if_splits)
  have "concat (map DV_Registers (Padding @ [v])) = slice Rs (unat Occ) (unat c') \<and> Next = c'
      \<or> concat (map DV_Registers (Padding @ [v])) = slice Rs (unat Occ) (unat O')"
    using slice_append [OF pad(4,5) c'] pad(2) v(2) by (auto simp: placed_def)
  then have "\<exists>m. concat (map DV_Registers (Padding @ [v])) = slice Rs (unat Occ) m \<and> unat Occ \<le> m \<and> m \<le> unat Next"
  proof
    assume "concat (map DV_Registers (Padding @ [v])) = slice Rs (unat Occ) (unat c') \<and> Next = c'"
    then show ?thesis using pad(4,5) by (intro exI [of _ "unat c'"]) simp
  next
    assume "concat (map DV_Registers (Padding @ [v])) = slice Rs (unat Occ) (unat O')"
    then show ?thesis using Next(2) pad(4) by (intro exI [of _ "unat O'"]) simp
  qed
  then have "distributed D n V Size Rs Occ Limit Padding v Next ?V"
    using v(2) pad(3) Next by (simp add: distributed_def placed_def)
  then show ?thesis using d pad(8) by blast
qed

section \<open>Lists of arguments\<close>

text \<open>
  What the distributor relies on in an ABI, beyond \<^verbatim>\<open>verify\<close>: argument registers are all different, general
  purpose ones have the size of a pointer and vector ones are not smaller, paddings are powers of two.
\<close>

definition abi_ok :: "Definition \<Rightarrow> bool" where
  "abi_ok D \<longleftrightarrow> Definition_verify D = Some True
     \<and> distinct (GeneralPurposeArgumentRegisters D @ VectorArgumentRegisters D)
     \<and> sizes_ok (GeneralPurposeArgumentRegisters D) \<and> pointer_sized D (GeneralPurposeArgumentRegisters D)
     \<and> sizes_ok (VectorArgumentRegisters D)
     \<and> (case ABI_getPointerSize (TheABI D) of None \<Rightarrow> False | Some P \<Rightarrow> small P \<and> unat P dvd unat (UnusedStackArgumentBytes D)
          \<and> (ArgumentsArePositionBased D \<longrightarrow>
               unat (MinimumStackArgumentSize D) dvd unat P \<and> unat (MinimumStackArgumentSize D) dvd unat (UnusedStackArgumentBytes D)
               \<and> list_all (\<lambda>R. unat P \<le> the (Register_getSize R)) (VectorArgumentRegisters D)))
     \<and> small (MinimumStackArgumentSize D) \<and> unat (UnusedStackArgumentBytes D) \<le> 2 ^ 32
     \<and> unat (MaximumGPRsPerScalarArgument D) \<le> 2 ^ 16 \<and> unat (MaximumGPRsPerAggregateArgument D) \<le> 2 ^ 16"

definition traits_ok :: "TypeTraits \<Rightarrow> bool" where
  "traits_ok T \<longleftrightarrow> type_size T \<noteq> 0 \<and> unat (type_size T) \<le> 2 ^ 32 \<and> small (type_alignment T)"

text \<open>The state between two arguments, and the registers that are left.\<close>

definition distributor_ok :: "Definition \<Rightarrow> nat \<Rightarrow> ValueDistributor \<Rightarrow> bool" where
  "distributor_ok D n V \<longleftrightarrow> stack_ok n V
     \<and> unat (UsedGeneralPurposeRegisterCount V) \<le> length (GeneralPurposeArgumentRegisters D)
     \<and> unat (UsedVectorRegisterCount V) \<le> length (VectorArgumentRegisters D) \<and> unat (ArgumentIndex V) \<le> n + 1
     \<and> (ArgumentsArePositionBased D \<longrightarrow>
          unat (MinimumStackArgumentSize D) dvd unat (UsedStackOffset V) \<and> LastAddedStackPadding V = 0)"

definition free_registers :: "Definition \<Rightarrow> ValueDistributor \<Rightarrow> Register set" where
  "free_registers D V = set (drop (unat (UsedGeneralPurposeRegisterCount V)) (GeneralPurposeArgumentRegisters D))
     \<union> set (drop (unat (UsedVectorRegisterCount V)) (VectorArgumentRegisters D))"

text \<open>
  The step of one argument: it takes registers that were free and the stack beyond its end, and nothing that is
  free afterwards. All values but the last are padding.
\<close>

definition argument_step :: "Definition \<Rightarrow> ValueDistributor \<Rightarrow> DistributedValue list \<Rightarrow> ValueDistributor \<Rightarrow> bool" where
  "argument_step D V vs V' \<longleftrightarrow> distinct (concat (map DV_Registers vs)) \<and> set (concat (map DV_Registers vs)) \<subseteq> free_registers D V
     \<and> free_registers D V' \<subseteq> free_registers D V \<and> set (concat (map DV_Registers vs)) \<inter> free_registers D V' = {}
     \<and> vs \<noteq> [] \<and> (\<forall>u\<in>set (butlast vs). SizeOnStack u = 0) \<and> stack_step D V (last vs) V'"

text \<open>A value is held by what it is given: the argument itself, or a pointer to it; the size of an argument in a single vector register is not recorded.\<close>

definition holds_argument :: "Definition \<Rightarrow> TypeTraits \<Rightarrow> DistributedValue \<Rightarrow> bool" where
  "holds_argument D T v \<longleftrightarrow>
     (if UsesPointerToCopy v then Some (DV_Size v) = ABI_getPointerSize (TheABI D)
      else DV_Size v = type_size T \<or> DV_Size v = 0 \<and> isFloatPrimitive T \<and> (\<exists>R\<in>set (VectorArgumentRegisters D). DV_Registers v = [R]))
     \<and> unat (DV_Size v) \<le> size_of (DV_Registers v) + unat (SizeOnStack v)"

lemma take_slice:
  assumes "distinct (G @ W)" "i \<le> m" "m \<le> j" "j \<le> length G"
  shows "distinct (slice G i m)" "set (slice G i m) \<subseteq> set (drop i G)" "set (drop j G) \<subseteq> set (drop i G)"
    "set (slice G i m) \<inter> set (drop j G) = {}" "set (slice G i m) \<inter> set W = {}"
proof -
  have d: "distinct G" "set G \<inter> set W = {}" using assms(1) by simp_all
  show "distinct (slice G i m)" "set (slice G i m) \<subseteq> set (drop i G)" using slice_props(1) [OF d(1)] slice_props(2) by simp_all
  show "set (drop j G) \<subseteq> set (drop i G)" using set_drop_subset_set_drop assms(2,3) by (metis le_trans)
  show "set (slice G i m) \<inter> set (drop j G) = {}"
    using slice_props(3) [OF d(1) assms(2)] set_drop_subset_set_drop [of m j G] assms(3) by blast
  show "set (slice G i m) \<inter> set W = {}" using slice_props(2) [of G i m] set_drop_subset [of i G] d(2) by blast
qed

lemma argument_stepI:
  assumes ok: "abi_ok D" and regs: "vs \<noteq> []" "\<forall>u\<in>set (butlast vs). SizeOnStack u = 0" "stack_step D V (last vs) V'"
    and G: "concat (map DV_Registers vs) = slice (GeneralPurposeArgumentRegisters D) i m \<and> unat (UsedGeneralPurposeRegisterCount V) \<le> i
        \<and> i \<le> m \<and> m \<le> unat (UsedGeneralPurposeRegisterCount V') \<and> unat (UsedGeneralPurposeRegisterCount V') \<le> length (GeneralPurposeArgumentRegisters D)
        \<and> UsedVectorRegisterCount V' = UsedVectorRegisterCount V
      \<or> concat (map DV_Registers vs) = slice (VectorArgumentRegisters D) i m \<and> unat (UsedVectorRegisterCount V) \<le> i
        \<and> i \<le> m \<and> m \<le> unat (UsedVectorRegisterCount V') \<and> unat (UsedVectorRegisterCount V') \<le> length (VectorArgumentRegisters D)
        \<and> UsedGeneralPurposeRegisterCount V' = UsedGeneralPurposeRegisterCount V"
  shows "argument_step D V vs V'"
proof -
  have d: "distinct (GeneralPurposeArgumentRegisters D @ VectorArgumentRegisters D)" "distinct (VectorArgumentRegisters D @ GeneralPurposeArgumentRegisters D)"
    using ok by (auto simp: abi_ok_def)
  have sub: "set (drop i xs) \<subseteq> set (drop u xs)" if "u \<le> i" for u and xs :: "Register list" using that by (rule set_drop_subset_set_drop)
  have dr: "set (drop u xs) \<subseteq> set xs" for u and xs :: "Register list" by (rule set_drop_subset)
  from G show ?thesis
  proof
    assume g: "concat (map DV_Registers vs) = slice (GeneralPurposeArgumentRegisters D) i m \<and> unat (UsedGeneralPurposeRegisterCount V) \<le> i
        \<and> i \<le> m \<and> m \<le> unat (UsedGeneralPurposeRegisterCount V') \<and> unat (UsedGeneralPurposeRegisterCount V') \<le> length (GeneralPurposeArgumentRegisters D)
        \<and> UsedVectorRegisterCount V' = UsedVectorRegisterCount V"
    then show ?thesis
      using take_slice [OF d(1), of i m "unat (UsedGeneralPurposeRegisterCount V')"] regs sub [of "unat (UsedGeneralPurposeRegisterCount V)" "GeneralPurposeArgumentRegisters D"]
        dr [of "unat (UsedVectorRegisterCount V)" "VectorArgumentRegisters D"]
      unfolding argument_step_def free_registers_def by auto
  next
    assume g: "concat (map DV_Registers vs) = slice (VectorArgumentRegisters D) i m \<and> unat (UsedVectorRegisterCount V) \<le> i
        \<and> i \<le> m \<and> m \<le> unat (UsedVectorRegisterCount V') \<and> unat (UsedVectorRegisterCount V') \<le> length (VectorArgumentRegisters D)
        \<and> UsedGeneralPurposeRegisterCount V' = UsedGeneralPurposeRegisterCount V"
    then show ?thesis
      using take_slice [OF d(2), of i m "unat (UsedVectorRegisterCount V')"] regs sub [of "unat (UsedVectorRegisterCount V)" "VectorArgumentRegisters D"]
        dr [of "unat (UsedGeneralPurposeRegisterCount V)" "GeneralPurposeArgumentRegisters D"]
      unfolding argument_step_def free_registers_def by auto
  qed
qed

text \<open>A value \<^verbatim>\<open>distribute\<close> placed is a step.\<close>

lemma nonPositionBased_correct:
  assumes al: "power_of_2_alignment al" and ok: "abi_ok D" "\<not> ArgumentsArePositionBased D" and V: "distributor_ok D n V" "n \<le> 2 ^ 24" and T: "traits_ok T"
  shows "\<exists>vs V'. nonPositionBased al D V (isScalar T) (isFloatPrimitive T) (type_size T) (type_alignment T) (naturally_aligned T) = Some (vs, V')
    \<and> distributor_ok D (Suc n) V' \<and> argument_step D V vs V' \<and> holds_argument D T (last vs)"
proof -
  obtain P where P: "ABI_getPointerSize (TheABI D) = Some P" "small P" using ok(1) by (auto simp: abi_ok_def split: option.splits)
  have P0: "P \<noteq> 0" "unat P \<le> 2 ^ 32" using P(2) by (auto simp: small_def isPowerOf2_def)
  have abi: "small (MinimumStackArgumentSize D)" "sizes_ok (GeneralPurposeArgumentRegisters D)" "sizes_ok (VectorArgumentRegisters D)"
    "pointer_sized D (GeneralPurposeArgumentRegisters D)" using ok(1) by (simp_all add: abi_ok_def)
  note V' = V(1) [unfolded distributor_ok_def]
  let ?W = "VectorArgumentRegisters D" and ?G = "GeneralPurposeArgumentRegisters D"
  have ulen: "unat (word_of_nat (length ?W) :: u64) = length ?W" using abi(3) by (intro unat_u64) (simp add: sizes_ok_def)
  define vec where "vec \<longleftrightarrow> isFloatPrimitive T \<and> \<not> FloatsUseGPRs D"
  consider (register) "vec" "UsedVectorRegisterCount V < word_of_nat (length ?W)"
    | (distributed) "\<not> (vec \<and> UsedVectorRegisterCount V < word_of_nat (length ?W))" by blast
  then show ?thesis
  proof cases
    case register
    then have lt: "unat (UsedVectorRegisterCount V) < length ?W" using ulen by (simp add: word_less_nat_alt)
    let ?v = "default_value\<lparr>DV_Registers := [?W ! unat (UsedVectorRegisterCount V)]\<rparr>"
    let ?V = "V\<lparr>UsedVectorRegisterCount := UsedVectorRegisterCount V + 1\<rparr>"
    have r: "nonPositionBased al D V (isScalar T) (isFloatPrimitive T) (type_size T) (type_alignment T) (naturally_aligned T) = Some ([?v], ?V)"
      using register lt by (simp add: nonPositionBased_def vec_def Let_def at_def)
    have Suc: "unat (UsedVectorRegisterCount V + 1) = Suc (unat (UsedVectorRegisterCount V))" using unat_u64_Suc [OF register(2)] .
    have "distributor_ok D (Suc n) ?V" using V' lt Suc ok(2) by (auto simp: distributor_ok_def stack_ok_def)
    moreover have "slice ?W (unat (UsedVectorRegisterCount V)) (Suc (unat (UsedVectorRegisterCount V))) = [?W ! unat (UsedVectorRegisterCount V)]"
      using slice_snoc [of "unat (UsedVectorRegisterCount V)" "unat (UsedVectorRegisterCount V)" ?W] lt by simp
    then have "argument_step D V [?v] ?V"
      by (intro argument_stepI [OF ok(1), where i = "unat (UsedVectorRegisterCount V)" and m = "Suc (unat (UsedVectorRegisterCount V))"])
        (use lt Suc in \<open>simp_all add: stack_step_def default_value_def stack_top_def\<close>)
    moreover have "holds_argument D T ?v" using register(1) lt by (auto simp: holds_argument_def default_value_def vec_def)
    ultimately show ?thesis using r by (intro exI [of _ "[?v]"] exI [of _ ?V]) simp
  next
    case distributed
    define Rs Occ where "Rs = (if vec then ?W else ?G)" and "Occ = (if vec then UsedVectorRegisterCount V else UsedGeneralPurposeRegisterCount V)"
    define Limit where "Limit = (if vec then 0 else if isScalar T then MaximumGPRsPerScalarArgument D else MaximumGPRsPerAggregateArgument D)"
    define ptr where "ptr \<longleftrightarrow> \<not> vec \<and> BigArgumentsUsePointersToCopy D \<and> type_size T > P * Limit"
    define Size Al where "Size = (if ptr then P else type_size T)" and "Al = (if ptr then P else type_alignment T)"
    define Nat where "Nat \<longleftrightarrow> (if TreatAllAggregatesAsPacked D \<and> \<not> isScalar T then False else if ptr then True else naturally_aligned T)"
    have full: "unat (UsedVectorRegisterCount V) = length ?W" if vec using that distributed V' ulen by (simp add: word_less_nat_alt)
    have can: "can_distribute D n V Size Al Rs Occ Limit"
      using V' V(2) abi P P0 T full ok(1) by (auto simp: can_distribute_def Rs_def Occ_def Limit_def Size_def Al_def traits_ok_def abi_ok_def)
    obtain vs v Next V1 where d: "distribute al D V Size Al Nat Rs Occ Limit vec = Some ((vs @ [v], Next), V1)"
        "distributed D n V Size Rs Occ Limit vs v Next V1" "even (unat Occ) \<or> Size \<le> P \<and> Al \<le> P \<longrightarrow> vs = []"
      using distribute_correct [OF al P(1) can] by blast
    let ?v = "if ptr then v\<lparr>UsesPointerToCopy := True\<rparr> else v"
    let ?V1 = "if vec then V1\<lparr>UsedVectorRegisterCount := Next\<rparr> else V1\<lparr>UsedGeneralPurposeRegisterCount := Next\<rparr>"
    let ?V = "?V1\<lparr>ArgumentIndex := ArgumentIndex ?V1 + 1\<rparr>"
    have res: "(if ptr then (case vs @ [v] of [DA] \<Rightarrow> Some [DA\<lparr>UsesPointerToCopy := True\<rparr>] | _ \<Rightarrow> revng_abort) else Some (vs @ [v])) = Some (vs @ [?v])"
      using d(3) by (auto simp: Size_def Al_def)
    have "\<not> (vec \<and> Occ < word_of_nat (length Rs))" using distributed by (auto simp: Rs_def Occ_def)
    then have r: "nonPositionBased al D V (isScalar T) (isFloatPrimitive T) (type_size T) (type_alignment T) (naturally_aligned T) = Some (vs @ [?v], ?V)"
      using P(1) d(1,2) res
      by (simp add: nonPositionBased_def vec_def [symmetric] Let_def Rs_def [symmetric] Occ_def [symmetric] Limit_def [symmetric] ptr_def [symmetric]
          Size_def [symmetric] Al_def [symmetric] Nat_def [symmetric] distributed_def cong: if_cong) blast
    obtain m where m: "concat (map DV_Registers (vs @ [?v])) = slice Rs (unat Occ) m" "unat Occ \<le> m" "m \<le> unat Next"
      using d(2) by (auto simp: distributed_def)
    have idx: "unat (ArgumentIndex V + 1) \<le> Suc n + 1" using V' V(2) by (subst unat_u64_add) simp_all
    have "distributor_ok D (Suc n) ?V" using d(2) V' idx ok(2) by (auto simp: distributed_def distributor_ok_def stack_ok_def Rs_def)
    moreover have "argument_step D V (vs @ [?v]) ?V"
    proof (rule argument_stepI [OF ok(1), where i = "unat Occ" and m = m])
      show "stack_step D V (last (vs @ [?v])) ?V" using d(2) by (auto simp: distributed_def stack_step_def stack_top_def stack_use_def)
    qed (use d(2) m in \<open>auto simp: distributed_def Rs_def Occ_def split: if_splits\<close>)
    moreover have "holds_argument D T ?v" using d(2) P(1) by (auto simp: distributed_def holds_argument_def Size_def)
    ultimately show ?thesis using r by (intro exI [of _ "vs @ [?v]"] exI [of _ ?V]) simp
  qed
qed

lemma padded_multiple:
  assumes m: "small m" and s: "s \<noteq> 0" "unat m dvd unat s"
  shows "paddedSizeOnStack s m = Some s"
proof (cases "s \<le> m")
  case True
  have "0 < unat s" using s(1) unat_eq_0 [of s] by simp
  then have "unat m \<le> unat s" using s(2) by (rule dvd_imp_le [rotated])
  then have "s = m" using True by (simp add: word_le_nat_alt word_unat_eq_iff)
  then show ?thesis using m s(1) by (simp add: paddedSizeOnStack_def small_def)
next
  case False
  obtain k where k: "k \<le> 32" "unat m = 2 ^ k" "m - 1 = mask k" using small_mask [OF m] .
  have "s AND mask k = 0" using s(2) k(2) unat_and_mask [of s k] by (simp add: word_unat_eq_iff mod_eq_0_iff_dvd)
  then have "s + mask k = s OR mask k" by (rule disjunctive_add_eq_or)
  then have "(s + mask k) AND NOT (mask k) = s AND NOT (mask k)" by (simp add: bit.conj_disj_distrib2)
  also have "\<dots> = s"
  proof (rule bit_word_eqI)
    fix i
    have "\<not> bit (s AND mask k) i" using \<open>s AND mask k = 0\<close> by simp
    then show "bit (s AND NOT (mask k)) i \<longleftrightarrow> bit s i" if "i < LENGTH(64)" using that by (auto simp: bit_simps)
  qed
  finally show ?thesis using False m s(1) k(3) by (simp add: paddedSizeOnStack_def small_def)
qed

lemma positionBased_correct:
  assumes ok: "abi_ok D" "ArgumentsArePositionBased D" and V: "distributor_ok D n V" "n \<le> 2 ^ 24" and T: "traits_ok T"
  shows "\<exists>vs V'. positionBased D V (isFloatPrimitive T) (type_size T) = Some (vs, V')
    \<and> distributor_ok D (Suc n) V' \<and> argument_step D V vs V' \<and> holds_argument D T (last vs)"
proof -
  obtain P where P: "ABI_getPointerSize (TheABI D) = Some P" "small P" "unat (MinimumStackArgumentSize D) dvd unat P"
      "list_all (\<lambda>R. unat P \<le> the (Register_getSize R)) (VectorArgumentRegisters D)"
    using ok by (auto simp: abi_ok_def split: option.splits)
  have Pb: "0 < unat P" "unat P \<le> 2 ^ 32" using P(2) by (auto simp: small_def isPowerOf2_def)
  have P0: "P \<noteq> 0" using Pb(1) by auto
  have abi: "small (MinimumStackArgumentSize D)" "sizes_ok (GeneralPurposeArgumentRegisters D)" "sizes_ok (VectorArgumentRegisters D)"
    "pointer_sized D (GeneralPurposeArgumentRegisters D)" using ok(1) by (simp_all add: abi_ok_def)
  note V' = V(1) [unfolded distributor_ok_def]
  define big where "big \<longleftrightarrow> type_size T > P"
  define vec where "vec \<longleftrightarrow> \<not> FloatsUseGPRs D \<and> \<not> big \<and> isFloatPrimitive T"
  define Rs Used where "Rs = (if vec then VectorArgumentRegisters D else GeneralPurposeArgumentRegisters D)"
    and "Used = (if vec then UsedVectorRegisterCount V else UsedGeneralPurposeRegisterCount V)"
  define idx where "idx = nextPositionBasedIndex V"
  have idx: "Used \<le> idx" "UsedGeneralPurposeRegisterCount V \<le> idx" "UsedVectorRegisterCount V \<le> idx"
    by (simp_all add: Used_def idx_def nextPositionBasedIndex_def le_max_iff_disj)
  let ?v = "default_value\<lparr>DV_Size := if big then P else type_size T, UsesPointerToCopy := big\<rparr>"
  have size: "unat (DV_Size ?v) \<le> unat P" by (auto simp: big_def not_less word_le_nat_alt)
  have ulen: "unat (word_of_nat (length Rs) :: u64) = length Rs" using abi(2,3) by (intro unat_u64) (simp add: sizes_ok_def Rs_def)
  have arg: "unat (ArgumentIndex V + 1) \<le> Suc n + 1" using V' V(2) by (subst unat_u64_add) simp_all
  have pos: "positionBased D V (isFloatPrimitive T) (type_size T) =
     (do { (Result, V) \<leftarrow>
       (if idx < word_of_nat (length Rs)
        then do {
          R \<leftarrow> at Rs (unat idx);
          revng_assert (Used \<le> idx);
          Some (?v\<lparr>DV_Registers := [R]\<rparr>,
            if vec then V\<lparr>UsedVectorRegisterCount := idx + 1\<rparr> else V\<lparr>UsedGeneralPurposeRegisterCount := idx + 1\<rparr>) }
        else do {
          _ \<leftarrow> (if UsedStackOffset V \<noteq> 0
                then do {
                  Padded \<leftarrow> paddedSizeOnStack (UsedStackOffset V) (MinimumStackArgumentSize D);
                  revng_assert (Padded = UsedStackOffset V) }
                else Some ());
          Some (?v\<lparr>OffsetOnStack := UsedStackOffset V, SizeOnStack := P\<rparr>, V\<lparr>UsedStackOffset := UsedStackOffset V + P\<rparr>) });
     Some ([Result], V\<lparr>ArgumentIndex := ArgumentIndex V + 1\<rparr>) })"
    unfolding positionBased_def P(1) Let_def idx_def [symmetric]
    by (simp add: vec_def big_def Rs_def Used_def Let_def cong: if_cong)
  show ?thesis
  proof (cases "idx < word_of_nat (length Rs)")
    case True
    then have lt: "unat idx < length Rs" using ulen by (simp add: word_less_nat_alt)
    have Suc: "unat (idx + 1) = Suc (unat idx)" using unat_u64_Suc [OF True] .
    let ?w = "?v\<lparr>DV_Registers := [Rs ! unat idx]\<rparr>"
    let ?V0 = "if vec then V\<lparr>UsedVectorRegisterCount := idx + 1\<rparr> else V\<lparr>UsedGeneralPurposeRegisterCount := idx + 1\<rparr>"
    let ?V = "?V0\<lparr>ArgumentIndex := ArgumentIndex ?V0 + 1\<rparr>"
    have r: "positionBased D V (isFloatPrimitive T) (type_size T) = Some ([?w], ?V)"
      unfolding pos using True lt idx(1) by (simp add: at_def)
    have "distributor_ok D (Suc n) ?V" using V' arg lt Suc by (auto simp: distributor_ok_def stack_ok_def Rs_def)
    moreover have "slice Rs (unat idx) (Suc (unat idx)) = [Rs ! unat idx]" using slice_snoc [of "unat idx" "unat idx" Rs] lt by simp
    then have "argument_step D V [?w] ?V"
      by (intro argument_stepI [OF ok(1), where i = "unat idx" and m = "Suc (unat idx)"])
        (use lt Suc idx in \<open>auto simp: Rs_def Used_def word_le_nat_alt stack_step_def stack_top_def default_value_def\<close>)
    moreover have "unat P \<le> the (Register_getSize (Rs ! unat idx))"
    proof (cases vec)
      case True
      then show ?thesis using P(4) lt by (simp add: Rs_def list_all_length)
    next
      case False
      have "sizes_ok Rs" using abi(2,3) by (simp add: Rs_def)
      then obtain k where k: "Register_getSize (Rs ! unat idx) = Some k" "k \<le> 64" using sizes_ok_nth lt by blast
      then have "P = word_of_nat k" using abi(4) lt False P(1) by (auto simp: pointer_sized_def list_all_length Rs_def)
      then show ?thesis using k unat_u64 [of k] by simp
    qed
    then have "holds_argument D T ?w" using size P(1) by (simp add: holds_argument_def default_value_def)
    ultimately show ?thesis using r by (intro exI [of _ "[?w]"] exI [of _ ?V]) simp
  next
    case False
    let ?w = "?v\<lparr>OffsetOnStack := UsedStackOffset V, SizeOnStack := P\<rparr>"
    let ?V0 = "V\<lparr>UsedStackOffset := UsedStackOffset V + P\<rparr>"
    let ?V = "?V0\<lparr>ArgumentIndex := ArgumentIndex ?V0 + 1\<rparr>"
    have "paddedSizeOnStack (UsedStackOffset V) (MinimumStackArgumentSize D) = Some (UsedStackOffset V)" if "UsedStackOffset V \<noteq> 0"
      using padded_multiple [OF abi(1) that] V' ok(2) by blast
    then have r: "positionBased D V (isFloatPrimitive T) (type_size T) = Some ([?w], ?V)"
      unfolding pos using False by simp
    have "(n + 1) * 2 ^ 34 \<le> (2 ^ 24 + 1) * 2 ^ (34 :: nat)" using V(2) by (intro mult_right_mono) simp_all
    then have add: "unat (UsedStackOffset V + P) = unat (UsedStackOffset V) + unat P"
      using V' Pb(2) by (intro unat_u64_add) (simp add: stack_ok_def)
    have "distributor_ok D (Suc n) ?V" using V' arg add Pb(2) P(3) ok(2) by (simp add: distributor_ok_def stack_ok_def word_le_nat_alt)
    moreover have "argument_step D V [?w] ?V"
      by (intro argument_stepI [OF ok(1), where i = "unat (UsedGeneralPurposeRegisterCount V)" and m = "unat (UsedGeneralPurposeRegisterCount V)"])
        (use add V' ok(2) in \<open>auto simp: stack_step_def stack_top_def stack_use_def default_value_def\<close>)
    moreover have "holds_argument D T ?w" using size P(1) by (simp add: holds_argument_def default_value_def)
    ultimately show ?thesis using r by (intro exI [of _ "[?w]"] exI [of _ ?V]) simp
  qed
qed

lemma nextArgument_correct:
  assumes al: "power_of_2_alignment al" and "abi_ok D" "distributor_ok D n V" "n \<le> 2 ^ 24" "traits_ok T"
  shows "\<exists>vs V'. nextArgument al D V T = Some (vs, V') \<and> distributor_ok D (Suc n) V' \<and> argument_step D V vs V' \<and> holds_argument D T (last vs)"
  using assms positionBased_correct nonPositionBased_correct by (simp add: nextArgument_def)

text \<open>All arguments of a function: the values on the stack, in order, and that one ends before the other starts.\<close>

definition stack_values :: "DistributedValue list list \<Rightarrow> DistributedValue list" where
  "stack_values vss = filter (\<lambda>v. SizeOnStack v \<noteq> 0) (concat vss)"

definition stack_before :: "Definition \<Rightarrow> DistributedValue \<Rightarrow> DistributedValue \<Rightarrow> bool" where
  "stack_before D u v \<longleftrightarrow> unat (OffsetOnStack u) + stack_use D u \<le> unat (OffsetOnStack v)"

definition all_registers :: "DistributedValue list list \<Rightarrow> Register list" where
  "all_registers vss = concat (map DV_Registers (concat vss))"

lemma stack_values_step:
  assumes "argument_step D V vs V'"
  shows "stack_values (vs # vss) = (if SizeOnStack (last vs) \<noteq> 0 then [last vs] else []) @ stack_values vss"
proof -
  have "vs = butlast vs @ [last vs]" using assms by (simp add: argument_step_def)
  moreover have "filter (\<lambda>v. SizeOnStack v \<noteq> 0) (butlast vs) = []" using assms by (simp add: argument_step_def filter_empty_conv)
  ultimately have "filter (\<lambda>v. SizeOnStack v \<noteq> 0) vs = (if SizeOnStack (last vs) \<noteq> 0 then [last vs] else [])"
    using filter_append [of "\<lambda>v. SizeOnStack v \<noteq> 0" "butlast vs" "[last vs]"] by simp
  then show ?thesis by (simp add: stack_values_def)
qed

lemma distribute_arguments_correct:
  assumes "power_of_2_alignment al" "abi_ok D" "list_all traits_ok Ts" "distributor_ok D n V" "n + length Ts \<le> 2 ^ 24"
  shows "\<exists>vss W. distribute_arguments al D V Ts = Some (vss, W) \<and> list_all2 (\<lambda>T vs. vs \<noteq> [] \<and> holds_argument D T (last vs)) Ts vss
    \<and> distinct (all_registers vss) \<and> set (all_registers vss) \<subseteq> free_registers D V
    \<and> sorted_wrt (stack_before D) (stack_values vss) \<and> (\<forall>v\<in>set (stack_values vss). stack_top D V \<le> unat (OffsetOnStack v))"
  using assms
proof (induction Ts arbitrary: n V)
  case Nil
  then show ?case by (simp add: all_registers_def stack_values_def)
next
  case (Cons T Ts)
  have n: "n \<le> 2 ^ 24" "Suc n + length Ts \<le> 2 ^ 24" "traits_ok T" "list_all traits_ok Ts" using Cons.prems(3,5) by simp_all
  obtain vs V' where s: "nextArgument al D V T = Some (vs, V')" "distributor_ok D (Suc n) V'" "argument_step D V vs V'" "holds_argument D T (last vs)"
    using nextArgument_correct [OF Cons.prems(1,2,4) n(1,3)] by blast
  obtain vss W where r: "distribute_arguments al D V' Ts = Some (vss, W)" "list_all2 (\<lambda>T vs. vs \<noteq> [] \<and> holds_argument D T (last vs)) Ts vss"
      "distinct (all_registers vss)" "set (all_registers vss) \<subseteq> free_registers D V'" "sorted_wrt (stack_before D) (stack_values vss)"
      "\<forall>v\<in>set (stack_values vss). stack_top D V' \<le> unat (OffsetOnStack v)"
    using Cons.IH [OF Cons.prems(1,2) n(4) s(2) n(2)] by blast
  note step = s(3) [unfolded argument_step_def]
  have st: "stack_step D V (last vs) V'" using step by blast
  have "distribute_arguments al D V (T # Ts) = Some (vs # vss, W)" using s(1) r(1) by simp
  moreover have "list_all2 (\<lambda>T vs. vs \<noteq> [] \<and> holds_argument D T (last vs)) (T # Ts) (vs # vss)" using r(2) s(4) step by simp
  moreover have all: "all_registers (vs # vss) = concat (map DV_Registers vs) @ all_registers vss" by (simp add: all_registers_def)
  have "distinct (all_registers (vs # vss))" unfolding all distinct_append using step r(3,4) by blast
  moreover have "set (all_registers (vs # vss)) \<subseteq> free_registers D V" unfolding all set_append using step r(4) by blast
  moreover have "sorted_wrt (stack_before D) (stack_values (vs # vss))"
    using st r(5,6) by (auto simp: stack_values_step [OF s(3)] stack_step_def stack_before_def)
  moreover have "\<forall>v\<in>set (stack_values (vs # vss)). stack_top D V \<le> unat (OffsetOnStack v)"
    using st r(6) by (auto simp: stack_values_step [OF s(3)] stack_step_def)
  ultimately show ?case by blast
qed

text \<open>The distributor before the first argument, with the hidden pointer to the return value if there is one.\<close>

definition start_arguments :: "Definition \<Rightarrow> bool \<Rightarrow> ValueDistributor checked" where
  "start_arguments D Shadow = do {
     V \<leftarrow> distributor_new D;
     if Shadow then addShadowPointerReturnValueLocationArgument D V else Some V }"

lemma distributor_new_ok: "abi_ok D \<Longrightarrow> distributor_new D = Some V \<Longrightarrow> distributor_ok D 0 V"
  by (auto simp: distributor_new_def abi_ok_def distributor_ok_def stack_ok_def split: option.splits)

lemma start_arguments_ok:
  assumes ok: "abi_ok D"
  shows "\<exists>V. start_arguments D Shadow = Some V \<and> distributor_ok D 0 V \<and> stack_top D V = unat (UsedStackOffset V)
    \<and> (Shadow \<and> ReturnValueLocationRegister D \<noteq> Register_Invalid \<and> ReturnValueLocationRegister D \<in> set (take 1 (GeneralPurposeArgumentRegisters D))
        \<longrightarrow> ReturnValueLocationRegister D \<notin> free_registers D V)"
proof -
  obtain P where P: "ABI_getPointerSize (TheABI D) = Some P" "small P" "unat P dvd unat (UnusedStackArgumentBytes D)"
      "ArgumentsArePositionBased D \<longrightarrow> unat (MinimumStackArgumentSize D) dvd unat P"
    using ok by (auto simp: abi_ok_def split: option.splits)
  define V where "V = \<lparr>UsedGeneralPurposeRegisterCount = 0, UsedVectorRegisterCount = 0,
    UsedStackOffset = UnusedStackArgumentBytes D, CurrentStackAlignment = 0, LastAddedStackPadding = 0, ArgumentIndex = 0\<rparr>"
  have new: "distributor_new D = Some V" using ok by (simp add: distributor_new_def abi_ok_def V_def)
  have V: "distributor_ok D 0 V" using distributor_new_ok [OF ok new] .
  have mod: "UnusedStackArgumentBytes D mod P = 0" using P(3) by (simp add: word_unat_eq_iff unat_mod)
  have add: "unat (UnusedStackArgumentBytes D + P) = unat (UnusedStackArgumentBytes D) + unat P"
    using ok P(2) by (intro unat_u64_add) (simp add: abi_ok_def small_def)
  show ?thesis
  proof (cases Shadow)
    case False
    then show ?thesis using new V by (simp add: start_arguments_def) (simp add: stack_top_def V_def)
  next
    case True
    let ?R = "ReturnValueLocationRegister D" and ?G = "GeneralPurposeArgumentRegisters D"
    define U where "U = (if ?R \<noteq> Register_Invalid
        then (if ?G \<noteq> [] \<and> ?R = hd ?G then V\<lparr>ArgumentIndex := 1, UsedGeneralPurposeRegisterCount := 1\<rparr> else V\<lparr>ArgumentIndex := 1\<rparr>)
        else if ReturnValueLocationOnStack D then V\<lparr>ArgumentIndex := 1, UsedStackOffset := UsedStackOffset V + P\<rparr> else V\<lparr>ArgumentIndex := 1\<rparr>)"
    have V': "addShadowPointerReturnValueLocationArgument D V = Some U"
      using mod P(1) by (cases ?G) (simp_all add: addShadowPointerReturnValueLocationArgument_def V_def U_def Let_def)
    have V'_ok: "distributor_ok D 0 U"
      using V add P(2,4) ok by (cases ?G) (simp_all add: V_def U_def distributor_ok_def stack_ok_def abi_ok_def small_def)
    have d: "distinct (GeneralPurposeArgumentRegisters D)" "set (GeneralPurposeArgumentRegisters D) \<inter> set (VectorArgumentRegisters D) = {}"
      using ok by (auto simp: abi_ok_def)
    have "?R \<notin> free_registers D U" if "?R \<noteq> Register_Invalid" "?R \<in> set (take 1 ?G)"
    proof (cases ?G)
      case (Cons R Rs)
      then have "free_registers D U = set Rs \<union> set (VectorArgumentRegisters D)" using that by (simp add: free_registers_def V_def U_def)
      then show ?thesis using d Cons that by auto
    qed (use that in simp)
    moreover have "stack_top D U = unat (UsedStackOffset U)" by (simp add: stack_top_def V_def U_def)
    ultimately show ?thesis using True new V' V'_ok by (intro exI [of _ U]) (simp add: start_arguments_def)
  qed
qed


section \<open>The shipped ABIs\<close>

lemma isPowerOf2_small [simp]: "isPowerOf2 4" "isPowerOf2 8"
  unfolding isPowerOf2_def by (rule exI [of _ 2], simp) (rule exI [of _ 3], simp)

lemmas abi_ok_simps = abi_ok_def sizes_ok_def pointer_sized_def small_def ABI_getPointerSize_def Register_getSize_eq

lemma AAPCS_ok: "abi_ok AAPCS_definition"
  using AAPCS_verifies by (simp add: abi_ok_simps AAPCS_definition_def)

lemma AAPCS64_ok: "abi_ok AAPCS64_definition"
  using AAPCS64_verifies by (simp add: abi_ok_simps AAPCS64_definition_def)

lemma Apple_AAPCS64_ok: "abi_ok Apple_AAPCS64_definition"
  using Apple_AAPCS64_verifies by (simp add: abi_ok_simps Apple_AAPCS64_definition_def)

lemma Microsoft_AAPCS64_ok: "abi_ok Microsoft_AAPCS64_definition"
  using Microsoft_AAPCS64_verifies by (simp add: abi_ok_simps Microsoft_AAPCS64_definition_def)

lemma Microsoft_x86_64_ok: "abi_ok Microsoft_x86_64_definition"
  using Microsoft_x86_64_verifies by (simp add: abi_ok_simps Microsoft_x86_64_definition_def)

lemma Microsoft_x86_64_vectorcall_ok: "abi_ok Microsoft_x86_64_vectorcall_definition"
  using Microsoft_x86_64_vectorcall_verifies by (simp add: abi_ok_simps Microsoft_x86_64_vectorcall_definition_def)

lemma Microsoft_x86_cdecl_ok: "abi_ok Microsoft_x86_cdecl_definition"
  using Microsoft_x86_cdecl_verifies by (simp add: abi_ok_simps Microsoft_x86_cdecl_definition_def)

lemma Microsoft_x86_cdecl_gcc_ok: "abi_ok Microsoft_x86_cdecl_gcc_definition"
  using Microsoft_x86_cdecl_gcc_verifies by (simp add: abi_ok_simps Microsoft_x86_cdecl_gcc_definition_def)

lemma Microsoft_x86_fastcall_ok: "abi_ok Microsoft_x86_fastcall_definition"
  using Microsoft_x86_fastcall_verifies by (simp add: abi_ok_simps Microsoft_x86_fastcall_definition_def)

lemma Microsoft_x86_fastcall_gcc_ok: "abi_ok Microsoft_x86_fastcall_gcc_definition"
  using Microsoft_x86_fastcall_gcc_verifies by (simp add: abi_ok_simps Microsoft_x86_fastcall_gcc_definition_def)

lemma Microsoft_x86_stdcall_ok: "abi_ok Microsoft_x86_stdcall_definition"
  using Microsoft_x86_stdcall_verifies by (simp add: abi_ok_simps Microsoft_x86_stdcall_definition_def)

lemma Microsoft_x86_stdcall_gcc_ok: "abi_ok Microsoft_x86_stdcall_gcc_definition"
  using Microsoft_x86_stdcall_gcc_verifies by (simp add: abi_ok_simps Microsoft_x86_stdcall_gcc_definition_def)

lemma Microsoft_x86_thiscall_ok: "abi_ok Microsoft_x86_thiscall_definition"
  using Microsoft_x86_thiscall_verifies by (simp add: abi_ok_simps Microsoft_x86_thiscall_definition_def)

lemma Microsoft_x86_vectorcall_ok: "abi_ok Microsoft_x86_vectorcall_definition"
  using Microsoft_x86_vectorcall_verifies by (simp add: abi_ok_simps Microsoft_x86_vectorcall_definition_def)

lemma SystemV_MIPSEL_o32_ok: "abi_ok SystemV_MIPSEL_o32_definition"
  using SystemV_MIPSEL_o32_verifies by (simp add: abi_ok_simps SystemV_MIPSEL_o32_definition_def)

lemma SystemV_MIPS_o32_ok: "abi_ok SystemV_MIPS_o32_definition"
  using SystemV_MIPS_o32_verifies by (simp add: abi_ok_simps SystemV_MIPS_o32_definition_def)

lemma SystemV_x86_ok: "abi_ok SystemV_x86_definition"
  using SystemV_x86_verifies by (simp add: abi_ok_simps SystemV_x86_definition_def)

lemma SystemV_x86_64_ok: "abi_ok SystemV_x86_64_definition"
  using SystemV_x86_64_verifies by (simp add: abi_ok_simps SystemV_x86_64_definition_def)

lemma SystemV_x86_regparm_1_ok: "abi_ok SystemV_x86_regparm_1_definition"
  using SystemV_x86_regparm_1_verifies by (simp add: abi_ok_simps SystemV_x86_regparm_1_definition_def)

lemma SystemV_x86_regparm_2_ok: "abi_ok SystemV_x86_regparm_2_definition"
  using SystemV_x86_regparm_2_verifies by (simp add: abi_ok_simps SystemV_x86_regparm_2_definition_def)

lemma SystemV_x86_regparm_3_ok: "abi_ok SystemV_x86_regparm_3_definition"
  using SystemV_x86_regparm_3_verifies by (simp add: abi_ok_simps SystemV_x86_regparm_3_definition_def)

lemma SystemZ_s390x_ok: "abi_ok SystemZ_s390x_definition"
  using SystemZ_s390x_verifies by (simp add: abi_ok_simps SystemZ_s390x_definition_def)

lemmas definitions_ok = AAPCS_ok AAPCS64_ok Apple_AAPCS64_ok Microsoft_AAPCS64_ok Microsoft_x86_64_ok Microsoft_x86_64_vectorcall_ok Microsoft_x86_cdecl_ok Microsoft_x86_cdecl_gcc_ok Microsoft_x86_fastcall_ok Microsoft_x86_fastcall_gcc_ok Microsoft_x86_stdcall_ok Microsoft_x86_stdcall_gcc_ok Microsoft_x86_thiscall_ok Microsoft_x86_vectorcall_ok SystemV_MIPSEL_o32_ok SystemV_MIPS_o32_ok SystemV_x86_ok SystemV_x86_64_ok SystemV_x86_regparm_1_ok SystemV_x86_regparm_2_ok SystemV_x86_regparm_3_ok SystemZ_s390x_ok

lemma definitions_abi:
  "TheABI AAPCS_definition = AAPCS"
  "TheABI AAPCS64_definition = AAPCS64"
  "TheABI Apple_AAPCS64_definition = Apple_AAPCS64"
  "TheABI Microsoft_AAPCS64_definition = Microsoft_AAPCS64"
  "TheABI Microsoft_x86_64_definition = Microsoft_x86_64"
  "TheABI Microsoft_x86_64_vectorcall_definition = Microsoft_x86_64_vectorcall"
  "TheABI Microsoft_x86_cdecl_definition = Microsoft_x86_cdecl"
  "TheABI Microsoft_x86_cdecl_gcc_definition = Microsoft_x86_cdecl_gcc"
  "TheABI Microsoft_x86_fastcall_definition = Microsoft_x86_fastcall"
  "TheABI Microsoft_x86_fastcall_gcc_definition = Microsoft_x86_fastcall_gcc"
  "TheABI Microsoft_x86_stdcall_definition = Microsoft_x86_stdcall"
  "TheABI Microsoft_x86_stdcall_gcc_definition = Microsoft_x86_stdcall_gcc"
  "TheABI Microsoft_x86_thiscall_definition = Microsoft_x86_thiscall"
  "TheABI Microsoft_x86_vectorcall_definition = Microsoft_x86_vectorcall"
  "TheABI SystemV_MIPSEL_o32_definition = SystemV_MIPSEL_o32"
  "TheABI SystemV_MIPS_o32_definition = SystemV_MIPS_o32"
  "TheABI SystemV_x86_definition = SystemV_x86"
  "TheABI SystemV_x86_64_definition = SystemV_x86_64"
  "TheABI SystemV_x86_regparm_1_definition = SystemV_x86_regparm_1"
  "TheABI SystemV_x86_regparm_2_definition = SystemV_x86_regparm_2"
  "TheABI SystemV_x86_regparm_3_definition = SystemV_x86_regparm_3"
  "TheABI SystemZ_s390x_definition = SystemZ_s390x"
  by (simp_all add: AAPCS_definition_def AAPCS64_definition_def Apple_AAPCS64_definition_def Microsoft_AAPCS64_definition_def Microsoft_x86_64_definition_def Microsoft_x86_64_vectorcall_definition_def Microsoft_x86_cdecl_definition_def Microsoft_x86_cdecl_gcc_definition_def Microsoft_x86_fastcall_definition_def Microsoft_x86_fastcall_gcc_definition_def Microsoft_x86_stdcall_definition_def Microsoft_x86_stdcall_gcc_definition_def Microsoft_x86_thiscall_definition_def Microsoft_x86_vectorcall_definition_def SystemV_MIPSEL_o32_definition_def SystemV_MIPS_o32_definition_def SystemV_x86_definition_def SystemV_x86_64_definition_def SystemV_x86_regparm_1_definition_def SystemV_x86_regparm_2_definition_def SystemV_x86_regparm_3_definition_def SystemZ_s390x_definition_def)

text \<open>A cache holds definitions of the files only.\<close>

definition cache_ok :: "(ABI \<rightharpoonup> Definition) \<Rightarrow> bool" where
  "cache_ok C \<longleftrightarrow> (\<forall>A D. C A = Some D \<longrightarrow> shipped_definition A = Some D)"

lemma shipped_ok: "A \<noteq> ABI_Invalid \<Longrightarrow> A \<noteq> ABI_Count \<Longrightarrow> \<exists>D. shipped_definition A = Some D \<and> TheABI D = A \<and> abi_ok D"
  by (cases A) (simp_all add: definitions_ok definitions_abi)

text \<open>
  \<^bold>\<open>C13\<close>. Every valid ABI has a definition: loading it never aborts, it is the definition of that ABI, passes
  verification and satisfies all that the distributor relies on, and the cache stays true to the files.
\<close>

theorem abi_definitions_valid:
  assumes "A \<noteq> ABI_Invalid" "A \<noteq> ABI_Count" "cache_ok C"
  shows "\<exists>D. Definition_get C A = Some (D, C(A \<mapsto> D)) \<and> TheABI D = A \<and> Definition_verify D = Some True \<and> abi_ok D \<and> cache_ok (C(A \<mapsto> D))"
proof -
  obtain D where D: "shipped_definition A = Some D" "TheABI D = A" "abi_ok D" using shipped_ok [OF assms(1,2)] by blast
  have v: "Definition_verify D = Some True" using D(3) by (simp add: abi_ok_def)
  have "Definition_get C A = Some (D, C(A \<mapsto> D))"
  proof (cases "C A")
    case None
    then show ?thesis using assms(1) D(1) v by (simp add: Definition_get_def)
  next
    case (Some E)
    then have "E = D" using assms(3) D(1) by (simp add: cache_ok_def)
    then show ?thesis using Some assms(1) by (simp add: Definition_get_def fun_upd_idem)
  qed
  then show ?thesis using D v assms(3) by (simp add: cache_ok_def)
qed

theorem abi_definitions_valid_witness:
  "\<exists>D. Definition_get Map.empty AAPCS = Some (D, [AAPCS \<mapsto> D]) \<and> TheABI D = AAPCS \<and> Definition_verify D = Some True"
  using abi_definitions_valid [of AAPCS Map.empty] by (simp add: cache_ok_def) blast

section \<open>Examples\<close>

definition int_type :: TypeTraits where
  "int_type = \<lparr>isScalar = True, isFloatPrimitive = False, type_size = 4, type_alignment = 4, naturally_aligned = True\<rparr>"

definition long_long_type :: TypeTraits where
  "long_long_type = \<lparr>isScalar = True, isFloatPrimitive = False, type_size = 8, type_alignment = 8, naturally_aligned = True\<rparr>"


text \<open>
  \<^bold>\<open>Fact\<close>. The AAPCS passes a \<^verbatim>\<open>long long\<close> that follows an \<^verbatim>\<open>int\<close> in \<^verbatim>\<open>r2\<close> and \<^verbatim>\<open>r3\<close> and skips \<^verbatim>\<open>r1\<close>. The distributor gives it
  those registers and, in addition, four bytes of the stack: after the padding it counts one register less than it goes on
  to use. The next argument is then on the stack after bytes that no argument is in.
\<close>

theorem double_argument_takes_stack:
  "do { V \<leftarrow> start_arguments AAPCS_definition False;
        (vss, _) \<leftarrow> distribute_arguments align_up AAPCS_definition V [int_type, long_long_type, int_type];
        Some (map (map (\<lambda>v. (DV_Registers v, RepresentsPadding v, OffsetOnStack v, SizeOnStack v))) vss) }
   = Some [[([r0_arm], False, 0, 0)], [([r1_arm], True, 0, 0), ([r2_arm, r3_arm], False, 0, 4)], [([], False, 8, 4)]]"
  by code_simp

end
