(* ===== verification/Register_Deductions.thy ===== *)
theory Register_Deductions
  imports Abi_Shipped
begin

text \<open>
  The deduction of the argument and return value registers of a function from the ones that were found to be
  used (src/lib/ABI/RegisterStateDeductions.cpp). Shown: the soft deduction returns the least set of registers
  the ABI can use for arguments that contains the given one, and fails exactly when there is none; the strict
  one never fails.
\<close>

section \<open>Deductions\<close>

fun last_used_loop :: "Register list \<Rightarrow> Register set \<Rightarrow> nat \<Rightarrow> nat" where
  "last_used_loop Registers State 0 = 0"
| "last_used_loop Registers State (Suc Index) =
     (if Registers ! Index \<in> State then Suc Index else last_used_loop Registers State Index)"

definition findLastUsedIndex :: "Register list \<Rightarrow> Register set \<Rightarrow> nat" where
  "findLastUsedIndex Registers State = last_used_loop Registers State (length Registers)"

text \<open>
  \<^verbatim>\<open>DeductionImpl\<close>, with \<^verbatim>\<open>EnforceABIConformance\<close> as the parameter \<open>Enforce\<close>; \<open>None\<close> is its \<^verbatim>\<open>false\<close>.
\<close>

definition allowedArgumentRegisters :: "Definition \<Rightarrow> Register list" where
  "allowedArgumentRegisters D = GeneralPurposeArgumentRegisters D @ VectorArgumentRegisters D"

definition allowedReturnValueRegisters :: "Definition \<Rightarrow> Register list" where
  "allowedReturnValueRegisters D = GeneralPurposeReturnValueRegisters D @ VectorReturnValueRegisters D"

definition ensureRegistersAreAllowed :: "bool \<Rightarrow> Register set \<Rightarrow> Register list \<Rightarrow> Register set option" where
  "ensureRegistersAreAllowed Enforce UsedSet AllowedRegisters =
     (if Enforce then Some (UsedSet - (UsedSet - set AllowedRegisters))
      else if \<forall>R\<in>UsedSet. R \<in> set AllowedRegisters then Some UsedSet else None)"

text \<open>The positions only one kind of registers has, from the last one down.\<close>

fun require_unpaired :: "Register list \<Rightarrow> Register set \<Rightarrow> bool \<Rightarrow> Register set \<times> bool" where
  "require_unpaired [] State IsRequired = (State, IsRequired)"
| "require_unpaired (R # Rs) State IsRequired =
     (if R \<in> State then require_unpaired Rs State True
      else if IsRequired then require_unpaired Rs (insert R State) IsRequired
      else require_unpaired Rs State IsRequired)"

definition singlePositionBasedDeduction ::
  "bool \<Rightarrow> Register \<Rightarrow> Register \<Rightarrow> Register set \<Rightarrow> bool \<Rightarrow> (Register set \<times> bool) option" where
  "singlePositionBasedDeduction Enforce GPRegister VRegister State IsRequired =
     (if GPRegister \<in> State
      then if VRegister \<in> State
           then if Enforce then Some (State - {VRegister}, IsRequired) else None
           else Some (State, True)
      else if VRegister \<in> State then Some (State, True)
      else if IsRequired
      then if Enforce then Some (insert GPRegister State, IsRequired) else None
      else Some (State, IsRequired))"

fun position_loop :: "bool \<Rightarrow> (Register \<times> Register) list \<Rightarrow> Register set \<Rightarrow> bool \<Rightarrow> Register set option" where
  "position_loop Enforce [] State IsRequired = Some State"
| "position_loop Enforce ((GPR, VR) # Pairs) State IsRequired = do {
     (State, IsRequired) \<leftarrow> singlePositionBasedDeduction Enforce GPR VR State IsRequired;
     position_loop Enforce Pairs State IsRequired }"

definition deducePositionBasedArguments :: "bool \<Rightarrow> Definition \<Rightarrow> Register set \<Rightarrow> Register set option" where
  "deducePositionBasedArguments Enforce D State =
     (let GPAR = GeneralPurposeArgumentRegisters D;
          VAR = VectorArgumentRegisters D;
          (State, IsRequired) =
            (if length GPAR > length VAR then require_unpaired (rev (drop (length VAR) GPAR)) State False
             else if length VAR > length GPAR then require_unpaired (rev (drop (length GPAR) VAR)) State False
             else (State, False));
          GPAR' = (if length GPAR > length VAR then take (length VAR) GPAR else GPAR);
          VAR' = (if length VAR > length GPAR then take (length GPAR) VAR else VAR)
      in position_loop Enforce (zip (rev GPAR') (rev VAR')) State IsRequired)"

definition fillState :: "Register set \<Rightarrow> Register list \<Rightarrow> Register set" where
  "fillState State RequiredRegisters = fold insert RequiredRegisters State"

definition deduceNonPositionBasedArguments :: "Definition \<Rightarrow> Register set \<Rightarrow> Register set option" where
  "deduceNonPositionBasedArguments D State =
     (let GPs = GeneralPurposeArgumentRegisters D;
          RequiredGPRs = take (findLastUsedIndex GPs State) GPs;
          VRs = VectorArgumentRegisters D;
          RequiredVRs = take (findLastUsedIndex VRs State) VRs
      in Some (fillState State (RequiredGPRs @ RequiredVRs)))"

definition deduceReturnValues :: "bool \<Rightarrow> Definition \<Rightarrow> Register set \<Rightarrow> Register set option" where
  "deduceReturnValues Enforce D State =
     (let GPs = GeneralPurposeReturnValueRegisters D;
          RequiredGPRs = take (findLastUsedIndex GPs State) GPs;
          VRs = VectorReturnValueRegisters D;
          RequiredVRs = take (findLastUsedIndex VRs State) VRs
      in if RequiredGPRs \<noteq> []
         then if RequiredVRs \<noteq> [] then if Enforce then Some State else None
              else Some (fillState State RequiredGPRs)
         else if RequiredVRs \<noteq> [] then Some (fillState State RequiredVRs)
         else Some State)"

definition deduce_arguments :: "bool \<Rightarrow> Definition \<Rightarrow> Register set \<Rightarrow> Register set option" where
  "deduce_arguments Enforce D Arguments = do {
     Arguments \<leftarrow> ensureRegistersAreAllowed Enforce Arguments (allowedArgumentRegisters D);
     if ArgumentsArePositionBased D then deducePositionBasedArguments Enforce D Arguments
     else deduceNonPositionBasedArguments D Arguments }"

definition deduce_returnValues :: "bool \<Rightarrow> Definition \<Rightarrow> Register set \<Rightarrow> Register set option" where
  "deduce_returnValues Enforce D ReturnValues = do {
     ReturnValues \<leftarrow> ensureRegistersAreAllowed Enforce ReturnValues (allowedReturnValueRegisters D);
     deduceReturnValues Enforce D ReturnValues }"

definition tryDeducingArgumentRegisterState :: "Definition \<Rightarrow> Register set \<Rightarrow> Register set option" where
  "tryDeducingArgumentRegisterState D Arguments = deduce_arguments False D Arguments"

definition tryDeducingReturnValueRegisterState :: "Definition \<Rightarrow> Register set \<Rightarrow> Register set option" where
  "tryDeducingReturnValueRegisterState D ReturnValues = deduce_returnValues False D ReturnValues"

definition enforceArgumentRegisterState :: "Definition \<Rightarrow> Register set \<Rightarrow> Register set checked" where
  "enforceArgumentRegisterState D Arguments = do {
     let Result = deduce_arguments True D Arguments;
     revng_assert (Result \<noteq> None);
     Result }"

definition enforceReturnValueRegisterState :: "Definition \<Rightarrow> Register set \<Rightarrow> Register set checked" where
  "enforceReturnValueRegisterState D ReturnValues = do {
     let Result = deduce_returnValues True D ReturnValues;
     revng_assert (Result \<noteq> None);
     Result }"

section \<open>What the sets should be\<close>

text \<open>Registers are used in the order of the ABI, without holes.\<close>

definition without_holes :: "Register list \<Rightarrow> Register set \<Rightarrow> bool" where
  "without_holes Rs T \<longleftrightarrow> (\<forall>j < length Rs. Rs ! j \<in> T \<longrightarrow> set (take j Rs) \<subseteq> T)"

text \<open>A position is used when one of its registers is.\<close>

definition position_used :: "Definition \<Rightarrow> Register set \<Rightarrow> nat \<Rightarrow> bool" where
  "position_used D T i \<longleftrightarrow> i < length (GeneralPurposeArgumentRegisters D) \<and> GeneralPurposeArgumentRegisters D ! i \<in> T
     \<or> i < length (VectorArgumentRegisters D) \<and> VectorArgumentRegisters D ! i \<in> T"

definition consistent_arguments :: "Definition \<Rightarrow> Register set \<Rightarrow> bool" where
  "consistent_arguments D T \<longleftrightarrow>
     (if ArgumentsArePositionBased D
      then (\<forall>i < min (length (GeneralPurposeArgumentRegisters D)) (length (VectorArgumentRegisters D)).
              \<not> (GeneralPurposeArgumentRegisters D ! i \<in> T \<and> VectorArgumentRegisters D ! i \<in> T))
         \<and> (\<forall>j i. position_used D T j \<and> i < j \<longrightarrow> position_used D T i)
      else without_holes (GeneralPurposeArgumentRegisters D) T \<and> without_holes (VectorArgumentRegisters D) T)"

definition consistent_returnValues :: "Definition \<Rightarrow> Register set \<Rightarrow> bool" where
  "consistent_returnValues D T \<longleftrightarrow>
     without_holes (GeneralPurposeReturnValueRegisters D) T \<and> without_holes (VectorReturnValueRegisters D) T
     \<and> (T \<inter> set (GeneralPurposeReturnValueRegisters D) = {} \<or> T \<inter> set (VectorReturnValueRegisters D) = {})"

definition least_extension :: "Register list \<Rightarrow> (Register set \<Rightarrow> bool) \<Rightarrow> Register set \<Rightarrow> Register set \<Rightarrow> bool" where
  "least_extension Allowed Consistent S T \<longleftrightarrow> S \<subseteq> T \<and> T \<subseteq> set Allowed \<and> Consistent T
     \<and> (\<forall>U. S \<subseteq> U \<and> U \<subseteq> set Allowed \<and> Consistent U \<longrightarrow> T \<subseteq> U)"

section \<open>Registers in order\<close>

lemma fillState_eq [simp]: "fillState S Rs = S \<union> set Rs"
  unfolding fillState_def by (induction Rs arbitrary: S) auto

lemma findLastUsedIndex_snoc [simp]:
  "findLastUsedIndex [] S = 0" "findLastUsedIndex (Rs @ [R]) S = (if R \<in> S then Suc (length Rs) else findLastUsedIndex Rs S)"
proof -
  have "last_used_loop (Rs @ [R]) S n = last_used_loop Rs S n" if "n \<le> length Rs" for n
    using that by (induction n) (simp_all add: nth_append)
  then show "findLastUsedIndex [] S = 0" "findLastUsedIndex (Rs @ [R]) S = (if R \<in> S then Suc (length Rs) else findLastUsedIndex Rs S)"
    by (simp_all add: findLastUsedIndex_def)
qed

lemma findLastUsedIndex_spec:
  "findLastUsedIndex Rs S \<le> length Rs" "findLastUsedIndex Rs S = 0 \<or> Rs ! (findLastUsedIndex Rs S - 1) \<in> S"
  "findLastUsedIndex Rs S \<le> i \<Longrightarrow> i < length Rs \<Longrightarrow> Rs ! i \<notin> S"
proof -
  show "findLastUsedIndex Rs S \<le> length Rs" by (induction Rs rule: rev_induct) (simp_all add: le_SucI)
  then show "findLastUsedIndex Rs S = 0 \<or> Rs ! (findLastUsedIndex Rs S - 1) \<in> S"
  proof (induction Rs rule: rev_induct)
    case (snoc R Rs)
    have "findLastUsedIndex Rs S \<le> length Rs" by (induction Rs rule: rev_induct) (simp_all add: le_SucI)
    then show ?case using snoc.IH by (auto simp: nth_append)
  qed simp
  show "findLastUsedIndex Rs S \<le> i \<Longrightarrow> i < length Rs \<Longrightarrow> Rs ! i \<notin> S"
    by (induction Rs arbitrary: i rule: rev_induct) (auto simp: nth_append less_Suc_eq split: if_splits)
qed

lemma findLastUsedIndex_0: "findLastUsedIndex Rs S = 0 \<longleftrightarrow> S \<inter> set Rs = {}"
  by (induction Rs rule: rev_induct) auto

lemma used_prefix_least:
  assumes "S \<subseteq> U" "without_holes Rs U"
  shows "set (take (findLastUsedIndex Rs S) Rs) \<subseteq> U"
proof (cases "findLastUsedIndex Rs S")
  case (Suc k)
  then have k: "k < length Rs" "Rs ! k \<in> S" using findLastUsedIndex_spec(1,2) [of Rs S] by simp_all
  then show ?thesis using assms Suc by (auto simp: without_holes_def take_Suc_conv_app_nth)
qed simp

lemma without_holes_prefix:
  assumes "distinct Rs" "X \<inter> set Rs = {}"
  shows "without_holes Rs (S \<union> set (take (findLastUsedIndex Rs S) Rs) \<union> X)"
  unfolding without_holes_def
proof (intro allI impI)
  let ?k = "findLastUsedIndex Rs S"
  fix j assume j: "j < length Rs" "Rs ! j \<in> S \<union> set (take ?k Rs) \<union> X"
  have "j < ?k"
  proof (rule ccontr)
    assume "\<not> j < ?k"
    then have "Rs ! j \<notin> S" "Rs ! j \<notin> set (take ?k Rs)"
      using findLastUsedIndex_spec(3) [of Rs S j] j(1) assms(1) by (auto simp: in_set_conv_nth nth_eq_iff_index_eq)
    moreover have "Rs ! j \<notin> X" using nth_mem [OF j(1)] assms(2) by blast
    ultimately show False using j(2) by blast
  qed
  then show "set (take j Rs) \<subseteq> S \<union> set (take ?k Rs) \<union> X" using set_take_subset_set_take [of j ?k Rs] by auto
qed

lemma ensure_soft: "ensureRegistersAreAllowed False S Rs = (if S \<subseteq> set Rs then Some S else None)"
  by (auto simp: ensureRegistersAreAllowed_def)

lemma ensure_strict: "ensureRegistersAreAllowed True S Rs = Some (S \<inter> set Rs)"
  by (auto simp: ensureRegistersAreAllowed_def)

lemma least_extensionD: "least_extension A C S T \<Longrightarrow> least_extension A C S U \<Longrightarrow> T \<subseteq> U"
  by (simp add: least_extension_def)

lemma least_extension_unique: "least_extension A C S T \<Longrightarrow> least_extension A C S T' \<Longrightarrow> T = T'"
  by (intro equalityI least_extensionD)

text \<open>A deduction that returns the least extension when it returns one, and otherwise shows there is none, is exact.\<close>

lemma least_extension_exact:
  assumes "\<And>T. R = Some T \<Longrightarrow> least_extension A C S T" "R = None \<Longrightarrow> \<nexists>T. least_extension A C S T"
  shows "R = Some T \<longleftrightarrow> least_extension A C S T"
proof (cases R)
  case None
  then show ?thesis using assms(2) by blast
next
  case (Some T')
  then have "least_extension A C S T'" using assms(1) by simp
  then show ?thesis using Some least_extension_unique [of A C S T' T] by auto
qed

lemma least_extension_allowed: "least_extension A C S T \<Longrightarrow> S \<subseteq> set A"
  by (auto simp: least_extension_def)

section \<open>Positions\<close>

lemma require_unpaired_required: "require_unpaired Rs S True = (S \<union> set Rs, True)"
  by (induction Rs arbitrary: S) auto

lemma require_unpaired_eq:
  "require_unpaired (rev Rs) S False = (S \<union> set (take (findLastUsedIndex Rs S) Rs), S \<inter> set Rs \<noteq> {})"
proof (induction Rs rule: rev_induct)
  case (snoc R Rs)
  then show ?case using findLastUsedIndex_spec(1) [of Rs S] by (auto simp: require_unpaired_required)
qed simp

text \<open>The soft deduction changes nothing where both registers exist: it accepts the set or it does not.\<close>

fun pairs_ok :: "(Register \<times> Register) list \<Rightarrow> Register set \<Rightarrow> bool \<Rightarrow> bool" where
  "pairs_ok [] S Required \<longleftrightarrow> True"
| "pairs_ok ((g, v) # ps) S Required \<longleftrightarrow>
     (if g \<in> S \<or> v \<in> S then \<not> (g \<in> S \<and> v \<in> S) \<and> pairs_ok ps S True else \<not> Required \<and> pairs_ok ps S False)"

lemma position_loop_soft: "position_loop False ps S Required = (if pairs_ok ps S Required then Some S else None)"
  by (induction ps S Required rule: pairs_ok.induct) (auto simp: singlePositionBasedDeduction_def)

lemma pairs_ok_iff:
  "pairs_ok (rev ps) S Required \<longleftrightarrow> (\<forall>i < length ps. \<not> (fst (ps ! i) \<in> S \<and> snd (ps ! i) \<in> S)
     \<and> (fst (ps ! i) \<notin> S \<and> snd (ps ! i) \<notin> S \<longrightarrow> \<not> Required \<and> (\<forall>j < length ps. i < j \<longrightarrow> fst (ps ! j) \<notin> S \<and> snd (ps ! j) \<notin> S)))"
proof (induction ps arbitrary: Required rule: rev_induct)
  case (snoc p ps)
  show ?case
  proof (cases "fst p \<in> S \<or> snd p \<in> S")
    case True
    then show ?thesis by (cases p) (auto simp: snoc All_less_Suc nth_append)
  next
    case False
    then show ?thesis by (cases p) (auto simp: snoc All_less_Suc nth_append)
  qed
qed simp

text \<open>The registers beyond the last pair.\<close>

definition unpaired :: "Definition \<Rightarrow> Register list" where
  "unpaired D = (let G = GeneralPurposeArgumentRegisters D; W = VectorArgumentRegisters D
     in if length G > length W then drop (length W) G else drop (length G) W)"

definition pair_count :: "Definition \<Rightarrow> nat" where
  "pair_count D = min (length (GeneralPurposeArgumentRegisters D)) (length (VectorArgumentRegisters D))"

lemma position_used_iff:
  "position_used D T i \<longleftrightarrow>
     (if i < pair_count D then GeneralPurposeArgumentRegisters D ! i \<in> T \<or> VectorArgumentRegisters D ! i \<in> T
      else i - pair_count D < length (unpaired D) \<and> unpaired D ! (i - pair_count D) \<in> T)"
  by (auto simp: position_used_def pair_count_def unpaired_def Let_def min_def)

lemma deducePositionBasedArguments_soft:
  "deducePositionBasedArguments False D S =
    (let T = S \<union> set (take (findLastUsedIndex (unpaired D) S) (unpaired D));
         ps = zip (take (pair_count D) (GeneralPurposeArgumentRegisters D)) (take (pair_count D) (VectorArgumentRegisters D))
     in if pairs_ok (rev ps) T (S \<inter> set (unpaired D) \<noteq> {}) then Some T else None)"
proof -
  let ?G = "GeneralPurposeArgumentRegisters D" and ?W = "VectorArgumentRegisters D"
  have "zip (rev (if length ?G > length ?W then take (length ?W) ?G else ?G)) (rev (if length ?W > length ?G then take (length ?G) ?W else ?W))
    = rev (zip (take (pair_count D) ?G) (take (pair_count D) ?W))"
    by (subst zip_rev [symmetric]) (auto simp: pair_count_def)
  moreover have "(if length ?G > length ?W then require_unpaired (rev (drop (length ?W) ?G)) S False
      else if length ?W > length ?G then require_unpaired (rev (drop (length ?G) ?W)) S False else (S, False))
    = (S \<union> set (take (findLastUsedIndex (unpaired D) S) (unpaired D)), S \<inter> set (unpaired D) \<noteq> {})"
    by (simp add: unpaired_def Let_def require_unpaired_eq)
  ultimately show ?thesis unfolding deducePositionBasedArguments_def Let_def by (simp only: prod.case position_loop_soft)
qed

lemma pair_registers:
  assumes "distinct (allowedArgumentRegisters D)" "i < pair_count D"
  shows "i < length (GeneralPurposeArgumentRegisters D)" "i < length (VectorArgumentRegisters D)"
    "GeneralPurposeArgumentRegisters D ! i \<notin> set (unpaired D)" "VectorArgumentRegisters D ! i \<notin> set (unpaired D)"
    "k < pair_count D \<Longrightarrow> GeneralPurposeArgumentRegisters D ! i = GeneralPurposeArgumentRegisters D ! k \<longleftrightarrow> i = k"
    "k < pair_count D \<Longrightarrow> VectorArgumentRegisters D ! i = VectorArgumentRegisters D ! k \<longleftrightarrow> i = k"
    "k < pair_count D \<Longrightarrow> GeneralPurposeArgumentRegisters D ! i \<noteq> VectorArgumentRegisters D ! k"
proof -
  let ?G = "GeneralPurposeArgumentRegisters D" and ?W = "VectorArgumentRegisters D"
  have d: "distinct ?G" "distinct ?W" "set ?G \<inter> set ?W = {}" using assms(1) by (simp_all add: allowedArgumentRegisters_def)
  show l: "i < length ?G" "i < length ?W" using assms(2) by (simp_all add: pair_count_def)
  have mem: "?G ! i \<in> set ?G" "?W ! i \<in> set ?W" using l by simp_all
  have drop: "xs ! i \<notin> set (drop l xs)" if "distinct xs" "i < l" "i < length xs" for xs :: "Register list" and l
    using that by (auto simp: in_set_conv_nth nth_eq_iff_index_eq)
  show "?G ! i \<notin> set (unpaired D)" "?W ! i \<notin> set (unpaired D)"
    using drop [OF d(1) l(2,1)] drop [OF d(2) l] set_drop_subset [of "length ?W" ?G] set_drop_subset [of "length ?G" ?W] d(3) mem
    unfolding unpaired_def Let_def by (smt (verit) IntI empty_iff subsetD)+
  show "k < pair_count D \<Longrightarrow> ?G ! i = ?G ! k \<longleftrightarrow> i = k" "k < pair_count D \<Longrightarrow> ?W ! i = ?W ! k \<longleftrightarrow> i = k"
    using l d by (simp_all add: nth_eq_iff_index_eq pair_count_def)
  show "?G ! i \<noteq> ?W ! k" if "k < pair_count D"
  proof -
    have "?W ! k \<in> set ?W" using that by (simp add: pair_count_def)
    then show ?thesis using mem(1) d(3) by auto
  qed
qed

lemma unpaired_allowed: "set (unpaired D) \<subseteq> set (allowedArgumentRegisters D)"
  using set_drop_subset [of _ "GeneralPurposeArgumentRegisters D"] set_drop_subset [of _ "VectorArgumentRegisters D"]
  by (auto simp: unpaired_def Let_def allowedArgumentRegisters_def dest: in_set_dropD)

lemma distinct_unpaired: "distinct (allowedArgumentRegisters D) \<Longrightarrow> distinct (unpaired D)"
  by (simp add: unpaired_def Let_def allowedArgumentRegisters_def)

text \<open>The soft deduction fails when a position has both registers, or has none and a later one is used.\<close>

definition determined :: "Definition \<Rightarrow> Register set \<Rightarrow> bool" where
  "determined D S \<longleftrightarrow> (\<forall>i < pair_count D. \<not> (GeneralPurposeArgumentRegisters D ! i \<in> S \<and> VectorArgumentRegisters D ! i \<in> S)
     \<and> (\<forall>j. position_used D S j \<and> i < j \<longrightarrow> position_used D S i))"

lemma unpaired_used: "S \<inter> set (unpaired D) \<noteq> {} \<longleftrightarrow> (\<exists>j \<ge> pair_count D. position_used D S j)"
proof
  assume "S \<inter> set (unpaired D) \<noteq> {}"
  then obtain k where "k < length (unpaired D)" "unpaired D ! k \<in> S" by (auto simp: in_set_conv_nth)
  then show "\<exists>j \<ge> pair_count D. position_used D S j" by (intro exI [of _ "pair_count D + k"]) (simp add: position_used_iff)
qed (auto simp: position_used_iff)

lemma deducePositionBasedArguments_eq:
  assumes "distinct (allowedArgumentRegisters D)"
  shows "deducePositionBasedArguments False D S =
    (if determined D S then Some (S \<union> set (take (findLastUsedIndex (unpaired D) S) (unpaired D))) else None)"
proof -
  let ?G = "GeneralPurposeArgumentRegisters D" and ?W = "VectorArgumentRegisters D"
  let ?T = "S \<union> set (take (findLastUsedIndex (unpaired D) S) (unpaired D))"
  let ?ps = "zip (take (pair_count D) ?G) (take (pair_count D) ?W)"
  have len: "length ?ps = pair_count D" by (simp add: pair_count_def)
  have nth: "fst (?ps ! i) = ?G ! i" "snd (?ps ! i) = ?W ! i" if "i < pair_count D" for i using that by (simp_all add: pair_count_def)
  have T: "?G ! i \<in> ?T \<longleftrightarrow> ?G ! i \<in> S" "?W ! i \<in> ?T \<longleftrightarrow> ?W ! i \<in> S" if "i < pair_count D" for i
    using pair_registers(3,4) [OF assms that] set_take_subset [of _ "unpaired D"] by blast+
  have used: "position_used D S i \<longleftrightarrow> ?G ! i \<in> S \<or> ?W ! i \<in> S" if "i < pair_count D" for i using that by (simp add: position_used_iff)
  have later: "(\<forall>j. position_used D S j \<longrightarrow> \<not> i < j) \<longleftrightarrow> \<not> (\<exists>j \<ge> pair_count D. position_used D S j)
      \<and> (\<forall>j < pair_count D. i < j \<longrightarrow> ?G ! j \<notin> S \<and> ?W ! j \<notin> S)" if "i < pair_count D" for i
    using that used by (metis less_le_trans not_less)
  have "pairs_ok (rev ?ps) ?T (S \<inter> set (unpaired D) \<noteq> {}) \<longleftrightarrow> (\<forall>i < pair_count D. \<not> (?G ! i \<in> S \<and> ?W ! i \<in> S)
      \<and> (\<not> position_used D S i \<longrightarrow> (\<forall>j. position_used D S j \<longrightarrow> \<not> i < j)))"
    unfolding pairs_ok_iff len unpaired_used using nth T used later by (intro all_cong) auto
  also have "\<dots> \<longleftrightarrow> determined D S" by (auto simp: determined_def)
  finally show ?thesis by (simp add: deducePositionBasedArguments_soft Let_def)
qed

lemma consistent_unpaired:
  assumes "ArgumentsArePositionBased D" "consistent_arguments D U"
  shows "without_holes (unpaired D) U"
  unfolding without_holes_def
proof (intro allI impI subsetI)
  fix j R assume j: "j < length (unpaired D)" "unpaired D ! j \<in> U" and "R \<in> set (take j (unpaired D))"
  then obtain i where i: "i < j" "R = unpaired D ! i" by (auto simp: in_set_conv_nth)
  have "position_used D U (pair_count D + j)" using j by (simp add: position_used_iff)
  moreover have "pair_count D + i < pair_count D + j" using i(1) by simp
  ultimately have "position_used D U (pair_count D + i)"
    using assms unfolding consistent_arguments_def by (simp only: if_True)
  then show "R \<in> U" using i(2) by (simp add: position_used_iff)
qed

lemma determined_consistent:
  assumes "distinct (allowedArgumentRegisters D)" "ArgumentsArePositionBased D" "determined D S"
  shows "consistent_arguments D (S \<union> set (take (findLastUsedIndex (unpaired D) S) (unpaired D)))" (is "consistent_arguments D ?T")
proof -
  let ?G = "GeneralPurposeArgumentRegisters D" and ?W = "VectorArgumentRegisters D"
  have T: "?G ! i \<in> ?T \<longleftrightarrow> ?G ! i \<in> S" "?W ! i \<in> ?T \<longleftrightarrow> ?W ! i \<in> S" if "i < pair_count D" for i
    using pair_registers(3,4) [OF assms(1) that] set_take_subset [of _ "unpaired D"] by blast+
  have holes: "without_holes (unpaired D) ?T" using without_holes_prefix [OF distinct_unpaired [OF assms(1)], of "{}" S] by simp
  have "position_used D ?T i" if j: "position_used D ?T j" and ij: "i < j" for i j
  proof (cases "i < pair_count D")
    case True
    have "\<exists>k > i. position_used D S k"
    proof (cases "j < pair_count D")
      case True
      then show ?thesis using j T ij by (auto simp: position_used_iff)
    next
      case False
      then have "?T \<inter> set (unpaired D) \<noteq> {}" using j unpaired_used [of ?T D] by (auto simp: not_less)
      then have "S \<inter> set (unpaired D) \<noteq> {}" using findLastUsedIndex_0 [of "unpaired D" S] by auto
      then show ?thesis using True unpaired_used [of S D] less_le_trans by blast
    qed
    then have "position_used D S i" using assms(3) True by (auto simp: determined_def)
    then show ?thesis using True by (auto simp: position_used_iff)
  next
    case False
    let ?j = "j - pair_count D" and ?i = "i - pair_count D"
    have j': "?j < length (unpaired D)" "unpaired D ! ?j \<in> ?T" using j ij False by (simp_all add: position_used_iff split: if_splits)
    then have "unpaired D ! ?i \<in> set (take ?j (unpaired D))" using ij False by (auto simp: in_set_conv_nth intro!: exI [of _ ?i])
    then have "unpaired D ! ?i \<in> ?T" using holes j' unfolding without_holes_def by blast
    then show ?thesis using False ij j'(1) by (simp add: position_used_iff)
  qed
  moreover have "\<not> (?G ! i \<in> ?T \<and> ?W ! i \<in> ?T)" if "i < pair_count D" for i using assms(3) that T by (simp add: determined_def)
  ultimately show ?thesis using assms(2) unfolding consistent_arguments_def pair_count_def [symmetric] by (simp only: if_True) blast
qed

text \<open>Where the deduction fails, there are consistent sets that have only one of the candidates of the open position.\<close>

lemma consistent_choice:
  assumes "distinct (allowedArgumentRegisters D)" "ArgumentsArePositionBased D" "S \<subseteq> set (allowedArgumentRegisters D)"
    and both: "\<forall>i < pair_count D. \<not> (GeneralPurposeArgumentRegisters D ! i \<in> S \<and> VectorArgumentRegisters D ! i \<in> S)"
    and i: "i < pair_count D" "\<not> position_used D S i"
  shows "\<exists>U. S \<subseteq> U \<and> U \<subseteq> set (allowedArgumentRegisters D) \<and> consistent_arguments D U
    \<and> (if General then VectorArgumentRegisters D ! i \<notin> U else GeneralPurposeArgumentRegisters D ! i \<notin> U)"
proof -
  let ?G = "GeneralPurposeArgumentRegisters D" and ?W = "VectorArgumentRegisters D"
  let ?U = "S \<union> set (unpaired D) \<union> {?G ! k |k. k < pair_count D \<and> ?W ! k \<notin> S \<and> (k \<noteq> i \<or> General)} \<union> (if General then {} else {?W ! i})"
  note regs = pair_registers [OF assms(1)]
  have ne: "?W ! k \<noteq> ?G ! l" if "k < pair_count D" "l < pair_count D" for k l using regs(7) [OF that(2,1)] by metis
  have G: "?G ! k \<in> ?U \<longleftrightarrow> ?G ! k \<in> S \<or> ?W ! k \<notin> S \<and> (k \<noteq> i \<or> General)" if "k < pair_count D" for k
    using regs(3,5,7) that i(1) by auto
  have W: "?W ! k \<in> ?U \<longleftrightarrow> ?W ! k \<in> S \<or> k = i \<and> \<not> General" if "k < pair_count D" for k
    using regs(4) regs(6) [OF that i(1)] ne that i(1) by auto
  have notin: "?G ! i \<notin> S" "?W ! i \<notin> S" using i by (simp_all add: position_used_iff)
  have "position_used D ?U k" if "k < pair_count D + length (unpaired D)" for k
  proof (cases "k < pair_count D")
    case True
    then show ?thesis using G [OF True] W [OF True] unfolding position_used_iff by (auto simp only: if_True)
  next
    case False
    then show ?thesis using that by (auto simp: position_used_iff)
  qed
  moreover have "k < pair_count D + length (unpaired D)" if "position_used D ?U k" for k
    using that by (auto simp: position_used_iff split: if_splits)
  moreover have "\<not> (?G ! k \<in> ?U \<and> ?W ! k \<in> ?U)" if "k < pair_count D" for k using G [OF that] W [OF that] both that notin by blast
  ultimately have "consistent_arguments D ?U"
    using assms(2) unfolding consistent_arguments_def pair_count_def [symmetric] by (simp only: if_True) (meson less_trans)
  moreover have "?U \<subseteq> set (allowedArgumentRegisters D)"
    using assms(3) unpaired_allowed regs(1,2) i(1) by (auto simp: allowedArgumentRegisters_def)
  moreover have "if General then ?W ! i \<notin> ?U else ?G ! i \<notin> ?U" using G [OF i(1)] W [OF i(1)] notin by argo
  ultimately show ?thesis by (intro exI [of _ ?U]) blast
qed

lemma position_based_exact:
  assumes d: "distinct (allowedArgumentRegisters D)" and pos: "ArgumentsArePositionBased D" and S: "S \<subseteq> set (allowedArgumentRegisters D)"
  shows "deducePositionBasedArguments False D S = Some T \<longleftrightarrow> least_extension (allowedArgumentRegisters D) (consistent_arguments D) S T"
proof (rule least_extension_exact)
  let ?T = "S \<union> set (take (findLastUsedIndex (unpaired D) S) (unpaired D))"
  fix T assume "deducePositionBasedArguments False D S = Some T"
  then have T: "T = ?T" "determined D S" by (auto simp: deducePositionBasedArguments_eq [OF d] split: if_splits)
  have "consistent_arguments D ?T" by (rule determined_consistent [OF d pos T(2)])
  moreover have "?T \<subseteq> set (allowedArgumentRegisters D)"
    using S unpaired_allowed [of D] set_take_subset [of "findLastUsedIndex (unpaired D) S" "unpaired D"] by blast
  moreover have "?T \<subseteq> U" if "S \<subseteq> U" "consistent_arguments D U" for U
    using used_prefix_least [OF that(1) consistent_unpaired [OF pos that(2)]] that(1) by blast
  ultimately show "least_extension (allowedArgumentRegisters D) (consistent_arguments D) S T" unfolding least_extension_def T(1) by blast
next
  assume "deducePositionBasedArguments False D S = None"
  then have nd: "\<not> determined D S" by (auto simp: deducePositionBasedArguments_eq [OF d] split: if_splits)
  show "\<nexists>T. least_extension (allowedArgumentRegisters D) (consistent_arguments D) S T"
  proof
    assume "\<exists>T. least_extension (allowedArgumentRegisters D) (consistent_arguments D) S T"
    then obtain T where T: "S \<subseteq> T" "consistent_arguments D T"
        "\<And>U. S \<subseteq> U \<Longrightarrow> U \<subseteq> set (allowedArgumentRegisters D) \<Longrightarrow> consistent_arguments D U \<Longrightarrow> T \<subseteq> U"
      by (auto simp: least_extension_def)
    note c = T(2) [unfolded consistent_arguments_def pair_count_def [symmetric], simplified pos if_True]
    have both: "\<forall>i < pair_count D. \<not> (GeneralPurposeArgumentRegisters D ! i \<in> S \<and> VectorArgumentRegisters D ! i \<in> S)" using c T(1) by blast
    obtain i j where ij: "i < pair_count D" "position_used D S j" "i < j" "\<not> position_used D S i" using nd both by (auto simp: determined_def)
    have "position_used D T j" using ij(2) T(1) by (auto simp: position_used_def)
    then have "position_used D T i" using c ij(3) by blast
    then have "GeneralPurposeArgumentRegisters D ! i \<in> T \<or> VectorArgumentRegisters D ! i \<in> T" using ij(1) by (simp add: position_used_iff)
    then show False
      using consistent_choice [OF d pos S both ij(1,4), of True] consistent_choice [OF d pos S both ij(1,4), of False] T(3) by auto
  qed
qed

section \<open>The deductions are exact\<close>

lemma non_position_based_exact:
  assumes d: "distinct (allowedArgumentRegisters D)" and pos: "\<not> ArgumentsArePositionBased D" and S: "S \<subseteq> set (allowedArgumentRegisters D)"
  shows "deduceNonPositionBasedArguments D S = Some T \<longleftrightarrow> least_extension (allowedArgumentRegisters D) (consistent_arguments D) S T"
proof (rule least_extension_exact)
  let ?G = "GeneralPurposeArgumentRegisters D" and ?W = "VectorArgumentRegisters D"
  let ?P = "set (take (findLastUsedIndex ?G S) ?G)" and ?Q = "set (take (findLastUsedIndex ?W S) ?W)"
  fix T assume "deduceNonPositionBasedArguments D S = Some T"
  then have T: "T = S \<union> ?P \<union> ?Q" by (auto simp: deduceNonPositionBasedArguments_def Let_def)
  have d: "distinct ?G" "distinct ?W" "set ?G \<inter> set ?W = {}" using d by (simp_all add: allowedArgumentRegisters_def)
  have sub: "?P \<subseteq> set ?G" "?Q \<subseteq> set ?W" by (rule set_take_subset)+
  have "without_holes ?G T" unfolding T using sub d(3) by (intro without_holes_prefix [OF d(1)]) blast
  moreover have "without_holes ?W (S \<union> ?Q \<union> ?P)" using sub d(3) by (intro without_holes_prefix [OF d(2)]) blast
  then have "without_holes ?W T" unfolding T by (simp only: Un_ac)
  moreover have "T \<subseteq> U" if "S \<subseteq> U" "consistent_arguments D U" for U
    using used_prefix_least [OF that(1)] that pos by (auto simp: T consistent_arguments_def)
  moreover have "T \<subseteq> set (allowedArgumentRegisters D)" using S sub by (auto simp: T allowedArgumentRegisters_def)
  ultimately show "least_extension (allowedArgumentRegisters D) (consistent_arguments D) S T"
    using pos unfolding least_extension_def by (simp add: consistent_arguments_def T) blast
qed (simp add: deduceNonPositionBasedArguments_def Let_def)

lemma return_values_exact:
  assumes d: "distinct (allowedReturnValueRegisters D)" and S: "S \<subseteq> set (allowedReturnValueRegisters D)"
  shows "deduceReturnValues False D S = Some T \<longleftrightarrow> least_extension (allowedReturnValueRegisters D) (consistent_returnValues D) S T"
proof (rule least_extension_exact)
  let ?G = "GeneralPurposeReturnValueRegisters D" and ?W = "VectorReturnValueRegisters D"
  let ?P = "set (take (findLastUsedIndex ?G S) ?G)" and ?Q = "set (take (findLastUsedIndex ?W S) ?W)"
  have d: "distinct ?G" "distinct ?W" "set ?G \<inter> set ?W = {}" using d by (simp_all add: allowedReturnValueRegisters_def)
  have empty: "take (findLastUsedIndex Rs S) Rs = [] \<longleftrightarrow> S \<inter> set Rs = {}" for Rs
    using findLastUsedIndex_0 [of Rs S] findLastUsedIndex_spec(1) [of Rs S] by auto
  {
    fix T assume "deduceReturnValues False D S = Some T"
    then have T: "T = S \<union> ?P \<union> ?Q" and none: "S \<inter> set ?G = {} \<or> S \<inter> set ?W = {}"
      using empty [of ?G] empty [of ?W] by (auto simp: deduceReturnValues_def Let_def split: if_splits)
    have sub: "?P \<subseteq> set ?G" "?Q \<subseteq> set ?W" by (rule set_take_subset)+
    have "without_holes ?G T" unfolding T using sub d(3) by (intro without_holes_prefix [OF d(1)]) blast
    moreover have "without_holes ?W (S \<union> ?Q \<union> ?P)" using sub d(3) by (intro without_holes_prefix [OF d(2)]) blast
    then have "without_holes ?W T" unfolding T by (simp only: Un_ac)
    moreover have "T \<inter> set ?G = {} \<or> T \<inter> set ?W = {}" using none empty [of ?G] empty [of ?W] sub d(3) unfolding T by auto
    moreover have "T \<subseteq> U" if "S \<subseteq> U" "consistent_returnValues D U" for U
      using used_prefix_least [OF that(1)] that by (auto simp: T consistent_returnValues_def)
    moreover have "T \<subseteq> set (allowedReturnValueRegisters D)" using S sub by (auto simp: T allowedReturnValueRegisters_def)
    ultimately show "least_extension (allowedReturnValueRegisters D) (consistent_returnValues D) S T"
      unfolding least_extension_def by (simp add: consistent_returnValues_def T) blast
  }
  assume "deduceReturnValues False D S = None"
  then have "S \<inter> set ?G \<noteq> {}" "S \<inter> set ?W \<noteq> {}" using empty [of ?G] empty [of ?W] by (auto simp: deduceReturnValues_def Let_def split: if_splits)
  then show "\<nexists>T. least_extension (allowedReturnValueRegisters D) (consistent_returnValues D) S T"
    by (auto simp: least_extension_def consistent_returnValues_def)
qed

text \<open>
  \<^bold>\<open>C12\<close>. The soft deductions are exact: they return a set of registers if and only if it is the least one that contains the
  given set, has only registers of the ABI and is consistent with it: no holes in the order of the registers and, for
  position based ABIs, one register per position; for return values, only one kind of registers. They fail only when there
  is no such set: a register is not allowed, two registers exclude each other, or it is not determined which to use.
\<close>

theorem register_deduction_exact:
  assumes "distinct (allowedArgumentRegisters D)" "distinct (allowedReturnValueRegisters D)"
  shows "(tryDeducingArgumentRegisterState D S = Some T \<longleftrightarrow> least_extension (allowedArgumentRegisters D) (consistent_arguments D) S T)
    \<and> (tryDeducingReturnValueRegisterState D S = Some T \<longleftrightarrow> least_extension (allowedReturnValueRegisters D) (consistent_returnValues D) S T)"
proof -
  have "tryDeducingArgumentRegisterState D S = Some T \<longleftrightarrow> least_extension (allowedArgumentRegisters D) (consistent_arguments D) S T"
    using position_based_exact [OF assms(1)] non_position_based_exact [OF assms(1)] least_extension_allowed [of "allowedArgumentRegisters D" _ S T]
    by (cases "S \<subseteq> set (allowedArgumentRegisters D)") (auto simp: tryDeducingArgumentRegisterState_def deduce_arguments_def ensure_soft)
  moreover have "tryDeducingReturnValueRegisterState D S = Some T \<longleftrightarrow> least_extension (allowedReturnValueRegisters D) (consistent_returnValues D) S T"
    using return_values_exact [OF assms(2)] least_extension_allowed [of "allowedReturnValueRegisters D" _ S T]
    by (cases "S \<subseteq> set (allowedReturnValueRegisters D)") (auto simp: tryDeducingReturnValueRegisterState_def deduce_returnValues_def ensure_soft)
  ultimately show ?thesis by blast
qed

theorem register_deduction_exact_witness:
  "tryDeducingArgumentRegisterState SystemV_x86_64_definition {rdx_x86_64} = Some {rdi_x86_64, rsi_x86_64, rdx_x86_64}
    \<and> least_extension (allowedArgumentRegisters SystemV_x86_64_definition) (consistent_arguments SystemV_x86_64_definition)
        {rdx_x86_64} {rdi_x86_64, rsi_x86_64, rdx_x86_64}"
proof -
  have soft: "tryDeducingArgumentRegisterState SystemV_x86_64_definition {rdx_x86_64} = Some {rdi_x86_64, rsi_x86_64, rdx_x86_64}" by code_simp
  have "distinct (allowedArgumentRegisters SystemV_x86_64_definition)" "distinct (allowedReturnValueRegisters SystemV_x86_64_definition)"
    by (simp_all add: allowedArgumentRegisters_def allowedReturnValueRegisters_def SystemV_x86_64_definition_def)
  from register_deduction_exact [OF this] soft show ?thesis by blast
qed

section \<open>The strict deduction\<close>

lemma single_strict:
  "\<exists>S' Required'. singlePositionBasedDeduction True g v S Required = Some (S', Required') \<and> S' \<subseteq> insert g S
    \<and> singlePositionBasedDeduction False g v S Required \<in> {None, Some (S', Required')}"
  by (cases "g \<in> S"; cases "v \<in> S"; cases Required) (auto simp: singlePositionBasedDeduction_def)

lemma position_loop_strict:
  "\<exists>T. position_loop True ps S Required = Some T \<and> T \<subseteq> S \<union> fst ` set ps \<and> (\<forall>U. position_loop False ps S Required = Some U \<longrightarrow> U = T)"
proof (induction ps arbitrary: S Required)
  case (Cons p ps)
  obtain S' Required' where s: "singlePositionBasedDeduction True (fst p) (snd p) S Required = Some (S', Required')" "S' \<subseteq> insert (fst p) S"
      "singlePositionBasedDeduction False (fst p) (snd p) S Required \<in> {None, Some (S', Required')}"
    using single_strict by blast
  obtain T where T: "position_loop True ps S' Required' = Some T" "T \<subseteq> S' \<union> fst ` set ps"
      "\<forall>U. position_loop False ps S' Required' = Some U \<longrightarrow> U = T" using Cons.IH by blast
  have "position_loop True (p # ps) S Required = Some T" using s(1) T(1) by (cases p) simp
  moreover have "U = T" if "position_loop False (p # ps) S Required = Some U" for U
    using that s(3) T(3) by (cases p) (auto split: Option.bind_splits)
  moreover have "T \<subseteq> S \<union> fst ` set (p # ps)" using T(2) s(2) by auto
  ultimately show ?case by blast
qed simp

lemma position_based_strict:
  "\<exists>T. deducePositionBasedArguments True D S = Some T \<and> T \<subseteq> S \<union> set (allowedArgumentRegisters D)
    \<and> (\<forall>U. deducePositionBasedArguments False D S = Some U \<longrightarrow> U = T)"
proof -
  let ?G = "GeneralPurposeArgumentRegisters D" and ?W = "VectorArgumentRegisters D"
  define ps where "ps = zip (rev (if length ?G > length ?W then take (length ?W) ?G else ?G)) (rev (if length ?W > length ?G then take (length ?G) ?W else ?W))"
  define S' where "S' = S \<union> set (take (findLastUsedIndex (unpaired D) S) (unpaired D))"
  have "(if length ?G > length ?W then require_unpaired (rev (drop (length ?W) ?G)) S False
      else if length ?W > length ?G then require_unpaired (rev (drop (length ?G) ?W)) S False else (S, False)) = (S', S \<inter> set (unpaired D) \<noteq> {})"
    by (simp add: unpaired_def Let_def require_unpaired_eq S'_def)
  then have eq: "deducePositionBasedArguments Enforce D S = position_loop Enforce ps S' (S \<inter> set (unpaired D) \<noteq> {})" for Enforce
    by (simp only: deducePositionBasedArguments_def Let_def prod.case ps_def)
  have "fst ` set ps \<subseteq> set ?G" using set_take_subset [of _ ?G] by (auto simp: ps_def dest!: set_zip_leftD dest: in_set_takeD split: if_splits)
  moreover have "S' \<subseteq> S \<union> set (allowedArgumentRegisters D)"
    using unpaired_allowed [of D] set_take_subset [of "findLastUsedIndex (unpaired D) S" "unpaired D"] by (auto simp: S'_def)
  ultimately have "S' \<union> fst ` set ps \<subseteq> S \<union> set (allowedArgumentRegisters D)" by (auto simp: allowedArgumentRegisters_def)
  moreover obtain T where "position_loop True ps S' (S \<inter> set (unpaired D) \<noteq> {}) = Some T" "T \<subseteq> S' \<union> fst ` set ps"
      "\<forall>U. position_loop False ps S' (S \<inter> set (unpaired D) \<noteq> {}) = Some U \<longrightarrow> U = T"
    using position_loop_strict [of ps S' "S \<inter> set (unpaired D) \<noteq> {}"] by blast
  ultimately show ?thesis unfolding eq by (intro exI [of _ T] conjI) (assumption | erule (1) subset_trans)+
qed

text \<open>
  \<^bold>\<open>C14\<close>. The strict deductions never fail, so their assertions hold, the registers they return are allowed by the ABI, and
  whenever the soft deduction determines the registers of the same set they return the same ones.
\<close>

theorem enforced_registers:
  "(\<exists>T. enforceArgumentRegisterState D S = Some T \<and> T \<subseteq> set (allowedArgumentRegisters D)
      \<and> (\<forall>U. tryDeducingArgumentRegisterState D S = Some U \<longrightarrow> U = T))
   \<and> (\<exists>T. enforceReturnValueRegisterState D S = Some T \<and> T \<subseteq> set (allowedReturnValueRegisters D)
      \<and> (\<forall>U. tryDeducingReturnValueRegisterState D S = Some U \<longrightarrow> U = T))"
proof
  let ?A = "set (allowedArgumentRegisters D)"
  have "\<exists>T. deduce_arguments True D S = Some T \<and> T \<subseteq> ?A \<and> (\<forall>U. deduce_arguments False D S = Some U \<longrightarrow> U = T)"
  proof (cases "ArgumentsArePositionBased D")
    case True
    then show ?thesis using position_based_strict [of D "S \<inter> ?A"]
      by (auto simp: deduce_arguments_def ensure_soft ensure_strict Int_absorb2 split: if_splits)
  next
    case False
    obtain T where T: "deduceNonPositionBasedArguments D (S \<inter> ?A) = Some T" "T \<subseteq> ?A"
      by (auto simp: deduceNonPositionBasedArguments_def Let_def allowedArgumentRegisters_def dest: in_set_takeD)
    then show ?thesis using False
      by (intro exI [of _ T]) (auto simp: deduce_arguments_def ensure_soft ensure_strict Int_absorb2 split: if_splits)
  qed
  then show "\<exists>T. enforceArgumentRegisterState D S = Some T \<and> T \<subseteq> ?A \<and> (\<forall>U. tryDeducingArgumentRegisterState D S = Some U \<longrightarrow> U = T)"
    by (auto simp: enforceArgumentRegisterState_def tryDeducingArgumentRegisterState_def)
next
  let ?A = "set (allowedReturnValueRegisters D)"
  have "\<exists>T. deduceReturnValues True D (S \<inter> ?A) = Some T \<and> T \<subseteq> ?A \<and> (\<forall>U. deduceReturnValues False D (S \<inter> ?A) = Some U \<longrightarrow> U = T)"
    by (auto simp: deduceReturnValues_def Let_def allowedReturnValueRegisters_def dest: in_set_takeD)
  then obtain T where T: "deduceReturnValues True D (S \<inter> ?A) = Some T" "T \<subseteq> ?A" "\<forall>U. deduceReturnValues False D (S \<inter> ?A) = Some U \<longrightarrow> U = T" by blast
  then show "\<exists>T. enforceReturnValueRegisterState D S = Some T \<and> T \<subseteq> ?A \<and> (\<forall>U. tryDeducingReturnValueRegisterState D S = Some U \<longrightarrow> U = T)"
    by (intro exI [of _ T]) (auto simp: enforceReturnValueRegisterState_def tryDeducingReturnValueRegisterState_def deduce_returnValues_def Let_def ensure_soft
        ensure_strict Int_absorb2 split: if_splits)
qed

theorem enforced_registers_witness:
  "tryDeducingArgumentRegisterState Microsoft_x86_64_definition {rcx_x86_64, zmm1_x86_64} = Some {rcx_x86_64, zmm1_x86_64}
    \<and> enforceArgumentRegisterState Microsoft_x86_64_definition {rcx_x86_64, zmm1_x86_64} = Some {rcx_x86_64, zmm1_x86_64}"
proof -
  have "tryDeducingArgumentRegisterState Microsoft_x86_64_definition {rcx_x86_64, zmm1_x86_64} = Some {rcx_x86_64, zmm1_x86_64}" by code_simp
  then show ?thesis using enforced_registers [of Microsoft_x86_64_definition "{rcx_x86_64, zmm1_x86_64}"] by auto
qed

text \<open>
  \<^bold>\<open>Fact\<close>. Of a position with both registers the strict deduction drops the vector one, but it does not note that the position
  is used: the positions before it stay empty, the result is not consistent with the ABI, and enforcing it again changes it.
\<close>

theorem enforcing_twice_differs:
  "enforceArgumentRegisterState Microsoft_x86_64_definition {rdx_x86_64, zmm1_x86_64} = Some {rdx_x86_64}
    \<and> \<not> consistent_arguments Microsoft_x86_64_definition {rdx_x86_64}
    \<and> enforceArgumentRegisterState Microsoft_x86_64_definition {rdx_x86_64} = Some {rcx_x86_64, rdx_x86_64}"
proof (intro conjI)
  have "position_used Microsoft_x86_64_definition {rdx_x86_64} 1 \<and> \<not> position_used Microsoft_x86_64_definition {rdx_x86_64} 0" by code_simp
  then have "\<exists>j i. position_used Microsoft_x86_64_definition {rdx_x86_64} j \<and> i < j \<and> \<not> position_used Microsoft_x86_64_definition {rdx_x86_64} i"
    by (intro exI [of _ 1] exI [of _ 0]) simp
  moreover have "ArgumentsArePositionBased Microsoft_x86_64_definition" by code_simp
  ultimately show "\<not> consistent_arguments Microsoft_x86_64_definition {rdx_x86_64}" unfolding consistent_arguments_def by (simp only: if_True) blast
qed code_simp+

end
