(* ===== verification/Spec2Isabelle.thy ===== *)
theory Spec2Isabelle
  imports Architecture Meta_Address_Type Meta_Address Meta_Address_Text Overflow_Safe_Int Integer_Serialization
    Sorted_Vector Zip_Map_Iterator Constant_Range_Set Generic_Graph Maximal_Fixed_Point Distributive_Analysis
    Bit_Vector Rua_Function Rua_Simplify Liveness_Analysis Reaching_Definitions Reaching_Exact Register_Usage
    Register_Model Rua_Build Small_Map Unicode Bit_Liveness_Analysis Type_Shrinking
    C_Data_Model Abi_Definition Abi_Shipped Value_Distributor Register_Deductions
begin

text \<open>
  A verification library for rev.ng, a decompiler. The sources are C++; the part modelled is the one
  that is rev.ng's own logic and does not live in LLVM or MLIR data structures: the addresses and
  architecture tables every other part is built on (src/include/revng/Support,
  src/include/revng/Model), the containers and graphs (src/include/revng/ADT), the fixed-point solver
  (src/include/revng/MFP) and, on top of all of these, the register usage analyses with which the
  early function analysis finds the arguments and the return values of a function
  (src/include/revng/RegisterUsageAnalyses, src/lib/EarlyFunctionAnalysis), the ABIs, with which such arguments are
  completed and distributed over registers and the stack (src/lib/Model, src/lib/ABI), and the bit liveness analysis with
  the type shrinking pass that uses it (src/lib/TypeShrinking).

  \<^bold>\<open>How the parts fit together.\<close> A \<^verbatim>\<open>MetaAddress\<close> carries a type, an epoch and an address space, is checked
  with the tables of its type and does its arithmetic in \<^verbatim>\<open>OverflowSafeInt\<close>; a \<^verbatim>\<open>BasicBlockID\<close> is an
  address with an inlining index. \<^verbatim>\<open>SortedVector\<close> keeps keyed objects in order and \<^verbatim>\<open>ZipMapIterator\<close> walks
  two ordered containers at once; \<^verbatim>\<open>ConstantRangeSet\<close> merges its bounds with it. \<^verbatim>\<open>GenericGraph\<close> stores
  nodes with both copies of each edge; the solver sees it through \<^verbatim>\<open>GraphTraits\<close>. A \<^verbatim>\<open>rua::Function\<close> is
  such a graph of blocks of register operations; \<^verbatim>\<open>Liveness\<close> and \<^verbatim>\<open>ReachingDefinitions\<close> are instances of
  the solver on it, and \<^verbatim>\<open>analyzeRegisterUsage\<close> reads the registers off their results. An \<^verbatim>\<open>abi::Definition\<close> lists registers of
  \<^verbatim>\<open>model::Register\<close>; \<^verbatim>\<open>tryDeducingArgumentRegisterState\<close> completes a set of registers by it, and the
  \<^verbatim>\<open>ArgumentDistributor\<close> follows it argument by argument.

  \<^bold>\<open>The theories.\<close>
  \<^item> \<open>Revng_Prelude\<close>: machine integers, the type \<open>'a checked\<close> of computations that may stop at a
    \<^verbatim>\<open>revng_assert\<close> or have no meaning in C++, little-endian byte strings, shared lemmas.
  \<^item> \<open>Architecture\<close> (Model/Architecture.h): the enumeration and its tables; they agree with each
    other, except for the MIPS pattern, which is shown to be swapped.
  \<^item> \<open>Register_Model\<close> (Model/Register.h, lib/Model/Register.cpp): the registers, their tables, names and CSVs.
    Shown: the tables are total and the enumeration of an architecture is exact, names and registers
    correspond, the CSVs of a register partition it and are looked up to it.
  \<^item> \<open>Meta_Address_Type\<close>, \<open>Meta_Address\<close>, \<open>Meta_Address_Text\<close> (Support/MetaAddress.h, MetaAddress.cpp,
    BasicBlockID.h, BasicBlockID.cpp): the types with their tables; the address as a record, each
    method a definition with prefix \<open>ma_\<close>. Shown: the invariant and that every operation keeps it,
    exact arithmetic with its overflow, page rounding, the program counter, byte, integer and text
    codecs as round trips, and where they are none.
  \<^item> \<open>Overflow_Safe_Int\<close>, \<open>Integer_Serialization\<close> (Support/OverflowSafeInt.h, IntegerSerialization.h):
    checked arithmetic at a width, packing of integers into bytes.
  \<^item> \<open>Sorted_Vector\<close> (ADT/SortedVector.h, KeyedObjectContainer.h, SerializableGraph.h): every operation
    on a vector and a flag; the locale \<open>keyed_object\<close> states what an element type must provide.
    Shown: the order invariant, lookups, insertion, erasure, and that a batch with assignment is a
    sequence of insertions.
  \<^item> \<open>Zip_Map_Iterator\<close> (ADT/ZipMapIterator.h): the iterator and its range, against a reference merge.
  \<^item> \<open>Constant_Range_Set\<close> (ADT/ConstantRangeSet.h): sets of integers as sorted bounds, over
    \<^verbatim>\<open>llvm::APInt\<close> as a parameter; a refinement of sets of numbers, canonical, with size and iteration.
  \<^item> \<open>Generic_Graph\<close> (ADT/GenericGraph.h): forward and bidirectional nodes in a heap of pointers and
    the graph that owns them; the two copies of the edges stay in step.
  \<^item> \<open>Maximal_Fixed_Point\<close> (MFP/MFP.h, SetLattices.h, ADT/ReversePostOrderTraversal.h): the solver, by
    worklist; it returns for every monotone framework and computes the least solution. Locales
    \<open>mfp_lattice\<close>, \<open>monotone_framework\<close>, \<open>post_order_graph\<close>, \<open>mfp_solver\<close>.
  \<^item> \<open>Distributive_Analysis\<close>: for analyses that treat each fact alone the least solution is the set of
    facts that flow along the edges.
  \<^item> \<open>Bit_Vector\<close>: \<^verbatim>\<open>llvm::BitVector\<close> as a parameter.
  \<^item> \<open>Rua_Function\<close>, \<open>Rua_Simplify\<close> (RegisterUsageAnalyses/Function.h): the data, the numbering of the
    CSVs, paths and first accesses; \<^verbatim>\<open>simplify\<close> does not change what a function can execute.
  \<^item> \<open>Liveness_Analysis\<close>, \<open>Reaching_Definitions\<close>, \<open>Reaching_Exact\<close> (RegisterUsageAnalyses/Liveness.h,
    ReachingDefinitions.h): the two analyses, and that their results are exact on every path.
  \<^item> \<open>Register_Usage\<close> (AnalyzeRegisterUsage.h, AnalyzeRegisterUsage.cpp): the analysis of a function, its
    results and their combination, exact in terms of the paths of the graph.
  \<^item> \<open>Rua_Build\<close> (AnalyzeRegisterUsage.cpp): the construction of the graph from an LLVM function, which is
    shown to end with a graph the analyses accept, and the analysis as a whole.
  \<^item> \<open>Small_Map\<close> (ADT/SmallMap.h): the map that starts as an array. Shown: sequences of operations act as
    on a map, ordered search, and the one erasure that does not.
  \<^item> \<open>Unicode\<close> (Support/Unicode.h, Unicode.cpp): the decoders of C strings. Shown: UTF-8 is decoded exactly,
    UTF-16 within the basic multilingual plane, and where the decoders fail.
  \<^item> \<open>Graph_Traits\<close> (ADT/GenericGraph.h): a graph as the solver sees it, in both directions, and a traversal.
  \<^item> \<open>Llvm_Values\<close>: LLVM functions, what their instructions compute (locale \<open>llvm_semantics\<close>) and executions.
  \<^item> \<open>Bit_Liveness\<close>, \<open>Bit_Liveness_Analysis\<close> (lib/TypeShrinking/BitLiveness.cpp, DataFlowGraph.cpp): which low bits
    of the instructions matter, as an instance of the solver. Shown: the analysis ends with the least
    solution, and dead bits cannot be observed in any execution.
  \<^item> \<open>Type_Shrinking\<close> (lib/TypeShrinking/TypeShrinking.cpp): the pass that computes instructions at a smaller
    width. Shown: executions are the same, narrowed comparisons have the same result; two left shifts
    for which it fails.
  \<^item> \<open>C_Data_Model\<close> (Support/CDataModel.h): the sizes of the types of C.
  \<^item> \<open>Abi_Definition\<close>, \<open>Abi_Shipped\<close> (Model/ABI.h, Model/ABI/Definition.h, lib/Model/ABIDefinition.cpp,
    share/revng/abi): what an ABI says about registers and the stack, and the definitions of all ABIs.
    Shown: they all pass verification, registers are sorted into the order of the ABI, the check of a
    function against an ABI is exact.
  \<^item> \<open>Value_Distributor\<close> (lib/ABI/FunctionType/ValueDistributor.h, ValueDistributor.cpp): where the arguments of
    a function are passed. Shown: under every shipped ABI and for every list of arguments the distribution
    ends without a failed assertion, no register and no byte in use on the stack is given twice, and
    arguments fit; and a double argument that takes stack it does not need.
  \<^item> \<open>Register_Deductions\<close> (lib/ABI/RegisterStateDeductions.cpp): which registers must be arguments when some
    are. Shown: the soft deduction returns the least consistent set or there is none, the strict one
    always returns and agrees with it; and that enforcing is not idempotent.

  \<^bold>\<open>Parameters and hypotheses.\<close> Code that is not part of the sources is a parameter: \<^verbatim>\<open>llvm::APInt\<close>
  (\<open>APInt_ops\<close>, locale \<open>apint\<close>), \<^verbatim>\<open>llvm::BitVector\<close> (\<open>BitVector_ops\<close>, locale \<open>bit_vector\<close>), LLVM's post-order
  iterator (\<open>po_ext\<close>, locale \<open>post_order_graph\<close>), LLVM's string functions (\<open>LLVM_strings\<close>, locale
  \<open>llvm_strings\<close>) and hexadecimal numbers (\<open>LLVM_hex\<close>, locale \<open>llvm_hex\<close>), the LLVM function under analysis (\<open>LLVM_ops\<close>, predicate \<open>llvm_wf\<close>), \<^verbatim>\<open>StringRef::find\<close>
  (locale \<open>string_find\<close>), the LLVM functions whose types are shrunk and what their instructions compute
  (\<open>LLVM_Function\<close>, predicate \<open>function_ok\<close>, locale \<open>llvm_semantics\<close>), \<^verbatim>\<open>llvm::alignToPowerOf2\<close> (locale \<open>power_of_2_alignment\<close>). Each locale states documented behaviour only and is interpreted on a concrete,
  executable implementation, which the witnesses use.

  \<^bold>\<open>Fuel.\<close> Loops are structural recursions or have a termination proof. Fuel bounds the depth of the
  example traversal \<open>dfs_from\<close>, where the number of nodes is enough, and the number of steps of
  \<open>crs_iterate\<close>, where \<open>2 ^ BitWidth\<close> is enough; the solver's loop is proved to return.

  \<^bold>\<open>Not modelled.\<close> The passes that rewrite LLVM IR or MLIR (lifting, isolation, promotion of CSVs and of
  the stack, Clift and its C backend, restructuring), the tuple-tree classes, which are generated from
  model-schema.yml at build time, the importers, the pipeline and its C interface, and the presentation
  layers: they are glue over libraries or generated code, or I/O. Logging and dumping are left out
  everywhere. Next in the plan: the function summary oracle and the detection of the ABI, the nodes with
  mutable edges.
\<close>

end
